(* ===== verification/C_Prelude.thy ===== *)
theory C_Prelude
  imports Main "HOL-Library.Word" "HOL-Library.Monad_Syntax"
begin

text \<open>
  What the whole development shares: the machine integer types of the C code, the
  collections of rewrite rules that the component theories fill, the congruence rule
  that makes the simplifier run monadic code from left to right, and the little-endian
  view of a machine word as a list of bytes.

  A C function is a HOL function into \<open>'a option\<close>.  \<^term>\<open>None\<close> means that the
  function has no defined result: it accessed memory it may not access, called a null
  function pointer, or did not return.  Error returns of the C code are ordinary values.
\<close>

unbundle bit_operations_syntax

named_theorems mem_simps \<open>facts that rewrite memory accesses\<close>
named_theorems c_defs \<open>small definitions of the C code that proofs always unfold\<close>

type_synonym byte = "8 word"
type_synonym u8 = "8 word"
type_synonym u32 = "32 word"
type_synonym u64 = "64 word"

text \<open>\<open>size_t\<close> of the 64-bit targets the application is built for.\<close>

type_synonym size = "64 word"

section \<open>Sequencing\<close>

text \<open>The continuation of a bind is only simplified once its first part has a value.\<close>

lemma bind_weak_cong: "p = q \<Longrightarrow> Option.bind p f = Option.bind q f"
  by simp

lemma bind_Some_iff [simp]:
  "Option.bind p f = Some y \<longleftrightarrow> (\<exists>x. p = Some x \<and> f x = Some y)"
  by (cases p) auto

lemma case_Some_iff: "(case p of None \<Rightarrow> None | Some x \<Rightarrow> f x) = Option.bind p f"
  by (cases p) auto

section \<open>Words and bytes\<close>

lemma uint_of_unat: "unat w = n \<Longrightarrow> uint w = int n"
  by (simp only: uint_nat)

lemma unat_drop_bit_div: "unat (drop_bit n w) = unat w div 2 ^ n"
  by (subst unat_drop_bit_eq) (rule drop_bit_eq_div)

lemma unat_ucast_up:
  "LENGTH('a) \<le> LENGTH('b) \<Longrightarrow> unat (ucast (w :: 'a::len word) :: 'b::len word) = unat w"
  by (simp add: unsigned_ucast_eq take_bit_nat_eq_self_iff)
    (rule less_le_trans [OF unsigned_less], simp)

lemma ucast_up_down:
  "LENGTH('a) \<le> LENGTH('b) \<Longrightarrow> ucast (ucast (w :: 'a::len word) :: 'b::len word) = w"
  by (rule bit_word_eqI) (auto simp: bit_simps)

lemma word_eq_bits: "w = v \<longleftrightarrow> (\<forall>k < LENGTH('a). bit (w :: 'a::len word) k = bit v k)"
  by (auto intro: bit_word_eqI)

lemma take_bit_unat_less: "take_bit k w = w \<longleftrightarrow> unat w < 2 ^ k"
  by (simp add: word_eq_iff_unsigned [where ?'a = nat] unsigned_take_bit_eq take_bit_nat_eq_self_iff)

lemma bit_unat_less: "unat w < 2 ^ k \<Longrightarrow> bit w n \<Longrightarrow> n < k"
  by (metis bit_take_bit_iff take_bit_unat_less)

text \<open>The bytes of a string literal.\<close>

definition ascii :: "string \<Rightarrow> byte list" where
  "ascii s = map (\<lambda>c. of_nat (of_char c)) s"

text \<open>The \<open>n\<close> low bytes of a word, least significant first, and the word they spell.\<close>

primrec le_bytes :: "nat \<Rightarrow> 'a::len word \<Rightarrow> byte list" where
  "le_bytes 0 w = []"
| "le_bytes (Suc n) w = ucast w # le_bytes n (drop_bit 8 w)"

primrec le_word :: "byte list \<Rightarrow> 'a::len word" where
  "le_word [] = 0"
| "le_word (b # bs) = ucast b OR push_bit 8 (le_word bs)"

lemma length_le_bytes [simp]: "length (le_bytes n w) = n"
  by (induction n arbitrary: w) simp_all

lemma le_word_le_bytes: "le_word (le_bytes n w) = take_bit (8 * n) w"
proof (induction n arbitrary: w)
  case 0
  then show ?case by simp
next
  case (Suc n)
  show ?case
    by (rule bit_word_eqI) (auto simp: Suc bit_simps)
qed

lemma le_word_le_bytes_full [simp]:
  "LENGTH('a) \<le> 8 * n \<Longrightarrow> le_word (le_bytes n (w :: 'a::len word)) = w"
  by (simp add: le_word_le_bytes take_bit_word_eq_self)

lemma bit_le_wordD:
  "bit (le_word bs :: 'a::len word) i \<Longrightarrow> i < 8 * length bs"
proof (induction bs arbitrary: i)
  case Nil
  then show ?case by simp
next
  case (Cons b bs)
  from Cons.prems consider "bit b i" | "8 \<le> i" "bit (le_word bs :: 'a word) (i - 8)"
    by (auto simp: bit_simps)
  then show ?case
  proof cases
    case 1
    then have "i < 8" using bit_imp_le_length [of b i] by simp
    then show ?thesis by simp
  next
    case 2
    with Cons.IH [of "i - 8"] show ?thesis by simp
  qed
qed

lemma le_bytes_le_word:
  "8 * length bs \<le> LENGTH('a) \<Longrightarrow> le_bytes (length bs) (le_word bs :: 'a::len word) = bs"
proof (induction bs)
  case Nil
  then show ?case by simp
next
  case (Cons b bs)
  have low: "ucast (ucast b OR push_bit 8 (le_word bs) :: 'a word) = b"
    using Cons.prems by (intro bit_word_eqI) (auto simp: bit_simps)
  have high: "drop_bit 8 (ucast b OR push_bit 8 (le_word bs) :: 'a word) = le_word bs"
    using Cons.prems
    by (intro bit_word_eqI)
      (auto simp: bit_simps dest: bit_imp_le_length bit_le_wordD)
  have "le_bytes (length bs) (le_word bs :: 'a word) = bs"
    using Cons by simp
  then show ?case
    by (simp only: length_Cons le_word.simps le_bytes.simps low high)
qed

lemma ucast_and_FF:
  assumes "8 \<le> LENGTH('a)"
  shows "(ucast (w AND 0xFF :: 'a::len word) :: byte) = ucast w"
proof -
  have eq: "(0xFF :: 'a word) = mask 8" by (simp add: mask_eq_exp_minus_1)
  show ?thesis
    unfolding eq by (rule bit_word_eqI) (use assms in \<open>auto simp: bit_simps\<close>)
qed

end
