(* ===== verification/C_Memory.thy ===== *)
theory C_Memory
  imports C_Prelude
begin

text \<open>
  The memory of the C program: a partial map from addresses to bytes.  The addresses in
  its domain are the bytes the program may access; an access anywhere else is undefined
  behaviour, the result \<^term>\<open>None\<close>.  Addresses are integers, so that the pointer
  arithmetic of the code (which adds negative offsets too) is exact; the null pointer is
  \<open>0\<close>.  Scalars are stored little endian, as on the application's targets, and a
  pointer occupies eight bytes.
\<close>

type_synonym addr = int
type_synonym mem = "addr \<rightharpoonup> byte"

abbreviation NULL :: addr where "NULL \<equiv> 0"

section \<open>Access by bytes\<close>

primrec load_bytes :: "mem \<Rightarrow> addr \<Rightarrow> nat \<Rightarrow> byte list option" where
  "load_bytes m a 0 = Some []"
| "load_bytes m a (Suc n) =
     (case m a of None \<Rightarrow> None | Some b \<Rightarrow> map_option ((#) b) (load_bytes m (a + 1) n))"

primrec store_bytes :: "mem \<Rightarrow> addr \<Rightarrow> byte list \<Rightarrow> mem option" where
  "store_bytes m a [] = Some m"
| "store_bytes m a (b # bs) =
     (case m a of None \<Rightarrow> None | Some _ \<Rightarrow> store_bytes (m(a \<mapsto> b)) (a + 1) bs)"

definition region :: "addr \<Rightarrow> nat \<Rightarrow> addr set" where
  "region a n = {a ..< a + int n}"

definition allocated :: "mem \<Rightarrow> addr \<Rightarrow> nat \<Rightarrow> bool" where
  "allocated m a n \<longleftrightarrow> region a n \<subseteq> dom m"

definition overwrite :: "mem \<Rightarrow> addr \<Rightarrow> byte list \<Rightarrow> mem" where
  "overwrite m a bs = (\<lambda>x. if x \<in> region a (length bs) then Some (bs ! nat (x - a)) else m x)"

lemma region_0 [simp]: "region a 0 = {}"
  by (simp add: region_def)

lemma region_Suc: "region a (Suc n) = insert a (region (a + 1) n)"
  by (auto simp: region_def)

lemma region_add: "region a (n + k) = region a n \<union> region (a + int n) k"
  by (auto simp: region_def)

lemma region_mono: "n \<le> k \<Longrightarrow> region a n \<subseteq> region a k"
  by (auto simp: region_def)

lemma region_sub: "a \<le> b \<Longrightarrow> b + int n \<le> a + int k \<Longrightarrow> region b n \<subseteq> region a k"
  by (auto simp: region_def)

lemma in_region: "x \<in> region a n \<longleftrightarrow> a \<le> x \<and> x < a + int n"
  by (simp add: region_def)

lemma allocated_0 [simp]: "allocated m a 0"
  by (simp add: allocated_def)

lemma allocated_Suc: "allocated m a (Suc n) \<longleftrightarrow> a \<in> dom m \<and> allocated m (a + 1) n"
  by (simp add: allocated_def region_Suc)

lemma allocated_add:
  "allocated m a (n + k) \<longleftrightarrow> allocated m a n \<and> allocated m (a + int n) k"
  by (simp add: allocated_def region_add)

lemma allocated_le: "allocated m a k \<Longrightarrow> n \<le> k \<Longrightarrow> allocated m a n"
  using region_mono by (fastforce simp: allocated_def)

lemma allocated_sub:
  "allocated m a k \<Longrightarrow> a \<le> b \<Longrightarrow> b + int n \<le> a + int k \<Longrightarrow> allocated m b n"
  unfolding allocated_def region_def by (erule subset_trans [rotated]) auto

lemma allocated_dom: "dom m' = dom m \<Longrightarrow> allocated m' a n = allocated m a n"
  by (simp add: allocated_def)

lemma load_bytes_iff:
  "load_bytes m a n = Some bs \<longleftrightarrow>
     length bs = n \<and> (\<forall>i<n. m (a + int i) = Some (bs ! i))"
proof (induction n arbitrary: a bs)
  case 0
  then show ?case by auto
next
  case (Suc n)
  have "load_bytes m a (Suc n) = Some bs \<longleftrightarrow>
      (\<exists>b cs. m a = Some b \<and> load_bytes m (a + 1) n = Some cs \<and> bs = b # cs)"
    by (auto split: option.splits)
  also have "\<dots> \<longleftrightarrow> length bs = Suc n \<and> (\<forall>i<Suc n. m (a + int i) = Some (bs ! i))"
    by (cases bs) (auto simp: Suc All_less_Suc2 add.assoc)
  finally show ?case .
qed

lemma load_bytes_length: "load_bytes m a n = Some bs \<Longrightarrow> length bs = n"
  by (simp add: load_bytes_iff)

lemma load_bytes_defined: "(\<exists>bs. load_bytes m a n = Some bs) \<longleftrightarrow> allocated m a n"
proof (induction n arbitrary: a)
  case 0
  then show ?case by simp
next
  case (Suc n)
  then show ?case
    by (auto simp: allocated_Suc split: option.splits)
qed

lemma load_bytes_allocated: "load_bytes m a n = Some bs \<Longrightarrow> allocated m a n"
  using load_bytes_defined by blast

lemma load_bytes_add:
  "load_bytes m a (n + k) =
     Option.bind (load_bytes m a n) (\<lambda>xs. map_option ((@) xs) (load_bytes m (a + int n) k))"
proof (induction n arbitrary: a)
  case 0
  then show ?case by (cases "load_bytes m a k") (auto simp: map_option_case)
next
  case (Suc n)
  then show ?case
    by (cases "m a"; cases "load_bytes m (a + 1) n"; cases "load_bytes m (1 + (a + int n)) k")
      (simp_all add: algebra_simps)
qed

lemma load_bytes_cong:
  "(\<And>x. x \<in> region a n \<Longrightarrow> m' x = m x) \<Longrightarrow> load_bytes m' a n = load_bytes m a n"
  by (induction n arbitrary: a) (auto simp: region_Suc split: option.splits)

lemma load_bytes_appendI:
  "load_bytes m a (length xs) = Some xs \<Longrightarrow> load_bytes m (a + int (length xs)) k = Some ys \<Longrightarrow>
   load_bytes m a (length xs + k) = Some (xs @ ys)"
  by (simp add: load_bytes_add)

lemma load_bytes_take:
  "load_bytes m a n = Some xs \<Longrightarrow> k \<le> n \<Longrightarrow> load_bytes m a k = Some (take k xs)"
  by (auto simp: load_bytes_iff)

lemma load_bytes_drop:
  "load_bytes m a n = Some xs \<Longrightarrow> k \<le> n \<Longrightarrow>
   load_bytes m (a + int k) (n - k) = Some (drop k xs)"
  by (auto simp: load_bytes_iff add.assoc simp flip: of_nat_add)

lemma load_bytes_append:
  "load_bytes m a (length xs + k) = Some (xs @ ys) \<Longrightarrow>
   load_bytes m (a + int (length xs)) k = Some ys"
  using load_bytes_drop [of m a "length xs + k" "xs @ ys" "length xs"] by simp

lemma overwrite_Nil [simp]: "overwrite m a [] = m"
  by (simp add: overwrite_def)

lemma overwrite_Cons: "overwrite m a (b # bs) = overwrite (m(a \<mapsto> b)) (a + 1) bs"
proof
  fix x
  show "overwrite m a (b # bs) x = overwrite (m(a \<mapsto> b)) (a + 1) bs x"
    by (cases "x = a")
      (auto simp: overwrite_def region_def nth_Cons nat_diff_distrib' split: nat.splits
        intro: arg_cong [where f = "nth bs"])
qed

lemma store_bytes_eq:
  "store_bytes m a bs = (if allocated m a (length bs) then Some (overwrite m a bs) else None)"
proof (induction bs arbitrary: m a)
  case Nil
  then show ?case by simp
next
  case (Cons b bs)
  show ?case
  proof (cases "m a")
    case None
    then show ?thesis by (simp add: allocated_Suc domIff)
  next
    case (Some c)
    then have "allocated (m(a \<mapsto> b)) (a + 1) (length bs) = allocated m (a + 1) (length bs)"
      by (intro allocated_dom) auto
    with Cons.IH have "store_bytes (m(a \<mapsto> b)) (a + 1) bs =
        (if allocated m (a + 1) (length bs) then Some (overwrite m a (b # bs)) else None)"
      by (simp only: overwrite_Cons)
    with Some show ?thesis
      by (simp only: store_bytes.simps option.case allocated_Suc length_Cons) (simp add: domIff)
  qed
qed

lemma store_bytes_defined: "allocated m a (length bs) \<Longrightarrow> \<exists>m'. store_bytes m a bs = Some m'"
  by (simp add: store_bytes_eq)

lemma store_bytes_dom: "store_bytes m a bs = Some m' \<Longrightarrow> dom m' = dom m"
  by (auto simp: store_bytes_eq overwrite_def allocated_def split: if_splits)

lemma store_bytes_frame:
  "store_bytes m a bs = Some m' \<Longrightarrow> x \<notin> region a (length bs) \<Longrightarrow> m' x = m x"
  by (auto simp: store_bytes_eq overwrite_def split: if_splits)

lemma load_store_same:
  "store_bytes m a bs = Some m' \<Longrightarrow> load_bytes m' a (length bs) = Some bs"
  by (auto simp: store_bytes_eq load_bytes_iff overwrite_def region_def split: if_splits)

lemma load_store_other:
  "store_bytes m a bs = Some m' \<Longrightarrow> region b n \<inter> region a (length bs) = {} \<Longrightarrow>
   load_bytes m' b n = load_bytes m b n"
  by (rule load_bytes_cong) (blast intro: store_bytes_frame)

section \<open>Scalars, pointers and blocks\<close>

definition load_word :: "mem \<Rightarrow> addr \<Rightarrow> nat \<Rightarrow> 'a::len word option" where
  "load_word m a n = map_option le_word (load_bytes m a n)"

definition store_word :: "mem \<Rightarrow> addr \<Rightarrow> nat \<Rightarrow> 'a::len word \<Rightarrow> mem option" where
  "store_word m a n w = store_bytes m a (le_bytes n w)"

definition load_ptr :: "mem \<Rightarrow> addr \<Rightarrow> addr option" where
  "load_ptr m a = map_option (\<lambda>w :: u64. uint w) (load_word m a 8)"

definition store_ptr :: "mem \<Rightarrow> addr \<Rightarrow> addr \<Rightarrow> mem option" where
  "store_ptr m a p = store_word m a 8 (word_of_int p :: u64)"

definition load_bool :: "mem \<Rightarrow> addr \<Rightarrow> bool option" where
  "load_bool m a = map_option (\<lambda>b. b \<noteq> 0) (m a)"

definition store_bool :: "mem \<Rightarrow> addr \<Rightarrow> bool \<Rightarrow> mem option" where
  "store_bool m a b = store_bytes m a [if b then 1 else 0]"

definition memset :: "mem \<Rightarrow> addr \<Rightarrow> byte \<Rightarrow> nat \<Rightarrow> mem option" where
  "memset m a b n = store_bytes m a (replicate n b)"

definition memcpy :: "mem \<Rightarrow> addr \<Rightarrow> addr \<Rightarrow> nat \<Rightarrow> mem option" where
  "memcpy m d s n = Option.bind (load_bytes m s n) (store_bytes m d)"

lemma load_store_word [mem_simps]:
  "store_word m a n (w :: 'a::len word) = Some m' \<Longrightarrow>
   load_word m' a n = Some (take_bit (8 * n) w :: 'a word)"
  using load_store_same [of m a "le_bytes n w" m']
  by (simp add: store_word_def load_word_def le_word_le_bytes)

lemma load_word_defined: "(\<exists>w. load_word m a n = Some w) \<longleftrightarrow> allocated m a n"
  by (auto simp: load_word_def simp flip: load_bytes_defined)

text \<open>
  Every write keeps the set of accessible addresses, changes nothing outside the written
  region, and is defined exactly on accessible regions.
\<close>

definition writes :: "mem \<Rightarrow> addr \<Rightarrow> nat \<Rightarrow> mem option \<Rightarrow> bool" where
  "writes m a n r \<longleftrightarrow>
     (\<exists>m'. r = Some m') = allocated m a n \<and>
     (\<forall>m'. r = Some m' \<longrightarrow> dom m' = dom m \<and> (\<forall>x. x \<notin> region a n \<longrightarrow> m' x = m x))"

lemma writes_store_bytes: "writes m a (length bs) (store_bytes m a bs)"
  unfolding writes_def
  by (intro conjI allI impI store_bytes_dom store_bytes_frame) (auto simp: store_bytes_eq)

lemma writes_store_word: "writes m a n (store_word m a n w)"
  using writes_store_bytes [of m a "le_bytes n w"] by (simp add: store_word_def)

lemma writes_store_ptr: "writes m a 8 (store_ptr m a p)"
  by (simp add: store_ptr_def writes_store_word)

lemma writes_store_bool: "writes m a 1 (store_bool m a b)"
  using writes_store_bytes [of m a "[if b then 1 else 0]"] by (simp add: store_bool_def)

lemma writes_memset: "writes m a n (memset m a b n)"
  using writes_store_bytes [of m a "replicate n b"] by (simp add: memset_def)

lemmas writes_intros =
  writes_store_bytes writes_store_word writes_store_ptr writes_store_bool writes_memset

lemma writesD:
  assumes "writes m a n r"
  shows writes_defined: "allocated m a n \<Longrightarrow> \<exists>m'. r = Some m'"
    and writes_allocated: "r = Some m' \<Longrightarrow> allocated m a n"
    and writes_dom: "r = Some m' \<Longrightarrow> dom m' = dom m"
    and writes_frame: "r = Some m' \<Longrightarrow> x \<notin> region a n \<Longrightarrow> m' x = m x"
  using assms by (auto simp: writes_def)

end
