(* ===== verification/Pb_Types.thy ===== *)
theory Pb_Types
  imports C_Memory
begin

text \<open>
  The types and constants of \<open>nanopb/pb.h\<close>, for the configuration the application builds
  (\<open>PB_FIELD_32BIT=1\<close>, \<open>PB_NO_PACKED_STRUCTS=1\<close>, and neither \<open>PB_ENABLE_MALLOC\<close>, nor
  \<open>PB_BUFFER_ONLY\<close>, nor \<open>PB_NO_ERRMSG\<close>): field types, field descriptors and the macros
  that build them, the input and output streams of \<open>pb_decode.h\<close> and \<open>pb_encode.h\<close>, and
  the code outside the library (stream, field and extension callbacks, the constant
  tables of descriptors), which is the parameter \<open>env\<close> of the definitions that use it.
\<close>

section \<open>Field types\<close>

type_synonym pb_type_t = u8
type_synonym pb_size_t = u32

definition PB_LTYPE_VARINT :: pb_type_t where [c_defs]: "PB_LTYPE_VARINT = 0x00"
definition PB_LTYPE_UVARINT :: pb_type_t where [c_defs]: "PB_LTYPE_UVARINT = 0x01"
definition PB_LTYPE_SVARINT :: pb_type_t where [c_defs]: "PB_LTYPE_SVARINT = 0x02"
definition PB_LTYPE_FIXED32 :: pb_type_t where [c_defs]: "PB_LTYPE_FIXED32 = 0x03"
definition PB_LTYPE_FIXED64 :: pb_type_t where [c_defs]: "PB_LTYPE_FIXED64 = 0x04"
definition PB_LTYPE_LAST_PACKABLE :: pb_type_t where [c_defs]: "PB_LTYPE_LAST_PACKABLE = 0x04"
definition PB_LTYPE_BYTES :: pb_type_t where [c_defs]: "PB_LTYPE_BYTES = 0x05"
definition PB_LTYPE_STRING :: pb_type_t where [c_defs]: "PB_LTYPE_STRING = 0x06"
definition PB_LTYPE_SUBMESSAGE :: pb_type_t where [c_defs]: "PB_LTYPE_SUBMESSAGE = 0x07"
definition PB_LTYPE_EXTENSION :: pb_type_t where [c_defs]: "PB_LTYPE_EXTENSION = 0x08"
definition PB_LTYPE_FIXED_LENGTH_BYTES :: pb_type_t where
  [c_defs]: "PB_LTYPE_FIXED_LENGTH_BYTES = 0x09"
definition PB_LTYPES_COUNT :: nat where [c_defs]: "PB_LTYPES_COUNT = 0x0A"
definition PB_LTYPE_MASK :: pb_type_t where [c_defs]: "PB_LTYPE_MASK = 0x0F"

definition PB_HTYPE_REQUIRED :: pb_type_t where [c_defs]: "PB_HTYPE_REQUIRED = 0x00"
definition PB_HTYPE_OPTIONAL :: pb_type_t where [c_defs]: "PB_HTYPE_OPTIONAL = 0x10"
definition PB_HTYPE_REPEATED :: pb_type_t where [c_defs]: "PB_HTYPE_REPEATED = 0x20"
definition PB_HTYPE_ONEOF :: pb_type_t where [c_defs]: "PB_HTYPE_ONEOF = 0x30"
definition PB_HTYPE_MASK :: pb_type_t where [c_defs]: "PB_HTYPE_MASK = 0x30"

definition PB_ATYPE_STATIC :: pb_type_t where [c_defs]: "PB_ATYPE_STATIC = 0x00"
definition PB_ATYPE_POINTER :: pb_type_t where [c_defs]: "PB_ATYPE_POINTER = 0x80"
definition PB_ATYPE_CALLBACK :: pb_type_t where [c_defs]: "PB_ATYPE_CALLBACK = 0x40"
definition PB_ATYPE_MASK :: pb_type_t where [c_defs]: "PB_ATYPE_MASK = 0xC0"

definition PB_ATYPE :: "pb_type_t \<Rightarrow> pb_type_t" where "PB_ATYPE x = x AND PB_ATYPE_MASK"
definition PB_HTYPE :: "pb_type_t \<Rightarrow> pb_type_t" where "PB_HTYPE x = x AND PB_HTYPE_MASK"
definition PB_LTYPE :: "pb_type_t \<Rightarrow> pb_type_t" where "PB_LTYPE x = x AND PB_LTYPE_MASK"

lemma htypes_distinct [simp]:
  "PB_HTYPE_REQUIRED \<noteq> PB_HTYPE_OPTIONAL"
  "PB_HTYPE_REQUIRED \<noteq> PB_HTYPE_REPEATED"
  "PB_HTYPE_REQUIRED \<noteq> PB_HTYPE_ONEOF"
  "PB_HTYPE_OPTIONAL \<noteq> PB_HTYPE_REQUIRED"
  "PB_HTYPE_OPTIONAL \<noteq> PB_HTYPE_REPEATED"
  "PB_HTYPE_OPTIONAL \<noteq> PB_HTYPE_ONEOF"
  "PB_HTYPE_REPEATED \<noteq> PB_HTYPE_REQUIRED"
  "PB_HTYPE_REPEATED \<noteq> PB_HTYPE_OPTIONAL"
  "PB_HTYPE_REPEATED \<noteq> PB_HTYPE_ONEOF"
  "PB_HTYPE_ONEOF \<noteq> PB_HTYPE_REQUIRED"
  "PB_HTYPE_ONEOF \<noteq> PB_HTYPE_OPTIONAL"
  "PB_HTYPE_ONEOF \<noteq> PB_HTYPE_REPEATED"
  by (simp_all add: c_defs)

lemma atypes_distinct [simp]:
  "PB_ATYPE_STATIC \<noteq> PB_ATYPE_POINTER"
  "PB_ATYPE_STATIC \<noteq> PB_ATYPE_CALLBACK"
  "PB_ATYPE_POINTER \<noteq> PB_ATYPE_STATIC"
  "PB_ATYPE_POINTER \<noteq> PB_ATYPE_CALLBACK"
  "PB_ATYPE_CALLBACK \<noteq> PB_ATYPE_STATIC"
  "PB_ATYPE_CALLBACK \<noteq> PB_ATYPE_POINTER"
  by (simp_all add: c_defs)

definition PB_SIZE_MAX :: pb_size_t where [c_defs]: "PB_SIZE_MAX = - 1"

definition PB_MAX_REQUIRED_FIELDS :: nat where [c_defs]: "PB_MAX_REQUIRED_FIELDS = 64"

text \<open>
  Wire types.  The enumeration of the code takes every value of \<open>tag & 7\<close>, declared or
  not, so it is a number here.
\<close>

type_synonym pb_wire_type_t = u32

definition PB_WT_VARINT :: pb_wire_type_t where [c_defs]: "PB_WT_VARINT = 0"
definition PB_WT_64BIT :: pb_wire_type_t where [c_defs]: "PB_WT_64BIT = 1"
definition PB_WT_STRING :: pb_wire_type_t where [c_defs]: "PB_WT_STRING = 2"
definition PB_WT_32BIT :: pb_wire_type_t where [c_defs]: "PB_WT_32BIT = 5"

section \<open>Field descriptors\<close>

text \<open>
  \<open>pb_field_s\<close>.  \<open>pf_ptr\<close> is the address of a submessage's field array or of a default
  value, or null.  The field arrays are constants of the program; \<open>fields_at\<close> of the
  environment below says what array an address points to.
\<close>

record pb_field =
  pf_tag :: pb_size_t
  pf_type :: pb_type_t
  pf_data_offset :: pb_size_t
  pf_size_offset :: u32
  pf_data_size :: pb_size_t
  pf_array_size :: pb_size_t
  pf_ptr :: addr

abbreviation "pf_ltype f \<equiv> PB_LTYPE (pf_type f)"
abbreviation "pf_htype f \<equiv> PB_HTYPE (pf_type f)"
abbreviation "pf_atype f \<equiv> PB_ATYPE (pf_type f)"

definition PB_LAST_FIELD :: pb_field where
  "PB_LAST_FIELD = \<lparr>pf_tag = 0, pf_type = 0, pf_data_offset = 0, pf_size_offset = 0,
     pf_data_size = 0, pf_array_size = 0, pf_ptr = NULL\<rparr>"

text \<open>
  The macros that fill in a descriptor.  What they compute from the structure type
  (\<open>offsetof\<close>, \<open>sizeof\<close>, \<open>pb_delta\<close>) is an argument: \<open>fd\<close> is the data offset, \<open>delta\<close>
  the offset of the count or \<open>has_\<close> member from the field, \<open>msize\<close> the size of the
  member (of one entry for arrays) and \<open>asize\<close> the number of entries.
\<close>

definition pb_field_init ::
  "u32 \<Rightarrow> pb_type_t \<Rightarrow> int \<Rightarrow> int \<Rightarrow> nat \<Rightarrow> nat \<Rightarrow> addr \<Rightarrow> pb_field" where
  "pb_field_init tag ty fd delta msize asize p =
     \<lparr>pf_tag = tag, pf_type = ty, pf_data_offset = word_of_int fd,
      pf_size_offset = word_of_int delta, pf_data_size = of_nat msize,
      pf_array_size = of_nat asize, pf_ptr = p\<rparr>"

definition PB_DATAOFFSET_FIRST :: "int \<Rightarrow> int" where
  "PB_DATAOFFSET_FIRST off1 = off1"
definition PB_DATAOFFSET_OTHER :: "int \<Rightarrow> int \<Rightarrow> nat \<Rightarrow> int" where
  "PB_DATAOFFSET_OTHER off1 off2 msize2 = off1 - off2 - int msize2"
definition PB_DATAOFFSET_UNION :: int where
  "PB_DATAOFFSET_UNION = uint PB_SIZE_MAX"

definition PB_REQUIRED_STATIC :: "u32 \<Rightarrow> nat \<Rightarrow> int \<Rightarrow> pb_type_t \<Rightarrow> addr \<Rightarrow> pb_field" where
  "PB_REQUIRED_STATIC tag msize fd ltype p =
     pb_field_init tag (PB_ATYPE_STATIC OR PB_HTYPE_REQUIRED OR ltype) fd 0 msize 0 p"
definition PB_OPTIONAL_STATIC :: "u32 \<Rightarrow> nat \<Rightarrow> int \<Rightarrow> int \<Rightarrow> pb_type_t \<Rightarrow> addr \<Rightarrow> pb_field" where
  "PB_OPTIONAL_STATIC tag msize fd delta ltype p =
     pb_field_init tag (PB_ATYPE_STATIC OR PB_HTYPE_OPTIONAL OR ltype) fd delta msize 0 p"
definition PB_SINGULAR_STATIC :: "u32 \<Rightarrow> nat \<Rightarrow> int \<Rightarrow> pb_type_t \<Rightarrow> addr \<Rightarrow> pb_field" where
  "PB_SINGULAR_STATIC tag msize fd ltype p =
     pb_field_init tag (PB_ATYPE_STATIC OR PB_HTYPE_OPTIONAL OR ltype) fd 0 msize 0 p"
definition PB_REPEATED_STATIC ::
  "u32 \<Rightarrow> nat \<Rightarrow> nat \<Rightarrow> int \<Rightarrow> int \<Rightarrow> pb_type_t \<Rightarrow> addr \<Rightarrow> pb_field" where
  "PB_REPEATED_STATIC tag msize asize fd delta ltype p =
     pb_field_init tag (PB_ATYPE_STATIC OR PB_HTYPE_REPEATED OR ltype) fd delta msize asize p"
definition PB_REQUIRED_POINTER :: "u32 \<Rightarrow> nat \<Rightarrow> int \<Rightarrow> pb_type_t \<Rightarrow> addr \<Rightarrow> pb_field" where
  "PB_REQUIRED_POINTER tag msize fd ltype p =
     pb_field_init tag (PB_ATYPE_POINTER OR PB_HTYPE_REQUIRED OR ltype) fd 0 msize 0 p"
definition PB_OPTIONAL_POINTER :: "u32 \<Rightarrow> nat \<Rightarrow> int \<Rightarrow> pb_type_t \<Rightarrow> addr \<Rightarrow> pb_field" where
  "PB_OPTIONAL_POINTER tag msize fd ltype p =
     pb_field_init tag (PB_ATYPE_POINTER OR PB_HTYPE_OPTIONAL OR ltype) fd 0 msize 0 p"
definition PB_REPEATED_POINTER ::
  "u32 \<Rightarrow> nat \<Rightarrow> int \<Rightarrow> int \<Rightarrow> pb_type_t \<Rightarrow> addr \<Rightarrow> pb_field" where
  "PB_REPEATED_POINTER tag msize fd delta ltype p =
     pb_field_init tag (PB_ATYPE_POINTER OR PB_HTYPE_REPEATED OR ltype) fd delta msize 0 p"
definition PB_CALLBACK_FIELD ::
  "pb_type_t \<Rightarrow> u32 \<Rightarrow> nat \<Rightarrow> int \<Rightarrow> pb_type_t \<Rightarrow> addr \<Rightarrow> pb_field" where
  "PB_CALLBACK_FIELD htype tag msize fd ltype p =
     pb_field_init tag (PB_ATYPE_CALLBACK OR htype OR ltype) fd 0 msize 0 p"
definition PB_OPTEXT_STATIC :: "u32 \<Rightarrow> nat \<Rightarrow> pb_type_t \<Rightarrow> addr \<Rightarrow> pb_field" where
  "PB_OPTEXT_STATIC tag msize ltype p =
     pb_field_init tag (PB_ATYPE_STATIC OR PB_HTYPE_REQUIRED OR ltype) 0 0 msize 0 p"
definition PB_ONEOF_STATIC :: "u32 \<Rightarrow> nat \<Rightarrow> int \<Rightarrow> int \<Rightarrow> pb_type_t \<Rightarrow> addr \<Rightarrow> pb_field" where
  "PB_ONEOF_STATIC tag msize fd delta ltype p =
     pb_field_init tag (PB_ATYPE_STATIC OR PB_HTYPE_ONEOF OR ltype) fd delta msize 0 p"
definition PB_ONEOF_POINTER :: "u32 \<Rightarrow> nat \<Rightarrow> int \<Rightarrow> int \<Rightarrow> pb_type_t \<Rightarrow> addr \<Rightarrow> pb_field" where
  "PB_ONEOF_POINTER tag msize fd delta ltype p =
     pb_field_init tag (PB_ATYPE_POINTER OR PB_HTYPE_ONEOF OR ltype) fd delta msize 0 p"

lemmas pb_field_macros =
  PB_REQUIRED_STATIC_def PB_OPTIONAL_STATIC_def PB_SINGULAR_STATIC_def PB_REPEATED_STATIC_def
  PB_REQUIRED_POINTER_def PB_OPTIONAL_POINTER_def PB_REPEATED_POINTER_def
  PB_CALLBACK_FIELD_def PB_OPTEXT_STATIC_def PB_ONEOF_STATIC_def PB_ONEOF_POINTER_def
  pb_field_init_def PB_DATAOFFSET_FIRST_def PB_DATAOFFSET_OTHER_def PB_DATAOFFSET_UNION_def

section \<open>Arrays with a length\<close>

text \<open>
  \<open>pb_bytes_array_t\<close> is a \<open>pb_size_t\<close> followed by the bytes, so \<open>bytes\<close> is at offset 4;
  \<open>pb_callback_t\<close> is a function pointer followed by \<open>arg\<close>; \<open>pb_extension_t\<close> holds the
  pointers \<open>type\<close>, \<open>dest\<close> and \<open>next\<close>, then \<open>found\<close>.
\<close>

definition bytes_offset :: int where [c_defs]: "bytes_offset = 4"

definition PB_BYTES_ARRAY_T_ALLOCSIZE :: "u32 \<Rightarrow> size" where
  "PB_BYTES_ARRAY_T_ALLOCSIZE n = ucast n + word_of_int bytes_offset"

definition callback_arg_offset :: int where [c_defs]: "callback_arg_offset = 8"
definition ext_type_offset :: int where [c_defs]: "ext_type_offset = 0"
definition ext_dest_offset :: int where [c_defs]: "ext_dest_offset = 8"
definition ext_next_offset :: int where [c_defs]: "ext_next_offset = 16"
definition ext_found_offset :: int where [c_defs]: "ext_found_offset = 24"

section \<open>Streams\<close>

text \<open>
  The callback of an input stream is either \<open>buf_read\<close> of \<open>pb_decode.c\<close> or a function of
  the application, known by its address; an output stream can also have none (a sizing
  stream).  \<open>state\<close> is a pointer: into the buffer for the streams made by
  \<open>pb_istream_from_buffer\<close> and \<open>pb_ostream_from_buffer\<close>.
\<close>

datatype istream_callback = Buf_read | Read_callback addr
datatype ostream_callback = No_callback | Buf_write | Write_callback addr

record pb_istream =
  is_callback :: istream_callback
  is_state :: addr
  is_bytes_left :: size
  is_errmsg :: "string option"

record pb_ostream =
  os_callback :: ostream_callback
  os_state :: addr
  os_max_size :: size
  os_bytes_written :: size
  os_errmsg :: "string option"

text \<open>\<open>PB_SET_ERROR\<close>: the first message set on a stream stays.\<close>

definition is_set_error :: "string \<Rightarrow> pb_istream \<Rightarrow> pb_istream" where
  "is_set_error msg s =
     s\<lparr>is_errmsg := (case is_errmsg s of Some e \<Rightarrow> Some e | None \<Rightarrow> Some msg)\<rparr>"

definition os_set_error :: "string \<Rightarrow> pb_ostream \<Rightarrow> pb_ostream" where
  "os_set_error msg s =
     s\<lparr>os_errmsg := (case os_errmsg s of Some e \<Rightarrow> Some e | None \<Rightarrow> Some msg)\<rparr>"

lemma is_set_error_simps [simp]:
  "is_callback (is_set_error e s) = is_callback s"
  "is_state (is_set_error e s) = is_state s"
  "is_bytes_left (is_set_error e s) = is_bytes_left s"
  "is_errmsg (is_set_error e s) \<noteq> None"
  by (auto simp: is_set_error_def split: option.splits)

lemma os_set_error_simps [simp]:
  "os_callback (os_set_error e s) = os_callback s"
  "os_state (os_set_error e s) = os_state s"
  "os_max_size (os_set_error e s) = os_max_size s"
  "os_bytes_written (os_set_error e s) = os_bytes_written s"
  "os_errmsg (os_set_error e s) \<noteq> None"
  by (auto simp: os_set_error_def split: option.splits)

section \<open>The environment\<close>

text \<open>
  What a write callback is handed: the address of the bytes, or bytes in a local array of
  the library (whose address the model does not need).
\<close>

datatype write_src = At addr | Local "byte list"

record pb_extension_type =
  et_decode :: addr
  et_encode :: addr
  et_arg :: addr

text \<open>
  The functions of the application that the library calls through function pointers, by
  address, and the program's constant tables.  A read callback returns whether it
  succeeded and the bytes it stored in the buffer it was given.
\<close>

record pb_env =
  read_cb :: "addr \<Rightarrow> pb_istream \<Rightarrow> size \<Rightarrow> mem \<Rightarrow> (bool \<times> byte list \<times> pb_istream \<times> mem) option"
  write_cb :: "addr \<Rightarrow> pb_ostream \<Rightarrow> write_src \<Rightarrow> size \<Rightarrow> mem \<Rightarrow> (bool \<times> pb_ostream \<times> mem) option"
  field_decode_cb :: "addr \<Rightarrow> pb_istream \<Rightarrow> pb_field \<Rightarrow> addr \<Rightarrow> mem \<Rightarrow> (bool \<times> pb_istream \<times> mem) option"
  field_encode_cb :: "addr \<Rightarrow> pb_ostream \<Rightarrow> pb_field \<Rightarrow> addr \<Rightarrow> mem \<Rightarrow> (bool \<times> pb_ostream \<times> mem) option"
  ext_decode_cb :: "addr \<Rightarrow> pb_istream \<Rightarrow> addr \<Rightarrow> u32 \<Rightarrow> pb_wire_type_t \<Rightarrow> mem \<Rightarrow> (bool \<times> pb_istream \<times> mem) option"
  ext_encode_cb :: "addr \<Rightarrow> pb_ostream \<Rightarrow> addr \<Rightarrow> mem \<Rightarrow> (bool \<times> pb_ostream \<times> mem) option"
  ext_type_at :: "addr \<Rightarrow> pb_extension_type option"
  fields_at :: "addr \<Rightarrow> pb_field list"
  raw_buffer :: addr

text \<open>
  \<open>raw_buffer\<close> is the address of the local array \<open>buffer[10]\<close> of
  \<open>decode_callback_field\<close>, the only local array whose address reaches other code.
\<close>

end
