(* ===== verification/Pb_Common.thy ===== *)
theory Pb_Common
  imports Pb_Types
begin

text \<open>
  \<open>nanopb/pb_common.c\<close>: the iterator over the fields of a message.  An iterator holds the
  field array (a list that ends with the terminator, whose tag is 0), the position in it,
  and the addresses of the current field and of its count or \<open>has_\<close> member.  Reading past
  the end of the array is undefined behaviour.  The lemmas show that on a well-formed array
  the iterator visits every field once, in order, at the address given by the closed
  formulas \<open>data_at\<close> and \<open>size_at\<close>, and that the search for a tag terminates and finds the
  first match in cyclic order.
\<close>

section \<open>The iterator\<close>

record pb_field_iter =
  it_start :: "pb_field list"
  it_pos :: nat
  it_required_field_index :: nat
  it_dest_struct :: addr
  it_pData :: addr
  it_pSize :: addr

definition field_at :: "pb_field list \<Rightarrow> nat \<Rightarrow> pb_field option" where
  "field_at flds i = (if i < length flds then Some (flds ! i) else None)"

abbreviation it_field :: "pb_field_iter \<Rightarrow> pb_field option" where
  "it_field iter \<equiv> field_at (it_start iter) (it_pos iter)"

definition pb_field_iter_begin :: "pb_field list \<Rightarrow> addr \<Rightarrow> (bool \<times> pb_field_iter) option" where
  "pb_field_iter_begin flds dest_struct = do {
     f \<leftarrow> field_at flds 0;
     let pData = dest_struct + uint (pf_data_offset f);
     let pSize = pData + sint (pf_size_offset f);
     Some (pf_tag f \<noteq> 0,
       \<lparr>it_start = flds, it_pos = 0, it_required_field_index = 0,
        it_dest_struct = dest_struct, it_pData = pData, it_pSize = pSize\<rparr>)
   }"

text \<open>The size of a field in the structure, as \<open>pb_field_iter_next\<close> computes it.\<close>

definition field_extent :: "pb_field \<Rightarrow> int" where
  "field_extent f =
     (if pf_atype f = PB_ATYPE_STATIC \<and> pf_htype f = PB_HTYPE_REPEATED
      then uint (pf_data_size f) * uint (pf_array_size f)
      else if pf_atype f = PB_ATYPE_POINTER then 8
      else uint (pf_data_size f))"

definition in_same_union :: "pb_field \<Rightarrow> pb_field \<Rightarrow> bool" where
  "in_same_union prev cur \<longleftrightarrow> pf_htype prev = PB_HTYPE_ONEOF \<and>
     pf_htype cur = PB_HTYPE_ONEOF \<and> pf_data_offset cur = PB_SIZE_MAX"

definition pb_field_iter_next :: "pb_field_iter \<Rightarrow> (bool \<times> pb_field_iter) option" where
  "pb_field_iter_next iter = do {
     prev_field \<leftarrow> it_field iter;
     if pf_tag prev_field = 0 then Some (False, iter)
     else do {
       let iter = iter\<lparr>it_pos := it_pos iter + 1\<rparr>;
       cur \<leftarrow> it_field iter;
       if pf_tag cur = 0 then do {
         (_, iter) \<leftarrow> pb_field_iter_begin (it_start iter) (it_dest_struct iter);
         Some (False, iter)
       }
       else if in_same_union prev_field cur then Some (True, iter)
       else do {
         let iter = (if pf_htype prev_field = PB_HTYPE_REQUIRED
           then iter\<lparr>it_required_field_index := it_required_field_index iter + 1\<rparr> else iter);
         let iter = iter\<lparr>it_pData :=
           it_pData iter + field_extent prev_field + uint (pf_data_offset cur)\<rparr>;
         let iter = iter\<lparr>it_pSize := it_pData iter + sint (pf_size_offset cur)\<rparr>;
         Some (True, iter)
       }
     }
   }"

partial_function (option) iter_find_loop ::
  "(pb_field \<Rightarrow> bool) \<Rightarrow> nat \<Rightarrow> pb_field_iter \<Rightarrow> (bool \<times> pb_field_iter) option" where
  "iter_find_loop P start iter = do {
     f \<leftarrow> it_field iter;
     if P f then Some (True, iter)
     else do {
       (_, iter) \<leftarrow> pb_field_iter_next iter;
       if it_pos iter \<noteq> start then iter_find_loop P start iter
       else Some (False, iter)
     }
   }"

declare iter_find_loop.simps [code]

definition is_field_with_tag :: "u32 \<Rightarrow> pb_field \<Rightarrow> bool" where
  "is_field_with_tag tag f \<longleftrightarrow> pf_tag f = tag \<and> pf_ltype f \<noteq> PB_LTYPE_EXTENSION"

definition pb_field_iter_find :: "pb_field_iter \<Rightarrow> u32 \<Rightarrow> (bool \<times> pb_field_iter) option" where
  "pb_field_iter_find iter tag = iter_find_loop (is_field_with_tag tag) (it_pos iter) iter"

section \<open>Where the iterator goes\<close>

text \<open>A field array: flds with nonzero tags, then the terminator.\<close>

definition wf_fields :: "pb_field list \<Rightarrow> bool" where
  "wf_fields flds \<longleftrightarrow> flds \<noteq> [] \<and> pf_tag (last flds) = 0 \<and>
     (\<forall>f \<in> set (butlast flds). pf_tag f \<noteq> 0)"

abbreviation field_count :: "pb_field list \<Rightarrow> nat" where
  "field_count flds \<equiv> length flds - 1"

primrec data_at :: "pb_field list \<Rightarrow> addr \<Rightarrow> nat \<Rightarrow> addr" where
  "data_at flds dest 0 = dest + uint (pf_data_offset (flds ! 0))"
| "data_at flds dest (Suc i) =
     (if in_same_union (flds ! i) (flds ! Suc i) then data_at flds dest i
      else data_at flds dest i + field_extent (flds ! i)
        + uint (pf_data_offset (flds ! Suc i)))"

primrec size_at :: "pb_field list \<Rightarrow> addr \<Rightarrow> nat \<Rightarrow> addr" where
  "size_at flds dest 0 = data_at flds dest 0 + sint (pf_size_offset (flds ! 0))"
| "size_at flds dest (Suc i) =
     (if in_same_union (flds ! i) (flds ! Suc i) then size_at flds dest i
      else data_at flds dest (Suc i) + sint (pf_size_offset (flds ! Suc i)))"

definition required_before :: "pb_field list \<Rightarrow> nat \<Rightarrow> nat" where
  "required_before flds i =
     length (filter (\<lambda>f. pf_htype f = PB_HTYPE_REQUIRED) (take i flds))"

definition iter_at :: "pb_field list \<Rightarrow> addr \<Rightarrow> nat \<Rightarrow> pb_field_iter" where
  "iter_at flds dest i =
     \<lparr>it_start = flds, it_pos = i, it_required_field_index = required_before flds i,
      it_dest_struct = dest, it_pData = data_at flds dest i, it_pSize = size_at flds dest i\<rparr>"

lemma iter_at_simps [simp]:
  "it_start (iter_at flds dest i) = flds"
  "it_pos (iter_at flds dest i) = i"
  "it_required_field_index (iter_at flds dest i) = required_before flds i"
  "it_dest_struct (iter_at flds dest i) = dest"
  "it_pData (iter_at flds dest i) = data_at flds dest i"
  "it_pSize (iter_at flds dest i) = size_at flds dest i"
  by (simp_all add: iter_at_def)

lemma wf_fields_pos:
  assumes "wf_fields flds"
  shows "flds \<noteq> []" "0 < length flds"
  using assms by (auto simp: wf_fields_def)

lemma wf_fields_tag:
  assumes "wf_fields flds" "i < length flds"
  shows "pf_tag (flds ! i) = 0 \<longleftrightarrow> i = field_count flds"
proof (cases "i = field_count flds")
  case True
  with assms show ?thesis by (auto simp: wf_fields_def last_conv_nth)
next
  case False
  with assms have "i < length (butlast flds)" by simp
  then have "flds ! i \<in> set (butlast flds)"
    using nth_mem [of i "butlast flds"] by (simp add: nth_butlast)
  with assms False show ?thesis by (auto simp: wf_fields_def)
qed

lemma required_before_Suc:
  "i < length flds \<Longrightarrow> required_before flds (Suc i) =
     required_before flds i + (if pf_htype (flds ! i) = PB_HTYPE_REQUIRED then 1 else 0)"
  by (simp add: required_before_def take_Suc_conv_app_nth)

lemma field_at_nth [simp]: "i < length flds \<Longrightarrow> field_at flds i = Some (flds ! i)"
  by (simp add: field_at_def)

lemma iter_begin:
  "flds \<noteq> [] \<Longrightarrow>
   pb_field_iter_begin flds dest = Some (pf_tag (flds ! 0) \<noteq> 0, iter_at flds dest 0)"
  by (simp add: pb_field_iter_begin_def iter_at_def required_before_def Let_def)

lemma iter_begin_wf:
  "wf_fields flds \<Longrightarrow>
   pb_field_iter_begin flds dest = Some (0 < field_count flds, iter_at flds dest 0)"
  using wf_fields_tag [of flds 0] by (auto simp: iter_begin wf_fields_pos)

lemma iter_next:
  assumes wf: "wf_fields flds" and i: "i < field_count flds"
  shows "pb_field_iter_next (iter_at flds dest i) =
    Some (Suc i < field_count flds,
          iter_at flds dest (if Suc i < field_count flds then Suc i else 0))"
proof -
  have len: "i < length flds" "Suc i < length flds" using i by auto
  have t0: "pf_tag (flds ! i) \<noteq> 0" using wf_fields_tag [OF wf len(1)] i by simp
  have t1: "pf_tag (flds ! Suc i) = 0 \<longleftrightarrow> Suc i = field_count flds"
    using wf_fields_tag [OF wf len(2)] .
  show ?thesis
    using len t0 t1 i iter_begin_wf [OF wf, of dest]
    by (auto simp: pb_field_iter_next_def Let_def iter_at_def in_same_union_def
        required_before_Suc)
qed

lemma iter_next_empty:
  assumes "wf_fields flds" "field_count flds = 0"
  shows "pb_field_iter_next (iter_at flds dest 0) = Some (False, iter_at flds dest 0)"
  using assms wf_fields_tag [of flds 0] wf_fields_pos [of flds]
  by (simp add: pb_field_iter_next_def)

section \<open>Visiting every field\<close>

text \<open>The loop \<open>do { ... } while (pb_field_iter_next(&iter))\<close>, as a sequence of iterators.\<close>

primrec iter_nexts :: "nat \<Rightarrow> pb_field_iter \<Rightarrow> (bool \<times> pb_field_iter) option" where
  "iter_nexts 0 iter = Some (True, iter)"
| "iter_nexts (Suc k) iter = do {
     (ok, iter) \<leftarrow> iter_nexts k iter;
     if ok then pb_field_iter_next iter else Some (False, iter)
   }"

lemma iter_nexts_at:
  assumes wf: "wf_fields flds" and k: "k < field_count flds"
  shows "iter_nexts k (iter_at flds dest 0) = Some (True, iter_at flds dest k)"
  using k
proof (induction k)
  case 0
  then show ?case by simp
next
  case (Suc k)
  then have "iter_nexts k (iter_at flds dest 0) = Some (True, iter_at flds dest k)" by simp
  with Suc.prems iter_next [OF wf, of k dest] show ?case by simp
qed

section \<open>Searching\<close>

text \<open>The positions from \<open>j\<close> to the end, then from the beginning up to \<open>i\<close>.\<close>

definition search_order :: "nat \<Rightarrow> nat \<Rightarrow> nat \<Rightarrow> nat list" where
  "search_order n i j = (if i \<le> j then [j..<n] @ [0..<i] else [j..<i])"

lemma search_order_step:
  assumes "i < n" "j < n"
  defines "j' \<equiv> (if Suc j < n then Suc j else 0)"
  shows "search_order n i j = j # (if j' = i then [] else search_order n i j')"
  using assms by (auto simp: search_order_def upt_conv_Cons upt_rec [of j n] upt_rec [of j i])

lemma iter_find_loop_at:
  assumes wf: "wf_fields flds" and i: "i < field_count flds" and j: "j < field_count flds"
  shows "iter_find_loop P i (iter_at flds dest j) =
    (case find (\<lambda>k. P (flds ! k)) (search_order (field_count flds) i j) of
       Some k \<Rightarrow> Some (True, iter_at flds dest k)
     | None \<Rightarrow> Some (False, iter_at flds dest i))"
  using j
proof (induction "length (search_order (field_count flds) i j)" arbitrary: j rule: less_induct)
  case less
  define n where "n = field_count flds"
  define j' where "j' = (if Suc j < n then Suc j else 0)"
  have step: "search_order n i j = j # (if j' = i then [] else search_order n i j')"
    using search_order_step [of i n j] i less.prems by (simp add: n_def j'_def)
  have j': "j' < n" using less.prems i by (auto simp: j'_def n_def)
  have f: "it_field (iter_at flds dest j) = Some (flds ! j)" using less.prems by simp
  have nx: "pb_field_iter_next (iter_at flds dest j) = Some (Suc j < n, iter_at flds dest j')"
    using iter_next [OF wf less.prems] by (simp add: n_def j'_def)
  show ?case
  proof (cases "P (flds ! j)")
    case True
    then show ?thesis using f step by (simp add: iter_find_loop.simps n_def)
  next
    case False
    note unf = iter_find_loop.simps [of P i "iter_at flds dest j"]
    show ?thesis
    proof (cases "j' = i")
      case True
      with False show ?thesis using f nx step by (simp add: unf n_def)
    next
      case neq: False
      then have "length (search_order n i j') < length (search_order n i j)"
        by (simp add: step)
      then have "iter_find_loop P i (iter_at flds dest j') =
        (case find (\<lambda>k. P (flds ! k)) (search_order n i j') of
           Some k \<Rightarrow> Some (True, iter_at flds dest k)
         | None \<Rightarrow> Some (False, iter_at flds dest i))"
        using less.hyps [of j'] j' by (simp add: n_def)
      with neq False show ?thesis using f nx step by (simp add: unf n_def)
    qed
  qed
qed

lemma set_search_order: "i < n \<Longrightarrow> set (search_order n i i) = {..<n}"
  by (auto simp: search_order_def)

lemma iter_find_loop_start:
  assumes "wf_fields flds" "i < field_count flds"
  obtains j where "j < field_count flds" "P (flds ! j)"
      "iter_find_loop P i (iter_at flds dest i) = Some (True, iter_at flds dest j)"
  | "\<forall>j < field_count flds. \<not> P (flds ! j)"
      "iter_find_loop P i (iter_at flds dest i) = Some (False, iter_at flds dest i)"
proof (cases "find (\<lambda>k. P (flds ! k)) (search_order (field_count flds) i i)")
  case None
  then have "\<forall>j < field_count flds. \<not> P (flds ! j)"
    using set_search_order [OF assms(2)] by (auto simp: find_None_iff)
  with None show ?thesis
    using that(2) iter_find_loop_at [OF assms(1,2,2), of P dest] by simp
next
  case (Some j)
  then have "j \<in> set (search_order (field_count flds) i i)" "P (flds ! j)"
    by (auto simp: find_Some_iff)
  with Some show ?thesis
    using that(1) [of j] iter_find_loop_at [OF assms(1,2,2), of P dest] set_search_order [OF assms(2)]
    by auto
qed

end
