(* ===== verification/Pb_Istream.thy ===== *)
theory Pb_Istream
  imports Pb_Common
begin

text \<open>
  The input side of \<open>nanopb/pb_decode.c\<close>: input streams, the integer formats of the wire,
  skipping of fields, and substreams.  A function that delivers a value through a pointer
  on success returns it as \<open>Some v\<close>, and \<open>None\<close> where the C function returns false; the
  stream and the memory it leaves are part of every result.
\<close>

type_synonym 'a read_result = "('a \<times> pb_istream \<times> mem) option"

section \<open>Reading bytes\<close>

text \<open>
  \<open>buf_read\<close>: the buffer is in memory at \<open>state\<close>.  Without a destination it only moves the
  pointer, and reads nothing.
\<close>

definition buf_read ::
  "pb_istream \<Rightarrow> bool \<Rightarrow> size \<Rightarrow> mem \<Rightarrow> (bool \<times> byte list \<times> pb_istream \<times> mem) option" where
  "buf_read stream has_buf count m = do {
     let source = is_state stream;
     let stream = stream\<lparr>is_state := source + uint count\<rparr>;
     if has_buf then do {
       bytes \<leftarrow> load_bytes m source (unat count);
       Some (True, bytes, stream, m)
     }
     else Some (True, [], stream, m)
   }"

definition istream_callback ::
  "pb_env \<Rightarrow> pb_istream \<Rightarrow> bool \<Rightarrow> size \<Rightarrow> mem \<Rightarrow> (bool \<times> byte list \<times> pb_istream \<times> mem) option" where
  "istream_callback env stream has_buf count m =
     (case is_callback stream of
        Buf_read \<Rightarrow> buf_read stream has_buf count m
      | Read_callback f \<Rightarrow> read_cb env f stream count m)"

text \<open>
  \<open>pb_read\<close> into a buffer (or, for a memory stream, past bytes to skip): the part of the
  function after the skipping loop.
\<close>

definition pb_read_direct ::
  "pb_env \<Rightarrow> pb_istream \<Rightarrow> bool \<Rightarrow> size \<Rightarrow> mem \<Rightarrow> (bool \<times> byte list \<times> pb_istream \<times> mem) option" where
  "pb_read_direct env stream has_buf count m =
     (if is_bytes_left stream < count
      then Some (False, [], is_set_error ''end-of-stream'' stream, m)
      else do {
        (ok, bytes, stream, m) \<leftarrow> istream_callback env stream has_buf count m;
        if \<not> ok then Some (False, bytes, is_set_error ''io error'' stream, m)
        else Some (True, bytes, stream\<lparr>is_bytes_left := is_bytes_left stream - count\<rparr>, m)
      })"

partial_function (option) pb_read_skip_loop ::
  "pb_env \<Rightarrow> size \<Rightarrow> pb_istream \<Rightarrow> mem \<Rightarrow> (bool \<times> byte list \<times> pb_istream \<times> mem) option" where
  "pb_read_skip_loop env count stream m =
     (if count > 16 then do {
        (ok, bytes, stream, m) \<leftarrow> pb_read_direct env stream True 16 m;
        if \<not> ok then Some (False, [], stream, m)
        else pb_read_skip_loop env (count - 16) stream m
      }
      else do {
        (ok, bytes, stream, m) \<leftarrow> pb_read_direct env stream True count m;
        Some (ok, [], stream, m)
      })"

declare pb_read_skip_loop.simps [code]

definition pb_read ::
  "pb_env \<Rightarrow> pb_istream \<Rightarrow> bool \<Rightarrow> size \<Rightarrow> mem \<Rightarrow> (bool \<times> byte list \<times> pb_istream \<times> mem) option" where
  "pb_read env stream has_buf count m =
     (if \<not> has_buf \<and> is_callback stream \<noteq> Buf_read
      then pb_read_skip_loop env count stream m
      else pb_read_direct env stream has_buf count m)"

text \<open>\<open>pb_read\<close> with a null buffer, and with a buffer in memory.\<close>

definition pb_read_null :: "pb_env \<Rightarrow> pb_istream \<Rightarrow> size \<Rightarrow> mem \<Rightarrow> bool read_result" where
  "pb_read_null env stream count m = do {
     (ok, bytes, stream, m) \<leftarrow> pb_read env stream False count m;
     Some (ok, stream, m)
   }"

definition pb_read_to :: "pb_env \<Rightarrow> pb_istream \<Rightarrow> addr \<Rightarrow> size \<Rightarrow> mem \<Rightarrow> bool read_result" where
  "pb_read_to env stream buf count m = do {
     (ok, bytes, stream, m) \<leftarrow> pb_read env stream True count m;
     m \<leftarrow> store_bytes m buf bytes;
     Some (ok, stream, m)
   }"

definition pb_readbyte :: "pb_env \<Rightarrow> pb_istream \<Rightarrow> mem \<Rightarrow> byte option read_result" where
  "pb_readbyte env stream m =
     (if is_bytes_left stream = 0
      then Some (None, is_set_error ''end-of-stream'' stream, m)
      else do {
        (ok, bytes, stream, m) \<leftarrow> istream_callback env stream True 1 m;
        if \<not> ok then Some (None, is_set_error ''io error'' stream, m)
        else (case bytes of
            [b] \<Rightarrow> Some (Some b, stream\<lparr>is_bytes_left := is_bytes_left stream - 1\<rparr>, m)
          | _ \<Rightarrow> None)
      })"

definition pb_istream_from_buffer :: "addr \<Rightarrow> size \<Rightarrow> pb_istream" where
  "pb_istream_from_buffer buf bufsize =
     \<lparr>is_callback = Buf_read, is_state = buf, is_bytes_left = bufsize, is_errmsg = None\<rparr>"

section \<open>Variable-length integers\<close>

text \<open>The loops run at most until \<open>bitpos\<close> reaches the width, which bounds the recursion.\<close>

function varint32_loop :: "pb_env \<Rightarrow> nat \<Rightarrow> u32 \<Rightarrow> pb_istream \<Rightarrow> mem \<Rightarrow> u32 option read_result" where
  "varint32_loop env bitpos result stream m =
     (if bitpos \<ge> 32 then Some (None, is_set_error ''varint overflow'' stream, m)
      else do {
        (r, stream, m) \<leftarrow> pb_readbyte env stream m;
        (case r of
           None \<Rightarrow> Some (None, stream, m)
         | Some byte \<Rightarrow>
             (let result = result OR push_bit bitpos (ucast (byte AND 0x7F))
              in if byte AND 0x80 \<noteq> 0 then varint32_loop env (bitpos + 7) result stream m
                 else Some (Some result, stream, m)))
      })"
  by pat_completeness auto
termination
  by (relation "measure (\<lambda>(env, bitpos, result, stream, m). 64 - bitpos)") auto

definition pb_decode_varint32 :: "pb_env \<Rightarrow> pb_istream \<Rightarrow> mem \<Rightarrow> u32 option read_result" where
  "pb_decode_varint32 env stream m = do {
     (r, stream, m) \<leftarrow> pb_readbyte env stream m;
     (case r of
        None \<Rightarrow> Some (None, stream, m)
      | Some byte \<Rightarrow>
          if byte AND 0x80 = 0 then Some (Some (ucast byte), stream, m)
          else varint32_loop env 7 (ucast (byte AND 0x7F)) stream m)
   }"

function varint_loop :: "pb_env \<Rightarrow> nat \<Rightarrow> u64 \<Rightarrow> pb_istream \<Rightarrow> mem \<Rightarrow> u64 option read_result" where
  "varint_loop env bitpos result stream m =
     (if bitpos \<ge> 64 then Some (None, is_set_error ''varint overflow'' stream, m)
      else do {
        (r, stream, m) \<leftarrow> pb_readbyte env stream m;
        (case r of
           None \<Rightarrow> Some (None, stream, m)
         | Some byte \<Rightarrow>
             (let result = result OR push_bit bitpos (ucast (byte AND 0x7F))
              in if byte AND 0x80 \<noteq> 0 then varint_loop env (bitpos + 7) result stream m
                 else Some (Some result, stream, m)))
      })"
  by pat_completeness auto
termination
  by (relation "measure (\<lambda>(env, bitpos, result, stream, m). 64 - bitpos)") auto

declare varint32_loop.simps [simp del] varint_loop.simps [simp del]

definition pb_decode_varint :: "pb_env \<Rightarrow> pb_istream \<Rightarrow> mem \<Rightarrow> u64 option read_result" where
  "pb_decode_varint env stream m = varint_loop env 0 0 stream m"

partial_function (option) pb_skip_varint :: "pb_env \<Rightarrow> pb_istream \<Rightarrow> mem \<Rightarrow> bool read_result" where
  "pb_skip_varint env stream m = do {
     (ok, bytes, stream, m) \<leftarrow> pb_read env stream True 1 m;
     if \<not> ok then Some (False, stream, m)
     else (case bytes of
         [byte] \<Rightarrow> if byte AND 0x80 \<noteq> 0 then pb_skip_varint env stream m else Some (True, stream, m)
       | _ \<Rightarrow> None)
   }"

declare pb_skip_varint.simps [code]

definition pb_skip_string :: "pb_env \<Rightarrow> pb_istream \<Rightarrow> mem \<Rightarrow> bool read_result" where
  "pb_skip_string env stream m = do {
     (r, stream, m) \<leftarrow> pb_decode_varint32 env stream m;
     (case r of
        None \<Rightarrow> Some (False, stream, m)
      | Some len \<Rightarrow> pb_read_null env stream (ucast len) m)
   }"

section \<open>Tags and unknown fields\<close>

record tag_result =
  tr_ok :: bool
  tr_wire_type :: pb_wire_type_t
  tr_tag :: u32
  tr_eof :: bool

definition pb_decode_tag :: "pb_env \<Rightarrow> pb_istream \<Rightarrow> mem \<Rightarrow> tag_result read_result" where
  "pb_decode_tag env stream m = do {
     (r, stream, m) \<leftarrow> pb_decode_varint32 env stream m;
     (case r of
        None \<Rightarrow> Some (\<lparr>tr_ok = False, tr_wire_type = 0, tr_tag = 0,
                  tr_eof = (is_bytes_left stream = 0)\<rparr>, stream, m)
      | Some temp \<Rightarrow>
          if temp = 0
          then Some (\<lparr>tr_ok = False, tr_wire_type = 0, tr_tag = 0, tr_eof = True\<rparr>, stream, m)
          else Some (\<lparr>tr_ok = True, tr_wire_type = temp AND 7, tr_tag = drop_bit 3 temp,
                  tr_eof = False\<rparr>, stream, m))
   }"

definition pb_skip_field ::
  "pb_env \<Rightarrow> pb_istream \<Rightarrow> pb_wire_type_t \<Rightarrow> mem \<Rightarrow> bool read_result" where
  "pb_skip_field env stream wire_type m =
     (if wire_type = PB_WT_VARINT then pb_skip_varint env stream m
      else if wire_type = PB_WT_64BIT then pb_read_null env stream 8 m
      else if wire_type = PB_WT_STRING then pb_skip_string env stream m
      else if wire_type = PB_WT_32BIT then pb_read_null env stream 4 m
      else Some (False, is_set_error ''invalid wire_type'' stream, m))"

text \<open>
  \<open>read_raw_value\<close> returns the final \<open>*size\<close> with its result.  The loop counts up to
  \<open>max_size\<close>, which bounds the recursion.
\<close>

function raw_varint_loop ::
  "pb_env \<Rightarrow> addr \<Rightarrow> nat \<Rightarrow> nat \<Rightarrow> pb_istream \<Rightarrow> mem \<Rightarrow> (bool \<times> nat) read_result" where
  "raw_varint_loop env buf max_size sz stream m =
     (let sz = sz + 1
      in if sz > max_size then Some ((False, sz), stream, m)
         else do {
           (ok, stream, m) \<leftarrow> pb_read_to env stream buf 1 m;
           if \<not> ok then Some ((False, sz), stream, m)
           else do {
             byte \<leftarrow> m buf;
             if byte AND 0x80 \<noteq> 0 then raw_varint_loop env (buf + 1) max_size sz stream m
             else Some ((True, sz), stream, m)
           }
         })"
  by pat_completeness auto
termination
  by (relation "measure (\<lambda>(env, buf, max_size, sz, stream, m). max_size - sz)") auto

declare raw_varint_loop.simps [simp del]

definition read_raw_value ::
  "pb_env \<Rightarrow> pb_istream \<Rightarrow> pb_wire_type_t \<Rightarrow> addr \<Rightarrow> nat \<Rightarrow> mem \<Rightarrow> (bool \<times> nat) read_result" where
  "read_raw_value env stream wire_type buf max_size m =
     (if wire_type = PB_WT_VARINT then raw_varint_loop env buf max_size 0 stream m
      else if wire_type = PB_WT_64BIT then do {
        (ok, stream, m) \<leftarrow> pb_read_to env stream buf 8 m;
        Some ((ok, 8), stream, m)
      }
      else if wire_type = PB_WT_32BIT then do {
        (ok, stream, m) \<leftarrow> pb_read_to env stream buf 4 m;
        Some ((ok, 4), stream, m)
      }
      else Some ((False, max_size), is_set_error ''invalid wire_type'' stream, m))"

section \<open>Substreams\<close>

definition pb_make_string_substream ::
  "pb_env \<Rightarrow> pb_istream \<Rightarrow> mem \<Rightarrow> pb_istream option read_result" where
  "pb_make_string_substream env stream m = do {
     (r, stream, m) \<leftarrow> pb_decode_varint32 env stream m;
     (case r of
        None \<Rightarrow> Some (None, stream, m)
      | Some sz \<Rightarrow>
          if is_bytes_left stream < ucast sz
          then Some (None, is_set_error ''parent stream too short'' stream, m)
          else Some (Some (stream\<lparr>is_bytes_left := ucast sz\<rparr>),
                 stream\<lparr>is_bytes_left := is_bytes_left stream - ucast sz\<rparr>, m))
   }"

definition pb_close_string_substream ::
  "pb_env \<Rightarrow> pb_istream \<Rightarrow> pb_istream \<Rightarrow> mem \<Rightarrow> bool read_result" where
  "pb_close_string_substream env stream substream m = do {
     (ok, substream, m) \<leftarrow>
       (if is_bytes_left substream \<noteq> 0
        then pb_read_null env substream (is_bytes_left substream) m
        else Some (True, substream, m));
     if \<not> ok then Some (False, stream, m)
     else Some (True, stream\<lparr>is_state := is_state substream, is_errmsg := is_errmsg substream\<rparr>, m)
   }"

section \<open>Other scalar formats\<close>

text \<open>The value is an \<open>int64_t\<close>, a word read as two's complement.\<close>

definition pb_decode_svarint :: "pb_env \<Rightarrow> pb_istream \<Rightarrow> mem \<Rightarrow> u64 option read_result" where
  "pb_decode_svarint env stream m = do {
     (r, stream, m) \<leftarrow> pb_decode_varint env stream m;
     (case r of
        None \<Rightarrow> Some (None, stream, m)
      | Some value \<Rightarrow>
          if value AND 1 \<noteq> 0 then Some (Some (NOT (drop_bit 1 value)), stream, m)
          else Some (Some (drop_bit 1 value), stream, m))
   }"

definition pb_decode_fixed32 :: "pb_env \<Rightarrow> pb_istream \<Rightarrow> addr \<Rightarrow> mem \<Rightarrow> bool read_result" where
  "pb_decode_fixed32 env stream dest m = do {
     (ok, bytes, stream, m) \<leftarrow> pb_read env stream True 4 m;
     if \<not> ok then Some (False, stream, m)
     else (case bytes of
         [b0, b1, b2, b3] \<Rightarrow> do {
           m \<leftarrow> store_word m dest 4
             (push_bit 0 (ucast b0) OR push_bit 8 (ucast b1) OR push_bit 16 (ucast b2) OR
              push_bit 24 (ucast b3) :: u32);
           Some (True, stream, m)
         }
       | _ \<Rightarrow> None)
   }"

definition pb_decode_fixed64 :: "pb_env \<Rightarrow> pb_istream \<Rightarrow> addr \<Rightarrow> mem \<Rightarrow> bool read_result" where
  "pb_decode_fixed64 env stream dest m = do {
     (ok, bytes, stream, m) \<leftarrow> pb_read env stream True 8 m;
     if \<not> ok then Some (False, stream, m)
     else (case bytes of
         [b0, b1, b2, b3, b4, b5, b6, b7] \<Rightarrow> do {
           m \<leftarrow> store_word m dest 8
             (push_bit 0 (ucast b0) OR push_bit 8 (ucast b1) OR push_bit 16 (ucast b2) OR
              push_bit 24 (ucast b3) OR push_bit 32 (ucast b4) OR push_bit 40 (ucast b5) OR
              push_bit 48 (ucast b6) OR push_bit 56 (ucast b7) :: u64);
           Some (True, stream, m)
         }
       | _ \<Rightarrow> None)
   }"

end
