(* ===== verification/Pb_Default.thy ===== *)
theory Pb_Default
  imports Pb_Common
begin

text \<open>
  The part of \<open>nanopb/pb_decode.c\<close> that prepares a message structure: fields are set to
  their default values, recursively through submessages and through the linked list of
  extensions.  The C functions call each other recursively; the first argument bounds the
  depth of these calls, and running out of it is the result \<^term>\<open>None\<close>.
\<close>

section \<open>Loops over fields\<close>

text \<open>\<open>do { body } while (pb_field_iter_next(&iter))\<close>\<close>

partial_function (option) fields_loop ::
  "(pb_field_iter \<Rightarrow> mem \<Rightarrow> mem option) \<Rightarrow> pb_field_iter \<Rightarrow> mem \<Rightarrow> mem option" where
  "fields_loop body iter m = do {
     m \<leftarrow> body iter m;
     (more, iter) \<leftarrow> pb_field_iter_next iter;
     if more then fields_loop body iter m else Some m
   }"

declare fields_loop.simps [code]

section \<open>Extensions\<close>

definition iter_from_extension :: "pb_env \<Rightarrow> addr \<Rightarrow> mem \<Rightarrow> pb_field_iter option" where
  "iter_from_extension env extension m = do {
     type_ptr \<leftarrow> load_ptr m (extension + ext_type_offset);
     type \<leftarrow> ext_type_at env type_ptr;
     dest \<leftarrow> load_ptr m (extension + ext_dest_offset);
     (_, iter) \<leftarrow> pb_field_iter_begin (fields_at env (et_arg type)) dest;
     field \<leftarrow> it_field iter;
     let iter = iter\<lparr>it_pData := dest, it_pSize := extension + ext_found_offset\<rparr>;
     Some (if pf_atype field = PB_ATYPE_POINTER
       then iter\<lparr>it_pData := extension + ext_dest_offset\<rparr> else iter)
   }"

text \<open>The loop over the list of extensions; the list may be cyclic.\<close>

partial_function (option) extension_default_loop ::
  "(pb_field_iter \<Rightarrow> mem \<Rightarrow> mem option) \<Rightarrow> pb_env \<Rightarrow> addr \<Rightarrow> mem \<Rightarrow> mem option" where
  "extension_default_loop set_default env ext m =
     (if ext = NULL then Some m
      else do {
        m \<leftarrow> store_bool m (ext + ext_found_offset) False;
        ext_iter \<leftarrow> iter_from_extension env ext m;
        m \<leftarrow> set_default ext_iter m;
        ext \<leftarrow> load_ptr m (ext + ext_next_offset);
        extension_default_loop set_default env ext m
      })"

declare extension_default_loop.simps [code]

section \<open>Default values\<close>

text \<open>\<open>pb_message_set_to_defaults\<close>, over the function that sets one field.\<close>

definition message_defaults_with ::
  "(pb_field_iter \<Rightarrow> mem \<Rightarrow> mem option) \<Rightarrow> pb_field list \<Rightarrow> addr \<Rightarrow> mem \<Rightarrow> mem option" where
  "message_defaults_with set_default flds dest_struct m = do {
     (nonempty, iter) \<leftarrow> pb_field_iter_begin flds dest_struct;
     if \<not> nonempty then Some m else fields_loop set_default iter m
   }"

definition static_field_default ::
  "(pb_field list \<Rightarrow> addr \<Rightarrow> mem \<Rightarrow> mem option) \<Rightarrow> pb_env \<Rightarrow> pb_field \<Rightarrow> pb_field_iter \<Rightarrow> mem \<Rightarrow>
   mem option" where
  "static_field_default message_defaults env field iter m = do {
     (init_data, m) \<leftarrow>
       (if pf_htype field = PB_HTYPE_OPTIONAL \<and> it_pSize iter \<noteq> it_pData iter
        then do { m \<leftarrow> store_bool m (it_pSize iter) False; Some (True, m) }
        else if pf_htype field = PB_HTYPE_REPEATED \<or> pf_htype field = PB_HTYPE_ONEOF
        then do { m \<leftarrow> store_word m (it_pSize iter) 4 (0 :: u32); Some (False, m) }
        else Some (True, m));
     if \<not> init_data then Some m
     else if pf_ltype field = PB_LTYPE_SUBMESSAGE
     then message_defaults (fields_at env (pf_ptr field)) (it_pData iter) m
     else if pf_ptr field \<noteq> NULL
     then memcpy m (it_pData iter) (pf_ptr field) (unat (pf_data_size field))
     else memset m (it_pData iter) 0 (unat (pf_data_size field))
   }"

definition pointer_field_default :: "pb_field \<Rightarrow> pb_field_iter \<Rightarrow> mem \<Rightarrow> mem option" where
  "pointer_field_default field iter m = do {
     m \<leftarrow> store_ptr m (it_pData iter) NULL;
     if pf_htype field = PB_HTYPE_REPEATED \<or> pf_htype field = PB_HTYPE_ONEOF
     then store_word m (it_pSize iter) 4 (0 :: u32)
     else Some m
   }"

primrec pb_field_set_to_default :: "nat \<Rightarrow> pb_env \<Rightarrow> pb_field_iter \<Rightarrow> mem \<Rightarrow> mem option" where
  "pb_field_set_to_default 0 env iter m = None"
| "pb_field_set_to_default (Suc depth) env iter m = do {
     field \<leftarrow> it_field iter;
     if pf_ltype field = PB_LTYPE_EXTENSION then do {
       ext \<leftarrow> load_ptr m (it_pData iter);
       extension_default_loop (pb_field_set_to_default depth env) env ext m
     }
     else if pf_atype field = PB_ATYPE_STATIC
     then static_field_default (message_defaults_with (pb_field_set_to_default depth env)) env field iter m
     else if pf_atype field = PB_ATYPE_POINTER then pointer_field_default field iter m
     else Some m
   }"

definition pb_message_set_to_defaults ::
  "nat \<Rightarrow> pb_env \<Rightarrow> pb_field list \<Rightarrow> addr \<Rightarrow> mem \<Rightarrow> mem option" where
  "pb_message_set_to_defaults depth env = message_defaults_with (pb_field_set_to_default depth env)"

end
