(* ===== verification/Pb_Decode.thy ===== *)
theory Pb_Decode
  imports Pb_Istream Pb_Default
begin

text \<open>
  The fields and messages of \<open>nanopb/pb_decode.c\<close>: the decoders of the single field types
  and their table, the decoding of a field by allocation and cardinality, extensions, and
  \<open>pb_decode\<close>.  The recursion through submessages is bounded by a depth, as in
  \<open>Pb_Default\<close>; the functions between two levels take the decoders of the next level as
  arguments.
\<close>

type_synonym pb_decoder = "pb_istream \<Rightarrow> pb_field \<Rightarrow> addr \<Rightarrow> mem \<Rightarrow> bool read_result"
type_synonym message_decoder = "pb_istream \<Rightarrow> pb_field list \<Rightarrow> addr \<Rightarrow> mem \<Rightarrow> bool read_result"

section \<open>Field decoders\<close>

text \<open>
  The integers are clamped to the size of the member; the value read is compared, as a
  64-bit number, with the value stored.  The member is written before the comparison.
\<close>

definition store_clamped ::
  "(u64 \<Rightarrow> nat \<Rightarrow> u64) \<Rightarrow> pb_istream \<Rightarrow> pb_field \<Rightarrow> addr \<Rightarrow> u64 \<Rightarrow> mem \<Rightarrow> bool read_result" where
  "store_clamped clamp stream field dest value m =
     (let n = unat (pf_data_size field)
      in if n = 8 \<or> n = 4 \<or> n = 2 \<or> n = 1
         then do {
           m \<leftarrow> store_word m dest n value;
           if clamp value n \<noteq> value
           then Some (False, is_set_error ''integer too large'' stream, m)
           else Some (True, stream, m)
         }
         else Some (False, is_set_error ''invalid data_size'' stream, m))"

definition clamp_unsigned :: "u64 \<Rightarrow> nat \<Rightarrow> u64" where
  "clamp_unsigned value n = take_bit (8 * n) value"

definition clamp_signed :: "u64 \<Rightarrow> nat \<Rightarrow> u64" where
  "clamp_signed value n = signed_take_bit (8 * n - 1) value"

definition pb_dec_varint :: "pb_env \<Rightarrow> pb_decoder" where
  "pb_dec_varint env stream field dest m = do {
     (r, stream, m) \<leftarrow> pb_decode_varint env stream m;
     (case r of
        None \<Rightarrow> Some (False, stream, m)
      | Some value \<Rightarrow>
          (let svalue = (if pf_data_size field = 8 then value else clamp_signed value 4)
           in store_clamped clamp_signed stream field dest svalue m))
   }"

definition pb_dec_uvarint :: "pb_env \<Rightarrow> pb_decoder" where
  "pb_dec_uvarint env stream field dest m = do {
     (r, stream, m) \<leftarrow> pb_decode_varint env stream m;
     (case r of
        None \<Rightarrow> Some (False, stream, m)
      | Some value \<Rightarrow> store_clamped clamp_unsigned stream field dest value m)
   }"

definition pb_dec_svarint :: "pb_env \<Rightarrow> pb_decoder" where
  "pb_dec_svarint env stream field dest m = do {
     (r, stream, m) \<leftarrow> pb_decode_svarint env stream m;
     (case r of
        None \<Rightarrow> Some (False, stream, m)
      | Some value \<Rightarrow> store_clamped clamp_signed stream field dest value m)
   }"

definition pb_dec_fixed32 :: "pb_env \<Rightarrow> pb_decoder" where
  "pb_dec_fixed32 env stream field dest m = pb_decode_fixed32 env stream dest m"

definition pb_dec_fixed64 :: "pb_env \<Rightarrow> pb_decoder" where
  "pb_dec_fixed64 env stream field dest m = pb_decode_fixed64 env stream dest m"

definition pb_dec_bytes :: "pb_env \<Rightarrow> pb_decoder" where
  "pb_dec_bytes env stream field dest m = do {
     (r, stream, m) \<leftarrow> pb_decode_varint32 env stream m;
     (case r of
        None \<Rightarrow> Some (False, stream, m)
      | Some sz \<Rightarrow>
          if sz > PB_SIZE_MAX then Some (False, is_set_error ''bytes overflow'' stream, m)
          else (let alloc_size = PB_BYTES_ARRAY_T_ALLOCSIZE sz
            in if ucast sz > alloc_size
               then Some (False, is_set_error ''size too large'' stream, m)
               else if pf_atype field = PB_ATYPE_POINTER
               then Some (False, is_set_error ''no malloc support'' stream, m)
               else if alloc_size > ucast (pf_data_size field)
               then Some (False, is_set_error ''bytes overflow'' stream, m)
               else do {
                 m \<leftarrow> store_word m dest 4 sz;
                 pb_read_to env stream (dest + bytes_offset) (ucast sz) m
               }))
   }"

definition pb_dec_string :: "pb_env \<Rightarrow> pb_decoder" where
  "pb_dec_string env stream field dest m = do {
     (r, stream, m) \<leftarrow> pb_decode_varint32 env stream m;
     (case r of
        None \<Rightarrow> Some (False, stream, m)
      | Some sz \<Rightarrow>
          (let alloc_size = ucast (sz + 1) :: size
           in if alloc_size < ucast sz
              then Some (False, is_set_error ''size too large'' stream, m)
              else if pf_atype field = PB_ATYPE_POINTER
              then Some (False, is_set_error ''no malloc support'' stream, m)
              else if alloc_size > ucast (pf_data_size field)
              then Some (False, is_set_error ''string overflow'' stream, m)
              else do {
                (status, stream, m) \<leftarrow> pb_read_to env stream dest (ucast sz) m;
                m \<leftarrow> store_bytes m (dest + uint sz) [0];
                Some (status, stream, m)
              }))
   }"

definition pb_dec_submessage ::
  "pb_env \<Rightarrow> message_decoder \<Rightarrow> message_decoder \<Rightarrow> pb_decoder" where
  "pb_dec_submessage env decode decode_noinit stream field dest m = do {
     (sub, stream, m) \<leftarrow> pb_make_string_substream env stream m;
     (case sub of
        None \<Rightarrow> Some (False, stream, m)
      | Some substream \<Rightarrow>
          if pf_ptr field = NULL
          then Some (False, is_set_error ''invalid field descriptor'' stream, m)
          else do {
            (status, substream, m) \<leftarrow>
              (if pf_htype field = PB_HTYPE_REPEATED
               then decode substream (fields_at env (pf_ptr field)) dest m
               else decode_noinit substream (fields_at env (pf_ptr field)) dest m);
            (closed, stream, m) \<leftarrow> pb_close_string_substream env stream substream m;
            if \<not> closed then Some (False, stream, m) else Some (status, stream, m)
          })
   }"

definition pb_dec_fixed_length_bytes :: "pb_env \<Rightarrow> pb_decoder" where
  "pb_dec_fixed_length_bytes env stream field dest m = do {
     (r, stream, m) \<leftarrow> pb_decode_varint32 env stream m;
     (case r of
        None \<Rightarrow> Some (False, stream, m)
      | Some sz \<Rightarrow>
          if sz > PB_SIZE_MAX then Some (False, is_set_error ''bytes overflow'' stream, m)
          else if sz = 0 then do {
            m \<leftarrow> memset m dest 0 (unat (pf_data_size field));
            Some (True, stream, m)
          }
          else if sz \<noteq> pf_data_size field
          then Some (False, is_set_error ''incorrect fixed length bytes size'' stream, m)
          else pb_read_to env stream dest (ucast (pf_data_size field)) m)
   }"

text \<open>The table; the entry of extensions is null, and there is none from 10 on.\<close>

definition PB_DECODERS ::
  "pb_env \<Rightarrow> message_decoder \<Rightarrow> message_decoder \<Rightarrow> pb_type_t \<Rightarrow> pb_decoder option" where
  "PB_DECODERS env decode decode_noinit ltype =
     (if ltype = PB_LTYPE_VARINT then Some (pb_dec_varint env)
      else if ltype = PB_LTYPE_UVARINT then Some (pb_dec_uvarint env)
      else if ltype = PB_LTYPE_SVARINT then Some (pb_dec_svarint env)
      else if ltype = PB_LTYPE_FIXED32 then Some (pb_dec_fixed32 env)
      else if ltype = PB_LTYPE_FIXED64 then Some (pb_dec_fixed64 env)
      else if ltype = PB_LTYPE_BYTES then Some (pb_dec_bytes env)
      else if ltype = PB_LTYPE_STRING then Some (pb_dec_string env)
      else if ltype = PB_LTYPE_SUBMESSAGE then Some (pb_dec_submessage env decode decode_noinit)
      else if ltype = PB_LTYPE_FIXED_LENGTH_BYTES then Some (pb_dec_fixed_length_bytes env)
      else None)"

section \<open>One field\<close>

text \<open>
  The loop over a packed array.  The count of the array is in memory at \<open>pSize\<close>, and the
  offset of an entry is computed in \<open>pb_size_t\<close>.
\<close>

partial_function (option) packed_loop ::
  "pb_decoder \<Rightarrow> pb_field \<Rightarrow> addr \<Rightarrow> addr \<Rightarrow> pb_istream \<Rightarrow> mem \<Rightarrow> bool read_result" where
  "packed_loop func field pData pSize substream m =
     (if is_bytes_left substream = 0 then Some (True, substream, m)
      else do {
        sz \<leftarrow> load_word m pSize 4;
        if \<not> sz < pf_array_size field then Some (True, substream, m)
        else do {
          (ok, substream, m) \<leftarrow> func substream field (pData + uint (pf_data_size field * sz)) m;
          if \<not> ok then Some (False, substream, m)
          else do {
            sz \<leftarrow> load_word m pSize 4;
            m \<leftarrow> store_word m pSize 4 (sz + 1 :: u32);
            packed_loop func field pData pSize substream m
          }
        }
      })"

declare packed_loop.simps [code]

definition decode_packed ::
  "pb_env \<Rightarrow> pb_decoder \<Rightarrow> pb_istream \<Rightarrow> pb_field \<Rightarrow> pb_field_iter \<Rightarrow> mem \<Rightarrow> bool read_result" where
  "decode_packed env func stream field iter m = do {
     (sub, stream, m) \<leftarrow> pb_make_string_substream env stream m;
     (case sub of
        None \<Rightarrow> Some (False, stream, m)
      | Some substream \<Rightarrow> do {
          (status, substream, m) \<leftarrow>
            packed_loop func field (it_pData iter) (it_pSize iter) substream m;
          if is_bytes_left substream \<noteq> 0
          then Some (False, is_set_error ''array overflow'' stream, m)
          else do {
            (closed, stream, m) \<leftarrow> pb_close_string_substream env stream substream m;
            if \<not> closed then Some (False, stream, m) else Some (status, stream, m)
          }
        })
   }"

definition decode_repeated ::
  "pb_decoder \<Rightarrow> pb_istream \<Rightarrow> pb_field \<Rightarrow> pb_field_iter \<Rightarrow> mem \<Rightarrow> bool read_result" where
  "decode_repeated func stream field iter m = do {
     sz \<leftarrow> load_word m (it_pSize iter) 4;
     let pItem = it_pData iter + uint (pf_data_size field * sz);
     if sz \<ge> pf_array_size field
     then Some (False, is_set_error ''array overflow'' stream, m)
     else do {
       m \<leftarrow> store_word m (it_pSize iter) 4 (sz + 1 :: u32);
       func stream field pItem m
     }
   }"

definition decode_oneof ::
  "(pb_field list \<Rightarrow> addr \<Rightarrow> mem \<Rightarrow> mem option) \<Rightarrow> pb_env \<Rightarrow> pb_decoder \<Rightarrow> pb_istream \<Rightarrow>
   pb_field \<Rightarrow> pb_field_iter \<Rightarrow> mem \<Rightarrow> bool read_result" where
  "decode_oneof set_defaults env func stream field iter m = do {
     m \<leftarrow> store_word m (it_pSize iter) 4 (pf_tag field);
     m \<leftarrow> (if pf_ltype field = PB_LTYPE_SUBMESSAGE
       then do {
         m \<leftarrow> memset m (it_pData iter) 0 (unat (pf_data_size field));
         set_defaults (fields_at env (pf_ptr field)) (it_pData iter) m
       }
       else Some m);
     func stream field (it_pData iter) m
   }"

text \<open>
  \<open>decoders\<close> is the table, which has null entries: they are only undefined behaviour once
  they are called.
\<close>

definition call_decoder :: "pb_decoder option \<Rightarrow> pb_decoder" where
  "call_decoder func stream field dest m =
     (case func of None \<Rightarrow> None | Some f \<Rightarrow> f stream field dest m)"

definition decode_static_field ::
  "(pb_field list \<Rightarrow> addr \<Rightarrow> mem \<Rightarrow> mem option) \<Rightarrow> (pb_type_t \<Rightarrow> pb_decoder option) \<Rightarrow> pb_env \<Rightarrow>
   pb_istream \<Rightarrow> pb_wire_type_t \<Rightarrow> pb_field_iter \<Rightarrow> mem \<Rightarrow> bool read_result" where
  "decode_static_field set_defaults decoders env stream wire_type iter m = do {
     field \<leftarrow> it_field iter;
     if unat (pf_ltype field) \<ge> PB_LTYPES_COUNT then None
     else do {
       let func = call_decoder (decoders (pf_ltype field));
       if pf_htype field = PB_HTYPE_REQUIRED then func stream field (it_pData iter) m
       else if pf_htype field = PB_HTYPE_OPTIONAL then do {
         m \<leftarrow> (if it_pSize iter \<noteq> it_pData iter then store_bool m (it_pSize iter) True else Some m);
         func stream field (it_pData iter) m
       }
       else if pf_htype field = PB_HTYPE_REPEATED then
         (if wire_type = PB_WT_STRING \<and> pf_ltype field \<le> PB_LTYPE_LAST_PACKABLE
          then decode_packed env func stream field iter m
          else decode_repeated func stream field iter m)
       else if pf_htype field = PB_HTYPE_ONEOF
         then decode_oneof set_defaults env func stream field iter m
       else Some (False, is_set_error ''invalid field type'' stream, m)
     }
   }"

definition decode_pointer_field ::
  "pb_istream \<Rightarrow> pb_wire_type_t \<Rightarrow> pb_field_iter \<Rightarrow> mem \<Rightarrow> bool read_result" where
  "decode_pointer_field stream wire_type iter m =
     Some (False, is_set_error ''no malloc support'' stream, m)"

text \<open>
  The callback is fetched from the structure before every call.  A scalar is copied to a
  local array first, the only local array whose address other code gets to see.
\<close>

definition call_field_decoder ::
  "pb_env \<Rightarrow> addr \<Rightarrow> pb_istream \<Rightarrow> pb_field \<Rightarrow> addr \<Rightarrow> mem \<Rightarrow> bool read_result" where
  "call_field_decoder env f stream field arg m =
     (if f = NULL then None else field_decode_cb env f stream field arg m)"

partial_function (option) callback_loop ::
  "pb_env \<Rightarrow> pb_field \<Rightarrow> addr \<Rightarrow> pb_istream \<Rightarrow> mem \<Rightarrow> bool read_result" where
  "callback_loop env field pCallback substream m = do {
     f \<leftarrow> load_ptr m pCallback;
     (ok, substream, m) \<leftarrow>
       call_field_decoder env f substream field (pCallback + callback_arg_offset) m;
     if \<not> ok then Some (False, substream, m)
     else if is_bytes_left substream \<noteq> 0 then callback_loop env field pCallback substream m
     else Some (True, substream, m)
   }"

declare callback_loop.simps [code]

definition decode_callback_field ::
  "pb_env \<Rightarrow> pb_istream \<Rightarrow> pb_wire_type_t \<Rightarrow> pb_field_iter \<Rightarrow> mem \<Rightarrow> bool read_result" where
  "decode_callback_field env stream wire_type iter m = do {
     field \<leftarrow> it_field iter;
     let pCallback = it_pData iter;
     f \<leftarrow> load_ptr m pCallback;
     if f = NULL then pb_skip_field env stream wire_type m
     else if wire_type = PB_WT_STRING then do {
       (sub, stream, m) \<leftarrow> pb_make_string_substream env stream m;
       (case sub of
          None \<Rightarrow> Some (False, stream, m)
        | Some substream \<Rightarrow> do {
            (ok, substream, m) \<leftarrow> callback_loop env field pCallback substream m;
            if \<not> ok then Some (False, is_set_error ''callback failed'' stream, m)
            else do {
              (closed, stream, m) \<leftarrow> pb_close_string_substream env stream substream m;
              Some (closed, stream, m)
            }
          })
     }
     else do {
       ((ok, sz), stream, m) \<leftarrow> read_raw_value env stream wire_type (raw_buffer env) 10 m;
       if \<not> ok then Some (False, stream, m)
       else do {
         let substream = pb_istream_from_buffer (raw_buffer env) (of_nat sz);
         f \<leftarrow> load_ptr m pCallback;
         (ok, substream, m) \<leftarrow>
           call_field_decoder env f substream field (pCallback + callback_arg_offset) m;
         Some (ok, stream, m)
       }
     }
   }"

definition decode_field ::
  "(pb_field list \<Rightarrow> addr \<Rightarrow> mem \<Rightarrow> mem option) \<Rightarrow> (pb_type_t \<Rightarrow> pb_decoder option) \<Rightarrow> pb_env \<Rightarrow>
   pb_istream \<Rightarrow> pb_wire_type_t \<Rightarrow> pb_field_iter \<Rightarrow> mem \<Rightarrow> bool read_result" where
  "decode_field set_defaults decoders env stream wire_type iter m = do {
     field \<leftarrow> it_field iter;
     if pf_atype field = PB_ATYPE_STATIC
     then decode_static_field set_defaults decoders env stream wire_type iter m
     else if pf_atype field = PB_ATYPE_POINTER
     then decode_pointer_field stream wire_type iter m
     else if pf_atype field = PB_ATYPE_CALLBACK
     then decode_callback_field env stream wire_type iter m
     else Some (False, is_set_error ''invalid field type'' stream, m)
   }"

section \<open>Extensions\<close>

text \<open>
  \<open>decode_fld\<close> stands for \<open>decode_field\<close> with its decoders.  An extension handles a field
  by reading from the stream: the loop ends when \<open>bytes_left\<close> has changed.
\<close>

definition default_extension_decoder ::
  "(pb_istream \<Rightarrow> pb_wire_type_t \<Rightarrow> pb_field_iter \<Rightarrow> mem \<Rightarrow> bool read_result) \<Rightarrow> pb_env \<Rightarrow>
   pb_istream \<Rightarrow> addr \<Rightarrow> u32 \<Rightarrow> pb_wire_type_t \<Rightarrow> mem \<Rightarrow> bool read_result" where
  "default_extension_decoder decode_fld env stream extension tag wire_type m = do {
     type_ptr \<leftarrow> load_ptr m (extension + ext_type_offset);
     type \<leftarrow> ext_type_at env type_ptr;
     field \<leftarrow> field_at (fields_at env (et_arg type)) 0;
     if pf_tag field \<noteq> tag then Some (True, stream, m)
     else do {
       iter \<leftarrow> iter_from_extension env extension m;
       m \<leftarrow> store_bool m (extension + ext_found_offset) True;
       decode_fld stream wire_type iter m
     }
   }"

partial_function (option) decode_extension_loop ::
  "(pb_istream \<Rightarrow> pb_wire_type_t \<Rightarrow> pb_field_iter \<Rightarrow> mem \<Rightarrow> bool read_result) \<Rightarrow> pb_env \<Rightarrow>
   u32 \<Rightarrow> pb_wire_type_t \<Rightarrow> size \<Rightarrow> addr \<Rightarrow> pb_istream \<Rightarrow> mem \<Rightarrow> bool read_result" where
  "decode_extension_loop decode_fld env tag wire_type pos extension stream m =
     (if extension = NULL \<or> pos \<noteq> is_bytes_left stream then Some (True, stream, m)
      else do {
        type_ptr \<leftarrow> load_ptr m (extension + ext_type_offset);
        type \<leftarrow> ext_type_at env type_ptr;
        (status, stream, m) \<leftarrow>
          (if et_decode type \<noteq> NULL
           then ext_decode_cb env (et_decode type) stream extension tag wire_type m
           else default_extension_decoder decode_fld env stream extension tag wire_type m);
        if \<not> status then Some (False, stream, m)
        else do {
          extension \<leftarrow> load_ptr m (extension + ext_next_offset);
          decode_extension_loop decode_fld env tag wire_type pos extension stream m
        }
      })"

declare decode_extension_loop.simps [code]

definition decode_extension ::
  "(pb_istream \<Rightarrow> pb_wire_type_t \<Rightarrow> pb_field_iter \<Rightarrow> mem \<Rightarrow> bool read_result) \<Rightarrow> pb_env \<Rightarrow>
   pb_istream \<Rightarrow> u32 \<Rightarrow> pb_wire_type_t \<Rightarrow> pb_field_iter \<Rightarrow> mem \<Rightarrow> bool read_result" where
  "decode_extension decode_fld env stream tag wire_type iter m = do {
     extension \<leftarrow> load_ptr m (it_pData iter);
     decode_extension_loop decode_fld env tag wire_type (is_bytes_left stream) extension stream m
   }"

definition is_extension_field :: "pb_field \<Rightarrow> bool" where
  "is_extension_field f \<longleftrightarrow> pf_ltype f = PB_LTYPE_EXTENSION"

definition find_extension_field :: "pb_field_iter \<Rightarrow> (bool \<times> pb_field_iter) option" where
  "find_extension_field iter = iter_find_loop is_extension_field (it_pos iter) iter"

section \<open>Required fields\<close>

text \<open>
  \<open>fields_seen\<close>, two words with a bit for each of the first 64 required fields, and the
  check at the end of \<open>pb_decode_noinit\<close>.  Indexing beyond the array and shifting a word by
  its full width have no defined result.
\<close>

definition mark_seen :: "u32 list \<Rightarrow> nat \<Rightarrow> u32 list" where
  "mark_seen fields_seen index =
     fields_seen[index div 32 := fields_seen ! (index div 32) OR push_bit (index mod 32) 1]"

definition shift_right :: "u32 \<Rightarrow> nat \<Rightarrow> u32 option" where
  "shift_right w n = (if n < 32 then Some (drop_bit n w) else None)"

definition seen_word :: "u32 list \<Rightarrow> nat \<Rightarrow> u32 option" where
  "seen_word fields_seen i = (if i < length fields_seen then Some (fields_seen ! i) else None)"

function whole_words_seen :: "u32 list \<Rightarrow> nat \<Rightarrow> nat \<Rightarrow> bool option" where
  "whole_words_seen fields_seen n i =
     (if i < n then do {
        w \<leftarrow> seen_word fields_seen i;
        if w \<noteq> - 1 then Some False else whole_words_seen fields_seen n (i + 1)
      }
      else Some True)"
  by pat_completeness auto
termination
  by (relation "measure (\<lambda>(fields_seen, n, i). n - i)") auto

declare whole_words_seen.simps [simp del]

definition required_fields_seen :: "u32 list \<Rightarrow> nat \<Rightarrow> bool option" where
  "required_fields_seen fields_seen req_field_count =
     (if req_field_count > 0 then do {
        whole \<leftarrow> whole_words_seen fields_seen (req_field_count div 32) 0;
        if \<not> whole then Some False
        else do {
          w \<leftarrow> seen_word fields_seen (req_field_count div 32);
          bits \<leftarrow> shift_right (- 1) (32 - req_field_count mod 32);
          Some (w = bits)
        }
      }
      else Some True)"

partial_function (option) seek_end ::
  "pb_field_iter \<Rightarrow> (nat \<times> pb_type_t \<times> pb_field_iter) option" where
  "seek_end iter = do {
     let req_field_count = it_required_field_index iter;
     field \<leftarrow> it_field iter;
     (more, iter) \<leftarrow> pb_field_iter_next iter;
     if more then seek_end iter else Some (req_field_count, pf_type field, iter)
   }"

declare seek_end.simps [code]

definition check_required :: "u32 list \<Rightarrow> pb_field_iter \<Rightarrow> pb_istream \<Rightarrow> mem \<Rightarrow> bool read_result" where
  "check_required fields_seen iter stream m = do {
     (req_field_count, last_type, iter) \<leftarrow> seek_end iter;
     field \<leftarrow> it_field iter;
     let req_field_count =
       (if PB_HTYPE last_type = PB_HTYPE_REQUIRED \<and> pf_tag field \<noteq> 0
        then req_field_count + 1 else req_field_count);
     ok \<leftarrow> required_fields_seen fields_seen req_field_count;
     if ok then Some (True, stream, m)
     else Some (False, is_set_error ''missing required field'' stream, m)
   }"

section \<open>Messages\<close>

text \<open>One turn of the loop of \<open>pb_decode_noinit\<close> goes on, leaves the loop, or returns.\<close>

datatype loop_exit = Continue | Break | Return bool

record decode_state =
  ds_stream :: pb_istream
  ds_iter :: pb_field_iter
  ds_seen :: "u32 list"
  ds_ext_start :: u32

type_synonym step_result = "(loop_exit \<times> decode_state \<times> mem) option"

definition return_unless :: "bool \<Rightarrow> loop_exit" where
  "return_unless ok = (if ok then Continue else Return False)"

text \<open>The part for a tag that is not in the field array.\<close>

definition decode_unknown ::
  "(pb_istream \<Rightarrow> pb_wire_type_t \<Rightarrow> pb_field_iter \<Rightarrow> mem \<Rightarrow> bool read_result) \<Rightarrow> pb_env \<Rightarrow>
   u32 \<Rightarrow> pb_wire_type_t \<Rightarrow> decode_state \<Rightarrow> mem \<Rightarrow> step_result" where
  "decode_unknown decode_fld env tag wire_type st m = do {
     let skip = (\<lambda>st m. do {
       (ok, stream, m) \<leftarrow> pb_skip_field env (ds_stream st) wire_type m;
       Some (return_unless ok, st\<lparr>ds_stream := stream\<rparr>, m)
     });
     if tag \<ge> ds_ext_start st then do {
       (found, iter) \<leftarrow> find_extension_field (ds_iter st);
       let st = st\<lparr>ds_iter := iter\<rparr>;
       ext_start \<leftarrow> (if \<not> found then Some (- 1) else map_option pf_tag (it_field iter));
       let st = st\<lparr>ds_ext_start := ext_start\<rparr>;
       if tag \<ge> ext_start then do {
         let pos = is_bytes_left (ds_stream st);
         (ok, stream, m) \<leftarrow> decode_extension decode_fld env (ds_stream st) tag wire_type iter m;
         let st = st\<lparr>ds_stream := stream\<rparr>;
         if \<not> ok then Some (Return False, st, m)
         else if pos \<noteq> is_bytes_left stream then Some (Continue, st, m)
         else skip st m
       }
       else skip st m
     }
     else skip st m
   }"

definition decode_known ::
  "(pb_istream \<Rightarrow> pb_wire_type_t \<Rightarrow> pb_field_iter \<Rightarrow> mem \<Rightarrow> bool read_result) \<Rightarrow>
   pb_wire_type_t \<Rightarrow> decode_state \<Rightarrow> mem \<Rightarrow> step_result" where
  "decode_known decode_fld wire_type st m = do {
     let iter = ds_iter st;
     field \<leftarrow> it_field iter;
     let st = (if pf_htype field = PB_HTYPE_REQUIRED \<and>
         it_required_field_index iter < PB_MAX_REQUIRED_FIELDS
       then st\<lparr>ds_seen := mark_seen (ds_seen st) (it_required_field_index iter)\<rparr> else st);
     (ok, stream, m) \<leftarrow> decode_fld (ds_stream st) wire_type iter m;
     Some (return_unless ok, st\<lparr>ds_stream := stream\<rparr>, m)
   }"

definition decode_step ::
  "(pb_istream \<Rightarrow> pb_wire_type_t \<Rightarrow> pb_field_iter \<Rightarrow> mem \<Rightarrow> bool read_result) \<Rightarrow> pb_env \<Rightarrow>
   decode_state \<Rightarrow> mem \<Rightarrow> step_result" where
  "decode_step decode_fld env st m = do {
     (r, stream, m) \<leftarrow> pb_decode_tag env (ds_stream st) m;
     let st = st\<lparr>ds_stream := stream\<rparr>;
     if \<not> tr_ok r then Some (if tr_eof r then Break else Return False, st, m)
     else do {
       (found, iter) \<leftarrow> pb_field_iter_find (ds_iter st) (tr_tag r);
       let st = st\<lparr>ds_iter := iter\<rparr>;
       if \<not> found then decode_unknown decode_fld env (tr_tag r) (tr_wire_type r) st m
       else decode_known decode_fld (tr_wire_type r) st m
     }
   }"

partial_function (option) decode_loop ::
  "(pb_istream \<Rightarrow> pb_wire_type_t \<Rightarrow> pb_field_iter \<Rightarrow> mem \<Rightarrow> bool read_result) \<Rightarrow> pb_env \<Rightarrow>
   decode_state \<Rightarrow> mem \<Rightarrow> step_result" where
  "decode_loop decode_fld env st m =
     (if is_bytes_left (ds_stream st) = 0 then Some (Break, st, m)
      else do {
        (e, st, m) \<leftarrow> decode_step decode_fld env st m;
        (case e of Continue \<Rightarrow> decode_loop decode_fld env st m | _ \<Rightarrow> Some (e, st, m))
      })"

declare decode_loop.simps [code]

definition decode_fields ::
  "(pb_istream \<Rightarrow> pb_wire_type_t \<Rightarrow> pb_field_iter \<Rightarrow> mem \<Rightarrow> bool read_result) \<Rightarrow> pb_env \<Rightarrow>
   message_decoder" where
  "decode_fields decode_fld env stream flds dest_struct m = do {
     (_, iter) \<leftarrow> pb_field_iter_begin flds dest_struct;
     (e, st, m) \<leftarrow> decode_loop decode_fld env
       \<lparr>ds_stream = stream, ds_iter = iter, ds_seen = [0, 0], ds_ext_start = 0\<rparr> m;
     (case e of
        Return ok \<Rightarrow> Some (ok, ds_stream st, m)
      | _ \<Rightarrow> check_required (ds_seen st) (ds_iter st) (ds_stream st) m)
   }"

definition decode_with ::
  "(pb_field list \<Rightarrow> addr \<Rightarrow> mem \<Rightarrow> mem option) \<Rightarrow> message_decoder \<Rightarrow> message_decoder" where
  "decode_with set_defaults decode_noinit stream flds dest_struct m = do {
     m \<leftarrow> set_defaults flds dest_struct m;
     decode_noinit stream flds dest_struct m
   }"

primrec pb_decode_noinit :: "nat \<Rightarrow> pb_env \<Rightarrow> message_decoder" where
  "pb_decode_noinit 0 env = (\<lambda>stream flds dest_struct m. None)"
| "pb_decode_noinit (Suc depth) env =
     decode_fields
       (decode_field (pb_message_set_to_defaults depth env)
         (PB_DECODERS env
           (decode_with (pb_message_set_to_defaults depth env) (pb_decode_noinit depth env))
           (pb_decode_noinit depth env))
         env)
       env"

definition pb_decode :: "nat \<Rightarrow> pb_env \<Rightarrow> message_decoder" where
  "pb_decode depth env =
     decode_with (pb_message_set_to_defaults depth env) (pb_decode_noinit depth env)"

definition pb_decode_delimited :: "nat \<Rightarrow> pb_env \<Rightarrow> message_decoder" where
  "pb_decode_delimited depth env stream flds dest_struct m = do {
     (sub, stream, m) \<leftarrow> pb_make_string_substream env stream m;
     (case sub of
        None \<Rightarrow> Some (False, stream, m)
      | Some substream \<Rightarrow> do {
          (status, substream, m) \<leftarrow> pb_decode depth env substream flds dest_struct m;
          (closed, stream, m) \<leftarrow> pb_close_string_substream env stream substream m;
          if \<not> closed then Some (False, stream, m) else Some (status, stream, m)
        })
   }"

lemma pb_decode_noinit_Suc:
  "pb_decode_noinit (Suc depth) env =
     decode_fields (decode_field (pb_message_set_to_defaults depth env)
       (PB_DECODERS env (pb_decode depth env) (pb_decode_noinit depth env)) env) env"
  by (simp add: pb_decode_def)

end
