(* ===== verification/Pb_Reader.thy ===== *)
theory Pb_Reader
  imports Pb_Istream
begin

text \<open>
  The readers of \<open>Pb_Istream\<close> on memory streams, as parsers of byte lists.
  \<open>stream_at s m xs\<close> says that the window of stream \<open>s\<close> (the next \<open>bytes_left\<close> bytes of
  its buffer) holds the bytes \<open>xs\<close>.  The locale \<open>buffer_reader\<close> is the contract every
  reader keeps: it computes what a parser of byte lists computes, consumes as many bytes as
  the parser, never more than the window, and leaves memory alone.
\<close>

section \<open>Windows\<close>

definition stream_at :: "pb_istream \<Rightarrow> mem \<Rightarrow> byte list \<Rightarrow> bool" where
  "stream_at s m xs \<longleftrightarrow> is_callback s = Buf_read \<and>
     load_bytes m (is_state s) (unat (is_bytes_left s)) = Some xs"

definition advance :: "nat \<Rightarrow> pb_istream \<Rightarrow> pb_istream" where
  "advance k s = s\<lparr>is_state := is_state s + int k, is_bytes_left := is_bytes_left s - of_nat k\<rparr>"

definition is_end :: "pb_istream \<Rightarrow> addr" where
  "is_end s = is_state s + uint (is_bytes_left s)"

lemma advance_simps [simp]:
  "is_callback (advance k s) = is_callback s"
  "is_state (advance k s) = is_state s + int k"
  "is_bytes_left (advance k s) = is_bytes_left s - of_nat k"
  "is_errmsg (advance k s) = is_errmsg s"
  by (simp_all add: advance_def)

lemma advance_0 [simp]: "advance 0 s = s"
  by (simp add: advance_def)

lemma advance_advance [simp]: "advance j (advance k s) = advance (k + j) s"
  by (simp add: advance_def algebra_simps)

lemma unat_of_nat_le: "k \<le> unat (w :: 'a::len word) \<Longrightarrow> unat (of_nat k :: 'a word) = k"
  by (rule le_unat_uoi)

lemma unat_sub_of_nat: "k \<le> unat (w :: 'a::len word) \<Longrightarrow> unat (w - of_nat k) = unat w - k"
  by (simp add: unat_sub_if' word_le_nat_alt unat_of_nat_le)

lemma uint_sub_of_nat:
  assumes "k \<le> unat (w :: 'a::len word)"
  shows "uint (w - of_nat k) = uint w - int k"
proof -
  have "int (unat (w - of_nat k)) = int (unat w - k)"
    by (simp only: unat_sub_of_nat [OF assms])
  with assms show ?thesis by (simp add: of_nat_diff)
qed

lemma stream_at_length: "stream_at s m xs \<Longrightarrow> unat (is_bytes_left s) = length xs"
  by (auto simp: stream_at_def dest: load_bytes_length)

lemma stream_at_advance:
  assumes "stream_at s m xs" "k \<le> length xs"
  shows "stream_at (advance k s) m (drop k xs)"
  using assms load_bytes_drop [of m "is_state s" "length xs" xs k] stream_at_length [OF assms(1)]
  by (simp add: stream_at_def unat_sub_of_nat)

lemma stream_at_Cons: "stream_at s m (b # xs) \<Longrightarrow> stream_at (advance 1 s) m xs"
  using stream_at_advance [of s m "b # xs" 1] by simp

lemma stream_at_set_error [simp]: "stream_at (is_set_error e s) m xs = stream_at s m xs"
  by (simp add: stream_at_def)

lemma stream_at_load:
  assumes "stream_at s m xs" "k \<le> length xs"
  shows "load_bytes m (is_state s) k = Some (take k xs)"
  using assms load_bytes_take stream_at_length [OF assms(1)] by (auto simp: stream_at_def)

lemma stream_at_cong:
  assumes "stream_at s m xs" "\<And>x. x \<in> region (is_state s) (length xs) \<Longrightarrow> m' x = m x"
  shows "stream_at s m' xs"
  using assms load_bytes_cong [of "is_state s" "length xs" m' m] stream_at_length [OF assms(1)]
  by (simp add: stream_at_def)

lemma stream_at_ex:
  assumes "is_callback s = Buf_read" "allocated m (is_state s) (unat (is_bytes_left s))"
  obtains xs where "stream_at s m xs"
  using assms by (auto simp: stream_at_def simp flip: load_bytes_defined)

lemma is_end_advance:
  "k \<le> unat (is_bytes_left s) \<Longrightarrow> is_end (advance k s) = is_end s"
  by (simp add: is_end_def uint_sub_of_nat)

lemma is_end_set_error [simp]: "is_end (is_set_error e s) = is_end s"
  by (simp add: is_end_def)

section \<open>Plain reads\<close>

lemma pb_read_at:
  assumes "stream_at s m xs"
  shows "pb_read env s has_buf count m =
    (if length xs < unat count then Some (False, [], is_set_error ''end-of-stream'' s, m)
     else Some (True, if has_buf then take (unat count) xs else [], advance (unat count) s, m))"
proof -
  have "is_bytes_left s < count \<longleftrightarrow> length xs < unat count"
    using stream_at_length [OF assms] by (simp add: word_less_nat_alt)
  then show ?thesis
    using assms stream_at_load [OF assms, of "unat count"]
    by (auto simp: pb_read_def pb_read_direct_def istream_callback_def buf_read_def stream_at_def
        advance_def not_less)
qed

lemma pb_read_null_at:
  assumes "stream_at s m xs"
  shows "pb_read_null env s count m =
    (if length xs < unat count then Some (False, is_set_error ''end-of-stream'' s, m)
     else Some (True, advance (unat count) s, m))"
  by (simp add: pb_read_null_def pb_read_at [OF assms])

lemma pb_read_to_at:
  assumes "stream_at s m xs"
  shows "pb_read_to env s buf count m =
    (if length xs < unat count then Some (False, is_set_error ''end-of-stream'' s, m)
     else map_option (\<lambda>m'. (True, advance (unat count) s, m')) (store_bytes m buf (take (unat count) xs)))"
  by (simp add: pb_read_to_def pb_read_at [OF assms] map_option_case case_Some_iff
      del: bind_Some_iff split: option.split)

lemma pb_readbyte_at:
  assumes "stream_at s m xs"
  shows "pb_readbyte env s m = (case xs of
      [] \<Rightarrow> Some (None, is_set_error ''end-of-stream'' s, m)
    | b # _ \<Rightarrow> Some (Some b, advance 1 s, m))"
proof (cases xs)
  case Nil
  with stream_at_length [OF assms] show ?thesis by (simp add: pb_readbyte_def unsigned_eq_0_iff)
next
  case (Cons b ys)
  with stream_at_length [OF assms] have "is_bytes_left s \<noteq> 0" by auto
  moreover have "load_bytes m (is_state s) (Suc 0) = Some [b]"
    using stream_at_load [OF assms, of 1] Cons by simp
  ultimately show ?thesis
    using assms Cons
    by (simp add: pb_readbyte_def istream_callback_def buf_read_def stream_at_def advance_def
        del: load_bytes.simps)
qed

section \<open>The contract of a reader\<close>

text \<open>A parser says what it found and how many bytes it looked at.\<close>

type_synonym 'a parse = "(string + 'a) \<times> nat"

definition parse_result :: "'a parse \<Rightarrow> pb_istream \<Rightarrow> mem \<Rightarrow> 'a option read_result" where
  "parse_result r s m = (case fst r of
      Inl e \<Rightarrow> Some (None, is_set_error e (advance (snd r) s), m)
    | Inr v \<Rightarrow> Some (Some v, advance (snd r) s, m))"

locale buffer_reader =
  fixes f :: "pb_istream \<Rightarrow> mem \<Rightarrow> 'a option read_result"
    and p :: "byte list \<Rightarrow> 'a parse"
  assumes reads: "stream_at s m xs \<Longrightarrow> f s m = parse_result (p xs) s m"
    and consumes: "snd (p xs) \<le> length xs"
    and prefix: "fst (p xs) = Inr v \<Longrightarrow> take (snd (p xs)) xs = take (snd (p xs)) ys \<Longrightarrow>
      snd (p xs) \<le> length ys \<Longrightarrow> p ys = p xs"
begin

lemma total: "stream_at s m xs \<Longrightarrow> \<exists>r s'. f s m = Some (r, s', m)"
  by (auto simp: reads parse_result_def split: sum.split)

lemma window:
  assumes "stream_at s m xs" "f s m = Some (r, s', m')"
  shows "stream_at s' m' (drop (snd (p xs)) xs)" "m' = m" "is_end s' = is_end s"
    "is_callback s' = is_callback s" "unat (is_bytes_left s') \<le> unat (is_bytes_left s)"
proof -
  have k: "snd (p xs) \<le> unat (is_bytes_left s)"
    using consumes [of xs] stream_at_length [OF assms(1)] by simp
  show "stream_at s' m' (drop (snd (p xs)) xs)" "m' = m"
    using assms stream_at_advance [OF assms(1) consumes]
    by (auto simp: reads parse_result_def split: sum.splits)
  show "is_end s' = is_end s" "is_callback s' = is_callback s"
      "unat (is_bytes_left s') \<le> unat (is_bytes_left s)"
    using assms k is_end_advance [of "snd (p xs)" s]
    by (auto simp: reads parse_result_def is_end_def unat_sub_of_nat split: sum.splits)
qed

lemma success:
  assumes "stream_at s m xs" "f s m = Some (Some v, s', m')"
  shows "fst (p xs) = Inr v" "s' = advance (snd (p xs)) s"
  using assms by (auto simp: reads parse_result_def split: sum.splits)

lemma read_prefix:
  assumes "stream_at s m (enc @ rest)" "p enc = (Inr v, length enc)"
  shows "f s m = Some (Some v, advance (length enc) s, m)"
proof -
  have "p (enc @ rest) = p enc" using assms(2) by (intro prefix) auto
  with assms show ?thesis by (simp add: reads parse_result_def)
qed

end

text \<open>Readers compose: the result of one decides what is returned.\<close>

definition p_map :: "('a \<Rightarrow> 'b) \<Rightarrow> 'a parse \<Rightarrow> 'b parse" where
  "p_map g r = (case fst r of Inl e \<Rightarrow> Inl e | Inr v \<Rightarrow> Inr (g v), snd r)"

lemma p_map_simps [simp]:
  "snd (p_map g r) = snd r" "fst (p_map g r) = Inr w \<longleftrightarrow> (\<exists>v. fst r = Inr v \<and> w = g v)"
  by (auto simp: p_map_def split: sum.splits)

section \<open>Bytes\<close>

definition p_byte :: "byte list \<Rightarrow> byte parse" where
  "p_byte xs = (case xs of [] \<Rightarrow> (Inl ''end-of-stream'', 0) | b # _ \<Rightarrow> (Inr b, 1))"

interpretation byte_reader: buffer_reader "pb_readbyte env" p_byte for env
proof
  show "stream_at s m xs \<Longrightarrow> pb_readbyte env s m = parse_result (p_byte xs) s m" for s m xs
    by (simp add: pb_readbyte_at parse_result_def p_byte_def split: list.split)
  show "snd (p_byte xs) \<le> length xs" for xs
    by (simp add: p_byte_def split: list.split)
  show "p_byte ys = p_byte xs" if "fst (p_byte xs) = Inr v"
    "take (snd (p_byte xs)) xs = take (snd (p_byte xs)) ys" "snd (p_byte xs) \<le> length ys" for xs v ys
    using that by (auto simp: p_byte_def split: list.splits)
qed

section \<open>Base-128 integers\<close>

abbreviation continues :: "byte \<Rightarrow> bool" where
  "continues b \<equiv> b AND 0x80 \<noteq> 0"

text \<open>The number that a group of bytes spells in base 128, least significant first.\<close>

primrec varint_value :: "byte list \<Rightarrow> 'a::len word" where
  "varint_value [] = 0"
| "varint_value (b # bs) = ucast (b AND 0x7F) OR push_bit 7 (varint_value bs)"

definition p_varint :: "nat \<Rightarrow> byte list \<Rightarrow> 'a::len word parse" where
  "p_varint max_len xs =
     (let k = length (takeWhile continues xs)
      in if max_len \<le> k then (Inl ''varint overflow'', max_len)
         else if k = length xs then (Inl ''end-of-stream'', k)
         else (Inr (varint_value (take (Suc k) xs)), Suc k))"

lemma p_varint_consumes: "snd (p_varint n xs) \<le> length xs"
proof -
  have "length (takeWhile continues xs) \<le> length xs" by (rule length_takeWhile_le)
  then show ?thesis by (auto simp: p_varint_def Let_def)
qed

lemma takeWhile_prefix_eq:
  assumes "length (takeWhile P xs) = k" "k < length xs"
    "take (Suc k) xs = take (Suc k) ys" "Suc k \<le> length ys"
  shows "length (takeWhile P ys) = k"
  using assms
proof (induction xs arbitrary: k ys)
  case Nil
  then show ?case by simp
next
  case (Cons x xs)
  then obtain y zs where ys: "ys = y # zs" by (cases ys) auto
  with Cons.prems have y: "y = x" by simp
  show ?case
  proof (cases "P x")
    case True
    define j where "j = length (takeWhile P xs)"
    have k: "k = Suc j" using Cons.prems(1) True by (simp add: j_def)
    have "length (takeWhile P zs) = j"
      using Cons.IH [OF j_def [symmetric], of zs] Cons.prems(2-4) k ys by simp
    with True ys y k show ?thesis by simp
  next
    case False
    with Cons.prems ys y show ?thesis by simp
  qed
qed

lemma p_varint_prefix:
  assumes "fst (p_varint n xs) = Inr (v :: 'a::len word)"
    "take (snd (p_varint n xs :: 'a word parse)) xs = take (snd (p_varint n xs :: 'a word parse)) ys"
    "snd (p_varint n xs :: 'a word parse) \<le> length ys"
  shows "p_varint n ys = (p_varint n xs :: 'a word parse)"
proof -
  define k where "k = length (takeWhile continues xs)"
  have k: "\<not> n \<le> k" "k \<noteq> length xs"
    using assms(1) by (auto simp: p_varint_def Let_def k_def split: if_splits)
  have le: "k < length xs"
    using k(2) length_takeWhile_le [of continues xs] by (simp add: k_def)
  have s: "snd (p_varint n xs :: 'a word parse) = Suc k" using k by (auto simp: p_varint_def Let_def k_def)
  have "length (takeWhile continues ys) = k"
    using takeWhile_prefix_eq [OF k_def [symmetric] le, of ys] assms(2,3) by (simp only: s)
  then show ?thesis
    using k le assms s by (auto simp: p_varint_def Let_def k_def)
qed

text \<open>The loops, started at group \<open>i\<close> with the value \<open>acc\<close> read so far.\<close>

definition p_varint_from :: "nat \<Rightarrow> nat \<Rightarrow> 'a::len word \<Rightarrow> byte list \<Rightarrow> 'a word parse" where
  "p_varint_from max_len i acc xs =
     (let k = length (takeWhile continues xs)
      in if max_len - i \<le> k then (Inl ''varint overflow'', max_len - i)
         else if k = length xs then (Inl ''end-of-stream'', k)
         else (Inr (acc OR push_bit (7 * i) (varint_value (take (Suc k) xs))), Suc k))"

lemma p_varint_eq_from: "p_varint n xs = p_varint_from n 0 0 xs"
  by (simp add: p_varint_def p_varint_from_def Let_def)

lemma parse_result_advance:
  "parse_result (r, n) (advance k s) m = parse_result (r, k + n) s m"
  by (simp add: parse_result_def split: sum.split)

lemma p_varint_from_end: "max_len \<le> i \<Longrightarrow> p_varint_from max_len i acc xs = (Inl ''varint overflow'', 0)"
  by (simp add: p_varint_from_def)

lemma p_varint_from_Nil:
  "i < max_len \<Longrightarrow> p_varint_from max_len i acc [] = (Inl ''end-of-stream'', 0)"
  by (simp add: p_varint_from_def)

lemma p_varint_from_stop:
  "i < max_len \<Longrightarrow> \<not> continues b \<Longrightarrow> p_varint_from max_len i acc (b # xs) =
     (Inr (acc OR push_bit (7 * i) (ucast (b AND 0x7F))), 1)"
  by (simp add: p_varint_from_def)

lemma p_varint_from_continue:
  assumes "i < max_len" "continues b"
  shows "p_varint_from max_len i acc (b # xs) =
    (let r = p_varint_from max_len (Suc i) (acc OR push_bit (7 * i) (ucast (b AND 0x7F))) xs
     in (fst r, Suc (snd r)))"
  using assms by (auto simp: p_varint_from_def Let_def push_bit_or or.assoc add.commute)

text \<open>
  The 32-bit and the 64-bit loop have the same shape; the locale holds what they share.
  Group \<open>i\<close> is the one whose bits go to position \<open>7 * i\<close>.
\<close>

locale varint_groups =
  fixes loop :: "nat \<Rightarrow> 'a::len word \<Rightarrow> pb_istream \<Rightarrow> mem \<Rightarrow> 'a word option read_result"
    and env :: pb_env
    and max_len :: nat
  assumes group: "i \<le> max_len \<Longrightarrow> loop i acc s m =
    (if i = max_len then Some (None, is_set_error ''varint overflow'' s, m)
     else do {
       (r, s, m) \<leftarrow> pb_readbyte env s m;
       (case r of
          None \<Rightarrow> Some (None, s, m)
        | Some b \<Rightarrow>
            (let acc = acc OR push_bit (7 * i) (ucast (b AND 0x7F))
             in if continues b then loop (Suc i) acc s m else Some (Some acc, s, m)))
     })"
begin

lemma loop_at:
  assumes "stream_at s m xs" "i \<le> max_len"
  shows "loop i acc s m = parse_result (p_varint_from max_len i acc xs) s m"
  using assms
proof (induction xs arbitrary: i acc s)
  case Nil
  show ?case
  proof (cases "i = max_len")
    case True
    with group [OF Nil.prems(2)] show ?thesis by (simp add: p_varint_from_end parse_result_def)
  next
    case False
    with group [OF Nil.prems(2)] pb_readbyte_at [OF Nil.prems(1)] Nil.prems(2) show ?thesis
      by (simp add: p_varint_from_Nil parse_result_def)
  qed
next
  case (Cons b xs)
  note unf = group [OF Cons.prems(2)] pb_readbyte_at [OF Cons.prems(1)]
  show ?case
  proof (cases "i = max_len")
    case True
    with unf(1) show ?thesis by (simp add: p_varint_from_end parse_result_def)
  next
    case False
    with Cons.prems(2) have i: "i < max_len" by simp
    show ?thesis
    proof (cases "continues b")
      case True
      have "loop (Suc i) acc' (advance 1 s) m =
          parse_result (p_varint_from max_len (Suc i) acc' xs) (advance 1 s) m" for acc'
        using Cons.IH [OF stream_at_Cons [OF Cons.prems(1)], of "Suc i"] i by simp
      then have "loop (Suc i) acc' (advance 1 s) m =
          parse_result (fst (p_varint_from max_len (Suc i) acc' xs),
            Suc (snd (p_varint_from max_len (Suc i) acc' xs))) s m" for acc'
        using parse_result_advance [of "fst (p_varint_from max_len (Suc i) acc' xs)"
            "snd (p_varint_from max_len (Suc i) acc' xs)" 1 s m] by simp
      with False True i show ?thesis
        by (simp add: unf p_varint_from_continue Let_def)
    next
      case stop: False
      with False i show ?thesis by (simp add: unf p_varint_from_stop parse_result_def)
    qed
  qed
qed

end

interpretation groups64: varint_groups "\<lambda>i. varint_loop env (7 * i)" env 10 for env
proof
  fix i :: nat and acc s m
  assume "i \<le> 10"
  then have "64 \<le> 7 * i \<longleftrightarrow> i = 10" by auto
  then show "varint_loop env (7 * i) acc s m =
    (if i = 10 then Some (None, is_set_error ''varint overflow'' s, m)
     else do {
       (r, s, m) \<leftarrow> pb_readbyte env s m;
       (case r of
          None \<Rightarrow> Some (None, s, m)
        | Some b \<Rightarrow>
            (let acc = acc OR push_bit (7 * i) (ucast (b AND 0x7F))
             in if continues b then varint_loop env (7 * Suc i) acc s m else Some (Some acc, s, m)))
     })"
    by (simp only: varint_loop.simps [of env "7 * i"] mult_Suc_right add.commute [of 7 "7 * i"])
qed

interpretation groups32: varint_groups "\<lambda>i. varint32_loop env (7 * i)" env 5 for env
proof
  fix i :: nat and acc s m
  assume "i \<le> 5"
  then have "32 \<le> 7 * i \<longleftrightarrow> i = 5" by auto
  then show "varint32_loop env (7 * i) acc s m =
    (if i = 5 then Some (None, is_set_error ''varint overflow'' s, m)
     else do {
       (r, s, m) \<leftarrow> pb_readbyte env s m;
       (case r of
          None \<Rightarrow> Some (None, s, m)
        | Some b \<Rightarrow>
            (let acc = acc OR push_bit (7 * i) (ucast (b AND 0x7F))
             in if continues b then varint32_loop env (7 * Suc i) acc s m
                else Some (Some acc, s, m)))
     })"
    by (simp only: varint32_loop.simps [of env "7 * i"] mult_Suc_right add.commute [of 7 "7 * i"])
qed

lemma continues_bit: "continues b \<longleftrightarrow> bit b 7"
  using and_exp_eq_0_iff_not_bit [of b 7] by simp

lemma and_7F: "b AND 0x7F = take_bit 7 b"
  for b :: byte
  by (simp add: take_bit_eq_mask mask_eq_exp_minus_1)

lemma byte_and_7F:
  assumes "\<not> continues b"
  shows "b AND 0x7F = b"
proof (rule bit_word_eqI)
  fix n
  assume "n < LENGTH(8)"
  then have "n < 7 \<or> n = 7" by auto
  with assms show "bit (b AND 0x7F) n = bit b n"
    by (auto simp: and_7F bit_simps continues_bit)
qed

lemma pb_decode_varint_at:
  "stream_at s m xs \<Longrightarrow> pb_decode_varint env s m = parse_result (p_varint 10 xs) s m"
  using groups64.loop_at [of s m xs 0 env 0] by (simp add: pb_decode_varint_def p_varint_eq_from)

lemma pb_decode_varint32_at:
  assumes "stream_at s m xs"
  shows "pb_decode_varint32 env s m = parse_result (p_varint 5 xs) s m"
proof -
  have "pb_decode_varint32 env s m = varint32_loop env (7 * 0) 0 s m"
    by (auto simp: pb_decode_varint32_def varint32_loop.simps [of env 0] Let_def byte_and_7F
        intro!: Option.bind_cong split: option.split)
  with groups32.loop_at [OF assms, of 0 env 0] show ?thesis by (simp add: p_varint_eq_from)
qed

interpretation varint_reader: buffer_reader "pb_decode_varint env" "p_varint 10" for env
  by unfold_locales (auto simp: pb_decode_varint_at p_varint_consumes intro: p_varint_prefix)

interpretation varint32_reader: buffer_reader "pb_decode_varint32 env" "p_varint 5" for env
  by unfold_locales (auto simp: pb_decode_varint32_at p_varint_consumes intro: p_varint_prefix)

end
