(* ===== verification/Pb_Ostream.thy ===== *)
theory Pb_Ostream
  imports Pb_Types
begin

text \<open>
  The output side of \<open>nanopb/pb_encode.c\<close> below the fields: output streams, \<open>pb_write\<close> and
  the helper functions that write the integer formats, tags and strings.  All arithmetic on
  stream positions is that of \<open>size_t\<close>, wrap-around included.
\<close>

type_synonym write_result = "(bool \<times> pb_ostream \<times> mem) option"

section \<open>Streams\<close>

text \<open>The loop of \<open>buf_write\<close>, byte by byte, from a source in memory.\<close>

primrec copy_loop :: "mem \<Rightarrow> addr \<Rightarrow> addr \<Rightarrow> nat \<Rightarrow> mem option" where
  "copy_loop m dest src 0 = Some m"
| "copy_loop m dest src (Suc n) = do {
     b \<leftarrow> m src;
     m \<leftarrow> store_bytes m dest [b];
     copy_loop m (dest + 1) (src + 1) n
   }"

definition buf_write :: "pb_ostream \<Rightarrow> write_src \<Rightarrow> size \<Rightarrow> mem \<Rightarrow> write_result" where
  "buf_write stream buf count m = do {
     let dest = os_state stream;
     let stream = stream\<lparr>os_state := dest + uint count\<rparr>;
     m \<leftarrow> (case buf of
         Local bs \<Rightarrow> if unat count \<le> length bs then store_bytes m dest (take (unat count) bs) else None
       | At a \<Rightarrow> copy_loop m dest a (unat count));
     Some (True, stream, m)
   }"

definition pb_ostream_from_buffer :: "addr \<Rightarrow> size \<Rightarrow> pb_ostream" where
  "pb_ostream_from_buffer buf bufsize =
     \<lparr>os_callback = Buf_write, os_state = buf, os_max_size = bufsize, os_bytes_written = 0,
      os_errmsg = None\<rparr>"

definition PB_OSTREAM_SIZING :: pb_ostream where
  "PB_OSTREAM_SIZING =
     \<lparr>os_callback = No_callback, os_state = NULL, os_max_size = 0, os_bytes_written = 0,
      os_errmsg = None\<rparr>"

definition ostream_callback ::
  "pb_env \<Rightarrow> pb_ostream \<Rightarrow> write_src \<Rightarrow> size \<Rightarrow> mem \<Rightarrow> write_result" where
  "ostream_callback env stream buf count m =
     (case os_callback stream of
        No_callback \<Rightarrow> None
      | Buf_write \<Rightarrow> buf_write stream buf count m
      | Write_callback f \<Rightarrow> write_cb env f stream buf count m)"

definition pb_write :: "pb_env \<Rightarrow> pb_ostream \<Rightarrow> write_src \<Rightarrow> size \<Rightarrow> mem \<Rightarrow> write_result" where
  "pb_write env stream buf count m =
     (if os_callback stream \<noteq> No_callback
      then (if os_bytes_written stream + count > os_max_size stream
            then Some (False, os_set_error ''stream full'' stream, m)
            else do {
              (ok, stream, m) \<leftarrow> ostream_callback env stream buf count m;
              if \<not> ok then Some (False, os_set_error ''io error'' stream, m)
              else Some (True, stream\<lparr>os_bytes_written := os_bytes_written stream + count\<rparr>, m)
            })
      else Some (True, stream\<lparr>os_bytes_written := os_bytes_written stream + count\<rparr>, m))"

section \<open>Integers\<close>

text \<open>
  The loop that fills \<open>buffer[10]\<close>; the list is the part of the buffer filled so far, and a
  write past its ten bytes is undefined.
\<close>

function varint_fill :: "byte list \<Rightarrow> u64 \<Rightarrow> byte list option" where
  "varint_fill buffer value =
     (if value = 0 then Some buffer
      else if length buffer \<ge> 10 then None
      else varint_fill (buffer @ [ucast (value AND 0x7F) OR 0x80]) (drop_bit 7 value))"
  by pat_completeness auto
termination
  by (relation "measure (\<lambda>(buffer, value). 10 - length buffer)") auto

declare varint_fill.simps [simp del]

definition pb_encode_varint :: "pb_env \<Rightarrow> pb_ostream \<Rightarrow> u64 \<Rightarrow> mem \<Rightarrow> write_result" where
  "pb_encode_varint env stream value m =
     (if value \<le> 0x7F then pb_write env stream (Local [ucast value]) 1 m
      else do {
        buffer \<leftarrow> varint_fill [] value;
        let i = length buffer;
        let buffer = buffer[i - 1 := buffer ! (i - 1) AND 0x7F];
        pb_write env stream (Local buffer) (of_nat i) m
      })"

definition pb_encode_svarint :: "pb_env \<Rightarrow> pb_ostream \<Rightarrow> u64 \<Rightarrow> mem \<Rightarrow> write_result" where
  "pb_encode_svarint env stream value m =
     (let zigzagged = (if sint value < 0 then NOT (push_bit 1 value) else push_bit 1 value)
      in pb_encode_varint env stream zigzagged m)"

definition pb_encode_fixed32 :: "pb_env \<Rightarrow> pb_ostream \<Rightarrow> addr \<Rightarrow> mem \<Rightarrow> write_result" where
  "pb_encode_fixed32 env stream value m = do {
     val \<leftarrow> load_word m value 4 :: u32 option;
     let bytes = [ucast (val AND 0xFF), ucast (drop_bit 8 val AND 0xFF),
       ucast (drop_bit 16 val AND 0xFF), ucast (drop_bit 24 val AND 0xFF)];
     pb_write env stream (Local bytes) 4 m
   }"

definition pb_encode_fixed64 :: "pb_env \<Rightarrow> pb_ostream \<Rightarrow> addr \<Rightarrow> mem \<Rightarrow> write_result" where
  "pb_encode_fixed64 env stream value m = do {
     val \<leftarrow> load_word m value 8 :: u64 option;
     let bytes = [ucast (val AND 0xFF), ucast (drop_bit 8 val AND 0xFF),
       ucast (drop_bit 16 val AND 0xFF), ucast (drop_bit 24 val AND 0xFF),
       ucast (drop_bit 32 val AND 0xFF), ucast (drop_bit 40 val AND 0xFF),
       ucast (drop_bit 48 val AND 0xFF), ucast (drop_bit 56 val AND 0xFF)];
     pb_write env stream (Local bytes) 8 m
   }"

section \<open>Tags and strings\<close>

definition pb_encode_tag ::
  "pb_env \<Rightarrow> pb_ostream \<Rightarrow> pb_wire_type_t \<Rightarrow> u32 \<Rightarrow> mem \<Rightarrow> write_result" where
  "pb_encode_tag env stream wiretype field_number m =
     (let tag = push_bit 3 (ucast field_number) OR ucast wiretype
      in pb_encode_varint env stream tag m)"

definition wire_type_of :: "pb_type_t \<Rightarrow> pb_wire_type_t option" where
  "wire_type_of ltype =
     (if ltype = PB_LTYPE_VARINT \<or> ltype = PB_LTYPE_UVARINT \<or> ltype = PB_LTYPE_SVARINT
      then Some PB_WT_VARINT
      else if ltype = PB_LTYPE_FIXED32 then Some PB_WT_32BIT
      else if ltype = PB_LTYPE_FIXED64 then Some PB_WT_64BIT
      else if ltype = PB_LTYPE_BYTES \<or> ltype = PB_LTYPE_STRING \<or> ltype = PB_LTYPE_SUBMESSAGE
        \<or> ltype = PB_LTYPE_FIXED_LENGTH_BYTES
      then Some PB_WT_STRING
      else None)"

definition pb_encode_tag_for_field ::
  "pb_env \<Rightarrow> pb_ostream \<Rightarrow> pb_field \<Rightarrow> mem \<Rightarrow> write_result" where
  "pb_encode_tag_for_field env stream field m =
     (case wire_type_of (pf_ltype field) of
        None \<Rightarrow> Some (False, os_set_error ''invalid field type'' stream, m)
      | Some wiretype \<Rightarrow> pb_encode_tag env stream wiretype (pf_tag field) m)"

definition pb_encode_string :: "pb_env \<Rightarrow> pb_ostream \<Rightarrow> addr \<Rightarrow> size \<Rightarrow> mem \<Rightarrow> write_result" where
  "pb_encode_string env stream buffer sz m = do {
     (ok, stream, m) \<leftarrow> pb_encode_varint env stream sz m;
     if \<not> ok then Some (False, stream, m)
     else pb_write env stream (At buffer) sz m
   }"

end
