(* ===== verification/Pb_Emit.thy ===== *)
theory Pb_Emit
  imports Pb_Ostream
begin

text \<open>
  What the functions of \<open>Pb_Ostream\<close> write, as byte lists.  \<open>emits R f m bs\<close> is the
  contract every encoder keeps: run with any memory that agrees with \<open>m\<close> on the addresses
  \<open>R\<close> it reads, it adds the length of \<open>bs\<close> to a sizing stream; on a memory stream with room
  it writes exactly \<open>bs\<close>; without room it returns false, and nothing outside the buffer has
  changed.  Emitters compose by concatenation.
\<close>

section \<open>Output windows\<close>

text \<open>No object of the targets is larger than \<open>PTRDIFF_MAX\<close> bytes.\<close>

definition max_object :: nat where "max_object = 2 ^ 63"

definition out_room :: "pb_ostream \<Rightarrow> nat" where
  "out_room s = unat (os_max_size s) - unat (os_bytes_written s)"

definition out_window :: "pb_ostream \<Rightarrow> addr set" where
  "out_window s = region (os_state s) (out_room s)"

definition ostream_ok :: "pb_ostream \<Rightarrow> mem \<Rightarrow> bool" where
  "ostream_ok s m \<longleftrightarrow> os_callback s = Buf_write \<and> os_bytes_written s \<le> os_max_size s \<and>
     unat (os_max_size s) < max_object \<and> os_errmsg s = None \<and>
     allocated m (os_state s) (out_room s)"

definition wrote :: "byte list \<Rightarrow> pb_ostream \<Rightarrow> pb_ostream" where
  "wrote bs s = s\<lparr>os_state := os_state s + int (length bs),
     os_bytes_written := os_bytes_written s + of_nat (length bs)\<rparr>"

definition counted :: "byte list \<Rightarrow> pb_ostream \<Rightarrow> pb_ostream" where
  "counted bs s = s\<lparr>os_bytes_written := os_bytes_written s + of_nat (length bs)\<rparr>"

definition emit_failed :: "pb_ostream \<Rightarrow> mem \<Rightarrow> write_result \<Rightarrow> bool" where
  "emit_failed s m r \<longleftrightarrow> (\<exists>s' m'. r = Some (False, s', m') \<and> os_errmsg s' \<noteq> None \<and>
     dom m' = dom m \<and> (\<forall>x. x \<notin> out_window s \<longrightarrow> m' x = m x))"

definition emits ::
  "addr set \<Rightarrow> (pb_ostream \<Rightarrow> mem \<Rightarrow> write_result) \<Rightarrow> mem \<Rightarrow> byte list \<Rightarrow> bool" where
  "emits R f m bs \<longleftrightarrow>
     (\<forall>s m'. (\<forall>x\<in>R. m' x = m x) \<longrightarrow>
       (os_callback s = No_callback \<longrightarrow> f s m' = Some (True, counted bs s, m')) \<and>
       (ostream_ok s m' \<longrightarrow> out_window s \<inter> R = {} \<longrightarrow>
         (if length bs \<le> out_room s then f s m' = Some (True, wrote bs s, overwrite m' (os_state s) bs)
          else emit_failed s m' (f s m'))))"

lemma wrote_simps [simp]:
  "os_callback (wrote bs s) = os_callback s"
  "os_state (wrote bs s) = os_state s + int (length bs)"
  "os_max_size (wrote bs s) = os_max_size s"
  "os_bytes_written (wrote bs s) = os_bytes_written s + of_nat (length bs)"
  "os_errmsg (wrote bs s) = os_errmsg s"
  by (simp_all add: wrote_def)

lemma counted_simps [simp]:
  "os_callback (counted bs s) = os_callback s"
  "os_state (counted bs s) = os_state s"
  "os_bytes_written (counted bs s) = os_bytes_written s + of_nat (length bs)"
  by (simp_all add: counted_def)

lemma wrote_append: "wrote cs (wrote bs s) = wrote (bs @ cs) s"
  by (simp add: wrote_def algebra_simps)

lemma counted_append: "counted cs (counted bs s) = counted (bs @ cs) s"
  by (simp add: counted_def algebra_simps)

lemma wrote_Nil [simp]: "wrote [] s = s"
  by (simp add: wrote_def)

lemma counted_Nil [simp]: "counted [] s = s"
  by (simp add: counted_def)

lemma overwrite_append:
  "overwrite (overwrite m a bs) (a + int (length bs)) cs = overwrite m a (bs @ cs)"
proof
  fix x
  have "nat (x - a) - length bs = nat (x - (a + int (length bs)))"
    if "a + int (length bs) \<le> x" using that by arith
  then show "overwrite (overwrite m a bs) (a + int (length bs)) cs x = overwrite m a (bs @ cs) x"
    by (auto simp: overwrite_def in_region nth_append)
qed

lemma overwrite_other: "x \<notin> region a (length bs) \<Longrightarrow> overwrite m a bs x = m x"
  by (simp add: overwrite_def)

lemma overwrite_dom: "allocated m a (length bs) \<Longrightarrow> dom (overwrite m a bs) = dom m"
  using store_bytes_dom [of m a bs] by (simp add: store_bytes_eq)

lemma load_overwrite: "load_bytes (overwrite m a bs) a (length bs) = Some bs"
  by (auto simp: load_bytes_iff overwrite_def in_region)

lemma out_room_bytes:
  assumes "os_bytes_written s \<le> os_max_size s" "k \<le> out_room s"
  shows "unat (os_bytes_written s + of_nat k) = unat (os_bytes_written s) + k"
proof -
  have "unat (os_bytes_written s) + k \<le> unat (os_max_size s)"
    using assms by (simp add: out_room_def word_le_nat_alt)
  then have "unat (os_bytes_written s) + k < 2 ^ LENGTH(64)"
    using unsigned_less [of "os_max_size s"] by (rule le_less_trans)
  then show ?thesis
    by (simp add: unat_word_ariths unat_of_nat take_bit_eq_mod mod_simps)
qed

lemma out_room_wrote:
  assumes "os_bytes_written s \<le> os_max_size s" "length bs \<le> out_room s"
  shows "out_room (wrote bs s) = out_room s - length bs"
  using out_room_bytes [OF assms] by (simp add: out_room_def)

lemma ostream_ok_wrote:
  assumes "ostream_ok s m" "length bs \<le> out_room s"
  shows "ostream_ok (wrote bs s) (overwrite m (os_state s) bs)"
proof -
  from assms have le: "os_bytes_written s \<le> os_max_size s" by (simp add: ostream_ok_def)
  have "os_bytes_written (wrote bs s) \<le> os_max_size s"
    using le assms(2) out_room_bytes [OF le assms(2)] by (simp add: word_le_nat_alt out_room_def)
  moreover have "allocated m (os_state s + int (length bs)) (out_room s - length bs)"
    using assms by (auto simp: ostream_ok_def elim!: allocated_sub)
  moreover have "dom (overwrite m (os_state s) bs) = dom m"
    using assms by (intro overwrite_dom) (auto simp: ostream_ok_def elim: allocated_le)
  ultimately show ?thesis
    using assms by (simp add: ostream_ok_def out_room_wrote [OF le] allocated_def)
qed

lemma out_window_wrote:
  assumes "os_bytes_written s \<le> os_max_size s" "length bs \<le> out_room s"
  shows "out_window (wrote bs s) \<subseteq> out_window s"
  using assms(2) by (auto simp: out_window_def out_room_wrote [OF assms] in_region)

section \<open>Composition\<close>

text \<open>The code's \<open>if (!f(...)) return false; return g(...);\<close>.\<close>

definition then_write ::
  "(pb_ostream \<Rightarrow> mem \<Rightarrow> write_result) \<Rightarrow> (pb_ostream \<Rightarrow> mem \<Rightarrow> write_result) \<Rightarrow>
   pb_ostream \<Rightarrow> mem \<Rightarrow> write_result" where
  "then_write f g s m = do {
     (ok, s, m) \<leftarrow> f s m;
     if \<not> ok then Some (False, s, m) else g s m
   }"

lemma emitsD_sizing:
  "emits R f m bs \<Longrightarrow> os_callback s = No_callback \<Longrightarrow> f s m = Some (True, counted bs s, m)"
  by (simp add: emits_def)

lemma emitsD_room:
  "emits R f m bs \<Longrightarrow> ostream_ok s m' \<Longrightarrow> out_window s \<inter> R = {} \<Longrightarrow> \<forall>x\<in>R. m' x = m x \<Longrightarrow>
   length bs \<le> out_room s \<Longrightarrow> f s m' = Some (True, wrote bs s, overwrite m' (os_state s) bs)"
  by (simp add: emits_def)

lemma emitsD_full:
  "emits R f m bs \<Longrightarrow> ostream_ok s m' \<Longrightarrow> out_window s \<inter> R = {} \<Longrightarrow> \<forall>x\<in>R. m' x = m x \<Longrightarrow>
   \<not> length bs \<le> out_room s \<Longrightarrow> emit_failed s m' (f s m')"
  by (simp add: emits_def)

lemma emits_mono: "emits R f m bs \<Longrightarrow> R \<subseteq> S \<Longrightarrow> emits S f m bs"
  unfolding emits_def by blast

lemma emits_cong_mem: "emits R f m bs \<Longrightarrow> \<forall>x\<in>R. m' x = m x \<Longrightarrow> emits R f m' bs"
  by (simp add: emits_def)

lemma emit_failed_wrote:
  assumes ok: "ostream_ok s m" and room: "length bs \<le> out_room s"
    and failed: "emit_failed (wrote bs s) (overwrite m (os_state s) bs) r"
  shows "emit_failed s m r"
proof -
  have le: "os_bytes_written s \<le> os_max_size s" using ok by (simp add: ostream_ok_def)
  have "region (os_state s) (length bs) \<subseteq> out_window s"
    using region_mono [OF room] by (simp add: out_window_def)
  moreover have "dom (overwrite m (os_state s) bs) = dom m"
    using ok room by (intro overwrite_dom) (auto simp: ostream_ok_def elim: allocated_le)
  ultimately show ?thesis
    using failed out_window_wrote [OF le room]
    unfolding emit_failed_def by (metis overwrite_other subsetD)
qed

lemma emits_then:
  assumes f: "emits R f m bs" and g: "emits R g m cs"
  shows "emits R (then_write f g) m (bs @ cs)"
  unfolding emits_def
proof (intro allI impI conjI)
  fix s m'
  assume agree: "\<forall>x\<in>R. m' x = m x"
  show "then_write f g s m' = Some (True, counted (bs @ cs) s, m')" if "os_callback s = No_callback"
  proof -
    have "f s m' = Some (True, counted bs s, m')"
        "g (counted bs s) m' = Some (True, counted cs (counted bs s), m')"
      using f g agree that by (simp_all add: emits_def)
    then show ?thesis by (simp add: then_write_def counted_append)
  qed
  assume ok: "ostream_ok s m'" and disj: "out_window s \<inter> R = {}"
  have le: "os_bytes_written s \<le> os_max_size s" using ok by (simp add: ostream_ok_def)
  let ?s = "wrote bs s" and ?m = "overwrite m' (os_state s) bs"
  show "if length (bs @ cs) \<le> out_room s
    then then_write f g s m' = Some (True, wrote (bs @ cs) s, overwrite m' (os_state s) (bs @ cs))
    else emit_failed s m' (then_write f g s m')"
  proof (cases "length bs \<le> out_room s")
    case False
    then have "emit_failed s m' (f s m')" using f ok disj agree by (rule_tac emitsD_full)
    moreover from this have "then_write f g s m' = f s m'"
      by (auto simp: emit_failed_def then_write_def)
    ultimately show ?thesis using False by simp
  next
    case True
    have fs: "f s m' = Some (True, ?s, ?m)"
      using emitsD_room [OF f ok disj agree True] .
    have ok2: "ostream_ok ?s ?m" using ostream_ok_wrote [OF ok True] .
    have disj2: "out_window ?s \<inter> R = {}" using out_window_wrote [OF le True] disj by blast
    have "region (os_state s) (length bs) \<inter> R = {}"
      using disj region_mono [OF True] by (auto simp: out_window_def)
    then have agree2: "\<forall>x\<in>R. ?m x = m x"
      using agree by (metis IntI empty_iff overwrite_other)
    have room2: "out_room ?s = out_room s - length bs" using out_room_wrote [OF le True] .
    show ?thesis
    proof (cases "length cs \<le> out_room ?s")
      case fits: True
      then have "g ?s ?m = Some (True, wrote (bs @ cs) s, overwrite m' (os_state s) (bs @ cs))"
        using emitsD_room [OF g ok2 disj2 agree2] by (simp add: wrote_append overwrite_append)
      moreover have "length (bs @ cs) \<le> out_room s" using fits True room2 by simp
      ultimately show ?thesis using fs by (simp add: then_write_def)
    next
      case full: False
      have "emit_failed s m' (g ?s ?m)"
        using emit_failed_wrote [OF ok True] emitsD_full [OF g ok2 disj2 agree2 full] by blast
      with full True room2 fs show ?thesis by (auto simp: then_write_def)
    qed
  qed
qed

lemma emits_nothing: "emits R (\<lambda>s m. Some (True, s, m)) m []"
  by (simp add: emits_def)

section \<open>Plain writes\<close>

lemma copy_loop_eq:
  assumes "load_bytes m a n = Some bs" "region a n \<inter> region d n = {}" "allocated m d n"
  shows "copy_loop m d a n = Some (overwrite m d bs)"
  using assms
proof (induction n arbitrary: m a d bs)
  case 0
  then show ?case by simp
next
  case (Suc n)
  then obtain b cs where b: "m a = Some b" "load_bytes m (a + 1) n = Some cs" "bs = b # cs"
    by (auto split: option.splits)
  from Suc.prems(3) obtain c where c: "m d = Some c" by (auto simp: allocated_Suc)
  have al: "allocated (m(d \<mapsto> b)) (d + 1) n"
    using c Suc.prems(3) allocated_dom [of "m(d \<mapsto> b)" m] by (auto simp: allocated_Suc)
  have "load_bytes (m(d \<mapsto> b)) (a + 1) n = load_bytes m (a + 1) n"
    using Suc.prems(2) by (intro load_bytes_cong) (auto simp: region_Suc)
  with b(2) have ld: "load_bytes (m(d \<mapsto> b)) (a + 1) n = Some cs" by simp
  have "region (a + 1) n \<inter> region (d + 1) n = {}"
    using Suc.prems(2) by (auto simp: region_Suc)
  with ld have "copy_loop (m(d \<mapsto> b)) (d + 1) (a + 1) n =
      Some (overwrite (m(d \<mapsto> b)) (d + 1) cs)"
    using al by (rule Suc.IH)
  with b c show ?case by (simp add: overwrite_Cons)
qed

lemma write_fits:
  assumes "ostream_ok s m" "n < max_object"
  shows "os_bytes_written s + of_nat n > os_max_size s \<longleftrightarrow> \<not> n \<le> out_room s"
proof -
  have le: "unat (os_bytes_written s) \<le> unat (os_max_size s)"
    using assms(1) by (simp add: ostream_ok_def word_le_nat_alt)
  have "unat (os_bytes_written s) + n < 2 ^ LENGTH(64)"
    using assms le by (simp add: ostream_ok_def max_object_def)
  then have "unat (os_bytes_written s + of_nat n) = unat (os_bytes_written s) + n"
    by (simp add: unat_word_ariths unat_of_nat take_bit_eq_mod mod_simps)
  with le show ?thesis by (auto simp: word_less_nat_alt out_room_def)
qed

lemma emits_by_callback:
  assumes size: "length bs < max_object" "count = of_nat (length bs)"
    and writing: "\<And>s m'. ostream_ok s m' \<Longrightarrow> out_window s \<inter> R = {} \<Longrightarrow> \<forall>x\<in>R. m' x = m x \<Longrightarrow>
      length bs \<le> out_room s \<Longrightarrow>
      buf_write s src count m' = Some (True, s\<lparr>os_state := os_state s + int (length bs)\<rparr>,
        overwrite m' (os_state s) bs)"
  shows "emits R (\<lambda>s m. pb_write env s src count m) m bs"
  unfolding emits_def
proof (intro allI impI conjI)
  fix s m'
  assume agree: "\<forall>x\<in>R. m' x = m x"
  show "pb_write env s src count m' = Some (True, counted bs s, m')"
    if "os_callback s = No_callback"
    using that size by (simp add: pb_write_def counted_def)
  assume ok: "ostream_ok s m'" and disj: "out_window s \<inter> R = {}"
  then have cb: "os_callback s = Buf_write" by (simp add: ostream_ok_def)
  note fits = write_fits [OF ok size(1)]
  show "if length bs \<le> out_room s
    then pb_write env s src count m' = Some (True, wrote bs s, overwrite m' (os_state s) bs)
    else emit_failed s m' (pb_write env s src count m')"
    using fits cb size(2) writing [OF ok disj agree] os_set_error_simps(5) [of "''stream full''" s]
    by (auto simp: pb_write_def ostream_callback_def wrote_def emit_failed_def
        simp del: os_set_error_simps(5) not_None_eq)
qed

lemma emits_write_local:
  assumes "length bs < max_object" "count = of_nat (length bs)"
  shows "emits R (\<lambda>s m. pb_write env s (Local bs) count m) m bs"
proof (rule emits_by_callback [OF assms])
  fix s m'
  assume ok: "ostream_ok s m'" and room: "length bs \<le> out_room s"
  have "unat count = length bs"
    using assms by (simp add: max_object_def unat_of_nat take_bit_eq_mod)
  moreover from this have "uint count = int (length bs)" by (rule uint_of_unat)
  ultimately show "buf_write s (Local bs) count m' =
      Some (True, s\<lparr>os_state := os_state s + int (length bs)\<rparr>, overwrite m' (os_state s) bs)"
    using ok room by (auto simp: buf_write_def store_bytes_eq ostream_ok_def Let_def dest: allocated_le)
qed

lemma emits_write_mem:
  assumes load: "load_bytes m a n = Some bs" and n: "n < max_object" and R: "region a n \<subseteq> R"
    and count: "count = of_nat n"
  shows "emits R (\<lambda>s m. pb_write env s (At a) count m) m bs"
proof -
  have len: "length bs = n" using load by (rule load_bytes_length)
  show ?thesis
  proof (rule emits_by_callback)
    show "length bs < max_object" "count = of_nat (length bs)" using n count len by simp_all
    fix s m'
    assume ok: "ostream_ok s m'" and room: "length bs \<le> out_room s"
      and disj: "out_window s \<inter> R = {}" and agree: "\<forall>x\<in>R. m' x = m x"
    have u: "unat count = n" using n count by (simp add: max_object_def unat_of_nat take_bit_eq_mod)
    then have i: "uint count = int n" by (rule uint_of_unat)
    have "load_bytes m' a n = Some bs"
      using load load_bytes_cong [of a n m' m] agree R by auto
    moreover have "region a n \<inter> region (os_state s) n = {}"
      using disj R region_mono [of n "out_room s" "os_state s"] room len
      by (auto simp: out_window_def)
    moreover have "allocated m' (os_state s) n"
      using ok room len by (auto simp: ostream_ok_def dest: allocated_le)
    ultimately have "copy_loop m' (os_state s) a n = Some (overwrite m' (os_state s) bs)"
      by (rule copy_loop_eq)
    then show "buf_write s (At a) count m' =
      Some (True, s\<lparr>os_state := os_state s + int (length bs)\<rparr>, overwrite m' (os_state s) bs)"
      using u i len by (simp add: buf_write_def Let_def)
  qed
qed

section \<open>What the helper functions write\<close>

text \<open>The base-128 form of a number: seven bits a byte, all but the last marked.\<close>

function varint_bytes :: "u64 \<Rightarrow> byte list" where
  "varint_bytes v =
     (if v \<le> 0x7F then [ucast v]
      else (ucast (v AND 0x7F) OR 0x80) # varint_bytes (drop_bit 7 v))"
  by pat_completeness auto
termination
proof (relation "measure unat")
  show "wf (measure (unat :: u64 \<Rightarrow> nat))" by simp
  fix v :: u64
  assume "\<not> v \<le> 0x7F"
  then have "0 < unat v" by (simp add: word_le_nat_alt)
  then show "(drop_bit 7 v, v) \<in> measure unat"
    by (simp add: unat_drop_bit_div)
qed

declare varint_bytes.simps [simp del]

end
