(* ===== verification/Pb_Wire.thy ===== *)
theory Pb_Wire
  imports Pb_Reader Pb_Emit
begin

text \<open>
  The wire formats of nanopb, from both sides: what each helper function of the encoder
  writes, that the readers of the decoder read the same value back, how long the encodings
  are, and how the 32-bit reader relates to the 64-bit one.
\<close>

section \<open>Base-128 integers\<close>

lemma varint_bytes_small: "v \<le> 0x7F \<Longrightarrow> varint_bytes v = [ucast v]"
  by (simp add: varint_bytes.simps)

lemma varint_bytes_big:
  "\<not> v \<le> 0x7F \<Longrightarrow> varint_bytes v = (ucast (v AND 0x7F) OR 0x80) # varint_bytes (drop_bit 7 v)"
  by (subst varint_bytes.simps) simp

lemma varint_bytes_nonempty [simp]: "varint_bytes v \<noteq> []"
  by (cases "v \<le> 0x7F") (simp_all add: varint_bytes_small varint_bytes_big)

lemma and_7F_u64: "v AND 0x7F = take_bit 7 v"
  for v :: u64
  by (simp add: take_bit_eq_mask mask_eq_exp_minus_1)

lemma small_iff_u64: "v \<le> 0x7F \<longleftrightarrow> take_bit 7 v = v"
  for v :: u64
proof -
  have "v \<le> 0x7F \<longleftrightarrow> unat v < 2 ^ 7" by (auto simp: word_le_nat_alt)
  also have "\<dots> \<longleftrightarrow> take_bit 7 v = v"
    by (simp only: take_bit_unat_less)
  finally show ?thesis .
qed

lemma small_bit: "v \<le> 0x7F \<Longrightarrow> bit v n \<Longrightarrow> n < 7"
  for v :: u64
  by (metis bit_take_bit_iff small_iff_u64)

lemma drop_bit_7_nonzero:
  fixes v :: u64
  assumes "\<not> v \<le> 0x7F"
  shows "drop_bit 7 v \<noteq> 0"
proof
  assume "drop_bit 7 v = 0"
  then have "take_bit 7 v = v" using bits_ident [of 7 v] by simp
  with assms show False by (simp add: small_iff_u64)
qed

lemma continues_group [simp]: "continues (b OR 0x80)"
  by (simp add: continues_bit bit_simps)

lemma not_continues_small:
  fixes v :: u64
  assumes "v \<le> 0x7F"
  shows "\<not> continues (ucast v)"
  using small_bit [OF assms, of 7] by (auto simp: continues_bit bit_simps)

lemma takeWhile_varint_bytes: "takeWhile continues (varint_bytes v) = butlast (varint_bytes v)"
proof (induction v rule: varint_bytes.induct)
  case (1 v)
  show ?case
  proof (cases "v \<le> 0x7F")
    case True
    then show ?thesis by (simp add: varint_bytes_small not_continues_small)
  next
    case False
    with 1 show ?thesis by (simp add: varint_bytes_big del: continues_bit)
  qed
qed

lemma group_value: "(ucast (v AND 0x7F) OR 0x80 :: byte) AND 0x7F = ucast (v AND 0x7F)"
  for v :: u64
  by (rule bit_word_eqI) (auto simp: and_7F and_7F_u64 bit_simps)

lemma varint_value_bytes: "varint_value (varint_bytes v) = (ucast v :: 'a::len word)"
proof (induction v rule: varint_bytes.induct)
  case (1 v)
  show ?case
  proof (cases "v \<le> 0x7F")
    case True
    then show ?thesis
      by (auto simp: varint_bytes_small and_7F bit_simps intro!: bit_word_eqI dest: small_bit)
  next
    case False
    with 1 have "varint_value (varint_bytes v) =
        (ucast (ucast (v AND 0x7F) :: byte) OR push_bit 7 (ucast (drop_bit 7 v)) :: 'a word)"
      by (simp add: varint_bytes_big group_value)
    also have "\<dots> = ucast v"
    proof (rule bit_word_eqI)
      fix n
      show "bit (ucast (ucast (v AND 0x7F) :: byte) OR push_bit 7 (ucast (drop_bit 7 v)) :: 'a word) n
          = bit (ucast v :: 'a word) n" if "n < LENGTH('a)"
        using that by (cases "n < 7") (auto simp: and_7F_u64 bit_simps)
    qed
    finally show ?thesis .
  qed
qed

lemma length_varint_bytes_le: "unat v < 2 ^ (7 * k) \<Longrightarrow> 0 < k \<Longrightarrow> length (varint_bytes v) \<le> k"
proof (induction v arbitrary: k rule: varint_bytes.induct)
  case (1 v)
  show ?case
  proof (cases "v \<le> 0x7F")
    case True
    with 1 show ?thesis by (simp add: varint_bytes_small)
  next
    case False
    then have big: "128 \<le> unat v" by (simp add: word_le_nat_alt)
    obtain j where k: "k = Suc j" using "1.prems"(2) by (cases k) auto
    with "1.prems"(1) big have "0 < j" by (cases j) auto
    moreover have "unat (drop_bit 7 v) < 2 ^ (7 * j)"
      using "1.prems"(1) k by (simp add: unat_drop_bit_div power_add div_less_iff_less_mult mult.commute)
    ultimately have "length (varint_bytes (drop_bit 7 v)) \<le> j" using False by (intro "1.IH")
    with False k show ?thesis by (simp add: varint_bytes_big)
  qed
qed

lemma length_varint_bytes: "length (varint_bytes v) \<le> 10"
proof (rule length_varint_bytes_le)
  show "unat v < 2 ^ (7 * 10)"
    using unsigned_less [of v, where ?'a = nat] by (rule less_le_trans) simp
qed simp

lemma length_varint_bytes32:
  assumes "unat v < 2 ^ 32"
  shows "length (varint_bytes v) \<le> 5"
proof (rule length_varint_bytes_le)
  show "unat v < 2 ^ (7 * 5)"
    using assms by (rule less_le_trans) simp
qed simp

text \<open>The length is least.\<close>

lemma length_varint_bytes_iff:
  assumes "0 < k"
  shows "length (varint_bytes v) \<le> k \<longleftrightarrow> unat v < 2 ^ (7 * k)"
proof
  show "unat v < 2 ^ (7 * k) \<Longrightarrow> length (varint_bytes v) \<le> k"
    by (rule length_varint_bytes_le [OF _ assms])
  show "length (varint_bytes v) \<le> k \<Longrightarrow> unat v < 2 ^ (7 * k)"
  proof (induction v arbitrary: k rule: varint_bytes.induct)
    case (1 v)
    show ?case
    proof (cases "v \<le> 0x7F")
      case True
      then have "unat v < 2 ^ 7" by (auto simp: word_le_nat_alt)
      moreover have "(2 :: nat) ^ 7 \<le> 2 ^ (7 * k)"
        using "1.prems" True by (intro power_increasing) (simp_all add: varint_bytes_small)
      ultimately show ?thesis by (rule less_le_trans)
    next
      case False
      then have le: "Suc (length (varint_bytes (drop_bit 7 v))) \<le> k"
        using "1.prems" varint_bytes_big [OF False] by simp
      then obtain j where k: "k = Suc j" by (cases k) auto
      with le have j: "length (varint_bytes (drop_bit 7 v)) \<le> j" by simp
      from "1.IH" [OF False j] have "unat v div 2 ^ 7 < 2 ^ (7 * j)"
        by (simp only: unat_drop_bit_div)
      then have "unat v < 2 ^ (7 * j) * 2 ^ 7" by (simp add: div_less_iff_less_mult)
      also have "\<dots> = 2 ^ (7 * k)" by (simp add: k power_add)
      finally show ?thesis .
    qed
  qed
qed

text \<open>The parsers of the decoder read the encoding back.\<close>

lemma p_varint_varint_bytes:
  assumes "length (varint_bytes v) \<le> n"
  shows "p_varint n (varint_bytes v) = (Inr (ucast v), length (varint_bytes v))"
proof -
  have "0 < length (varint_bytes v)" by simp
  with assms have "\<not> n \<le> length (varint_bytes v) - 1"
      "length (varint_bytes v) - 1 \<noteq> length (varint_bytes v)"
      "Suc (length (varint_bytes v) - 1) = length (varint_bytes v)" by linarith+
  then show ?thesis
    by (simp add: p_varint_def takeWhile_varint_bytes Let_def varint_value_bytes)
qed

text \<open>The loop that fills the encoder's buffer marks every byte, the last one too.\<close>

lemma varint_fill_bytes:
  assumes "v \<noteq> 0" "length buf + length (varint_bytes v) \<le> 10"
  shows "varint_fill buf v =
    Some (buf @ butlast (varint_bytes v) @ [last (varint_bytes v) OR 0x80])"
  using assms
proof (induction v arbitrary: buf rule: varint_bytes.induct)
  case (1 v)
  show ?case
  proof (cases "v \<le> 0x7F")
    case True
    then have "drop_bit 7 v = 0"
      by (auto simp: bit_simps intro!: bit_word_eqI dest: small_bit)
    moreover from True have "v AND 0x7F = v" by (simp add: and_7F_u64 small_iff_u64)
    ultimately show ?thesis
      using True "1.prems"
      by (simp add: varint_bytes_small varint_fill.simps [of buf] varint_fill.simps [of _ 0])
  next
    case False
    then have "varint_fill (buf @ [ucast (v AND 0x7F) OR 0x80]) (drop_bit 7 v) =
        Some ((buf @ [ucast (v AND 0x7F) OR 0x80]) @
          butlast (varint_bytes (drop_bit 7 v)) @ [last (varint_bytes (drop_bit 7 v)) OR 0x80])"
      using "1.prems" drop_bit_7_nonzero [OF False] by (intro "1.IH") (simp_all add: varint_bytes_big)
    with False "1.prems" show ?thesis
      by (simp add: varint_bytes_big varint_fill.simps [of buf])
  qed
qed

lemma last_varint_bytes: "\<not> continues (last (varint_bytes v))"
proof (induction v rule: varint_bytes.induct)
  case (1 v)
  then show ?case
    by (cases "v \<le> 0x7F")
      (simp_all add: varint_bytes_small varint_bytes_big not_continues_small del: not_not)
qed

lemma unmark:
  assumes "\<not> continues b"
  shows "(b OR 0x80) AND 0x7F = b"
proof -
  have "(b OR 0x80) AND 0x7F = (b AND 0x7F) OR (0x80 AND 0x7F)"
    by (rule bit.conj_disj_distrib2)
  with byte_and_7F [OF assms] show ?thesis by simp
qed

lemma pb_encode_varint_eq:
  "pb_encode_varint env s v m =
     pb_write env s (Local (varint_bytes v)) (of_nat (length (varint_bytes v))) m"
proof (cases "v \<le> 0x7F")
  case True
  then show ?thesis by (simp add: pb_encode_varint_def varint_bytes_small)
next
  case False
  then have "v \<noteq> 0" by auto
  then have "varint_fill [] v =
      Some (butlast (varint_bytes v) @ [last (varint_bytes v) OR 0x80])"
    using varint_fill_bytes [of v "[]"] length_varint_bytes [of v] by simp
  moreover have "butlast (varint_bytes v) @ [last (varint_bytes v)] = varint_bytes v" by simp
  ultimately show ?thesis
    using False unmark [OF last_varint_bytes [of v]]
    by (simp add: pb_encode_varint_def Let_def nth_append list_update_append)
qed

lemma max_object_small: "n \<le> 10 \<Longrightarrow> n < max_object"
  by (simp add: max_object_def)

lemma emits_varint: "emits R (\<lambda>s m. pb_encode_varint env s v m) m (varint_bytes v)"
  unfolding pb_encode_varint_eq
  by (intro emits_write_local max_object_small length_varint_bytes refl)

section \<open>Zig-zag integers\<close>

definition zigzag :: "u64 \<Rightarrow> u64" where
  "zigzag v = (if sint v < 0 then NOT (push_bit 1 v) else push_bit 1 v)"

definition unzigzag :: "u64 \<Rightarrow> u64" where
  "unzigzag w = (if w AND 1 \<noteq> 0 then NOT (drop_bit 1 w) else drop_bit 1 w)"

lemma sint_negative_bit: "sint v < 0 \<longleftrightarrow> bit v 63"
  for v :: u64
  using bit_last_iff [of v] by simp

lemma bit_zigzag:
  "n < 64 \<Longrightarrow> bit (zigzag v) n \<longleftrightarrow> (if n = 0 then bit v 63 else bit v (n - 1) \<noteq> bit v 63)"
  by (simp add: zigzag_def sint_negative_bit bit_not_iff bit_push_bit_iff del: push_bit_numeral One_nat_def)

lemma unzigzag_zigzag: "unzigzag (zigzag v) = v"
proof -
  have odd: "zigzag v AND 1 \<noteq> 0 \<longleftrightarrow> bit v 63"
    using and_exp_eq_0_iff_not_bit [of "zigzag v" 0] bit_zigzag [of 0 v] by simp
  show ?thesis
  proof (rule bit_word_eqI)
    fix n
    assume "n < LENGTH(64)"
    then have "n < 63 \<or> n = 63" by auto
    then show "bit (unzigzag (zigzag v)) n = bit v n"
      unfolding unzigzag_def odd
      by (auto simp: bit_zigzag bit_drop_bit_eq bit_not_iff dest: bit_imp_le_length)
  qed
qed

lemma emits_svarint: "emits R (\<lambda>s m. pb_encode_svarint env s v m) m (varint_bytes (zigzag v))"
  using emits_varint [of R env "zigzag v" m] by (simp add: pb_encode_svarint_def zigzag_def Let_def)

lemma pb_decode_svarint_at:
  "stream_at s m xs \<Longrightarrow>
   pb_decode_svarint env s m = parse_result (p_map unzigzag (p_varint 10 xs)) s m"
  by (auto simp: pb_decode_svarint_def pb_decode_varint_at parse_result_def p_map_def unzigzag_def
      split: sum.split)

interpretation svarint_reader:
  buffer_reader "pb_decode_svarint env" "\<lambda>xs. p_map unzigzag (p_varint 10 xs)" for env
proof
  show "p_map unzigzag (p_varint 10 ys) = p_map unzigzag (p_varint 10 xs)"
    if "fst (p_map unzigzag (p_varint 10 xs)) = Inr v"
      "take (snd (p_map unzigzag (p_varint 10 xs))) xs =
       take (snd (p_map unzigzag (p_varint 10 xs))) ys"
      "snd (p_map unzigzag (p_varint 10 xs)) \<le> length ys" for xs ys v
  proof -
    from that(1) obtain w :: u64 where "fst (p_varint 10 xs) = Inr w" by auto
    then have "p_varint 10 ys = (p_varint 10 xs :: u64 parse)" using that(2,3) by (intro p_varint_prefix) auto
    then show ?thesis by simp
  qed
qed (auto simp: pb_decode_svarint_at p_varint_consumes)

section \<open>Tags\<close>

definition tag_value :: "pb_wire_type_t \<Rightarrow> u32 \<Rightarrow> u64" where
  "tag_value wiretype field_number = push_bit 3 (ucast field_number) OR ucast wiretype"

lemma emits_tag:
  "emits R (\<lambda>s m. pb_encode_tag env s wt n m) m (varint_bytes (tag_value wt n))"
  using emits_varint [of R env "tag_value wt n" m]
  by (simp add: pb_encode_tag_def tag_value_def Let_def)

lemma tag_value_bits:
  assumes "unat wt < 8" "unat n < 2 ^ 29"
  shows "ucast (tag_value wt n) AND 7 = wt" "drop_bit 3 (ucast (tag_value wt n)) = n"
    "unat (tag_value wt n) < 2 ^ 32"
proof -
  have wt: "i < 3" if "bit wt i" for i using bit_unat_less [of wt 3 i] assms(1) that by simp
  have n: "i < 29" if "bit n i" for i using bit_unat_less [OF assms(2) that] .
  have mask: "(7 :: u32) = mask 3" by (simp add: mask_eq_exp_minus_1)
  show "ucast (tag_value wt n) AND 7 = wt"
    unfolding mask by (rule bit_word_eqI) (auto simp: tag_value_def bit_simps dest: wt)
  show "drop_bit 3 (ucast (tag_value wt n)) = n"
    by (rule bit_word_eqI) (auto simp: tag_value_def bit_simps dest: wt n)
  have "take_bit 32 (tag_value wt n) = tag_value wt n"
    by (rule bit_word_eqI) (auto simp: tag_value_def bit_simps dest: wt n)
  then show "unat (tag_value wt n) < 2 ^ 32" by (simp only: take_bit_unat_less)
qed

text \<open>What \<open>pb_decode_tag\<close> makes of the number it read.\<close>

definition tag_of_number :: "u32 \<Rightarrow> tag_result" where
  "tag_of_number temp =
     (if temp = 0 then \<lparr>tr_ok = False, tr_wire_type = 0, tr_tag = 0, tr_eof = True\<rparr>
      else \<lparr>tr_ok = True, tr_wire_type = temp AND 7, tr_tag = drop_bit 3 temp, tr_eof = False\<rparr>)"

lemma pb_decode_tag_at:
  assumes "stream_at s m xs"
  shows "pb_decode_tag env s m = (case p_varint 5 xs of
      (Inl e, k) \<Rightarrow> Some (\<lparr>tr_ok = False, tr_wire_type = 0, tr_tag = 0, tr_eof = (k = length xs)\<rparr>,
        is_set_error e (advance k s), m)
    | (Inr temp, k) \<Rightarrow> Some (tag_of_number temp, advance k s, m))"
proof -
  obtain r k where r: "p_varint 5 xs = (r :: string + u32, k)" by fastforce
  with p_varint_consumes [of 5 xs] have k: "k \<le> length xs" by (metis snd_conv)
  then have "unat (is_bytes_left s - of_nat k) = length xs - k"
    using stream_at_length [OF assms] by (simp add: unat_sub_of_nat)
  then have "is_bytes_left s - of_nat k = 0 \<longleftrightarrow> k = length xs"
    using k by (auto simp: unsigned_eq_0_iff)
  then show ?thesis
    using r by (cases r) (auto simp: pb_decode_tag_def pb_decode_varint32_at [OF assms]
        parse_result_def tag_of_number_def)
qed

section \<open>Encoding and reading back\<close>

lemma from_buffer_ok:
  assumes "allocated m buf (unat bufsize)" "unat bufsize < max_object"
  shows "ostream_ok (pb_ostream_from_buffer buf bufsize) m"
    "out_room (pb_ostream_from_buffer buf bufsize) = unat bufsize"
    "out_window (pb_ostream_from_buffer buf bufsize) = region buf (unat bufsize)"
  using assms by (simp_all add: ostream_ok_def out_room_def out_window_def pb_ostream_from_buffer_def)

text \<open>A successful run of an emitter on a fresh buffer leaves the bytes there.\<close>

lemma emitted_window:
  assumes g: "emits R g m bs" and alloc: "allocated m buf (unat bufsize)"
    and limit: "unat bufsize < max_object" and R: "region buf (unat bufsize) \<inter> R = {}"
    and run: "g (pb_ostream_from_buffer buf bufsize) m = Some (True, os, m')"
  shows "stream_at (pb_istream_from_buffer buf (os_bytes_written os)) m' bs"
    "unat (os_bytes_written os) = length bs" "m' = overwrite m buf bs" "length bs \<le> unat bufsize"
proof -
  let ?s = "pb_ostream_from_buffer buf bufsize"
  note ok = from_buffer_ok [OF alloc limit]
  have len: "length bs \<le> out_room ?s"
  proof (rule ccontr)
    assume "\<not> length bs \<le> out_room ?s"
    then have "emit_failed ?s m (g ?s m)"
      using emitsD_full [OF g ok(1), unfolded ok(3)] R by blast
    with run show False by (auto simp: emit_failed_def)
  qed
  then have *: "os = wrote bs ?s" "m' = overwrite m buf bs"
    using emitsD_room [OF g ok(1), unfolded ok(3)] R run by (auto simp: pb_ostream_from_buffer_def)
  have "os_bytes_written os = of_nat (length bs)"
    using * by (simp add: pb_ostream_from_buffer_def)
  then show u: "unat (os_bytes_written os) = length bs"
    using len ok(2) by (simp add: le_unat_uoi)
  show "m' = overwrite m buf bs" "length bs \<le> unat bufsize" using * len ok(2) by simp_all
  show "stream_at (pb_istream_from_buffer buf (os_bytes_written os)) m' bs"
    using * u load_overwrite [of m buf bs] by (simp add: stream_at_def pb_istream_from_buffer_def)
qed

context buffer_reader
begin

lemma encode_then_read:
  assumes "emits R g m bs" "allocated m buf (unat bufsize)" "unat bufsize < max_object"
    "region buf (unat bufsize) \<inter> R = {}"
    "g (pb_ostream_from_buffer buf bufsize) m = Some (True, os, m')"
    "p bs = (Inr v, length bs)"
  shows "\<exists>s. f (pb_istream_from_buffer buf (os_bytes_written os)) m' = Some (Some v, s, m') \<and>
    is_bytes_left s = 0"
proof -
  let ?i = "pb_istream_from_buffer buf (os_bytes_written os)"
  have at: "stream_at ?i m' (bs @ [])" using emitted_window(1) [OF assms(1-5)] by simp
  have "is_bytes_left (advance (length bs) ?i) = 0"
    by (simp add: pb_istream_from_buffer_def flip: emitted_window(2) [OF assms(1-5)])
  with read_prefix [OF at assms(6)] show ?thesis by blast
qed

end

section \<open>Skipping\<close>

lemma pb_skip_varint_at:
  assumes "stream_at s m xs"
  defines "k \<equiv> length (takeWhile continues xs)"
  shows "pb_skip_varint env s m =
    (if k = length xs then Some (False, is_set_error ''end-of-stream'' (advance k s), m)
     else Some (True, advance (Suc k) s, m))"
  unfolding k_def using assms(1)
proof (induction xs arbitrary: s)
  case Nil
  then show ?case
    by (simp add: pb_skip_varint.simps [of env s] pb_read_at [OF Nil])
next
  case (Cons b xs)
  have unf: "pb_skip_varint env s m =
      (if continues b then pb_skip_varint env (advance 1 s) m else Some (True, advance 1 s, m))"
    using pb_read_at [OF Cons.prems, of env True 1]
    by (simp add: pb_skip_varint.simps [of env s])
  from Cons.IH [OF stream_at_Cons [OF Cons.prems]] show ?case
    by (simp add: unf)
qed

lemma pb_skip_varint_prefix:
  assumes "stream_at s m (varint_bytes v @ rest)"
  shows "pb_skip_varint env s m = Some (True, advance (length (varint_bytes v)) s, m)"
proof -
  let ?bs = "varint_bytes v"
  have "\<forall>b \<in> set (butlast ?bs). continues b"
    using set_takeWhileD [of _ continues ?bs] by (auto simp: takeWhile_varint_bytes)
  then have "takeWhile continues (butlast ?bs @ [last ?bs] @ rest) = butlast ?bs"
    using last_varint_bytes [of v] by (subst takeWhile_append2) auto
  then have "takeWhile continues (?bs @ rest) = butlast ?bs"
    by (simp only: append_assoc [symmetric] append_butlast_last_id [OF varint_bytes_nonempty])
  moreover have "0 < length (varint_bytes v)" by simp
  then have "Suc (length ?bs - 1) = length ?bs" "length ?bs - 1 \<noteq> length ?bs + length rest"
    by linarith+
  ultimately show ?thesis using pb_skip_varint_at [OF assms, of env] by simp
qed

lemma pb_skip_string_prefix:
  fixes n :: u32
  assumes "stream_at s m (varint_bytes (ucast n) @ bs @ rest)" "length bs = unat n"
  shows "pb_skip_string env s m = Some (True, advance (length (varint_bytes (ucast n)) + length bs) s, m)"
proof -
  let ?l = "varint_bytes (ucast n)"
  have u: "unat (ucast n :: u64) = unat n" by (rule unat_ucast_up) simp
  have "unat (ucast n :: u64) < 2 ^ 32"
    unfolding u using unsigned_less [of n, where ?'a = nat] by simp
  then have "p_varint 5 ?l = (Inr n, length ?l)"
    by (simp add: p_varint_varint_bytes length_varint_bytes32 ucast_up_down)
  from varint32_reader.read_prefix [OF assms(1) this]
  have "pb_decode_varint32 env s m = Some (Some n, advance (length ?l) s, m)" .
  moreover have "stream_at (advance (length ?l) s) m (bs @ rest)"
    using stream_at_advance [OF assms(1), of "length ?l"] by simp
  from pb_read_null_at [OF this, of env "ucast n"] assms(2)
  have "pb_read_null env (advance (length ?l) s) (ucast n) m =
      Some (True, advance (length ?l + length bs) s, m)"
    by (simp add: u)
  ultimately show ?thesis by (simp add: pb_skip_string_def)
qed

text \<open>How long a payload of a wire type is at the front of a byte list.\<close>

definition payload_length :: "pb_wire_type_t \<Rightarrow> byte list \<Rightarrow> nat option" where
  "payload_length wt xs =
     (if wt = PB_WT_VARINT then
        (let k = length (takeWhile continues xs) in if k < length xs then Some (Suc k) else None)
      else if wt = PB_WT_64BIT then (if 8 \<le> length xs then Some 8 else None)
      else if wt = PB_WT_STRING then
        (case p_varint 5 xs of
           (Inl e, k) \<Rightarrow> None
         | (Inr (n :: u32), k) \<Rightarrow> if k + unat n \<le> length xs then Some (k + unat n) else None)
      else if wt = PB_WT_32BIT then (if 4 \<le> length xs then Some 4 else None)
      else None)"

lemma payload_length_le: "payload_length wt xs = Some k \<Longrightarrow> k \<le> length xs"
  by (auto simp: payload_length_def Let_def split: if_splits sum.splits prod.splits)

lemma wire_types_distinct:
  "PB_WT_VARINT \<noteq> PB_WT_64BIT" "PB_WT_VARINT \<noteq> PB_WT_STRING" "PB_WT_VARINT \<noteq> PB_WT_32BIT"
  "PB_WT_64BIT \<noteq> PB_WT_STRING" "PB_WT_64BIT \<noteq> PB_WT_32BIT" "PB_WT_STRING \<noteq> PB_WT_32BIT"
  by (simp_all add: c_defs)

lemma pb_skip_string_at:
  assumes "stream_at s m xs"
  shows "\<exists>s'. pb_skip_string env s m = Some (payload_length PB_WT_STRING xs \<noteq> None, s', m) \<and>
    (\<forall>k. payload_length PB_WT_STRING xs = Some k \<longrightarrow> s' = advance k s) \<and> is_end s' = is_end s \<and>
    is_callback s' = is_callback s"
proof -
  obtain r k where r: "p_varint 5 xs = (r :: string + u32, k)" by fastforce
  with p_varint_consumes [of 5 xs] have k: "k \<le> length xs" by (metis snd_conv)
  have at: "stream_at (advance k s) m (drop k xs)" using stream_at_advance [OF assms k] .
  have e: "is_end (advance j s) = is_end s" if "j \<le> length xs" for j
    using that stream_at_length [OF assms] by (intro is_end_advance) simp
  have u: "unat (ucast n :: u64) = unat n" for n :: u32 by (rule unat_ucast_up) simp
  show ?thesis
    using r k e wire_types_distinct pb_read_null_at [OF at, of env "ucast (n :: u32)" for n]
    by (cases r) (auto simp: pb_skip_string_def pb_decode_varint32_at [OF assms] parse_result_def
        payload_length_def u)
qed

lemma pb_skip_field_at:
  assumes "stream_at s m xs"
  shows "\<exists>s'. pb_skip_field env s wt m = Some (payload_length wt xs \<noteq> None, s', m) \<and>
    (\<forall>k. payload_length wt xs = Some k \<longrightarrow> s' = advance k s) \<and> is_end s' = is_end s \<and>
    is_callback s' = is_callback s"
proof -
  have e: "is_end (advance j s) = is_end s" if "j \<le> length xs" for j
    using that stream_at_length [OF assms] by (intro is_end_advance) simp
  have k: "length (takeWhile continues xs) \<le> length xs" by (rule length_takeWhile_le)
  consider "wt = PB_WT_VARINT" | "wt = PB_WT_64BIT" | "wt = PB_WT_STRING" | "wt = PB_WT_32BIT"
    | "wt \<noteq> PB_WT_VARINT \<and> wt \<noteq> PB_WT_64BIT \<and> wt \<noteq> PB_WT_STRING \<and> wt \<noteq> PB_WT_32BIT"
    by blast
  then show ?thesis
  proof cases
    case 1
    then show ?thesis
      using pb_skip_varint_at [OF assms, of env] e k
      by (auto simp: pb_skip_field_def payload_length_def Let_def)
  next
    case 2
    then show ?thesis
      using pb_read_null_at [OF assms, of env 8] e wire_types_distinct
      by (auto simp: pb_skip_field_def payload_length_def)
  next
    case 3
    then show ?thesis
      using pb_skip_string_at [OF assms, of env] wire_types_distinct
      by (simp add: pb_skip_field_def)
  next
    case 4
    then show ?thesis
      using pb_read_null_at [OF assms, of env 4] e wire_types_distinct
      by (auto simp: pb_skip_field_def payload_length_def)
  next
    case 5
    then show ?thesis by (simp add: pb_skip_field_def payload_length_def)
  qed
qed

section \<open>Fixed-width numbers\<close>

lemma emits_eqI:
  "emits R g m bs \<Longrightarrow> (\<And>s m'. \<forall>x\<in>R. m' x = m x \<Longrightarrow> f s m' = g s m') \<Longrightarrow> emits R f m bs"
  by (simp add: emits_def)

lemma load_word_agree:
  assumes "load_bytes m a n = Some bs" "region a n \<subseteq> R" "\<forall>x\<in>R. m' x = m x"
  shows "load_word m' a n = Some (le_word bs)"
proof -
  have "load_bytes m' a n = load_bytes m a n" using assms(2,3) by (intro load_bytes_cong) auto
  with assms(1) show ?thesis by (simp add: load_word_def)
qed

lemma le_bytes_4: "le_bytes 4 (w :: u32) =
    [ucast (w AND 0xFF), ucast (drop_bit 8 w AND 0xFF), ucast (drop_bit 16 w AND 0xFF),
     ucast (drop_bit 24 w AND 0xFF)]"
proof -
  have four: "(4 :: nat) = Suc (Suc (Suc (Suc 0)))" by simp
  have "le_bytes (Suc (Suc (Suc (Suc 0)))) w =
    [ucast w, ucast (drop_bit 8 w), ucast (drop_bit 16 w), ucast (drop_bit 24 w)]"
    by (simp only: le_bytes.simps drop_bit_drop_bit) simp
  then show ?thesis
    unfolding four
    by (simp add: ucast_and_FF [where ?'a = 32])
qed

lemma le_bytes_8: "le_bytes 8 (w :: u64) =
    [ucast (w AND 0xFF), ucast (drop_bit 8 w AND 0xFF), ucast (drop_bit 16 w AND 0xFF),
     ucast (drop_bit 24 w AND 0xFF), ucast (drop_bit 32 w AND 0xFF), ucast (drop_bit 40 w AND 0xFF),
     ucast (drop_bit 48 w AND 0xFF), ucast (drop_bit 56 w AND 0xFF)]"
proof -
  have eight: "(8 :: nat) = Suc (Suc (Suc (Suc (Suc (Suc (Suc (Suc 0)))))))" by simp
  have "le_bytes (Suc (Suc (Suc (Suc (Suc (Suc (Suc (Suc 0)))))))) w =
    [ucast w, ucast (drop_bit 8 w), ucast (drop_bit 16 w), ucast (drop_bit 24 w),
     ucast (drop_bit 32 w), ucast (drop_bit 40 w), ucast (drop_bit 48 w), ucast (drop_bit 56 w)]"
    by (simp only: le_bytes.simps drop_bit_drop_bit) simp
  then show ?thesis by (simp add: eight ucast_and_FF del: drop_bit_drop_bit)
qed

lemma emits_fixed32:
  assumes "load_bytes m a 4 = Some bs" "region a 4 \<subseteq> R"
  shows "emits R (\<lambda>s m. pb_encode_fixed32 env s a m) m bs"
proof (rule emits_eqI)
  have len: "length bs = 4" using assms(1) by (rule load_bytes_length)
  show "emits R (\<lambda>s m. pb_write env s (Local bs) 4 m) m bs"
    using len by (intro emits_write_local) (simp_all add: max_object_def)
  fix s m'
  assume "\<forall>x\<in>R. m' x = m x"
  from load_word_agree [OF assms this, where ?'a = 32]
  show "pb_encode_fixed32 env s a m' = pb_write env s (Local bs) 4 m'"
    using le_bytes_le_word [of bs, where ?'a = 32] len
    by (simp add: pb_encode_fixed32_def flip: le_bytes_4)
qed

lemma emits_fixed64:
  assumes "load_bytes m a 8 = Some bs" "region a 8 \<subseteq> R"
  shows "emits R (\<lambda>s m. pb_encode_fixed64 env s a m) m bs"
proof (rule emits_eqI)
  have len: "length bs = 8" using assms(1) by (rule load_bytes_length)
  show "emits R (\<lambda>s m. pb_write env s (Local bs) 8 m) m bs"
    using len by (intro emits_write_local) (simp_all add: max_object_def)
  fix s m'
  assume "\<forall>x\<in>R. m' x = m x"
  from load_word_agree [OF assms this, where ?'a = 64]
  show "pb_encode_fixed64 env s a m' = pb_write env s (Local bs) 8 m'"
    using le_bytes_le_word [of bs, where ?'a = 64] len
    by (simp add: pb_encode_fixed64_def flip: le_bytes_8)
qed

lemma length_4E:
  assumes "length xs = 4"
  obtains a b c d where "xs = [a, b, c, d]"
  using assms by (auto simp: length_Suc_conv numeral_eq_Suc)

lemma length_8E:
  assumes "length xs = 8"
  obtains a b c d e f g h where "xs = [a, b, c, d, e, f, g, h]"
  using assms by (auto simp: length_Suc_conv numeral_eq_Suc)

lemma store_le_word:
  "length bs = n \<Longrightarrow> 8 * n \<le> LENGTH('a) \<Longrightarrow>
   store_word m a n (le_word bs :: 'a::len word) = store_bytes m a bs"
  using le_bytes_le_word [of bs, where ?'a = 'a] by (simp add: store_word_def)

lemma pb_decode_fixed32_at:
  assumes "stream_at s m xs"
  shows "pb_decode_fixed32 env s dest m =
    (if length xs < 4 then Some (False, is_set_error ''end-of-stream'' s, m)
     else map_option (\<lambda>m'. (True, advance 4 s, m')) (store_bytes m dest (take 4 xs)))"
proof (cases "length xs < 4")
  case True
  then show ?thesis using pb_read_at [OF assms, of env True 4] by (simp add: pb_decode_fixed32_def)
next
  case False
  then have "length (take 4 xs) = 4" by simp
  then obtain b0 b1 b2 b3 where bs: "take 4 xs = [b0, b1, b2, b3]" by (rule length_4E)
  have "push_bit 0 (ucast b0) OR push_bit 8 (ucast b1) OR push_bit 16 (ucast b2) OR
      push_bit 24 (ucast b3) = (le_word [b0, b1, b2, b3] :: u32)"
    by (simp add: push_bit_or or.assoc del: push_bit_numeral)
  moreover have "store_word m dest 4 (le_word [b0, b1, b2, b3] :: u32) =
      store_bytes m dest (take 4 xs)"
    unfolding bs by (rule store_le_word) simp_all
  ultimately have "store_word m dest 4 (push_bit 0 (ucast b0) OR push_bit 8 (ucast b1) OR
      push_bit 16 (ucast b2) OR push_bit 24 (ucast b3) :: u32) = store_bytes m dest (take 4 xs)"
    by (simp only:)
  with False bs show ?thesis
    using pb_read_at [OF assms, of env True 4]
    by (cases "store_bytes m dest [b0, b1, b2, b3]") (simp_all add: pb_decode_fixed32_def)
qed

lemma pb_decode_fixed64_at:
  assumes "stream_at s m xs"
  shows "pb_decode_fixed64 env s dest m =
    (if length xs < 8 then Some (False, is_set_error ''end-of-stream'' s, m)
     else map_option (\<lambda>m'. (True, advance 8 s, m')) (store_bytes m dest (take 8 xs)))"
proof (cases "length xs < 8")
  case True
  then show ?thesis using pb_read_at [OF assms, of env True 8] by (simp add: pb_decode_fixed64_def)
next
  case False
  then have "length (take 8 xs) = 8" by simp
  then obtain b0 b1 b2 b3 b4 b5 b6 b7 where bs: "take 8 xs = [b0, b1, b2, b3, b4, b5, b6, b7]"
    by (rule length_8E)
  let ?w = "push_bit 0 (ucast b0) OR push_bit 8 (ucast b1) OR push_bit 16 (ucast b2) OR
      push_bit 24 (ucast b3) OR push_bit 32 (ucast b4) OR push_bit 40 (ucast b5) OR
      push_bit 48 (ucast b6) OR push_bit 56 (ucast b7) :: u64"
  have "?w = le_word [b0, b1, b2, b3, b4, b5, b6, b7]"
    by (simp add: push_bit_or or.assoc del: push_bit_numeral)
  moreover have "store_word m dest 8 (le_word [b0, b1, b2, b3, b4, b5, b6, b7] :: u64) =
      store_bytes m dest (take 8 xs)"
    unfolding bs by (rule store_le_word) simp_all
  ultimately have "store_word m dest 8 ?w = store_bytes m dest (take 8 xs)"
    by (simp only:)
  with False bs show ?thesis
    using pb_read_at [OF assms, of env True 8]
    by (cases "store_bytes m dest [b0, b1, b2, b3, b4, b5, b6, b7]")
      (simp_all add: pb_decode_fixed64_def)
qed

section \<open>Strings and field tags\<close>

lemma emits_string:
  assumes "load_bytes m a (unat n) = Some bs" "region a (unat n) \<subseteq> R" "unat n < max_object"
  shows "emits R (\<lambda>s m. pb_encode_string env s a n m) m (varint_bytes n @ bs)"
proof -
  have eq: "(\<lambda>s m. pb_encode_string env s a n m) =
      then_write (\<lambda>s m. pb_encode_varint env s n m) (\<lambda>s m. pb_write env s (At a) n m)"
    by (rule ext)+ (simp add: pb_encode_string_def then_write_def)
  have "n = of_nat (unat n)" by simp
  with assms show ?thesis
    unfolding eq by (intro emits_then emits_varint emits_write_mem)
qed

lemma emits_tag_for_field:
  assumes "wire_type_of (pf_ltype fld) = Some wt"
  shows "emits R (\<lambda>s m. pb_encode_tag_for_field env s fld m) m
    (varint_bytes (tag_value wt (pf_tag fld)))"
  using emits_tag [of R env wt "pf_tag fld" m] assms by (simp add: pb_encode_tag_for_field_def)

lemma wire_type_of_less: "wire_type_of t = Some wt \<Longrightarrow> unat wt < 8"
  by (auto simp: wire_type_of_def c_defs split: if_splits)

section \<open>Substreams\<close>

lemma stream_at_take:
  assumes "stream_at s m xs" "unat n \<le> length xs"
  shows "stream_at (s\<lparr>is_bytes_left := n\<rparr>) m (take (unat n) xs)"
  using assms stream_at_load [OF assms] by (simp add: stream_at_def)

lemma pb_make_string_substream_at:
  assumes "stream_at s m xs"
  shows "pb_make_string_substream env s m = (case p_varint 5 xs of
      (Inl e, k) \<Rightarrow> Some (None, is_set_error e (advance k s), m)
    | (Inr (n :: u32), k) \<Rightarrow>
        if length xs - k < unat n
        then Some (None, is_set_error ''parent stream too short'' (advance k s), m)
        else Some (Some ((advance k s)\<lparr>is_bytes_left := ucast n\<rparr>),
          (advance k s)\<lparr>is_bytes_left := is_bytes_left (advance k s) - ucast n\<rparr>, m))"
proof -
  obtain r k where r: "p_varint 5 xs = (r :: string + u32, k)" by fastforce
  with p_varint_consumes [of 5 xs] have k: "k \<le> length xs" by (metis snd_conv)
  have "is_bytes_left s - of_nat k < ucast n \<longleftrightarrow> length xs - k < unat n" for n :: u32
    using k stream_at_length [OF assms] unat_ucast_up [of n, where ?'b = 64]
    by (simp add: word_less_nat_alt unat_sub_of_nat)
  with r show ?thesis
    by (cases r) (simp_all add: pb_make_string_substream_def pb_decode_varint32_at [OF assms]
        parse_result_def)
qed

lemma pb_close_string_substream_at:
  assumes "stream_at sub m ys"
  shows "pb_close_string_substream env s sub m =
    Some (True, s\<lparr>is_state := is_end sub, is_errmsg := is_errmsg sub\<rparr>, m)"
proof -
  have len: "unat (is_bytes_left sub) = length ys" using assms by (rule stream_at_length)
  then have e: "is_end sub = is_state sub + int (length ys)"
    by (simp only: is_end_def uint_of_unat)
  have r: "pb_read_null env sub (is_bytes_left sub) m = Some (True, advance (length ys) sub, m)"
    using pb_read_null_at [OF assms, of env "is_bytes_left sub"] by (simp only: len) simp
  show ?thesis
  proof (cases "is_bytes_left sub = 0")
    case True
    with len e show ?thesis by (simp add: pb_close_string_substream_def)
  next
    case False
    then show ?thesis by (simp add: pb_close_string_substream_def r e)
  qed
qed

text \<open>
  Whatever is done with a substream, as long as it stays inside its window, closing it
  leaves the parent just behind the delimited bytes.
\<close>

lemma substream_close:
  assumes s: "stream_at s m xs" and p: "p_varint 5 xs = (Inr n, k)"
    and n: "unat (n :: u32) \<le> length xs - k"
    and sub: "is_end sub' = is_end ((advance k s)\<lparr>is_bytes_left := ucast n\<rparr>)"
    and at: "stream_at sub' m' ys"
    and same: "\<And>x. x \<in> region (is_state s) (length xs) \<Longrightarrow> m' x = m x"
  defines "parent \<equiv> (advance k s)\<lparr>is_bytes_left := is_bytes_left (advance k s) - ucast n\<rparr>"
  shows "\<exists>s'. pb_close_string_substream env parent sub' m' = Some (True, s', m') \<and>
    stream_at s' m' (drop (k + unat n) xs) \<and> is_end s' = is_end s"
proof -
  have k: "k \<le> length xs" using p p_varint_consumes [of 5 xs] by (metis snd_conv)
  have u: "unat (ucast n :: u64) = unat n" by (rule unat_ucast_up) simp
  have i: "uint (ucast n :: u64) = int (unat n)" using u by (rule uint_of_unat)
  let ?s' = "parent\<lparr>is_state := is_end sub', is_errmsg := is_errmsg sub'\<rparr>"
  have w: "(of_nat (unat n) :: u64) = ucast n"
    using arg_cong [OF u, of "of_nat :: nat \<Rightarrow> u64"] by simp
  have eq: "?s' = (advance (k + unat n) s)\<lparr>is_errmsg := is_errmsg sub'\<rparr>"
    using sub i w by (simp add: parent_def advance_def is_end_def)
  have "k + unat n \<le> length xs" using n k by simp
  then have "stream_at (advance (k + unat n) s) m' (drop (k + unat n) xs)"
    using stream_at_advance stream_at_cong [OF s same] by blast
  moreover have "is_end (advance (k + unat n) s) = is_end s"
    using n k stream_at_length [OF s] by (intro is_end_advance) simp
  ultimately have "stream_at ?s' m' (drop (k + unat n) xs)" "is_end ?s' = is_end s"
    unfolding eq by (simp_all add: stream_at_def is_end_def)
  with pb_close_string_substream_at [OF at] show ?thesis by blast
qed

section \<open>The two widths\<close>

text \<open>
  The 32-bit reader keeps the low 32 bits of what the 64-bit reader delivers, when the number
  has at most five bytes; it has no other result.
\<close>

lemma varint_value_ucast: "(varint_value bs :: u32) = ucast (varint_value bs :: u64)"
proof (induction bs)
  case Nil
  then show ?case by simp
next
  case (Cons b bs)
  then show ?case by (auto simp: bit_simps intro!: bit_word_eqI)
qed

lemma p_varint_widths:
  assumes "p_varint 5 xs = (Inr (v :: u32), k)"
  obtains w :: u64 where "p_varint 10 xs = (Inr w, k)" "v = ucast w"
proof
  show "p_varint 10 xs = (Inr (varint_value (take k xs)) :: string + u64, k)"
    using assms by (auto simp: p_varint_def Let_def split: if_splits)
  have "v = varint_value (take k xs)"
    using assms by (auto simp: p_varint_def Let_def split: if_splits)
  then show "v = ucast (varint_value (take k xs) :: u64)"
    by (simp only: varint_value_ucast)
qed

end
