(* ===== verification/Pb_Safe.thy ===== *)
theory Pb_Safe
  imports Pb_Decode Pb_Wire
begin

text \<open>
  Memory safety and termination of the decoder on memory streams, for any input bytes.  A
  function is safe if it has a result (it accesses only accessible memory, calls no null
  pointer and returns), changes memory in a given set of addresses only, and, when it
  succeeds, leaves the stream inside its window.  The contract of the entries of the
  decoder table is a locale; it is interpreted for every entry.
\<close>

section \<open>Changes and windows\<close>

definition changes :: "addr set \<Rightarrow> mem \<Rightarrow> mem \<Rightarrow> bool" where
  "changes W m m' \<longleftrightarrow> dom m' = dom m \<and> (\<forall>x. x \<notin> W \<longrightarrow> m' x = m x)"

definition readable :: "pb_istream \<Rightarrow> mem \<Rightarrow> bool" where
  "readable s m \<longleftrightarrow> is_callback s = Buf_read \<and> allocated m (is_state s) (unat (is_bytes_left s))"

text \<open>Stream \<open>s'\<close> is what is left of stream \<open>s\<close>.\<close>

definition within :: "pb_istream \<Rightarrow> pb_istream \<Rightarrow> bool" where
  "within s' s \<longleftrightarrow> is_callback s' = Buf_read \<and> is_end s' = is_end s \<and>
     unat (is_bytes_left s') \<le> unat (is_bytes_left s)"

definition shorter :: "pb_istream \<Rightarrow> pb_istream \<Rightarrow> bool" where
  "shorter s' s \<longleftrightarrow> within s' s \<and> unat (is_bytes_left s') < unat (is_bytes_left s)"

definition safe :: "(pb_istream \<Rightarrow> pb_istream \<Rightarrow> bool) \<Rightarrow> addr set \<Rightarrow> pb_istream \<Rightarrow> mem \<Rightarrow>
    bool read_result \<Rightarrow> bool" where
  "safe rel W s m r \<longleftrightarrow> (\<exists>ok s' m'. r = Some (ok, s', m') \<and> changes W m m' \<and>
     is_callback s' = Buf_read \<and> (ok \<longrightarrow> rel s' s))"

lemma changes_refl [simp]: "changes W m m"
  by (simp add: changes_def)

lemma changes_trans: "changes W m m' \<Longrightarrow> changes W m' m'' \<Longrightarrow> changes W m m''"
  by (simp add: changes_def)

lemma changes_mono: "changes W m m' \<Longrightarrow> W \<subseteq> V \<Longrightarrow> changes V m m'"
  by (auto simp: changes_def)

lemma changes_allocated: "changes W m m' \<Longrightarrow> allocated m' a n = allocated m a n"
  by (simp add: changes_def allocated_def)

lemma changes_writes:
  assumes "writes m a n r" "allocated m a n"
  shows "\<exists>m'. r = Some m' \<and> changes (region a n) m m'"
proof -
  from writes_defined [OF assms] obtain m' where m': "r = Some m'" by blast
  from writes_dom [OF assms(1) m'] writes_frame [OF assms(1) m'] m' show ?thesis
    by (simp add: changes_def)
qed

lemma within_refl: "is_callback s = Buf_read \<Longrightarrow> within s s"
  by (simp add: within_def)

lemma within_trans: "within s'' s' \<Longrightarrow> within s' s \<Longrightarrow> within s'' s"
  by (simp add: within_def)

lemma shorter_within: "shorter s' s \<Longrightarrow> within s' s"
  by (simp add: shorter_def)

lemma shorter_trans: "within s'' s' \<Longrightarrow> shorter s' s \<Longrightarrow> shorter s'' s"
  by (auto simp: shorter_def within_def)

lemma within_set_error [simp]: "within (is_set_error e s') s = within s' s"
  by (simp add: within_def)

lemma readable_within:
  assumes "readable s m" "within s' s" "changes W m m'"
  shows "readable s' m'"
proof -
  have "uint (is_bytes_left s') \<le> uint (is_bytes_left s)"
    using assms(2) by (simp add: within_def word_le_def flip: word_le_nat_alt)
  moreover have "is_state s' + uint (is_bytes_left s') = is_state s + uint (is_bytes_left s)"
    using assms(2) by (simp add: within_def is_end_def)
  ultimately have "allocated m (is_state s') (unat (is_bytes_left s'))"
    using assms(1) allocated_sub [of m "is_state s" "unat (is_bytes_left s)" "is_state s'"
        "unat (is_bytes_left s')"] by (simp add: readable_def)
  with assms(2,3) show ?thesis by (simp add: readable_def within_def changes_allocated)
qed

lemma readable_stream:
  assumes "readable s m"
  obtains xs where "stream_at s m xs"
  using assms stream_at_ex by (auto simp: readable_def)

lemma stream_readable: "stream_at s m xs \<Longrightarrow> readable s m"
  by (auto simp: readable_def stream_at_def dest: load_bytes_allocated)

lemma within_advance:
  assumes "stream_at s m xs" "k \<le> length xs"
  shows "within (advance k s) s" "0 < k \<Longrightarrow> shorter (advance k s) s"
  using assms stream_at_length [OF assms(1)] is_end_advance [of k s]
  by (simp_all add: within_def shorter_def unat_sub_of_nat stream_at_def)

lemma safeI [intro?]:
  "r = Some (ok, s', m') \<Longrightarrow> changes W m m' \<Longrightarrow> is_callback s' = Buf_read \<Longrightarrow> (ok \<Longrightarrow> rel s' s) \<Longrightarrow>
   safe rel W s m r"
  by (auto simp: safe_def)

lemma safeE:
  assumes "safe rel W s m r"
  obtains ok s' m' where "r = Some (ok, s', m')" "changes W m m'" "is_callback s' = Buf_read"
    "ok \<Longrightarrow> rel s' s"
  using assms by (auto simp: safe_def)

lemma safe_mono: "safe rel W s m r \<Longrightarrow> W \<subseteq> V \<Longrightarrow> safe rel V s m r"
  by (auto simp: safe_def intro: changes_mono)

lemma safe_shorter_within: "safe shorter W s m r \<Longrightarrow> safe within W s m r"
  by (auto simp: safe_def intro: shorter_within)

text \<open>A later part of a function, run from a later stream and memory.\<close>

lemma safe_later:
  assumes "safe within W s' m' r" "changes W m m'" "shorter s' s"
  shows "safe shorter W s m r"
  using assms by (auto simp: safe_def intro: changes_trans shorter_trans)

lemma safe_later_within:
  assumes "safe within W s' m' r" "changes W m m'" "within s' s"
  shows "safe within W s m r"
  using assms by (auto simp: safe_def intro: changes_trans within_trans)

lemma safe_failed: "changes W m m' \<Longrightarrow> is_callback s' = Buf_read \<Longrightarrow> safe rel W s m (Some (False, s', m'))"
  unfolding safe_def by blast

section \<open>Readers\<close>

lemma varint_consumed: "fst (p_varint n xs) = Inr (v :: 'a::len word) \<Longrightarrow> 0 < snd (p_varint n xs :: 'a word parse)"
  by (auto simp: p_varint_def Let_def split: if_splits)

context buffer_reader
begin

lemma read_safe:
  assumes "readable s m"
  obtains r s' where "f s m = Some (r, s', m)" "within s' s"
    "\<And>v. r = Some v \<Longrightarrow> (\<And>xs v. fst (p xs) = Inr v \<Longrightarrow> 0 < snd (p xs)) \<Longrightarrow> shorter s' s"
proof -
  from assms obtain xs where at: "stream_at s m xs" by (rule readable_stream)
  then obtain r s' m' where run: "f s m = Some (r, s', m')" using total by blast
  note w = window [OF at run]
  have "is_callback s = Buf_read" using at by (simp add: stream_at_def)
  then have within: "within s' s" using w by (simp add: within_def)
  moreover have "shorter s' s" if "r = Some v" "\<And>xs v. fst (p xs) = Inr v \<Longrightarrow> 0 < snd (p xs)" for v
  proof -
    have "fst (p xs) = Inr v" "s' = advance (snd (p xs)) s" using success [OF at] run that(1) by simp_all
    with that(2) within_advance(2) [OF at consumes] show ?thesis by simp
  qed
  ultimately show thesis using that run w(2) by simp
qed

end

lemma decode_varint_safe:
  assumes "readable s m"
  obtains r s' where "pb_decode_varint env s m = Some (r, s', m)" "within s' s"
    "\<And>v. r = Some v \<Longrightarrow> shorter s' s"
  using varint_reader.read_safe [OF assms, of env] varint_consumed by metis

lemma decode_varint32_safe:
  assumes "readable s m"
  obtains r s' where "pb_decode_varint32 env s m = Some (r, s', m)" "within s' s"
    "\<And>v. r = Some v \<Longrightarrow> shorter s' s"
  using varint32_reader.read_safe [OF assms, of env] varint_consumed by metis

lemma decode_svarint_safe:
  assumes "readable s m"
  obtains r s' where "pb_decode_svarint env s m = Some (r, s', m)" "within s' s"
    "\<And>v. r = Some v \<Longrightarrow> shorter s' s"
proof -
  have pos: "0 < snd (p_map unzigzag (p_varint 10 xs))"
    if "fst (p_map unzigzag (p_varint 10 xs)) = Inr v" for xs v
    using that varint_consumed [of 10 xs] by auto
  from svarint_reader.read_safe [OF assms, of env] pos that show thesis by metis
qed

lemma read_to_safe:
  assumes "readable s m" "allocated m dest (unat n)"
  shows "safe within (region dest (unat n)) s m (pb_read_to env s dest n m)"
proof -
  from assms(1) obtain xs where at: "stream_at s m xs" by (rule readable_stream)
  have cb: "is_callback s = Buf_read" using at by (simp add: stream_at_def)
  show ?thesis
  proof (cases "length xs < unat n")
    case True
    with cb show ?thesis by (simp add: pb_read_to_at [OF at] safe_failed)
  next
    case False
    then have "length (take (unat n) xs) = unat n" by simp
    with assms(2) changes_writes [OF writes_store_bytes [of m dest "take (unat n) xs"]]
    obtain m' where "store_bytes m dest (take (unat n) xs) = Some m'" "changes (region dest (unat n)) m m'"
      by auto
    with False cb within_advance(1) [OF at, of "unat n"] show ?thesis
      by (auto simp: pb_read_to_at [OF at] safe_def)
  qed
qed

lemma skip_field_safe:
  assumes "readable s m"
  shows "safe within {} s m (pb_skip_field env s wt m)"
proof -
  from assms obtain xs where at: "stream_at s m xs" by (rule readable_stream)
  then have cb: "is_callback s = Buf_read" by (simp add: stream_at_def)
  from pb_skip_field_at [OF at, of env wt] obtain s' where
    run: "pb_skip_field env s wt m = Some (payload_length wt xs \<noteq> None, s', m)"
    and adv: "\<And>k. payload_length wt xs = Some k \<Longrightarrow> s' = advance k s" "is_callback s' = Buf_read"
    using cb by auto
  show ?thesis
  proof (rule safeI [OF run changes_refl adv(2)])
    assume "payload_length wt xs \<noteq> None"
    then show "within s' s" using within_advance(1) [OF at] adv(1) payload_length_le by fastforce
  qed
qed

section \<open>The entries of the decoder table\<close>

text \<open>
  What a decoder promises for a field of a descriptor that \<open>fits\<close>: it writes only the
  member, and consumes input if it succeeds.
\<close>

abbreviation member :: "pb_field \<Rightarrow> addr \<Rightarrow> addr set" where
  "member field dest \<equiv> region dest (unat (pf_data_size field))"

locale safe_decoder =
  fixes f :: pb_decoder and fits :: "pb_field \<Rightarrow> mem \<Rightarrow> bool"
  assumes decodes_safely: "readable s m \<Longrightarrow> fits field m \<Longrightarrow>
    allocated m dest (unat (pf_data_size field)) \<Longrightarrow>
    safe shorter (member field dest) s m (f s field dest m)"

lemma store_clamped_safe:
  assumes "is_callback s = Buf_read" "allocated m dest (unat (pf_data_size field))"
  shows "safe within (member field dest) s m (store_clamped clamp s field dest v m)"
proof -
  from changes_writes [OF writes_store_word assms(2)]
  obtain m' where "store_word m dest (unat (pf_data_size field)) v = Some m'"
      "changes (member field dest) m m'" by blast
  with assms(1) show ?thesis
    by (auto simp: store_clamped_def Let_def intro!: safe_failed
        intro: safeI [OF refl] within_refl)
qed

text \<open>\<open>case r of None \<Rightarrow> Some (False, s, m) | Some v \<Rightarrow> g v s m\<close> after a reader.\<close>

lemma safe_after_reader:
  assumes "within s' s" "\<And>v. r = Some v \<Longrightarrow> shorter s' s"
    "\<And>v. r = Some v \<Longrightarrow> safe within W s' m (g v)"
  shows "safe shorter W s m (case r of None \<Rightarrow> Some (False, s', m) | Some v \<Rightarrow> g v)"
  using assms by (cases r) (auto simp: within_def intro: safe_failed safe_later)

interpretation safe_varint: safe_decoder "pb_dec_varint env" "\<lambda>field m. True" for env
proof
  fix s m dest and field :: pb_field
  assume s: "readable s m" and a: "allocated m dest (unat (pf_data_size field))"
  obtain r s' where r: "pb_decode_varint env s m = Some (r, s', m)" "within s' s"
      "\<And>v. r = Some v \<Longrightarrow> shorter s' s" using decode_varint_safe [OF s, where env = env] by blast
  then have cb: "is_callback s' = Buf_read" by (simp add: within_def)
  show "safe shorter (member field dest) s m (pb_dec_varint env s field dest m)"
    using safe_after_reader [OF r(2,3) store_clamped_safe [OF cb a]] r(1)
    by (simp add: pb_dec_varint_def Let_def cong: option.case_cong)
qed

interpretation safe_uvarint: safe_decoder "pb_dec_uvarint env" "\<lambda>field m. True" for env
proof
  fix s m dest and field :: pb_field
  assume s: "readable s m" and a: "allocated m dest (unat (pf_data_size field))"
  obtain r s' where r: "pb_decode_varint env s m = Some (r, s', m)" "within s' s"
      "\<And>v. r = Some v \<Longrightarrow> shorter s' s" using decode_varint_safe [OF s, where env = env] by blast
  then have cb: "is_callback s' = Buf_read" by (simp add: within_def)
  show "safe shorter (member field dest) s m (pb_dec_uvarint env s field dest m)"
    using safe_after_reader [OF r(2,3) store_clamped_safe [OF cb a]] r(1)
    by (simp add: pb_dec_uvarint_def)
qed

interpretation safe_svarint: safe_decoder "pb_dec_svarint env" "\<lambda>field m. True" for env
proof
  fix s m dest and field :: pb_field
  assume s: "readable s m" and a: "allocated m dest (unat (pf_data_size field))"
  obtain r s' where r: "pb_decode_svarint env s m = Some (r, s', m)" "within s' s"
      "\<And>v. r = Some v \<Longrightarrow> shorter s' s" using decode_svarint_safe [OF s, where env = env] by blast
  then have cb: "is_callback s' = Buf_read" by (simp add: within_def)
  show "safe shorter (member field dest) s m (pb_dec_svarint env s field dest m)"
    using safe_after_reader [OF r(2,3) store_clamped_safe [OF cb a]] r(1)
    by (simp add: pb_dec_svarint_def)
qed

text \<open>A reader of \<open>n > 0\<close> bytes into the member.\<close>

lemma fixed_safe:
  assumes s: "readable s m" and a: "allocated m dest n" and n: "0 < n"
    and dec: "\<And>xs. stream_at s m xs \<Longrightarrow> dec =
      (if length xs < n then Some (False, is_set_error ''end-of-stream'' s, m)
       else map_option (\<lambda>m'. (True, advance n s, m')) (store_bytes m dest (take n xs)))"
  shows "safe shorter (region dest n) s m dec"
proof -
  from s obtain xs where at: "stream_at s m xs" by (rule readable_stream)
  have cb: "is_callback s = Buf_read" using at by (simp add: stream_at_def)
  show ?thesis
  proof (cases "length xs < n")
    case True
    with cb show ?thesis by (simp add: dec [OF at] safe_failed)
  next
    case False
    then have "length (take n xs) = n" by simp
    with a changes_writes [OF writes_store_bytes [of m dest "take n xs"]]
    obtain m' where "store_bytes m dest (take n xs) = Some m'" "changes (region dest n) m m'"
      by auto
    with False cb n within_advance(2) [OF at, of n] show ?thesis
      by (auto simp: dec [OF at] safe_def)
  qed
qed

interpretation safe_fixed32: safe_decoder "pb_dec_fixed32 env" "\<lambda>field m. pf_data_size field = 4" for env
proof
  fix s m dest and field :: pb_field
  assume "readable s m" "pf_data_size field = 4" "allocated m dest (unat (pf_data_size field))"
  then show "safe shorter (member field dest) s m (pb_dec_fixed32 env s field dest m)"
    using fixed_safe [of s m dest 4] pb_decode_fixed32_at [of s m _ env dest]
    by (simp add: pb_dec_fixed32_def)
qed

interpretation safe_fixed64: safe_decoder "pb_dec_fixed64 env" "\<lambda>field m. pf_data_size field = 8" for env
proof
  fix s m dest and field :: pb_field
  assume "readable s m" "pf_data_size field = 8" "allocated m dest (unat (pf_data_size field))"
  then show "safe shorter (member field dest) s m (pb_dec_fixed64 env s field dest m)"
    using fixed_safe [of s m dest 8] pb_decode_fixed64_at [of s m _ env dest]
    by (simp add: pb_dec_fixed64_def)
qed

lemma unat_ucast_size [simp]: "unat (ucast (w :: u32) :: size) = unat w"
  by (rule unat_ucast_up) simp

lemma alloc_size: "unat (PB_BYTES_ARRAY_T_ALLOCSIZE n) = unat n + 4"
proof -
  have "unat n < 2 ^ 32" using unsigned_less [of n, where ?'a = nat] by simp
  then have "unat n + 4 < 2 ^ LENGTH(64)" by simp
  then show ?thesis
    by (simp add: PB_BYTES_ARRAY_T_ALLOCSIZE_def c_defs unat_word_ariths take_bit_eq_mod mod_simps)
qed

interpretation safe_bytes: safe_decoder "pb_dec_bytes env" "\<lambda>field m. True" for env
proof
  fix s m dest and field :: pb_field
  assume s: "readable s m" and a: "allocated m dest (unat (pf_data_size field))"
  obtain r s' where r: "pb_decode_varint32 env s m = Some (r, s', m)" "within s' s"
      "\<And>v. r = Some v \<Longrightarrow> shorter s' s" using decode_varint32_safe [OF s, where env = env] by blast
  then have cb: "is_callback s' = Buf_read" by (simp add: within_def)
  have s': "readable s' m" using readable_within [OF s r(2) changes_refl] .
  have store: "safe within (member field dest) s' m (do {
      m \<leftarrow> store_word m dest 4 sz;
      pb_read_to env s' (dest + bytes_offset) (ucast sz) m })"
    if "\<not> PB_BYTES_ARRAY_T_ALLOCSIZE sz > ucast (pf_data_size field)" for sz :: u32
  proof -
    have le: "unat sz + 4 \<le> unat (pf_data_size field)"
      using that by (simp add: word_less_nat_alt alloc_size)
    then have "int (unat sz + 4) \<le> int (unat (pf_data_size field))" by (simp only: zle_int)
    then have fit: "dest + 4 + int (unat sz) \<le> dest + int (unat (pf_data_size field))" by simp
    have parts: "allocated m dest 4" "region dest 4 \<subseteq> member field dest"
      using allocated_le [OF a, of 4] region_mono [of 4 "unat (pf_data_size field)"] le by simp_all
    have rest: "allocated m (dest + 4) (unat sz)" "region (dest + 4) (unat sz) \<subseteq> member field dest"
      using allocated_sub [OF a _ fit] region_sub [OF _ fit] by simp_all
    from changes_writes [OF writes_store_word parts(1)] obtain m' where
      m': "store_word m dest 4 sz = Some m'" "changes (region dest 4) m m'" by blast
    have "safe within (region (dest + 4) (unat sz)) s' m' (pb_read_to env s' (dest + 4) (ucast sz) m')"
      using read_to_safe [OF readable_within [OF s' within_refl [OF cb] m'(2)], of "dest + 4" "ucast sz"]
        rest(1) changes_allocated [OF m'(2)] by simp
    from safe_later_within [OF safe_mono [OF this rest(2)] changes_mono [OF m'(2) parts(2)]
        within_refl [OF cb]] m'(1)
    show ?thesis by (simp add: c_defs)
  qed
  have "safe within (member field dest) s' m (
      if sz > PB_SIZE_MAX then Some (False, is_set_error ''bytes overflow'' s', m)
      else (let alloc_size = PB_BYTES_ARRAY_T_ALLOCSIZE sz
        in if ucast sz > alloc_size
           then Some (False, is_set_error ''size too large'' s', m)
           else if pf_atype field = PB_ATYPE_POINTER
           then Some (False, is_set_error ''no malloc support'' s', m)
           else if alloc_size > ucast (pf_data_size field)
           then Some (False, is_set_error ''bytes overflow'' s', m)
           else do {
             m \<leftarrow> store_word m dest 4 sz;
             pb_read_to env s' (dest + bytes_offset) (ucast sz) m
           }))" for sz
    using store [of sz] cb by (simp add: Let_def safe_failed)
  from safe_after_reader [OF r(2,3) this] r(1)
  show "safe shorter (member field dest) s m (pb_dec_bytes env s field dest m)"
    by (simp add: pb_dec_bytes_def)
qed

interpretation safe_string: safe_decoder "pb_dec_string env" "\<lambda>field m. True" for env
proof
  fix s m dest and field :: pb_field
  assume s: "readable s m" and a: "allocated m dest (unat (pf_data_size field))"
  obtain r s' where r: "pb_decode_varint32 env s m = Some (r, s', m)" "within s' s"
      "\<And>v. r = Some v \<Longrightarrow> shorter s' s" using decode_varint32_safe [OF s, where env = env] by blast
  then have cb: "is_callback s' = Buf_read" by (simp add: within_def)
  have s': "readable s' m" using readable_within [OF s r(2) changes_refl] .
  have store: "safe within (member field dest) s' m (do {
      (status, stream, m) \<leftarrow> pb_read_to env s' dest (ucast sz) m;
      m \<leftarrow> store_bytes m (dest + uint sz) [0];
      Some (status, stream, m) })"
    if fits: "\<not> (ucast (sz + 1) :: size) < ucast sz" "\<not> (ucast (sz + 1) :: size) > ucast (pf_data_size field)"
    for sz :: u32
  proof -
    have "unat sz \<le> unat (sz + 1)" using fits(1) by (simp add: word_less_nat_alt)
    moreover have "unat (sz + 1) = (unat sz + 1) mod 2 ^ LENGTH(32)"
      by (simp add: unat_word_ariths)
    moreover have "unat sz < 2 ^ LENGTH(32)" by (rule unsigned_less)
    ultimately have "unat (sz + 1) = unat sz + 1"
      by (cases "unat sz + 1 = 2 ^ LENGTH(32)") simp_all
    then have le: "unat sz + 1 \<le> unat (pf_data_size field)"
      using fits(2) by (simp add: word_less_nat_alt)
    then have "int (unat sz + 1) \<le> int (unat (pf_data_size field))" by (simp only: zle_int)
    then have fit: "dest + uint sz + int 1 \<le> dest + int (unat (pf_data_size field))" by simp
    have parts: "allocated m dest (unat (ucast sz :: size))" "region dest (unat (ucast sz :: size)) \<subseteq> member field dest"
      using allocated_le [OF a, of "unat sz"] region_mono [of "unat sz" "unat (pf_data_size field)"] le
      by simp_all
    have rest: "allocated m (dest + uint sz) 1" "region (dest + uint sz) 1 \<subseteq> member field dest"
      using allocated_sub [OF a _ fit] region_sub [OF _ fit] by simp_all
    from read_to_safe [OF s' parts(1), of env] obtain ok s1 m1 where
      1: "pb_read_to env s' dest (ucast sz) m = Some (ok, s1, m1)" "is_callback s1 = Buf_read"
        "ok \<Longrightarrow> within s1 s'" and c: "changes (member field dest) m m1"
      using changes_mono [OF _ parts(2)] by (auto elim!: safeE)
    have "allocated m1 (dest + uint sz) (length [0 :: byte])"
      using rest(1) changes_allocated [OF c] by simp
    from changes_writes [OF writes_store_bytes this] obtain m2 where
      "store_bytes m1 (dest + uint sz) [0] = Some m2" "changes (member field dest) m1 m2"
      using changes_mono [OF _ rest(2)] by auto
    with 1 c show ?thesis by (auto intro!: safeI [OF refl] intro: changes_trans)
  qed
  have "safe within (member field dest) s' m (
      let alloc_size = ucast (sz + 1) :: size
      in if alloc_size < ucast sz
         then Some (False, is_set_error ''size too large'' s', m)
         else if pf_atype field = PB_ATYPE_POINTER
         then Some (False, is_set_error ''no malloc support'' s', m)
         else if alloc_size > ucast (pf_data_size field)
         then Some (False, is_set_error ''string overflow'' s', m)
         else do {
           (status, stream, m) \<leftarrow> pb_read_to env s' dest (ucast sz) m;
           m \<leftarrow> store_bytes m (dest + uint sz) [0];
           Some (status, stream, m)
         })" for sz :: u32
    using store [of sz] cb by (simp add: Let_def safe_failed)
  from safe_after_reader [OF r(2,3) this] r(1)
  show "safe shorter (member field dest) s m (pb_dec_string env s field dest m)"
    by (simp add: pb_dec_string_def)
qed

interpretation safe_fixed_length: safe_decoder "pb_dec_fixed_length_bytes env" "\<lambda>field m. True" for env
proof
  fix s m dest and field :: pb_field
  assume s: "readable s m" and a: "allocated m dest (unat (pf_data_size field))"
  obtain r s' where r: "pb_decode_varint32 env s m = Some (r, s', m)" "within s' s"
      "\<And>v. r = Some v \<Longrightarrow> shorter s' s" using decode_varint32_safe [OF s, where env = env] by blast
  then have cb: "is_callback s' = Buf_read" by (simp add: within_def)
  have s': "readable s' m" using readable_within [OF s r(2) changes_refl] .
  from changes_writes [OF writes_memset a, of 0] obtain m' where
    zero: "memset m dest 0 (unat (pf_data_size field)) = Some m'" "changes (member field dest) m m'" by blast
  have read: "safe within (member field dest) s' m (pb_read_to env s' dest (ucast (pf_data_size field)) m)"
    using read_to_safe [OF s', of dest "ucast (pf_data_size field)"] a by simp
  have "safe within (member field dest) s' m (
      if sz > PB_SIZE_MAX then Some (False, is_set_error ''bytes overflow'' s', m)
      else if sz = 0 then do {
        m \<leftarrow> memset m dest 0 (unat (pf_data_size field));
        Some (True, s', m)
      }
      else if sz \<noteq> pf_data_size field
      then Some (False, is_set_error ''incorrect fixed length bytes size'' s', m)
      else pb_read_to env s' dest (ucast (pf_data_size field)) m)" for sz
    using zero read cb by (auto intro!: safe_failed intro: safeI [OF refl] within_refl)
  from safe_after_reader [OF r(2,3) this] r(1)
  show "safe shorter (member field dest) s m (pb_dec_fixed_length_bytes env s field dest m)"
    by (simp add: pb_dec_fixed_length_bytes_def)
qed

section \<open>Substreams and submessages\<close>

lemma make_substream_safe:
  assumes "readable s m"
  obtains r s' where "pb_make_string_substream env s m = Some (r, s', m)" "is_callback s' = Buf_read"
    "\<And>sub. r = Some sub \<Longrightarrow> readable sub m \<and>
      (\<forall>sub' msg. is_end sub' = is_end sub \<longrightarrow>
        shorter (s'\<lparr>is_state := is_end sub', is_errmsg := msg\<rparr>) s)"
proof -
  from assms obtain xs where at: "stream_at s m xs" by (rule readable_stream)
  have cb: "is_callback s = Buf_read" using at by (simp add: stream_at_def)
  obtain r k where r: "p_varint 5 xs = (r :: string + u32, k)" by fastforce
  show thesis
  proof (cases "\<exists>n. r = Inr n \<and> unat n \<le> length xs - k")
    case False
    then have "\<exists>e. pb_make_string_substream env s m = Some (None, is_set_error e (advance k s), m)"
      using r by (cases r) (auto simp: pb_make_string_substream_at [OF at])
    with cb show thesis by (auto intro: that)
  next
    case True
    then obtain n where n: "r = Inr n" "unat n \<le> length xs - k" by blast
    have k: "k \<le> length xs" "0 < k"
      using r n(1) p_varint_consumes [of 5 xs, where ?'a = 32] varint_consumed [of 5 xs n] by simp_all
    let ?sub = "(advance k s)\<lparr>is_bytes_left := ucast n\<rparr>"
    let ?s' = "(advance k s)\<lparr>is_bytes_left := is_bytes_left (advance k s) - ucast n\<rparr>"
    have run: "pb_make_string_substream env s m = Some (Some ?sub, ?s', m)"
      using r n by (simp add: pb_make_string_substream_at [OF at])
    have atk: "stream_at (advance k s) m (drop k xs)" using stream_at_advance [OF at k(1)] .
    then have "readable ?sub m"
      using stream_readable [OF stream_at_take [OF atk, of "ucast n"]] n(2) by simp
    moreover have "shorter (?s'\<lparr>is_state := is_end sub', is_errmsg := msg\<rparr>) s"
      if "is_end sub' = is_end ?sub" for sub' msg
    proof -
      have "(of_nat (unat n) :: size) = ucast n"
        using arg_cong [OF unat_ucast_size [of n], of "of_nat :: nat \<Rightarrow> size"] by simp
      moreover have "uint (ucast n :: size) = int (unat n)" by (rule uint_of_unat) simp
      ultimately have "?s'\<lparr>is_state := is_end sub', is_errmsg := msg\<rparr> =
          (advance (k + unat n) s)\<lparr>is_errmsg := msg\<rparr>"
        using that by (simp add: advance_def is_end_def)
      then show ?thesis
        using within_advance(2) [OF at, of "k + unat n"] n(2) k by (simp add: shorter_def within_def is_end_def)
    qed
    ultimately show thesis using that [OF run] cb by simp
  qed
qed

lemma close_substream_safe:
  assumes "is_callback sub = Buf_read" "is_callback s = Buf_read"
  shows "pb_close_string_substream env s sub m =
    Some (True, s\<lparr>is_state := is_end sub, is_errmsg := is_errmsg sub\<rparr>, m)"
  using assms
  by (simp add: pb_close_string_substream_def pb_read_null_def pb_read_def pb_read_direct_def
      istream_callback_def buf_read_def is_end_def del: bind_Some_iff)

end
