(* ===== verification/Pb_Safe_Fields.thy ===== *)
theory Pb_Safe_Fields
  imports Pb_Safe
begin

text \<open>
  Safety of the decoding of fields.  \<open>ok_field\<close> and \<open>ok_message\<close> say what a descriptor must
  promise about the structure it describes: every member lies inside the structure, fixed
  numbers have their size, submessages have descriptors that fit their members, default
  values are accessible, and callbacks are safe themselves.  The locale \<open>safe_messages\<close> is
  the contract of the next level of submessages.
\<close>

section \<open>Descriptors that fit\<close>

text \<open>
  What is relied on of the field callbacks of the application: they touch only their own
  data \<open>A\<close>, stay inside the stream they are given, and consume something of a non-empty
  stream when they succeed.
\<close>

definition callbacks_safe :: "pb_env \<Rightarrow> addr set \<Rightarrow> addr set \<Rightarrow> bool" where
  "callbacks_safe env A D \<longleftrightarrow> region (raw_buffer env) 10 \<subseteq> A \<inter> D \<and>
     (\<forall>f s field arg m. f \<noteq> NULL \<longrightarrow> readable s m \<longrightarrow> dom m = D \<longrightarrow>
        safe (\<lambda>s' s. within s' s \<and> (is_bytes_left s \<noteq> 0 \<longrightarrow> shorter s' s)) A s m
          (field_decode_cb env f s field arg m))"

text \<open>
  A field at offset \<open>d\<close> of a structure of \<open>sz\<close> bytes, with its count or \<open>has_\<close> member at
  offset \<open>z\<close>.  \<open>D\<close> is the accessible memory, \<open>sub\<close> the same condition for submessages.
\<close>

definition ok_static ::
  "(pb_field list \<Rightarrow> nat \<Rightarrow> bool) \<Rightarrow> pb_env \<Rightarrow> addr set \<Rightarrow> pb_field \<Rightarrow> int \<Rightarrow> int \<Rightarrow> nat \<Rightarrow> bool" where
  "ok_static sub env D f d z sz \<longleftrightarrow>
     d + field_extent f \<le> int sz \<and> unat (pf_ltype f) < PB_LTYPES_COUNT \<and>
     (pf_ltype f = PB_LTYPE_FIXED32 \<longrightarrow> pf_data_size f = 4) \<and>
     (pf_ltype f = PB_LTYPE_FIXED64 \<longrightarrow> pf_data_size f = 8) \<and>
     (pf_ltype f = PB_LTYPE_SUBMESSAGE \<longrightarrow>
        pf_ptr f \<noteq> NULL \<and> sub (fields_at env (pf_ptr f)) (unat (pf_data_size f))) \<and>
     (pf_ltype f \<noteq> PB_LTYPE_SUBMESSAGE \<and> pf_ptr f \<noteq> NULL \<longrightarrow>
        region (pf_ptr f) (unat (pf_data_size f)) \<subseteq> D) \<and>
     (pf_htype f = PB_HTYPE_OPTIONAL \<and> z \<noteq> d \<longrightarrow> 0 \<le> z \<and> z + 1 \<le> int sz) \<and>
     (pf_htype f = PB_HTYPE_REPEATED \<or> pf_htype f = PB_HTYPE_ONEOF \<longrightarrow> 0 \<le> z \<and> z + 4 \<le> int sz) \<and>
     (pf_htype f = PB_HTYPE_REPEATED \<longrightarrow> unat (pf_data_size f) * unat (pf_array_size f) < 2 ^ 32)"

definition ok_field ::
  "(pb_field list \<Rightarrow> nat \<Rightarrow> bool) \<Rightarrow> pb_env \<Rightarrow> addr set \<Rightarrow> addr set \<Rightarrow> pb_field \<Rightarrow> int \<Rightarrow> int \<Rightarrow> nat \<Rightarrow> bool" where
  "ok_field sub env A D f d z sz \<longleftrightarrow>
     pf_ltype f \<noteq> PB_LTYPE_EXTENSION \<and> 0 \<le> d \<and>
     (pf_atype f = PB_ATYPE_STATIC \<longrightarrow> ok_static sub env D f d z sz) \<and>
     (pf_atype f = PB_ATYPE_POINTER \<longrightarrow> d + 8 \<le> int sz \<and>
        (pf_htype f = PB_HTYPE_REPEATED \<or> pf_htype f = PB_HTYPE_ONEOF \<longrightarrow> 0 \<le> z \<and> z + 4 \<le> int sz)) \<and>
     (pf_atype f = PB_ATYPE_CALLBACK \<longrightarrow> d + 8 \<le> int sz \<and> callbacks_safe env A D)"

text \<open>
  The check for required fields has no defined result when their number is a positive
  multiple of 32 or exceeds 64.
\<close>

definition required_count :: "pb_field list \<Rightarrow> nat" where
  "required_count flds = required_before flds (field_count flds)"

definition required_checkable :: "nat \<Rightarrow> bool" where
  "required_checkable n \<longleftrightarrow> n = 0 \<or> (n mod 32 \<noteq> 0 \<and> n < PB_MAX_REQUIRED_FIELDS)"

primrec ok_message :: "nat \<Rightarrow> pb_env \<Rightarrow> addr set \<Rightarrow> addr set \<Rightarrow> pb_field list \<Rightarrow> nat \<Rightarrow> bool" where
  "ok_message 0 env A D flds sz = False"
| "ok_message (Suc n) env A D flds sz =
     (wf_fields flds \<and> last flds = PB_LAST_FIELD \<and> required_checkable (required_count flds) \<and>
      (\<forall>i < field_count flds. ok_field (ok_message n env A D) env A D (flds ! i)
         (data_at flds 0 i) (size_at flds 0 i) sz))"

text \<open>The offsets do not depend on the address of the structure.\<close>

lemma data_at_shift: "data_at flds dest i = dest + data_at flds 0 i"
  by (induction i) (auto simp: algebra_simps)

lemma size_at_shift: "size_at flds dest i = dest + size_at flds 0 i"
proof (induction i)
  case (Suc i)
  then show ?case using data_at_shift [of flds dest "Suc i"] by auto
qed (simp add: data_at_shift [of flds dest])

text \<open>The table of decoders has ten entries.\<close>

lemma ltype_cases:
  assumes "unat (t :: pb_type_t) < 10"
  obtains "t = PB_LTYPE_VARINT" | "t = PB_LTYPE_UVARINT" | "t = PB_LTYPE_SVARINT"
    | "t = PB_LTYPE_FIXED32" | "t = PB_LTYPE_FIXED64" | "t = PB_LTYPE_BYTES" | "t = PB_LTYPE_STRING"
    | "t = PB_LTYPE_SUBMESSAGE" | "t = PB_LTYPE_EXTENSION" | "t = PB_LTYPE_FIXED_LENGTH_BYTES"
proof -
  have "t = of_nat (unat t)" by simp
  moreover have "unat t \<in> {0, 1, 2, 3, 4, 5, 6, 7, 8, 9}" using assms by auto
  ultimately have "t \<in> of_nat ` {0, 1, 2, 3, 4, 5, 6, 7, 8, 9}" by blast
  then show thesis using that by (auto simp: c_defs)
qed

lemma ltypes_distinct [simp]:
  "PB_LTYPE_UVARINT \<noteq> PB_LTYPE_VARINT" "PB_LTYPE_SVARINT \<notin> {PB_LTYPE_VARINT, PB_LTYPE_UVARINT}"
  "PB_LTYPE_FIXED32 \<notin> {PB_LTYPE_VARINT, PB_LTYPE_UVARINT, PB_LTYPE_SVARINT}"
  "PB_LTYPE_FIXED64 \<notin> {PB_LTYPE_VARINT, PB_LTYPE_UVARINT, PB_LTYPE_SVARINT, PB_LTYPE_FIXED32}"
  "PB_LTYPE_BYTES \<notin> {PB_LTYPE_VARINT, PB_LTYPE_UVARINT, PB_LTYPE_SVARINT, PB_LTYPE_FIXED32,
     PB_LTYPE_FIXED64}"
  "PB_LTYPE_STRING \<notin> {PB_LTYPE_VARINT, PB_LTYPE_UVARINT, PB_LTYPE_SVARINT, PB_LTYPE_FIXED32,
     PB_LTYPE_FIXED64, PB_LTYPE_BYTES}"
  "PB_LTYPE_SUBMESSAGE \<notin> {PB_LTYPE_VARINT, PB_LTYPE_UVARINT, PB_LTYPE_SVARINT, PB_LTYPE_FIXED32,
     PB_LTYPE_FIXED64, PB_LTYPE_BYTES, PB_LTYPE_STRING}"
  "PB_LTYPE_FIXED_LENGTH_BYTES \<notin> {PB_LTYPE_VARINT, PB_LTYPE_UVARINT, PB_LTYPE_SVARINT,
     PB_LTYPE_FIXED32, PB_LTYPE_FIXED64, PB_LTYPE_BYTES, PB_LTYPE_STRING, PB_LTYPE_SUBMESSAGE}"
  by (simp_all add: c_defs)

section \<open>The next level of submessages\<close>

locale safe_messages =
  fixes set_defaults :: "pb_field list \<Rightarrow> addr \<Rightarrow> mem \<Rightarrow> mem option"
    and decode decode_noinit :: message_decoder
    and fits :: "pb_field list \<Rightarrow> nat \<Rightarrow> bool"
    and A D :: "addr set"
  assumes defaults_safe: "fits flds sz \<Longrightarrow> dom m = D \<Longrightarrow> allocated m dest sz \<Longrightarrow>
      \<exists>m'. set_defaults flds dest m = Some m' \<and> changes (region dest sz) m m'"
    and decode_safe: "fits flds sz \<Longrightarrow> dom m = D \<Longrightarrow> readable s m \<Longrightarrow> allocated m dest sz \<Longrightarrow>
      region dest sz \<inter> A = {} \<Longrightarrow> safe within (region dest sz \<union> A) s m (decode s flds dest m)"
    and decode_noinit_safe: "fits flds sz \<Longrightarrow> dom m = D \<Longrightarrow> readable s m \<Longrightarrow> allocated m dest sz \<Longrightarrow>
      region dest sz \<inter> A = {} \<Longrightarrow> safe within (region dest sz \<union> A) s m (decode_noinit s flds dest m)"
begin

lemma submessage_safe:
  assumes s: "readable s m" and D: "dom m = D" and a: "allocated m dest (unat (pf_data_size field))"
    and apart: "member field dest \<inter> A = {}"
    and fits: "pf_ptr field \<noteq> NULL \<Longrightarrow> fits (fields_at env (pf_ptr field)) (unat (pf_data_size field))"
  shows "safe shorter (member field dest \<union> A) s m (pb_dec_submessage env decode decode_noinit s field dest m)"
proof -
  obtain r s' where r: "pb_make_string_substream env s m = Some (r, s', m)" "is_callback s' = Buf_read"
    "\<And>sub. r = Some sub \<Longrightarrow> readable sub m \<and> (\<forall>sub' msg. is_end sub' = is_end sub \<longrightarrow>
        shorter (s'\<lparr>is_state := is_end sub', is_errmsg := msg\<rparr>) s)"
    using make_substream_safe [OF s, where env = env] by blast
  show ?thesis
  proof (cases "r = None \<or> pf_ptr field = NULL")
    case True
    with r(1,2) show ?thesis
      by (auto simp: pb_dec_submessage_def intro!: safe_failed split: option.split)
  next
    case False
    then obtain sub where sub: "r = Some sub" and p: "pf_ptr field \<noteq> NULL" by auto
    let ?run = "if pf_htype field = PB_HTYPE_REPEATED
      then decode sub (fields_at env (pf_ptr field)) dest m
      else decode_noinit sub (fields_at env (pf_ptr field)) dest m"
    have "readable sub m" using r(3) [OF sub] by simp
    then have "safe within (member field dest \<union> A) sub m ?run"
      using decode_safe [OF fits [OF p] D _ a apart] decode_noinit_safe [OF fits [OF p] D _ a apart] by simp
    then obtain ok sub' m' where run: "?run = Some (ok, sub', m')" "changes (member field dest \<union> A) m m'"
        "is_callback sub' = Buf_read" "ok \<Longrightarrow> within sub' sub" by (elim safeE) blast
    have "pb_dec_submessage env decode decode_noinit s field dest m =
        Some (ok, s'\<lparr>is_state := is_end sub', is_errmsg := is_errmsg sub'\<rparr>, m')"
      using r(1) sub p run(1) close_substream_safe [OF run(3) r(2), of env m']
      by (simp add: pb_dec_submessage_def)
    then show ?thesis
      by (rule safeI) (use run(2,4) r(2,3) sub in \<open>auto simp: within_def\<close>)
  qed
qed

text \<open>The table of decoders.\<close>

lemma decoder_safe:
  assumes s: "readable s m" and D: "dom m = D" and a: "member field dest \<subseteq> D - A"
    and ok: "ok_static fits env D field d z sz" "pf_ltype field \<noteq> PB_LTYPE_EXTENSION"
  shows "safe shorter (member field dest \<union> A) s m
    (call_decoder (PB_DECODERS env decode decode_noinit (pf_ltype field)) s field dest m)"
proof -
  have apart: "member field dest \<inter> A = {}" using a by blast
  have a: "allocated m dest (unat (pf_data_size field))" using a D by (auto simp: allocated_def)
  note scalar = safe_varint.decodes_safely safe_uvarint.decodes_safely safe_svarint.decodes_safely
    safe_fixed32.decodes_safely safe_fixed64.decodes_safely safe_bytes.decodes_safely
    safe_string.decodes_safely safe_fixed_length.decodes_safely
  note scalar = scalar [OF s _ a, THEN safe_mono, OF _ Un_upper1]
  have "pf_ltype field = PB_LTYPE_SUBMESSAGE \<Longrightarrow>
      safe shorter (member field dest \<union> A) s m (pb_dec_submessage env decode decode_noinit s field dest m)"
    using submessage_safe [OF s D a apart] ok(1) by (simp add: ok_static_def)
  moreover have "unat (pf_ltype field) < 10" using ok(1) by (simp add: ok_static_def c_defs)
  ultimately show ?thesis
    using ltype_cases [of "pf_ltype field"] ok scalar
    by (auto simp: PB_DECODERS_def call_decoder_def ok_static_def)
qed

end

section \<open>Repeated and packed fields\<close>

definition safe_item :: "pb_decoder \<Rightarrow> pb_field \<Rightarrow> addr set \<Rightarrow> addr set \<Rightarrow> bool" where
  "safe_item func field A D \<longleftrightarrow> (\<forall>s m a. readable s m \<longrightarrow> dom m = D \<longrightarrow>
     member field a \<subseteq> D - A \<longrightarrow> safe shorter (member field a \<union> A) s m (func s field a m))"

lemma safe_itemD:
  "safe_item func field A D \<Longrightarrow> readable s m \<Longrightarrow> dom m = D \<Longrightarrow> member field a \<subseteq> D - A \<Longrightarrow>
   member field a \<union> A \<subseteq> W \<Longrightarrow> safe shorter W s m (func s field a m)"
  unfolding safe_item_def by (blast intro: safe_mono)

lemma loads_word: "region a n \<subseteq> dom m \<Longrightarrow> \<exists>w. load_word m a n = Some w"
  by (simp add: load_word_defined allocated_def)

lemma writes_in:
  assumes "writes m a n r" "region a n \<subseteq> W \<inter> D" "dom m = D"
  obtains m' where "r = Some m'" "changes W m m'"
  using changes_writes [OF assms(1)] changes_mono [of "region a n" m _ W] assms(2,3)
  by (auto simp: allocated_def)

lemma changes_dom: "changes W m m' \<Longrightarrow> dom m' = dom m"
  by (simp add: changes_def)

text \<open>The entries of an array, and its count.\<close>

definition array_in :: "pb_field \<Rightarrow> addr \<Rightarrow> addr \<Rightarrow> addr set \<Rightarrow> bool" where
  "array_in field pData pSize W \<longleftrightarrow> region pSize 4 \<subseteq> W \<and>
     (\<forall>i < pf_array_size field. member field (pData + uint (pf_data_size field * i)) \<subseteq> W)"

lemma array_in_mono: "array_in f p q V \<Longrightarrow> V \<subseteq> W \<Longrightarrow> array_in f p q W"
  unfolding array_in_def by (meson subset_trans)

lemma within_same_end: "within s' s \<Longrightarrow> is_end s' = is_end s"
  by (simp add: within_def)

lemma packed_loop_safe:
  assumes item: "safe_item func field A D" and arr: "array_in field pData pSize (W \<inter> (D - A))"
    and A: "A \<subseteq> W" and s: "readable s m" and D: "dom m = D"
  shows "safe within W s m (packed_loop func field pData pSize s m)"
  using s D
proof (induction "unat (is_bytes_left s)" arbitrary: s m rule: less_induct)
  case less
  note s = less.prems(1) and D = less.prems(2)
  have cb: "is_callback s = Buf_read" using s by (simp add: readable_def)
  have p: "region pSize 4 \<subseteq> W \<inter> D" using arr by (auto simp add: array_in_def)
  then obtain sz :: u32 where sz: "load_word m pSize 4 = Some sz" using loads_word [of pSize 4 m] D by auto
  show ?case
  proof (cases "is_bytes_left s \<noteq> 0 \<and> sz < pf_array_size field")
    case False
    with sz cb show ?thesis
      by (auto simp: packed_loop.simps [of func field pData pSize s m] intro!: safeI [OF refl] intro: within_refl)
  next
    case True
    let ?a = "pData + uint (pf_data_size field * sz)"
    have a: "member field ?a \<subseteq> W \<inter> (D - A)" using arr True by (simp add: array_in_def)
    obtain ok s1 m1 where 1: "func s field ?a m = Some (ok, s1, m1)" "changes W m m1"
        "is_callback s1 = Buf_read" "ok \<Longrightarrow> shorter s1 s"
      using safe_itemD [OF item s D, of ?a W] a A by (auto elim!: safeE)
    show ?thesis
    proof (cases ok)
      case False
      with True sz 1 show ?thesis
        by (simp add: packed_loop.simps [of func field pData pSize s m] safe_failed)
    next
      case ok: True
      note D1 = changes_dom [OF 1(2), unfolded D]
      obtain sz1 :: u32 where sz1: "load_word m1 pSize 4 = Some sz1" using loads_word [of pSize 4 m1] p D1 by auto
      obtain m2 where m2: "store_word m1 pSize 4 (sz1 + 1) = Some m2" "changes W m1 m2"
        using writes_in [OF writes_store_word [of m1 pSize 4 "sz1 + 1"] p D1] by blast
      have c: "changes W m m2" using changes_trans [OF 1(2) m2(2)] .
      have s1: "readable s1 m2" using readable_within [OF s shorter_within [OF 1(4) [OF ok]] c] .
      have "safe within W s1 m2 (packed_loop func field pData pSize s1 m2)"
        using less.hyps [OF _ s1] 1(4) [OF ok] changes_dom [OF c] D by (simp add: shorter_def)
      then have "safe within W s m (packed_loop func field pData pSize s1 m2)"
        using safe_later_within [OF _ c shorter_within [OF 1(4) [OF ok]]] by blast
      with True ok sz 1(1) sz1 m2(1) show ?thesis
        by (simp add: packed_loop.simps [of func field pData pSize s m])
    qed
  qed
qed

lemma decode_packed_safe:
  assumes item: "safe_item func field A D" and arr: "array_in field (it_pData iter) (it_pSize iter) (W \<inter> (D - A))"
    and A: "A \<subseteq> W" and s: "readable s m" and D: "dom m = D"
  shows "safe within W s m (decode_packed env func s field iter m)"
proof -
  obtain r s' where r: "pb_make_string_substream env s m = Some (r, s', m)" "is_callback s' = Buf_read"
    "\<And>sub. r = Some sub \<Longrightarrow> readable sub m \<and> (\<forall>sub' msg. is_end sub' = is_end sub \<longrightarrow>
        shorter (s'\<lparr>is_state := is_end sub', is_errmsg := msg\<rparr>) s)"
    using make_substream_safe [OF s, where env = env] by blast
  show ?thesis
  proof (cases r)
    case None
    with r(1,2) show ?thesis by (simp add: decode_packed_def safe_failed)
  next
    case (Some sub)
    obtain ok sub' m' where run: "packed_loop func field (it_pData iter) (it_pSize iter) sub m = Some (ok, sub', m')"
        "changes W m m'" "is_callback sub' = Buf_read" "ok \<Longrightarrow> within sub' sub"
      using packed_loop_safe [OF item arr A _ D] r(3) [OF Some] by (blast elim: safeE)
    show ?thesis
    proof (cases "is_bytes_left sub' = 0")
      case False
      with r(1,2) Some run show ?thesis by (simp add: decode_packed_def safe_failed)
    next
      case True
      have "decode_packed env func s field iter m =
          Some (ok, s'\<lparr>is_state := is_end sub', is_errmsg := is_errmsg sub'\<rparr>, m')"
        using r(1) Some run(1) True close_substream_safe [OF run(3) r(2), of env m']
        by (simp add: decode_packed_def)
      then show ?thesis
        by (rule safeI)
          (use run(2,4) r(2,3) Some in \<open>auto simp: shorter_def dest: within_same_end\<close>)
    qed
  qed
qed

lemma decode_repeated_safe:
  assumes item: "safe_item func field A D" and arr: "array_in field (it_pData iter) (it_pSize iter) (W \<inter> (D - A))"
    and A: "A \<subseteq> W" and s: "readable s m" and D: "dom m = D"
  shows "safe within W s m (decode_repeated func s field iter m)"
proof -
  have cb: "is_callback s = Buf_read" using s by (simp add: readable_def)
  have p: "region (it_pSize iter) 4 \<subseteq> W \<inter> D" using arr by (auto simp add: array_in_def)
  then obtain sz :: u32 where sz: "load_word m (it_pSize iter) 4 = Some sz"
    using loads_word [of "it_pSize iter" 4 m] D by auto
  obtain m1 where m1: "store_word m (it_pSize iter) 4 (sz + 1) = Some m1" "changes W m m1"
    using writes_in [OF writes_store_word [of m "it_pSize iter" 4 "sz + 1"] p D] by blast
  let ?a = "it_pData iter + uint (pf_data_size field * sz)"
  have "safe within W s m (func s field ?a m1)" if "sz < pf_array_size field"
  proof -
    have a: "member field ?a \<subseteq> W \<inter> (D - A)" using arr that by (simp add: array_in_def)
    have "safe shorter W s m1 (func s field ?a m1)"
      using safe_itemD [OF item readable_within [OF s within_refl [OF cb] m1(2)], of ?a W] a A
        changes_dom [OF m1(2)] D by simp
    from safe_later_within [OF safe_shorter_within [OF this] m1(2) within_refl [OF cb]]
    show ?thesis .
  qed
  with sz m1(1) cb show ?thesis by (simp add: decode_repeated_def Let_def safe_failed not_le)
qed

section \<open>Fields\<close>

text \<open>Where the members of a field of the structure at \<open>dest\<close> are.\<close>

lemma static_member:
  assumes "ok_static sub env D f d z sz" "0 \<le> d" "pf_atype f = PB_ATYPE_STATIC" "pf_htype f \<noteq> PB_HTYPE_REPEATED"
  shows "member f (dest + d) \<subseteq> region dest sz"
  using assms by (intro region_sub) (auto simp: ok_static_def field_extent_def)

lemma static_array:
  assumes ok: "ok_static sub env D f d z sz" "0 \<le> d" "pf_atype f = PB_ATYPE_STATIC" "pf_htype f = PB_HTYPE_REPEATED"
  shows "array_in f (dest + d) (dest + z) (region dest sz)"
  unfolding array_in_def
proof (intro conjI allI impI)
  show "region (dest + z) 4 \<subseteq> region dest sz"
    using ok by (intro region_sub) (auto simp: ok_static_def)
  fix i assume "i < pf_array_size f"
  then have "unat i + 1 \<le> unat (pf_array_size f)" by (simp add: word_less_nat_alt)
  then have le: "unat (pf_data_size f) * (unat i + 1) \<le> unat (pf_data_size f) * unat (pf_array_size f)"
    by (rule mult_le_mono2)
  also have less: "\<dots> < 2 ^ 32" using ok by (simp add: ok_static_def)
  finally have "unat (pf_data_size f) * unat i < 2 ^ LENGTH(32)" by simp
  then have "unat (pf_data_size f * i) = unat (pf_data_size f) * unat i"
    by (simp add: unat_word_ariths)
  then have off: "uint (pf_data_size f * i) = int (unat (pf_data_size f) * unat i)" by (rule uint_of_unat)
  have "d + int (unat (pf_data_size f) * unat (pf_array_size f)) \<le> int sz"
    using ok by (simp add: ok_static_def field_extent_def)
  then have "d + int (unat (pf_data_size f) * (unat i + 1)) \<le> int sz"
    using zle_int [THEN iffD2, OF le] by linarith
  then show "member f (dest + d + uint (pf_data_size f * i)) \<subseteq> region dest sz"
    using ok(2) unfolding off by (intro region_sub) (simp_all add: algebra_simps)
qed

context safe_messages
begin

lemma decode_oneof_safe:
  assumes item: "safe_item func field A D" and data: "member field (it_pData iter) \<subseteq> W \<inter> (D - A)"
    and size: "region (it_pSize iter) 4 \<subseteq> W \<inter> D" and A: "A \<subseteq> W" and s: "readable s m" and D: "dom m = D"
    and sub: "pf_ltype field = PB_LTYPE_SUBMESSAGE \<Longrightarrow>
      fits (fields_at env (pf_ptr field)) (unat (pf_data_size field))"
  shows "safe within W s m (decode_oneof set_defaults env func s field iter m)"
proof -
  have cb: "is_callback s = Buf_read" using s by (simp add: readable_def)
  obtain m1 where m1: "store_word m (it_pSize iter) 4 (pf_tag field) = Some m1" "changes W m m1"
    using writes_in [OF writes_store_word [of m "it_pSize iter" 4 "pf_tag field"] size D] by blast
  obtain m2 where m2: "memset m1 (it_pData iter) 0 (unat (pf_data_size field)) = Some m2" "changes W m1 m2"
    using writes_in [OF writes_memset [of m1 "it_pData iter" "unat (pf_data_size field)" 0], of W D]
      data changes_dom [OF m1(2)] D by blast
  have D2: "dom m2 = D" using changes_dom m1(2) m2(2) D by metis
  have func: "safe within W s m (func s field (it_pData iter) m')" if c: "changes W m m'" for m'
  proof -
    have "safe shorter W s m' (func s field (it_pData iter) m')"
      using safe_itemD [OF item readable_within [OF s within_refl [OF cb] c]] data A changes_dom [OF c] D
      by simp
    from safe_later_within [OF safe_shorter_within [OF this] c within_refl [OF cb]] show ?thesis .
  qed
  show ?thesis
  proof (cases "pf_ltype field = PB_LTYPE_SUBMESSAGE")
    case False
    with m1 func [OF m1(2)] show ?thesis by (simp add: decode_oneof_def)
  next
    case True
    have "allocated m2 (it_pData iter) (unat (pf_data_size field))" using data D2 by (auto simp: allocated_def)
    from defaults_safe [OF sub [OF True] D2 this] obtain m3 where
      m3: "set_defaults (fields_at env (pf_ptr field)) (it_pData iter) m2 = Some m3"
        "changes (member field (it_pData iter)) m2 m3" by blast
    have "changes W m2 m3" using changes_mono [OF m3(2)] data by simp
    then have "changes W m m3" using m1(2) m2(2) changes_trans by metis
    from func [OF this] True m1(1) m2(1) m3(1) show ?thesis by (simp add: decode_oneof_def)
  qed
qed

lemma decode_static_field_safe:
  assumes ok: "ok_static fits env D field d z sz" "0 \<le> d" "pf_atype field = PB_ATYPE_STATIC"
      "pf_ltype field \<noteq> PB_LTYPE_EXTENSION"
    and iter: "it_field iter = Some field" "it_pData iter = dest + d" "it_pSize iter = dest + z"
    and W: "region dest sz \<subseteq> W \<inter> (D - A)" "A \<subseteq> W" and s: "readable s m" and D: "dom m = D"
  shows "safe within W s m (decode_static_field set_defaults (PB_DECODERS env decode decode_noinit) env s wt iter m)"
proof -
  have cb: "is_callback s = Buf_read" using s by (simp add: readable_def)
  let ?func = "call_decoder (PB_DECODERS env decode decode_noinit (pf_ltype field))"
  have item: "safe_item ?func field A D" using decoder_safe ok by (auto simp: safe_item_def)
  have func: "safe within W s m (?func s field (it_pData iter) m')"
    if "pf_htype field \<noteq> PB_HTYPE_REPEATED" and c: "changes W m m'" for m'
  proof -
    have "safe shorter W s m' (?func s field (it_pData iter) m')"
      using safe_itemD [OF item readable_within [OF s within_refl [OF cb] c]]
        static_member [OF ok(1-3) that(1), of dest] W changes_dom [OF c] D iter(2) by auto
    from safe_later_within [OF safe_shorter_within [OF this] c within_refl [OF cb]] show ?thesis .
  qed
  have unf: "decode_static_field set_defaults (PB_DECODERS env decode decode_noinit) env s wt iter m =
    (if pf_htype field = PB_HTYPE_REQUIRED then ?func s field (it_pData iter) m
     else if pf_htype field = PB_HTYPE_OPTIONAL
     then do {
       m \<leftarrow> (if it_pSize iter \<noteq> it_pData iter then store_bool m (it_pSize iter) True else Some m);
       ?func s field (it_pData iter) m }
     else if pf_htype field = PB_HTYPE_REPEATED then
       (if wt = PB_WT_STRING \<and> pf_ltype field \<le> PB_LTYPE_LAST_PACKABLE
        then decode_packed env ?func s field iter m else decode_repeated ?func s field iter m)
     else if pf_htype field = PB_HTYPE_ONEOF then decode_oneof set_defaults env ?func s field iter m
     else Some (False, is_set_error ''invalid field type'' s, m))"
    using iter(1) ok(1) by (simp add: decode_static_field_def ok_static_def Let_def)
  consider "pf_htype field = PB_HTYPE_REQUIRED" | "pf_htype field = PB_HTYPE_OPTIONAL"
    | "pf_htype field = PB_HTYPE_REPEATED" | "pf_htype field = PB_HTYPE_ONEOF"
    | "pf_htype field \<notin> {PB_HTYPE_REQUIRED, PB_HTYPE_OPTIONAL, PB_HTYPE_REPEATED, PB_HTYPE_ONEOF}"
    by auto
  then show ?thesis
  proof cases
    case 1
    with func show ?thesis by (simp add: unf)
  next
    case 2
    have "\<exists>m'. (if it_pSize iter \<noteq> it_pData iter then store_bool m (it_pSize iter) True else Some m) = Some m' \<and>
        changes W m m'"
    proof (cases "z = d")
      case False
      then have "region (it_pSize iter) 1 \<subseteq> region dest sz"
        using ok(1) 2 iter by (intro region_sub) (auto simp: ok_static_def)
      then have "region (it_pSize iter) 1 \<subseteq> W \<inter> D" using W(1) by blast
      from writes_in [OF writes_store_bool this D] obtain m' where
        "store_bool m (it_pSize iter) True = Some m'" "changes W m m'" .
      with False iter show ?thesis by simp
    qed (simp add: iter)
    with 2 func show ?thesis by (auto simp: unf)
  next
    case 3
    have "array_in field (it_pData iter) (it_pSize iter) (W \<inter> (D - A))"
      using array_in_mono [OF static_array [OF ok(1-3) 3, of dest] W(1)] iter by simp
    with 3 decode_packed_safe [OF item _ W(2) s D] decode_repeated_safe [OF item _ W(2) s D]
    show ?thesis by (simp add: unf)
  next
    case 4
    have "region (it_pSize iter) 4 \<subseteq> region dest sz"
      using ok(1) 4 iter by (intro region_sub) (auto simp: ok_static_def)
    then have size: "region (it_pSize iter) 4 \<subseteq> W \<inter> D" using W(1) by blast
    have "member field (it_pData iter) \<subseteq> region dest sz"
      using static_member [OF ok(1-3), of dest] 4 iter(2) by simp
    then have data: "member field (it_pData iter) \<subseteq> W \<inter> (D - A)" using W(1) by (rule subset_trans)
    have "safe within W s m (decode_oneof set_defaults env ?func s field iter m)"
      by (rule decode_oneof_safe [OF item data size W(2) s D]) (use ok(1) in \<open>simp add: ok_static_def\<close>)
    with 4 show ?thesis by (simp add: unf)
  qed (use cb in \<open>simp add: unf safe_failed\<close>)
qed

end

section \<open>Callback fields\<close>

lemma loads_ptr: "region a 8 \<subseteq> dom m \<Longrightarrow> \<exists>p. load_ptr m a = Some p"
  using loads_word [of a 8 m] by (auto simp: load_ptr_def)

lemma raw_varint_loop_safe:
  assumes s: "readable s m" and D: "dom m = D" and W: "region buf (n - k) \<subseteq> W \<inter> D"
  shows "\<exists>ok sz s' m'. raw_varint_loop env buf n k s m = Some ((ok, sz), s', m') \<and>
    changes W m m' \<and> is_callback s' = Buf_read \<and> (ok \<longrightarrow> within s' s \<and> sz \<le> n)"
  using s D W
proof (induction "n - k" arbitrary: buf k s m)
  case 0
  then have "n < k + 1" by simp
  moreover have "is_callback s = Buf_read" using 0 by (simp add: readable_def)
  ultimately have "raw_varint_loop env buf n k s m = Some ((False, k + 1), s, m) \<and> changes W m m \<and>
      is_callback s = Buf_read \<and> (False \<longrightarrow> within s s \<and> k + 1 \<le> n)"
    by (simp add: raw_varint_loop.simps [of env buf n k s m])
  then show ?case by blast
next
  case (Suc j)
  note s = Suc.prems(1) and D = Suc.prems(2)
  from Suc.hyps(2) have k: "n - k = Suc j" "n - (k + 1) = j" "\<not> n < k + 1" by simp_all
  have W: "region buf 1 \<subseteq> W \<inter> D" "region (buf + 1) j \<subseteq> W \<inter> D" "buf \<in> D"
    using Suc.prems(3) unfolding k(1) by (auto simp: region_Suc)
  obtain ok s1 m1 where 1: "pb_read_to env s buf 1 m = Some (ok, s1, m1)" "changes W m m1"
      "is_callback s1 = Buf_read" "ok \<Longrightarrow> within s1 s"
    using read_to_safe [OF s, of buf 1 env] W(1) D changes_mono [of "region buf 1" m _ W]
    by (auto simp: allocated_def elim!: safeE)
  have "\<exists>b. m1 buf = Some b" using W(3) D changes_dom [OF 1(2)] by auto
  then obtain b where b: "m1 buf = Some b" by blast
  note unf = raw_varint_loop.simps [of env buf n k s m]
  show ?case
  proof (cases "ok \<and> b AND 0x80 \<noteq> 0")
    case False
    with 1 b k show ?thesis by (auto simp: unf Let_def)
  next
    case True
    obtain ok' sz s' m' where 2: "raw_varint_loop env (buf + 1) n (k + 1) s1 m1 = Some ((ok', sz), s', m')"
        "changes W m1 m'" "is_callback s' = Buf_read" "ok' \<longrightarrow> within s' s1 \<and> sz \<le> n"
      using Suc.hyps(1) [of "k + 1" s1 m1 "buf + 1"] readable_within [OF s 1(4) 1(2)] True
        changes_dom [OF 1(2)] D W(2) k(2) by auto
    have "raw_varint_loop env buf n k s m = Some ((ok', sz), s', m')"
      using True 1(1) b k(3) 2(1) by (simp add: unf Let_def)
    moreover have "changes W m m'" using changes_trans [OF 1(2) 2(2)] .
    moreover have "ok' \<longrightarrow> within s' s \<and> sz \<le> n" using within_trans [OF _ 1(4)] True 2(4) by blast
    ultimately show ?thesis using 2(3) by blast
  qed
qed

lemma read_raw_value_safe:
  assumes s: "readable s m" and D: "dom m = D" and W: "region buf 10 \<subseteq> W \<inter> D"
  shows "\<exists>ok sz s' m'. read_raw_value env s wt buf 10 m = Some ((ok, sz), s', m') \<and>
    changes W m m' \<and> is_callback s' = Buf_read \<and> (ok \<longrightarrow> within s' s \<and> sz \<le> 10)"
proof -
  have cb: "is_callback s = Buf_read" using s by (simp add: readable_def)
  have fixed: "\<exists>ok s' m'. pb_read_to env s buf n m = Some (ok, s', m') \<and> changes W m m' \<and>
      is_callback s' = Buf_read \<and> (ok \<longrightarrow> within s' s)" if "unat n \<le> 10" for n
  proof -
    have "region buf (unat n) \<subseteq> W \<inter> D" using W region_mono [OF that, of buf] by blast
    then show ?thesis
      using read_to_safe [OF s, of buf n env] D changes_mono [of "region buf (unat n)" m _ W]
      by (fastforce simp: allocated_def elim!: safeE)
  qed
  show ?thesis
    using raw_varint_loop_safe [OF s D, of buf 10 0 W env] W fixed [of 8] fixed [of 4] cb
    by (auto simp: read_raw_value_def)
qed


lemma callback_safe:
  assumes "callbacks_safe env A D" "f \<noteq> NULL" "readable s m" "dom m = D"
  obtains ok s' m' where "call_field_decoder env f s field arg m = Some (ok, s', m')"
    "changes A m m'" "is_callback s' = Buf_read" "ok \<Longrightarrow> within s' s"
    "ok \<Longrightarrow> is_bytes_left s \<noteq> 0 \<Longrightarrow> shorter s' s"
proof -
  have "safe (\<lambda>s' s. within s' s \<and> (is_bytes_left s \<noteq> 0 \<longrightarrow> shorter s' s)) A s m
      (field_decode_cb env f s field arg m)"
    using assms(1-4) by (simp add: callbacks_safe_def)
  then show thesis using that assms(2)
    by (auto simp: call_field_decoder_def safe_def)
qed

text \<open>The callback and its pointer are in different places.\<close>

lemma changes_load_ptr:
  "changes A m m' \<Longrightarrow> region a 8 \<inter> A = {} \<Longrightarrow> load_ptr m' a = load_ptr m a"
  unfolding load_ptr_def load_word_def changes_def
  by (subst load_bytes_cong [of a 8 m' m]) auto

lemma callback_loop_safe:
  assumes cbs: "callbacks_safe env A D" and f: "load_ptr m p = Some f" "f \<noteq> NULL"
    and p: "region p 8 \<inter> A = {}" and s: "readable s m" and D: "dom m = D"
  shows "safe within A s m (callback_loop env field p s m)"
  using f(1) s D
proof (induction "unat (is_bytes_left s)" arbitrary: s m rule: less_induct)
  case less
  note f1 = less.prems(1) and s = less.prems(2) and D = less.prems(3)
  obtain ok s1 m1 where 1: "call_field_decoder env f s field (p + callback_arg_offset) m = Some (ok, s1, m1)"
      "changes A m m1" "is_callback s1 = Buf_read" "ok \<Longrightarrow> within s1 s"
      "ok \<Longrightarrow> is_bytes_left s \<noteq> 0 \<Longrightarrow> shorter s1 s"
    using callback_safe [OF cbs f(2) s D] by metis
  note unf = callback_loop.simps [of env field p s m]
  show ?case
  proof (cases "ok \<and> is_bytes_left s1 \<noteq> 0")
    case False
    with f1 1 show ?thesis by (auto simp: unf intro: safeI [OF refl] safe_failed)
  next
    case True
    then have "is_bytes_left s \<noteq> 0" using 1(4) by (auto simp: within_def unat_eq_0)
    with True 1(5) have sh: "shorter s1 s" by simp
    have "safe within A s1 m1 (callback_loop env field p s1 m1)"
      using less.hyps [of s1 m1] sh readable_within [OF s shorter_within [OF sh] 1(2)]
        changes_load_ptr [OF 1(2) p] changes_dom [OF 1(2)] f1 D by (simp add: shorter_def)
    from safe_later_within [OF this 1(2) shorter_within [OF sh]] True f1 1(1)
    show ?thesis by (simp add: unf)
  qed
qed

lemma readable_buffer:
  assumes "region buf 10 \<subseteq> dom m" "sz \<le> 10"
  shows "readable (pb_istream_from_buffer buf (of_nat sz)) m"
proof -
  have "unat (of_nat sz :: size) = sz" using assms(2) by (simp add: unat_of_nat_le [of sz "10 :: size"])
  with assms region_mono [of sz 10 buf] show ?thesis
    by (auto simp: readable_def pb_istream_from_buffer_def allocated_def)
qed

lemma decode_callback_field_safe:
  assumes cbs: "callbacks_safe env A D" and iter: "it_field iter = Some field"
    and p: "region (it_pData iter) 8 \<subseteq> D - A" and s: "readable s m" and D: "dom m = D"
  shows "safe within A s m (decode_callback_field env s wt iter m)"
proof -
  have cb: "is_callback s = Buf_read" using s by (simp add: readable_def)
  have apart: "region (it_pData iter) 8 \<inter> A = {}" using p by blast
  have raw: "region (raw_buffer env) 10 \<subseteq> A \<inter> D" using cbs by (simp add: callbacks_safe_def)
  obtain f where f: "load_ptr m (it_pData iter) = Some f" using loads_ptr [of "it_pData iter" m] p D by blast
  consider "f = NULL" | "f \<noteq> NULL" "wt = PB_WT_STRING" | "f \<noteq> NULL" "wt \<noteq> PB_WT_STRING" by blast
  then show ?thesis
  proof cases
    case 1
    with iter f safe_mono [OF skip_field_safe [OF s]] show ?thesis by (simp add: decode_callback_field_def)
  next
    case 2
    obtain r s' where r: "pb_make_string_substream env s m = Some (r, s', m)" "is_callback s' = Buf_read"
      "\<And>sub. r = Some sub \<Longrightarrow> readable sub m \<and> (\<forall>sub' msg. is_end sub' = is_end sub \<longrightarrow>
          shorter (s'\<lparr>is_state := is_end sub', is_errmsg := msg\<rparr>) s)"
      using make_substream_safe [OF s, where env = env] by blast
    show ?thesis
    proof (cases r)
      case None
      with 2 iter f r(1,2) show ?thesis by (simp add: decode_callback_field_def safe_failed)
    next
      case (Some sub)
      obtain ok sub' m' where run: "callback_loop env field (it_pData iter) sub m = Some (ok, sub', m')"
          "changes A m m'" "is_callback sub' = Buf_read" "ok \<Longrightarrow> within sub' sub"
        using callback_loop_safe [OF cbs f 2(1) apart _ D] r(3) [OF Some] by (blast elim: safeE)
      show ?thesis
      proof (cases ok)
        case False
        with 2 iter f r(1,2) Some run show ?thesis by (simp add: decode_callback_field_def safe_failed)
      next
        case True
        have "decode_callback_field env s wt iter m =
            Some (True, s'\<lparr>is_state := is_end sub', is_errmsg := is_errmsg sub'\<rparr>, m')"
          using 2 iter f r(1) Some run(1) True close_substream_safe [OF run(3) r(2), of env m']
          by (simp add: decode_callback_field_def)
        then show ?thesis
          by (rule safeI)
            (use True run(2,4) r(2,3) Some in \<open>auto simp: shorter_def dest: within_same_end\<close>)
      qed
    qed
  next
    case 3
    obtain ok sz s1 m1 where 1: "read_raw_value env s wt (raw_buffer env) 10 m = Some ((ok, sz), s1, m1)"
        "changes A m m1" "is_callback s1 = Buf_read" "ok \<Longrightarrow> within s1 s \<and> sz \<le> 10"
      using read_raw_value_safe [OF s D raw] by blast
    show ?thesis
    proof (cases ok)
      case False
      with 3 iter f 1 show ?thesis by (simp add: decode_callback_field_def safe_failed)
    next
      case True
      have D1: "dom m1 = D" using changes_dom [OF 1(2)] D by simp
      have rd: "readable (pb_istream_from_buffer (raw_buffer env) (of_nat sz)) m1"
        using readable_buffer 1(4) True raw D1 by blast
      have f1: "load_ptr m1 (it_pData iter) = Some f" using f changes_load_ptr [OF 1(2) apart] by simp
      obtain ok2 s2 m2 where 2: "call_field_decoder env f (pb_istream_from_buffer (raw_buffer env) (of_nat sz))
          field (it_pData iter + callback_arg_offset) m1 = Some (ok2, s2, m2)" "changes A m1 m2"
        using callback_safe [OF cbs 3(1) rd D1] by metis
      have "decode_callback_field env s wt iter m = Some (ok2, s1, m2)"
        using 3 iter f f1 1(1) True 2(1) by (simp add: decode_callback_field_def Let_def)
      then show ?thesis
        by (rule safeI) (use 1(2-4) True 2(2) in \<open>auto intro: changes_trans\<close>)
    qed
  qed
qed

section \<open>All fields\<close>

context safe_messages
begin

lemma decode_field_safe:
  assumes ok: "ok_field fits env A D field d z sz"
    and iter: "it_field iter = Some field" "it_pData iter = dest + d" "it_pSize iter = dest + z"
    and W: "region dest sz \<subseteq> W \<inter> (D - A)" "A \<subseteq> W" and s: "readable s m" and D: "dom m = D"
  shows "safe within W s m (decode_field set_defaults (PB_DECODERS env decode decode_noinit) env s wt iter m)"
proof -
  have cb: "is_callback s = Buf_read" using s by (simp add: readable_def)
  consider "pf_atype field = PB_ATYPE_STATIC" | "pf_atype field = PB_ATYPE_CALLBACK"
    | "pf_atype field \<noteq> PB_ATYPE_STATIC" "pf_atype field \<noteq> PB_ATYPE_CALLBACK" by blast
  then show ?thesis
  proof cases
    case 1
    then show ?thesis
      using decode_static_field_safe [OF _ _ 1 _ iter W s D] ok iter(1)
      by (simp add: decode_field_def ok_field_def)
  next
    case 2
    have "region (it_pData iter) 8 \<subseteq> region dest sz"
      using ok 2 iter(2) by (intro region_sub) (auto simp: ok_field_def)
    then have "region (it_pData iter) 8 \<subseteq> D - A" using W(1) by blast
    from decode_callback_field_safe [OF _ iter(1) this s D, of env wt] ok 2
    have "safe within A s m (decode_callback_field env s wt iter m)" by (simp add: ok_field_def)
    from safe_mono [OF this W(2)] 2 iter(1) show ?thesis by (simp add: decode_field_def)
  next
    case 3
    with iter(1) cb show ?thesis by (simp add: decode_field_def decode_pointer_field_def safe_failed)
  qed
qed

end

end
