(* ===== verification/Pb_Safe_Message.thy ===== *)
theory Pb_Safe_Message
  imports Pb_Safe_Fields
begin

text \<open>
  Safety of whole messages: setting the defaults, the loop of \<open>pb_decode_noinit\<close>, the check
  for required fields, and \<open>pb_decode\<close>, by induction on the nesting of submessages.  The
  contract \<open>safe_messages\<close> is interpreted for \<open>pb_decode\<close> at every depth.
\<close>

section \<open>Default values\<close>

lemma fields_loop_safe:
  assumes wf: "wf_fields flds"
    and body: "\<And>i m. i < field_count flds \<Longrightarrow> dom m = D \<Longrightarrow>
      \<exists>m'. body (iter_at flds dest i) m = Some m' \<and> changes W m m'"
    and j: "j < field_count flds" and D: "dom m = D"
  shows "\<exists>m'. fields_loop body (iter_at flds dest j) m = Some m' \<and> changes W m m'"
  using j D
proof (induction "field_count flds - j" arbitrary: j m rule: less_induct)
  case less
  obtain m1 where m1: "body (iter_at flds dest j) m = Some m1" "changes W m m1"
    using body less.prems by blast
  note unf = fields_loop.simps [of body "iter_at flds dest j" m]
  show ?case
  proof (cases "Suc j < field_count flds")
    case False
    with m1 iter_next [OF wf less.prems(1), of dest] show ?thesis by (simp add: unf)
  next
    case True
    obtain m2 where m2: "fields_loop body (iter_at flds dest (Suc j)) m1 = Some m2" "changes W m1 m2"
      using less.hyps [OF _ True, of m1] changes_dom [OF m1(2)] less.prems by fastforce
    with True m1 iter_next [OF wf less.prems(1), of dest] changes_trans [OF m1(2) m2(2)]
    show ?thesis by (simp add: unf)
  qed
qed

lemma message_defaults_safe:
  assumes wf: "wf_fields flds"
    and body: "\<And>i m. i < field_count flds \<Longrightarrow> dom m = D \<Longrightarrow>
      \<exists>m'. body (iter_at flds dest i) m = Some m' \<and> changes W m m'"
    and D: "dom m = D"
  shows "\<exists>m'. message_defaults_with body flds dest m = Some m' \<and> changes W m m'"
proof (cases "0 < field_count flds")
  case True
  from fields_loop_safe [where W = W and D = D and flds = flds and body = body and dest = dest, OF wf body this D] True
  show ?thesis by (simp add: message_defaults_with_def iter_begin_wf [OF wf])
qed (simp add: message_defaults_with_def iter_begin_wf [OF wf])

text \<open>A write to a part of the structure.\<close>

lemma writes_part:
  assumes "writes m a n r" "region a n \<subseteq> V" "V \<subseteq> D" "dom m = D"
  shows "\<exists>m'. r = Some m' \<and> changes V m m'"
proof -
  have "region a n \<subseteq> V \<inter> D" using assms(2,3) by simp
  from writes_in [OF assms(1) this assms(4)] show ?thesis by blast
qed

lemma copies_default:
  assumes "region src n \<subseteq> D" "region a n \<subseteq> D" "dom m = D"
  shows "\<exists>m'. memcpy m a src n = Some m' \<and> changes (region a n) m m'"
proof -
  from assms(1,3) obtain bs where bs: "load_bytes m src n = Some bs"
    by (meson load_bytes_defined allocated_def)
  then have "length bs = n" by (rule load_bytes_length)
  with bs changes_writes [OF writes_store_bytes [of m a bs]] assms(2,3)
  show ?thesis by (simp add: memcpy_def allocated_def)
qed

lemma static_default_safe:
  assumes ok: "ok_static sub env D field d z sz" "0 \<le> d" "pf_atype field = PB_ATYPE_STATIC"
    and iter: "it_pData iter = dest + d" "it_pSize iter = dest + z"
    and R: "region dest sz \<subseteq> D" and D: "dom m = D"
    and sub: "\<And>m a. sub (fields_at env (pf_ptr field)) (unat (pf_data_size field)) \<Longrightarrow> dom m = D \<Longrightarrow>
      member field a \<subseteq> D \<Longrightarrow>
      \<exists>m'. defaults (fields_at env (pf_ptr field)) a m = Some m' \<and> changes (member field a) m m'"
  shows "\<exists>m'. static_field_default defaults env field iter m = Some m' \<and> changes (region dest sz) m m'"
proof -
  let ?init = "\<lambda>m. if pf_ltype field = PB_LTYPE_SUBMESSAGE
      then defaults (fields_at env (pf_ptr field)) (it_pData iter) m
      else if pf_ptr field \<noteq> NULL
      then memcpy m (it_pData iter) (pf_ptr field) (unat (pf_data_size field))
      else memset m (it_pData iter) 0 (unat (pf_data_size field))"
  have init: "\<exists>m'. ?init m1 = Some m' \<and> changes (region dest sz) m m'"
    if c: "changes (region dest sz) m m1" and h: "pf_htype field \<noteq> PB_HTYPE_REPEATED" for m1
  proof -
    have D1: "dom m1 = D" using changes_dom [OF c] D by simp
    have mem: "member field (it_pData iter) \<subseteq> region dest sz"
      using static_member [OF ok h, of dest] iter by simp
    with R have memD: "member field (it_pData iter) \<subseteq> D" by blast
    have "\<exists>m'. ?init m1 = Some m' \<and> changes (member field (it_pData iter)) m1 m'"
      using sub [OF _ D1 memD] copies_default [OF _ memD D1, of "pf_ptr field"] ok(1)
        changes_writes [OF writes_memset, of m1 "it_pData iter" "unat (pf_data_size field)" 0] memD D1
      by (auto simp: ok_static_def allocated_def)
    then show ?thesis using changes_mono [OF _ mem] changes_trans [OF c] by blast
  qed
  consider "pf_htype field = PB_HTYPE_OPTIONAL" "z \<noteq> d"
    | "pf_htype field = PB_HTYPE_REPEATED \<or> pf_htype field = PB_HTYPE_ONEOF"
    | "pf_htype field \<notin> {PB_HTYPE_REPEATED, PB_HTYPE_ONEOF}" "\<not> (pf_htype field = PB_HTYPE_OPTIONAL \<and> z \<noteq> d)"
    by blast
  then show ?thesis
  proof cases
    case 1
    then have "region (it_pSize iter) 1 \<subseteq> region dest sz"
      using ok(1) iter by (intro region_sub) (auto simp: ok_static_def)
    from writes_part [OF writes_store_bool this R D] obtain m1 where
      "store_bool m (it_pSize iter) False = Some m1" "changes (region dest sz) m m1" by blast
    with init [of m1] 1 iter show ?thesis by (simp add: static_field_default_def)
  next
    case 2
    then have "region (it_pSize iter) 4 \<subseteq> region dest sz"
      using ok(1) iter by (intro region_sub) (auto simp: ok_static_def)
    from writes_part [OF writes_store_word this R D, of "0 :: u32"] obtain m1 where
      "store_word m (it_pSize iter) 4 (0 :: u32) = Some m1" "changes (region dest sz) m m1" by blast
    with 2 show ?thesis by (auto simp: static_field_default_def)
  next
    case 3
    then have "static_field_default defaults env field iter m = ?init m"
      using iter by (auto simp: static_field_default_def)
    with init [OF changes_refl] 3 show ?thesis by simp
  qed
qed

lemma pointer_default_safe:
  assumes "d + 8 \<le> int sz" "0 \<le> d"
    and z: "pf_htype field = PB_HTYPE_REPEATED \<or> pf_htype field = PB_HTYPE_ONEOF \<Longrightarrow> 0 \<le> z \<and> z + 4 \<le> int sz"
    and iter: "it_pData iter = dest + d" "it_pSize iter = dest + z"
    and R: "region dest sz \<subseteq> D" and D: "dom m = D"
  shows "\<exists>m'. pointer_field_default field iter m = Some m' \<and> changes (region dest sz) m m'"
proof -
  have "region (it_pData iter) 8 \<subseteq> region dest sz" using assms(1,2) iter by (intro region_sub) auto
  from writes_part [OF writes_store_ptr this R D] obtain m1 where
    m1: "store_ptr m (it_pData iter) NULL = Some m1" "changes (region dest sz) m m1" by blast
  show ?thesis
  proof (cases "pf_htype field = PB_HTYPE_REPEATED \<or> pf_htype field = PB_HTYPE_ONEOF")
    case False
    with m1 show ?thesis by (auto simp: pointer_field_default_def)
  next
    case True
    then have "region (it_pSize iter) 4 \<subseteq> region dest sz" using z iter by (intro region_sub) auto
    from writes_part [OF writes_store_word this R, of m1 "0 :: u32"] changes_dom [OF m1(2)] D
    obtain m2 where "store_word m1 (it_pSize iter) 4 (0 :: u32) = Some m2" "changes (region dest sz) m1 m2"
      by auto
    with True m1 changes_trans [OF m1(2)] show ?thesis by (auto simp: pointer_field_default_def)
  qed
qed

lemma set_to_defaults_safe:
  assumes "ok_message n env A D flds sz" "n \<le> depth" "dom m = D" "region dest sz \<subseteq> D"
  shows "\<exists>m'. pb_message_set_to_defaults depth env flds dest m = Some m' \<and> changes (region dest sz) m m'"
  using assms
proof (induction n arbitrary: depth flds sz m dest)
  case (Suc n)
  from Suc.prems(2) obtain d where depth: "depth = Suc d" "n \<le> d" by (cases depth) auto
  have wf: "wf_fields flds" using Suc.prems(1) by simp
  have "\<exists>m'. pb_field_set_to_default depth env (iter_at flds dest i) m = Some m' \<and> changes (region dest sz) m m'"
    if i: "i < field_count flds" and D: "dom m = D" for i m
  proof -
    let ?f = "flds ! i"
    have ok: "ok_field (ok_message n env A D) env A D ?f (data_at flds 0 i) (size_at flds 0 i) sz"
      using Suc.prems(1) i by simp
    have pos: "it_pData (iter_at flds dest i) = dest + data_at flds 0 i"
        "it_pSize (iter_at flds dest i) = dest + size_at flds 0 i"
      using data_at_shift [of flds dest i] size_at_shift [of flds dest i] by simp_all
    have at: "it_field (iter_at flds dest i) = Some ?f" using i by simp
    note sub = Suc.IH [OF _ depth(2), unfolded pb_message_set_to_defaults_def]
    note static = static_default_safe [OF _ _ _ pos Suc.prems(4) D sub]
    note pointer = pointer_default_safe [OF _ _ _ pos Suc.prems(4) D]
    have step: "pb_field_set_to_default depth env (iter_at flds dest i) m =
        (if pf_atype ?f = PB_ATYPE_STATIC
         then static_field_default (message_defaults_with (pb_field_set_to_default d env)) env ?f
           (iter_at flds dest i) m
         else if pf_atype ?f = PB_ATYPE_POINTER then pointer_field_default ?f (iter_at flds dest i) m
         else Some m)"
      using at ok by (simp add: depth(1) ok_field_def)
    consider "pf_atype ?f = PB_ATYPE_STATIC" | "pf_atype ?f = PB_ATYPE_POINTER"
      | "pf_atype ?f \<noteq> PB_ATYPE_STATIC" "pf_atype ?f \<noteq> PB_ATYPE_POINTER" by blast
    then show ?thesis
    proof cases
      case 1
      show ?thesis
        unfolding step if_P [OF 1]
        by (rule static) (use ok 1 in \<open>simp_all only: ok_field_def simp_thms\<close>)
    next
      case 2
      then have static: "pf_atype ?f \<noteq> PB_ATYPE_STATIC" by simp
      show ?thesis
        unfolding step if_not_P [OF static] if_P [OF 2]
        by (rule pointer) (use ok 2 in \<open>simp_all only: ok_field_def simp_thms\<close>)
    qed (simp add: step)
  qed
  from message_defaults_safe [where W = "region dest sz" and D = D and flds = flds
      and body = "pb_field_set_to_default depth env", OF wf this Suc.prems(3)] show ?case
    by (simp add: pb_message_set_to_defaults_def)
qed simp

section \<open>Searching, on empty messages too\<close>

definition visits :: "pb_field list \<Rightarrow> nat \<Rightarrow> bool" where
  "visits flds j \<longleftrightarrow> j < field_count flds \<or> (j = 0 \<and> field_count flds = 0)"

lemma visits_field: "wf_fields flds \<Longrightarrow> visits flds j \<Longrightarrow> it_field (iter_at flds dest j) = Some (flds ! j)"
  using wf_fields_pos [of flds] by (auto simp: visits_def)

lemma find_visits:
  assumes wf: "wf_fields flds" and i: "visits flds i"
  obtains j where "visits flds j" "P (flds ! j)"
      "iter_find_loop P i (iter_at flds dest i) = Some (True, iter_at flds dest j)"
  | "\<not> P (flds ! i)" "iter_find_loop P i (iter_at flds dest i) = Some (False, iter_at flds dest i)"
proof (cases "i < field_count flds")
  case True
  then show ?thesis
    using iter_find_loop_start [OF wf True, where P = P and dest = dest] that
    by (auto simp: visits_def)
next
  case False
  then have "i = 0" "field_count flds = 0" using i by (auto simp: visits_def)
  then show ?thesis
    using that visits_field [OF wf i, of dest] iter_next_empty [OF wf, of dest] i
    by (cases "P (flds ! 0)") (auto simp: iter_find_loop.simps [of P 0])
qed

section \<open>Required fields\<close>

lemma seek_end_at:
  assumes "wf_fields flds" "j < field_count flds"
  shows "seek_end (iter_at flds dest j) =
    Some (required_before flds (field_count flds - 1), pf_type (flds ! (field_count flds - 1)), iter_at flds dest 0)"
  using assms(2)
proof (induction "field_count flds - j" arbitrary: j rule: less_induct)
  case less
  note unf = seek_end.simps [of "iter_at flds dest j"]
  show ?case
  proof (cases "Suc j < field_count flds")
    case False
    then have e: "field_count flds - 1 = j" using less.prems by simp
    show ?thesis
      unfolding e using False less.prems iter_next [OF assms(1) less.prems, of dest] by (simp add: unf Let_def)
  next
    case True
    have "field_count flds - Suc j < field_count flds - j" using less.prems by arith
    from less.hyps [OF this True] True less.prems iter_next [OF assms(1) less.prems, of dest] show ?thesis
      by (simp add: unf Let_def)
  qed
qed

text \<open>The check compares the seen fields with the number of required fields of the message.\<close>

lemma check_required_at:
  assumes wf: "wf_fields flds" and j: "visits flds j"
  shows "check_required seen (iter_at flds dest j) s m = do {
     ok \<leftarrow> required_fields_seen seen (required_count flds);
     if ok then Some (True, s, m)
     else Some (False, is_set_error ''missing required field'' s, m) }"
proof (cases "field_count flds = 0")
  case True
  then have "j = 0" using j by (simp add: visits_def)
  moreover have "length flds = 1" using True wf_fields_pos(2) [OF wf] by arith
  moreover have "pf_tag (flds ! 0) = 0" using wf_fields_tag [OF wf, of 0] calculation by simp
  moreover have "required_count flds = 0" "required_before flds 0 = 0"
    using True by (simp_all add: required_count_def required_before_def)
  ultimately show ?thesis
    using iter_next_empty [OF wf True, of dest]
    by (simp add: check_required_def seek_end.simps [of "iter_at flds dest 0"] Let_def)
next
  case False
  then have j: "j < field_count flds" and n: "0 < field_count flds" using j by (auto simp: visits_def)
  have "pf_tag (flds ! 0) \<noteq> 0" using wf_fields_tag [OF wf wf_fields_pos(2) [OF wf]] n by simp
  moreover have "required_count flds = required_before flds (field_count flds - 1) +
      (if pf_htype (flds ! (field_count flds - 1)) = PB_HTYPE_REQUIRED then 1 else 0)"
    using required_before_Suc [of "field_count flds - 1" flds] n
    by (simp add: required_count_def Suc_diff_Suc numeral_2_eq_2)
  ultimately show ?thesis
    using seek_end_at [OF wf j, of dest] n wf_fields_pos(1) [OF wf]
    by (simp add: check_required_def Let_def)
qed

lemma required_fields_seen_defined:
  assumes n: "required_checkable n" and l: "length seen = 2"
  shows "\<exists>b. required_fields_seen seen n = Some b"
proof (cases "n = 0")
  case False
  with n have n: "n mod 32 \<noteq> 0" "n div 32 < 2" by (auto simp: required_checkable_def c_defs)
  have whole: "length ws = 2 \<Longrightarrow> k \<le> 2 \<Longrightarrow> \<exists>b. whole_words_seen ws k i = Some b" for ws k i
    by (induction ws k i rule: whole_words_seen.induct)
      (auto simp: whole_words_seen.simps seen_word_def)
  obtain b where "whole_words_seen seen (n div 32) 0 = Some b"
    using whole [OF l, of "n div 32" 0] n(2) by auto
  with n l False show ?thesis
    by (cases b) (auto simp: required_fields_seen_def seen_word_def shift_right_def intro: exI [of _ False])
qed (auto simp: required_fields_seen_def intro: exI [of _ True])

section \<open>The loop over the input\<close>

text \<open>The contract of the field decoder handed to the loop.\<close>

definition safe_fields ::
  "(pb_istream \<Rightarrow> pb_wire_type_t \<Rightarrow> pb_field_iter \<Rightarrow> mem \<Rightarrow> bool read_result) \<Rightarrow> pb_field list \<Rightarrow> addr \<Rightarrow>
   addr set \<Rightarrow> addr set \<Rightarrow> bool" where
  "safe_fields decode_fld flds dest W D \<longleftrightarrow> wf_fields flds \<and>
     (\<forall>j. visits flds j \<longrightarrow> pf_ltype (flds ! j) \<noteq> PB_LTYPE_EXTENSION) \<and>
     (\<forall>j s wt m. visits flds j \<longrightarrow> readable s m \<longrightarrow> dom m = D \<longrightarrow>
        safe within W s m (decode_fld s wt (iter_at flds dest j) m))"

definition loop_state :: "pb_field list \<Rightarrow> addr \<Rightarrow> decode_state \<Rightarrow> bool" where
  "loop_state flds dest st \<longleftrightarrow> length (ds_seen st) = 2 \<and>
     (\<exists>j. visits flds j \<and> ds_iter st = iter_at flds dest j)"

text \<open>What a step, or the whole loop, does.\<close>

definition safe_step ::
  "(pb_istream \<Rightarrow> pb_istream \<Rightarrow> bool) \<Rightarrow> pb_field list \<Rightarrow> addr \<Rightarrow> addr set \<Rightarrow> decode_state \<Rightarrow> mem \<Rightarrow> step_result \<Rightarrow> bool" where
  "safe_step rel flds dest W st m r \<longleftrightarrow> (\<exists>e st' m'. r = Some (e, st', m') \<and> changes W m m' \<and>
     loop_state flds dest st' \<and> is_callback (ds_stream st') = Buf_read \<and> e \<noteq> Return True \<and>
     (e = Break \<longrightarrow> within (ds_stream st') (ds_stream st)) \<and>
     (e = Continue \<longrightarrow> rel (ds_stream st') (ds_stream st)))"

lemma safe_step_stream:
  assumes "safe within W s1 m r" "shorter s1 (ds_stream st)" "loop_state flds dest st'"
  shows "safe_step shorter flds dest W st m (do {
    (ok, stream, m) \<leftarrow> r; Some (return_unless ok, st'\<lparr>ds_stream := stream\<rparr>, m) })"
proof -
  obtain ok s2 m' where r: "r = Some (ok, s2, m')" "changes W m m'" "is_callback s2 = Buf_read"
      "ok \<Longrightarrow> within s2 s1" using assms(1) by (rule safeE) blast
  have "loop_state flds dest (st'\<lparr>ds_stream := s2\<rparr>)" using assms(3) by (simp add: loop_state_def)
  with r assms(2) show ?thesis
    by (cases ok) (auto simp: safe_step_def return_unless_def intro: shorter_trans)
qed

lemma decode_unknown_safe:
  assumes flds: "safe_fields decode_fld flds dest W D" and st: "loop_state flds dest st'"
    and s: "readable (ds_stream st') m" "shorter (ds_stream st') (ds_stream st)"
    and tag: "tag < - 1"
  shows "safe_step shorter flds dest W st m (decode_unknown decode_fld env tag wt st' m)"
proof -
  have wf: "wf_fields flds" using flds by (simp add: safe_fields_def)
  have skip: "safe_step shorter flds dest W st m (do {
      (ok, stream, m) \<leftarrow> pb_skip_field env (ds_stream st') wt m;
      Some (return_unless ok, st2\<lparr>ds_stream := stream\<rparr>, m) })" if "loop_state flds dest st2" for st2
    using safe_step_stream [OF safe_mono [OF skip_field_safe [OF s(1)]] s(2) that] by simp
  show ?thesis
  proof (cases "tag \<ge> ds_ext_start st'")
    case False
    with skip [OF st] show ?thesis by (simp add: decode_unknown_def)
  next
    case True
    obtain j where j: "visits flds j" "ds_iter st' = iter_at flds dest j" using st by (auto simp: loop_state_def)
    have "find_extension_field (ds_iter st') = Some (False, iter_at flds dest j)"
      using find_visits [OF wf j(1), of is_extension_field dest] flds
      by (auto simp: find_extension_field_def j(2) safe_fields_def is_extension_field_def)
    moreover have "loop_state flds dest (st'\<lparr>ds_iter := iter_at flds dest j, ds_ext_start := - 1\<rparr>)"
      using st j by (auto simp: loop_state_def)
    moreover have "\<not> - 1 \<le> tag" using tag by simp
    ultimately show ?thesis using True skip by (simp add: decode_unknown_def Let_def)
  qed
qed

lemma decode_known_safe:
  assumes flds: "safe_fields decode_fld flds dest W D" and st: "loop_state flds dest st'" and D: "dom m = D"
    and s: "readable (ds_stream st') m" "shorter (ds_stream st') (ds_stream st)"
  shows "safe_step shorter flds dest W st m (decode_known decode_fld wt st' m)"
proof -
  obtain j where j: "visits flds j" "ds_iter st' = iter_at flds dest j" using st by (auto simp: loop_state_def)
  have wf: "wf_fields flds" using flds by (simp add: safe_fields_def)
  let ?st = "if pf_htype (flds ! j) = PB_HTYPE_REQUIRED \<and> required_before flds j < PB_MAX_REQUIRED_FIELDS
    then st'\<lparr>ds_seen := mark_seen (ds_seen st') (required_before flds j)\<rparr> else st'"
  have run: "safe within W (ds_stream st') m (decode_fld (ds_stream st') wt (iter_at flds dest j) m)"
    using flds j(1) s(1) D by (simp add: safe_fields_def)
  have "loop_state flds dest ?st" using st by (auto simp: loop_state_def mark_seen_def)
  from safe_step_stream [OF run s(2) this] visits_field [OF wf j(1), of dest] show ?thesis
    by (cases "pf_htype (flds ! j) = PB_HTYPE_REQUIRED \<and> required_before flds j < PB_MAX_REQUIRED_FIELDS")
      (auto simp: decode_known_def j(2) Let_def)
qed

lemma decode_tag_safe:
  assumes "readable s m"
  obtains r s' where "pb_decode_tag env s m = Some (r, s', m)" "within s' s"
    "tr_ok r \<Longrightarrow> shorter s' s \<and> tr_tag r < - 1"
proof -
  obtain v s' where v: "pb_decode_varint32 env s m = Some (v, s', m)" "within s' s"
      "\<And>w. v = Some w \<Longrightarrow> shorter s' s" using decode_varint32_safe [OF assms, where env = env] by blast
  have "drop_bit 3 w < - 1" for w :: u32
  proof -
    have "unat w < 2 ^ LENGTH(32)" by (rule unsigned_less)
    then have "unat w div 8 < 2 ^ 32 - 1" by simp
    then show ?thesis 
      by (simp add: word_less_nat_alt unat_drop_bit_div unsigned_minus_1_eq_mask mask_eq_exp_minus_1)
  qed
  with v that show thesis by (cases v; cases "v = Some 0") (auto simp: pb_decode_tag_def)
qed

lemma decode_step_safe:
  assumes flds: "safe_fields decode_fld flds dest W D" and st: "loop_state flds dest st"
    and s: "readable (ds_stream st) m" and D: "dom m = D"
  shows "safe_step shorter flds dest W st m (decode_step decode_fld env st m)"
proof -
  have wf: "wf_fields flds" using flds by (simp add: safe_fields_def)
  obtain r s' where r: "pb_decode_tag env (ds_stream st) m = Some (r, s', m)" "within s' (ds_stream st)"
      "tr_ok r \<Longrightarrow> shorter s' (ds_stream st) \<and> tr_tag r < - 1"
    using decode_tag_safe [OF s, where env = env] by blast
  obtain i where i: "visits flds i" "ds_iter st = iter_at flds dest i" using st by (auto simp: loop_state_def)
  show ?thesis
  proof (cases "tr_ok r")
    case False
    with r(1,2) st show ?thesis
      by (simp add: decode_step_def Let_def safe_step_def loop_state_def within_def)
  next
    case True
    have s': "readable s' m" using readable_within [OF s r(2) changes_refl] .
    have st': "loop_state flds dest (st\<lparr>ds_stream := s', ds_iter := iter_at flds dest j\<rparr>)" if "visits flds j" for j
      using st that by (auto simp: loop_state_def)
    have known: "safe_step shorter flds dest W st m
        (decode_known decode_fld wt (st\<lparr>ds_stream := s', ds_iter := iter_at flds dest j\<rparr>) m)"
      if "visits flds j" for j wt
      using decode_known_safe [OF flds st' [OF that] D, of st wt] s' r(3) True by simp
    have unknown: "safe_step shorter flds dest W st m
        (decode_unknown decode_fld env (tr_tag r) wt (st\<lparr>ds_stream := s', ds_iter := iter_at flds dest j\<rparr>) m)"
      if "visits flds j" for j wt
      using decode_unknown_safe [OF flds st' [OF that], of m st "tr_tag r" env wt] s' r(3) True by simp
    from find_visits [OF wf i(1), of "is_field_with_tag (tr_tag r)" dest] show ?thesis
      by cases (use True r(1) known unknown i in \<open>auto simp: decode_step_def pb_field_iter_find_def Let_def\<close>)
  qed
qed

lemma decode_loop_safe:
  assumes flds: "safe_fields decode_fld flds dest W D" and st: "loop_state flds dest st"
    and s: "readable (ds_stream st) m" and D: "dom m = D"
  shows "safe_step (\<lambda>_ _. False) flds dest W st m (decode_loop decode_fld env st m)"
  using st s D
proof (induction "unat (is_bytes_left (ds_stream st))" arbitrary: st m rule: less_induct)
  case less
  note unf = decode_loop.simps [of decode_fld env st m]
  show ?case
  proof (cases "is_bytes_left (ds_stream st) = 0")
    case True
    with less.prems show ?thesis by (simp add: unf safe_step_def readable_def within_refl)
  next
    case False
    obtain e st1 m1 where 1: "decode_step decode_fld env st m = Some (e, st1, m1)" "changes W m m1"
        "loop_state flds dest st1" "is_callback (ds_stream st1) = Buf_read" "e \<noteq> Return True"
        "e = Break \<longrightarrow> within (ds_stream st1) (ds_stream st)"
        "e = Continue \<longrightarrow> shorter (ds_stream st1) (ds_stream st)"
      using decode_step_safe [OF flds less.prems, of env] by (auto simp: safe_step_def)
    show ?thesis
    proof (cases "e = Continue")
      case False
      with 1 \<open>is_bytes_left (ds_stream st) \<noteq> 0\<close> show ?thesis
        by (cases e) (auto simp: unf safe_step_def)
    next
      case True
      with 1(7) have sh: "shorter (ds_stream st1) (ds_stream st)" by simp
      have "safe_step (\<lambda>_ _. False) flds dest W st1 m1 (decode_loop decode_fld env st1 m1)"
        using less.hyps [OF _ 1(3)] sh readable_within [OF less.prems(2) shorter_within [OF sh] 1(2)]
          changes_dom [OF 1(2)] less.prems(3) by (simp add: shorter_def)
      then obtain e2 st2 m2 where 2: "decode_loop decode_fld env st1 m1 = Some (e2, st2, m2)" "changes W m1 m2"
        "loop_state flds dest st2" "is_callback (ds_stream st2) = Buf_read" "e2 \<noteq> Return True"
        "e2 = Break \<longrightarrow> within (ds_stream st2) (ds_stream st1)" "e2 \<noteq> Continue"
        by (auto simp: safe_step_def)
      have "decode_loop decode_fld env st m = Some (e2, st2, m2)"
        using False True 1(1) 2(1) by (simp add: unf)
      moreover have "changes W m m2" using changes_trans [OF 1(2) 2(2)] .
      moreover have "e2 = Break \<longrightarrow> within (ds_stream st2) (ds_stream st)"
        using 2(6) within_trans [OF _ shorter_within [OF sh]] by blast
      ultimately show ?thesis using 2(3-5,7) by (auto simp: safe_step_def)
    qed
  qed
qed

lemma decode_fields_safe:
  assumes flds: "safe_fields decode_fld flds dest W D" and s: "readable s m" and D: "dom m = D"
    and req: "required_checkable (required_count flds)"
  shows "safe within W s m (decode_fields decode_fld env s flds dest m)"
proof -
  have wf: "wf_fields flds" using flds by (simp add: safe_fields_def)
  let ?st = "\<lparr>ds_stream = s, ds_iter = iter_at flds dest 0, ds_seen = [0, 0], ds_ext_start = 0\<rparr>"
  have "visits flds 0" by (auto simp: visits_def)
  then have st: "loop_state flds dest ?st" by (auto simp: loop_state_def)
  obtain e st1 m1 where 1: "decode_loop decode_fld env ?st m = Some (e, st1, m1)" "changes W m m1"
      "loop_state flds dest st1" "is_callback (ds_stream st1) = Buf_read" "e \<noteq> Return True" "e \<noteq> Continue"
      "e = Break \<longrightarrow> within (ds_stream st1) s"
    using decode_loop_safe [OF flds st _ D, of env] s by (auto simp: safe_step_def)
  have unf: "decode_fields decode_fld env s flds dest m =
    (case e of Return ok \<Rightarrow> Some (ok, ds_stream st1, m1)
     | _ \<Rightarrow> check_required (ds_seen st1) (ds_iter st1) (ds_stream st1) m1)"
    using 1(1) by (simp add: decode_fields_def iter_begin_wf [OF wf])
  show ?thesis
  proof (cases "e = Break")
    case False
    then have "e = Return False" using 1(5,6) by (cases e) auto
    with 1(2,4) show ?thesis by (simp add: unf safe_failed)
  next
    case True
    obtain j where j: "visits flds j" "ds_iter st1 = iter_at flds dest j" "length (ds_seen st1) = 2"
      using 1(3) by (auto simp: loop_state_def)
    obtain b where "required_fields_seen (ds_seen st1) (required_count flds) = Some b"
      using required_fields_seen_defined [OF req j(3)] by blast
    with True 1(2,4,7) show ?thesis
      by (cases b) (auto simp: unf j(2) check_required_at [OF wf j(1)] intro!: safe_failed intro: safeI [OF refl])
  qed
qed

section \<open>Messages of every depth\<close>

lemma last_field_ok: "ok_field sub env A D PB_LAST_FIELD 0 0 sz"
  by (simp add: ok_field_def ok_static_def PB_LAST_FIELD_def field_extent_def c_defs PB_LTYPE_def
      PB_ATYPE_def PB_HTYPE_def)

text \<open>A terminator is visited only if it stands alone, at offset 0.\<close>

lemma visited_ok:
  assumes ok: "ok_message (Suc n) env A D flds sz" and j: "visits flds j"
  shows "ok_field (ok_message n env A D) env A D (flds ! j) (data_at flds 0 j) (size_at flds 0 j) sz"
proof (cases "j < field_count flds")
  case False
  then have "j = 0" "field_count flds = 0" using j by (auto simp: visits_def)
  moreover have "flds \<noteq> []" "last flds = PB_LAST_FIELD" using ok by (auto simp: wf_fields_def)
  ultimately have "flds ! j = PB_LAST_FIELD" by (simp add: last_conv_nth)
  with \<open>j = 0\<close> last_field_ok show ?thesis by (simp add: PB_LAST_FIELD_def)
qed (use ok in simp)

context safe_messages
begin

lemma message_fields_safe:
  assumes ok: "ok_message (Suc n) env A D flds sz" and fits: "fits = ok_message n env A D"
    and R: "region dest sz \<subseteq> D - A"
  shows "safe_fields (decode_field set_defaults (PB_DECODERS env decode decode_noinit) env) flds dest
    (region dest sz \<union> A) D"
  unfolding safe_fields_def
proof (intro conjI allI impI)
  show wf: "wf_fields flds" using ok by simp
  fix j assume j: "visits flds j"
  note okj = visited_ok [OF ok j]
  then show "pf_ltype (flds ! j) \<noteq> PB_LTYPE_EXTENSION" by (simp add: ok_field_def)
  fix s wt m assume s: "readable s m" "dom m = D"
  have pos: "it_pData (iter_at flds dest j) = dest + data_at flds 0 j"
      "it_pSize (iter_at flds dest j) = dest + size_at flds 0 j"
    using data_at_shift [of flds dest j] size_at_shift [of flds dest j] by simp_all
  show "safe within (region dest sz \<union> A) s m (decode_field set_defaults
      (PB_DECODERS env decode decode_noinit) env s wt (iter_at flds dest j) m)"
    by (rule decode_field_safe [OF _ visits_field [OF wf j] pos]) (use okj R s fits in auto)
qed

end

lemma defaults_then_safe:
  assumes defaults: "\<exists>m'. set_defaults flds dest m = Some m' \<and> changes (region dest sz) m m'"
    and run: "\<And>m'. changes (region dest sz) m m' \<Longrightarrow>
      safe within (region dest sz \<union> A) s m' (decode_noinit s flds dest m')"
    and s: "readable s m"
  shows "safe within (region dest sz \<union> A) s m (decode_with set_defaults decode_noinit s flds dest m)"
proof -
  obtain m' where m': "set_defaults flds dest m = Some m'" "changes (region dest sz) m m'"
    using defaults by blast
  have "is_callback s = Buf_read" using s by (simp add: readable_def)
  from safe_later_within [OF run [OF m'(2)] changes_mono [OF m'(2)] within_refl [OF this]] m'(1)
  show ?thesis by (simp add: decode_with_def)
qed

lemma safe_messages_at:
  "n \<le> depth \<Longrightarrow> safe_messages (pb_message_set_to_defaults depth env) (pb_decode depth env)
     (pb_decode_noinit depth env) (ok_message n env A D) A D"
proof (induction n arbitrary: depth)
  case 0
  show ?case by unfold_locales simp_all
next
  case (Suc n)
  then obtain d where depth: "depth = Suc d" "n \<le> d" by (cases depth) auto
  have noinit: "safe within (region dest sz \<union> A) s m (pb_decode_noinit depth env s flds dest m)"
    if ok: "ok_message (Suc n) env A D flds sz" and D: "dom m = D" and s: "readable s m"
      and R: "region dest sz \<subseteq> D - A" for flds sz dest s m
  proof -
    have "required_checkable (required_count flds)" using ok by simp
    from decode_fields_safe [OF safe_messages.message_fields_safe [OF Suc.IH [OF depth(2)] ok refl R] s D this]
    show ?thesis by (simp only: depth(1) pb_decode_noinit_Suc)
  qed
  note defaults = set_to_defaults_safe [of "Suc n" env A D, OF _ Suc.prems]
  show ?case
  proof
    fix flds sz dest m assume "ok_message (Suc n) env A D flds sz" "dom m = D" "allocated m dest sz"
    then show "\<exists>m'. pb_message_set_to_defaults depth env flds dest m = Some m' \<and>
        changes (region dest sz) m m'"
      by (intro defaults) (simp_all add: allocated_def)
  next
    fix flds sz s dest m
    assume a: "ok_message (Suc n) env A D flds sz" "dom m = D" "readable s m" "allocated m dest sz"
      "region dest sz \<inter> A = {}"
    then have R: "region dest sz \<subseteq> D - A" by (auto simp: allocated_def)
    show "safe within (region dest sz \<union> A) s m (pb_decode_noinit depth env s flds dest m)"
      by (rule noinit [OF a(1-3) R])
    show "safe within (region dest sz \<union> A) s m (pb_decode depth env s flds dest m)"
      unfolding pb_decode_def
    proof (rule defaults_then_safe [OF _ _ a(3)])
      have "region dest sz \<subseteq> D" using R by blast
      from defaults [OF a(1,2) this]
      show "\<exists>m'. pb_message_set_to_defaults depth env flds dest m = Some m' \<and>
          changes (region dest sz) m m'" .
      have cb: "is_callback s = Buf_read" using a(3) by (simp add: readable_def)
      fix m' assume c: "changes (region dest sz) m m'"
      show "safe within (region dest sz \<union> A) s m' (pb_decode_noinit depth env s flds dest m')"
        by (rule noinit [OF a(1) _ readable_within [OF a(3) within_refl [OF cb] c] R])
          (simp add: changes_dom [OF c] a(2))
    qed
  qed
qed

end
