(* ===== verification/Pb_Encode.thy ===== *)
theory Pb_Encode
  imports Pb_Ostream Pb_Common
begin

text \<open>
  The fields and messages of \<open>nanopb/pb_encode.c\<close>: the encoders of the single field types
  and their table, arrays, the encoding of a field by allocation and cardinality,
  extensions, submessages and \<open>pb_encode\<close>.  The recursion through submessages is bounded by
  a depth, as on the decoding side.
\<close>

type_synonym pb_encoder = "pb_ostream \<Rightarrow> pb_field \<Rightarrow> addr \<Rightarrow> mem \<Rightarrow> write_result"
type_synonym message_encoder = "pb_ostream \<Rightarrow> pb_field list \<Rightarrow> addr \<Rightarrow> mem \<Rightarrow> write_result"

section \<open>Field encoders\<close>

text \<open>A signed or unsigned member of \<open>n\<close> bytes as a 64-bit number.\<close>

definition load_signed :: "mem \<Rightarrow> addr \<Rightarrow> nat \<Rightarrow> u64 option" where
  "load_signed m a n = map_option (signed_take_bit (8 * n - 1)) (load_word m a n)"

definition load_unsigned :: "mem \<Rightarrow> addr \<Rightarrow> nat \<Rightarrow> u64 option" where
  "load_unsigned m a n = load_word m a n"

definition has_int_size :: "pb_field \<Rightarrow> bool" where
  "has_int_size field \<longleftrightarrow> (let n = unat (pf_data_size field) in n = 1 \<or> n = 2 \<or> n = 4 \<or> n = 8)"

definition pb_enc_varint :: "pb_env \<Rightarrow> pb_encoder" where
  "pb_enc_varint env stream field src m =
     (if has_int_size field then do {
        value \<leftarrow> load_signed m src (unat (pf_data_size field));
        pb_encode_varint env stream value m
      }
      else Some (False, os_set_error ''invalid data_size'' stream, m))"

definition pb_enc_uvarint :: "pb_env \<Rightarrow> pb_encoder" where
  "pb_enc_uvarint env stream field src m =
     (if has_int_size field then do {
        value \<leftarrow> load_unsigned m src (unat (pf_data_size field));
        pb_encode_varint env stream value m
      }
      else Some (False, os_set_error ''invalid data_size'' stream, m))"

definition pb_enc_svarint :: "pb_env \<Rightarrow> pb_encoder" where
  "pb_enc_svarint env stream field src m =
     (if has_int_size field then do {
        value \<leftarrow> load_signed m src (unat (pf_data_size field));
        pb_encode_svarint env stream value m
      }
      else Some (False, os_set_error ''invalid data_size'' stream, m))"

definition pb_enc_fixed32 :: "pb_env \<Rightarrow> pb_encoder" where
  "pb_enc_fixed32 env stream field src m = pb_encode_fixed32 env stream src m"

definition pb_enc_fixed64 :: "pb_env \<Rightarrow> pb_encoder" where
  "pb_enc_fixed64 env stream field src m = pb_encode_fixed64 env stream src m"

definition pb_enc_bytes :: "pb_env \<Rightarrow> pb_encoder" where
  "pb_enc_bytes env stream field src m =
     (if src = NULL then pb_encode_string env stream NULL 0 m
      else do {
        sz \<leftarrow> load_word m src 4;
        if pf_atype field = PB_ATYPE_STATIC \<and>
          PB_BYTES_ARRAY_T_ALLOCSIZE sz > ucast (pf_data_size field)
        then Some (False, os_set_error ''bytes size exceeded'' stream, m)
        else pb_encode_string env stream (src + bytes_offset) (ucast sz) m
      })"

text \<open>The bounded search for the terminator; \<open>n\<close> is \<open>max_size - size\<close>.\<close>

primrec strnlen_loop :: "mem \<Rightarrow> addr \<Rightarrow> nat \<Rightarrow> nat \<Rightarrow> nat option" where
  "strnlen_loop m p sz 0 = Some sz"
| "strnlen_loop m p sz (Suc n) = do {
     c \<leftarrow> m p;
     if c = 0 then Some sz else strnlen_loop m (p + 1) (sz + 1) n
   }"

definition pb_enc_string :: "pb_env \<Rightarrow> pb_encoder" where
  "pb_enc_string env stream field src m = do {
     let max_size = (if pf_atype field = PB_ATYPE_POINTER then unat (- 1 :: size)
       else unat (pf_data_size field));
     sz \<leftarrow> (if src = NULL then Some 0 else strnlen_loop m src 0 max_size);
     pb_encode_string env stream src (of_nat sz) m
   }"

definition pb_enc_fixed_length_bytes :: "pb_env \<Rightarrow> pb_encoder" where
  "pb_enc_fixed_length_bytes env stream field src m =
     pb_encode_string env stream src (ucast (pf_data_size field)) m"

section \<open>Submessages\<close>

text \<open>
  \<open>encode\<close> is \<open>pb_encode\<close> at the next depth.  The message is encoded twice: to a sizing
  stream for the length prefix, then to a stream with exactly that much room.
\<close>

definition pb_encode_submessage_with :: "pb_env \<Rightarrow> message_encoder \<Rightarrow> message_encoder" where
  "pb_encode_submessage_with env encode stream flds src m = do {
     (ok, substream, m) \<leftarrow> encode PB_OSTREAM_SIZING flds src m;
     if \<not> ok then Some (False, stream\<lparr>os_errmsg := os_errmsg substream\<rparr>, m)
     else do {
       let sz = os_bytes_written substream;
       (ok, stream, m) \<leftarrow> pb_encode_varint env stream sz m;
       if \<not> ok then Some (False, stream, m)
       else if os_callback stream = No_callback then pb_write env stream (At NULL) sz m
       else if os_bytes_written stream + sz > os_max_size stream
       then Some (False, os_set_error ''stream full'' stream, m)
       else do {
         let substream = substream\<lparr>os_callback := os_callback stream, os_state := os_state stream,
           os_max_size := sz, os_bytes_written := 0, os_errmsg := None\<rparr>;
         (status, substream, m) \<leftarrow> encode substream flds src m;
         let stream = stream\<lparr>os_bytes_written := os_bytes_written stream + os_bytes_written substream,
           os_state := os_state substream, os_errmsg := os_errmsg substream\<rparr>;
         if os_bytes_written substream \<noteq> sz
         then Some (False, os_set_error ''submsg size changed'' stream, m)
         else Some (status, stream, m)
       }
     }
   }"

definition pb_enc_submessage :: "pb_env \<Rightarrow> message_encoder \<Rightarrow> pb_encoder" where
  "pb_enc_submessage env encode stream field src m =
     (if pf_ptr field = NULL
      then Some (False, os_set_error ''invalid field descriptor'' stream, m)
      else pb_encode_submessage_with env encode stream (fields_at env (pf_ptr field)) src m)"

definition PB_ENCODERS :: "pb_env \<Rightarrow> message_encoder \<Rightarrow> pb_type_t \<Rightarrow> pb_encoder option" where
  "PB_ENCODERS env encode ltype =
     (if ltype = PB_LTYPE_VARINT then Some (pb_enc_varint env)
      else if ltype = PB_LTYPE_UVARINT then Some (pb_enc_uvarint env)
      else if ltype = PB_LTYPE_SVARINT then Some (pb_enc_svarint env)
      else if ltype = PB_LTYPE_FIXED32 then Some (pb_enc_fixed32 env)
      else if ltype = PB_LTYPE_FIXED64 then Some (pb_enc_fixed64 env)
      else if ltype = PB_LTYPE_BYTES then Some (pb_enc_bytes env)
      else if ltype = PB_LTYPE_STRING then Some (pb_enc_string env)
      else if ltype = PB_LTYPE_SUBMESSAGE then Some (pb_enc_submessage env encode)
      else if ltype = PB_LTYPE_FIXED_LENGTH_BYTES then Some (pb_enc_fixed_length_bytes env)
      else None)"

section \<open>Arrays\<close>

text \<open>Calling a null entry of the table is undefined behaviour.\<close>

definition call_encoder :: "pb_encoder option \<Rightarrow> pb_encoder" where
  "call_encoder func stream field src m =
     (case func of None \<Rightarrow> None | Some f \<Rightarrow> f stream field src m)"

text \<open>\<open>for (i = 0; i < count; i++) { if (!item(p)) return false; p += data_size; }\<close>\<close>

primrec items_loop ::
  "(addr \<Rightarrow> pb_ostream \<Rightarrow> mem \<Rightarrow> write_result) \<Rightarrow> pb_field \<Rightarrow> addr \<Rightarrow> nat \<Rightarrow> pb_ostream \<Rightarrow> mem \<Rightarrow>
   write_result" where
  "items_loop item field p 0 stream m = Some (True, stream, m)"
| "items_loop item field p (Suc n) stream m = do {
     (ok, stream, m) \<leftarrow> item p stream m;
     if \<not> ok then Some (False, stream, m)
     else items_loop item field (p + uint (pf_data_size field)) n stream m
   }"

definition packed_size ::
  "pb_encoder \<Rightarrow> pb_field \<Rightarrow> addr \<Rightarrow> size \<Rightarrow> mem \<Rightarrow> (size option \<times> mem) option" where
  "packed_size func field pData count m =
     (if pf_ltype field = PB_LTYPE_FIXED32 then Some (Some (4 * count), m)
      else if pf_ltype field = PB_LTYPE_FIXED64 then Some (Some (8 * count), m)
      else do {
        (ok, sizestream, m) \<leftarrow>
          items_loop (\<lambda>p s. func s field p) field pData (unat count) PB_OSTREAM_SIZING m;
        Some (if ok then Some (os_bytes_written sizestream) else None, m)
      })"

definition encode_packed ::
  "pb_env \<Rightarrow> pb_ostream \<Rightarrow> pb_field \<Rightarrow> addr \<Rightarrow> size \<Rightarrow> pb_encoder \<Rightarrow> mem \<Rightarrow> write_result" where
  "encode_packed env stream field pData count func m = do {
     (ok, stream, m) \<leftarrow> pb_encode_tag env stream PB_WT_STRING (pf_tag field) m;
     if \<not> ok then Some (False, stream, m)
     else do {
       (r, m) \<leftarrow> packed_size func field pData count m;
       (case r of
          None \<Rightarrow> Some (False, stream, m)
        | Some sz \<Rightarrow> do {
            (ok, stream, m) \<leftarrow> pb_encode_varint env stream sz m;
            if \<not> ok then Some (False, stream, m)
            else if os_callback stream = No_callback then pb_write env stream (At NULL) sz m
            else items_loop (\<lambda>p s. func s field p) field pData (unat count) stream m
          })
     }
   }"

definition encode_array_item ::
  "pb_env \<Rightarrow> pb_field \<Rightarrow> pb_encoder \<Rightarrow> addr \<Rightarrow> pb_ostream \<Rightarrow> mem \<Rightarrow> write_result" where
  "encode_array_item env field func p stream m = do {
     (ok, stream, m) \<leftarrow> pb_encode_tag_for_field env stream field m;
     if \<not> ok then Some (False, stream, m)
     else if pf_atype field = PB_ATYPE_POINTER \<and>
       (pf_ltype field = PB_LTYPE_STRING \<or> pf_ltype field = PB_LTYPE_BYTES)
     then do { q \<leftarrow> load_ptr m p; func stream field q m }
     else func stream field p m
   }"

definition encode_array ::
  "pb_env \<Rightarrow> pb_ostream \<Rightarrow> pb_field \<Rightarrow> addr \<Rightarrow> size \<Rightarrow> pb_encoder \<Rightarrow> mem \<Rightarrow> write_result" where
  "encode_array env stream field pData count func m =
     (if count = 0 then Some (True, stream, m)
      else if pf_atype field \<noteq> PB_ATYPE_POINTER \<and> count > ucast (pf_array_size field)
      then Some (False, os_set_error ''array max size exceeded'' stream, m)
      else if pf_ltype field \<le> PB_LTYPE_LAST_PACKABLE
      then encode_packed env stream field pData count func m
      else items_loop (encode_array_item env field func) field pData (unat count) stream m)"

section \<open>One field\<close>

text \<open>The byte-by-byte comparison with zero.\<close>

primrec all_zero_loop :: "mem \<Rightarrow> addr \<Rightarrow> nat \<Rightarrow> bool option" where
  "all_zero_loop m p 0 = Some True"
| "all_zero_loop m p (Suc n) = do {
     b \<leftarrow> m p;
     if b \<noteq> 0 then Some False else all_zero_loop m (p + 1) n
   }"

partial_function (option) all_default_loop ::
  "(pb_field \<Rightarrow> addr \<Rightarrow> bool option) \<Rightarrow> pb_field_iter \<Rightarrow> bool option" where
  "all_default_loop is_default iter = do {
     field \<leftarrow> it_field iter;
     d \<leftarrow> is_default field (it_pData iter);
     if \<not> d then Some False
     else do {
       (more, iter) \<leftarrow> pb_field_iter_next iter;
       if more then all_default_loop is_default iter else Some True
     }
   }"

declare all_default_loop.simps [code]

primrec pb_check_proto3_default_value :: "nat \<Rightarrow> pb_env \<Rightarrow> mem \<Rightarrow> pb_field \<Rightarrow> addr \<Rightarrow> bool option" where
  "pb_check_proto3_default_value 0 env m field pData = None"
| "pb_check_proto3_default_value (Suc depth) env m field pData =
     (if pf_atype field = PB_ATYPE_STATIC \<and> pf_ltype field = PB_LTYPE_BYTES
      then map_option (\<lambda>sz :: u32. sz = 0) (load_word m pData 4)
      else if pf_atype field = PB_ATYPE_STATIC \<and> pf_ltype field = PB_LTYPE_STRING
      then map_option (\<lambda>c. c = 0) (m pData)
      else if pf_atype field = PB_ATYPE_STATIC \<and> pf_ltype field = PB_LTYPE_FIXED_LENGTH_BYTES
      then Some (pf_data_size field = 0)
      else if pf_atype field = PB_ATYPE_STATIC \<and> pf_ltype field = PB_LTYPE_SUBMESSAGE
      then do {
        (nonempty, iter) \<leftarrow> pb_field_iter_begin (fields_at env (pf_ptr field)) pData;
        if nonempty then all_default_loop (pb_check_proto3_default_value depth env m) iter
        else Some True
      }
      else all_zero_loop m pData (unat (pf_data_size field)))"

text \<open>
  \<open>pSize\<close> points into the structure or to the local \<open>bool implicit_has\<close>; reading a count
  from the latter reads past it.
\<close>

datatype size_ptr = In_struct addr | Implicit_has bool

definition read_has :: "mem \<Rightarrow> size_ptr \<Rightarrow> bool option" where
  "read_has m p = (case p of In_struct a \<Rightarrow> load_bool m a | Implicit_has b \<Rightarrow> Some b)"

definition read_count :: "mem \<Rightarrow> size_ptr \<Rightarrow> u32 option" where
  "read_count m p = (case p of In_struct a \<Rightarrow> load_word m a 4 | Implicit_has b \<Rightarrow> None)"

definition basic_size_ptr :: "nat \<Rightarrow> pb_env \<Rightarrow> pb_field \<Rightarrow> addr \<Rightarrow> mem \<Rightarrow> size_ptr option" where
  "basic_size_ptr depth env field pData m =
     (if pf_size_offset field \<noteq> 0 then Some (In_struct (pData + sint (pf_size_offset field)))
      else if pf_htype field = PB_HTYPE_OPTIONAL then do {
        zero \<leftarrow> pb_check_proto3_default_value depth env m field pData;
        Some (Implicit_has (\<not> zero))
      }
      else Some (Implicit_has True))"

text \<open>The data and the size pointer, once a pointer field is dereferenced.\<close>

definition basic_target ::
  "nat \<Rightarrow> pb_env \<Rightarrow> pb_field \<Rightarrow> addr \<Rightarrow> mem \<Rightarrow> (addr \<times> size_ptr) option" where
  "basic_target depth env field pData m = do {
     pSize \<leftarrow> basic_size_ptr depth env field pData m;
     if pf_atype field = PB_ATYPE_POINTER then do {
       p \<leftarrow> load_ptr m pData;
       Some (p, (case pSize of Implicit_has _ \<Rightarrow> Implicit_has (p \<noteq> NULL) | _ \<Rightarrow> pSize))
     }
     else Some (pData, pSize)
   }"

definition encode_tagged ::
  "pb_env \<Rightarrow> pb_ostream \<Rightarrow> pb_field \<Rightarrow> pb_encoder \<Rightarrow> addr \<Rightarrow> mem \<Rightarrow> write_result" where
  "encode_tagged env stream field func pData m = do {
     (ok, stream, m) \<leftarrow> pb_encode_tag_for_field env stream field m;
     if \<not> ok then Some (False, stream, m) else func stream field pData m
   }"

definition encode_basic_field ::
  "nat \<Rightarrow> (pb_type_t \<Rightarrow> pb_encoder option) \<Rightarrow> pb_env \<Rightarrow> pb_encoder" where
  "encode_basic_field depth encoders env stream field pData m =
     (if unat (pf_ltype field) \<ge> PB_LTYPES_COUNT then None
      else do {
        let func = call_encoder (encoders (pf_ltype field));
        (pData, pSize) \<leftarrow> basic_target depth env field pData m;
        if pf_htype field = PB_HTYPE_REQUIRED then
          (if pData = NULL then Some (False, os_set_error ''missing required field'' stream, m)
           else encode_tagged env stream field func pData m)
        else if pf_htype field = PB_HTYPE_OPTIONAL then do {
          has \<leftarrow> read_has m pSize;
          if has then encode_tagged env stream field func pData m else Some (True, stream, m)
        }
        else if pf_htype field = PB_HTYPE_REPEATED then do {
          count \<leftarrow> read_count m pSize;
          encode_array env stream field pData (ucast count) func m
        }
        else if pf_htype field = PB_HTYPE_ONEOF then do {
          which \<leftarrow> read_count m pSize;
          if which = pf_tag field then encode_tagged env stream field func pData m
          else Some (True, stream, m)
        }
        else Some (False, os_set_error ''invalid field type'' stream, m)
      })"

definition encode_callback_field :: "pb_env \<Rightarrow> pb_encoder" where
  "encode_callback_field env stream field pData m = do {
     f \<leftarrow> load_ptr m pData;
     if f \<noteq> NULL then do {
       (ok, stream, m) \<leftarrow> field_encode_cb env f stream field (pData + callback_arg_offset) m;
       if \<not> ok then Some (False, os_set_error ''callback error'' stream, m)
       else Some (True, stream, m)
     }
     else Some (True, stream, m)
   }"

definition encode_field ::
  "nat \<Rightarrow> (pb_type_t \<Rightarrow> pb_encoder option) \<Rightarrow> pb_env \<Rightarrow> pb_encoder" where
  "encode_field depth encoders env stream field pData m =
     (if pf_atype field = PB_ATYPE_STATIC \<or> pf_atype field = PB_ATYPE_POINTER
      then encode_basic_field depth encoders env stream field pData m
      else if pf_atype field = PB_ATYPE_CALLBACK
      then encode_callback_field env stream field pData m
      else Some (False, os_set_error ''invalid field type'' stream, m))"

section \<open>Extensions and messages\<close>

definition default_extension_encoder ::
  "pb_encoder \<Rightarrow> pb_env \<Rightarrow> pb_ostream \<Rightarrow> addr \<Rightarrow> mem \<Rightarrow> write_result" where
  "default_extension_encoder encode_fld env stream extension m = do {
     type_ptr \<leftarrow> load_ptr m (extension + ext_type_offset);
     type \<leftarrow> ext_type_at env type_ptr;
     field \<leftarrow> field_at (fields_at env (et_arg type)) 0;
     if pf_atype field = PB_ATYPE_POINTER
     then encode_fld stream field (extension + ext_dest_offset) m
     else do {
       dest \<leftarrow> load_ptr m (extension + ext_dest_offset);
       encode_fld stream field dest m
     }
   }"

partial_function (option) encode_extension_loop ::
  "pb_encoder \<Rightarrow> pb_env \<Rightarrow> addr \<Rightarrow> pb_ostream \<Rightarrow> mem \<Rightarrow> write_result" where
  "encode_extension_loop encode_fld env extension stream m =
     (if extension = NULL then Some (True, stream, m)
      else do {
        type_ptr \<leftarrow> load_ptr m (extension + ext_type_offset);
        type \<leftarrow> ext_type_at env type_ptr;
        (status, stream, m) \<leftarrow>
          (if et_encode type \<noteq> NULL then ext_encode_cb env (et_encode type) stream extension m
           else default_extension_encoder encode_fld env stream extension m);
        if \<not> status then Some (False, stream, m)
        else do {
          extension \<leftarrow> load_ptr m (extension + ext_next_offset);
          encode_extension_loop encode_fld env extension stream m
        }
      })"

declare encode_extension_loop.simps [code]

definition encode_extension_field :: "pb_encoder \<Rightarrow> pb_env \<Rightarrow> pb_encoder" where
  "encode_extension_field encode_fld env stream field pData m = do {
     extension \<leftarrow> load_ptr m pData;
     encode_extension_loop encode_fld env extension stream m
   }"

partial_function (option) encode_fields_loop ::
  "pb_encoder \<Rightarrow> pb_env \<Rightarrow> pb_field_iter \<Rightarrow> pb_ostream \<Rightarrow> mem \<Rightarrow> write_result" where
  "encode_fields_loop encode_fld env iter stream m = do {
     field \<leftarrow> it_field iter;
     (ok, stream, m) \<leftarrow>
       (if pf_ltype field = PB_LTYPE_EXTENSION
        then encode_extension_field encode_fld env stream field (it_pData iter) m
        else encode_fld stream field (it_pData iter) m);
     if \<not> ok then Some (False, stream, m)
     else do {
       (more, iter) \<leftarrow> pb_field_iter_next iter;
       if more then encode_fields_loop encode_fld env iter stream m else Some (True, stream, m)
     }
   }"

declare encode_fields_loop.simps [code]

definition encode_message_with :: "pb_encoder \<Rightarrow> pb_env \<Rightarrow> message_encoder" where
  "encode_message_with encode_fld env stream flds src_struct m = do {
     (nonempty, iter) \<leftarrow> pb_field_iter_begin flds src_struct;
     if \<not> nonempty then Some (True, stream, m)
     else encode_fields_loop encode_fld env iter stream m
   }"

primrec pb_encode :: "nat \<Rightarrow> pb_env \<Rightarrow> message_encoder" where
  "pb_encode 0 env = (\<lambda>stream flds src_struct m. None)"
| "pb_encode (Suc depth) env =
     encode_message_with (encode_field (Suc depth) (PB_ENCODERS env (pb_encode depth env)) env) env"

definition pb_encode_submessage :: "nat \<Rightarrow> pb_env \<Rightarrow> message_encoder" where
  "pb_encode_submessage depth env = pb_encode_submessage_with env (pb_encode depth env)"

definition pb_encode_delimited :: "nat \<Rightarrow> pb_env \<Rightarrow> message_encoder" where
  "pb_encode_delimited depth env stream flds src_struct m =
     pb_encode_submessage depth env stream flds src_struct m"

text \<open>The size is delivered on success only; the sizing stream is a local.\<close>

definition pb_get_encoded_size ::
  "nat \<Rightarrow> pb_env \<Rightarrow> pb_field list \<Rightarrow> addr \<Rightarrow> mem \<Rightarrow> (size option \<times> mem) option" where
  "pb_get_encoded_size depth env flds src_struct m = do {
     (ok, stream, m) \<leftarrow> pb_encode depth env PB_OSTREAM_SIZING flds src_struct m;
     Some (if ok then Some (os_bytes_written stream) else None, m)
   }"

end
