(* ===== verification/Pb_Message.thy ===== *)
theory Pb_Message
  imports Pb_Encode Pb_Wire
begin

text \<open>
  What the encoder writes, as pure functions from the memory of the message to bytes, and
  the proof that the code writes exactly that.  A specification returns \<^term>\<open>None\<close> where the
  code reports an error, calls a function of the application, or reads memory that is not
  there.  It is evaluated on a part \<open>m\<close> of the memory; the encoder then needs no other
  bytes of the structure (\<open>emits (dom m)\<close>), so the buffer may be anywhere else.
\<close>

section \<open>Reading a part of the memory\<close>

lemma map_le_agree: "\<forall>x\<in>dom m. m' x = m x \<Longrightarrow> m \<subseteq>\<^sub>m m'"
  by (auto simp: map_le_def)

lemma map_le_Some: "m \<subseteq>\<^sub>m m' \<Longrightarrow> m a = Some b \<Longrightarrow> m' a = Some b"
  by (metis domI map_le_def)

lemma load_bytes_mono: "m \<subseteq>\<^sub>m m' \<Longrightarrow> load_bytes m a n = Some bs \<Longrightarrow> load_bytes m' a n = Some bs"
  by (auto simp: load_bytes_iff intro: map_le_Some)

lemma load_word_mono: "m \<subseteq>\<^sub>m m' \<Longrightarrow> load_word m a n = Some w \<Longrightarrow> load_word m' a n = Some w"
  by (auto simp: load_word_def dest: load_bytes_mono)

lemma load_ptr_mono: "m \<subseteq>\<^sub>m m' \<Longrightarrow> load_ptr m a = Some p \<Longrightarrow> load_ptr m' a = Some p"
  by (auto simp: load_ptr_def dest: load_word_mono)

lemma load_bool_mono: "m \<subseteq>\<^sub>m m' \<Longrightarrow> load_bool m a = Some b \<Longrightarrow> load_bool m' a = Some b"
  by (auto simp: load_bool_def dest: map_le_Some)

lemma load_signed_mono: "m \<subseteq>\<^sub>m m' \<Longrightarrow> load_signed m a n = Some w \<Longrightarrow> load_signed m' a n = Some w"
  by (auto simp: load_signed_def dest: load_word_mono)

lemma load_unsigned_mono: "m \<subseteq>\<^sub>m m' \<Longrightarrow> load_unsigned m a n = Some w \<Longrightarrow> load_unsigned m' a n = Some w"
  by (auto simp: load_unsigned_def dest: load_word_mono)

lemma strnlen_mono: "m \<subseteq>\<^sub>m m' \<Longrightarrow> strnlen_loop m a k n = Some r \<Longrightarrow> strnlen_loop m' a k n = Some r"
  by (induction n arbitrary: a k) (auto dest: map_le_Some split: if_splits)

lemma all_zero_mono: "m \<subseteq>\<^sub>m m' \<Longrightarrow> all_zero_loop m a n = Some r \<Longrightarrow> all_zero_loop m' a n = Some r"
  by (induction n arbitrary: a) (auto dest: map_le_Some split: if_splits)

lemma read_has_mono: "m \<subseteq>\<^sub>m m' \<Longrightarrow> read_has m p = Some b \<Longrightarrow> read_has m' p = Some b"
  by (auto simp: read_has_def dest: load_bool_mono split: size_ptr.splits)

lemma read_count_mono: "m \<subseteq>\<^sub>m m' \<Longrightarrow> read_count m p = Some c \<Longrightarrow> read_count m' p = Some c"
  by (auto simp: read_count_def dest: load_word_mono split: size_ptr.splits)

lemma load_region_dom: "load_bytes m a n = Some bs \<Longrightarrow> region a n \<subseteq> dom m"
  using load_bytes_allocated by (simp add: allocated_def)

lemma all_default_mono:
  assumes "all_default_loop d iter = Some r" "\<And>f a b. d f a = Some b \<Longrightarrow> d' f a = Some b"
  shows "all_default_loop d' iter = Some r"
  using assms
proof (induction d iter r rule: all_default_loop.raw_induct [rotated, consumes 1])
  case (1 loop d iter r)
  note unf = all_default_loop.simps [of d' iter]
  from "1"(2) obtain f x where f: "it_field iter = Some f" "d f (it_pData iter) = Some x"
    by (auto split: if_splits)
  have d': "d' f (it_pData iter) = Some x" using "1"(3) f(2) .
  show ?case
  proof (cases x)
    case False
    with "1"(2) f have "r = False" by simp
    with False f d' unf show ?thesis by simp
  next
    case True
    with "1"(2) f obtain more iter' where n: "pb_field_iter_next iter = Some (more, iter')"
        "(if more then loop d iter' else Some True) = Some r"
      by auto
    then have "(if more then all_default_loop d' iter' else Some True) = Some r"
      using "1"(1) [OF _ "1"(3)] by (auto split: if_splits)
    with True f d' unf n(1) show ?thesis by simp
  qed
qed

lemma proto3_default_mono:
  assumes "m \<subseteq>\<^sub>m m'"
  shows "pb_check_proto3_default_value d env m f p = Some b \<Longrightarrow>
    pb_check_proto3_default_value d env m' f p = Some b"
proof (induction d arbitrary: f p b)
  case 0
  then show ?case by simp
next
  case (Suc d)
  show ?case
    using Suc.prems load_word_mono [OF assms] map_le_Some [OF assms] all_zero_mono [OF assms]
      all_default_mono [where d = "pb_check_proto3_default_value d env m"
        and d' = "pb_check_proto3_default_value d env m'", OF _ Suc.IH]
    by (auto split: if_splits)
qed

lemma basic_size_ptr_mono:
  "m \<subseteq>\<^sub>m m' \<Longrightarrow> basic_size_ptr d env f p m = Some r \<Longrightarrow> basic_size_ptr d env f p m' = Some r"
  by (auto simp: basic_size_ptr_def dest: proto3_default_mono split: if_splits)

section \<open>The contract of a field encoder\<close>

type_synonym payload_spec = "mem \<Rightarrow> pb_field \<Rightarrow> addr \<Rightarrow> byte list option"

locale field_encoder =
  fixes f :: pb_encoder
    and payload :: payload_spec
  assumes encodes: "payload m field src = Some bs \<Longrightarrow> emits (dom m) (\<lambda>s m. f s field src m) m bs"

text \<open>Emitters that compute something from memory first.\<close>

lemma emits_dom_eqI:
  "emits (dom m) g m bs \<Longrightarrow> (\<And>s m'. m \<subseteq>\<^sub>m m' \<Longrightarrow> f s m' = g s m') \<Longrightarrow> emits (dom m) f m bs"
  by (erule emits_eqI) (blast intro: map_le_agree)

lemma emits_thenI:
  assumes "emits R f m bs" "emits R g m cs"
    "\<And>s m. h s m = do { (ok, s, m) \<leftarrow> f s m; if \<not> ok then Some (False, s, m) else g s m }"
  shows "emits R h m (bs @ cs)"
proof -
  have "h = then_write f g" by (rule ext)+ (simp add: assms(3) then_write_def)
  with emits_then [OF assms(1,2)] show ?thesis by simp
qed

text \<open>A length-delimited part, whose bytes are only counted on a sizing stream.\<close>

lemma emits_sized:
  assumes "emits R g m bs" "sz = of_nat (length bs)"
  shows "emits R (\<lambda>s m. if os_callback s = No_callback then pb_write env s (At NULL) sz m else g s m) m bs"
  using assms
  by (auto simp: emits_def pb_write_def counted_def ostream_ok_def)

definition delimited :: "byte list \<Rightarrow> byte list option" where
  "delimited bs = (if length bs < max_object then Some (varint_bytes (of_nat (length bs)) @ bs) else None)"

lemma delimited_code [code]:
  "delimited bs = (if int (length bs) < 2 ^ 63
     then Some (varint_bytes (of_nat (length bs)) @ bs) else None)"
proof -
  have "int (length bs) < 2 ^ 63 \<longleftrightarrow> length bs < max_object"
    by (simp add: max_object_def)
  then show ?thesis by (simp add: delimited_def)
qed

lemma delimited_Some_iff:
  "delimited bs = Some cs \<longleftrightarrow> length bs < max_object \<and> cs = varint_bytes (of_nat (length bs)) @ bs"
  by (auto simp: delimited_def)

lemma unat_of_nat_object: "n < max_object \<Longrightarrow> unat (of_nat n :: size) = n"
  by (simp add: max_object_def unat_of_nat take_bit_eq_mod)

section \<open>Scalars, bytes and strings\<close>

definition varint_payload :: payload_spec where
  "varint_payload m field src =
     (if has_int_size field
      then map_option varint_bytes (load_signed m src (unat (pf_data_size field))) else None)"

definition uvarint_payload :: payload_spec where
  "uvarint_payload m field src =
     (if has_int_size field
      then map_option varint_bytes (load_unsigned m src (unat (pf_data_size field))) else None)"

definition svarint_payload :: payload_spec where
  "svarint_payload m field src =
     (if has_int_size field
      then map_option (varint_bytes \<circ> zigzag) (load_signed m src (unat (pf_data_size field))) else None)"

definition fixed_payload :: "nat \<Rightarrow> payload_spec" where
  "fixed_payload n m field src = load_bytes m src n"

definition string_at :: "mem \<Rightarrow> addr \<Rightarrow> nat \<Rightarrow> byte list option" where
  "string_at m src n = Option.bind (load_bytes m src n) delimited"

definition bytes_payload :: payload_spec where
  "bytes_payload m field src =
     (if src = NULL then string_at m NULL 0
      else do {
        sz \<leftarrow> load_word m src 4 :: u32 option;
        if pf_atype field = PB_ATYPE_STATIC \<and>
          PB_BYTES_ARRAY_T_ALLOCSIZE sz > ucast (pf_data_size field)
        then None else string_at m (src + bytes_offset) (unat sz)
      })"

definition string_payload :: payload_spec where
  "string_payload m field src = do {
     let max_size = (if pf_atype field = PB_ATYPE_POINTER then unat (- 1 :: size)
       else unat (pf_data_size field));
     sz \<leftarrow> (if src = NULL then Some 0 else strnlen_loop m src 0 max_size);
     string_at m src sz
   }"

definition fixed_length_payload :: payload_spec where
  "fixed_length_payload m field src = string_at m src (unat (pf_data_size field))"

interpretation varint_encoder: field_encoder "pb_enc_varint env" varint_payload for env
proof
  fix m field src bs
  assume "varint_payload m field src = Some bs"
  then obtain v where v: "has_int_size field" "load_signed m src (unat (pf_data_size field)) = Some v"
      "bs = varint_bytes v" by (auto simp: varint_payload_def split: if_splits)
  show "emits (dom m) (\<lambda>s m. pb_enc_varint env s field src m) m bs"
    unfolding v(3) by (rule emits_dom_eqI [OF emits_varint])
      (simp add: pb_enc_varint_def v(1) load_signed_mono [OF _ v(2)])
qed

interpretation uvarint_encoder: field_encoder "pb_enc_uvarint env" uvarint_payload for env
proof
  fix m field src bs
  assume "uvarint_payload m field src = Some bs"
  then obtain v where v: "has_int_size field" "load_unsigned m src (unat (pf_data_size field)) = Some v"
      "bs = varint_bytes v" by (auto simp: uvarint_payload_def split: if_splits)
  show "emits (dom m) (\<lambda>s m. pb_enc_uvarint env s field src m) m bs"
    unfolding v(3) by (rule emits_dom_eqI [OF emits_varint])
      (simp add: pb_enc_uvarint_def v(1) load_unsigned_mono [OF _ v(2)])
qed

interpretation svarint_encoder: field_encoder "pb_enc_svarint env" svarint_payload for env
proof
  fix m field src bs
  assume "svarint_payload m field src = Some bs"
  then obtain v where v: "has_int_size field" "load_signed m src (unat (pf_data_size field)) = Some v"
      "bs = varint_bytes (zigzag v)" by (auto simp: svarint_payload_def split: if_splits)
  show "emits (dom m) (\<lambda>s m. pb_enc_svarint env s field src m) m bs"
    unfolding v(3) by (rule emits_dom_eqI [OF emits_svarint])
      (simp add: pb_enc_svarint_def v(1) load_signed_mono [OF _ v(2)])
qed

interpretation fixed32_encoder: field_encoder "pb_enc_fixed32 env" "fixed_payload 4" for env
  by unfold_locales
    (simp only: fixed_payload_def pb_enc_fixed32_def emits_fixed32 [OF _ load_region_dom])

interpretation fixed64_encoder: field_encoder "pb_enc_fixed64 env" "fixed_payload 8" for env
  by unfold_locales
    (simp only: fixed_payload_def pb_enc_fixed64_def emits_fixed64 [OF _ load_region_dom])

lemma emits_string_at:
  assumes "string_at m src (unat n) = Some bs"
  shows "emits (dom m) (\<lambda>s m. pb_encode_string env s src n m) m bs"
proof -
  from assms obtain cs where cs: "load_bytes m src (unat n) = Some cs" "delimited cs = Some bs"
    by (auto simp: string_at_def)
  then have "length cs = unat n" using load_bytes_length by blast
  with cs have "bs = varint_bytes n @ cs" "unat n < max_object"
    by (auto simp: delimited_Some_iff)
  with emits_string [OF cs(1) load_region_dom [OF cs(1)]] show ?thesis by simp
qed

interpretation bytes_encoder: field_encoder "pb_enc_bytes env" bytes_payload for env
proof
  fix m field src bs
  assume *: "bytes_payload m field src = Some bs"
  show "emits (dom m) (\<lambda>s m. pb_enc_bytes env s field src m) m bs"
  proof (cases "src = NULL")
    case True
    with * emits_string_at [of m 0 0 bs env] show ?thesis
      by (simp add: bytes_payload_def pb_enc_bytes_def)
  next
    case False
    with * obtain sz :: u32 where sz: "load_word m src 4 = Some sz"
        "\<not> (pf_atype field = PB_ATYPE_STATIC \<and> PB_BYTES_ARRAY_T_ALLOCSIZE sz > ucast (pf_data_size field))"
        "string_at m (src + bytes_offset) (unat sz) = Some bs"
      by (auto simp: bytes_payload_def split: if_splits)
    have "unat (ucast sz :: size) = unat sz" by (rule unat_ucast_up) simp
    with sz(3) have "emits (dom m) (\<lambda>s m. pb_encode_string env s (src + bytes_offset) (ucast sz) m) m bs"
      by (intro emits_string_at) simp
    then show ?thesis
      by (rule emits_dom_eqI) (use False sz(2) load_word_mono [OF _ sz(1)] in \<open>auto simp: pb_enc_bytes_def\<close>)
  qed
qed

lemma strnlen_bound: "strnlen_loop m p k n = Some r \<Longrightarrow> r \<le> k + n"
  by (induction n arbitrary: p k) (fastforce split: if_splits)+

interpretation string_encoder: field_encoder "pb_enc_string env" string_payload for env
proof
  fix m field src bs
  assume *: "string_payload m field src = Some bs"
  define n where "n = (if pf_atype field = PB_ATYPE_POINTER then unat (- 1 :: size)
    else unat (pf_data_size field))"
  from * obtain sz where sz: "(if src = NULL then Some 0 else strnlen_loop m src 0 n) = Some sz"
      "string_at m src sz = Some bs"
    unfolding string_payload_def Let_def n_def [symmetric] by auto
  from sz(2) have "sz < max_object"
    by (auto simp: string_at_def delimited_Some_iff dest: load_bytes_length)
  then have "string_at m src (unat (of_nat sz :: size)) = Some bs"
    using sz(2) by (simp add: unat_of_nat_object)
  then have "emits (dom m) (\<lambda>s m. pb_encode_string env s src (of_nat sz) m) m bs"
    by (rule emits_string_at)
  then show "emits (dom m) (\<lambda>s m. pb_enc_string env s field src m) m bs"
  proof (rule emits_dom_eqI)
    fix s m'
    assume "m \<subseteq>\<^sub>m m'"
    with sz(1) have "(if src = NULL then Some 0 else strnlen_loop m' src 0 n) = Some sz"
      by (auto intro: strnlen_mono split: if_splits)
    then show "pb_enc_string env s field src m' = pb_encode_string env s src (of_nat sz) m'"
      unfolding pb_enc_string_def Let_def n_def [symmetric] by simp
  qed
qed

interpretation fixed_length_encoder: field_encoder "pb_enc_fixed_length_bytes env" fixed_length_payload
  for env
proof
  fix m field src bs
  assume "fixed_length_payload m field src = Some bs"
  moreover have "unat (ucast (pf_data_size field) :: size) = unat (pf_data_size field)"
    by (rule unat_ucast_up) simp
  ultimately show "emits (dom m) (\<lambda>s m. pb_enc_fixed_length_bytes env s field src m) m bs"
    unfolding pb_enc_fixed_length_bytes_def
    by (intro emits_string_at) (simp add: fixed_length_payload_def)
qed

section \<open>Arrays\<close>

definition tag_bytes :: "pb_wire_type_t \<Rightarrow> u32 \<Rightarrow> byte list" where
  "tag_bytes wt n = varint_bytes (tag_value wt n)"

definition field_tag_bytes :: "pb_field \<Rightarrow> byte list option" where
  "field_tag_bytes field = map_option (\<lambda>wt. tag_bytes wt (pf_tag field)) (wire_type_of (pf_ltype field))"

primrec items_bytes :: "(addr \<Rightarrow> byte list option) \<Rightarrow> pb_field \<Rightarrow> addr \<Rightarrow> nat \<Rightarrow> byte list option" where
  "items_bytes item field p 0 = Some []"
| "items_bytes item field p (Suc n) = do {
     xs \<leftarrow> item p;
     ys \<leftarrow> items_bytes item field (p + uint (pf_data_size field)) n;
     Some (xs @ ys)
   }"

definition tagged_bytes :: "payload_spec \<Rightarrow> payload_spec" where
  "tagged_bytes payload m field src = do {
     t \<leftarrow> field_tag_bytes field;
     bs \<leftarrow> payload m field src;
     Some (t @ bs)
   }"

definition packed_bytes :: "payload_spec \<Rightarrow> mem \<Rightarrow> pb_field \<Rightarrow> addr \<Rightarrow> nat \<Rightarrow> byte list option" where
  "packed_bytes payload m field src n = do {
     body \<leftarrow> items_bytes (payload m field) field src n;
     d \<leftarrow> delimited body;
     Some (tag_bytes PB_WT_STRING (pf_tag field) @ d)
   }"

text \<open>The entries of an array of pointers are strings, bytes or submessages elsewhere.\<close>

definition item_bytes :: "payload_spec \<Rightarrow> payload_spec" where
  "item_bytes payload m field p =
     (if pf_atype field = PB_ATYPE_POINTER \<and>
         (pf_ltype field = PB_LTYPE_STRING \<or> pf_ltype field = PB_LTYPE_BYTES)
      then Option.bind (load_ptr m p) (tagged_bytes payload m field)
      else tagged_bytes payload m field p)"

definition array_bytes :: "payload_spec \<Rightarrow> mem \<Rightarrow> pb_field \<Rightarrow> addr \<Rightarrow> u32 \<Rightarrow> byte list option" where
  "array_bytes payload m field src count =
     (if count = 0 then Some []
      else if pf_atype field \<noteq> PB_ATYPE_POINTER \<and> count > pf_array_size field then None
      else if pf_ltype field \<le> PB_LTYPE_LAST_PACKABLE
      then packed_bytes payload m field src (unat count)
      else items_bytes (item_bytes payload m field) field src (unat count))"

lemma emits_items:
  assumes "\<And>p bs. item p = Some bs \<Longrightarrow> emits R (write_item p) m bs"
    "items_bytes item field p n = Some bs"
  shows "emits R (items_loop write_item field p n) m bs"
  using assms(2)
proof (induction n arbitrary: p bs)
  case 0
  then show ?case by (simp add: emits_nothing)
next
  case (Suc n)
  then obtain xs ys where "item p = Some xs" "items_bytes item field (p + uint (pf_data_size field)) n = Some ys"
      "bs = xs @ ys" by auto
  with emits_thenI [OF assms(1) Suc.IH] show ?case by simp
qed

lemma length_items:
  assumes "\<And>p bs. item p = Some bs \<Longrightarrow> length bs = k" "items_bytes item field p n = Some bs"
  shows "length bs = k * n"
  using assms(2)
proof (induction n arbitrary: p bs)
  case 0
  then show ?case by simp
next
  case (Suc n)
  then obtain xs ys where "item p = Some xs" "items_bytes item field (p + uint (pf_data_size field)) n = Some ys"
      "bs = xs @ ys" by auto
  with Suc.IH assms(1) show ?case by fastforce
qed

lemma emits_field_tag:
  assumes "field_tag_bytes field = Some bs"
  shows "emits R (\<lambda>s m. pb_encode_tag_for_field env s field m) m bs"
  using assms emits_tag_for_field by (auto simp: field_tag_bytes_def tag_bytes_def)

text \<open>
  The encoders of the table, as one function of the field; where the length of a packed
  array is computed and not counted, the payloads have the fixed size.
\<close>

locale value_encoder = field_encoder +
  assumes fixed32_size: "payload m field src = Some bs \<Longrightarrow> pf_ltype field = PB_LTYPE_FIXED32 \<Longrightarrow> length bs = 4"
    and fixed64_size: "payload m field src = Some bs \<Longrightarrow> pf_ltype field = PB_LTYPE_FIXED64 \<Longrightarrow> length bs = 8"
begin

lemma emits_tagged:
  assumes "tagged_bytes payload m field src = Some bs"
  shows "emits (dom m) (\<lambda>s m. encode_tagged env s field f src m) m bs"
proof -
  from assms obtain t p where "field_tag_bytes field = Some t" "payload m field src = Some p" "bs = t @ p"
    by (auto simp: tagged_bytes_def)
  with emits_thenI [OF emits_field_tag encodes] show ?thesis by (simp add: encode_tagged_def)
qed

lemma packed_size_eq:
  assumes "items_bytes (payload m field) field src (unat count) = Some body" "m \<subseteq>\<^sub>m m'"
  shows "packed_size f field src count m' = Some (Some (of_nat (length body)), m')"
proof -
  consider "pf_ltype field = PB_LTYPE_FIXED32" | "pf_ltype field = PB_LTYPE_FIXED64"
    | "pf_ltype field \<noteq> PB_LTYPE_FIXED32 \<and> pf_ltype field \<noteq> PB_LTYPE_FIXED64" by blast
  then show ?thesis
  proof cases
    case 1
    then have "length body = 4 * unat count" using length_items [OF fixed32_size assms(1)] by simp
    with 1 show ?thesis by (simp add: packed_size_def)
  next
    case 2
    then have "length body = 8 * unat count" using length_items [OF fixed64_size assms(1)] by simp
    with 2 show ?thesis by (simp add: packed_size_def c_defs)
  next
    case 3
    have "emits (dom m) (items_loop (\<lambda>p s. f s field p) field src (unat count)) m' body"
    proof (rule emits_cong_mem)
      show "emits (dom m) (items_loop (\<lambda>p s. f s field p) field src (unat count)) m body"
        using encodes assms(1) by (rule emits_items)
      show "\<forall>x\<in>dom m. m' x = m x" using assms(2) by (simp add: map_le_def)
    qed
    from emitsD_sizing [OF this, of PB_OSTREAM_SIZING]
    show ?thesis using 3 by (simp add: packed_size_def PB_OSTREAM_SIZING_def)
  qed
qed

lemma emits_packed:
  assumes "packed_bytes payload m field src (unat count) = Some bs"
  shows "emits (dom m) (\<lambda>s m. encode_packed env s field src count f m) m bs"
proof -
  from assms obtain body where body: "items_bytes (payload m field) field src (unat count) = Some body"
      "bs = tag_bytes PB_WT_STRING (pf_tag field) @ varint_bytes (of_nat (length body)) @ body"
    by (auto simp: packed_bytes_def delimited_Some_iff)
  let ?sz = "of_nat (length body) :: size"
  let ?items = "items_loop (\<lambda>p s. f s field p) field src (unat count)"
  let ?sized = "\<lambda>s m. if os_callback s = No_callback then pb_write env s (At NULL) ?sz m else ?items s m"
  have "emits (dom m) ?sized m body"
    by (rule emits_sized [OF emits_items [OF encodes body(1)] refl])
  then have "emits (dom m) (then_write (\<lambda>s m. pb_encode_varint env s ?sz m) ?sized) m
      (varint_bytes ?sz @ body)"
    by (rule emits_then [OF emits_varint])
  then have "emits (dom m) (\<lambda>s m. do {
      (r, m) \<leftarrow> packed_size f field src count m;
      (case r of
         None \<Rightarrow> Some (False, s, m)
       | Some sz \<Rightarrow> do {
           (ok, s, m) \<leftarrow> pb_encode_varint env s sz m;
           if \<not> ok then Some (False, s, m)
           else if os_callback s = No_callback then pb_write env s (At NULL) sz m
           else ?items s m
         })
    }) m (varint_bytes ?sz @ body)"
    by (rule emits_dom_eqI) (simp add: packed_size_eq [OF body(1)] then_write_def)
  from emits_thenI [OF emits_tag this] show ?thesis
    unfolding body(2) tag_bytes_def by (simp add: encode_packed_def)
qed

lemma emits_item:
  assumes "item_bytes payload m field p = Some bs"
  shows "emits (dom m) (encode_array_item env field f p) m bs"
proof (cases "pf_atype field = PB_ATYPE_POINTER \<and>
    (pf_ltype field = PB_LTYPE_STRING \<or> pf_ltype field = PB_LTYPE_BYTES)")
  case True
  with assms obtain q where q: "load_ptr m p = Some q" "tagged_bytes payload m field q = Some bs"
    by (auto simp: item_bytes_def)
  then obtain t cs where t: "field_tag_bytes field = Some t" "payload m field q = Some cs" "bs = t @ cs"
    by (auto simp: tagged_bytes_def)
  have deref: "emits (dom m) (\<lambda>s m. do { q \<leftarrow> load_ptr m p; f s field q m }) m cs"
    using encodes [OF t(2)] by (rule emits_dom_eqI) (simp add: load_ptr_mono [OF _ q(1)])
  show ?thesis
    unfolding t(3) by (rule emits_thenI [OF emits_field_tag [OF t(1), where env = env] deref])
      (unfold encode_array_item_def if_P [OF True], rule refl)
next
  case False
  with assms have "tagged_bytes payload m field p = Some bs" by (auto simp: item_bytes_def split: if_splits)
  then obtain t cs where t: "field_tag_bytes field = Some t" "payload m field p = Some cs" "bs = t @ cs"
    by (auto simp: tagged_bytes_def)
  show ?thesis
    unfolding t(3) by (rule emits_thenI [OF emits_field_tag [OF t(1), where env = env] encodes [OF t(2)]])
      (unfold encode_array_item_def if_not_P [OF False], rule refl)
qed

lemma emits_array:
  assumes "array_bytes payload m field src count = Some bs"
  shows "emits (dom m) (\<lambda>s m. encode_array env s field src (ucast count) f m) m bs"
proof -
  have u: "unat (ucast count :: size) = unat count" by (rule unat_ucast_up) simp
  have z: "(ucast count :: size) = 0 \<longleftrightarrow> count = 0"
    by (metis u unsigned_0 unsigned_eq_0_iff)
  have less: "(ucast count :: size) > ucast (pf_array_size field) \<longleftrightarrow> count > pf_array_size field"
    using unat_ucast_up [of "pf_array_size field", where ?'b = 64] by (simp add: word_less_nat_alt u)
  consider "count = 0" | "count \<noteq> 0" "pf_ltype field \<le> PB_LTYPE_LAST_PACKABLE"
    | "count \<noteq> 0" "\<not> pf_ltype field \<le> PB_LTYPE_LAST_PACKABLE" by blast
  then show ?thesis
  proof cases
    case 1
    with assms emits_nothing show ?thesis by (simp add: array_bytes_def encode_array_def)
  next
    case 2
    with assms have "packed_bytes payload m field src (unat (ucast count :: size)) = Some bs"
      by (auto simp: array_bytes_def u split: if_splits)
    from emits_packed [OF this, of env] assms 2 show ?thesis
      by (auto simp: encode_array_def array_bytes_def z less split: if_splits)
  next
    case 3
    with assms have "items_bytes (item_bytes payload m field) field src (unat count) = Some bs"
      by (auto simp: array_bytes_def split: if_splits)
    with emits_item have "emits (dom m) (items_loop (encode_array_item env field f) field src (unat count)) m bs"
      by (rule emits_items)
    with assms 3 show ?thesis
      by (auto simp: encode_array_def array_bytes_def z less u split: if_splits)
  qed
qed

end

section \<open>Submessages\<close>

type_synonym message_spec = "mem \<Rightarrow> pb_field list \<Rightarrow> addr \<Rightarrow> byte list option"

text \<open>The second half of \<open>pb_encode_submessage\<close>: a stream with room for \<open>sz\<close> bytes.\<close>

definition nested_write :: "(pb_ostream \<Rightarrow> mem \<Rightarrow> write_result) \<Rightarrow> size \<Rightarrow> pb_ostream \<Rightarrow> mem \<Rightarrow> write_result" where
  "nested_write g sz stream m =
     (if os_bytes_written stream + sz > os_max_size stream
      then Some (False, os_set_error ''stream full'' stream, m)
      else do {
        (status, substream, m) \<leftarrow> g \<lparr>os_callback = os_callback stream, os_state = os_state stream,
          os_max_size = sz, os_bytes_written = 0, os_errmsg = None\<rparr> m;
        let stream = stream\<lparr>os_bytes_written := os_bytes_written stream + os_bytes_written substream,
          os_state := os_state substream, os_errmsg := os_errmsg substream\<rparr>;
        if os_bytes_written substream \<noteq> sz
        then Some (False, os_set_error ''submsg size changed'' stream, m)
        else Some (status, stream, m)
      })"

lemma nested_write_room:
  assumes g: "emits R g m0 bs" and agree: "\<forall>x\<in>R. m x = m0 x" and small: "length bs < max_object"
    and ok: "ostream_ok s m" and disj: "out_window s \<inter> R = {}"
  shows "if length bs \<le> out_room s
    then nested_write g (of_nat (length bs)) s m = Some (True, wrote bs s, overwrite m (os_state s) bs)
    else emit_failed s m (nested_write g (of_nat (length bs)) s m)"
proof (cases "length bs \<le> out_room s")
  case False
  with write_fits [OF ok small] os_set_error_simps(5) [of "''stream full''" s]
  show ?thesis by (simp add: nested_write_def emit_failed_def del: os_set_error_simps(5) not_None_eq)
next
  case True
  let ?sub = "\<lparr>os_callback = os_callback s, os_state = os_state s,
    os_max_size = of_nat (length bs), os_bytes_written = 0, os_errmsg = None\<rparr>"
  have u: "unat (of_nat (length bs) :: size) = length bs" using small by (rule unat_of_nat_object)
  then have room: "out_room ?sub = length bs" by (simp add: out_room_def)
  have "allocated m (os_state s) (length bs)"
    using ok True by (auto simp: ostream_ok_def dest: allocated_le)
  then have "ostream_ok ?sub m"
    using ok small u room by (simp add: ostream_ok_def word_le_nat_alt)
  moreover have "out_window ?sub \<inter> R = {}"
    using disj region_mono [OF True, of "os_state s"] room by (auto simp: out_window_def)
  ultimately have "g ?sub m = Some (True, wrote bs ?sub, overwrite m (os_state ?sub) bs)"
    using agree room by (intro emitsD_room [OF g]) simp_all
  with write_fits [OF ok small] True ok show ?thesis
    by (simp add: nested_write_def wrote_def ostream_ok_def)
qed

lemma sizing_start: "os_bytes_written PB_OSTREAM_SIZING = 0"
  by (simp add: PB_OSTREAM_SIZING_def)

lemma emits_submessage:
  assumes enc: "emits R (\<lambda>s m. encode s flds src m) m bs" and small: "length bs < max_object"
  shows "emits R (\<lambda>s m. pb_encode_submessage_with env encode s flds src m) m
    (varint_bytes (of_nat (length bs)) @ bs)"
proof (rule emits_eqI)
  let ?sz = "of_nat (length bs) :: size" and ?g = "\<lambda>s m. encode s flds src m"
  let ?rest = "\<lambda>s m. if os_callback s = No_callback then pb_write env s (At NULL) ?sz m
    else nested_write ?g ?sz s m"
  have "emits R ?rest m bs"
    unfolding emits_def
  proof (intro allI impI conjI)
    fix s m'
    assume agree: "\<forall>x\<in>R. m' x = m x"
    show "?rest s m' = Some (True, counted bs s, m')" if "os_callback s = No_callback"
      using that by (simp add: pb_write_def counted_def)
    assume ok: "ostream_ok s m'" and "out_window s \<inter> R = {}"
    with nested_write_room [OF enc agree small] show "if length bs \<le> out_room s
      then ?rest s m' = Some (True, wrote bs s, overwrite m' (os_state s) bs)
      else emit_failed s m' (?rest s m')"
      by (simp add: ostream_ok_def)
  qed
  then show "emits R (then_write (\<lambda>s m. pb_encode_varint env s ?sz m) ?rest) m
      (varint_bytes ?sz @ bs)"
    by (rule emits_then [OF emits_varint])
  fix s m'
  assume "\<forall>x\<in>R. m' x = m x"
  then have "encode PB_OSTREAM_SIZING flds src m' = Some (True, counted bs PB_OSTREAM_SIZING, m')"
    using enc by (simp add: emits_def PB_OSTREAM_SIZING_def)
  then show "pb_encode_submessage_with env encode s flds src m' =
      then_write (\<lambda>s m. pb_encode_varint env s ?sz m) ?rest s m'"
    by (simp add: pb_encode_submessage_with_def then_write_def Let_def sizing_start)
      (rule Option.bind_cong [OF refl],
        auto simp: nested_write_def PB_OSTREAM_SIZING_def counted_def Let_def)
qed

definition submessage_payload :: "pb_env \<Rightarrow> message_spec \<Rightarrow> payload_spec" where
  "submessage_payload env spec m field src =
     (if pf_ptr field = NULL then None
      else Option.bind (spec m (fields_at env (pf_ptr field)) src) delimited)"

text \<open>The table of the payloads, in the order of the table of the encoders.\<close>

definition payload_table :: "pb_env \<Rightarrow> message_spec \<Rightarrow> pb_type_t \<Rightarrow> payload_spec" where
  "payload_table env spec t =
     (if t = PB_LTYPE_VARINT then varint_payload
      else if t = PB_LTYPE_UVARINT then uvarint_payload
      else if t = PB_LTYPE_SVARINT then svarint_payload
      else if t = PB_LTYPE_FIXED32 then fixed_payload 4
      else if t = PB_LTYPE_FIXED64 then fixed_payload 8
      else if t = PB_LTYPE_BYTES then bytes_payload
      else if t = PB_LTYPE_STRING then string_payload
      else if t = PB_LTYPE_SUBMESSAGE then submessage_payload env spec
      else if t = PB_LTYPE_FIXED_LENGTH_BYTES then fixed_length_payload
      else (\<lambda>m field src. None))"

definition value_payload :: "pb_env \<Rightarrow> message_spec \<Rightarrow> payload_spec" where
  "value_payload env spec m field = payload_table env spec (pf_ltype field) m field"

definition entry_encodes :: "pb_encoder option \<Rightarrow> payload_spec \<Rightarrow> bool" where
  "entry_encodes func payload \<longleftrightarrow> field_encoder (call_encoder func) payload"

lemma entry_encodes_if:
  "entry_encodes f p \<Longrightarrow> entry_encodes g q \<Longrightarrow> entry_encodes (if c then f else g) (if c then p else q)"
  by simp

lemma entry_encodes_Some: "field_encoder f p \<Longrightarrow> entry_encodes (Some f) p"
  by (simp add: entry_encodes_def field_encoder_def call_encoder_def)

lemma entry_encodes_None: "entry_encodes None (\<lambda>m field src. None)"
  by (simp add: entry_encodes_def field_encoder_def)

definition encode_value :: "pb_env \<Rightarrow> message_encoder \<Rightarrow> pb_encoder" where
  "encode_value env encode stream field =
     call_encoder (PB_ENCODERS env encode (pf_ltype field)) stream field"

text \<open>The contract of a message encoder, and what follows for the field encoders above it.\<close>

locale message_encoding =
  fixes encode :: message_encoder and spec :: message_spec
  assumes encodes_message:
    "spec m flds src = Some bs \<Longrightarrow> emits (dom m) (\<lambda>s m. encode s flds src m) m bs"

sublocale message_encoding \<subseteq> submessage: field_encoder "pb_enc_submessage env encode" "submessage_payload env spec"
  for env
proof
  fix m field src bs
  assume "submessage_payload env spec m field src = Some bs"
  then obtain body where body: "pf_ptr field \<noteq> NULL" "spec m (fields_at env (pf_ptr field)) src = Some body"
      "length body < max_object" "bs = varint_bytes (of_nat (length body)) @ body"
    by (auto simp: submessage_payload_def delimited_Some_iff split: if_splits)
  from emits_submessage [where encode = encode, OF encodes_message [OF body(2)] body(3)] body(1,4)
  show "emits (dom m) (\<lambda>s m. pb_enc_submessage env encode s field src m) m bs"
    by (simp add: pb_enc_submessage_def)
qed

sublocale message_encoding \<subseteq> entry_value: value_encoder "encode_value env encode" "value_payload env spec"
  for env
proof
  show "emits (dom m) (\<lambda>s m. encode_value env encode s field src m) m bs"
    if "value_payload env spec m field src = Some bs" for m field src bs
  proof -
    have "entry_encodes (PB_ENCODERS env encode (pf_ltype field)) (payload_table env spec (pf_ltype field))"
      unfolding PB_ENCODERS_def payload_table_def
      by (intro entry_encodes_if entry_encodes_Some entry_encodes_None varint_encoder.field_encoder_axioms
          uvarint_encoder.field_encoder_axioms svarint_encoder.field_encoder_axioms
          fixed32_encoder.field_encoder_axioms fixed64_encoder.field_encoder_axioms
          bytes_encoder.field_encoder_axioms string_encoder.field_encoder_axioms
          submessage.field_encoder_axioms fixed_length_encoder.field_encoder_axioms)
    then show ?thesis
      using that by (simp add: entry_encodes_def field_encoder_def value_payload_def encode_value_def)
  qed
  show "length bs = 4" if "value_payload env spec m field src = Some bs" "pf_ltype field = PB_LTYPE_FIXED32"
    for m field src bs
    using that by (simp add: value_payload_def payload_table_def fixed_payload_def c_defs load_bytes_length)
  show "length bs = 8" if "value_payload env spec m field src = Some bs" "pf_ltype field = PB_LTYPE_FIXED64"
    for m field src bs
    using that by (simp add: value_payload_def payload_table_def fixed_payload_def c_defs load_bytes_length)
qed

section \<open>Fields and messages\<close>

text \<open>A callback or extension is only described when there is none: its pointer is null.\<close>

definition absent_bytes :: "mem \<Rightarrow> addr \<Rightarrow> byte list option" where
  "absent_bytes m p = (case load_ptr m p of Some q \<Rightarrow> if q = NULL then Some [] else None | None \<Rightarrow> None)"

definition basic_bytes :: "nat \<Rightarrow> pb_env \<Rightarrow> payload_spec \<Rightarrow> payload_spec" where
  "basic_bytes depth env payload m field pData =
     (if unat (pf_ltype field) \<ge> PB_LTYPES_COUNT then None
      else do {
        (p, pSize) \<leftarrow> basic_target depth env field pData m;
        if pf_htype field = PB_HTYPE_REQUIRED then
          (if p = NULL then None else tagged_bytes payload m field p)
        else if pf_htype field = PB_HTYPE_OPTIONAL then do {
          has \<leftarrow> read_has m pSize;
          if has then tagged_bytes payload m field p else Some []
        }
        else if pf_htype field = PB_HTYPE_REPEATED then do {
          count \<leftarrow> read_count m pSize;
          array_bytes payload m field p count
        }
        else if pf_htype field = PB_HTYPE_ONEOF then do {
          which \<leftarrow> read_count m pSize;
          if which = pf_tag field then tagged_bytes payload m field p else Some []
        }
        else None
      })"

definition field_bytes :: "nat \<Rightarrow> pb_env \<Rightarrow> payload_spec \<Rightarrow> payload_spec" where
  "field_bytes depth env payload m field pData =
     (if pf_ltype field = PB_LTYPE_EXTENSION then absent_bytes m pData
      else if pf_atype field = PB_ATYPE_STATIC \<or> pf_atype field = PB_ATYPE_POINTER
      then basic_bytes depth env payload m field pData
      else if pf_atype field = PB_ATYPE_CALLBACK then absent_bytes m pData
      else None)"

primrec concat_options :: "byte list option list \<Rightarrow> byte list option" where
  "concat_options [] = Some []"
| "concat_options (x # xs) = do { bs \<leftarrow> x; cs \<leftarrow> concat_options xs; Some (bs @ cs) }"

primrec message_bytes :: "nat \<Rightarrow> pb_env \<Rightarrow> message_spec" where
  "message_bytes 0 env = (\<lambda>m flds src. None)"
| "message_bytes (Suc depth) env = (\<lambda>m flds src.
     if wf_fields flds
     then concat_options (map (\<lambda>i. field_bytes (Suc depth) env (value_payload env (message_bytes depth env))
       m (flds ! i) (data_at flds src i)) [0..<field_count flds])
     else None)"

lemma basic_target_mono:
  "m \<subseteq>\<^sub>m m' \<Longrightarrow> basic_target d env f p m = Some r \<Longrightarrow> basic_target d env f p m' = Some r"
  using basic_size_ptr_mono load_ptr_mono
  by (cases "pf_atype f = PB_ATYPE_POINTER") (fastforce simp: basic_target_def)+

lemma encode_tagged_cong:
  assumes "\<And>s p m. g s field p m = f s field p m"
  shows "encode_tagged env s field g p m = encode_tagged env s field f p m"
  by (unfold encode_tagged_def assms) (rule refl)

lemma encode_array_cong:
  assumes "\<And>s p m. g s field p m = f s field p m"
  shows "encode_array env s field p c g m = encode_array env s field p c f m"
proof -
  have 1: "(\<lambda>p s. g s field p) = (\<lambda>p s. f s field p)" using assms by (intro ext)
  have 2: "encode_array_item env field g = encode_array_item env field f"
    by (rule ext)+ (unfold encode_array_item_def assms, rule refl)
  show ?thesis
    by (simp only: encode_array_def encode_packed_def packed_size_def 1 2)
qed

lemma emits_absent:
  assumes "absent_bytes m p = Some bs"
  shows "bs = []" "m \<subseteq>\<^sub>m m' \<Longrightarrow> load_ptr m' p = Some NULL"
  using assms load_ptr_mono by (auto simp: absent_bytes_def split: option.splits if_splits)

context message_encoding
begin

lemma emits_basic:
  assumes "basic_bytes depth env (value_payload env spec) m field pData = Some bs"
  shows "emits (dom m) (\<lambda>s m. encode_basic_field depth (PB_ENCODERS env encode) env s field pData m) m bs"
proof -
  let ?f = "encode_value env encode" and ?pl = "value_payload env spec"
  have ltype: "\<not> unat (pf_ltype field) \<ge> PB_LTYPES_COUNT"
    by (rule ccontr) (use assms in \<open>simp add: basic_bytes_def\<close>)
  obtain p pSize where t: "basic_target depth env field pData m = Some (p, pSize)"
    using assms ltype by (cases "basic_target depth env field pData m") (auto simp: basic_bytes_def)
  have func: "call_encoder (PB_ENCODERS env encode (pf_ltype field)) s field q m = ?f s field q m"
    for s q m by (simp add: encode_value_def)
  let ?g = "call_encoder (PB_ENCODERS env encode (pf_ltype field))"
  have tagged_eq: "encode_tagged env s field ?g q m = encode_tagged env s field ?f q m" for s q m
    by (rule encode_tagged_cong) (rule func)
  have array_eq: "encode_array env s field q c ?g m = encode_array env s field q c ?f m" for s q c m
    by (rule encode_array_cong) (rule func)
  note unf = encode_basic_field_def ltype basic_target_mono [OF _ t] if_False Let_def
  note spec = assms [unfolded basic_bytes_def if_not_P [OF ltype] t Option.bind.simps prod.case]
  consider "pf_htype field = PB_HTYPE_REQUIRED" | "pf_htype field = PB_HTYPE_OPTIONAL"
    | "pf_htype field = PB_HTYPE_REPEATED" | "pf_htype field = PB_HTYPE_ONEOF"
    using spec by (auto split: if_splits)
  then show ?thesis
  proof cases
    case 1
    with spec have "tagged_bytes ?pl m field p = Some bs" and p: "p \<noteq> NULL"
      by (auto split: if_splits)
    from entry_value.emits_tagged [OF this(1), of env] show ?thesis
      by (rule emits_dom_eqI) (use 1 p in \<open>simp add: unf tagged_eq\<close>)
  next
    case 2
    with spec obtain has where has: "read_has m pSize = Some has"
        "(if has then tagged_bytes ?pl m field p else Some []) = Some bs"
      by auto
    then have "emits (dom m) (\<lambda>s m. if has then encode_tagged env s field ?f p m else Some (True, s, m)) m bs"
      using entry_value.emits_tagged emits_nothing by (auto split: if_splits)
    then show ?thesis
      by (rule emits_dom_eqI) (use 2 read_has_mono [OF _ has(1)] in \<open>simp add: unf tagged_eq\<close>)
  next
    case 3
    with spec obtain count where count: "read_count m pSize = Some count"
        "array_bytes ?pl m field p count = Some bs"
      by auto
    from entry_value.emits_array [OF this(2), of env] show ?thesis
      by (rule emits_dom_eqI) (use 3 read_count_mono [OF _ count(1)] in \<open>simp add: unf array_eq\<close>)
  next
    case 4
    with spec obtain w where w: "read_count m pSize = Some w"
        "(if w = pf_tag field then tagged_bytes ?pl m field p else Some []) = Some bs"
      by auto
    then have "emits (dom m) (\<lambda>s m. if w = pf_tag field then encode_tagged env s field ?f p m
        else Some (True, s, m)) m bs"
      using entry_value.emits_tagged emits_nothing by (auto split: if_splits)
    then show ?thesis
      by (rule emits_dom_eqI) (use 4 read_count_mono [OF _ w(1)] in \<open>simp add: unf tagged_eq\<close>)
  qed
qed

end

context message_encoding
begin

lemma emits_field:
  assumes "field_bytes depth env (value_payload env spec) m field p = Some bs"
  shows "emits (dom m) (\<lambda>s m. if pf_ltype field = PB_LTYPE_EXTENSION
      then encode_extension_field fld env s field p m
      else encode_field depth (PB_ENCODERS env encode) env s field p m) m bs"
proof -
  consider (ext) "pf_ltype field = PB_LTYPE_EXTENSION"
    | (basic) "pf_ltype field \<noteq> PB_LTYPE_EXTENSION"
        "pf_atype field = PB_ATYPE_STATIC \<or> pf_atype field = PB_ATYPE_POINTER"
    | (callback) "pf_ltype field \<noteq> PB_LTYPE_EXTENSION" "pf_atype field = PB_ATYPE_CALLBACK"
    using assms by (auto simp: field_bytes_def split: if_splits)
  then show ?thesis
  proof cases
    case ext
    with assms have "absent_bytes m p = Some bs" by (simp add: field_bytes_def)
    note a = emits_absent [OF this]
    show ?thesis unfolding a(1)
      by (rule emits_dom_eqI [OF emits_nothing])
        (use ext a(2) in \<open>simp add: encode_extension_field_def encode_extension_loop.simps\<close>)
  next
    case basic
    then have "basic_bytes depth env (value_payload env spec) m field p = Some bs"
      using assms by (simp add: field_bytes_def)
    from emits_basic [OF this] basic show ?thesis by (simp add: encode_field_def)
  next
    case callback
    with assms have "absent_bytes m p = Some bs" by (simp add: field_bytes_def)
    note a = emits_absent [OF this]
    show ?thesis unfolding a(1)
      by (rule emits_dom_eqI [OF emits_nothing])
        (use callback a(2) in \<open>simp add: encode_field_def encode_callback_field_def\<close>)
  qed
qed

lemma emits_fields_loop:
  assumes wf: "wf_fields flds" and "i < field_count flds"
    and "concat_options (map (\<lambda>i. field_bytes depth env (value_payload env spec)
      m (flds ! i) (data_at flds src i)) [i..<field_count flds]) = Some bs"
  shows "emits (dom m) (\<lambda>s m. encode_fields_loop (encode_field depth (PB_ENCODERS env encode) env) env
    (iter_at flds src i) s m) m bs"
  using assms(2,3)
proof (induction "field_count flds - i" arbitrary: i bs)
  case 0
  then show ?case by simp
next
  case (Suc k)
  let ?fld = "encode_field depth (PB_ENCODERS env encode) env"
  have i: "i < length flds" "[i..<field_count flds] = i # [Suc i..<field_count flds]"
    using Suc.prems(1) by (simp_all add: upt_conv_Cons)
  from Suc.prems(2) [unfolded i(2)] obtain xs ys where xs: "field_bytes depth env (value_payload env spec) m (flds ! i)
      (data_at flds src i) = Some xs" "bs = xs @ ys"
    and ys: "concat_options (map (\<lambda>i. field_bytes depth env (value_payload env spec) m (flds ! i)
      (data_at flds src i)) [Suc i..<field_count flds]) = Some ys"
    by auto
  have rest: "emits (dom m) (\<lambda>s m. if Suc i < field_count flds
      then encode_fields_loop ?fld env (iter_at flds src (Suc i)) s m else Some (True, s, m)) m ys"
  proof (cases "Suc i < field_count flds")
    case True
    with Suc.hyps(1) [of "Suc i" ys] Suc.hyps(2) ys show ?thesis by simp
  next
    case False
    with ys emits_nothing show ?thesis by simp
  qed
  show ?case unfolding xs(2)
    by (rule emits_thenI [OF emits_field [OF xs(1)] rest, of _ ?fld])
      (subst encode_fields_loop.simps,
        simp add: i(1) iter_next [OF wf Suc.prems(1)] cong: if_cong)
qed

end

lemma message_encoding_pb_encode: "message_encoding (pb_encode depth env) (message_bytes depth env)"
proof (induction depth)
  case 0
  show ?case by unfold_locales simp
next
  case (Suc depth)
  note enc = message_encoding.emits_fields_loop [OF Suc]
  show ?case
  proof
    fix m flds src bs
    assume *: "message_bytes (Suc depth) env m flds src = Some bs"
    then have wf: "wf_fields flds" by (simp split: if_splits)
    let ?fld = "encode_field (Suc depth) (PB_ENCODERS env (pb_encode depth env)) env"
    show "emits (dom m) (\<lambda>s m. pb_encode (Suc depth) env s flds src m) m bs"
    proof (cases "0 < field_count flds")
      case True
      have "emits (dom m) (\<lambda>s m. encode_fields_loop ?fld env (iter_at flds src 0) s m) m bs"
        by (rule enc [OF wf True]) (use * wf in simp)
      then show ?thesis
        using True by (simp add: encode_message_with_def iter_begin_wf [OF wf])
    next
      case False
      with * wf have "bs = []" by simp
      with emits_nothing False show ?thesis
        by (simp add: encode_message_with_def iter_begin_wf [OF wf])
    qed
  qed
qed

interpretation message: message_encoding "pb_encode depth env" "message_bytes depth env" for depth env
  by (rule message_encoding_pb_encode)

lemma emits_pb_encode_submessage:
  assumes "message_bytes depth env m flds src = Some bs" "length bs < max_object"
  shows "emits (dom m) (\<lambda>s m. pb_encode_submessage depth env s flds src m) m
    (varint_bytes (of_nat (length bs)) @ bs)"
  using emits_submessage [where encode = "pb_encode depth env", OF message.encodes_message [OF assms(1)] assms(2)]
  by (simp add: pb_encode_submessage_def)

section \<open>The encoder on a memory\<close>

lemma pb_encode_at:
  assumes "message_bytes depth env part flds src = Some bs" "part \<subseteq>\<^sub>m m" "ostream_ok s m"
    "out_window s \<inter> dom part = {}"
  shows "if length bs \<le> out_room s
    then pb_encode depth env s flds src m = Some (True, wrote bs s, overwrite m (os_state s) bs)
    else emit_failed s m (pb_encode depth env s flds src m)"
proof -
  have agree: "\<forall>x\<in>dom part. m x = part x" using assms(2) by (simp add: map_le_def)
  note e = message.encodes_message [OF assms(1)]
  show ?thesis
    using emitsD_room [OF e assms(3,4) agree] emitsD_full [OF e assms(3,4) agree] by simp
qed

lemma pb_get_encoded_size_at:
  assumes "message_bytes depth env part flds src = Some bs" "part \<subseteq>\<^sub>m m"
  shows "pb_get_encoded_size depth env flds src m = Some (Some (of_nat (length bs)), m)"
proof -
  have "emits (dom part) (\<lambda>s m. pb_encode depth env s flds src m) m bs"
    using message.encodes_message [OF assms(1)]
    by (rule emits_cong_mem) (use assms(2) in \<open>simp add: map_le_def\<close>)
  from emitsD_sizing [OF this, of PB_OSTREAM_SIZING] show ?thesis
    by (simp add: pb_get_encoded_size_def PB_OSTREAM_SIZING_def)
qed

end
