(* ===== verification/Wire_Properties.thy ===== *)
theory Wire_Properties
  imports Pb_Wire
begin

text \<open>
  The properties of the wire formats: what the encoder's helper functions write, and that
  the decoder's readers read it back.  The witnesses run on one page of zeroed memory.
\<close>

section \<open>Concrete memory\<close>

definition zero_page :: "addr \<Rightarrow> nat \<Rightarrow> mem" where
  "zero_page a n = (\<lambda>x. if a \<le> x \<and> x < a + int n then Some 0 else None)"

definition no_callbacks :: pb_env where
  "no_callbacks = \<lparr>read_cb = (\<lambda>_ _ _ _. None), write_cb = (\<lambda>_ _ _ _ _. None),
     field_decode_cb = (\<lambda>_ _ _ _ _. None), field_encode_cb = (\<lambda>_ _ _ _ _. None),
     ext_decode_cb = (\<lambda>_ _ _ _ _ _. None), ext_encode_cb = (\<lambda>_ _ _ _. None),
     ext_type_at = (\<lambda>_. None), fields_at = (\<lambda>_. [PB_LAST_FIELD]), raw_buffer = 0\<rparr>"

lemma allocated_zero_page [simp]: "allocated (zero_page a n) a n"
  by (auto simp: allocated_def zero_page_def in_region dom_def)

lemma stream_at_zero_page:
  assumes "unat n = k"
  shows "stream_at (pb_istream_from_buffer a n) (zero_page a k) (replicate k 0)"
  using assms by (simp add: stream_at_def pb_istream_from_buffer_def load_bytes_iff zero_page_def)

text \<open>A page whose first 32 bytes are a buffer and that holds \<open>bs\<close> at its byte 32.\<close>

definition demo_page :: "byte list \<Rightarrow> mem" where
  "demo_page bs = overwrite (zero_page 0x1000 64) 0x1020 bs"

lemma allocated_zero_sub:
  "a \<le> b \<Longrightarrow> b + int n \<le> a + int k \<Longrightarrow> allocated (zero_page a k) b n"
  by (rule allocated_sub [OF allocated_zero_page])

lemma demo_page:
  assumes "length bs = n" "n \<le> 16"
  shows "allocated (demo_page bs) 0x1000 (unat (32 :: size))"
    "load_bytes (demo_page bs) 0x1020 n = Some bs"
    "region 0x1000 (unat (32 :: size)) \<inter> region 0x1020 n = {}"
    "allocated (demo_page bs) 0x1030 16"
proof -
  have "allocated (zero_page 0x1000 64) 0x1020 (length bs)"
    using assms by (intro allocated_zero_sub) simp_all
  then have dom: "dom (demo_page bs) = dom (zero_page 0x1000 64)"
    unfolding demo_page_def by (rule overwrite_dom)
  have "allocated (zero_page 0x1000 64) 0x1000 (unat (32 :: size))"
    by (rule allocated_zero_sub) simp_all
  then show "allocated (demo_page bs) 0x1000 (unat (32 :: size))"
    by (simp only: allocated_dom [OF dom])
  have "allocated (zero_page 0x1000 64) 0x1030 16"
    by (rule allocated_zero_sub) simp_all
  then show "allocated (demo_page bs) 0x1030 16"
    by (simp only: allocated_dom [OF dom])
  show "load_bytes (demo_page bs) 0x1020 n = Some bs"
    unfolding demo_page_def assms(1) [symmetric] by (rule load_overwrite)
  show "region 0x1000 (unat (32 :: size)) \<inter> region 0x1020 n = {}"
    by (auto simp: in_region)
qed

lemma small_object: "unat n \<le> 1000 \<Longrightarrow> unat n < max_object"
  by (simp add: max_object_def)

text \<open>An emitter whose bytes fit a fresh buffer succeeds there.\<close>

lemma emits_fresh:
  assumes "emits R g m bs" "allocated m buf (unat bufsize)" "unat bufsize < max_object"
    "region buf (unat bufsize) \<inter> R = {}" "length bs \<le> unat bufsize"
  shows "\<exists>os m'. g (pb_ostream_from_buffer buf bufsize) m = Some (True, os, m')"
proof -
  note ok = from_buffer_ok [OF assms(2,3)]
  have "g (pb_ostream_from_buffer buf bufsize) m =
      Some (True, wrote bs (pb_ostream_from_buffer buf bufsize),
        overwrite m (os_state (pb_ostream_from_buffer buf bufsize)) bs)"
    using emitsD_room [OF assms(1) ok(1), unfolded ok] assms(4,5) by blast
  then show ?thesis by blast
qed

section \<open>Base-128 integers\<close>

text \<open>C38: what \<open>pb_encode_varint\<close> writes to a buffer, \<open>pb_decode_varint\<close> reads back from it as
  the same number, consuming every byte that was written.\<close>

lemma varint_roundtrip:
  assumes "allocated m buf (unat bufsize)" "unat bufsize < max_object"
    "pb_encode_varint env (pb_ostream_from_buffer buf bufsize) v m = Some (True, os, m')"
  shows "\<exists>s. pb_decode_varint env (pb_istream_from_buffer buf (os_bytes_written os)) m' =
      Some (Some v, s, m') \<and> is_bytes_left s = 0"
  by (rule varint_reader.encode_then_read [OF emits_varint [where R = "{}"] assms(1,2) _ assms(3)])
    (simp_all add: p_varint_varint_bytes length_varint_bytes)

lemma varint_roundtrip_witness:
  "\<exists>os m' s. pb_encode_varint no_callbacks (pb_ostream_from_buffer 0x1000 10) 300 (zero_page 0x1000 10) =
      Some (True, os, m') \<and>
    pb_decode_varint no_callbacks (pb_istream_from_buffer 0x1000 (os_bytes_written os)) m' =
      Some (Some 300, s, m') \<and> is_bytes_left s = 0"
proof -
  have small: "allocated (zero_page 0x1000 10) 0x1000 (unat (10 :: size))"
      "unat (10 :: size) < max_object"
    by (simp_all add: max_object_def)
  obtain os m' where "pb_encode_varint no_callbacks (pb_ostream_from_buffer 0x1000 10) 300
      (zero_page 0x1000 10) = Some (True, os, m')"
    using emits_fresh [OF emits_varint [of "{}"] small] length_varint_bytes by fastforce
  with varint_roundtrip [OF small this] show ?thesis by blast
qed

text \<open>\<open>pb_encode_varint\<close> writes the base-128 form of the number, one to ten bytes, when the
  buffer has room for all of it; otherwise it writes nothing, returns false and reports a
  full stream.\<close>

lemma varint_encoding:
  assumes "ostream_ok s m"
  shows "pb_encode_varint env s v m =
    (if length (varint_bytes v) \<le> out_room s
     then Some (True, wrote (varint_bytes v) s, overwrite m (os_state s) (varint_bytes v))
     else Some (False, os_set_error ''stream full'' s, m))"
proof (cases "length (varint_bytes v) \<le> out_room s")
  case True
  with emitsD_room [OF emits_varint [where R = "{}"] assms] show ?thesis by simp
next
  case False
  have "length (varint_bytes v) < max_object"
    using length_varint_bytes [of v] by (simp add: max_object_def)
  with write_fits [OF assms] False assms show ?thesis
    by (simp add: pb_encode_varint_eq pb_write_def ostream_ok_def)
qed

text \<open>the base-128 form is the shortest one: a number takes at most \<open>k\<close> bytes exactly if it
  has at most \<open>7 * k\<close> bits.\<close>

lemma varint_shortest:
  assumes "0 < k"
  shows "length (varint_bytes v) \<le> k \<longleftrightarrow> unat v < 2 ^ (7 * k)"
  using assms by (rule length_varint_bytes_iff)

text \<open>signed numbers survive the zigzag encoding: what \<open>pb_encode_svarint\<close> writes,
  \<open>pb_decode_svarint\<close> reads back.\<close>

lemma svarint_roundtrip:
  assumes "allocated m buf (unat bufsize)" "unat bufsize < max_object"
    "pb_encode_svarint env (pb_ostream_from_buffer buf bufsize) v m = Some (True, os, m')"
  shows "\<exists>s. pb_decode_svarint env (pb_istream_from_buffer buf (os_bytes_written os)) m' =
      Some (Some v, s, m') \<and> is_bytes_left s = 0"
  by (rule svarint_reader.encode_then_read [OF emits_svarint [where R = "{}"] assms(1,2) _ assms(3)])
    (simp_all add: p_map_def p_varint_varint_bytes length_varint_bytes unzigzag_zigzag)

text \<open>C39: \<open>pb_decode_varint\<close> always returns on a memory stream: it leaves memory alone, moves the
  stream within its window by at most ten bytes, and on success the bytes it passed spell
  the number in base 128.\<close>

lemma decode_varint_total:
  assumes "stream_at s m xs"
  shows "\<exists>r k s'. pb_decode_varint env s m = Some (r, s', m) \<and> k \<le> 10 \<and> k \<le> length xs \<and>
    stream_at s' m (drop k xs) \<and> is_end s' = is_end s \<and>
    (\<forall>v. r = Some v \<longrightarrow> s' = advance k s \<and> v = varint_value (take k xs))"
proof -
  obtain r s' where run: "pb_decode_varint env s m = Some (r, s', m)"
    using varint_reader.total [OF assms, of env] varint_reader.window(2) [OF assms] by metis
  define k where "k = snd (p_varint 10 xs :: u64 parse)"
  have "k \<le> 10" "\<And>v. fst (p_varint 10 xs) = Inr v \<Longrightarrow> v = (varint_value (take k xs) :: u64)"
    by (auto simp: k_def p_varint_def Let_def split: if_splits)
  moreover have "k \<le> length xs" unfolding k_def by (rule p_varint_consumes)
  ultimately show ?thesis
    using run varint_reader.window [OF assms run] varint_reader.success [OF assms]
    by (intro exI [of _ r] exI [of _ k] exI [of _ s']) (auto simp: k_def)
qed

lemma decode_varint_total_witness:
  "\<exists>r k s'. pb_decode_varint no_callbacks (pb_istream_from_buffer 0x1000 4) (zero_page 0x1000 4) =
    Some (r, s', zero_page 0x1000 4) \<and> k \<le> 10 \<and> k \<le> 4 \<and>
    stream_at s' (zero_page 0x1000 4) (drop k (replicate 4 0))"
proof -
  have "stream_at (pb_istream_from_buffer 0x1000 4) (zero_page 0x1000 4) (replicate 4 0)"
    by (rule stream_at_zero_page) simp
  from decode_varint_total [OF this, of no_callbacks] show ?thesis by auto
qed

text \<open>where the 32-bit reader succeeds, the 64-bit reader succeeds too, stops at the same
  byte, and the value is the low half of its value.\<close>

lemma varint32_is_low_half:
  assumes "stream_at s m xs" "pb_decode_varint32 env s m = Some (Some v, s', m')"
  shows "\<exists>w. pb_decode_varint env s m = Some (Some w, s', m') \<and> v = ucast w"
proof -
  from varint32_reader.success [OF assms]
  have v: "fst (p_varint 5 xs) = Inr v" "s' = advance (snd (p_varint 5 xs :: u32 parse)) s"
    by simp_all
  then obtain w :: u64 where w: "p_varint 10 xs = (Inr w, snd (p_varint 5 xs :: u32 parse))" "v = ucast w"
    by (metis p_varint_widths prod.collapse)
  with v varint32_reader.window(2) [OF assms] show ?thesis
    by (simp add: pb_decode_varint_at [OF assms(1)] parse_result_def)
qed

section \<open>Numbers of fixed width, and tags\<close>

lemma fixed_read_back:
  assumes g: "emits (region src n) g m bs" and load: "load_bytes m src n = Some bs"
    and buf: "allocated m buf (unat bufsize)" "unat bufsize < max_object"
      "region buf (unat bufsize) \<inter> region src n = {}"
    and run: "g (pb_ostream_from_buffer buf bufsize) m = Some (True, os, m')"
    and dest: "allocated m dest n"
    and dec: "\<And>s m xs. stream_at s m xs \<Longrightarrow> dec s m =
      (if length xs < n then Some (False, is_set_error ''end-of-stream'' s, m)
       else map_option (\<lambda>m'. (True, advance n s, m')) (store_bytes m dest (take n xs)))"
  shows "\<exists>s m''. dec (pb_istream_from_buffer buf (os_bytes_written os)) m' = Some (True, s, m'') \<and>
    is_bytes_left s = 0 \<and> load_bytes m'' dest n = Some bs"
proof -
  note w = emitted_window [OF g buf run]
  have len: "length bs = n" using load by (rule load_bytes_length)
  have "allocated m' dest n"
    using dest w(3,4) overwrite_dom [of m buf bs] allocated_le [OF buf(1)] by (simp add: allocated_def)
  then obtain m'' where m'': "store_bytes m' dest bs = Some m''"
    using len store_bytes_defined by metis
  then have "load_bytes m'' dest n = Some bs" using load_store_same len by metis
  moreover have "os_bytes_written os = of_nat n" by (simp flip: w(2) len)
  ultimately show ?thesis
    using dec [OF w(1)] m'' len by (simp add: pb_istream_from_buffer_def)
qed

text \<open>a \<open>fixed32\<close> or \<open>float\<close> member written by \<open>pb_encode_fixed32\<close> is stored unchanged by
  \<open>pb_decode_fixed32\<close>.\<close>

lemma fixed32_roundtrip:
  assumes "allocated m buf (unat bufsize)" "unat bufsize < max_object"
    "load_bytes m src 4 = Some bs" "region buf (unat bufsize) \<inter> region src 4 = {}"
    "pb_encode_fixed32 env (pb_ostream_from_buffer buf bufsize) src m = Some (True, os, m')"
    "allocated m dest 4"
  shows "\<exists>s m''. pb_decode_fixed32 env (pb_istream_from_buffer buf (os_bytes_written os)) dest m' =
      Some (True, s, m'') \<and> is_bytes_left s = 0 \<and> load_bytes m'' dest 4 = Some bs"
  by (rule fixed_read_back [OF emits_fixed32 [OF assms(3) subset_refl] assms(3,1,2,4,5,6)])
    (rule pb_decode_fixed32_at)

text \<open>the same for \<open>fixed64\<close> and \<open>double\<close> members.\<close>

lemma fixed64_roundtrip:
  assumes "allocated m buf (unat bufsize)" "unat bufsize < max_object"
    "load_bytes m src 8 = Some bs" "region buf (unat bufsize) \<inter> region src 8 = {}"
    "pb_encode_fixed64 env (pb_ostream_from_buffer buf bufsize) src m = Some (True, os, m')"
    "allocated m dest 8"
  shows "\<exists>s m''. pb_decode_fixed64 env (pb_istream_from_buffer buf (os_bytes_written os)) dest m' =
      Some (True, s, m'') \<and> is_bytes_left s = 0 \<and> load_bytes m'' dest 8 = Some bs"
  by (rule fixed_read_back [OF emits_fixed64 [OF assms(3) subset_refl] assms(3,1,2,4,5,6)])
    (rule pb_decode_fixed64_at)

text \<open>a tag with a legal field number (1 to \<open>2 ^ 29 - 1\<close>) and wire type is read back by
  \<open>pb_decode_tag\<close> as the same pair.\<close>

lemma tag_roundtrip:
  assumes "allocated m buf (unat bufsize)" "unat bufsize < max_object"
    "0 < unat n" "unat n < 2 ^ 29" "unat wt < 8"
    "pb_encode_tag env (pb_ostream_from_buffer buf bufsize) wt n m = Some (True, os, m')"
  shows "\<exists>s. pb_decode_tag env (pb_istream_from_buffer buf (os_bytes_written os)) m' =
      Some (\<lparr>tr_ok = True, tr_wire_type = wt, tr_tag = n, tr_eof = False\<rparr>, s, m')"
proof -
  note w = emitted_window [OF emits_tag [of "{}"] assms(1,2) _ assms(6)]
  note t = tag_value_bits [OF assms(5,4)]
  have "ucast (tag_value wt n) \<noteq> (0 :: u32)" using t(2) assms(3) by auto
  then show ?thesis
    using pb_decode_tag_at [OF w(1), of env] t
      p_varint_varint_bytes [OF length_varint_bytes32 [OF t(3)], where ?'a = 32]
    by (simp add: tag_of_number_def)
qed

section \<open>Skipping\<close>

text \<open>C27: \<open>pb_skip_field\<close> always returns on a memory stream, for every wire type and every input:
  it succeeds exactly if a payload of that type is in front, and then stands behind it; memory
  is unchanged and the stream stays in its window.\<close>

lemma skip_field_total:
  assumes "stream_at s m xs"
  shows "\<exists>s'. pb_skip_field env s wt m = Some (payload_length wt xs \<noteq> None, s', m) \<and>
    (\<forall>k. payload_length wt xs = Some k \<longrightarrow> s' = advance k s) \<and> is_end s' = is_end s"
  using pb_skip_field_at [OF assms, of env wt] by blast

lemma skip_field_total_witness:
  "\<exists>s'. pb_skip_field no_callbacks (pb_istream_from_buffer 0x1000 4) 3 (zero_page 0x1000 4) =
    Some (payload_length 3 (replicate 4 0) \<noteq> None, s', zero_page 0x1000 4)"
proof -
  have "stream_at (pb_istream_from_buffer 0x1000 4) (zero_page 0x1000 4) (replicate 4 0)"
    by (rule stream_at_zero_page) simp
  from skip_field_total [OF this, of no_callbacks 3] show ?thesis by blast
qed

section \<open>Substreams\<close>

text \<open>a length-delimited part is read through a substream over exactly its bytes; however
  the substream is used within its window, closing it leaves the parent stream directly behind
  the part, and its end has not moved.\<close>

lemma substream_discipline:
  assumes at: "stream_at s m xs" and make: "pb_make_string_substream env s m = Some (Some sub, parent, m1)"
    and used: "is_end sub' = is_end sub" "stream_at sub' m' ys"
    and same: "\<And>x. x \<in> region (is_state s) (length xs) \<Longrightarrow> m' x = m x"
  shows "\<exists>n k s'. p_varint 5 xs = (Inr (n :: u32), k) \<and> m1 = m \<and>
    stream_at sub m (take (unat n) (drop k xs)) \<and>
    pb_close_string_substream env parent sub' m' = Some (True, s', m') \<and>
    stream_at s' m' (drop (k + unat n) xs) \<and> is_end s' = is_end s"
proof -
  obtain r k where r: "p_varint 5 xs = (r :: string + u32, k)" by fastforce
  with make obtain n where n: "r = Inr n" "unat n \<le> length xs - k" "m1 = m"
      "sub = (advance k s)\<lparr>is_bytes_left := ucast n\<rparr>"
      "parent = (advance k s)\<lparr>is_bytes_left := is_bytes_left (advance k s) - ucast n\<rparr>"
    by (cases r) (auto simp: pb_make_string_substream_at [OF at] split: if_splits)
  have k: "k \<le> length xs" using r p_varint_consumes [of 5 xs] by (metis snd_conv)
  have u: "unat (ucast n :: u64) = unat n" by (rule unat_ucast_up) simp
  have "stream_at (advance k s) m (drop k xs)" using stream_at_advance [OF at k] .
  from stream_at_take [OF this, of "ucast n"] have "stream_at sub m (take (unat n) (drop k xs))"
    using n k by (simp add: u)
  with substream_close [OF at _ n(2) _ used(2) same] r n used(1) show ?thesis
    by blast
qed

end
