(* ===== verification/Encode_Properties.thy ===== *)
theory Encode_Properties
  imports Pb_Message Wire_Properties
begin

text \<open>
  The properties of the message encoder, and a small message on which the witnesses of this
  and the later theories run: a required \<open>int32\<close>, an optional string of at most seven
  characters and a repeated \<open>uint32\<close> with room for two entries, as the generator of nanopb
  lays them out,

    struct { int32_t a; bool has_s; char s[8]; pb_size_t r_count; uint32_t r[2]; };
\<close>

section \<open>A message\<close>

definition demo_fields :: "pb_field list" where
  "demo_fields =
     [PB_REQUIRED_STATIC 1 4 (PB_DATAOFFSET_FIRST 0) PB_LTYPE_VARINT NULL,
      PB_OPTIONAL_STATIC 2 8 (PB_DATAOFFSET_OTHER 5 0 4) (4 - 5) PB_LTYPE_STRING NULL,
      PB_REPEATED_STATIC 3 4 2 (PB_DATAOFFSET_OTHER 20 5 8) (16 - 20) PB_LTYPE_UVARINT NULL,
      PB_LAST_FIELD]"

definition demo_struct :: "byte list" where
  "demo_struct = [150, 0, 0, 0,  1,  104, 105, 0, 0, 0, 0, 0, 0,  0, 0, 0,
     2, 0, 0, 0,  1, 0, 0, 0,  44, 1, 0, 0]"

definition demo_message :: "byte list" where
  "demo_message = [0x08, 0x96, 0x01,  0x12, 0x02, 104, 105,  0x1A, 0x03, 0x01, 0xAC, 0x02]"

definition block :: "addr \<Rightarrow> byte list \<Rightarrow> mem" where
  "block a bs x = (if a \<le> x \<and> x < a + int (length bs) then Some (bs ! nat (x - a)) else None)"

lemma demo_message_bytes:
  "message_bytes 1 no_callbacks (block 0x2000 demo_struct) demo_fields 0x2000 = Some demo_message"
  by code_simp

lemma dom_block: "dom (block a bs) = region a (length bs)"
  by (auto simp: block_def in_region dom_def)

lemma length_demo_message: "length demo_message = 12"
  by (simp add: demo_message_def)

definition demo_memory :: mem where
  "demo_memory = zero_page 0x1000 64 ++ block 0x2000 demo_struct"

lemma demo_memory:
  "block 0x2000 demo_struct \<subseteq>\<^sub>m demo_memory" "allocated demo_memory 0x1000 64"
  "region 0x1000 64 \<inter> dom (block 0x2000 demo_struct) = {}"
proof -
  show "block 0x2000 demo_struct \<subseteq>\<^sub>m demo_memory" by (simp add: demo_memory_def)
  show "allocated demo_memory 0x1000 64"
    using allocated_zero_page [of "0x1000" 64] by (auto simp: demo_memory_def allocated_def)
  show "region 0x1000 64 \<inter> dom (block 0x2000 demo_struct) = {}"
    by (auto simp: dom_block in_region)
qed

lemma demo_buffer:
  assumes "unat n \<le> 64"
  shows "allocated demo_memory 0x1000 (unat n)" "unat n < max_object"
    "region 0x1000 (unat n) \<inter> dom (block 0x2000 demo_struct) = {}"
  using assms demo_memory region_mono [OF assms, of "0x1000"] allocated_le
  by (auto simp: max_object_def)

section \<open>Encoding a message\<close>



text \<open>C21: \<open>pb_get_encoded_size\<close> delivers exactly the number of bytes that \<open>pb_encode\<close> writes, and
  changes no memory.\<close>

theorem encoded_size_exact:
  assumes "message_bytes depth env part flds src = Some bs" "part \<subseteq>\<^sub>m m"
  shows "pb_get_encoded_size depth env flds src m = Some (Some (of_nat (length bs)), m)"
  by (rule pb_get_encoded_size_at [OF assms])

theorem encoded_size_exact_witness:
  "pb_get_encoded_size 1 no_callbacks demo_fields 0x2000 demo_memory = Some (Some 12, demo_memory)"
  using encoded_size_exact [OF demo_message_bytes demo_memory(1)] by (simp add: length_demo_message)

text \<open>the size from \<open>pb_get_encoded_size\<close> is enough and is needed: a buffer of that size holds
  the whole message after \<open>pb_encode\<close>, which has counted as many bytes; in any smaller buffer
  \<open>pb_encode\<close> returns false.\<close>

theorem encoded_size_sufficient:
  assumes "message_bytes depth env part flds src = Some bs" "part \<subseteq>\<^sub>m m"
    "pb_get_encoded_size depth env flds src m = Some (Some n, m)" "length bs < max_object"
    "allocated m buf (unat n)" "region buf (unat n) \<inter> dom part = {}"
  shows "(\<exists>os m'. pb_encode depth env (pb_ostream_from_buffer buf n) flds src m = Some (True, os, m') \<and>
      os_bytes_written os = n \<and> load_bytes m' buf (unat n) = Some bs) \<and>
    (\<forall>k. k < n \<longrightarrow> (\<exists>os m'. pb_encode depth env (pb_ostream_from_buffer buf k) flds src m =
      Some (False, os, m') \<and> os_errmsg os \<noteq> None))"
proof -
  have "n = of_nat (length bs)"
    using assms(3) pb_get_encoded_size_at [OF assms(1,2)] by simp
  then have n: "unat n = length bs" using assms(4) by (simp add: unat_of_nat_object)
  have limit: "unat n < max_object" using assms(4) n by simp
  note ok = from_buffer_ok [OF assms(5) limit]
  have "out_window (pb_ostream_from_buffer buf n) \<inter> dom part = {}" using assms(6) ok(3) by simp
  from pb_encode_at [OF assms(1,2) ok(1) this]
  have "pb_encode depth env (pb_ostream_from_buffer buf n) flds src m =
      Some (True, wrote bs (pb_ostream_from_buffer buf n), overwrite m buf bs)"
    by (simp add: ok(2) n) (simp add: pb_ostream_from_buffer_def)
  moreover have "os_bytes_written (wrote bs (pb_ostream_from_buffer buf n)) = n"
    by (simp add: pb_ostream_from_buffer_def flip: n)
  ultimately have full: "\<exists>os m'. pb_encode depth env (pb_ostream_from_buffer buf n) flds src m =
      Some (True, os, m') \<and> os_bytes_written os = n \<and> load_bytes m' buf (unat n) = Some bs"
    using load_overwrite [of m buf bs] n by simp
  have "\<exists>os m'. pb_encode depth env (pb_ostream_from_buffer buf k) flds src m =
      Some (False, os, m') \<and> os_errmsg os \<noteq> None" if "k < n" for k
  proof -
    from that have k: "unat k < unat n" by (simp add: word_less_nat_alt)
    then have "allocated m buf (unat k)" using assms(5) by (auto intro: allocated_le)
    note okk = from_buffer_ok [OF this]
    have kl: "unat k < max_object" using k limit by simp
    have "region buf (unat k) \<inter> dom part = {}"
      using assms(6) region_mono [of "unat k" "unat n" buf] k by auto
    with pb_encode_at [OF assms(1,2) okk(1) [OF kl]] k n show ?thesis
      by (auto simp: okk(2,3) [OF kl] emit_failed_def)
  qed
  with full show ?thesis by blast
qed

text \<open>C22: \<open>pb_encode_delimited\<close> frames the message: on what it wrote, \<open>pb_make_string_substream\<close>
  gives a substream over exactly the bytes of the message.\<close>

theorem delimited_framing:
  assumes "message_bytes depth env part flds src = Some bs" "part \<subseteq>\<^sub>m m" "length bs < 2 ^ 32"
    "allocated m buf (unat n)" "unat n < max_object" "region buf (unat n) \<inter> dom part = {}"
    "pb_encode_delimited depth env (pb_ostream_from_buffer buf n) flds src m = Some (True, os, m')"
  shows "\<exists>sub parent. pb_make_string_substream env (pb_istream_from_buffer buf (os_bytes_written os)) m' =
      Some (Some sub, parent, m') \<and> stream_at sub m' bs \<and> is_bytes_left parent = 0"
proof -
  let ?l = "varint_bytes (of_nat (length bs))"
  have small: "length bs < max_object" using assms(3) by (simp add: max_object_def)
  have u: "unat (of_nat (length bs) :: size) = length bs" using small by (rule unat_of_nat_object)
  have "emits (dom part) (\<lambda>s m. pb_encode_submessage depth env s flds src m) m (?l @ bs)"
    using emits_pb_encode_submessage [OF assms(1) small]
    by (rule emits_cong_mem) (use assms(2) in \<open>simp add: map_le_def\<close>)
  note w = emitted_window [OF this assms(4-6)]
  have run: "pb_encode_submessage depth env (pb_ostream_from_buffer buf n) flds src m = Some (True, os, m')"
    using assms(7) by (simp add: pb_encode_delimited_def)
  let ?s = "pb_istream_from_buffer buf (os_bytes_written os)"
  have at: "stream_at ?s m' (?l @ bs)" using w(1) [OF run] .
  have "length ?l \<le> 5" by (rule length_varint_bytes32) (use assms(3) u in simp)
  then have l: "p_varint 5 ?l = (Inr (ucast (of_nat (length bs) :: size) :: u32), length ?l)"
    by (rule p_varint_varint_bytes)
  have "p_varint 5 (?l @ bs) = (p_varint 5 ?l :: u32 parse)"
    by (rule p_varint_prefix [of 5 ?l "ucast (of_nat (length bs) :: size)"]) (simp_all add: l)
  with l have p: "p_varint 5 (?l @ bs) = (Inr (ucast (of_nat (length bs) :: size) :: u32), length ?l)"
    by simp
  have n: "unat (ucast (of_nat (length bs) :: size) :: u32) = length bs"
    using assms(3) u by (simp add: unsigned_ucast_eq take_bit_nat_eq_self_iff)
  have "unat (ucast (ucast (of_nat (length bs) :: size) :: u32) :: size) = unat (of_nat (length bs) :: size)"
    using n u unat_ucast_up [of "ucast (of_nat (length bs) :: size) :: u32", where ?'b = 64] by simp
  then have c: "(ucast (ucast (of_nat (length bs) :: size) :: u32) :: size) = of_nat (length bs)"
    by (rule unsigned_word_eqI)
  let ?sub = "(advance (length ?l) ?s)\<lparr>is_bytes_left := ucast (ucast (of_nat (length bs) :: size) :: u32)\<rparr>"
  have "stream_at (advance (length ?l) ?s) m' bs"
    using stream_at_advance [OF at, of "length ?l"] by simp
  from stream_at_take [OF this, of "ucast (ucast (of_nat (length bs) :: size) :: u32)"]
  have "stream_at ?sub m' bs"
    using n unat_ucast_up [of "ucast (of_nat (length bs) :: size) :: u32", where ?'b = 64] by simp
  moreover have "is_bytes_left ?s = of_nat (length ?l + length bs)"
    using arg_cong [OF w(2) [OF run], of "of_nat :: nat \<Rightarrow> size"]
    by (simp add: pb_istream_from_buffer_def)
  ultimately show ?thesis
    using n by (simp add: pb_make_string_substream_at [OF at] p c)
qed

theorem delimited_framing_witness:
  "\<exists>os m' sub parent. pb_encode_delimited 1 no_callbacks (pb_ostream_from_buffer 0x1000 64) demo_fields
      0x2000 demo_memory = Some (True, os, m') \<and>
    pb_make_string_substream no_callbacks (pb_istream_from_buffer 0x1000 (os_bytes_written os)) m' =
      Some (Some sub, parent, m') \<and> stream_at sub m' demo_message"
proof -
  have u: "unat (64 :: size) \<le> 64" by simp
  have small: "length demo_message < max_object" "length demo_message < 2 ^ 32"
    by (simp_all add: length_demo_message max_object_def)
  have "emits (dom (block 0x2000 demo_struct))
      (\<lambda>s m. pb_encode_submessage 1 no_callbacks s demo_fields 0x2000 m) demo_memory
      (varint_bytes (of_nat (length demo_message)) @ demo_message)"
    using emits_pb_encode_submessage [OF demo_message_bytes small(1)]
    by (rule emits_cong_mem) (use demo_memory(1) in \<open>simp add: map_le_def\<close>)
  moreover have "length (varint_bytes (of_nat (length demo_message)) @ demo_message) \<le> unat (64 :: size)"
    by (simp add: length_demo_message varint_bytes.simps)
  ultimately obtain os m' where "pb_encode_delimited 1 no_callbacks (pb_ostream_from_buffer 0x1000 64)
      demo_fields 0x2000 demo_memory = Some (True, os, m')"
    using emits_fresh [OF _ demo_buffer [OF u]] unfolding pb_encode_delimited_def by blast
  with delimited_framing [OF demo_message_bytes demo_memory(1) small(2) demo_buffer [OF u] this]
  show ?thesis by blast
qed

end
