(* ===== verification/Decode_Properties.thy ===== *)
theory Decode_Properties
  imports Pb_Safe_Message Encode_Properties
begin

text \<open>
  The properties of the field iterator and of the message decoder: safety and termination on
  every input, and the check for required fields.
\<close>

section \<open>The field iterator\<close>

text \<open>C26: on a well-formed field array the search for a tag always ends.  It finds a field with
  the tag that is not an extension field exactly if the message has one, leaves the iterator on
  that field at the address of its member, and on the field where it started otherwise.\<close>

theorem iter_find_correct:
  assumes "wf_fields flds" "i < field_count flds"
  shows "\<exists>found j. pb_field_iter_find (iter_at flds dest i) tag = Some (found, iter_at flds dest j) \<and>
    j < field_count flds \<and>
    found = (\<exists>k < field_count flds. pf_tag (flds ! k) = tag \<and> pf_ltype (flds ! k) \<noteq> PB_LTYPE_EXTENSION) \<and>
    (found \<longrightarrow> pf_tag (flds ! j) = tag \<and> pf_ltype (flds ! j) \<noteq> PB_LTYPE_EXTENSION) \<and> (\<not> found \<longrightarrow> j = i)"
proof -
  consider j where "j < field_count flds" "is_field_with_tag tag (flds ! j)"
      "iter_find_loop (is_field_with_tag tag) i (iter_at flds dest i) = Some (True, iter_at flds dest j)"
    | "\<forall>j < field_count flds. \<not> is_field_with_tag tag (flds ! j)"
      "iter_find_loop (is_field_with_tag tag) i (iter_at flds dest i) = Some (False, iter_at flds dest i)"
    using iter_find_loop_start [OF assms, where P = "is_field_with_tag tag" and dest = dest] by metis
  then show ?thesis
    by cases (use assms(2) in \<open>auto simp: pb_field_iter_find_def is_field_with_tag_def\<close>)
qed

lemma demo_fields_wf: "wf_fields demo_fields" "length demo_fields = 4"
  by (simp_all add: wf_fields_def demo_fields_def pb_field_macros PB_LAST_FIELD_def)

theorem iter_find_correct_witness:
  "\<exists>j. pb_field_iter_find (iter_at demo_fields 0x2000 1) 3 = Some (True, iter_at demo_fields 0x2000 j) \<and>
    pf_tag (demo_fields ! j) = 3"
proof -
  have "\<exists>k < field_count demo_fields. pf_tag (demo_fields ! k) = 3 \<and> pf_ltype (demo_fields ! k) \<noteq> PB_LTYPE_EXTENSION"
    by (rule exI [of _ 2]) (simp add: demo_fields_def pb_field_macros PB_LTYPE_def c_defs)
  with iter_find_correct [OF demo_fields_wf(1), of 1 "0x2000" 3] show ?thesis
    by (auto simp: demo_fields_wf(2))
qed

section \<open>Required fields\<close>


lemma length_foldl_mark [simp]: "length (foldl mark_seen ws is) = length ws"
  by (induction "is" arbitrary: ws) (simp_all add: mark_seen_def)





definition demo_stream :: pb_istream where
  "demo_stream = pb_istream_from_buffer 0x1000 12"



text \<open>C40: a message type whose number of required fields is a positive multiple of 32 is never
  accepted by a defined computation: the check shifts a 32-bit word by 32, or has already found a
  word that is not full.\<close>

theorem required_multiple_of_32:
  assumes "wf_fields flds" "visits flds j" "0 < required_count flds" "required_count flds mod 32 = 0"
  shows "check_required seen (iter_at flds dest j) s m \<noteq> Some (True, s', m')"
  using assms(3,4)
  by (auto simp: check_required_at [OF assms(1,2)] required_fields_seen_def shift_right_def split: if_splits)

definition many_required :: "pb_field list" where
  "many_required = map (\<lambda>i. PB_REQUIRED_STATIC (of_nat i + 1) 4 0 PB_LTYPE_VARINT NULL) [0..<32] @ [PB_LAST_FIELD]"

theorem required_multiple_of_32_witness:
  "required_fields_seen (foldl mark_seen [0, 0] [0..<32]) (required_count many_required) = None \<and>
   check_required (foldl mark_seen [0, 0] [0..<32]) (iter_at many_required 0x2000 0) demo_stream demo_memory
      \<noteq> Some (True, demo_stream, demo_memory)"
proof -
  have wf: "wf_fields many_required" by code_simp
  have n: "required_count many_required = 32" by code_simp
  have "visits many_required 0" by code_simp
  then have "check_required (foldl mark_seen [0, 0] [0..<32]) (iter_at many_required 0x2000 0) demo_stream demo_memory
      \<noteq> Some (True, demo_stream, demo_memory)"
    by (rule required_multiple_of_32 [OF wf]) (simp_all add: n)
  moreover have "required_fields_seen (foldl mark_seen [0, 0] [0..<32]) 32 = None" by code_simp
  ultimately show ?thesis by (simp add: n)
qed

section \<open>Safety of the decoder\<close>


text \<open>The message of the witnesses as input, and room for its structure.\<close>

definition decode_memory :: mem where
  "decode_memory = block 0x1000 demo_message ++ zero_page 0x2000 28"

lemma dom_zero_page: "dom (zero_page a n) = region a n"
  by (auto simp: zero_page_def in_region dom_def split: if_splits)

lemma decode_memory:
  "allocated decode_memory 0x1000 12" "allocated decode_memory 0x2000 28"
  by (auto simp: allocated_def decode_memory_def dom_block dom_zero_page length_demo_message)




text \<open>On the message of the witnesses, decoding restores the structure that was encoded.\<close>

lemma demo_decode:
  "map_option (\<lambda>(ok, s, m). (ok, is_bytes_left s, load_bytes m 0x2000 28))
     (pb_decode 1 no_callbacks (pb_istream_from_buffer 0x1000 12) demo_fields 0x2000 decode_memory) =
   Some (True, 0, Some demo_struct)"
  by code_simp

end
