(* ===== verification/Ldb_Comparator.thy ===== *)
theory Ldb_Comparator
  imports C_Prelude
begin

text \<open>
  Slices and comparators of LevelDB: \<open>include/leveldb/slice.h\<close>, the interface
  \<open>include/leveldb/comparator.h\<close> and the built-in comparator of \<open>util/comparator.cc\<close>.
  An assertion that fails makes the result undefined.  The contract that the interface
  documents (a total order, with operations that shorten a key without leaving an interval)
  is the locale \<open>comparator\<close>.
\<close>

section \<open>Slices\<close>

text \<open>Of the result of \<open>memcmp\<close> only the sign is specified; both arguments have \<open>n\<close> bytes.\<close>

fun memcmp :: "byte list \<Rightarrow> byte list \<Rightarrow> nat \<Rightarrow> int" where
  "memcmp (a # as) (b # bs) (Suc n) = (if a < b then -1 else if b < a then 1 else memcmp as bs n)"
| "memcmp as bs n = 0"

definition Slice_compare :: "byte list \<Rightarrow> byte list \<Rightarrow> int" where
  "Slice_compare a b =
     (let min_len = (if length a < length b then length a else length b);
          r = memcmp a b min_len
      in if r = 0
         then if length a < length b then -1 else if length a > length b then 1 else r
         else r)"

definition starts_with :: "byte list \<Rightarrow> byte list \<Rightarrow> bool" where
  "starts_with s x \<longleftrightarrow> length s \<ge> length x \<and> memcmp s x (length x) = 0"

definition Slice_eq :: "byte list \<Rightarrow> byte list \<Rightarrow> bool" where
  "Slice_eq x y \<longleftrightarrow> length x = length y \<and> memcmp x y (length x) = 0"

section \<open>The built-in comparator\<close>

record comparator =
  cmp_Compare :: "byte list \<Rightarrow> byte list \<Rightarrow> int option"
  cmp_FindShortestSeparator :: "byte list \<Rightarrow> byte list \<Rightarrow> byte list option"
  cmp_FindShortSuccessor :: "byte list \<Rightarrow> byte list option"

definition Bytewise_Compare :: "byte list \<Rightarrow> byte list \<Rightarrow> int option" where
  "Bytewise_Compare a b = Some (Slice_compare a b)"

function diff_loop :: "byte list \<Rightarrow> byte list \<Rightarrow> nat \<Rightarrow> nat" where
  "diff_loop start limit diff_index =
     (if diff_index < min (length start) (length limit) \<and> start ! diff_index = limit ! diff_index
      then diff_loop start limit (diff_index + 1) else diff_index)"
  by pat_completeness auto
termination
  by (relation "measure (\<lambda>(start, limit, diff_index). length start - diff_index)") auto

declare diff_loop.simps [simp del]

definition Bytewise_FindShortestSeparator :: "byte list \<Rightarrow> byte list \<Rightarrow> byte list option" where
  "Bytewise_FindShortestSeparator start limit =
     (let min_length = min (length start) (length limit);
          diff_index = diff_loop start limit 0
      in if diff_index \<ge> min_length then Some start
         else (let diff_byte = start ! diff_index
               in if diff_byte < 0xff \<and> unat diff_byte + 1 < unat (limit ! diff_index)
                  then do {
                    let start = take (diff_index + 1) (start[diff_index := diff_byte + 1]);
                    r \<leftarrow> Bytewise_Compare start limit;
                    if r < 0 then Some start else None
                  }
                  else Some start))"

function successor_loop :: "byte list \<Rightarrow> nat \<Rightarrow> byte list" where
  "successor_loop key i =
     (if i < length key
      then (let byte = key ! i
            in if byte \<noteq> 0xff then take (i + 1) (key[i := byte + 1])
               else successor_loop key (i + 1))
      else key)"
  by pat_completeness auto
termination
  by (relation "measure (\<lambda>(key, i). length key - i)") simp_all

declare successor_loop.simps [simp del]

definition Bytewise_FindShortSuccessor :: "byte list \<Rightarrow> byte list option" where
  "Bytewise_FindShortSuccessor key = Some (successor_loop key 0)"

definition BytewiseComparator :: comparator where
  "BytewiseComparator = \<lparr>cmp_Compare = Bytewise_Compare,
     cmp_FindShortestSeparator = Bytewise_FindShortestSeparator,
     cmp_FindShortSuccessor = Bytewise_FindShortSuccessor\<rparr>"

section \<open>The contract\<close>

definition below :: "('k \<Rightarrow> 'k \<Rightarrow> int option) \<Rightarrow> 'k \<Rightarrow> 'k \<Rightarrow> bool" where
  "below compare a b \<longleftrightarrow> (\<exists>r < 0. compare a b = Some r)"

text \<open>A three-way comparison of the keys that are \<open>ok\<close>.\<close>

locale key_order =
  fixes ok :: "'k \<Rightarrow> bool" and compare :: "'k \<Rightarrow> 'k \<Rightarrow> int option"
  assumes total: "ok a \<Longrightarrow> ok b \<Longrightarrow> \<exists>r. compare a b = Some r"
    and zero: "ok a \<Longrightarrow> ok b \<Longrightarrow> compare a b = Some 0 \<longleftrightarrow> a = b"
    and flip: "ok a \<Longrightarrow> ok b \<Longrightarrow> (\<exists>r > 0. compare a b = Some r) \<longleftrightarrow> below compare b a"
    and trans: "ok a \<Longrightarrow> ok b \<Longrightarrow> ok c \<Longrightarrow> below compare a b \<Longrightarrow> below compare b c \<Longrightarrow> below compare a c"
begin

lemma irrefl: "ok a \<Longrightarrow> \<not> below compare a a"
  using zero [of a a] by (auto simp: below_def)

lemma asym: "ok a \<Longrightarrow> ok b \<Longrightarrow> below compare a b \<Longrightarrow> \<not> below compare b a"
  using trans [of a b a] irrefl [of a] by blast

lemma cases3:
  assumes "ok a" "ok b"
  obtains "below compare a b" | "a = b" | "below compare b a"
proof -
  obtain r where r: "compare a b = Some r" using total [OF assms] by blast
  then show thesis
    using that zero [OF assms] flip [OF assms] by (cases "r = 0"; cases "r < 0") (auto simp: below_def)
qed

lemma not_below: "ok a \<Longrightarrow> ok b \<Longrightarrow> \<not> below compare a b \<longleftrightarrow> a = b \<or> below compare b a"
  using cases3 [of a b] asym irrefl by blast

end

text \<open>
  With the operations that shorten keys.  That equal keys are left alone is not written down
  in the interface, but the comparator of internal keys relies on it.
\<close>

locale comparator = key_order ok compare
  for ok :: "byte list \<Rightarrow> bool" and compare :: "byte list \<Rightarrow> byte list \<Rightarrow> int option" +
  fixes separator :: "byte list \<Rightarrow> byte list \<Rightarrow> byte list option" and successor :: "byte list \<Rightarrow> byte list option"
  assumes separator: "ok start \<Longrightarrow> ok limit \<Longrightarrow> below compare start limit \<Longrightarrow>
      \<exists>key. separator start limit = Some key \<and> ok key \<and> (key = start \<or> below compare start key) \<and>
        below compare key limit"
    and separator_same: "ok key \<Longrightarrow> separator key key = Some key"
    and successor: "ok key \<Longrightarrow> \<exists>next. successor key = Some next \<and> ok next \<and> (next = key \<or> below compare key next)"

section \<open>The built-in comparator satisfies it\<close>

abbreviation byte_order :: "(byte \<times> byte) set" where
  "byte_order \<equiv> {(x, y). x < y}"

lemma Slice_compare_simps [simp]:
  "Slice_compare [] [] = 0" "Slice_compare [] (b # bs) = -1" "Slice_compare (a # as) [] = 1"
  "Slice_compare (a # as) (b # bs) = (if a < b then -1 else if b < a then 1 else Slice_compare as bs)"
  by (simp_all add: Slice_compare_def Let_def)

lemma Slice_compare_lexord:
  "Slice_compare a b < 0 \<longleftrightarrow> (a, b) \<in> lexord byte_order" "Slice_compare a b = 0 \<longleftrightarrow> a = b"
  "Slice_compare a b > 0 \<longleftrightarrow> (b, a) \<in> lexord byte_order"
proof (induction a arbitrary: b)
  case (Cons x a)
  {
    case 1
    show ?case by (cases b) (auto simp: Cons.IH)
  next
    case 2
    show ?case by (cases b) (auto simp: Cons.IH)
  next
    case 3
    show ?case by (cases b) (auto simp: Cons.IH)
  }
next
  case Nil
  {
    case 1
    show ?case by (cases b) auto
  next
    case 2
    show ?case by (cases b) auto
  next
    case 3
    show ?case by (cases b) auto
  }
qed

lemma memcmp_0: "n \<le> length a \<Longrightarrow> n \<le> length b \<Longrightarrow> memcmp a b n = 0 \<longleftrightarrow> take n a = take n b"
  by (induction a b n rule: memcmp.induct) auto

lemma Slice_eq_iff: "Slice_eq x y \<longleftrightarrow> x = y"
  by (auto simp: Slice_eq_def memcmp_0)

lemma starts_with_iff: "starts_with s x \<longleftrightarrow> (\<exists>t. s = x @ t)"
  by (auto simp: starts_with_def memcmp_0 intro: exI [of _ "drop (length x) s"])
    (metis append_take_drop_id)

lemma below_Bytewise: "below Bytewise_Compare a b \<longleftrightarrow> (a, b) \<in> lexord byte_order"
  by (simp add: below_def Bytewise_Compare_def Slice_compare_lexord)

lemma diff_loop_prefix:
  assumes "take i start = take i limit" "i \<le> min (length start) (length limit)"
  shows "let d = diff_loop start limit i in take d start = take d limit \<and>
    d \<le> min (length start) (length limit) \<and>
    (d < min (length start) (length limit) \<longrightarrow> start ! d \<noteq> limit ! d)"
  using assms
proof (induction start limit i rule: diff_loop.induct)
  case (1 start limit i)
  show ?case
  proof (cases "i < min (length start) (length limit) \<and> start ! i = limit ! i")
    case True
    with 1 show ?thesis by (simp add: diff_loop.simps [of start limit i] take_Suc_conv_app_nth)
  next
    case False
    have "diff_loop start limit i = i" by (subst diff_loop.simps) (simp only: False if_False)
    with False 1(2,3) show ?thesis by (auto simp: Let_def)
  qed
qed

lemma lexord_same_prefix: "(p @ x # a, p @ y # b) \<in> lexord byte_order" if "x < y" for x y :: byte
  using that by (simp add: lexord_append_leftI)

lemma unat_inc: "unat b + 1 < 256 \<Longrightarrow> unat (b + 1) = unat b + 1" for b :: byte
  by (simp add: unat_word_ariths)

lemma take_Suc_update: "i < length xs \<Longrightarrow> take (Suc i) (xs[i := x]) = take i xs @ [x]"
  by (simp add: take_Suc_conv_app_nth)

lemma Bytewise_separator:
  assumes "below Bytewise_Compare start limit"
  obtains key where "Bytewise_FindShortestSeparator start limit = Some key"
    "key = start \<or> below Bytewise_Compare start key" "below Bytewise_Compare key limit"
proof -
  define d where "d = diff_loop start limit 0"
  have d: "take d start = take d limit" "d \<le> min (length start) (length limit)"
    using diff_loop_prefix [of 0 start limit] by (simp_all add: d_def Let_def)
  show thesis
  proof (cases "d \<ge> min (length start) (length limit) \<or>
      \<not> (start ! d < 0xff \<and> unat (start ! d) + 1 < unat (limit ! d))")
    case True
    then have "Bytewise_FindShortestSeparator start limit = Some start"
      by (auto simp: Bytewise_FindShortestSeparator_def Let_def simp flip: d_def)
    then show thesis using that assms by blast
  next
    case False
    let ?b = "start ! d"
    have len: "d < length start" "d < length limit" using False by auto
    have u: "unat (?b + 1) = unat ?b + 1"
      using False unsigned_less [of "limit ! d", where ?'a = nat] by (intro unat_inc) simp
    let ?key = "take d start @ [?b + 1]"
    have split: "start = take d start @ ?b # drop (Suc d) start" "limit = take d start @ limit ! d # drop (Suc d) limit"
      using id_take_nth_drop [OF len(1)] id_take_nth_drop [OF len(2)] d(1) by simp_all
    have less: "?b < ?b + 1" "?b + 1 < limit ! d" using False u by (simp_all add: word_less_nat_alt)
    have "(start, ?key) \<in> lexord byte_order" by (subst split(1)) (rule lexord_same_prefix [OF less(1)])
    moreover have low: "(?key, limit) \<in> lexord byte_order"
      using lexord_same_prefix [OF less(2), of "take d start" "[]" "drop (Suc d) limit"] split(2) by simp
    ultimately have "below Bytewise_Compare start ?key" "below Bytewise_Compare ?key limit"
      by (simp_all only: below_Bytewise)
    moreover have "Bytewise_FindShortestSeparator start limit = Some ?key"
      using False low
      by (simp add: Bytewise_FindShortestSeparator_def Let_def take_Suc_update [OF len(1)]
          Bytewise_Compare_def Slice_compare_lexord
          flip: d_def)
    ultimately show thesis using that by blast
  qed
qed

lemma successor_loop_ge:
  "successor_loop key i = key \<or> (key, successor_loop key i) \<in> lexord byte_order"
proof (induction key i rule: successor_loop.induct)
  case (1 key i)
  show ?case
  proof (cases "i < length key \<and> key ! i \<noteq> 0xff")
    case True
    then have "unat (key ! i) \<noteq> 255" by (auto simp: word_eq_iff_unsigned [where ?'a = nat])
    with unsigned_less [of "key ! i", where ?'a = nat] have "unat (key ! i) + 1 < 256" by simp
    then have less: "key ! i < key ! i + 1" by (simp add: word_less_nat_alt unat_inc)
    have "successor_loop key i = take i key @ [key ! i + 1]"
      using True by (simp add: successor_loop.simps [of key i] take_Suc_update Let_def)
    moreover have "(take i key @ key ! i # drop (Suc i) key, take i key @ [key ! i + 1]) \<in> lexord byte_order"
      by (rule lexord_same_prefix [OF less])
    moreover have "take i key @ key ! i # drop (Suc i) key = key"
      using True by (simp add: id_take_nth_drop [symmetric])
    ultimately show ?thesis by simp
  next
    case False
    show ?thesis
    proof (cases "i < length key")
      case True
      with False 1 show ?thesis by (simp add: successor_loop.simps [of key i])
    qed (simp add: successor_loop.simps [of key i])
  qed
qed

interpretation bytewise: comparator "\<lambda>_. True" Bytewise_Compare
  Bytewise_FindShortestSeparator Bytewise_FindShortSuccessor
proof (unfold_locales, goal_cases)
  case (3 a b)
  show ?case by (simp add: below_Bytewise) (simp add: Bytewise_Compare_def Slice_compare_lexord)
next
  case (4 a b c)
  have "trans byte_order" by (auto intro: transI)
  with 4 show ?case using lexord_trans [of a b byte_order c] by (simp add: below_Bytewise)
next
  case (5 start limit)
  then show ?case using Bytewise_separator by blast
next
  case (6 key)
  have "length key \<le> diff_loop key key 0"
    using diff_loop_prefix [of 0 key key] by (auto simp: Let_def not_less)
  then show ?case by (simp add: Bytewise_FindShortestSeparator_def Let_def)
next
  case (7 key)
  show ?case using successor_loop_ge [of key 0] by (auto simp: Bytewise_FindShortSuccessor_def below_Bytewise)
qed (simp_all add: Bytewise_Compare_def Slice_compare_lexord)

end
