(* ===== verification/Ldb_Coding.thy ===== *)
theory Ldb_Coding
  imports Pb_Wire
begin

text \<open>
  The endian-neutral encodings of LevelDB, \<open>leveldb-library/util/coding.cc\<close> and
  \<open>coding.h\<close>: fixed-width numbers, base-128 numbers and length-prefixed strings.  A
  \<open>std::string\<close> and a \<open>Slice\<close> are lists of bytes; the functions that move a pointer or a
  slice forward return what is left of it.  What the \<open>Put\<close> and \<open>Get\<close> functions of a format
  promise each other is the locale \<open>codec\<close>.
\<close>

section \<open>Fixed-width numbers\<close>

text \<open>The targets are little endian (\<open>port::kLittleEndian\<close>).\<close>

definition EncodeFixed32 :: "u32 \<Rightarrow> byte list" where
  "EncodeFixed32 v = le_bytes 4 v"

definition EncodeFixed64 :: "u64 \<Rightarrow> byte list" where
  "EncodeFixed64 v = le_bytes 8 v"

definition PutFixed32 :: "byte list \<Rightarrow> u32 \<Rightarrow> byte list" where
  "PutFixed32 dst v = dst @ EncodeFixed32 v"

definition PutFixed64 :: "byte list \<Rightarrow> u64 \<Rightarrow> byte list" where
  "PutFixed64 dst v = dst @ EncodeFixed64 v"

text \<open>They read without a bounds check: beyond the end of the buffer is undefined.\<close>

definition DecodeFixed32 :: "byte list \<Rightarrow> u32 option" where
  "DecodeFixed32 p = (if 4 \<le> length p then Some (le_word (take 4 p)) else None)"

definition DecodeFixed64 :: "byte list \<Rightarrow> u64 option" where
  "DecodeFixed64 p = (if 8 \<le> length p then Some (le_word (take 8 p)) else None)"

section \<open>Base-128 numbers\<close>

definition EncodeVarint32 :: "u32 \<Rightarrow> byte list" where
  "EncodeVarint32 v =
     (let B = 128
      in if v < 2 ^ 7 then [ucast v]
         else if v < 2 ^ 14 then [ucast (v OR B), ucast (drop_bit 7 v)]
         else if v < 2 ^ 21 then [ucast (v OR B), ucast (drop_bit 7 v OR B), ucast (drop_bit 14 v)]
         else if v < 2 ^ 28
         then [ucast (v OR B), ucast (drop_bit 7 v OR B), ucast (drop_bit 14 v OR B), ucast (drop_bit 21 v)]
         else [ucast (v OR B), ucast (drop_bit 7 v OR B), ucast (drop_bit 14 v OR B),
               ucast (drop_bit 21 v OR B), ucast (drop_bit 28 v)])"

definition PutVarint32 :: "byte list \<Rightarrow> u32 \<Rightarrow> byte list" where
  "PutVarint32 dst v = dst @ EncodeVarint32 v"

function EncodeVarint64 :: "u64 \<Rightarrow> byte list" where
  "EncodeVarint64 v =
     (let B = 128
      in if v \<ge> B then ucast ((v AND (B - 1)) OR B) # EncodeVarint64 (drop_bit 7 v)
         else [ucast v])"
  by pat_completeness auto
termination
proof (relation "measure unat", goal_cases)
  case (2 v B)
  then have "0 < unat v" by (simp add: word_le_nat_alt)
  then show ?case by (simp add: unat_drop_bit_div)
qed simp

declare EncodeVarint64.simps [simp del]

definition PutVarint64 :: "byte list \<Rightarrow> u64 \<Rightarrow> byte list" where
  "PutVarint64 dst v = dst @ EncodeVarint64 v"

function VarintLength_loop :: "u64 \<Rightarrow> nat \<Rightarrow> nat" where
  "VarintLength_loop v len =
     (if v \<ge> 128 then VarintLength_loop (drop_bit 7 v) (len + 1) else len)"
  by pat_completeness auto
termination
proof (relation "measure (\<lambda>(v, len). unat v)", goal_cases)
  case (2 v len)
  then have "0 < unat v" by (simp add: word_le_nat_alt)
  then show ?case by (simp add: unat_drop_bit_div)
qed simp

declare VarintLength_loop.simps [simp del]

definition VarintLength :: "u64 \<Rightarrow> nat" where
  "VarintLength v = VarintLength_loop v 1"

fun GetVarint32PtrFallback_loop :: "nat \<Rightarrow> u32 \<Rightarrow> byte list \<Rightarrow> (u32 \<times> byte list) option" where
  "GetVarint32PtrFallback_loop shift result [] = None"
| "GetVarint32PtrFallback_loop shift result (b # p) =
     (if shift \<le> 28
      then let byte = ucast b :: u32
           in if byte AND 128 \<noteq> 0
              then GetVarint32PtrFallback_loop (shift + 7) (result OR push_bit shift (byte AND 127)) p
              else Some (result OR push_bit shift byte, p)
      else None)"

definition GetVarint32PtrFallback :: "byte list \<Rightarrow> (u32 \<times> byte list) option" where
  "GetVarint32PtrFallback p = GetVarint32PtrFallback_loop 0 0 p"

definition GetVarint32Ptr :: "byte list \<Rightarrow> (u32 \<times> byte list) option" where
  "GetVarint32Ptr p =
     (case p of
        b # q \<Rightarrow> if (ucast b :: u32) AND 128 = 0 then Some (ucast b, q) else GetVarint32PtrFallback p
      | [] \<Rightarrow> GetVarint32PtrFallback p)"

definition GetVarint32 :: "byte list \<Rightarrow> (u32 \<times> byte list) option" where
  "GetVarint32 input = GetVarint32Ptr input"

fun GetVarint64Ptr_loop :: "nat \<Rightarrow> u64 \<Rightarrow> byte list \<Rightarrow> (u64 \<times> byte list) option" where
  "GetVarint64Ptr_loop shift result [] = None"
| "GetVarint64Ptr_loop shift result (b # p) =
     (if shift \<le> 63
      then let byte = ucast b :: u64
           in if byte AND 128 \<noteq> 0
              then GetVarint64Ptr_loop (shift + 7) (result OR push_bit shift (byte AND 127)) p
              else Some (result OR push_bit shift byte, p)
      else None)"

definition GetVarint64Ptr :: "byte list \<Rightarrow> (u64 \<times> byte list) option" where
  "GetVarint64Ptr p = GetVarint64Ptr_loop 0 0 p"

definition GetVarint64 :: "byte list \<Rightarrow> (u64 \<times> byte list) option" where
  "GetVarint64 input = GetVarint64Ptr input"

section \<open>Length-prefixed strings\<close>

text \<open>The length is truncated to 32 bits, the contents are not.\<close>

definition PutLengthPrefixedSlice :: "byte list \<Rightarrow> byte list \<Rightarrow> byte list" where
  "PutLengthPrefixedSlice dst value = PutVarint32 dst (of_nat (length value)) @ value"

definition GetLengthPrefixedSlicePtr :: "byte list \<Rightarrow> (byte list \<times> byte list) option" where
  "GetLengthPrefixedSlicePtr p =
     (case GetVarint32Ptr p of
        None \<Rightarrow> None
      | Some (len, p) \<Rightarrow> if unat len > length p then None else Some (take (unat len) p, drop (unat len) p))"

text \<open>
  The variant on slices returns the value, or none, and the slice it leaves: when the length
  is readable and too large, the slice has already moved behind it.
\<close>

definition GetLengthPrefixedSlice :: "byte list \<Rightarrow> byte list option \<times> byte list" where
  "GetLengthPrefixedSlice input =
     (case GetVarint32 input of
        None \<Rightarrow> (None, input)
      | Some (len, input) \<Rightarrow>
          if length input \<ge> unat len then (Some (take (unat len) input), drop (unat len) input)
          else (None, input))"

section \<open>The formats\<close>

text \<open>The loops are the parser of base-128 groups that also describes the decoder of nanopb.\<close>

lemma byte_continues:
  assumes "8 \<le> LENGTH('a)"
  shows "((ucast b :: 'a::len word) AND 128 \<noteq> 0) = continues b"
  using and_exp_eq_0_iff_not_bit [of "ucast b :: 'a word" 7] assms by (simp add: continues_bit bit_simps)

lemma byte_group:
  assumes "8 \<le> LENGTH('a)"
  shows "(ucast b :: 'a::len word) AND 127 = ucast (b AND 0x7F :: byte)"
proof -
  have eq: "(127 :: 'a word) = mask 7" by (simp add: mask_eq_exp_minus_1)
  show ?thesis
    unfolding eq by (rule bit_word_eqI) (use assms in \<open>auto simp: bit_simps and_7F\<close>)
qed

text \<open>What is left after a parser.\<close>

definition parsed :: "'a parse \<Rightarrow> byte list \<Rightarrow> ('a \<times> byte list) option" where
  "parsed r xs = (case fst r of Inl e \<Rightarrow> None | Inr v \<Rightarrow> Some (v, drop (snd r) xs))"

lemma parsed_simps [simp]:
  "parsed (Inl e, k) xs = None" "parsed (Inr v, k) xs = Some (v, drop k xs)"
  by (simp_all add: parsed_def)

lemma parsed_Cons: "parsed (fst r, Suc (snd r)) (b # xs) = parsed r xs"
  by (simp add: parsed_def split: sum.split)

lemma varint32_loop_parsed:
  "GetVarint32PtrFallback_loop (7 * i) acc xs = parsed (p_varint_from 5 i acc xs) xs"
proof (induction xs arbitrary: i acc)
  case Nil
  then show ?case
    by (cases "i < 5") (simp_all add: p_varint_from_Nil p_varint_from_end)
next
  case (Cons b xs)
  show ?case
  proof (cases "i < 5")
    case False
    then show ?thesis by (simp add: p_varint_from_end)
  next
    case True
    show ?thesis
    proof (cases "continues b")
      case False
      with True show ?thesis
        by (simp add: p_varint_from_stop byte_continues byte_and_7F Let_def)
    next
      case c: True
      with True Cons [of "Suc i" "acc OR push_bit (7 * i) (ucast (b AND 0x7F))"] show ?thesis
        by (simp add: p_varint_from_continue byte_continues byte_group Let_def parsed_Cons add.commute [of 7])
    qed
  qed
qed

lemma varint64_loop_parsed:
  "GetVarint64Ptr_loop (7 * i) acc xs = parsed (p_varint_from 10 i acc xs) xs"
proof (induction xs arbitrary: i acc)
  case Nil
  then show ?case
    by (cases "i < 10") (simp_all add: p_varint_from_Nil p_varint_from_end)
next
  case (Cons b xs)
  show ?case
  proof (cases "i < 10")
    case False
    then show ?thesis by (simp add: p_varint_from_end)
  next
    case True
    show ?thesis
    proof (cases "continues b")
      case False
      with True show ?thesis
        by (simp add: p_varint_from_stop byte_continues byte_and_7F Let_def)
    next
      case c: True
      with True Cons [of "Suc i" "acc OR push_bit (7 * i) (ucast (b AND 0x7F))"] show ?thesis
        by (simp add: p_varint_from_continue byte_continues byte_group Let_def parsed_Cons add.commute [of 7])
    qed
  qed
qed

lemma GetVarint32_parsed: "GetVarint32 xs = parsed (p_varint 5 xs) xs"
proof -
  have loop: "GetVarint32PtrFallback xs = parsed (p_varint 5 xs) xs"
    using varint32_loop_parsed [of 0 0 xs] by (simp add: GetVarint32PtrFallback_def p_varint_eq_from)
  show ?thesis
  proof (cases xs)
    case (Cons b ys)
    show ?thesis
    proof (cases "continues b")
      case False
      with Cons show ?thesis
        using byte_continues [where ?'a = 32, of b] byte_and_7F [OF False]
        by (simp add: GetVarint32_def GetVarint32Ptr_def p_varint_eq_from p_varint_from_stop)
    next
      case True
      with Cons loop show ?thesis
        using byte_continues [where ?'a = 32, of b] by (simp add: GetVarint32_def GetVarint32Ptr_def)
    qed
  qed (use loop in \<open>simp add: GetVarint32_def GetVarint32Ptr_def\<close>)
qed

lemma GetVarint64_parsed: "GetVarint64 xs = parsed (p_varint 10 xs) xs"
  using varint64_loop_parsed [of 0 0 xs] by (simp add: GetVarint64_def GetVarint64Ptr_def p_varint_eq_from)

lemma EncodeVarint64_bytes: "EncodeVarint64 v = varint_bytes v"
proof (induction v rule: varint_bytes.induct)
  case (1 v)
  show ?case
  proof (cases "v \<le> 0x7F")
    case True
    then have "\<not> 128 \<le> v" by (auto simp: word_le_nat_alt)
    with True show ?thesis by (simp add: varint_bytes_small EncodeVarint64.simps [of v])
  next
    case False
    then have "128 \<le> v" by (auto simp: word_le_nat_alt)
    with False 1 show ?thesis
      by (simp add: varint_bytes_big EncodeVarint64.simps [of v]) (simp add: unsigned_or_eq)
  qed
qed

text \<open>The unrolled encoder of 32-bit numbers.\<close>

lemma bit_128: "8 \<le> LENGTH('a) \<Longrightarrow> bit (128 :: 'a::len word) n \<longleftrightarrow> n = 7"
  using bit_exp_iff [of 7 n, where ?'a = "'a word"] by auto

lemma group_byte32:
  "(ucast (drop_bit k (ucast (v :: u32) :: u64) AND 0x7F) OR 0x80 :: byte) = ucast (drop_bit k v OR 128)"
proof (rule bit_word_eqI)
  fix n assume "n < LENGTH(8)"
  then have "n < 7 \<or> n = 7" by auto
  then show "bit (ucast (drop_bit k (ucast v :: u64) AND 0x7F) OR 0x80 :: byte) n =
      bit (ucast (drop_bit k v OR 128) :: byte) n"
    using bit_imp_le_length [of v "k + n"]
    by (auto simp: and_7F_u64 bit_128 bit_simps)
qed

lemma last_byte32: "(ucast (drop_bit k (ucast (v :: u32) :: u64)) :: byte) = ucast (drop_bit k v)"
  by (rule bit_word_eqI) (auto simp: bit_simps dest: bit_imp_le_length)

lemma EncodeVarint32_bytes: "EncodeVarint32 v = varint_bytes (ucast v)"
proof -
  let ?w = "ucast v :: u64"
  have small: "?w \<le> 0x7F \<longleftrightarrow> v < 2 ^ 7" "drop_bit 7 ?w \<le> 0x7F \<longleftrightarrow> v < 2 ^ 14"
      "drop_bit 14 ?w \<le> 0x7F \<longleftrightarrow> v < 2 ^ 21" "drop_bit 21 ?w \<le> 0x7F \<longleftrightarrow> v < 2 ^ 28"
    by (simp_all add: word_le_nat_alt word_less_nat_alt unat_drop_bit_div unat_ucast_up) linarith+
  have "unat v < 2 ^ LENGTH(32)" by (rule unsigned_less)
  then have "unat v div 2 ^ 28 \<le> 127" by simp
  then have top: "drop_bit 28 ?w \<le> 0x7F" by (simp add: word_le_nat_alt unat_drop_bit_div unat_ucast_up)
  have step: "varint_bytes (drop_bit k ?w) =
      (if drop_bit k ?w \<le> 0x7F then [ucast (drop_bit k v)]
       else ucast (drop_bit k v OR 128) # varint_bytes (drop_bit (k + 7) ?w))" for k
    by (simp add: varint_bytes.simps [of "drop_bit k ?w"] group_byte32 last_byte32 drop_bit_drop_bit add.commute)
  show ?thesis
    using step [of 0] step [of 7] step [of 14] step [of 21] step [of 28] small top
    by (simp add: EncodeVarint32_def Let_def)
qed

lemma VarintLength_loop_eq: "VarintLength_loop v len = len + length (EncodeVarint64 v) - 1"
proof (induction v arbitrary: len rule: varint_bytes.induct)
  case (1 v)
  have cond: "v \<le> 0x7F \<longleftrightarrow> \<not> 128 \<le> v" by (auto simp: word_le_nat_alt)
  show ?case
  proof (cases "v \<le> 0x7F")
    case True
    with cond show ?thesis
      by (simp add: VarintLength_loop.simps [of v] EncodeVarint64_bytes varint_bytes_small [of v])
  next
    case False
    with cond have "VarintLength_loop v len = VarintLength_loop (drop_bit 7 v) (len + 1)"
      by (subst VarintLength_loop.simps) simp
    also have "\<dots> = len + 1 + length (varint_bytes (drop_bit 7 v)) - 1"
      using 1 [OF False, of "len + 1"] by (simp only: EncodeVarint64_bytes)
    also have "\<dots> = len + length (varint_bytes v) - 1"
      unfolding varint_bytes_big [OF False] list.size by linarith
    finally show ?thesis by (simp only: EncodeVarint64_bytes)
  qed
qed

section \<open>What the functions promise each other\<close>

text \<open>
  A value written by \<open>put\<close> is read back by \<open>get\<close>, which stops right behind it, whatever
  follows; \<open>ok\<close> says which values have an encoding.
\<close>

locale codec =
  fixes put :: "'a \<Rightarrow> byte list" and get :: "byte list \<Rightarrow> ('a \<times> byte list) option" and ok :: "'a \<Rightarrow> bool"
  assumes get_put: "ok x \<Longrightarrow> get (put x @ rest) = Some (x, rest)"
begin

lemma get_put_end: "ok x \<Longrightarrow> get (put x) = Some (x, [])"
  using get_put [of x "[]"] by simp

lemma prefix_free:
  assumes "ok x" "ok y" "put x @ xs = put y @ ys"
  shows "x = y \<and> xs = ys"
proof -
  have "get (put y @ ys) = Some (x, xs)" unfolding assms(3) [symmetric] by (rule get_put [OF assms(1)])
  with get_put [OF assms(2), of ys] show ?thesis by simp
qed

lemma put_inject: "ok x \<Longrightarrow> ok y \<Longrightarrow> put x = put y \<longleftrightarrow> x = y"
  using prefix_free [of x y "[]" "[]"] by auto

end

primrec get_many :: "(byte list \<Rightarrow> ('a \<times> byte list) option) \<Rightarrow> nat \<Rightarrow> byte list \<Rightarrow> ('a list \<times> byte list) option" where
  "get_many get 0 xs = Some ([], xs)"
| "get_many get (Suc n) xs = do {
     (x, xs) \<leftarrow> get xs;
     (ys, xs) \<leftarrow> get_many get n xs;
     Some (x # ys, xs)
   }"

context codec
begin

lemma get_many_put:
  "\<forall>x \<in> set xs. ok x \<Longrightarrow> get_many get (length xs) (concat (map put xs) @ rest) = Some (xs, rest)"
  by (induction xs) (simp_all add: get_put)

end

lemma get_varint_bytes:
  assumes "length (varint_bytes v) \<le> n"
  shows "parsed (p_varint n (varint_bytes v @ rest)) (varint_bytes v @ rest) = Some (ucast v :: 'a::len word, rest)"
proof -
  have p: "p_varint n (varint_bytes v) = (Inr (ucast v :: 'a word), length (varint_bytes v))"
    using assms by (rule p_varint_varint_bytes)
  have "p_varint n (varint_bytes v @ rest) = (p_varint n (varint_bytes v) :: 'a word parse)"
    by (rule p_varint_prefix [of n "varint_bytes v" "ucast v"]) (simp_all add: p)
  with p show ?thesis by simp
qed

interpretation varint32_codec: codec EncodeVarint32 GetVarint32 "\<lambda>_. True"
proof
  fix v :: u32 and rest
  have "unat (ucast v :: u64) < 2 ^ 32"
    using unsigned_less [of v, where ?'a = nat] by (subst unat_ucast_up) simp_all
  then have "length (varint_bytes (ucast v)) \<le> 5" by (rule length_varint_bytes32)
  from get_varint_bytes [OF this, where ?'a = 32, of rest]
  show "GetVarint32 (EncodeVarint32 v @ rest) = Some (v, rest)"
    by (simp add: GetVarint32_parsed EncodeVarint32_bytes ucast_up_down)
qed

interpretation varint64_codec: codec EncodeVarint64 GetVarint64 "\<lambda>_. True"
proof
  fix v rest
  show "GetVarint64 (EncodeVarint64 v @ rest) = Some (v, rest)"
    using get_varint_bytes [OF length_varint_bytes, where ?'a = 64, of v rest]
    by (simp add: GetVarint64_parsed EncodeVarint64_bytes)
qed

lemma DecodeFixed32_append: "DecodeFixed32 (EncodeFixed32 v @ rest) = Some v"
  by (simp add: DecodeFixed32_def EncodeFixed32_def)

lemma DecodeFixed64_append: "DecodeFixed64 (EncodeFixed64 v @ rest) = Some v"
  by (simp add: DecodeFixed64_def EncodeFixed64_def)

interpretation fixed32_codec:
  codec EncodeFixed32 "\<lambda>p. map_option (\<lambda>v. (v, drop 4 p)) (DecodeFixed32 p)" "\<lambda>_. True"
  by unfold_locales (simp add: DecodeFixed32_append, simp add: EncodeFixed32_def)

interpretation fixed64_codec:
  codec EncodeFixed64 "\<lambda>p. map_option (\<lambda>v. (v, drop 8 p)) (DecodeFixed64 p)" "\<lambda>_. True"
  by unfold_locales (simp add: DecodeFixed64_append, simp add: EncodeFixed64_def)

definition slice_ok :: "byte list \<Rightarrow> bool" where
  "slice_ok xs \<longleftrightarrow> length xs < 2 ^ 32"

definition get_slice :: "byte list \<Rightarrow> (byte list \<times> byte list) option" where
  "get_slice input = (case GetLengthPrefixedSlice input of (None, _) \<Rightarrow> None | (Some v, rest) \<Rightarrow> Some (v, rest))"

lemma unat_of_nat_slice: "slice_ok xs \<Longrightarrow> unat (of_nat (length xs) :: u32) = length xs"
  by (simp add: slice_ok_def unat_of_nat take_bit_nat_eq_self_iff)

interpretation slice_codec: codec "PutLengthPrefixedSlice []" get_slice slice_ok
proof
  fix xs rest :: "byte list" assume "slice_ok xs"
  then show "get_slice (PutLengthPrefixedSlice [] xs @ rest) = Some (xs, rest)"
    by (simp add: get_slice_def GetLengthPrefixedSlice_def PutLengthPrefixedSlice_def PutVarint32_def
        varint32_codec.get_put unat_of_nat_slice)
qed

lemma GetLengthPrefixedSlice_put:
  "slice_ok xs \<Longrightarrow> GetLengthPrefixedSlice (PutLengthPrefixedSlice [] xs @ rest) = (Some xs, rest)"
  using slice_codec.get_put [of xs rest] by (auto simp: get_slice_def split: prod.splits option.splits)

lemma PutLengthPrefixedSlice_append: "PutLengthPrefixedSlice dst xs = dst @ PutLengthPrefixedSlice [] xs"
  by (simp add: PutLengthPrefixedSlice_def PutVarint32_def)

interpretation slice_ptr_codec: codec "PutLengthPrefixedSlice []" GetLengthPrefixedSlicePtr slice_ok
proof
  fix xs rest :: "byte list" assume "slice_ok xs"
  moreover have "GetVarint32Ptr p = GetVarint32 p" for p by (simp add: GetVarint32_def)
  ultimately show "GetLengthPrefixedSlicePtr (PutLengthPrefixedSlice [] xs @ rest) = Some (xs, rest)"
    by (simp add: GetLengthPrefixedSlicePtr_def PutLengthPrefixedSlice_def PutVarint32_def
        varint32_codec.get_put unat_of_nat_slice)
qed

end
