(* ===== verification/Ldb_Bloom.thy ===== *)
theory Ldb_Bloom
  imports Ldb_Coding
begin

text \<open>
  Hashing and Bloom filters of LevelDB, \<open>leveldb-library/util/hash.cc\<close> and \<open>bloom.cc\<close>.
  What a filter policy promises its users (\<open>leveldb/filter_policy.h\<close>: a filter may be wrong
  about keys that were not added, but never about keys that were) is the locale
  \<open>filter_policy\<close>, interpreted on the Bloom filter.
\<close>

section \<open>Hash\<close>

definition Hash_m :: u32 where "Hash_m = 0xc6a4a793"

fun Hash_loop :: "u32 \<Rightarrow> byte list \<Rightarrow> u32 \<times> byte list" where
  "Hash_loop h (b0 # b1 # b2 # b3 # data) =
     (let w = le_word [b0, b1, b2, b3];
          h = (h + w) * Hash_m
      in Hash_loop (h XOR drop_bit 16 h) data)"
| "Hash_loop h data = (h, data)"

definition Hash :: "byte list \<Rightarrow> u32 \<Rightarrow> u32" where
  "Hash data seed =
     (let h = ucast (ucast seed XOR (of_nat (length data) :: size) * ucast Hash_m);
          (h, rest) = Hash_loop h data;
          h = (if length rest = 3 then h + push_bit 16 (ucast (rest ! 2)) else h);
          h = (if length rest \<ge> 2 then h + push_bit 8 (ucast (rest ! 1)) else h)
      in if length rest \<ge> 1
         then (let h = (h + ucast (rest ! 0)) * Hash_m in h XOR drop_bit 24 h)
         else h)"

definition BloomHash :: "byte list \<Rightarrow> u32" where
  "BloomHash key = Hash key 0xbc9f1d34"

section \<open>The Bloom filter\<close>

record bloom_policy =
  bp_bits_per_key :: size
  bp_k :: size

text \<open>
  The code multiplies by the double 0.69 and truncates.  Where the result is not clamped to
  30, that is the integer part of the exact product, as 0.69 n is no integer for 0 < n < 100.
\<close>

definition BloomFilterPolicy :: "nat \<Rightarrow> bloom_policy" where
  "BloomFilterPolicy bits_per_key =
     (let k = bits_per_key * 69 div 100;
          k = (if k < 1 then 1 else k);
          k = (if k > 30 then 30 else k)
      in \<lparr>bp_bits_per_key = of_nat bits_per_key, bp_k = of_nat k\<rparr>)"

definition bloom_delta :: "u32 \<Rightarrow> u32" where
  "bloom_delta h = drop_bit 17 h OR push_bit 15 h"

text \<open>The loops over the probes; the number of bits is positive.\<close>

primrec set_probes :: "nat \<Rightarrow> u32 \<Rightarrow> u32 \<Rightarrow> nat \<Rightarrow> byte list \<Rightarrow> byte list" where
  "set_probes 0 h delta bits array = array"
| "set_probes (Suc j) h delta bits array =
     (let bitpos = unat h mod bits;
          array = array[bitpos div 8 := array ! (bitpos div 8) OR push_bit (bitpos mod 8) 1]
      in set_probes j (h + delta) delta bits array)"

primrec check_probes :: "nat \<Rightarrow> u32 \<Rightarrow> u32 \<Rightarrow> nat \<Rightarrow> byte list \<Rightarrow> bool" where
  "check_probes 0 h delta bits array = True"
| "check_probes (Suc j) h delta bits array =
     (let bitpos = unat h mod bits
      in if array ! (bitpos div 8) AND push_bit (bitpos mod 8) 1 = 0 then False
         else check_probes j (h + delta) delta bits array)"

definition bloom_add :: "bloom_policy \<Rightarrow> nat \<Rightarrow> byte list \<Rightarrow> byte list \<Rightarrow> byte list" where
  "bloom_add pol bits key array =
     (let h = BloomHash key in set_probes (unat (bp_k pol)) h (bloom_delta h) bits array)"

definition filter_bytes :: "bloom_policy \<Rightarrow> nat \<Rightarrow> size" where
  "filter_bytes pol n =
     (let bits = of_nat n * bp_bits_per_key pol;
          bits = (if bits < 64 then 64 else bits)
      in (bits + 7) div 8)"

definition CreateFilter :: "bloom_policy \<Rightarrow> byte list list \<Rightarrow> byte list \<Rightarrow> byte list" where
  "CreateFilter pol keys dst =
     (let bytes = filter_bytes pol (length keys);
          bits = bytes * 8;
          array = fold (bloom_add pol (unat bits)) keys (replicate (unat bytes) 0)
      in dst @ array @ [ucast (bp_k pol)])"

text \<open>The last byte, a \<open>char\<close>, is sign extended.\<close>

definition KeyMayMatch :: "byte list \<Rightarrow> byte list \<Rightarrow> bool" where
  "KeyMayMatch key bloom_filter =
     (let len = length bloom_filter
      in if len < 2 then False
         else let bits = (len - 1) * 8;
                  k = scast (bloom_filter ! (len - 1)) :: size
              in if k > 30 then True
                 else (let h = BloomHash key
                       in check_probes (unat k) h (bloom_delta h) bits bloom_filter))"

section \<open>Bits stay set\<close>

definition bit_at :: "byte list \<Rightarrow> nat \<Rightarrow> bool" where
  "bit_at array pos = bit (array ! (pos div 8)) (pos mod 8)"

primrec probes :: "nat \<Rightarrow> u32 \<Rightarrow> u32 \<Rightarrow> nat \<Rightarrow> nat set" where
  "probes 0 h delta bits = {}"
| "probes (Suc j) h delta bits = insert (unat h mod bits) (probes j (h + delta) delta bits)"

lemma length_set_probes [simp]: "length (set_probes j h delta bits array) = length array"
  by (induction j arbitrary: h array) (simp_all add: Let_def)

lemma bit_at_set:
  assumes "p < 8 * length array"
  shows "bit_at (array[p div 8 := array ! (p div 8) OR push_bit (p mod 8) 1]) q \<longleftrightarrow> bit_at array q \<or> q = p"
proof -
  have "p div 8 < length array" using assms by (simp add: less_mult_imp_div_less mult.commute)
  moreover have "q = p \<longleftrightarrow> q div 8 = p div 8 \<and> q mod 8 = p mod 8" by (metis div_mult_mod_eq)
  moreover have "bit (push_bit (p mod 8) 1 :: byte) (q mod 8) \<longleftrightarrow> q mod 8 = p mod 8"
    by (auto simp: bit_simps)
  ultimately show ?thesis
    by (auto simp: bit_at_def bit_simps nth_list_update)
qed

lemma bit_at_probes:
  assumes "bits = 8 * length array" "0 < bits"
  shows "bit_at (set_probes j h delta bits array) q \<longleftrightarrow> bit_at array q \<or> q \<in> probes j h delta bits"
  using assms
proof (induction j arbitrary: h array)
  case (Suc j)
  let ?p = "unat h mod bits"
  let ?a = "array[?p div 8 := array ! (?p div 8) OR push_bit (?p mod 8) 1]"
  have p: "?p < 8 * length array" using Suc.prems by simp
  have "bit_at (set_probes j (h + delta) delta bits ?a) q \<longleftrightarrow> bit_at ?a q \<or> q \<in> probes j (h + delta) delta bits"
    by (rule Suc.IH) (use Suc.prems in simp_all)
  then show ?case by (simp only: set_probes.simps probes.simps Let_def bit_at_set [OF p]) blast
qed simp

lemma check_probes_iff:
  "check_probes j h delta bits array \<longleftrightarrow> (\<forall>q \<in> probes j h delta bits. bit_at array q)"
  by (induction j arbitrary: h) (auto simp: Let_def bit_at_def and_exp_eq_0_iff_not_bit push_bit_eq_mult)

lemma length_bloom_add [simp]: "length (bloom_add pol bits key array) = length array"
  by (simp add: bloom_add_def Let_def)

lemma length_fold_bloom [simp]: "length (fold (bloom_add pol bits) keys array) = length array"
  by (induction keys arbitrary: array) simp_all

definition key_probes :: "bloom_policy \<Rightarrow> nat \<Rightarrow> byte list \<Rightarrow> nat set" where
  "key_probes pol bits key = probes (unat (bp_k pol)) (BloomHash key) (bloom_delta (BloomHash key)) bits"

lemma bit_at_fold_bloom:
  assumes "bits = 8 * length array" "0 < bits"
  shows "bit_at (fold (bloom_add pol bits) keys array) q \<longleftrightarrow>
    bit_at array q \<or> (\<exists>key \<in> set keys. q \<in> key_probes pol bits key)"
  using assms
proof (induction keys arbitrary: array)
  case (Cons key keys)
  from Cons.IH [of "bloom_add pol bits key array"] Cons.prems bit_at_probes [OF Cons.prems]
  show ?case by (auto simp: bloom_add_def key_probes_def Let_def)
qed simp

section \<open>The contract of a filter policy\<close>

locale filter_policy =
  fixes create :: "byte list list \<Rightarrow> byte list \<Rightarrow> byte list option"
    and may_match :: "byte list \<Rightarrow> byte list \<Rightarrow> bool option"
    and ok :: "byte list list \<Rightarrow> bool"
  assumes create_appends: "ok keys \<Longrightarrow> \<exists>f. \<forall>dst. create keys dst = Some (dst @ f)"
    and no_false_negatives: "ok keys \<Longrightarrow> key \<in> set keys \<Longrightarrow> create keys [] = Some f \<Longrightarrow> may_match key f = Some True"
begin

lemma match_appended:
  assumes "ok keys" "key \<in> set keys" "create keys dst = Some dst'"
  shows "may_match key (drop (length dst) dst') = Some True"
proof -
  obtain f where f: "create keys d = Some (d @ f)" for d using create_appends [OF assms(1)] by blast
  from f [of "[]"] f [of dst] no_false_negatives [OF assms(1,2)] assms(3) show ?thesis by simp
qed

end

definition bloom_ok :: "bloom_policy \<Rightarrow> byte list list \<Rightarrow> bool" where
  "bloom_ok pol keys \<longleftrightarrow> unat (bp_k pol) \<le> 30 \<and> length keys * unat (bp_bits_per_key pol) < 2 ^ 63"

lemma filter_bytes_size:
  assumes "n * unat (bp_bits_per_key pol) < 2 ^ 63"
  shows "8 \<le> unat (filter_bytes pol n)" "unat (filter_bytes pol n * 8) = 8 * unat (filter_bytes pol n)"
proof -
  let ?b = "bp_bits_per_key pol"
  define bits where "bits = (if of_nat n * ?b < 64 then 64 else of_nat n * ?b)"
  have "unat (of_nat n * ?b) < 2 ^ 63"
  proof -
    have "unat (of_nat n * ?b) \<le> unat (of_nat n :: size) * unat ?b" by (simp add: unat_word_ariths)
    also have "\<dots> \<le> n * unat ?b" by (rule mult_le_mono1) (simp add: unat_of_nat take_bit_eq_mod)
    finally show ?thesis using assms by simp
  qed
  then have bits: "unat bits < 2 ^ 63" "64 \<le> unat bits"
    by (auto simp: bits_def word_less_nat_alt word_le_nat_alt not_less)
  then have "unat (bits + 7) = unat bits + 7" by (simp add: unat_word_ariths)
  then have u: "unat (filter_bytes pol n) = (unat bits + 7) div 8"
    by (simp add: filter_bytes_def Let_def unat_div flip: bits_def)
  show "8 \<le> unat (filter_bytes pol n)" using bits(2) by (simp add: u)
  have "8 * unat (filter_bytes pol n) < 2 ^ 64" using bits(1) by (simp add: u)
  then show "unat (filter_bytes pol n * 8) = 8 * unat (filter_bytes pol n)"
    by (simp add: unat_word_ariths mult.commute)
qed

lemma scast_small_byte:
  assumes "unat (k :: size) \<le> 30"
  shows "scast (ucast k :: byte) = k"
proof -
  have bits: "i < 5" if "bit k i" for i
    using bit_unat_less [of k 5 i] that assms by simp
  show ?thesis
  proof (rule bit_word_eqI)
    fix n
    show "bit (scast (ucast k :: byte) :: size) n = bit k n" if "n < LENGTH(64)"
      using that bits [of n] bits [of 7] by (cases "n < 7") (auto simp: bit_simps min_def)
  qed
qed

interpretation bloom: filter_policy "\<lambda>keys dst. Some (CreateFilter pol keys dst)"
  "\<lambda>key f. Some (KeyMayMatch key f)" "bloom_ok pol" for pol
proof
  show "\<exists>f. \<forall>dst. Some (CreateFilter pol keys dst) = Some (dst @ f)" for keys
    by (simp add: CreateFilter_def Let_def)
  fix keys key g assume ok: "bloom_ok pol keys" and key: "key \<in> set keys"
    and g: "Some (CreateFilter pol keys []) = Some g"
  define bytes where "bytes = filter_bytes pol (length keys)"
  have k: "unat (bp_k pol) \<le> 30" using ok by (simp add: bloom_ok_def)
  note size = filter_bytes_size [of "length keys" pol, folded bytes_def]
  have size: "8 \<le> unat bytes" "unat (bytes * 8) = 8 * unat bytes"
    using ok size by (simp_all add: bloom_ok_def)
  let ?bits = "8 * unat bytes"
  define array where "array = fold (bloom_add pol ?bits) keys (replicate (unat bytes) 0)"
  have len: "length array = unat bytes" by (simp add: array_def)
  have f: "CreateFilter pol keys [] = array @ [ucast (bp_k pol)]"
    by (simp add: CreateFilter_def Let_def size(2) array_def flip: bytes_def)
  have "bit_at (array @ [ucast (bp_k pol)]) q" if q: "q \<in> key_probes pol ?bits key" for q
  proof -
    have "probes j h d ?bits \<subseteq> {..<?bits}" for j h d
      using size(1) by (induction j arbitrary: h) auto
    then have "q < ?bits" using q by (auto simp: key_probes_def)
    then have "q div 8 < length array" by (simp add: len less_mult_imp_div_less mult.commute)
    moreover have "bit_at array q"
      using bit_at_fold_bloom [of ?bits "replicate (unat bytes) 0" pol keys q] q key size(1)
      by (auto simp: array_def)
    ultimately show ?thesis by (simp add: bit_at_def nth_append)
  qed
  moreover have "\<not> bp_k pol > 30" using k by (simp add: word_less_nat_alt)
  ultimately have "KeyMayMatch key (CreateFilter pol keys [])"
    using len size(1) scast_small_byte [OF k]
    by (simp add: KeyMayMatch_def f Let_def check_probes_iff key_probes_def mult.commute nth_append)
  with g show "Some (KeyMayMatch key g) = Some True" by simp
qed

end
