(* ===== verification/Ldb_Format.thy ===== *)
theory Ldb_Format
  imports Ldb_Comparator Ldb_Coding Ldb_Bloom
begin

text \<open>
  Internal keys of LevelDB, \<open>leveldb-library/db/dbformat.h\<close> and \<open>dbformat.cc\<close>: a user key
  followed by eight bytes with a sequence number and a type.  The comparator of internal keys
  satisfies the contract of comparators whenever the one of user keys does, and the filter
  policy of internal keys that of filter policies; both are sublocales.
\<close>

section \<open>Data\<close>

datatype ValueType = kTypeDeletion | kTypeValue

primrec type_number :: "ValueType \<Rightarrow> u64" where
  "type_number kTypeDeletion = 0"
| "type_number kTypeValue = 1"

definition kValueTypeForSeek :: ValueType where
  "kValueTypeForSeek = kTypeValue"

type_synonym SequenceNumber = u64

definition kMaxSequenceNumber :: SequenceNumber where
  "kMaxSequenceNumber = push_bit 56 1 - 1"

record ParsedInternalKey =
  pik_user_key :: "byte list"
  pik_sequence :: SequenceNumber
  pik_type :: ValueType

definition InternalKeyEncodingLength :: "ParsedInternalKey \<Rightarrow> nat" where
  "InternalKeyEncodingLength key = length (pik_user_key key) + 8"

text \<open>The assertion on the type holds for every value of the model's \<open>ValueType\<close>.\<close>

definition PackSequenceAndType :: "SequenceNumber \<Rightarrow> ValueType \<Rightarrow> u64 option" where
  "PackSequenceAndType seq t =
     (if seq \<le> kMaxSequenceNumber then Some (push_bit 8 seq OR type_number t) else None)"

definition AppendInternalKey :: "byte list \<Rightarrow> ParsedInternalKey \<Rightarrow> byte list option" where
  "AppendInternalKey result key = do {
     packed \<leftarrow> PackSequenceAndType (pik_sequence key) (pik_type key);
     Some (PutFixed64 (result @ pik_user_key key) packed)
   }"

definition ExtractUserKey :: "byte list \<Rightarrow> byte list option" where
  "ExtractUserKey internal_key =
     (if length internal_key \<ge> 8 then Some (take (length internal_key - 8) internal_key) else None)"

text \<open>The last eight bytes.\<close>

definition internal_tag :: "byte list \<Rightarrow> u64 option" where
  "internal_tag internal_key =
     (if length internal_key \<ge> 8 then DecodeFixed64 (drop (length internal_key - 8) internal_key) else None)"

text \<open>The cast to the enumeration is unchecked; the result is the number.\<close>

definition ExtractValueType :: "byte list \<Rightarrow> byte option" where
  "ExtractValueType internal_key = map_option (\<lambda>num. ucast (num AND 0xff)) (internal_tag internal_key)"

text \<open>No result stands for the return value false.\<close>

definition ParseInternalKey :: "byte list \<Rightarrow> ParsedInternalKey option option" where
  "ParseInternalKey internal_key =
     (let n = length internal_key
      in if n < 8 then Some None
         else do {
           num \<leftarrow> DecodeFixed64 (drop (n - 8) internal_key);
           let c = (ucast (num AND 0xff) :: byte);
           Some (if c = 0 \<or> c = 1
             then Some \<lparr>pik_user_key = take (n - 8) internal_key, pik_sequence = drop_bit 8 num,
               pik_type = (if c = 0 then kTypeDeletion else kTypeValue)\<rparr>
             else None)
         })"

section \<open>The comparator of internal keys\<close>

definition Internal_Compare :: "(byte list \<Rightarrow> byte list \<Rightarrow> int option) \<Rightarrow> byte list \<Rightarrow> byte list \<Rightarrow> int option" where
  "Internal_Compare user_compare akey bkey = do {
     auser \<leftarrow> ExtractUserKey akey;
     buser \<leftarrow> ExtractUserKey bkey;
     r \<leftarrow> user_compare auser buser;
     if r = 0 then do {
       anum \<leftarrow> internal_tag akey;
       bnum \<leftarrow> internal_tag bkey;
       Some (if anum > bnum then -1 else if anum < bnum then 1 else r)
     }
     else Some r
   }"

text \<open>An assertion: the comparison is defined and negative.\<close>

definition assert_less :: "int option \<Rightarrow> unit option" where
  "assert_less r = (case r of Some i \<Rightarrow> if i < 0 then Some () else None | None \<Rightarrow> None)"

definition Internal_FindShortestSeparator ::
  "(byte list \<Rightarrow> byte list \<Rightarrow> int option) \<Rightarrow> (byte list \<Rightarrow> byte list \<Rightarrow> byte list option) \<Rightarrow>
   byte list \<Rightarrow> byte list \<Rightarrow> byte list option" where
  "Internal_FindShortestSeparator user_compare user_separator start limit = do {
     user_start \<leftarrow> ExtractUserKey start;
     user_limit \<leftarrow> ExtractUserKey limit;
     tmp \<leftarrow> user_separator user_start user_limit;
     r \<leftarrow> (if length tmp < length user_start then user_compare user_start tmp else Some 0);
     if length tmp < length user_start \<and> r < 0 then do {
       packed \<leftarrow> PackSequenceAndType kMaxSequenceNumber kValueTypeForSeek;
       let tmp = PutFixed64 tmp packed;
       assert_less (Internal_Compare user_compare start tmp);
       assert_less (Internal_Compare user_compare tmp limit);
       Some tmp
     }
     else Some start
   }"

definition Internal_FindShortSuccessor ::
  "(byte list \<Rightarrow> byte list \<Rightarrow> int option) \<Rightarrow> (byte list \<Rightarrow> byte list option) \<Rightarrow> byte list \<Rightarrow> byte list option" where
  "Internal_FindShortSuccessor user_compare user_successor key = do {
     user_key \<leftarrow> ExtractUserKey key;
     tmp \<leftarrow> user_successor user_key;
     r \<leftarrow> (if length tmp < length user_key then user_compare user_key tmp else Some 0);
     if length tmp < length user_key \<and> r < 0 then do {
       packed \<leftarrow> PackSequenceAndType kMaxSequenceNumber kValueTypeForSeek;
       let tmp = PutFixed64 tmp packed;
       assert_less (Internal_Compare user_compare key tmp);
       Some tmp
     }
     else Some key
   }"

definition InternalKeyComparator :: "comparator \<Rightarrow> comparator" where
  "InternalKeyComparator c = \<lparr>cmp_Compare = Internal_Compare (cmp_Compare c),
     cmp_FindShortestSeparator = Internal_FindShortestSeparator (cmp_Compare c) (cmp_FindShortestSeparator c),
     cmp_FindShortSuccessor = Internal_FindShortSuccessor (cmp_Compare c) (cmp_FindShortSuccessor c)\<rparr>"

section \<open>The filter policy of internal keys\<close>

definition Internal_CreateFilter ::
  "(byte list list \<Rightarrow> byte list \<Rightarrow> byte list option) \<Rightarrow> byte list list \<Rightarrow> byte list \<Rightarrow> byte list option" where
  "Internal_CreateFilter user_create keys dst = do {
     mkey \<leftarrow> those (map ExtractUserKey keys);
     user_create mkey dst
   }"

definition Internal_KeyMayMatch ::
  "(byte list \<Rightarrow> byte list \<Rightarrow> bool option) \<Rightarrow> byte list \<Rightarrow> byte list \<Rightarrow> bool option" where
  "Internal_KeyMayMatch user_match key f = do {
     user_key \<leftarrow> ExtractUserKey key;
     user_match user_key f
   }"

section \<open>Keys for lookups\<close>

text \<open>
  The characters between \<open>start_\<close> and \<open>end_\<close>, and the index of \<open>kstart_\<close>; writing more than
  the \<open>needed\<close> bytes would be undefined.
\<close>

record LookupKey =
  lk_chars :: "byte list"
  lk_kstart :: nat

definition new_LookupKey :: "byte list \<Rightarrow> SequenceNumber \<Rightarrow> LookupKey option" where
  "new_LookupKey user_key s = do {
     let usize = length user_key;
     let needed = usize + 13;
     let klength = EncodeVarint32 (of_nat (usize + 8));
     packed \<leftarrow> PackSequenceAndType s kValueTypeForSeek;
     let dst = klength @ user_key @ EncodeFixed64 packed;
     if length dst \<le> needed then Some \<lparr>lk_chars = dst, lk_kstart = length klength\<rparr> else None
   }"

definition memtable_key :: "LookupKey \<Rightarrow> byte list" where
  "memtable_key k = lk_chars k"

definition internal_key :: "LookupKey \<Rightarrow> byte list" where
  "internal_key k = drop (lk_kstart k) (lk_chars k)"

definition user_key :: "LookupKey \<Rightarrow> byte list" where
  "user_key k = take (length (lk_chars k) - lk_kstart k - 8) (drop (lk_kstart k) (lk_chars k))"

section \<open>Reading internal keys\<close>

lemma internal_key_parts [simp]:
  "ExtractUserKey (u @ EncodeFixed64 n) = Some u" "internal_tag (u @ EncodeFixed64 n) = Some n"
proof -
  have len: "length (EncodeFixed64 n) = 8" by (simp add: EncodeFixed64_def)
  then show "ExtractUserKey (u @ EncodeFixed64 n) = Some u" by (simp add: ExtractUserKey_def)
  show "internal_tag (u @ EncodeFixed64 n) = Some n"
    using DecodeFixed64_append [of n "[]"] len by (simp add: internal_tag_def)
qed

lemma internal_key_ex:
  assumes "8 \<le> length k"
  obtains u n where "k = u @ EncodeFixed64 n" "length u = length k - 8"
proof -
  let ?u = "take (length k - 8) k" and ?t = "drop (length k - 8) k"
  have "length ?t = 8" using assms by simp
  then have "EncodeFixed64 (le_word ?t) = ?t"
    using le_bytes_le_word [of ?t, where ?'a = 64] by (simp add: EncodeFixed64_def)
  then have "k = ?u @ EncodeFixed64 (le_word ?t)" by simp
  then show thesis by (rule that) simp
qed

lemma EncodeFixed64_inject [simp]: "EncodeFixed64 n = EncodeFixed64 m \<longleftrightarrow> n = m"
  using fixed64_codec.put_inject [of n m] by simp

lemma length_EncodeFixed64 [simp]: "length (EncodeFixed64 n) = 8"
  by (simp add: EncodeFixed64_def)

lemma Internal_Compare_parts:
  "Internal_Compare cmp (u @ EncodeFixed64 m) (v @ EncodeFixed64 n) =
     Option.bind (cmp u v) (\<lambda>r. Some (if r = 0 then if m > n then -1 else if m < n then 1 else 0 else r))"
  by (cases "cmp u v") (simp_all add: Internal_Compare_def)

lemma below_Internal:
  "below (Internal_Compare cmp) (u @ EncodeFixed64 m) (v @ EncodeFixed64 n) \<longleftrightarrow>
     below cmp u v \<or> cmp u v = Some 0 \<and> m > n"
  by (cases "cmp u v") (auto simp: below_def Internal_Compare_parts)

section \<open>The contracts\<close>

definition internal_ok :: "(byte list \<Rightarrow> bool) \<Rightarrow> byte list \<Rightarrow> bool" where
  "internal_ok ok k \<longleftrightarrow> (\<exists>u. ExtractUserKey k = Some u \<and> ok u)"

lemma internal_okE:
  assumes "internal_ok ok k"
  obtains u n where "k = u @ EncodeFixed64 n" "ok u"
proof -
  have "8 \<le> length k" using assms by (auto simp: internal_ok_def ExtractUserKey_def split: if_splits)
  then obtain u n where "k = u @ EncodeFixed64 n" by (rule internal_key_ex)
  with assms that show thesis by (auto simp: internal_ok_def)
qed

lemma internal_ok_parts [simp]: "internal_ok ok (u @ EncodeFixed64 n) = ok u"
  by (simp add: internal_ok_def)

lemma seek_tag: "PackSequenceAndType kMaxSequenceNumber kValueTypeForSeek = Some (2 ^ 64 - 1 - 254)"
  by (simp add: PackSequenceAndType_def kMaxSequenceNumber_def kValueTypeForSeek_def)

text \<open>A comparator of user keys gives one of internal keys.\<close>

locale user_comparator = comparator

sublocale user_comparator \<subseteq> internal: comparator "internal_ok ok" "Internal_Compare compare"
  "Internal_FindShortestSeparator compare separator" "Internal_FindShortSuccessor compare successor"
proof (unfold_locales, goal_cases)
  case (1 a b)
  then obtain u m v n where k: "a = u @ EncodeFixed64 m" "ok u" "b = v @ EncodeFixed64 n" "ok v"
    by (meson internal_okE)
  with total [OF k(2,4)] show ?case by (auto simp: Internal_Compare_parts)
next
  case (2 a b)
  then obtain u m v n where k: "a = u @ EncodeFixed64 m" "ok u" "b = v @ EncodeFixed64 n" "ok v"
    by (meson internal_okE)
  with total [OF k(2,4)] zero [OF k(2,4)] show ?case by (auto simp: Internal_Compare_parts)
next
  case (3 a b)
  then obtain u m v n where k: "a = u @ EncodeFixed64 m" "ok u" "b = v @ EncodeFixed64 n" "ok v"
    by (meson internal_okE)
  from total [OF k(2,4)] obtain r where r: "compare u v = Some r" by blast
  have "compare v u = Some 0 \<longleftrightarrow> r = 0" using zero [OF k(2,4)] zero [OF k(4,2)] r by auto
  with flip [OF k(2,4)] r show ?case by (auto simp: k below_Internal Internal_Compare_parts)
next
  case (4 a b c)
  from 4(1) obtain u m where a: "a = u @ EncodeFixed64 m" "ok u" by (rule internal_okE)
  from 4(2) obtain v n where b: "b = v @ EncodeFixed64 n" "ok v" by (rule internal_okE)
  from 4(3) obtain w p where c: "c = w @ EncodeFixed64 p" "ok w" by (rule internal_okE)
  note k = a b c
  note eqs = zero [OF k(2,4)] zero [OF k(4,6)] zero [OF k(2,6)]
  from 4(4,5) have "below compare u v \<or> u = v \<and> n < m" "below compare v w \<or> v = w \<and> p < n"
    by (simp_all only: k below_Internal eqs)
  then have "below compare u w \<or> u = w \<and> p < m"
    using trans [OF k(2,4,6)] less_trans [of p n m] by blast
  then show ?case by (simp only: k below_Internal eqs)
next
  case (5 start limit)
  then obtain u m v n where k: "start = u @ EncodeFixed64 m" "ok u" "limit = v @ EncodeFixed64 n" "ok v"
    by (meson internal_okE)
  obtain t where t: "separator u v = Some t" "ok t" "t = u \<or> below compare u t" "below compare u v \<Longrightarrow> below compare t v"
    using 5(3) separator [OF k(2,4)] separator_same [OF k(2)] zero [OF k(2,4)] k(2)
    by (auto simp: k below_Internal)
  obtain r where r: "compare u t = Some r" using total [OF k(2) t(2)] by blast
  show ?case
  proof (cases "length t < length u \<and> r < 0")
    case True
    then have ut: "below compare u t" "t \<noteq> u" using r by (auto simp: below_def)
    have "below compare u v"
    proof (rule ccontr)
      assume "\<not> below compare u v"
      with 5(3) zero [OF k(2,4)] have "u = v" by (auto simp: k below_Internal)
      with t(1) ut(2) separator_same [OF k(2)] show False by simp
    qed
    with t(4) have "below compare t v" by blast
    with ut(1) have "below (Internal_Compare compare) start (t @ EncodeFixed64 (2 ^ 64 - 1 - 254))"
        "below (Internal_Compare compare) (t @ EncodeFixed64 (2 ^ 64 - 1 - 254)) limit"
      by (simp_all add: k below_Internal)
    moreover have "assert_less i = Some ()" if "\<exists>r<0. i = Some r" for i
      using that by (auto simp: assert_less_def)
    ultimately show ?thesis
      using True r t k
      by (simp add: Internal_FindShortestSeparator_def seek_tag PutFixed64_def below_def [of "Internal_Compare compare"])
  next
    case False
    then have "Internal_FindShortestSeparator compare separator start limit = Some start"
      using r t(1) by (auto simp: Internal_FindShortestSeparator_def k)
    with 5 show ?thesis by simp
  qed
next
  case (6 key)
  then obtain u m where k: "key = u @ EncodeFixed64 m" "ok u" by (meson internal_okE)
  show ?case using separator_same [OF k(2)] by (simp add: Internal_FindShortestSeparator_def k)
next
  case (7 key)
  then obtain u m where k: "key = u @ EncodeFixed64 m" "ok u" by (meson internal_okE)
  obtain t where t: "successor u = Some t" "ok t" "t = u \<or> below compare u t" using successor [OF k(2)] by blast
  obtain r where r: "compare u t = Some r" using total [OF k(2) t(2)] by blast
  show ?case
  proof (cases "length t < length u \<and> r < 0")
    case True
    then have "below compare u t" using r by (auto simp: below_def)
    then have b: "below (Internal_Compare compare) key (t @ EncodeFixed64 (2 ^ 64 - 1 - 254))"
      by (simp add: k below_Internal)
    then have "assert_less (Internal_Compare compare key (t @ EncodeFixed64 (2 ^ 64 - 1 - 254))) = Some ()"
      by (auto simp: assert_less_def below_def)
    with True r t k b show ?thesis by (simp add: Internal_FindShortSuccessor_def seek_tag PutFixed64_def)
  next
    case False
    then have "Internal_FindShortSuccessor compare successor key = Some key"
      using r t(1) by (auto simp: Internal_FindShortSuccessor_def k)
    with 7 show ?thesis by simp
  qed
qed

interpretation bytewise_user: user_comparator "\<lambda>_. True" Bytewise_Compare
  Bytewise_FindShortestSeparator Bytewise_FindShortSuccessor
  by unfold_locales

text \<open>A filter policy of user keys gives one of internal keys.\<close>

definition internal_keys_ok :: "(byte list list \<Rightarrow> bool) \<Rightarrow> byte list list \<Rightarrow> bool" where
  "internal_keys_ok ok keys \<longleftrightarrow> (\<exists>users. map ExtractUserKey keys = map Some users \<and> ok users)"

lemma those_map_Some: "those (map Some xs) = Some xs"
  by (induction xs) simp_all

locale user_filter_policy = filter_policy

sublocale user_filter_policy \<subseteq> internal: filter_policy "Internal_CreateFilter create"
  "Internal_KeyMayMatch may_match" "internal_keys_ok ok"
proof (unfold_locales, goal_cases)
  case (1 keys)
  then obtain users where "map ExtractUserKey keys = map Some users" "ok users"
    by (auto simp: internal_keys_ok_def)
  with create_appends [of users] show ?case by (simp add: Internal_CreateFilter_def those_map_Some)
next
  case (2 keys key f)
  then obtain users where u: "map ExtractUserKey keys = map Some users" "ok users"
    by (auto simp: internal_keys_ok_def)
  obtain i where i: "i < length keys" "keys ! i = key" using 2(2) by (auto simp: in_set_conv_nth)
  have len: "length users = length keys" using arg_cong [OF u(1), of length] by simp
  have "ExtractUserKey key = Some (users ! i)"
    using arg_cong [OF u(1), of "\<lambda>xs. xs ! i"] i len by simp
  moreover have "users ! i \<in> set users" using i(1) len by simp
  moreover have "create users [] = Some f" using 2(3) u(1) by (simp add: Internal_CreateFilter_def those_map_Some)
  ultimately show ?case using no_false_negatives [OF u(2)] by (simp add: Internal_KeyMayMatch_def)
qed

interpretation bloom_user: user_filter_policy "\<lambda>keys dst. Some (CreateFilter pol keys dst)"
  "\<lambda>key f. Some (KeyMayMatch key f)" "bloom_ok pol" for pol
  by unfold_locales

section \<open>Packed sequence numbers and types\<close>

lemma type_number_less: "unat (type_number t) < 256"
  by (cases t) simp_all

lemma unat_packed:
  assumes "seq \<le> kMaxSequenceNumber"
  shows "unat (push_bit 8 seq OR type_number t) = 256 * unat seq + unat (type_number t)"
proof -
  have "unat seq < 2 ^ 56" using assms by (simp add: kMaxSequenceNumber_def word_le_nat_alt)
  then have "take_bit 64 (unat seq * 2 ^ 8) = unat seq * 2 ^ 8" by (simp add: take_bit_nat_eq_self_iff)
  moreover have "unat (push_bit 8 seq) = take_bit LENGTH(64) (push_bit 8 (unat seq))"
    by (simp only: unsigned_push_bit_eq)
  ultimately have push: "unat (push_bit 8 seq) = 256 * unat seq"
    by (simp add: push_bit_eq_mult [of 8 "unat seq"] del: push_bit_numeral)
  have "push_bit 8 seq AND type_number t = 0"
    by (cases t) (auto simp: word_eq_bits bit_simps bit_1_iff)
  then have "push_bit 8 seq OR type_number t = push_bit 8 seq + type_number t"
    by (rule disjunctive_add_eq_or [symmetric])
  moreover have "unat (push_bit 8 seq + type_number t) = unat (push_bit 8 seq) + unat (type_number t)"
    using \<open>unat seq < 2 ^ 56\<close> type_number_less [of t] push by (simp add: unat_word_ariths)
  ultimately show ?thesis using push by simp
qed

lemma packed_less:
  assumes "s \<le> kMaxSequenceNumber" "r \<le> kMaxSequenceNumber"
  shows "push_bit 8 s OR type_number t < push_bit 8 r OR type_number u \<longleftrightarrow>
    s < r \<or> s = r \<and> type_number t < type_number u"
  unfolding word_less_nat_alt unat_packed [OF assms(1)] unat_packed [OF assms(2)]
  using type_number_less [of t] type_number_less [of u]
  by (auto simp: word_eq_iff_unsigned [where ?'a = nat])

lemma packed_parts:
  assumes "s \<le> kMaxSequenceNumber"
  shows "drop_bit 8 (push_bit 8 s OR type_number t) = s"
    "ucast ((push_bit 8 s OR type_number t) AND 0xff) = (ucast (type_number t) :: byte)"
proof -
  have "unat s < 2 ^ 56" using assms by (simp add: kMaxSequenceNumber_def word_le_nat_alt)
  then have high: "i < 56" if "bit s i" for i using bit_unat_less that by blast
  have low: "i = 0" if "bit (type_number t) i" for i using that by (cases t) (auto simp: bit_1_iff)
  show "drop_bit 8 (push_bit 8 s OR type_number t) = s"
    by (rule bit_word_eqI) (auto simp: bit_simps dest: low high)
  have "ucast (push_bit 8 s OR type_number t) = (ucast (type_number t) :: byte)"
    by (cases t) (simp_all add: word_eq_bits bit_simps)
  then show "ucast ((push_bit 8 s OR type_number t) AND 0xff) = (ucast (type_number t) :: byte)"
    by (simp only: ucast_and_FF [where ?'a = 64, simplified])
qed

end
