(* ===== verification/Ldb_Log_Writer.thy ===== *)
theory Ldb_Log_Writer
  imports Ldb_Crc32c
begin

text \<open>
  The writer of LevelDB's log files, \<open>leveldb-library/db/log_writer.cc\<close> and
  \<open>log_format.h\<close>: records are cut into fragments that fit into 32 KB blocks, each with a
  header of checksum, length and type.  The file is written through the interface of
  \<open>WritableFile\<close> (\<open>leveldb/env.h\<close>), whose operations are a parameter.
\<close>

section \<open>Status\<close>

text \<open>\<open>leveldb/status.h\<close>: success, or a code with a message.\<close>

datatype status =
  OK
  | NotFound "byte list"
  | Corruption "byte list"
  | NotSupported "byte list"
  | InvalidArgument "byte list"
  | IOError "byte list"

definition status_ok :: "status \<Rightarrow> bool" where
  "status_ok s \<longleftrightarrow> s = OK"

section \<open>Format\<close>

text \<open>Record types; the reader adds two values for the end of the file and bad records.\<close>

definition kZeroType :: u32 where [c_defs]: "kZeroType = 0"
definition kFullType :: u32 where [c_defs]: "kFullType = 1"
definition kFirstType :: u32 where [c_defs]: "kFirstType = 2"
definition kMiddleType :: u32 where [c_defs]: "kMiddleType = 3"
definition kLastType :: u32 where [c_defs]: "kLastType = 4"
definition kMaxRecordType :: u32 where [c_defs]: "kMaxRecordType = 4"
definition kBlockSize :: nat where [c_defs]: "kBlockSize = 32768"
definition kHeaderSize :: nat where [c_defs]: "kHeaderSize = 7"

section \<open>Writer\<close>

text \<open>
  The operations of a file of type \<open>'f\<close>.  \<open>Append\<close> may fail and leave the file changed.
\<close>

record 'f writable_file =
  wf_Append :: "byte list \<Rightarrow> 'f \<Rightarrow> status \<times> 'f"
  wf_Flush :: "'f \<Rightarrow> status \<times> 'f"

text \<open>
  The addresses of the buffers that are checksummed do not matter
  (\<open>Ldb_Crc32c.Extend_crc32c\<close>); the model passes 0.
\<close>

record 'f log_writer =
  lw_dest :: 'f
  lw_block_offset :: nat
  lw_type_crc :: "u32 list"

definition InitTypeCrc :: "u32 list option" where
  "InitTypeCrc = those (map (\<lambda>i. Value 0 [of_nat i]) [0..<Suc (unat kMaxRecordType)])"

definition Writer :: "'f \<Rightarrow> u64 \<Rightarrow> 'f log_writer option" where
  "Writer dest dest_length = do {
     type_crc \<leftarrow> InitTypeCrc;
     Some \<lparr>lw_dest = dest, lw_block_offset = unat dest_length mod kBlockSize, lw_type_crc = type_crc\<rparr>
   }"

definition EmitPhysicalRecord ::
  "'f writable_file \<Rightarrow> u32 \<Rightarrow> byte list \<Rightarrow> 'f log_writer \<Rightarrow> (status \<times> 'f log_writer) option" where
  "EmitPhysicalRecord file t data w = do {
     let n = length data;
     if \<not> unat t < length (lw_type_crc w) then None
     else do {
       crc \<leftarrow> Extend 0 (lw_type_crc w ! unat t) data;
       let crc = Mask crc;
       let buf = EncodeFixed32 crc @ [of_nat n AND 0xff, of_nat (n div 256), ucast t];
       let (s, f) = wf_Append file buf (lw_dest w);
       let (s, f) = (if status_ok s
         then (let (s, f) = wf_Append file data f in if status_ok s then wf_Flush file f else (s, f))
         else (s, f));
       Some (s, w\<lparr>lw_dest := f, lw_block_offset := lw_block_offset w + kHeaderSize + n\<rparr>)
     }
   }"

definition record_type :: "bool \<Rightarrow> bool \<Rightarrow> u32" where
  "record_type beg fin =
     (if beg \<and> fin then kFullType
      else if beg then kFirstType
      else if fin then kLastType
      else kMiddleType)"

text \<open>The trailer of a block; the status of the append is ignored.\<close>

definition switch_block :: "'f writable_file \<Rightarrow> 'f log_writer \<Rightarrow> 'f log_writer" where
  "switch_block file w =
     (let leftover = kBlockSize - lw_block_offset w
      in if leftover < kHeaderSize
         then (let w = (if leftover > 0
                 then w\<lparr>lw_dest := snd (wf_Append file (replicate leftover 0) (lw_dest w))\<rparr> else w)
               in w\<lparr>lw_block_offset := 0\<rparr>)
         else w)"

partial_function (option) AddRecord_loop ::
  "'f writable_file \<Rightarrow> bool \<Rightarrow> byte list \<Rightarrow> 'f log_writer \<Rightarrow> (status \<times> 'f log_writer) option" where
  "AddRecord_loop file beg data w = do {
     let w = switch_block file w;
     let avail = kBlockSize - lw_block_offset w - kHeaderSize;
     let fragment_length = (if length data < avail then length data else avail);
     let type = record_type beg (length data = fragment_length);
     (s, w) \<leftarrow> EmitPhysicalRecord file type (take fragment_length data) w;
     let data = drop fragment_length data;
     if status_ok s \<and> length data > 0 then AddRecord_loop file False data w
     else Some (s, w)
   }"

declare AddRecord_loop.simps [code]

definition AddRecord :: "'f writable_file \<Rightarrow> byte list \<Rightarrow> 'f log_writer \<Rightarrow> (status \<times> 'f log_writer) option" where
  "AddRecord file data w = AddRecord_loop file True data w"

section \<open>What is written\<close>

text \<open>
  A physical record, the fragments of a record that starts at offset \<open>b\<close> of a block, and
  the bytes of a log.
\<close>

definition type_byte :: "u32 \<Rightarrow> byte" where
  "type_byte t = ucast t"

definition physical :: "u32 \<Rightarrow> byte list \<Rightarrow> byte list" where
  "physical t data =
     EncodeFixed32 (Mask (crc32c 0 (type_byte t # data))) @
     [of_nat (length data) AND 0xff, of_nat (length data div 256), type_byte t] @ data"

definition trailer :: "nat \<Rightarrow> byte list" where
  "trailer b = (if kBlockSize - b < kHeaderSize then replicate (kBlockSize - b) 0 else [])"

definition start_of :: "nat \<Rightarrow> nat" where
  "start_of b = (if kBlockSize - b < kHeaderSize then 0 else b)"

definition room_at :: "nat \<Rightarrow> nat" where
  "room_at b = kBlockSize - start_of b - kHeaderSize"

text \<open>The fragments with their types, and the offset behind each.\<close>

function fragments :: "bool \<Rightarrow> nat \<Rightarrow> byte list \<Rightarrow> (u32 \<times> byte list) list" where
  "fragments beg b data =
     (if length data \<le> room_at b then [(record_type beg True, data)]
      else (record_type beg False, take (room_at b) data) #
        fragments False kBlockSize (drop (room_at b) data))"
  by pat_completeness auto
termination
proof (relation "measure (\<lambda>(beg, b, data). 2 * length data + (if room_at b = 0 then 1 else 0))", goal_cases)
  case (2 beg b data)
  then show ?case by (auto simp: room_at_def start_of_def c_defs)
qed simp

declare fragments.simps [simp del]

text \<open>The bytes of fragments written from offset \<open>b\<close> on, and the offset they end at.\<close>

primrec frag_bytes :: "nat \<Rightarrow> (u32 \<times> byte list) list \<Rightarrow> byte list" where
  "frag_bytes b [] = []"
| "frag_bytes b (f # fs) =
     trailer b @ physical (fst f) (snd f) @ frag_bytes (start_of b + kHeaderSize + length (snd f)) fs"

primrec frag_end :: "nat \<Rightarrow> (u32 \<times> byte list) list \<Rightarrow> nat" where
  "frag_end b [] = b"
| "frag_end b (f # fs) = frag_end (start_of b + kHeaderSize + length (snd f)) fs"

definition record_bytes :: "nat \<Rightarrow> byte list \<Rightarrow> byte list" where
  "record_bytes b data = frag_bytes b (fragments True b data)"

definition record_end :: "nat \<Rightarrow> byte list \<Rightarrow> nat" where
  "record_end b data = frag_end b (fragments True b data)"

primrec log_bytes :: "nat \<Rightarrow> byte list list \<Rightarrow> byte list" where
  "log_bytes b [] = []"
| "log_bytes b (r # rs) = record_bytes b r @ log_bytes (record_end b r) rs"

section \<open>The writer writes it\<close>

text \<open>
  What is relied on of the file: appending and flushing succeed, and the contents grow by
  what is appended.
\<close>

definition file_appends :: "'f writable_file \<Rightarrow> ('f \<Rightarrow> byte list) \<Rightarrow> bool" where
  "file_appends file contents \<longleftrightarrow>
     (\<forall>data f. fst (wf_Append file data f) = OK \<and> contents (snd (wf_Append file data f)) = contents f @ data) \<and>
     (\<forall>f. fst (wf_Flush file f) = OK \<and> contents (snd (wf_Flush file f)) = contents f)"

definition writer_ok :: "'f log_writer \<Rightarrow> bool" where
  "writer_ok w \<longleftrightarrow> lw_block_offset w \<le> kBlockSize \<and>
     lw_type_crc w = map (\<lambda>i. crc32c 0 [of_nat i]) [0..<5]"

lemma InitTypeCrc_eq: "InitTypeCrc = Some (map (\<lambda>i. crc32c 0 [of_nat i]) [0..<5])"
  by (simp add: InitTypeCrc_def Value_def Extend_crc32c c_defs upt_rec)

lemma Writer_ok: "\<exists>w. Writer dest n = Some w \<and> writer_ok w \<and> lw_dest w = dest \<and> lw_block_offset w = unat n mod kBlockSize"
  using mod_less_divisor [of kBlockSize "unat n"]
  by (simp add: Writer_def InitTypeCrc_eq writer_ok_def) (simp add: c_defs)

lemma switch_block_ok:
  assumes "file_appends file contents" "writer_ok w"
  shows "contents (lw_dest (switch_block file w)) = contents (lw_dest w) @ trailer (lw_block_offset w)"
    "lw_block_offset (switch_block file w) = start_of (lw_block_offset w)"
    "lw_type_crc (switch_block file w) = lw_type_crc w"
  using assms by (simp_all add: switch_block_def trailer_def start_of_def file_appends_def Let_def)

lemma record_type_less: "unat (record_type beg fin) < 5"
  by (simp add: record_type_def c_defs)

lemma Emit_ok:
  assumes appends: "file_appends file contents" and w: "writer_ok w" and t: "unat t < 5"
  obtains w' where "EmitPhysicalRecord file t data w = Some (OK, w')"
    "contents (lw_dest w') = contents (lw_dest w) @ physical t data"
    "lw_block_offset w' = lw_block_offset w + kHeaderSize + length data" "lw_type_crc w' = lw_type_crc w"
proof -
  have crc: "lw_type_crc w ! unat t = crc32c 0 [type_byte t]"
  proof -
    have "(of_nat (unat t) :: byte) = type_byte t"
      by (rule bit_word_eqI) (simp add: type_byte_def bit_simps)
    then show ?thesis using w t by (simp add: writer_ok_def)
  qed
  have ext: "Extend 0 (lw_type_crc w ! unat t) data = Some (crc32c 0 (type_byte t # data))"
    by (simp add: Extend_crc32c crc crc32c_append)
  let ?buf = "EncodeFixed32 (Mask (crc32c 0 (type_byte t # data))) @
    [of_nat (length data) AND 0xff, of_nat (length data div 256), ucast t]"
  let ?f1 = "snd (wf_Append file ?buf (lw_dest w))"
  let ?f2 = "snd (wf_Append file data ?f1)"
  let ?f3 = "snd (wf_Flush file ?f2)"
  let ?w = "w\<lparr>lw_dest := ?f3, lw_block_offset := lw_block_offset w + kHeaderSize + length data\<rparr>"
  have len: "length (lw_type_crc w) = 5" using w by (simp add: writer_ok_def)
  have ok: "fst (wf_Append file d f) = OK" "fst (wf_Flush file f) = OK" for d f
    using appends by (simp_all add: file_appends_def)
  have "EmitPhysicalRecord file t data w = Some (OK, ?w)"
    using t len ok by (simp add: EmitPhysicalRecord_def ext status_ok_def Let_def case_prod_unfold)
  moreover have "contents ?f3 = contents (lw_dest w) @ physical t data"
    using appends by (simp add: file_appends_def physical_def type_byte_def)
  ultimately show thesis using that [of ?w] by simp
qed

lemma AddRecord_loop_ok:
  assumes appends: "file_appends file contents" and w: "writer_ok w"
  shows "\<exists>w'. AddRecord_loop file beg data w = Some (OK, w') \<and> writer_ok w' \<and>
    contents (lw_dest w') = contents (lw_dest w) @
      frag_bytes (lw_block_offset w) (fragments beg (lw_block_offset w) data) \<and>
    lw_block_offset w' = frag_end (lw_block_offset w) (fragments beg (lw_block_offset w) data)"
  using w
proof (induction beg "lw_block_offset w" data arbitrary: w rule: fragments.induct)
  case (1 beg data w)
  let ?b = "lw_block_offset w" and ?w = "switch_block file w"
  note s = switch_block_ok [OF appends 1(2)]
  have b: "?b \<le> kBlockSize" using 1(2) by (simp add: writer_ok_def)
  have start: "start_of ?b + kHeaderSize \<le> kBlockSize" using b by (auto simp: start_of_def c_defs)
  have wok: "writer_ok ?w" using 1(2) s start by (simp add: writer_ok_def)
  have room: "kBlockSize - lw_block_offset ?w - kHeaderSize = room_at ?b" by (simp add: s room_at_def)
  define n where "n = (if length data < room_at ?b then length data else room_at ?b)"
  have n: "n \<le> length data" "start_of ?b + kHeaderSize + n \<le> kBlockSize"
    using start by (auto simp: n_def room_at_def)
  obtain w1 where w1: "EmitPhysicalRecord file (record_type beg (length data = n)) (take n data) ?w = Some (OK, w1)"
      "contents (lw_dest w1) = contents (lw_dest ?w) @ physical (record_type beg (length data = n)) (take n data)"
      "lw_block_offset w1 = start_of ?b + kHeaderSize + n" "lw_type_crc w1 = lw_type_crc w"
    using Emit_ok [OF appends wok record_type_less, of beg "length data = n" "take n data"] s n by auto
  have w1ok: "writer_ok w1" using w1 n 1(2) by (simp add: writer_ok_def)
  have unf: "AddRecord_loop file beg data w =
      (if length data > n then AddRecord_loop file False (drop n data) w1 else Some (OK, w1))"
  proof -
    have "AddRecord_loop file beg data w = do {
        (s, w) \<leftarrow> EmitPhysicalRecord file (record_type beg (length data = n)) (take n data) ?w;
        if status_ok s \<and> length (drop n data) > 0 then AddRecord_loop file False (drop n data) w
        else Some (s, w) }"
      by (subst AddRecord_loop.simps) (simp only: Let_def room n_def)
    then show ?thesis using w1(1) by (simp add: status_ok_def)
  qed
  show ?case
  proof (cases "length data \<le> room_at ?b")
    case True
    then have "n = length data" by (simp add: n_def)
    with True w1 w1ok s unf show ?thesis by (simp add: fragments.simps [of beg ?b data])
  next
    case False
    then have nr: "n = room_at ?b" by (simp add: n_def)
    have full: "lw_block_offset w1 = kBlockSize"
      using w1(3) start by (simp add: nr room_at_def)
    obtain w2 where "AddRecord_loop file False (drop n data) w1 = Some (OK, w2)" "writer_ok w2"
        "contents (lw_dest w2) = contents (lw_dest w1) @ frag_bytes kBlockSize (fragments False kBlockSize (drop n data))"
        "lw_block_offset w2 = frag_end kBlockSize (fragments False kBlockSize (drop n data))"
      using 1(1) [OF False full [symmetric] w1ok] by (auto simp: full nr)
    with False w1 s unf nr full show ?thesis
      by (simp add: fragments.simps [of beg ?b data])
  qed
qed

lemma AddRecord_ok:
  assumes "file_appends file contents" "writer_ok w"
  obtains w' where "AddRecord file data w = Some (OK, w')" "writer_ok w'"
    "contents (lw_dest w') = contents (lw_dest w) @ record_bytes (lw_block_offset w) data"
    "lw_block_offset w' = record_end (lw_block_offset w) data"
  using AddRecord_loop_ok [OF assms, of True data] by (auto simp: AddRecord_def record_bytes_def record_end_def)

text \<open>A log of several records.\<close>

primrec add_records ::
  "'f writable_file \<Rightarrow> byte list list \<Rightarrow> 'f log_writer \<Rightarrow> (status \<times> 'f log_writer) option" where
  "add_records file [] w = Some (OK, w)"
| "add_records file (r # rs) w = do {
     (s, w) \<leftarrow> AddRecord file r w;
     if status_ok s then add_records file rs w else Some (s, w)
   }"

lemma add_records_ok:
  assumes "file_appends file contents" "writer_ok w"
  shows "\<exists>w'. add_records file rs w = Some (OK, w') \<and> writer_ok w' \<and>
    contents (lw_dest w') = contents (lw_dest w) @ log_bytes (lw_block_offset w) rs"
  using assms(2)
proof (induction rs arbitrary: w)
  case (Cons r rs)
  obtain w1 where w1: "AddRecord file r w = Some (OK, w1)" "writer_ok w1"
      "contents (lw_dest w1) = contents (lw_dest w) @ record_bytes (lw_block_offset w) r"
      "lw_block_offset w1 = record_end (lw_block_offset w) r"
    using AddRecord_ok [OF assms(1) Cons.prems, where data = r] by blast
  from Cons.IH [OF w1(2)] w1 show ?case by (auto simp: status_ok_def)
qed simp

end
