(* ===== verification/Ldb_Write_Batch.thy ===== *)
theory Ldb_Write_Batch
  imports Ldb_Format Ldb_Log_Writer
begin

text \<open>
  Write batches of LevelDB, \<open>leveldb-library/db/write_batch.cc\<close>: a string with a sequence
  number, a count and one record for each update.  The handler of \<open>Iterate\<close> is a parameter; its
  operations may be undefined.
\<close>

section \<open>The header\<close>

definition kHeader :: nat where [c_defs]: "kHeader = 12"

text \<open>An \<open>int\<close> of 32 bits: overflow is undefined.\<close>

definition int_add :: "int \<Rightarrow> int \<Rightarrow> int option" where
  "int_add a b = (if -(2 ^ 31) \<le> a + b \<and> a + b < 2 ^ 31 then Some (a + b) else None)"

definition WriteBatch_Clear :: "byte list" where
  "WriteBatch_Clear = replicate kHeader 0"

definition Count :: "byte list \<Rightarrow> int option" where
  "Count rep = map_option sint (DecodeFixed32 (drop 8 rep))"

text \<open>Writing beyond the string would be undefined.\<close>

definition SetCount :: "byte list \<Rightarrow> int \<Rightarrow> byte list option" where
  "SetCount rep n =
     (if 12 \<le> length rep then Some (take 8 rep @ EncodeFixed32 (of_int n) @ drop 12 rep) else None)"

definition Sequence :: "byte list \<Rightarrow> SequenceNumber option" where
  "Sequence rep = DecodeFixed64 rep"

definition SetSequence :: "byte list \<Rightarrow> SequenceNumber \<Rightarrow> byte list option" where
  "SetSequence rep seq =
     (if 8 \<le> length rep then Some (EncodeFixed64 seq @ drop 8 rep) else None)"

section \<open>Building a batch\<close>

definition WriteBatch_Put :: "byte list \<Rightarrow> byte list \<Rightarrow> byte list \<Rightarrow> byte list option" where
  "WriteBatch_Put rep key value' = do {
     n \<leftarrow> Count rep;
     n \<leftarrow> int_add n 1;
     rep \<leftarrow> SetCount rep n;
     Some (PutLengthPrefixedSlice (PutLengthPrefixedSlice (rep @ [ucast (type_number kTypeValue)]) key) value')
   }"

definition WriteBatch_Delete :: "byte list \<Rightarrow> byte list \<Rightarrow> byte list option" where
  "WriteBatch_Delete rep key = do {
     n \<leftarrow> Count rep;
     n \<leftarrow> int_add n 1;
     rep \<leftarrow> SetCount rep n;
     Some (PutLengthPrefixedSlice (rep @ [ucast (type_number kTypeDeletion)]) key)
   }"

definition SetContents :: "byte list \<Rightarrow> byte list option" where
  "SetContents contents = (if length contents \<ge> kHeader then Some contents else None)"

definition WriteBatch_Append :: "byte list \<Rightarrow> byte list \<Rightarrow> byte list option" where
  "WriteBatch_Append dst src = do {
     n \<leftarrow> Count dst;
     k \<leftarrow> Count src;
     n \<leftarrow> int_add n k;
     dst \<leftarrow> SetCount dst n;
     if length src \<ge> kHeader then Some (dst @ drop kHeader src) else None
   }"

section \<open>Iterating\<close>

record 'h handler =
  h_Put :: "byte list \<Rightarrow> byte list \<Rightarrow> 'h \<Rightarrow> 'h option"
  h_Delete :: "byte list \<Rightarrow> 'h \<Rightarrow> 'h option"

text \<open>One record: the status if it is malformed, else the rest of the input.\<close>

definition iterate_record ::
  "'h handler \<Rightarrow> byte list \<Rightarrow> 'h \<Rightarrow> ((status + byte list) \<times> 'h) option" where
  "iterate_record hs input h =
     (case input of
        [] \<Rightarrow> Some (Inr [], h)
      | tag # input \<Rightarrow>
          if tag = ucast (type_number kTypeValue) then
            (case GetLengthPrefixedSlice input of
               (Some key, input) \<Rightarrow>
                 (case GetLengthPrefixedSlice input of
                    (Some val, input) \<Rightarrow> do {
                      h \<leftarrow> h_Put hs key val h;
                      Some (Inr input, h)
                    }
                  | (None, input) \<Rightarrow> Some (Inl (Corruption (ascii ''bad WriteBatch Put'')), h))
             | (None, input) \<Rightarrow> Some (Inl (Corruption (ascii ''bad WriteBatch Put'')), h))
          else if tag = ucast (type_number kTypeDeletion) then
            (case GetLengthPrefixedSlice input of
               (Some key, input) \<Rightarrow> do {
                 h \<leftarrow> h_Delete hs key h;
                 Some (Inr input, h)
               }
             | (None, input) \<Rightarrow> Some (Inl (Corruption (ascii ''bad WriteBatch Delete'')), h))
          else Some (Inl (Corruption (ascii ''unknown WriteBatch tag'')), h))"

text \<open>The loop returns a status, or the number of records found.\<close>

partial_function (option) iterate_loop ::
  "'h handler \<Rightarrow> int \<Rightarrow> byte list \<Rightarrow> 'h \<Rightarrow> ((status + int) \<times> 'h) option" where
  "iterate_loop hs found input h =
     (if input = [] then Some (Inr found, h)
      else do {
        found \<leftarrow> int_add found 1;
        (r, h) \<leftarrow> iterate_record hs input h;
        (case r of
           Inl s \<Rightarrow> Some (Inl s, h)
         | Inr input \<Rightarrow> iterate_loop hs found input h)
      })"

declare iterate_loop.simps [code]

definition Iterate :: "'h handler \<Rightarrow> byte list \<Rightarrow> 'h \<Rightarrow> (status \<times> 'h) option" where
  "Iterate hs rep h =
     (if length rep < kHeader then Some (Corruption (ascii ''malformed WriteBatch (too small)''), h)
      else do {
        (r, h) \<leftarrow> iterate_loop hs 0 (drop kHeader rep) h;
        (case r of
           Inl s \<Rightarrow> Some (s, h)
         | Inr found \<Rightarrow> do {
             n \<leftarrow> Count rep;
             Some (if found \<noteq> n then Corruption (ascii ''WriteBatch has wrong count'') else OK, h)
           })
      })"

section \<open>What a batch means\<close>

datatype update = Put_update "byte list" "byte list" | Delete_update "byte list"

primrec update_bytes :: "update \<Rightarrow> byte list" where
  "update_bytes (Put_update k v) =
     1 # PutLengthPrefixedSlice [] k @ PutLengthPrefixedSlice [] v"
| "update_bytes (Delete_update k) = 0 # PutLengthPrefixedSlice [] k"

primrec update_ok :: "update \<Rightarrow> bool" where
  "update_ok (Put_update k v) = (slice_ok k \<and> slice_ok v)"
| "update_ok (Delete_update k) = slice_ok k"

primrec add_update :: "byte list \<Rightarrow> update \<Rightarrow> byte list option" where
  "add_update rep (Put_update k v) = WriteBatch_Put rep k v"
| "add_update rep (Delete_update k) = WriteBatch_Delete rep k"

primrec handle_update :: "'h handler \<Rightarrow> update \<Rightarrow> 'h \<Rightarrow> 'h option" where
  "handle_update hs (Put_update k v) h = h_Put hs k v h"
| "handle_update hs (Delete_update k) h = h_Delete hs k h"

primrec add_updates :: "byte list \<Rightarrow> update list \<Rightarrow> byte list option" where
  "add_updates rep [] = Some rep"
| "add_updates rep (u # us) = Option.bind (add_update rep u) (\<lambda>rep. add_updates rep us)"

primrec handle_updates :: "'h handler \<Rightarrow> update list \<Rightarrow> 'h \<Rightarrow> 'h option" where
  "handle_updates hs [] h = Some h"
| "handle_updates hs (u # us) h = Option.bind (handle_update hs u h) (handle_updates hs us)"

text \<open>A batch with a sequence number and updates.\<close>

definition batch :: "SequenceNumber \<Rightarrow> update list \<Rightarrow> byte list" where
  "batch seq us = EncodeFixed64 seq @ EncodeFixed32 (of_nat (length us)) @ concat (map update_bytes us)"

lemma length_EncodeFixed32 [simp]: "length (EncodeFixed32 n) = 4"
  by (simp add: EncodeFixed32_def)

lemma batch_parts [simp]:
  "length (batch seq us) = 12 + length (concat (map update_bytes us))"
  "drop 12 (batch seq us) = concat (map update_bytes us)" "take 8 (batch seq us) = EncodeFixed64 seq"
  by (simp_all add: batch_def)

lemma WriteBatch_Clear_batch: "WriteBatch_Clear = batch 0 []"
  by (simp add: WriteBatch_Clear_def batch_def EncodeFixed64_def EncodeFixed32_def c_defs eval_nat_numeral)

lemma Count_batch: "length us < 2 ^ 31 \<Longrightarrow> Count (batch seq us) = Some (int (length us))"
proof -
  assume "length us < 2 ^ 31"
  then have "sint (of_nat (length us) :: u32) = int (length us)"
    by (simp add: signed_of_nat signed_take_bit_int_eq_self_iff)
  moreover have "DecodeFixed32 (drop 8 (batch seq us)) = Some (of_nat (length us))"
    by (simp add: batch_def DecodeFixed32_append)
  ultimately show ?thesis by (simp add: Count_def)
qed

lemma Sequence_batch: "Sequence (batch seq us) = Some seq"
  by (simp add: Sequence_def batch_def DecodeFixed64_append)

lemma SetSequence_batch: "SetSequence (batch seq us) seq' = Some (batch seq' us)"
  by (simp add: SetSequence_def batch_def)

lemma SetCount_batch:
  "SetCount (batch seq us) n =
     Some (EncodeFixed64 seq @ EncodeFixed32 (of_int n) @ concat (map update_bytes us))"
  by (simp add: SetCount_def)

lemma put_slices:
  "PutLengthPrefixedSlice (PutLengthPrefixedSlice (d @ e) k) v =
     d @ e @ PutLengthPrefixedSlice [] k @ PutLengthPrefixedSlice [] v"
  "PutLengthPrefixedSlice (d @ e) k = d @ e @ PutLengthPrefixedSlice [] k"
  by (simp_all add: PutLengthPrefixedSlice_def PutVarint32_def)

lemma add_update_batch:
  assumes "Suc (length us) < 2 ^ 31"
  shows "add_update (batch seq us) u = Some (batch seq (us @ [u]))"
proof -
  have c: "Count (batch seq us) = Some (int (length us))" using assms by (intro Count_batch) simp
  have i: "int_add (int (length us)) 1 = Some (int (length us) + 1)" using assms by (simp add: int_add_def)
  have n: "(of_int (int (length us) + 1) :: u32) = of_nat (Suc (length us))" by simp
  show ?thesis
    unfolding batch_def [of seq "us @ [u]"]
    by (cases u) (simp_all add: WriteBatch_Put_def WriteBatch_Delete_def c i SetCount_batch put_slices
        add.commute del: append_assoc)
qed

lemma add_updates_batch:
  "length us + length vs < 2 ^ 31 \<Longrightarrow> add_updates (batch seq us) vs = Some (batch seq (us @ vs))"
  by (induction vs arbitrary: us) (simp_all add: add_update_batch)

lemma Append_batch:
  assumes "length us + length vs < 2 ^ 31"
  shows "WriteBatch_Append (batch seq us) (batch seq' vs) = Some (batch seq (us @ vs))"
proof -
  have c: "Count (batch seq us) = Some (int (length us))" "Count (batch seq' vs) = Some (int (length vs))"
    using assms by (simp_all add: Count_batch)
  have i: "int_add (int (length us)) (int (length vs)) = Some (int (length us) + int (length vs))"
    using assms by (simp add: int_add_def)
  have "batch seq (us @ vs) = (EncodeFixed64 seq @ EncodeFixed32 (of_int (int (length us) + int (length vs))) @
      concat (map update_bytes us)) @ concat (map update_bytes vs)"
    by (simp add: batch_def)
  then show ?thesis
    by (simp add: WriteBatch_Append_def c i SetCount_batch c_defs)
qed

section \<open>Iterating over a batch\<close>

lemma iterate_record_update:
  assumes "update_ok u"
  shows "iterate_record hs (update_bytes u @ ys) h = map_option (Pair (Inr ys)) (handle_update hs u h)"
  using assms
  by (cases u)
    (auto simp: iterate_record_def GetLengthPrefixedSlice_put map_option_case
      simp del: not_None_eq split: option.split)

lemma update_bytes_nonempty: "update_bytes u \<noteq> []"
  by (cases u) simp_all

lemma iterate_loop_updates:
  assumes "\<forall>u \<in> set us. update_ok u" "found + int (length us) < 2 ^ 31" "0 \<le> found"
  shows "iterate_loop hs found (concat (map update_bytes us)) h =
    map_option (Pair (Inr (found + int (length us)))) (handle_updates hs us h)"
  using assms
proof (induction us arbitrary: found h)
  case Nil
  then show ?case by (simp add: iterate_loop.simps)
next
  case (Cons u us)
  have i: "int_add found 1 = Some (found + 1)" using Cons.prems by (simp add: int_add_def)
  have "iterate_loop hs found (concat (map update_bytes (u # us))) h =
      Option.bind (handle_update hs u h) (iterate_loop hs (found + 1) (concat (map update_bytes us)))"
    using Cons.prems(1)
    by (simp add: iterate_loop.simps [of hs found "update_bytes u @ concat (map update_bytes us)"]
        update_bytes_nonempty i iterate_record_update del: bind_Some_iff)
      (cases "handle_update hs u h"; simp)
  with Cons show ?case
    by (cases "handle_update hs u h") (simp_all add: add.assoc)
qed

lemma Iterate_batch:
  assumes "\<forall>u \<in> set us. update_ok u" "length us < 2 ^ 31"
  shows "Iterate hs (batch seq us) h = map_option (Pair OK) (handle_updates hs us h)"
proof -
  have "iterate_loop hs 0 (concat (map update_bytes us)) h =
      map_option (Pair (Inr (int (length us)))) (handle_updates hs us h)"
    using iterate_loop_updates [OF assms(1), of 0 hs h] assms(2) by simp
  then show ?thesis
    by (cases "handle_updates hs us h") (simp_all add: Iterate_def Count_batch [OF assms(2)] c_defs)
qed

section \<open>Iterating over any string\<close>

lemma GetVarint32_length: "GetVarint32 xs = Some (v, rest) \<Longrightarrow> length rest \<le> length xs"
  by (auto simp: GetVarint32_parsed parsed_def split: sum.splits)

lemma GetLengthPrefixedSlice_length:
  assumes "GetLengthPrefixedSlice xs = (r, rest)"
  shows "length rest \<le> length xs"
proof (cases "GetVarint32 xs")
  case None
  with assms show ?thesis by (auto simp: GetLengthPrefixedSlice_def)
next
  case (Some p)
  obtain v ys where p: "p = (v, ys)" by (cases p)
  with Some GetVarint32_length have "length ys \<le> length xs" by blast
  with Some p assms show ?thesis by (auto simp: GetLengthPrefixedSlice_def split: if_splits)
qed

definition handler_total :: "'h handler \<Rightarrow> bool" where
  "handler_total hs \<longleftrightarrow> (\<forall>k v h. h_Put hs k v h \<noteq> None) \<and> (\<forall>k h. h_Delete hs k h \<noteq> None)"

text \<open>A record is malformed and nothing is handled, or one update is.\<close>

lemma iterate_record_total:
  assumes "handler_total hs" "input \<noteq> []"
  obtains (bad) msg where "iterate_record hs input h = Some (Inl (Corruption msg), h)"
  | (good) u input' h' where "iterate_record hs input h = Some (Inr input', h')"
      "handle_update hs u h = Some h'" "length input' < length input"
proof -
  obtain tag xs where input: "input = tag # xs" using assms(2) by (cases input) auto
  have put: "\<exists>h'. h_Put hs k v h = Some h'" and del: "\<exists>h'. h_Delete hs k h = Some h'" for k v
    using assms(1) by (auto simp: handler_total_def)
  obtain r1 ys where s1: "GetLengthPrefixedSlice xs = (r1, ys)" by fastforce
  obtain r2 zs where s2: "GetLengthPrefixedSlice ys = (r2, zs)" by fastforce
  have len: "length ys \<le> length xs" "length zs \<le> length ys"
    using GetLengthPrefixedSlice_length s1 s2 by blast+
  consider (put) k v where "tag = 1" "r1 = Some k" "r2 = Some v" | (delete) k where "tag = 0" "r1 = Some k"
    | (other) "tag = 1 \<and> (r1 = None \<or> r2 = None) \<or> tag = 0 \<and> r1 = None \<or> tag \<noteq> 1 \<and> tag \<noteq> 0"
    by fastforce
  then show thesis
  proof cases
    case (put k v)
    obtain h' where "h_Put hs k v h = Some h'" using \<open>\<And>v k. \<exists>h'. h_Put hs k v h = Some h'\<close> by blast
    with put s1 s2 len show thesis
      by (intro good [of zs h' "Put_update k v"]) (simp_all add: iterate_record_def input)
  next
    case (delete k)
    obtain h' where "h_Delete hs k h = Some h'" using del by blast
    with delete s1 len show thesis
      by (intro good [of ys h' "Delete_update k"]) (simp_all add: iterate_record_def input)
  next
    case other
    then have "\<exists>msg. iterate_record hs input h = Some (Inl (Corruption msg), h)"
      using s1 s2 by (auto simp: iterate_record_def input split: option.splits)
    then show thesis using bad by blast
  qed
qed

lemma iterate_loop_total:
  assumes "handler_total hs" "found + int (length input) < 2 ^ 31" "0 \<le> found"
  shows "\<exists>r us h'. iterate_loop hs found input h = Some (r, h') \<and> handle_updates hs us h = Some h' \<and>
    (\<forall>n. r = Inr n \<longrightarrow> n = found + int (length us)) \<and> (\<forall>s. r = Inl s \<longrightarrow> (\<exists>msg. s = Corruption msg))"
  using assms(2,3)
proof (induction "length input" arbitrary: found input h rule: less_induct)
  case less
  show ?case
  proof (cases "input = []")
    case True
    then show ?thesis by (intro exI [of _ "Inr found"] exI [of _ "[]"]) (simp add: iterate_loop.simps)
  next
    case False
    then have i: "int_add found 1 = Some (found + 1)" using less.prems by (cases input) (simp_all add: int_add_def)
    from assms(1) False show ?thesis
    proof (cases rule: iterate_record_total [of hs input h])
      case (bad msg)
      with i False show ?thesis
        by (intro exI [of _ "Inl (Corruption msg)"] exI [of _ "[]"]) (simp add: iterate_loop.simps [of hs found input])
    next
      case (good u input' h1)
      then obtain r us h' where r: "iterate_loop hs (found + 1) input' h1 = Some (r, h')"
          "handle_updates hs us h1 = Some h'" "\<forall>n. r = Inr n \<longrightarrow> n = found + 1 + int (length us)"
          "\<forall>s. r = Inl s \<longrightarrow> (\<exists>msg. s = Corruption msg)"
        using less.hyps [of input' "found + 1" h1] less.prems by auto
      with good i False show ?thesis
        by (intro exI [of _ r] exI [of _ "u # us"] exI [of _ h'])
          (simp add: iterate_loop.simps [of hs found input] add.assoc)
    qed
  qed
qed

lemma Iterate_total:
  assumes "handler_total hs" "length rep < 2 ^ 31"
  shows "\<exists>s us h'. Iterate hs rep h = Some (s, h') \<and> handle_updates hs us h = Some h' \<and>
    (s = OK \<and> Count rep = Some (int (length us)) \<or> (\<exists>msg. s = Corruption msg))"
proof (cases "length rep < 12")
  case True
  then show ?thesis by (intro exI [of _ "Corruption _"] exI [of _ "[]"]) (simp add: Iterate_def c_defs)
next
  case False
  then have "\<exists>n. Count rep = Some n" by (simp add: Count_def DecodeFixed32_def)
  then obtain n where n: "Count rep = Some n" by blast
  have "length rep - 12 < 2 ^ 31" using assms(2) by simp
  then obtain r us h' where r: "iterate_loop hs 0 (drop 12 rep) h = Some (r, h')" "handle_updates hs us h = Some h'"
      "\<forall>n. r = Inr n \<longrightarrow> n = int (length us)" "\<forall>s. r = Inl s \<longrightarrow> (\<exists>msg. s = Corruption msg)"
    using iterate_loop_total [OF assms(1), of 0 "drop 12 rep" h] by auto
  show ?thesis
  proof (cases r)
    case (Inl s)
    with r False show ?thesis by (intro exI [of _ s] exI [of _ us] exI [of _ h']) (auto simp: Iterate_def c_defs)
  next
    case (Inr k)
    with r False n show ?thesis
      by (intro exI [of _ "if k = n then OK else Corruption (ascii ''WriteBatch has wrong count'')"]
          exI [of _ us] exI [of _ h']) (auto simp: Iterate_def c_defs)
  qed
qed

end
