(* ===== verification/Ldb_Log_Reader.thy ===== *)
theory Ldb_Log_Reader
  imports Ldb_Log_Writer
begin

text \<open>
  The reader of LevelDB's log files, \<open>leveldb-library/db/log_reader.cc\<close>: it reads the file
  block by block, checks every physical record, and puts fragmented records together.  The
  file is read through the interface of \<open>SequentialFile\<close>, a parameter; the calls of the
  reporter are recorded in the state.
\<close>

section \<open>Messages\<close>

fun decimal :: "nat \<Rightarrow> byte list" where
  "decimal n = (if n < 10 then [of_nat (48 + n)] else decimal (n div 10) @ [of_nat (48 + n mod 10)])"

declare decimal.simps [simp del]

section \<open>State\<close>

record 'f sequential_file =
  sf_Read :: "nat \<Rightarrow> 'f \<Rightarrow> status \<times> byte list \<times> 'f"
  sf_Skip :: "u64 \<Rightarrow> 'f \<Rightarrow> status \<times> 'f"

text \<open>The first three fields are the constants of a reader.\<close>

record 'f log_reader =
  lr_has_reporter :: bool
  lr_checksum :: bool
  lr_initial_offset :: u64
  lr_file :: 'f
  lr_buffer :: "byte list"
  lr_eof :: bool
  lr_last_record_offset :: u64
  lr_end_of_buffer_offset :: u64
  lr_resyncing :: bool
  lr_reports :: "(u64 \<times> status) list"

definition Reader :: "'f \<Rightarrow> bool \<Rightarrow> bool \<Rightarrow> u64 \<Rightarrow> 'f log_reader" where
  "Reader file reporter checksum initial_offset =
     \<lparr>lr_has_reporter = reporter, lr_checksum = checksum, lr_initial_offset = initial_offset,
      lr_file = file, lr_buffer = [], lr_eof = False, lr_last_record_offset = 0,
      lr_end_of_buffer_offset = 0, lr_resyncing = (initial_offset > 0), lr_reports = []\<rparr>"

definition kEof :: u32 where [c_defs]: "kEof = kMaxRecordType + 1"
definition kBadRecord :: u32 where [c_defs]: "kBadRecord = kMaxRecordType + 2"

section \<open>Reports\<close>

definition ReportDrop :: "u64 \<Rightarrow> status \<Rightarrow> 'f log_reader \<Rightarrow> 'f log_reader" where
  "ReportDrop bytes reason r =
     (if lr_has_reporter r \<and>
         lr_end_of_buffer_offset r - of_nat (length (lr_buffer r)) - bytes \<ge> lr_initial_offset r
      then r\<lparr>lr_reports := lr_reports r @ [(bytes, reason)]\<rparr> else r)"

definition ReportCorruption :: "u64 \<Rightarrow> byte list \<Rightarrow> 'f log_reader \<Rightarrow> 'f log_reader" where
  "ReportCorruption bytes reason r = ReportDrop bytes (Corruption reason) r"

definition SkipToInitialBlock :: "'f sequential_file \<Rightarrow> 'f log_reader \<Rightarrow> bool \<times> 'f log_reader" where
  "SkipToInitialBlock file r =
     (let offset_in_block = lr_initial_offset r mod of_nat kBlockSize;
          block_start_location = lr_initial_offset r - offset_in_block;
          block_start_location =
            (if offset_in_block > of_nat kBlockSize - 6 then block_start_location + of_nat kBlockSize
             else block_start_location);
          r = r\<lparr>lr_end_of_buffer_offset := block_start_location\<rparr>
      in if block_start_location > 0
         then (let (s, f) = sf_Skip file block_start_location (lr_file r);
                   r = r\<lparr>lr_file := f\<rparr>
               in if \<not> status_ok s then (False, ReportDrop block_start_location s r) else (True, r))
         else (True, r))"

section \<open>Physical records\<close>

text \<open>
  The part behind the refilling of the buffer, for a buffer with a whole header.  The result
  is the record type, and the fragment unless it is left as it was.
\<close>

definition record_length :: "byte list \<Rightarrow> nat" where
  "record_length header =
     (let a = ucast (header ! 4) AND 0xff :: u32;
          b = ucast (header ! 5) AND 0xff :: u32
      in unat (a OR push_bit 8 b))"

definition parse_physical :: "byte list \<Rightarrow> 'f log_reader \<Rightarrow> (u32 \<times> byte list \<times> 'f log_reader) option" where
  "parse_physical result r = do {
     let header = lr_buffer r;
     let type = (scast (header ! 6) :: u32);
     let len = record_length header;
     if kHeaderSize + len > length (lr_buffer r) then do {
       let drop_size = of_nat (length (lr_buffer r));
       let r = r\<lparr>lr_buffer := []\<rparr>;
       if \<not> lr_eof r
       then Some (kBadRecord, result, ReportCorruption drop_size (ascii ''bad record length'') r)
       else Some (kEof, result, r)
     }
     else if type = kZeroType \<and> len = 0 then Some (kBadRecord, result, r\<lparr>lr_buffer := []\<rparr>)
     else do {
       bad \<leftarrow> (if lr_checksum r then do {
           stored \<leftarrow> DecodeFixed32 header;
           actual_crc \<leftarrow> Value 0 (take (1 + len) (drop 6 header));
           Some (actual_crc \<noteq> Unmask stored)
         }
         else Some False);
       if bad then do {
         let drop_size = of_nat (length (lr_buffer r));
         let r = r\<lparr>lr_buffer := []\<rparr>;
         Some (kBadRecord, result, ReportCorruption drop_size (ascii ''checksum mismatch'') r)
       }
       else do {
         let r = r\<lparr>lr_buffer := drop (kHeaderSize + len) (lr_buffer r)\<rparr>;
         if lr_end_of_buffer_offset r - of_nat (length (lr_buffer r)) - of_nat kHeaderSize - of_nat len
            < lr_initial_offset r
         then Some (kBadRecord, [], r)
         else Some (type, take len (drop kHeaderSize header), r)
       }
     }
   }"

partial_function (option) ReadPhysicalRecord ::
  "'f sequential_file \<Rightarrow> byte list \<Rightarrow> 'f log_reader \<Rightarrow> (u32 \<times> byte list \<times> 'f log_reader) option" where
  "ReadPhysicalRecord file result r =
     (if length (lr_buffer r) < kHeaderSize
      then if \<not> lr_eof r then do {
          let (s, data, f) = sf_Read file kBlockSize (lr_file r);
          let r = r\<lparr>lr_file := f, lr_buffer := data,
            lr_end_of_buffer_offset := lr_end_of_buffer_offset r + of_nat (length data)\<rparr>;
          if \<not> status_ok s
          then do {
            let r = ReportDrop (of_nat kBlockSize) s (r\<lparr>lr_buffer := []\<rparr>);
            Some (kEof, result, r\<lparr>lr_eof := True\<rparr>)
          }
          else ReadPhysicalRecord file result
            (if length (lr_buffer r) < kBlockSize then r\<lparr>lr_eof := True\<rparr> else r)
        }
        else Some (kEof, result, r\<lparr>lr_buffer := []\<rparr>)
      else parse_physical result r)"

declare ReadPhysicalRecord.simps [code]

section \<open>Logical records\<close>

text \<open>The variables of the loop of \<open>ReadRecord\<close>.\<close>

record read_state =
  rs_in_fragmented_record :: bool
  rs_prospective :: u64
  rs_scratch :: "byte list"
  rs_fragment :: "byte list"

text \<open>One record type, inside the loop: the record if it is complete, or the end of the input.\<close>

datatype read_exit = Go_on | Got "byte list" | End_of_input

definition partial_record :: "string \<Rightarrow> read_state \<Rightarrow> 'f log_reader \<Rightarrow> read_state \<times> 'f log_reader" where
  "partial_record reason st r =
     (if rs_in_fragmented_record st
      then if rs_scratch st = [] then (st\<lparr>rs_in_fragmented_record := False\<rparr>, r)
           else (st, ReportCorruption (of_nat (length (rs_scratch st))) (ascii reason) r)
      else (st, r))"

definition handle_record ::
  "u32 \<Rightarrow> u64 \<Rightarrow> read_state \<Rightarrow> 'f log_reader \<Rightarrow> read_exit \<times> read_state \<times> 'f log_reader" where
  "handle_record rtype physical_record_offset st r =
     (let fragment = rs_fragment st; scratch = rs_scratch st
      in if rtype = kFullType
      then (let (st, r) = partial_record ''partial record without end(1)'' st r;
                st = st\<lparr>rs_prospective := physical_record_offset, rs_scratch := []\<rparr>;
                r = r\<lparr>lr_last_record_offset := rs_prospective st\<rparr>
            in (Got fragment, st, r))
      else if rtype = kFirstType
      then (let (st, r) = partial_record ''partial record without end(2)'' st r
            in (Go_on, st\<lparr>rs_prospective := physical_record_offset, rs_scratch := fragment,
                  rs_in_fragmented_record := True\<rparr>, r))
      else if rtype = kMiddleType
      then if \<not> rs_in_fragmented_record st
           then (Go_on, st, ReportCorruption (of_nat (length fragment))
             (ascii ''missing start of fragmented record(1)'') r)
           else (Go_on, st\<lparr>rs_scratch := scratch @ fragment\<rparr>, r)
      else if rtype = kLastType
      then if \<not> rs_in_fragmented_record st
           then (Go_on, st, ReportCorruption (of_nat (length fragment))
             (ascii ''missing start of fragmented record(2)'') r)
           else (Got (scratch @ fragment), st\<lparr>rs_scratch := scratch @ fragment\<rparr>,
             r\<lparr>lr_last_record_offset := rs_prospective st\<rparr>)
      else if rtype = kEof
      then (End_of_input, if rs_in_fragmented_record st then st\<lparr>rs_scratch := []\<rparr> else st, r)
      else if rtype = kBadRecord
      then if rs_in_fragmented_record st
           then (Go_on, st\<lparr>rs_in_fragmented_record := False, rs_scratch := []\<rparr>,
             ReportCorruption (of_nat (length scratch)) (ascii ''error in middle of record'') r)
           else (Go_on, st, r)
      else (Go_on, st\<lparr>rs_in_fragmented_record := False, rs_scratch := []\<rparr>,
        ReportCorruption
          (of_nat (length fragment + (if rs_in_fragmented_record st then length scratch else 0)))
          (ascii ''unknown record type '' @ decimal (unat rtype)) r))"

text \<open>Behind an initial offset, fragments whose start was not read are skipped.\<close>

definition resync :: "u32 \<Rightarrow> 'f log_reader \<Rightarrow> bool \<times> 'f log_reader" where
  "resync rtype r =
     (if lr_resyncing r
      then if rtype = kMiddleType then (True, r)
           else if rtype = kLastType then (True, r\<lparr>lr_resyncing := False\<rparr>)
           else (False, r\<lparr>lr_resyncing := False\<rparr>)
      else (False, r))"

partial_function (option) ReadRecord_loop ::
  "'f sequential_file \<Rightarrow> read_state \<Rightarrow> 'f log_reader \<Rightarrow> (byte list option \<times> 'f log_reader) option" where
  "ReadRecord_loop file st r = do {
     (rtype, fragment, r) \<leftarrow> ReadPhysicalRecord file (rs_fragment st) r;
     let st = st\<lparr>rs_fragment := fragment\<rparr>;
     let physical_record_offset = lr_end_of_buffer_offset r - of_nat (length (lr_buffer r)) -
       of_nat kHeaderSize - of_nat (length fragment);
     let (skip, r) = resync rtype r;
     if skip then ReadRecord_loop file st r
     else do {
       let (e, st, r) = handle_record rtype physical_record_offset st r;
       (case e of
          Go_on \<Rightarrow> ReadRecord_loop file st r
        | Got rec \<Rightarrow> Some (Some rec, r)
        | End_of_input \<Rightarrow> Some (None, r))
     }
   }"

declare ReadRecord_loop.simps [code]

text \<open>The next record, or none at the end of the input.\<close>

definition ReadRecord :: "'f sequential_file \<Rightarrow> 'f log_reader \<Rightarrow> (byte list option \<times> 'f log_reader) option" where
  "ReadRecord file r = do {
     let (ok, r) = (if lr_last_record_offset r < lr_initial_offset r
       then SkipToInitialBlock file r else (True, r));
     if \<not> ok then Some (None, r)
     else ReadRecord_loop file
       \<lparr>rs_in_fragmented_record = False, rs_prospective = 0, rs_scratch = [], rs_fragment = []\<rparr> r
   }"

definition LastRecordOffset :: "'f log_reader \<Rightarrow> u64" where
  "LastRecordOffset r = lr_last_record_offset r"

section \<open>Reading what the writer wrote\<close>

text \<open>
  What is relied on of the file: a read delivers the next bytes, and fewer than asked for
  only at the end.
\<close>

definition file_reads :: "'f sequential_file \<Rightarrow> ('f \<Rightarrow> byte list) \<Rightarrow> bool" where
  "file_reads file rest \<longleftrightarrow> (\<forall>n f. fst (sf_Read file n f) = OK \<and>
     fst (snd (sf_Read file n f)) = take n (rest f) \<and> rest (snd (snd (sf_Read file n f))) = drop n (rest f))"

text \<open>
  A reader in front of the bytes \<open>xs\<close>, which start at offset \<open>b\<close> of a block: the buffer
  reaches to the end of the block, or of the file.
\<close>

definition reader_at :: "('f \<Rightarrow> byte list) \<Rightarrow> nat \<Rightarrow> byte list \<Rightarrow> 'f log_reader \<Rightarrow> bool" where
  "reader_at rest b xs r \<longleftrightarrow> xs = lr_buffer r @ rest (lr_file r) \<and>
     b + length (lr_buffer r) \<le> kBlockSize \<and>
     (if lr_eof r then rest (lr_file r) = [] else b + length (lr_buffer r) = kBlockSize) \<and>
     lr_initial_offset r = 0 \<and> \<not> lr_resyncing r"

definition valid_type :: "u32 \<Rightarrow> bool" where
  "valid_type t \<longleftrightarrow> t \<in> {kFullType, kFirstType, kMiddleType, kLastType}"

lemma valid_type_byte: "valid_type t \<Longrightarrow> scast (type_byte t) = t"
  by (auto simp: valid_type_def type_byte_def c_defs)

lemma length_physical: "length (physical t d) = kHeaderSize + length d"
  by (simp add: physical_def EncodeFixed32_def c_defs)

lemma length_word:
  assumes "n < 65536"
  shows "unat (((ucast (of_nat n AND 0xff :: byte) :: u32) AND 0xff) OR
    push_bit 8 (ucast (of_nat (n div 256) :: byte) AND 0xff)) = n"
proof -
  let ?w = "of_nat n :: u32"
  have u: "unat ?w = n" using assms by (simp add: unat_of_nat take_bit_nat_eq_self_iff)
  have small: "i < 16" if "bit n i" for i
    using that assms bit_take_bit_iff [of 16 n i] take_bit_nat_eq_self_iff [of 16 n] by simp
  have "((ucast (of_nat n AND 0xff :: byte) :: u32) AND 0xff) OR
      push_bit 8 (ucast (of_nat (n div 256) :: byte) AND 0xff) = ?w"
  proof (rule bit_word_eqI)
    have d: "n div 256 = drop_bit 8 n" by (simp add: drop_bit_eq_div)
    have m: "(0xff :: byte) = mask 8" "(0xff :: u32) = mask 8" by (simp_all add: mask_eq_exp_minus_1)
    fix i assume "i < LENGTH(32)"
    then show "bit (((ucast (of_nat n AND 0xff :: byte) :: u32) AND 0xff) OR
        push_bit 8 (ucast (of_nat (n div 256) :: byte) AND 0xff)) i = bit ?w i"
      using small [of i] unfolding d m by (cases "i < 8") (auto simp: bit_simps)
  qed
  then show ?thesis using u by simp
qed

lemma parse_physical_at:
  assumes buf: "lr_buffer r = physical t d @ ys" and t: "valid_type t" and d: "length d < 65536"
    and init: "lr_initial_offset r = 0"
  shows "parse_physical result r = Some (t, d, r\<lparr>lr_buffer := ys\<rparr>)"
proof -
  let ?crc = "EncodeFixed32 (Mask (crc32c 0 (type_byte t # d)))"
  have len: "length ?crc = 4" by (simp add: EncodeFixed32_def)
  have h: "lr_buffer r = ?crc @ [of_nat (length d) AND 0xff, of_nat (length d div 256), type_byte t] @ d @ ys"
    by (simp add: buf physical_def)
  have nth: "lr_buffer r ! 4 = of_nat (length d) AND 0xff" "lr_buffer r ! 5 = of_nat (length d div 256)"
      "lr_buffer r ! 6 = type_byte t"
    unfolding h by (simp_all add: nth_append len)
  have drop: "drop 6 (lr_buffer r) = type_byte t # d @ ys" "drop kHeaderSize (lr_buffer r) = d @ ys"
    unfolding h by (simp_all add: len c_defs)
  have drop2: "drop (kHeaderSize + length d) (lr_buffer r) = ys"
    using drop(2) by (metis add.commute append_eq_conv_conj drop_drop)
  have stored: "DecodeFixed32 (lr_buffer r) = Some (Mask (crc32c 0 (type_byte t # d)))"
    unfolding h by (rule DecodeFixed32_append)
  have size: "\<not> kHeaderSize + length d > length (lr_buffer r)"
    using arg_cong [OF buf, of length] by (simp add: length_physical)
  have "t \<noteq> kZeroType" using t by (auto simp: valid_type_def c_defs)
  moreover have "record_length (lr_buffer r) = length d"
    unfolding record_length_def Let_def nth by (rule length_word [OF d])
  ultimately show ?thesis
    using size drop stored init
    by (simp add: parse_physical_def nth(3) valid_type_byte [OF t] Value_def Extend_crc32c
        Unmask_Mask drop2 Let_def del: bind_Some_iff)
qed

lemma ReadPhysical_next:
  assumes reads: "file_reads file rest" and at: "reader_at rest b (trailer b @ physical t d @ ys) r"
    and t: "valid_type t" and room: "start_of b + kHeaderSize + length d \<le> kBlockSize"
  obtains r' where "ReadPhysicalRecord file result r = Some (t, d, r')"
    "reader_at rest (start_of b + kHeaderSize + length d) ys r'" "lr_reports r' = lr_reports r"
proof -
  have d: "length d < 65536" using room by (simp add: c_defs)

  have direct: "\<exists>r'. ReadPhysicalRecord file result r = Some (t, d, r') \<and>
      reader_at rest (b + kHeaderSize + length d) ys r' \<and> lr_reports r' = lr_reports r"
    if at: "reader_at rest b (physical t d @ ys) r" and h: "kHeaderSize \<le> length (lr_buffer r)"
      and room: "b + kHeaderSize + length d \<le> kBlockSize" for b r
  proof -
    have eq: "physical t d @ ys = lr_buffer r @ rest (lr_file r)" using at by (simp add: reader_at_def)
    have "kHeaderSize + length d \<le> length (lr_buffer r)"
    proof (cases "lr_eof r")
      case True
      then have "rest (lr_file r) = []" using at by (simp add: reader_at_def)
      with arg_cong [OF eq, of length] show ?thesis by (simp add: length_physical)
    next
      case False
      then show ?thesis using at room by (simp add: reader_at_def)
    qed
    then obtain zs where buf: "lr_buffer r = physical t d @ zs"
      using eq by (metis append_eq_append_conv_if append_take_drop_id length_physical)
    with eq have ys: "ys = zs @ rest (lr_file r)" by simp
    have "ReadPhysicalRecord file result r = Some (t, d, r\<lparr>lr_buffer := zs\<rparr>)"
      using parse_physical_at [OF buf t d] h at
      by (simp add: ReadPhysicalRecord.simps [of _ result r] reader_at_def)
    moreover have "reader_at rest (b + kHeaderSize + length d) ys (r\<lparr>lr_buffer := zs\<rparr>)"
      using at ys by (simp add: reader_at_def buf length_physical split: if_splits)
    ultimately show ?thesis by (intro exI [of _ "r\<lparr>lr_buffer := zs\<rparr>"]) simp
  qed
  show thesis
  proof (cases "kHeaderSize \<le> length (lr_buffer r)")
    case True
    then have "b + kHeaderSize \<le> kBlockSize" using at by (simp add: reader_at_def)
    then have "trailer b = []" "start_of b = b" by (auto simp: trailer_def start_of_def)
    with direct [of b r] at True room that show thesis by auto
  next
    case False
    have "\<not> lr_eof r"
    proof
      assume "lr_eof r"
      then have eq: "trailer b @ physical t d @ ys = lr_buffer r" using at by (simp add: reader_at_def)
      have "kHeaderSize \<le> length (trailer b @ physical t d @ ys)" by (simp add: length_physical)
      with False show False unfolding eq by simp
    qed
    then have full: "b + length (lr_buffer r) = kBlockSize" using at by (simp add: reader_at_def)
    with False have tr: "length (trailer b) = length (lr_buffer r)" "start_of b = 0"
      by (auto simp: trailer_def start_of_def)
    have eq: "trailer b @ physical t d @ ys = lr_buffer r @ rest (lr_file r)"
      using at by (simp add: reader_at_def)
    with tr(1) have rest: "rest (lr_file r) = physical t d @ ys" by simp
    define f where "f = snd (snd (sf_Read file kBlockSize (lr_file r)))"
    define data where "data = take kBlockSize (physical t d @ ys)"
    have read: "sf_Read file kBlockSize (lr_file r) = (OK, data, f)" "rest f = drop kBlockSize (physical t d @ ys)"
      using reads rest by (simp_all add: file_reads_def f_def data_def prod_eq_iff)
    define r1 where "r1 = r\<lparr>lr_file := f, lr_buffer := data,
      lr_end_of_buffer_offset := lr_end_of_buffer_offset r + of_nat (length data)\<rparr>"
    define r2 where "r2 = (if length data < kBlockSize then r1\<lparr>lr_eof := True\<rparr> else r1)"
    have step: "ReadPhysicalRecord file result r = ReadPhysicalRecord file result r2"
      using False \<open>\<not> lr_eof r\<close> read(1)
      by (simp add: ReadPhysicalRecord.simps [of _ result r] r2_def r1_def status_ok_def Let_def)
    have r2: "lr_buffer r2 = data" "lr_file r2 = f" "lr_reports r2 = lr_reports r"
      by (simp_all add: r2_def r1_def)
    have "data @ rest f = physical t d @ ys" unfolding data_def read(2) by (rule append_take_drop_id)
    moreover have "length data \<le> kBlockSize" by (simp add: data_def)
    moreover have "length data < kBlockSize \<Longrightarrow> rest f = []" by (simp add: data_def read(2))
    ultimately have at2: "reader_at rest 0 (physical t d @ ys) r2"
      using at \<open>\<not> lr_eof r\<close> by (auto simp: reader_at_def r2_def r1_def)
    have "kHeaderSize \<le> length (physical t d @ ys)" by (simp add: length_physical)
    then have "kHeaderSize \<le> length data" by (simp add: data_def length_physical) (simp add: c_defs)
    with direct [OF at2] room tr(2) that r2 step show thesis by auto
  qed
qed

text \<open>At the end of the log the reader reports the end of the input, and nothing else.\<close>

lemma ReadPhysical_end:
  assumes reads: "file_reads file rest" and at: "reader_at rest b [] r"
  obtains r' where "ReadPhysicalRecord file result r = Some (kEof, result, r')"
    "reader_at rest b [] r'" "lr_reports r' = lr_reports r"
proof -
  have finish: "ReadPhysicalRecord file result r = Some (kEof, result, r\<lparr>lr_buffer := []\<rparr>)"
    if "lr_eof r" "lr_buffer r = []" for r
    using that by (simp add: ReadPhysicalRecord.simps [of _ result r] c_defs)
  have empty: "lr_buffer r = []" "rest (lr_file r) = []" using at by (simp_all add: reader_at_def)
  show thesis
  proof (cases "lr_eof r")
    case True
    with finish [OF True empty(1)] at empty show thesis by (intro that) (simp_all add: reader_at_def)
  next
    case False
    define f where "f = snd (snd (sf_Read file kBlockSize (lr_file r)))"
    have read: "sf_Read file kBlockSize (lr_file r) = (OK, [], f)" "rest f = []"
      using reads empty(2) by (simp_all add: file_reads_def f_def prod_eq_iff)
    define r1 where "r1 = r\<lparr>lr_file := f, lr_buffer := [], lr_eof := True\<rparr>"
    have "ReadPhysicalRecord file result r = ReadPhysicalRecord file result r1"
      using False read(1) empty(1)
      by (simp add: ReadPhysicalRecord.simps [of _ result r] r1_def status_ok_def Let_def c_defs)
    also have "\<dots> = Some (kEof, result, r1\<lparr>lr_buffer := []\<rparr>)" by (rule finish) (simp_all add: r1_def)
    finally show thesis
      by (rule that) (use at read(2) False empty in \<open>auto simp: r1_def reader_at_def\<close>)
  qed
qed

lemma reader_at_no_resync: "reader_at rest b xs r \<Longrightarrow> resync t r = (False, r)"
  by (simp add: reader_at_def resync_def)

lemma reader_at_offset [simp]:
  "reader_at rest b xs (r\<lparr>lr_last_record_offset := n\<rparr>) = reader_at rest b xs r"
  by (simp add: reader_at_def)

lemma start_of_room: "b \<le> kBlockSize \<Longrightarrow> start_of b + kHeaderSize + room_at b = kBlockSize"
  by (auto simp: start_of_def room_at_def c_defs)

lemma record_type_valid: "valid_type (record_type beg fin)"
  by (simp add: valid_type_def record_type_def)

text \<open>The rest of a fragmented record is appended to what was read.\<close>

lemma ReadRecord_rest:
  assumes reads: "file_reads file rest"
    and "reader_at rest b (frag_bytes b (fragments False b data) @ ys) r" "b \<le> kBlockSize"
    "rs_in_fragmented_record st"
  shows "\<exists>r'. ReadRecord_loop file st r = Some (Some (rs_scratch st @ data), r') \<and>
    reader_at rest (frag_end b (fragments False b data)) ys r' \<and> lr_reports r' = lr_reports r"
  using assms(2-4)
proof (induction False b data arbitrary: r st rule: fragments.induct)
  case (1 b data)
  define n where "n = (if length data \<le> room_at b then length data else room_at b)"
  define fin where "fin = (length data \<le> room_at b)"
  define more where "more = (if fin then ys
    else frag_bytes kBlockSize (fragments False kBlockSize (drop n data)) @ ys)"
  have room: "start_of b + kHeaderSize + length (take n data) \<le> kBlockSize"
    using start_of_room [OF 1(3)] by (simp add: n_def)
  have full: "start_of b + kHeaderSize + length (take n data) = kBlockSize" if "\<not> fin"
    using that start_of_room [OF 1(3)] by (simp add: n_def fin_def)
  have at: "reader_at rest b (trailer b @ physical (record_type False fin) (take n data) @ more) r"
    using 1(2) full by (auto simp: fragments.simps [of False b data] n_def fin_def more_def split: if_splits)
  obtain r1 where r1: "ReadPhysicalRecord file (rs_fragment st) r = Some (record_type False fin, take n data, r1)"
      "reader_at rest (start_of b + kHeaderSize + length (take n data)) more r1" "lr_reports r1 = lr_reports r"
    using ReadPhysical_next [OF reads at record_type_valid room] by blast
  note unf = ReadRecord_loop.simps [of _ st r]
  show ?case
  proof (cases fin)
    case True
    then have "record_type False fin = kLastType" "n = length data" by (simp_all add: record_type_def n_def fin_def)
    with True r1 1(4) show ?thesis
      by (simp add: unf reader_at_no_resync [OF r1(2)] handle_record_def Let_def more_def c_defs
          fragments.simps [of False b data] fin_def)
  next
    case False
    then have t: "record_type False fin = kMiddleType" and n: "n = room_at b" and big: "\<not> length data \<le> room_at b"
      by (simp_all add: record_type_def n_def fin_def)
    let ?st = "st\<lparr>rs_fragment := take n data, rs_scratch := rs_scratch st @ take n data\<rparr>"
    have "reader_at rest kBlockSize (frag_bytes kBlockSize (fragments False kBlockSize (drop n data)) @ ys) r1"
      using r1(2) full [OF False] False by (simp add: more_def)
    then obtain r2 where r2: "ReadRecord_loop file ?st r1 = Some (Some (rs_scratch ?st @ drop n data), r2)"
        "reader_at rest (frag_end kBlockSize (fragments False kBlockSize (drop n data))) ys r2"
        "lr_reports r2 = lr_reports r1"
      using 1(1) [OF big, of r1 ?st] 1(4) n by auto
    have "ReadRecord_loop file st r = ReadRecord_loop file ?st r1"
      using r1(1) 1(4) by (simp add: unf reader_at_no_resync [OF r1(2)] t handle_record_def Let_def c_defs)
    with r2 r1(3) big n full [OF False] show ?thesis
      by (simp add: fragments.simps [of False b data])
  qed
qed

text \<open>A whole record: in one piece, or its first fragment and the rest.\<close>

lemma ReadRecord_record:
  assumes reads: "file_reads file rest" and at: "reader_at rest b (record_bytes b data @ ys) r"
    and b: "b \<le> kBlockSize"
  obtains r' where "ReadRecord file r = Some (Some data, r')"
    "reader_at rest (record_end b data) ys r'" "lr_reports r' = lr_reports r"
proof -
  let ?st = "\<lparr>rs_in_fragmented_record = False, rs_prospective = 0, rs_scratch = [], rs_fragment = []\<rparr>"
  have RR: "ReadRecord file r = ReadRecord_loop file ?st r"
    using at by (simp add: ReadRecord_def reader_at_def)
  note unf = ReadRecord_loop.simps [of _ ?st r]
  show thesis
  proof (cases "length data \<le> room_at b")
    case True
    then have frag: "fragments True b data = [(kFullType, data)]"
      by (simp add: fragments.simps [of True b data] record_type_def)
    have room: "start_of b + kHeaderSize + length data \<le> kBlockSize"
      using start_of_room [OF b] True by simp
    have at': "reader_at rest b (trailer b @ physical kFullType data @ ys) r"
      using at by (simp add: record_bytes_def frag)
    obtain r1 where r1: "ReadPhysicalRecord file [] r = Some (kFullType, data, r1)"
        "reader_at rest (start_of b + kHeaderSize + length data) ys r1" "lr_reports r1 = lr_reports r"
      using ReadPhysical_next [OF reads at' _ room, where result = "[]"] by (auto simp: valid_type_def)
    have "\<exists>n. ReadRecord file r = Some (Some data, r1\<lparr>lr_last_record_offset := n\<rparr>)"
      using r1(1) by (simp add: RR unf reader_at_no_resync [OF r1(2)] handle_record_def partial_record_def Let_def) blast
    then obtain n where n: "ReadRecord file r = Some (Some data, r1\<lparr>lr_last_record_offset := n\<rparr>)" by blast
    show thesis by (rule that [OF n]) (use r1(2,3) in \<open>simp_all add: record_end_def frag\<close>)
  next
    case False
    let ?n = "room_at b"
    have frag: "fragments True b data =
        (kFirstType, take ?n data) # fragments False kBlockSize (drop ?n data)"
      using False by (simp add: fragments.simps [of True b data] record_type_def)
    have len: "length (take ?n data) = ?n" using False by simp
    have full: "start_of b + kHeaderSize + length (take ?n data) = kBlockSize"
      unfolding len by (rule start_of_room [OF b])
    have at': "reader_at rest b (trailer b @ physical kFirstType (take ?n data) @
        frag_bytes kBlockSize (fragments False kBlockSize (drop ?n data)) @ ys) r"
      using at full by (simp add: record_bytes_def frag)
    obtain r1 where r1: "ReadPhysicalRecord file [] r = Some (kFirstType, take ?n data, r1)"
        "reader_at rest kBlockSize (frag_bytes kBlockSize (fragments False kBlockSize (drop ?n data)) @ ys) r1"
        "lr_reports r1 = lr_reports r"
      using ReadPhysical_next [OF reads at' _ eq_imp_le [OF full], where result = "[]"] full
      by (auto simp: valid_type_def)
    let ?st1 = "\<lambda>n. \<lparr>rs_in_fragmented_record = True, rs_prospective = n,
      rs_scratch = take ?n data, rs_fragment = take ?n data\<rparr>"
    have "\<exists>n. ReadRecord file r = ReadRecord_loop file (?st1 n) r1"
      using r1(1) by (simp add: RR unf reader_at_no_resync [OF r1(2)] handle_record_def
          partial_record_def Let_def c_defs) (rule exI, rule refl)
    then obtain n where st: "ReadRecord file r = ReadRecord_loop file (?st1 n) r1" by blast
    from ReadRecord_rest [OF reads r1(2) order_refl, of "?st1 n"] obtain r2 where r2:
        "ReadRecord file r = Some (Some data, r2)"
        "reader_at rest (frag_end kBlockSize (fragments False kBlockSize (drop ?n data))) ys r2"
        "lr_reports r2 = lr_reports r1"
      by (auto simp: st)
    show thesis by (rule that [OF r2(1)]) (use r2 r1(3) full in \<open>simp_all add: record_end_def frag\<close>)
  qed
qed

text \<open>A reader at the start of a file.  A block boundary may be seen from both sides.\<close>

lemma room_at_boundary: "room_at 0 = room_at kBlockSize" "trailer 0 = trailer kBlockSize"
  "start_of 0 = start_of kBlockSize"
  by (simp_all add: room_at_def start_of_def trailer_def c_defs)

lemma record_bytes_boundary: "record_bytes 0 d = record_bytes kBlockSize d"
  "record_end 0 d = record_end kBlockSize d"
  by (simp_all add: record_bytes_def record_end_def fragments.simps [of True 0]
      fragments.simps [of True kBlockSize] room_at_boundary)

lemma log_bytes_boundary: "log_bytes 0 rs = log_bytes kBlockSize rs"
  by (cases rs) (simp_all add: record_bytes_boundary)

lemma Reader_at:
  "rest f = log_bytes 0 rs \<Longrightarrow> reader_at rest kBlockSize (log_bytes kBlockSize rs @ []) (Reader f rep chk 0)"
  by (simp add: reader_at_def Reader_def log_bytes_boundary)

lemma frag_end_le:
  "b \<le> kBlockSize \<Longrightarrow> frag_end b (fragments beg b d) \<le> kBlockSize"
proof (induction beg b d rule: fragments.induct)
  case (1 beg b d)
  show ?case
  proof (cases "length d \<le> room_at b")
    case True
    then show ?thesis using start_of_room [OF 1(2)] by (simp add: fragments.simps [of beg b d])
  next
    case False
    then show ?thesis using 1(1) [OF False] start_of_room [OF 1(2)]
      by (simp add: fragments.simps [of beg b d] min_def)
  qed
qed

lemma record_end_le: "b \<le> kBlockSize \<Longrightarrow> record_end b d \<le> kBlockSize"
  by (simp add: record_end_def frag_end_le)

text \<open>The records of a log, one after the other, until none is left.\<close>

partial_function (option) read_all ::
  "'f sequential_file \<Rightarrow> 'f log_reader \<Rightarrow> (byte list list \<times> 'f log_reader) option" where
  "read_all file r = do {
     (rec, r) \<leftarrow> ReadRecord file r;
     (case rec of
        None \<Rightarrow> Some ([], r)
      | Some d \<Rightarrow> do {
          (ds, r) \<leftarrow> read_all file r;
          Some (d # ds, r)
        })
   }"

declare read_all.simps [code]

lemma ReadRecord_end:
  assumes reads: "file_reads file rest" and at: "reader_at rest b [] r"
  obtains r' where "ReadRecord file r = Some (None, r')" "reader_at rest b [] r'" "lr_reports r' = lr_reports r"
proof -
  let ?st = "\<lparr>rs_in_fragmented_record = False, rs_prospective = 0, rs_scratch = [], rs_fragment = []\<rparr>"
  have RR: "ReadRecord file r = ReadRecord_loop file ?st r"
    using at by (simp add: ReadRecord_def reader_at_def)
  obtain r1 where r1: "ReadPhysicalRecord file [] r = Some (kEof, [], r1)"
      "reader_at rest b [] r1" "lr_reports r1 = lr_reports r"
    using ReadPhysical_end [OF reads at, where result = "[]"] by blast
  have "ReadRecord file r = Some (None, r1)"
    using r1(1) by (simp add: RR ReadRecord_loop.simps [of _ ?st r] reader_at_no_resync [OF r1(2)]
        handle_record_def Let_def c_defs)
  then show thesis using r1(2,3) by (rule that)
qed

lemma read_all_at:
  assumes reads: "file_reads file rest"
    and "reader_at rest b (log_bytes b rs @ []) r" "b \<le> kBlockSize"
  shows "\<exists>r'. read_all file r = Some (rs, r') \<and> lr_reports r' = lr_reports r"
  using assms(2,3)
proof (induction rs arbitrary: b r)
  case Nil
  then have "reader_at rest b [] r" by simp
  from ReadRecord_end [OF reads this] obtain r' where
    "ReadRecord file r = Some (None, r')" "lr_reports r' = lr_reports r" by blast
  then show ?case by (simp add: read_all.simps [of _ r])
next
  case (Cons d ds)
  have "reader_at rest b (record_bytes b d @ (log_bytes (record_end b d) ds @ [])) r"
    using Cons.prems(1) by simp
  from ReadRecord_record [OF reads this Cons.prems(2)] obtain r1 where r1:
      "ReadRecord file r = Some (Some d, r1)"
      "reader_at rest (record_end b d) (log_bytes (record_end b d) ds @ []) r1" "lr_reports r1 = lr_reports r"
    by blast
  from Cons.IH [OF r1(2) record_end_le [OF Cons.prems(2)]] r1(1,3) show ?case
    by (auto simp: read_all.simps [of _ r])
qed

lemma read_all_log:
  assumes "file_reads file rest" "rest f = log_bytes 0 rs"
  shows "\<exists>r'. read_all file (Reader f rep chk 0) = Some (rs, r') \<and> lr_reports r' = []"
  using read_all_at [OF assms(1) Reader_at [of rest f rs rep chk, OF assms(2)]] by (simp add: Reader_def)

text \<open>A record whose checksum does not match is dropped with the rest of the buffer.\<close>

definition with_header :: "u32 \<Rightarrow> byte \<Rightarrow> byte list \<Rightarrow> byte list" where
  "with_header crc t d = EncodeFixed32 crc @ [of_nat (length d) AND 0xff, of_nat (length d div 256), t] @ d"

lemma physical_header: "physical t d = with_header (Mask (crc32c 0 (type_byte t # d))) (type_byte t) d"
  by (simp add: physical_def with_header_def)

lemma scast_byte_0_iff: "(scast (b :: byte) :: u32) = 0 \<longleftrightarrow> b = 0"
proof
  assume eq: "(scast b :: u32) = 0"
  show "b = 0"
  proof (rule bit_word_eqI)
    fix n assume "n < LENGTH(8)"
    then have "n < 7 \<or> n = 7" by auto
    then show "bit b n = bit 0 n"
      using arg_cong [OF eq, of "\<lambda>w. bit w n"] by (auto simp: bit_simps min_def split: if_splits)
  qed
qed simp

lemma parse_physical_mismatch:
  assumes buf: "lr_buffer r = with_header crc t d @ ys" and d: "length d < 65536"
    and t: "t \<noteq> 0 \<or> d \<noteq> []" and check: "lr_checksum r" and bad: "Unmask crc \<noteq> crc32c 0 (t # d)"
  shows "parse_physical result r = Some (kBadRecord, result,
    ReportCorruption (of_nat (length (lr_buffer r))) (ascii ''checksum mismatch'') (r\<lparr>lr_buffer := []\<rparr>))"
proof -
  have len: "length (EncodeFixed32 crc) = 4" by (simp add: EncodeFixed32_def)
  note h = buf [unfolded with_header_def]
  have nth: "lr_buffer r ! 4 = of_nat (length d) AND 0xff" "lr_buffer r ! 5 = of_nat (length d div 256)"
      "lr_buffer r ! 6 = t"
    unfolding h by (simp_all add: nth_append len)
  have drop: "drop 6 (lr_buffer r) = t # d @ ys" unfolding h by (simp add: len)
  have stored: "DecodeFixed32 (lr_buffer r) = Some crc"
    unfolding h append_assoc by (rule DecodeFixed32_append)
  have size: "\<not> kHeaderSize + length d > length (lr_buffer r)" unfolding h by (simp add: len c_defs)
  have "\<not> (scast t = kZeroType \<and> length d = 0)" using t by (auto simp: scast_byte_0_iff c_defs)
  moreover have "record_length (lr_buffer r) = length d"
    unfolding record_length_def Let_def nth by (rule length_word [OF d])
  ultimately show ?thesis
    using size drop stored check bad
    by (simp add: parse_physical_def nth(3) Value_def Extend_crc32c Let_def del: bind_Some_iff) blast
qed

lemma ReadPhysical_mismatch:
  assumes "lr_buffer r = with_header crc t d @ ys" "length d < 65536"
    "t \<noteq> 0 \<or> d \<noteq> []" "lr_checksum r" "Unmask crc \<noteq> crc32c 0 (t # d)"
  shows "ReadPhysicalRecord file result r = Some (kBadRecord, result,
    ReportCorruption (of_nat (length (lr_buffer r))) (ascii ''checksum mismatch'') (r\<lparr>lr_buffer := []\<rparr>))"
proof -
  have "\<not> length (lr_buffer r) < kHeaderSize"
    using assms(1) by (simp add: with_header_def EncodeFixed32_def c_defs)
  with parse_physical_mismatch [OF assms, of result] show ?thesis
    by (simp add: ReadPhysicalRecord.simps [of _ result r])
qed

end
