(* ===== verification/Ldb_Properties.thy ===== *)
theory Ldb_Properties
  imports Ldb_Write_Batch Ldb_Log_Reader Wire_Properties
begin

text \<open>
  The properties of the encodings, checksums, filters and logs of LevelDB, with concrete
  instances.  A file that is kept as a list of bytes instantiates the interfaces of
  \<open>leveldb/env.h\<close>.
\<close>

definition list_writer :: "byte list writable_file" where
  "list_writer = \<lparr>wf_Append = (\<lambda>data f. (OK, f @ data)), wf_Flush = (\<lambda>f. (OK, f))\<rparr>"

definition list_reader :: "byte list sequential_file" where
  "list_reader = \<lparr>sf_Read = (\<lambda>n f. (OK, take n f, drop n f)), sf_Skip = (\<lambda>n f. (OK, drop (unat n) f))\<rparr>"

lemma list_writer_appends: "file_appends list_writer id"
  by (simp add: file_appends_def list_writer_def)

lemma list_reader_reads: "file_reads list_reader id"
  by (simp add: file_reads_def list_reader_def)

section \<open>Encodings\<close>

text \<open>LevelDB and nanopb agree on base-128 numbers: \<open>GetVarint64\<close> takes a number off the
  front of a slice exactly if \<open>pb_decode_varint\<close> reads the same number from a stream over
  these bytes, and both then stand in front of the same bytes.\<close>

lemma varint_decoders_agree:
  assumes "stream_at s m xs"
  shows "GetVarint64 xs = Some (v, rest) \<longleftrightarrow>
    (\<exists>s'. pb_decode_varint env s m = Some (Some v, s', m) \<and> stream_at s' m rest)"
proof -
  note at = pb_decode_varint_at [OF assms, of env]
  show ?thesis
  proof (cases "p_varint 10 xs :: u64 parse")
    case (Pair r k)
    show ?thesis
    proof (cases r)
      case (Inl e)
      with Pair at show ?thesis by (simp add: GetVarint64_parsed parse_result_def)
    next
      case (Inr w)
      have "k \<le> length xs" using p_varint_consumes [of 10 xs, where ?'a = 64] Pair Inr by simp
      from stream_at_advance [OF assms this] have adv: "stream_at (advance k s) m (drop k xs)" .
      then have "stream_at (advance k s) m rest \<longleftrightarrow> rest = drop k xs"
        by (auto simp: stream_at_def)
      with Pair Inr at show ?thesis by (auto simp: GetVarint64_parsed parse_result_def)
    qed
  qed
qed

text \<open>the three encoders of base-128 numbers agree: the unrolled one for 32 bits writes what
  the loop for 64 bits writes, \<open>VarintLength\<close> is the number of bytes written, between one and
  ten, and it is least: a number has at most \<open>k\<close> bytes exactly if it has at most \<open>7 k\<close> bits.\<close>

lemma varint_encoders_agree:
  "EncodeVarint32 w = EncodeVarint64 (ucast w) \<and> VarintLength v = length (EncodeVarint64 v) \<and>
   VarintLength v \<in> {1..10} \<and> (VarintLength v \<le> Suc k \<longleftrightarrow> unat v < 2 ^ (7 * Suc k))"
proof -
  have len: "VarintLength v = length (varint_bytes v)"
    by (simp add: VarintLength_def VarintLength_loop_eq EncodeVarint64_bytes)
  have "varint_bytes v \<noteq> []" by (simp add: varint_bytes.simps [of v])
  then have "0 < length (varint_bytes v)" by simp
  then show ?thesis
    using length_varint_bytes [of v] length_varint_bytes_iff [of "Suc k" v]
    by (simp add: len EncodeVarint32_bytes EncodeVarint64_bytes Suc_le_eq)
qed

text \<open>strings written one after the other with \<open>PutLengthPrefixedSlice\<close> are read back in
  order by \<open>GetLengthPrefixedSlice\<close>, which leaves whatever follows them; strings of 4 GB and
  more are excluded, as the length is stored in 32 bits.\<close>

lemma slices_roundtrip:
  assumes "\<forall>v \<in> set vs. length v < 2 ^ 32"
  shows "get_many get_slice (length vs) (drop (length dst) (foldl PutLengthPrefixedSlice dst vs) @ rest) =
    Some (vs, rest)"
proof -
  have "foldl PutLengthPrefixedSlice d vs = d @ concat (map (PutLengthPrefixedSlice []) vs)" for d
    by (induction vs arbitrary: d) (simp_all add: PutLengthPrefixedSlice_def PutVarint32_def)
  moreover have "\<forall>v \<in> set vs. slice_ok v" using assms by (simp add: slice_ok_def)
  ultimately show ?thesis by (simp add: slice_codec.get_many_put)
qed

section \<open>Checksums\<close>

text \<open>C19: \<open>crc32c::Extend\<close>, which works through the buffer in steps of 16, 4 and 1 bytes
  depending on its address, returns the bitwise CRC-32C of the bytes for every address, and a
  buffer may be checksummed in any two parts.\<close>

lemma Extend_is_crc32c:
  "Extend p crc buf = Some (crc32c crc buf) \<and>
   Option.bind (Extend p crc buf) (\<lambda>c. Extend q c buf2) = Extend r crc (buf @ buf2)"
  by (simp add: Extend_crc32c crc32c_append)

text \<open>\<open>Mask\<close> and \<open>Unmask\<close> are inverse to each other, so no two checksums are stored as the
  same word and every word is the mask of a checksum.\<close>

lemma Mask_bijective: "Unmask (Mask crc) = crc \<and> Mask (Unmask word) = word"
  by (simp add: Unmask_Mask Mask_Unmask)

section \<open>Bloom filters\<close>

text \<open>C24: a Bloom filter has no false negatives: of a filter that \<open>CreateFilter\<close> appended to
  \<open>dst\<close>, \<open>KeyMayMatch\<close> accepts every key that was added.\<close>

lemma bloom_no_false_negatives:
  assumes "key \<in> set keys" "length keys * bits_per_key < 2 ^ 63" "bits_per_key < 2 ^ 31"
  shows "KeyMayMatch key (drop (length dst) (CreateFilter (BloomFilterPolicy bits_per_key) keys dst))"
proof -
  have "bloom_ok (BloomFilterPolicy bits_per_key) keys"
    using assms(2,3)
    by (simp add: bloom_ok_def BloomFilterPolicy_def Let_def unat_of_nat take_bit_nat_eq_self_iff)
  from bloom.match_appended [OF this assms(1) refl] show ?thesis by simp
qed

lemma bloom_no_false_negatives_witness:
  "KeyMayMatch [104, 105] (drop 1 (CreateFilter (BloomFilterPolicy 10) [[104, 105], []] [0]))"
  using bloom_no_false_negatives [of "[104, 105]" "[[104, 105], []]" 10 "[0]"] by simp

section \<open>Logs\<close>



text \<open>C9: what was logged is read back: over a file to which \<open>AddRecord\<close> appended some records,
  \<open>ReadRecord\<close> delivers exactly these records in order and then the end of the file, and
  reports no corruption.\<close>

lemma log_roundtrip:
  assumes "file_appends file contents" "contents f = []"
    and "Writer f 0 = Some w" "add_records file rs w = Some (s, w')"
    and "file_reads input rest" "rest g = contents (lw_dest w')"
  shows "\<exists>r. read_all input (Reader g reporter checksum 0) = Some (rs, r) \<and> lr_reports r = []"
proof -
  have "writer_ok w" "lw_dest w = f" "lw_block_offset w = 0"
    using Writer_ok [of f 0] assms(3) by auto
  with add_records_ok [OF assms(1), of w rs] assms(2,4,6) have "rest g = log_bytes 0 rs" by auto
  with assms(5) show ?thesis by (rule read_all_log)
qed

lemma log_roundtrip_witness:
  "\<exists>w w' r. Writer [] 0 = Some w \<and> add_records list_writer [[1, 2], [], replicate 40000 7] w = Some (OK, w') \<and>
    read_all list_reader (Reader (lw_dest w') True True 0) = Some ([[1, 2], [], replicate 40000 7], r) \<and>
    lr_reports r = []"
proof -
  obtain w where w: "Writer [] 0 = Some w" "writer_ok (w :: byte list log_writer)"
    using Writer_ok [of "[] :: byte list" 0] by auto
  obtain w' where w': "add_records list_writer [[1, 2], [], replicate 40000 7] w = Some (OK, w')"
    using add_records_ok [OF list_writer_appends w(2)] by blast
  have "id ([] :: byte list) = []" by simp
  from log_roundtrip [OF list_writer_appends this w(1) w' list_reader_reads, of "lw_dest w'" True True]
  obtain r where "read_all list_reader (Reader (lw_dest w') True True 0) = Some ([[1, 2], [], replicate 40000 7], r)"
    "lr_reports r = []" unfolding id_apply by blast
  with w(1) w' show ?thesis by blast
qed

text \<open>C23: a changed byte is noticed: when one byte of the type or the data of a physical record
  with data has changed since it was written, \<open>ReadPhysicalRecord\<close> does not deliver it, but
  reports a checksum mismatch over the whole buffer and drops it.\<close>

lemma changed_byte_reported:
  assumes written: "type_byte t # data = xs @ b # ys" and stored: "t' # data' = xs @ c # ys" and "b \<noteq> c"
    and buffer: "lr_buffer r = EncodeFixed32 (Mask (crc32c 0 (type_byte t # data))) @
      [of_nat (length data) AND 0xff, of_nat (length data div 256), t'] @ data' @ following"
    and "length data < 65536" "data \<noteq> []" "lr_checksum r"
  shows "ReadPhysicalRecord file result r = Some (kBadRecord, result,
    ReportCorruption (of_nat (length (lr_buffer r))) (ascii ''checksum mismatch'') (r\<lparr>lr_buffer := []\<rparr>))"
proof (rule ReadPhysical_mismatch)
  have len: "length data' = length data"
    using arg_cong [OF written, of length] arg_cong [OF stored, of length] by simp
  then show "t' \<noteq> 0 \<or> data' \<noteq> []" "length data' < 65536" using assms(5,6) by auto
  show "lr_buffer r = with_header (Mask (crc32c 0 (type_byte t # data))) t' data' @ following"
    using buffer by (simp add: with_header_def len)
  show "Unmask (Mask (crc32c 0 (type_byte t # data))) \<noteq> crc32c 0 (t' # data')"
    unfolding Unmask_Mask written stored using \<open>b \<noteq> c\<close> by (rule crc32c_changed)
qed (rule assms(7))

lemma changed_byte_reported_witness:
  "\<exists>r. ReadPhysicalRecord list_reader [] (Reader [] True True 0 \<lparr>lr_buffer := EncodeFixed32
      (Mask (crc32c 0 [1, 5])) @ [1, 0, 1] @ [6]\<rparr>) = Some (kBadRecord, [], r)"
  using changed_byte_reported [of kFullType "[5]" "[1]" 5 "[]" 1 "[6]" 6
      "Reader [] True True 0 \<lparr>lr_buffer := EncodeFixed32 (Mask (crc32c 0 [1, 5])) @ [1, 0, 1] @ [6]\<rparr>"
      "[]" list_reader "[]"]
  by (simp add: type_byte_def c_defs Reader_def)

section \<open>Internal keys\<close>

text \<open>an internal key is parsed back: what \<open>AppendInternalKey\<close> appended to a string,
  \<open>ParseInternalKey\<close> takes apart into the user key, the sequence number and the type.\<close>

lemma internal_key_roundtrip:
  assumes "AppendInternalKey dst key = Some k"
  shows "ParseInternalKey (drop (length dst) k) = Some (Some key)"
proof -
  let ?packed = "push_bit 8 (pik_sequence key) OR type_number (pik_type key)"
  have seq: "pik_sequence key \<le> kMaxSequenceNumber" and
    k: "k = dst @ pik_user_key key @ EncodeFixed64 ?packed"
    using assms by (auto simp: AppendInternalKey_def PackSequenceAndType_def PutFixed64_def split: if_splits)
  then have "drop (length dst) k = pik_user_key key @ EncodeFixed64 ?packed" by simp
  then show ?thesis
    using DecodeFixed64_append [of ?packed "[]"] packed_parts [OF seq, of "pik_type key"]
    by (cases "pik_type key") (simp_all add: ParseInternalKey_def Let_def ucast_and_FF)
qed

text \<open>C12: the order of internal keys over the built-in comparator: first by user key, as strings
  of bytes, then by decreasing sequence number, then by decreasing type, so that among the
  entries of a user key the newest comes first.\<close>

lemma internal_key_order:
  assumes "AppendInternalKey [] a = Some akey" "AppendInternalKey [] b = Some bkey"
  shows "below (Internal_Compare Bytewise_Compare) akey bkey \<longleftrightarrow>
    (pik_user_key a, pik_user_key b) \<in> lexord {(x, y). x < y} \<or>
    pik_user_key a = pik_user_key b \<and>
      (pik_sequence a > pik_sequence b \<or>
       pik_sequence a = pik_sequence b \<and> type_number (pik_type a) > type_number (pik_type b))"
proof -
  let ?packed = "\<lambda>k. push_bit 8 (pik_sequence k) OR type_number (pik_type k)"
  have seq: "pik_sequence a \<le> kMaxSequenceNumber" "pik_sequence b \<le> kMaxSequenceNumber" and
    k: "akey = pik_user_key a @ EncodeFixed64 (?packed a)" "bkey = pik_user_key b @ EncodeFixed64 (?packed b)"
    using assms by (auto simp: AppendInternalKey_def PackSequenceAndType_def PutFixed64_def split: if_splits)
  show ?thesis
    unfolding k below_Internal below_Bytewise packed_less [OF seq(2,1)]
    by (auto simp: Bytewise_Compare_def Slice_compare_lexord)
qed

lemma internal_key_order_witness:
  "below (Internal_Compare Bytewise_Compare)
     ([104] @ EncodeFixed64 (push_bit 8 7 OR 1)) ([104] @ EncodeFixed64 (push_bit 8 5 OR 0))"
proof -
  let ?k = "\<lambda>s t. \<lparr>pik_user_key = [104], pik_sequence = s, pik_type = t\<rparr>"
  have "(5 :: u64) \<le> kMaxSequenceNumber" "(7 :: u64) \<le> kMaxSequenceNumber" by (simp_all add: kMaxSequenceNumber_def)
  then have "AppendInternalKey [] (?k 7 kTypeValue) = Some ([104] @ EncodeFixed64 (push_bit 8 7 OR 1))"
      "AppendInternalKey [] (?k 5 kTypeDeletion) = Some ([104] @ EncodeFixed64 (push_bit 8 5 OR 0))"
    by (simp_all add: AppendInternalKey_def PackSequenceAndType_def PutFixed64_def)
  from internal_key_order [OF this] show ?thesis by simp
qed

text \<open>C36: shortening an internal key stays inside the interval: for keys \<open>start\<close> below \<open>limit\<close>,
  \<open>FindShortestSeparator\<close> over the built-in comparator returns a key that is at least \<open>start\<close>
  and below \<open>limit\<close>, and its assertions hold.\<close>

lemma internal_separator_between:
  assumes "8 \<le> length start" "8 \<le> length limit" "below (Internal_Compare Bytewise_Compare) start limit"
  shows "\<exists>key. Internal_FindShortestSeparator Bytewise_Compare Bytewise_FindShortestSeparator start limit = Some key \<and>
    (key = start \<or> below (Internal_Compare Bytewise_Compare) start key) \<and>
    below (Internal_Compare Bytewise_Compare) key limit"
proof -
  have "internal_ok (\<lambda>_. True) start" "internal_ok (\<lambda>_. True) limit"
    using assms(1,2) by (simp_all add: internal_ok_def ExtractUserKey_def)
  from bytewise_user.internal.separator [OF this assms(3)] show ?thesis by blast
qed

lemma internal_separator_between_witness:
  "\<exists>key. Internal_FindShortestSeparator Bytewise_Compare Bytewise_FindShortestSeparator
      ([97, 98, 99] @ EncodeFixed64 0) ([97, 120] @ EncodeFixed64 0) = Some key \<and>
    below (Internal_Compare Bytewise_Compare) key ([97, 120] @ EncodeFixed64 0)"
proof -
  have "below (Internal_Compare Bytewise_Compare) ([97, 98, 99] @ EncodeFixed64 0) ([97, 120] @ EncodeFixed64 0)"
    by (simp only: below_Internal below_Bytewise) simp
  from internal_separator_between [OF _ _ this] show ?thesis by auto
qed

section \<open>Write batches\<close>

definition log_handler :: "update list handler" where
  "log_handler = \<lparr>h_Put = (\<lambda>k v h. Some (h @ [Put_update k v])), h_Delete = (\<lambda>k h. Some (h @ [Delete_update k]))\<rparr>"

text \<open>C10: iterating over a batch replays it: on a batch built from two others, each built by
  \<open>Put\<close> and \<open>Delete\<close> from an empty one, and joined by \<open>Append\<close>, \<open>Iterate\<close> calls the handler
  with exactly these updates in order and returns success.\<close>

lemma write_batch_replay:
  assumes "add_updates WriteBatch_Clear us = Some a" "add_updates WriteBatch_Clear vs = Some b"
    and "\<forall>u \<in> set (us @ vs). update_ok u" "length us + length vs < 2 ^ 31"
  shows "\<exists>rep. WriteBatch_Append a b = Some rep \<and>
    Iterate hs rep h = map_option (Pair OK) (handle_updates hs (us @ vs) h)"
proof -
  have "a = batch 0 us" "b = batch 0 vs"
    using assms(1,2,4) by (simp_all add: WriteBatch_Clear_batch add_updates_batch)
  with Append_batch [OF assms(4), of 0 0] Iterate_batch [OF assms(3), of hs 0 h] assms(4) show ?thesis by simp
qed

lemma write_batch_replay_witness:
  "\<exists>a b rep. add_updates WriteBatch_Clear [Put_update [1] [2, 3]] = Some a \<and>
    add_updates WriteBatch_Clear [Delete_update [1]] = Some b \<and> WriteBatch_Append a b = Some rep \<and>
    Iterate log_handler rep [] = Some (OK, [Put_update [1] [2, 3], Delete_update [1]])"
proof -
  have a: "add_updates WriteBatch_Clear [Put_update [1] [2, 3]] = Some (batch 0 [Put_update [1] [2, 3]])"
    and b: "add_updates WriteBatch_Clear [Delete_update [1]] = Some (batch 0 [Delete_update [1]])"
    using add_updates_batch [of "[]" "[Put_update [1] [2, 3]]" 0] add_updates_batch [of "[]" "[Delete_update [1]]" 0]
    by (simp_all add: WriteBatch_Clear_batch)
  have "\<forall>u \<in> set ([Put_update [1] [2, 3]] @ [Delete_update [1]]). update_ok u" by (simp add: slice_ok_def)
  from write_batch_replay [OF a b this, of log_handler "[]"] a b show ?thesis
    by (simp add: log_handler_def del: add_updates.simps)
qed

text \<open>C35: \<open>Iterate\<close> on any string returns and never misuses memory: it calls the handler with a
  sequence of updates and returns success, with as many updates as the header counts, or a
  corruption.\<close>

lemma write_batch_any_input:
  assumes "\<forall>k v h. h_Put hs k v h \<noteq> None" "\<forall>k h. h_Delete hs k h \<noteq> None" "length rep < 2 ^ 31"
  shows "\<exists>s us h'. Iterate hs rep h = Some (s, h') \<and> handle_updates hs us h = Some h' \<and>
    (s = OK \<and> Count rep = Some (int (length us)) \<or> (\<exists>msg. s = Corruption msg))"
  using assms by (intro Iterate_total) (simp_all add: handler_total_def)

lemma write_batch_any_input_witness:
  "\<exists>s us. Iterate log_handler (replicate 12 0 @ [1, 200]) [] = Some (s, us)"
proof -
  have "\<forall>k v h. h_Put log_handler k v h \<noteq> None" "\<forall>k h. h_Delete log_handler k h \<noteq> None"
    by (simp_all add: log_handler_def)
  from write_batch_any_input [OF this, of "replicate 12 0 @ [1, 200]" "[]"] show ?thesis by auto
qed

end
