(* ===== verification/Ldb_Block.thy ===== *)
theory Ldb_Block
  imports Ldb_Comparator Ldb_Coding Ldb_Log_Writer
begin

text \<open>
  Blocks of LevelDB's tables: the builder, \<open>leveldb-library/table/block_builder.cc\<close>, and the
  iterator, \<open>table/block.cc\<close>.  A block is a string: the entries, whose keys share prefixes with
  their predecessors, then the offsets of the entries that share nothing (the restart points)
  and their number.  Pointers into a block are offsets; a read outside of it, a failed
  assertion and a result of the comparator that is undefined make the result undefined.
\<close>

section \<open>Builder\<close>

text \<open>The options that the builder uses: \<open>block_restart_interval\<close> is at least 1.\<close>

record block_builder =
  bb_compare :: "byte list \<Rightarrow> byte list \<Rightarrow> int option"
  bb_interval :: nat
  bb_buffer :: "byte list"
  bb_restarts :: "u32 list"
  bb_counter :: nat
  bb_finished :: bool
  bb_last_key :: "byte list"

definition BlockBuilder :: "(byte list \<Rightarrow> byte list \<Rightarrow> int option) \<Rightarrow> nat \<Rightarrow> block_builder option" where
  "BlockBuilder compare interval =
     (if interval \<ge> 1
      then Some \<lparr>bb_compare = compare, bb_interval = interval, bb_buffer = [], bb_restarts = [0],
        bb_counter = 0, bb_finished = False, bb_last_key = []\<rparr>
      else None)"

definition BlockBuilder_Reset :: "block_builder \<Rightarrow> block_builder" where
  "BlockBuilder_Reset b = b\<lparr>bb_buffer := [], bb_restarts := [0], bb_counter := 0, bb_finished := False,
     bb_last_key := []\<rparr>"

definition CurrentSizeEstimate :: "block_builder \<Rightarrow> nat" where
  "CurrentSizeEstimate b = length (bb_buffer b) + length (bb_restarts b) * 4 + 4"

definition BlockBuilder_Finish :: "block_builder \<Rightarrow> byte list \<times> block_builder" where
  "BlockBuilder_Finish b =
     (let buffer = PutFixed32 (foldl PutFixed32 (bb_buffer b) (bb_restarts b)) (of_nat (length (bb_restarts b)))
      in (buffer, b\<lparr>bb_buffer := buffer, bb_finished := True\<rparr>))"

definition BlockBuilder_empty :: "block_builder \<Rightarrow> bool" where
  "BlockBuilder_empty b \<longleftrightarrow> bb_buffer b = []"

text \<open>The loop over the common prefix is that of \<open>diff_loop\<close>.\<close>

definition BlockBuilder_Add :: "byte list \<Rightarrow> byte list \<Rightarrow> block_builder \<Rightarrow> block_builder option" where
  "BlockBuilder_Add key val b = do {
     let last_key_piece = bb_last_key b;
     larger \<leftarrow> (if bb_buffer b = [] then Some True
       else map_option (\<lambda>r. r > 0) (bb_compare b key last_key_piece));
     if bb_finished b \<or> \<not> bb_counter b \<le> bb_interval b \<or> \<not> larger then None
     else do {
       let (shared, b) =
         (if bb_counter b < bb_interval b then (diff_loop last_key_piece key 0, b)
          else (0, b\<lparr>bb_restarts := bb_restarts b @ [of_nat (length (bb_buffer b))], bb_counter := 0\<rparr>));
       let non_shared = length key - shared;
       let buffer = PutVarint32 (bb_buffer b) (of_nat shared);
       let buffer = PutVarint32 buffer (of_nat non_shared);
       let buffer = PutVarint32 buffer (of_nat (length val));
       let buffer = buffer @ take non_shared (drop shared key) @ val;
       let last_key = take shared last_key_piece @ take non_shared (drop shared key);
       if last_key \<noteq> key then None
       else Some (b\<lparr>bb_buffer := buffer, bb_last_key := last_key, bb_counter := bb_counter b + 1\<rparr>)
     }
   }"

section \<open>Blocks\<close>

record block =
  blk_data :: "byte list"
  blk_size :: nat
  blk_restart_offset :: u32

definition NumRestarts :: "byte list \<Rightarrow> nat \<Rightarrow> u32 option" where
  "NumRestarts data sz = (if sz \<ge> 4 then DecodeFixed32 (drop (sz - 4) data) else None)"

definition Block :: "byte list \<Rightarrow> block option" where
  "Block contents =
     (let sz = length contents
      in if sz < 4 then Some \<lparr>blk_data = contents, blk_size = 0, blk_restart_offset = 0\<rparr>
         else do {
           n \<leftarrow> NumRestarts contents sz;
           let max_restarts_allowed = (sz - 4) div 4;
           if unat n > max_restarts_allowed
           then Some \<lparr>blk_data = contents, blk_size = 0, blk_restart_offset = 0\<rparr>
           else Some \<lparr>blk_data = contents, blk_size = sz,
             blk_restart_offset = of_nat (sz - unat (1 + n) * 4)\<rparr>
         })"

text \<open>
  The entry in front of the bytes between \<open>p\<close> and \<open>limit\<close>: the three numbers and the bytes
  behind them, or nothing for the null pointer.
\<close>

definition DecodeEntry :: "byte list \<Rightarrow> (u32 \<times> u32 \<times> u32 \<times> byte list) option" where
  "DecodeEntry p =
     (if length p < 3 then None
      else do {
        let shared = (ucast (p ! 0) :: u32);
        let non_shared = (ucast (p ! 1) :: u32);
        let value_length = (ucast (p ! 2) :: u32);
        (shared, non_shared, value_length, p) \<leftarrow>
          (if shared OR non_shared OR value_length < 128
           then Some (shared, non_shared, value_length, drop 3 p)
           else do {
             (shared, p) \<leftarrow> GetVarint32Ptr p;
             (non_shared, p) \<leftarrow> GetVarint32Ptr p;
             (value_length, p) \<leftarrow> GetVarint32Ptr p;
             Some (shared, non_shared, value_length, p)
           });
        if (of_nat (length p) :: u32) < non_shared + value_length then None
        else Some (shared, non_shared, value_length, p)
      })"

section \<open>Iterator\<close>

text \<open>
  The value is an offset into the block and a length, or a slice that does not point into the
  block.
\<close>

record block_iter =
  bi_compare :: "byte list \<Rightarrow> byte list \<Rightarrow> int option"
  bi_data :: "byte list"
  bi_restarts :: u32
  bi_num_restarts :: u32
  bi_current :: u32
  bi_restart_index :: u32
  bi_key :: "byte list"
  bi_value :: "(nat \<times> nat) option"
  bi_status :: status

definition new_Iter :: "(byte list \<Rightarrow> byte list \<Rightarrow> int option) \<Rightarrow> byte list \<Rightarrow> u32 \<Rightarrow> u32 \<Rightarrow> block_iter option" where
  "new_Iter compare data restarts num_restarts =
     (if num_restarts > 0
      then Some \<lparr>bi_compare = compare, bi_data = data, bi_restarts = restarts, bi_num_restarts = num_restarts,
        bi_current = restarts, bi_restart_index = num_restarts, bi_key = [], bi_value = None, bi_status = OK\<rparr>
      else None)"

datatype block_iterator = Error_iterator status | Empty_iterator | Block_iterator block_iter

definition Block_NewIterator :: "(byte list \<Rightarrow> byte list \<Rightarrow> int option) \<Rightarrow> block \<Rightarrow> block_iterator option" where
  "Block_NewIterator compare b =
     (if blk_size b < 4 then Some (Error_iterator (Corruption (ascii ''bad block contents'')))
      else do {
        num_restarts \<leftarrow> NumRestarts (blk_data b) (blk_size b);
        if num_restarts = 0 then Some Empty_iterator
        else map_option Block_iterator (new_Iter compare (blk_data b) (blk_restart_offset b) num_restarts)
      })"

definition NextEntryOffset :: "block_iter \<Rightarrow> u32 option" where
  "NextEntryOffset it = map_option (\<lambda>(off, len). of_nat (off + len)) (bi_value it)"

definition GetRestartPoint :: "block_iter \<Rightarrow> u32 \<Rightarrow> u32 option" where
  "GetRestartPoint it index =
     (if index < bi_num_restarts it
      then DecodeFixed32 (drop (unat (bi_restarts it) + unat index * 4) (bi_data it)) else None)"

definition SeekToRestartPoint :: "u32 \<Rightarrow> block_iter \<Rightarrow> block_iter option" where
  "SeekToRestartPoint index it = do {
     offset \<leftarrow> GetRestartPoint it index;
     Some (it\<lparr>bi_key := [], bi_restart_index := index, bi_value := Some (unat offset, 0)\<rparr>)
   }"

definition Iter_Valid :: "block_iter \<Rightarrow> bool" where
  "Iter_Valid it \<longleftrightarrow> bi_current it < bi_restarts it"

definition Iter_key :: "block_iter \<Rightarrow> byte list option" where
  "Iter_key it = (if Iter_Valid it then Some (bi_key it) else None)"

definition Iter_value :: "block_iter \<Rightarrow> byte list option" where
  "Iter_value it = do {
     (off, len) \<leftarrow> bi_value it;
     if Iter_Valid it \<and> off + len \<le> length (bi_data it) then Some (take len (drop off (bi_data it))) else None
   }"

definition CorruptionError :: "block_iter \<Rightarrow> block_iter" where
  "CorruptionError it = it\<lparr>bi_current := bi_restarts it, bi_restart_index := bi_num_restarts it,
     bi_status := Corruption (ascii ''bad entry in block''), bi_key := [], bi_value := None\<rparr>"

text \<open>The bytes between an offset and the restart array.\<close>

definition entries_from :: "block_iter \<Rightarrow> nat \<Rightarrow> byte list" where
  "entries_from it p = take (unat (bi_restarts it) - p) (drop p (bi_data it))"

partial_function (option) restart_index_loop :: "block_iter \<Rightarrow> block_iter option" where
  "restart_index_loop it =
     (if bi_restart_index it + 1 < bi_num_restarts it then do {
        r \<leftarrow> GetRestartPoint it (bi_restart_index it + 1);
        if r < bi_current it
        then restart_index_loop (it\<lparr>bi_restart_index := bi_restart_index it + 1\<rparr>)
        else Some it
      }
      else Some it)"

declare restart_index_loop.simps [code]

definition ParseNextKey :: "block_iter \<Rightarrow> (bool \<times> block_iter) option" where
  "ParseNextKey it = do {
     current \<leftarrow> NextEntryOffset it;
     let it = it\<lparr>bi_current := current\<rparr>;
     if current \<ge> bi_restarts it
     then Some (False, it\<lparr>bi_current := bi_restarts it, bi_restart_index := bi_num_restarts it\<rparr>)
     else (case DecodeEntry (entries_from it (unat current)) of
         None \<Rightarrow> Some (False, CorruptionError it)
       | Some (shared, non_shared, value_length, rest) \<Rightarrow>
           if length (bi_key it) < unat shared then Some (False, CorruptionError it)
           else do {
             let p = unat (bi_restarts it) - length rest;
             if p + unat non_shared \<le> length (bi_data it)
             then do {
               let it = it\<lparr>
                 bi_key := take (unat shared) (bi_key it) @ take (unat non_shared) (drop p (bi_data it)),
                 bi_value := Some (p + unat non_shared, unat value_length)\<rparr>;
               it \<leftarrow> restart_index_loop it;
               Some (True, it)
             }
             else None
           })
   }"

definition Iter_Next :: "block_iter \<Rightarrow> block_iter option" where
  "Iter_Next it = (if Iter_Valid it then map_option snd (ParseNextKey it) else None)"

text \<open>Scans forward until the end of an entry reaches \<open>original\<close>.\<close>

partial_function (option) scan_until :: "u32 \<Rightarrow> block_iter \<Rightarrow> block_iter option" where
  "scan_until original it = do {
     (more_entries, it) \<leftarrow> ParseNextKey it;
     if more_entries then do {
       n \<leftarrow> NextEntryOffset it;
       if n < original then scan_until original it else Some it
     }
     else Some it
   }"

declare scan_until.simps [code]

partial_function (option) Prev_loop :: "u32 \<Rightarrow> block_iter \<Rightarrow> (bool \<times> block_iter) option" where
  "Prev_loop original it = do {
     r \<leftarrow> GetRestartPoint it (bi_restart_index it);
     if r \<ge> original
     then if bi_restart_index it = 0
       then Some (False, it\<lparr>bi_current := bi_restarts it, bi_restart_index := bi_num_restarts it\<rparr>)
       else Prev_loop original (it\<lparr>bi_restart_index := bi_restart_index it - 1\<rparr>)
     else Some (True, it)
   }"

declare Prev_loop.simps [code]

definition Iter_Prev :: "block_iter \<Rightarrow> block_iter option" where
  "Iter_Prev it =
     (if \<not> Iter_Valid it then None
      else do {
        let original = bi_current it;
        (found, it) \<leftarrow> Prev_loop original it;
        if \<not> found then Some it
        else do {
          it \<leftarrow> SeekToRestartPoint (bi_restart_index it) it;
          scan_until original it
        }
      })"

text \<open>The binary search: the restart point, or nothing after an error.\<close>

partial_function (option) Seek_binary ::
  "byte list \<Rightarrow> u32 \<Rightarrow> u32 \<Rightarrow> block_iter \<Rightarrow> (u32 option \<times> block_iter) option" where
  "Seek_binary target left right it =
     (if left < right then do {
        let mid = (left + right + 1) div 2;
        region_offset \<leftarrow> GetRestartPoint it mid;
        (case DecodeEntry (entries_from it (unat region_offset)) of
           None \<Rightarrow> Some (None, CorruptionError it)
         | Some (shared, non_shared, value_length, key_ptr) \<Rightarrow>
             if shared \<noteq> 0 then Some (None, CorruptionError it)
             else do {
               let p = unat (bi_restarts it) - length key_ptr;
               if p + unat non_shared \<le> length (bi_data it)
               then do {
                 r \<leftarrow> bi_compare it (take (unat non_shared) (drop p (bi_data it))) target;
                 if r < 0 then Seek_binary target mid right it
                 else Seek_binary target left (mid - 1) it
               }
               else None
             })
      }
      else Some (Some left, it))"

declare Seek_binary.simps [code]

partial_function (option) Seek_linear :: "byte list \<Rightarrow> block_iter \<Rightarrow> block_iter option" where
  "Seek_linear target it = do {
     (more_entries, it) \<leftarrow> ParseNextKey it;
     if \<not> more_entries then Some it
     else do {
       r \<leftarrow> bi_compare it (bi_key it) target;
       if r \<ge> 0 then Some it else Seek_linear target it
     }
   }"

declare Seek_linear.simps [code]

definition Iter_Seek :: "byte list \<Rightarrow> block_iter \<Rightarrow> block_iter option" where
  "Iter_Seek target it = do {
     (left, it) \<leftarrow> Seek_binary target 0 (bi_num_restarts it - 1) it;
     (case left of
        None \<Rightarrow> Some it
      | Some left \<Rightarrow> do {
          it \<leftarrow> SeekToRestartPoint left it;
          Seek_linear target it
        })
   }"

definition Iter_SeekToFirst :: "block_iter \<Rightarrow> block_iter option" where
  "Iter_SeekToFirst it = do {
     it \<leftarrow> SeekToRestartPoint 0 it;
     map_option snd (ParseNextKey it)
   }"

definition Iter_SeekToLast :: "block_iter \<Rightarrow> block_iter option" where
  "Iter_SeekToLast it = do {
     it \<leftarrow> SeekToRestartPoint (bi_num_restarts it - 1) it;
     scan_until (bi_restarts it) it
   }"

end
