(* ===== verification/Ldb_Block_Cursor.thy ===== *)
theory Ldb_Block_Cursor
  imports Ldb_Block
begin

text \<open>
  What the blocks of \<open>Ldb_Block\<close> contain and where their iterators stand: the builder writes the
  bytes of a list of entries, and the iterator over these bytes is a cursor in the list.
\<close>

section \<open>Entries\<close>

text \<open>An entry: the number of bytes it shares with its predecessor, key and value.\<close>

type_synonym entry = "nat \<times> byte list \<times> byte list"

abbreviation shared_of :: "entry \<Rightarrow> nat" where "shared_of \<equiv> fst"
abbreviation key_of :: "entry \<Rightarrow> byte list" where "key_of e \<equiv> fst (snd e)"
abbreviation value_of :: "entry \<Rightarrow> byte list" where "value_of e \<equiv> snd (snd e)"

definition entry_bytes :: "entry \<Rightarrow> byte list" where
  "entry_bytes e = EncodeVarint32 (of_nat (shared_of e)) @
     EncodeVarint32 (of_nat (length (key_of e) - shared_of e)) @
     EncodeVarint32 (of_nat (length (value_of e))) @ drop (shared_of e) (key_of e) @ value_of e"

definition entries_bytes :: "entry list \<Rightarrow> byte list" where
  "entries_bytes es = concat (map entry_bytes es)"

definition offset :: "entry list \<Rightarrow> nat \<Rightarrow> nat" where
  "offset es i = length (entries_bytes (take i es))"

definition prev_key :: "entry list \<Rightarrow> nat \<Rightarrow> byte list" where
  "prev_key es i = (if i = 0 then [] else key_of (es ! (i - 1)))"

text \<open>Entries that fit together, and the indices of the restart points.\<close>

definition entries_ok :: "entry list \<Rightarrow> bool" where
  "entries_ok es \<longleftrightarrow> (\<forall>i < length es. shared_of (es ! i) \<le> length (key_of (es ! i)) \<and>
     shared_of (es ! i) \<le> length (prev_key es i) \<and>
     take (shared_of (es ! i)) (key_of (es ! i)) = take (shared_of (es ! i)) (prev_key es i))"

definition restarts_ok :: "entry list \<Rightarrow> nat list \<Rightarrow> bool" where
  "restarts_ok es rs \<longleftrightarrow> rs \<noteq> [] \<and> rs ! 0 = 0 \<and> sorted_wrt (<) rs \<and>
     (\<forall>r \<in> set rs. r < length es \<and> shared_of (es ! r) = 0 \<or> r = 0 \<and> es = [])"

definition block_bytes :: "entry list \<Rightarrow> nat list \<Rightarrow> byte list" where
  "block_bytes es rs = entries_bytes es @ concat (map (\<lambda>r. EncodeFixed32 (of_nat (offset es r))) rs) @
     EncodeFixed32 (of_nat (length rs))"

lemma entries_bytes_append [simp]: "entries_bytes (es @ fs) = entries_bytes es @ entries_bytes fs"
  by (simp add: entries_bytes_def)

lemma entries_bytes_simps [simp]: "entries_bytes [] = []" "entries_bytes (e # es) = entry_bytes e @ entries_bytes es"
  by (simp_all add: entries_bytes_def)

lemma offset_0 [simp]: "offset es 0 = 0"
  by (simp add: offset_def)

lemma offset_length [simp]: "offset es (length es) = length (entries_bytes es)"
  by (simp add: offset_def)

lemma offset_append: "i \<le> length es \<Longrightarrow> offset (es @ fs) i = offset es i"
  by (simp add: offset_def)

lemma offset_Suc: "i < length es \<Longrightarrow> offset es (Suc i) = offset es i + length (entry_bytes (es ! i))"
  by (simp add: offset_def take_Suc_conv_app_nth)

lemma EncodeVarint32_nonempty: "0 < length (EncodeVarint32 v)"
  by (simp add: EncodeVarint32_bytes)

lemma entry_bytes_3: "3 \<le> length (entry_bytes e)"
  using EncodeVarint32_nonempty [of "of_nat (shared_of e)"]
    EncodeVarint32_nonempty [of "of_nat (length (key_of e) - shared_of e)"]
    EncodeVarint32_nonempty [of "of_nat (length (value_of e))"]
  unfolding entry_bytes_def length_append by linarith

lemma offset_mono:
  assumes "i < j" "j \<le> length es"
  shows "offset es i < offset es j"
  using assms
proof (induction j)
  case (Suc j)
  have "offset es j < offset es (Suc j)"
    using Suc.prems(2) entry_bytes_3 [of "es ! j"] offset_Suc [of j es] by linarith
  with Suc show ?case by (cases "i = j") auto
qed simp

lemma offset_less_iff: "i \<le> length es \<Longrightarrow> j \<le> length es \<Longrightarrow> offset es i < offset es j \<longleftrightarrow> i < j"
  using offset_mono [of i j es] offset_mono [of j i es] by (cases i j rule: linorder_cases) auto

lemma drop_offset:
  assumes "i < length es"
  shows "drop (offset es i) (entries_bytes es) = entry_bytes (es ! i) @ entries_bytes (drop (Suc i) es)"
proof -
  have "entries_bytes es = entries_bytes (take i es @ es ! i # drop (Suc i) es)"
    using assms by (simp add: id_take_nth_drop [symmetric])
  then show ?thesis by (simp add: offset_def)
qed

section \<open>Decoding an entry\<close>

lemma GetVarint32Ptr_eq: "GetVarint32Ptr = GetVarint32"
  by (simp add: fun_eq_iff GetVarint32_def)

lemma GetVarint32Ptr_put: "GetVarint32Ptr (EncodeVarint32 v @ rest) = Some (v, rest)"
  by (simp add: GetVarint32Ptr_eq varint32_codec.get_put)

lemma GetVarint32Ptr_short: "(ucast b :: u32) AND 128 = 0 \<Longrightarrow> GetVarint32Ptr (b # q) = Some (ucast b, q)"
  by (simp add: GetVarint32Ptr_def)

text \<open>The fast path is only a shortcut.\<close>

lemma DecodeEntry_slow:
  assumes "3 \<le> length p"
  shows "DecodeEntry p = do {
     (shared, p) \<leftarrow> GetVarint32Ptr p;
     (non_shared, p) \<leftarrow> GetVarint32Ptr p;
     (value_length, p) \<leftarrow> GetVarint32Ptr p;
     if (of_nat (length p) :: u32) < non_shared + value_length then None
     else Some (shared, non_shared, value_length, p) }"
proof -
  obtain a b c q where p: "p = a # b # c # q" using assms by (auto simp: Suc_le_length_iff numeral_3_eq_3)
  show ?thesis
  proof (cases "(ucast a :: u32) OR ucast b OR ucast c < 128")
    case True
    then have "unat ((ucast a :: u32) OR ucast b OR ucast c) < 2 ^ 7" by (simp add: word_less_nat_alt)
    then have "\<not> bit ((ucast a :: u32) OR ucast b OR ucast c) 7" using bit_unat_less [of _ 7 7] by blast
    then have "(ucast a :: u32) AND 128 = 0" "(ucast b :: u32) AND 128 = 0" "(ucast c :: u32) AND 128 = 0"
      using and_exp_eq_0_iff_not_bit [of _ 7, where ?'a = "32 word"] by (simp_all add: bit_simps)
    with True show ?thesis by (simp add: DecodeEntry_def p GetVarint32Ptr_short)
  next
    case False
    have "DecodeEntry p = do {
        (shared, non_shared, value_length, p) \<leftarrow> do {
          (shared, p) \<leftarrow> GetVarint32Ptr p;
          (non_shared, p) \<leftarrow> GetVarint32Ptr p;
          (value_length, p) \<leftarrow> GetVarint32Ptr p;
          Some (shared, non_shared, value_length, p)
        };
        if (of_nat (length p) :: u32) < non_shared + value_length then None
        else Some (shared, non_shared, value_length, p) }"
      using False by (simp add: DecodeEntry_def p)
    then show ?thesis by (auto split: Option.bind_split)
  qed
qed

lemma unat_u32: "n < 2 ^ 32 \<Longrightarrow> unat (of_nat n :: u32) = n"
  by (simp add: unat_of_nat take_bit_nat_eq_self_iff)

lemma DecodeEntry_entry:
  assumes "shared_of e \<le> length (key_of e)" "length (entry_bytes e @ ys) < 2 ^ 32"
  shows "DecodeEntry (entry_bytes e @ ys) = Some (of_nat (shared_of e), of_nat (length (key_of e) - shared_of e),
    of_nat (length (value_of e)), drop (shared_of e) (key_of e) @ value_of e @ ys)"
proof -
  have len: "length (key_of e) - shared_of e + length (value_of e) + length ys < 2 ^ 32"
    using assms(2) by (simp add: entry_bytes_def)
  have sum: "(of_nat (length (key_of e) - shared_of e) :: u32) + of_nat (length (value_of e)) =
      of_nat (length (key_of e) - shared_of e + length (value_of e))" by simp
  have "\<not> (of_nat (length (drop (shared_of e) (key_of e) @ value_of e @ ys)) :: u32) <
      of_nat (length (key_of e) - shared_of e) + of_nat (length (value_of e))"
    unfolding sum word_less_nat_alt
    using unat_u32 [of "length (key_of e) - shared_of e + length (value_of e)"]
      unat_u32 [of "length (drop (shared_of e) (key_of e) @ value_of e @ ys)"] len
    by (simp del: of_nat_add)
  moreover have "3 \<le> length (entry_bytes e @ ys)" using entry_bytes_3 [of e] by simp
  ultimately show ?thesis
    by (simp add: DecodeEntry_slow del: bind_Some_iff) (simp add: entry_bytes_def GetVarint32Ptr_put del: bind_Some_iff)
qed

section \<open>Iterators over a block\<close>

text \<open>An iterator over the bytes of a block of less than 4 GB.\<close>

definition iter_rep :: "entry list \<Rightarrow> nat list \<Rightarrow> block_iter \<Rightarrow> bool" where
  "iter_rep es rs it \<longleftrightarrow> entries_ok es \<and> restarts_ok es rs \<and> bi_data it = block_bytes es rs \<and>
     length (block_bytes es rs) < 2 ^ 32 \<and> bi_restarts it = of_nat (length (entries_bytes es)) \<and>
     bi_num_restarts it = of_nat (length rs) \<and> bi_status it = OK"

text \<open>In front of entry \<open>i\<close>, the next to parse; on entry \<open>i\<close>; on no entry.\<close>

definition ready :: "entry list \<Rightarrow> nat list \<Rightarrow> nat \<Rightarrow> block_iter \<Rightarrow> bool" where
  "ready es rs i it \<longleftrightarrow> iter_rep es rs it \<and> i \<le> length es \<and>
     NextEntryOffset it = Some (of_nat (offset es i)) \<and>
     (i < length es \<longrightarrow> shared_of (es ! i) \<le> length (bi_key it) \<and>
       take (shared_of (es ! i)) (bi_key it) = take (shared_of (es ! i)) (key_of (es ! i))) \<and>
     (\<exists>j < length rs. bi_restart_index it = of_nat j \<and> rs ! j \<le> i)"

definition at_entry :: "entry list \<Rightarrow> nat list \<Rightarrow> nat \<Rightarrow> block_iter \<Rightarrow> bool" where
  "at_entry es rs i it \<longleftrightarrow> ready es rs (Suc i) it \<and> i < length es \<and> bi_current it = of_nat (offset es i) \<and>
     bi_key it = key_of (es ! i) \<and>
     bi_value it = Some (offset es (Suc i) - length (value_of (es ! i)), length (value_of (es ! i))) \<and>
     (\<exists>j < length rs. bi_restart_index it = of_nat j \<and> rs ! j \<le> i)"

definition at_end :: "entry list \<Rightarrow> nat list \<Rightarrow> block_iter \<Rightarrow> bool" where
  "at_end es rs it \<longleftrightarrow> iter_rep es rs it \<and> bi_current it = bi_restarts it"

lemma length_block_bytes:
  "length (block_bytes es rs) = length (entries_bytes es) + 4 * length rs + 4"
proof -
  have "length (concat (map (\<lambda>r. EncodeFixed32 (of_nat (offset es r))) rs)) = 4 * length rs"
    by (induction rs) (simp_all add: EncodeFixed32_def)
  then show ?thesis by (simp add: block_bytes_def EncodeFixed32_def)
qed

lemma block_sizes:
  assumes "iter_rep es rs it"
  shows "length (entries_bytes es) + 4 * length rs + 4 < 2 ^ 32"
    "unat (bi_restarts it) = length (entries_bytes es)" "unat (bi_num_restarts it) = length rs"
    "i \<le> length es \<Longrightarrow> offset es i \<le> length (entries_bytes es)"
    "i \<le> length es \<Longrightarrow> unat (of_nat (offset es i) :: u32) = offset es i"
proof -
  show size: "length (entries_bytes es) + 4 * length rs + 4 < 2 ^ 32"
    using assms by (simp add: iter_rep_def length_block_bytes)
  then show "unat (bi_restarts it) = length (entries_bytes es)" "unat (bi_num_restarts it) = length rs"
    using assms unat_u32 by (simp_all add: iter_rep_def)
  show le: "offset es i \<le> length (entries_bytes es)" if "i \<le> length es"
    using offset_mono [of i "length es" es] that by (cases "i = length es") auto
  show "unat (of_nat (offset es i) :: u32) = offset es i" if "i \<le> length es"
    using le [OF that] size by (intro unat_u32) simp
qed

lemma drop_fixed:
  "j < length ns \<Longrightarrow> DecodeFixed32 (drop (j * 4) (concat (map EncodeFixed32 ns) @ ys)) = Some (ns ! j)"
proof (induction ns arbitrary: j)
  case (Cons n ns)
  show ?case
  proof (cases j)
    case 0
    then show ?thesis by (simp add: DecodeFixed32_append)
  next
    case (Suc i)
    have "drop (j * 4) (EncodeFixed32 n @ zs) = drop (i * 4) zs" for zs
      using Suc by (simp add: EncodeFixed32_def)
    then have "drop (j * 4) (concat (map EncodeFixed32 (n # ns)) @ ys) = drop (i * 4) (concat (map EncodeFixed32 ns) @ ys)"
      by (simp only: list.map concat.simps append_assoc)
    moreover have "DecodeFixed32 (drop (i * 4) (concat (map EncodeFixed32 ns) @ ys)) = Some (ns ! i)"
      using Cons.prems Suc by (intro Cons.IH) simp
    ultimately show ?thesis by (simp only: Suc nth_Cons_Suc)
  qed
qed simp

lemma GetRestartPoint_at:
  assumes "iter_rep es rs it" "j < length rs"
  shows "GetRestartPoint it (of_nat j) = Some (of_nat (offset es (rs ! j)))"
proof -
  note sizes = block_sizes [OF assms(1)]
  have j: "unat (of_nat j :: u32) = j" using sizes(1) assms(2) by (intro unat_u32) simp
  have "DecodeFixed32 (drop (j * 4) (concat (map EncodeFixed32 (map (\<lambda>r. of_nat (offset es r)) rs)) @
      EncodeFixed32 (of_nat (length rs)))) = Some (of_nat (offset es (rs ! j)))"
    using assms(2) drop_fixed [of j "map (\<lambda>r. of_nat (offset es r)) rs"] by simp
  then have "DecodeFixed32 (drop (length (entries_bytes es) + j * 4) (block_bytes es rs)) =
      Some (of_nat (offset es (rs ! j)))"
    by (simp add: block_bytes_def comp_def)
  then show ?thesis
    using assms sizes by (simp add: GetRestartPoint_def iter_rep_def j word_less_nat_alt)
qed

lemma restart_le:
  assumes "restarts_ok es rs" "j < length rs"
  shows "rs ! j \<le> length es" "es \<noteq> [] \<Longrightarrow> rs ! j < length es" "rs ! j < length es \<Longrightarrow> shared_of (es ! (rs ! j)) = 0"
proof -
  have "rs ! j \<in> set rs" using assms(2) by simp
  with assms(1) show "rs ! j \<le> length es" "es \<noteq> [] \<Longrightarrow> rs ! j < length es"
    "rs ! j < length es \<Longrightarrow> shared_of (es ! (rs ! j)) = 0"
    by (fastforce simp: restarts_ok_def)+
qed

lemma iter_rep_update [simp]:
  "iter_rep es rs (it\<lparr>bi_restart_index := j\<rparr>) = iter_rep es rs it"
  "iter_rep es rs (it\<lparr>bi_key := k\<rparr>) = iter_rep es rs it"
  "iter_rep es rs (it\<lparr>bi_value := v\<rparr>) = iter_rep es rs it"
  "iter_rep es rs (it\<lparr>bi_current := c\<rparr>) = iter_rep es rs it"
  by (simp_all add: iter_rep_def)

lemma SeekToRestartPoint_ready:
  assumes "iter_rep es rs it" "j < length rs"
  obtains it' where "SeekToRestartPoint (of_nat j) it = Some it'" "ready es rs (rs ! j) it'"
    "bi_compare it' = bi_compare it"
proof -
  have ok: "restarts_ok es rs" using assms(1) by (simp add: iter_rep_def)
  note le = restart_le [OF ok assms(2)]
  let ?it = "it\<lparr>bi_key := [], bi_restart_index := of_nat j, bi_value := Some (offset es (rs ! j), 0)\<rparr>"
  have "ready es rs (rs ! j) ?it"
    using assms le by (auto simp: ready_def NextEntryOffset_def)
  moreover have "SeekToRestartPoint (of_nat j) it = Some ?it"
    using GetRestartPoint_at [OF assms] block_sizes(5) [OF assms(1) le(1)] by (simp add: SeekToRestartPoint_def)
  ultimately show thesis using that by simp
qed

text \<open>Bringing the restart index up to date.\<close>

lemma restart_index_loop_at:
  assumes "iter_rep es rs it" "j < length rs" "bi_restart_index it = of_nat j" "rs ! j \<le> i"
    "bi_current it = of_nat (offset es i)" "i \<le> length es"
  shows "\<exists>j' < length rs. restart_index_loop it = Some (it\<lparr>bi_restart_index := of_nat j'\<rparr>) \<and> rs ! j' \<le> i"
  using assms
proof (induction "length rs - j" arbitrary: j it rule: less_induct)
  case less
  note sizes = block_sizes [OF less.prems(1)]
  have next1: "bi_restart_index it + 1 = of_nat (Suc j)" using less.prems(3) by simp
  have more: "bi_restart_index it + 1 < bi_num_restarts it \<longleftrightarrow> Suc j < length rs"
    unfolding next1 word_less_nat_alt sizes(3) using sizes(1) less.prems(2) by (subst unat_u32) simp_all
  have same: "it\<lparr>bi_restart_index := of_nat j\<rparr> = it" using less.prems(3) by simp
  show ?case
  proof (cases "Suc j < length rs")
    case False
    then have "restart_index_loop it = Some it" using more by (simp add: restart_index_loop.simps [of it])
    with less.prems(2,4) same show ?thesis by (intro exI [of _ j]) simp
  next
    case True
    have ok: "restarts_ok es rs" using less.prems(1) by (simp add: iter_rep_def)
    note r = GetRestartPoint_at [OF less.prems(1) True]
    have lt: "(of_nat (offset es (rs ! Suc j)) :: u32) < bi_current it \<longleftrightarrow> rs ! Suc j < i"
      using sizes(5) [OF restart_le(1) [OF ok True]] sizes(5) [OF less.prems(6)] less.prems(5,6)
        offset_less_iff [OF restart_le(1) [OF ok True] less.prems(6)]
      by (simp add: word_less_nat_alt)
    have unf: "restart_index_loop it = (if rs ! Suc j < i
        then restart_index_loop (it\<lparr>bi_restart_index := of_nat (Suc j)\<rparr>) else Some it)"
      using more True r lt by (simp add: restart_index_loop.simps [of it] next1 del: of_nat_Suc)
    show ?thesis
    proof (cases "rs ! Suc j < i")
      case False
      with unf less.prems(2,4) same show ?thesis by (intro exI [of _ j]) simp
    next
      case go: True
      have "\<exists>j' < length rs. restart_index_loop (it\<lparr>bi_restart_index := of_nat (Suc j)\<rparr>) =
          Some (it\<lparr>bi_restart_index := of_nat (Suc j)\<rparr>\<lparr>bi_restart_index := of_nat j'\<rparr>) \<and> rs ! j' \<le> i"
        using True go less.prems by (intro less.hyps [of "Suc j"]) (simp_all del: of_nat_Suc)
      with unf go show ?thesis by simp
    qed
  qed
qed

section \<open>Parsing\<close>

lemma entry_at:
  assumes "iter_rep es rs it" "i < length es"
  shows "entries_from it (offset es i) = entry_bytes (es ! i) @ entries_bytes (drop (Suc i) es)"
    "take n (drop (offset es i) (bi_data it)) =
       take n (entry_bytes (es ! i) @ entries_bytes (drop (Suc i) es) @ drop (length (entries_bytes es)) (bi_data it))"
proof -
  note sizes = block_sizes [OF assms(1)]
  have le: "offset es i \<le> length (entries_bytes es)" using sizes(4) assms(2) by simp
  have data: "bi_data it = entries_bytes es @ drop (length (entries_bytes es)) (bi_data it)"
    using assms(1) by (simp add: iter_rep_def block_bytes_def)
  have d: "drop (offset es i) (bi_data it) =
      entry_bytes (es ! i) @ entries_bytes (drop (Suc i) es) @ drop (length (entries_bytes es)) (bi_data it)"
    by (subst data) (simp add: le drop_offset [OF assms(2)])
  then show "take n (drop (offset es i) (bi_data it)) =
      take n (entry_bytes (es ! i) @ entries_bytes (drop (Suc i) es) @ drop (length (entries_bytes es)) (bi_data it))"
    by simp
  have "length (entries_bytes es) - offset es i = length (entry_bytes (es ! i) @ entries_bytes (drop (Suc i) es))"
    using arg_cong [OF drop_offset [OF assms(2)], of length] by simp
  with d show "entries_from it (offset es i) = entry_bytes (es ! i) @ entries_bytes (drop (Suc i) es)"
    by (simp add: entries_from_def sizes(2))
qed

text \<open>Where the delta of the key and the value of an entry lie.\<close>

lemma entry_end:
  assumes "iter_rep es rs it" "i < length es"
  shows "length (entries_bytes es) - length (entries_bytes (drop (Suc i) es)) = offset es (Suc i)"
    "offset es (Suc i) + length (entries_bytes (drop (Suc i) es)) = length (entries_bytes es)"
    "drop (offset es (Suc i) - length (drop (shared_of (es ! i)) (key_of (es ! i)) @ value_of (es ! i))) (bi_data it) =
      drop (shared_of (es ! i)) (key_of (es ! i)) @ value_of (es ! i) @ drop (offset es (Suc i)) (bi_data it)"
    "length (drop (shared_of (es ! i)) (key_of (es ! i)) @ value_of (es ! i)) \<le> offset es (Suc i)"
proof -
  let ?e = "es ! i" and ?n = "offset es (Suc i)"
  have split: "entries_bytes es = entries_bytes (take (Suc i) es) @ entries_bytes (drop (Suc i) es)"
    by (metis append_take_drop_id entries_bytes_append)
  then have len: "length (entries_bytes es) = ?n + length (entries_bytes (drop (Suc i) es))"
    using arg_cong [OF split, of length] by (simp add: offset_def)
  then show "length (entries_bytes es) - length (entries_bytes (drop (Suc i) es)) = ?n"
    "?n + length (entries_bytes (drop (Suc i) es)) = length (entries_bytes es)" by simp_all
  obtain hs where e: "entry_bytes ?e = hs @ drop (shared_of ?e) (key_of ?e) @ value_of ?e"
    by (auto simp: entry_bytes_def)
  have n: "?n = offset es i + length (entry_bytes ?e)" by (rule offset_Suc [OF assms(2)])
  then show "length (drop (shared_of ?e) (key_of ?e) @ value_of ?e) \<le> ?n" by (simp add: e)
  have data: "bi_data it = (entries_bytes (take i es) @ hs) @ drop (shared_of ?e) (key_of ?e) @ value_of ?e @
      drop ?n (bi_data it)"
  proof -
    have "bi_data it = entries_bytes (take (Suc i) es) @ drop ?n (bi_data it)"
      using assms(1) split by (simp add: iter_rep_def block_bytes_def offset_def)
    then show ?thesis using assms(2) by (simp add: take_Suc_conv_app_nth e)
  qed
  have "?n - length (drop (shared_of ?e) (key_of ?e) @ value_of ?e) = length (entries_bytes (take i es) @ hs)"
    by (simp only: n) (simp add: e offset_def)
  then show "drop (?n - length (drop (shared_of ?e) (key_of ?e) @ value_of ?e)) (bi_data it) =
      drop (shared_of ?e) (key_of ?e) @ value_of ?e @ drop ?n (bi_data it)"
    using data by (metis append_eq_conv_conj)
qed

text \<open>A shared prefix is never longer than what was written of the keys.\<close>

lemma key_small:
  assumes "entries_ok es" "i < length es"
  shows "length (key_of (es ! i)) \<le> offset es (Suc i)"
  using assms(2)
proof (induction i)
  case 0
  with assms(1) have "shared_of (es ! 0) = 0" by (force simp: entries_ok_def prev_key_def)
  with 0 show ?case by (simp add: offset_Suc) (simp add: entry_bytes_def)
next
  case (Suc i)
  then have "shared_of (es ! Suc i) \<le> length (key_of (es ! i))"
    using assms(1) by (force simp: entries_ok_def prev_key_def)
  also have "\<dots> \<le> offset es (Suc i)" using Suc by simp
  finally show ?case using Suc.prems by (simp add: offset_Suc [of "Suc i"]) (simp add: entry_bytes_def)
qed

lemma shared_small:
  assumes "iter_rep es rs it" "i < length es"
  shows "shared_of (es ! i) < 2 ^ 32"
proof -
  have ok: "entries_ok es" using assms(1) by (simp add: iter_rep_def)
  then have "shared_of (es ! i) \<le> length (key_of (es ! i))" using assms(2) by (simp add: entries_ok_def)
  also have "\<dots> \<le> offset es (Suc i)" by (rule key_small [OF ok assms(2)])
  also have "\<dots> \<le> length (entries_bytes es)" using block_sizes(4) [OF assms(1)] assms(2) by simp
  finally show ?thesis using block_sizes(1) [OF assms(1)] by simp
qed

lemma ParseNextKey_step:
  assumes "NextEntryOffset it = Some c" "c < bi_restarts it"
    "DecodeEntry (entries_from (it\<lparr>bi_current := c\<rparr>) (unat c)) = Some (s, n, v, rest)"
    "unat s \<le> length (bi_key it)" "p = unat (bi_restarts it) - length rest" "p + unat n \<le> length (bi_data it)"
    "restart_index_loop (it\<lparr>bi_current := c, bi_key := take (unat s) (bi_key it) @ take (unat n) (drop p (bi_data it)),
       bi_value := Some (p + unat n, unat v)\<rparr>) = Some it'"
  shows "ParseNextKey it = Some (True, it')"
  using assms by (simp add: ParseNextKey_def Let_def not_le not_less del: bind_Some_iff)

lemma ParseNextKey_end:
  assumes "NextEntryOffset it = Some c" "bi_restarts it \<le> c"
  shows "ParseNextKey it = Some (False, it\<lparr>bi_current := bi_restarts it, bi_restart_index := bi_num_restarts it\<rparr>)"
  using assms by (simp add: ParseNextKey_def Let_def del: bind_Some_iff)

lemma ParseNextKey_entry:
  assumes "ready es rs i it" "i < length es"
  obtains it' where "ParseNextKey it = Some (True, it')" "at_entry es rs i it'" "bi_compare it' = bi_compare it"
proof -
  let ?e = "es ! i"
  have rep: "iter_rep es rs it" and off: "NextEntryOffset it = Some (of_nat (offset es i))"
    and key: "shared_of ?e \<le> length (bi_key it)"
      "take (shared_of ?e) (bi_key it) = take (shared_of ?e) (key_of ?e)"
    using assms by (simp_all add: ready_def)
  obtain j where j: "j < length rs" "bi_restart_index it = of_nat j" "rs ! j \<le> i"
    using assms(1) by (auto simp: ready_def)
  note sizes = block_sizes [OF rep] and ends = entry_end [OF rep assms(2)]
  have ok: "entries_ok es" using rep by (simp add: iter_rep_def)
  have sh: "shared_of ?e \<le> length (key_of ?e)" using ok assms(2) by (simp add: entries_ok_def)
  let ?it1 = "it\<lparr>bi_current := of_nat (offset es i)\<rparr>"
  have rep1: "iter_rep es rs ?it1" using rep by simp
  have i: "i \<le> length es" using assms(2) by simp
  have cur: "\<not> bi_restarts it \<le> of_nat (offset es i)"
    using offset_mono [OF assms(2) order_refl] sizes(5) [OF i] by (simp add: word_le_nat_alt sizes(2) not_le)
  have tail: "length (entry_bytes ?e @ entries_bytes (drop (Suc i) es)) < 2 ^ 32"
    using sizes(1) ends(2) offset_Suc [OF assms(2)] by simp
  have small: "shared_of ?e < 2 ^ 32" "length (key_of ?e) - shared_of ?e < 2 ^ 32" "length (value_of ?e) < 2 ^ 32"
  proof -
    show "length (key_of ?e) - shared_of ?e < 2 ^ 32" "length (value_of ?e) < 2 ^ 32"
      using tail by (simp_all add: entry_bytes_def)
    show "shared_of ?e < 2 ^ 32" using shared_small [OF rep assms(2)] .
  qed
  let ?p = "offset es (Suc i) - length (drop (shared_of ?e) (key_of ?e) @ value_of ?e)"
  let ?rest = "drop (shared_of ?e) (key_of ?e) @ value_of ?e @ entries_bytes (drop (Suc i) es)"
  have p: "unat (bi_restarts it) - length ?rest = ?p" using ends(2,4) by (simp add: sizes(2))
  have room: "?p + (length (key_of ?e) - shared_of ?e) \<le> length (bi_data it)"
    using ends(2,4) rep by (simp add: iter_rep_def length_block_bytes)
  let ?it2 = "?it1\<lparr>bi_key := key_of ?e, bi_value := Some (offset es (Suc i) - length (value_of ?e), length (value_of ?e))\<rparr>"
  have newkey: "take (shared_of ?e) (bi_key it) @ take (length (key_of ?e) - shared_of ?e) (drop ?p (bi_data it)) = key_of ?e"
    unfolding key(2) ends(3) by simp
  have newval: "?p + (length (key_of ?e) - shared_of ?e) = offset es (Suc i) - length (value_of ?e)"
    using ends(4) by simp
  have "\<exists>j' < length rs. restart_index_loop ?it2 = Some (?it2\<lparr>bi_restart_index := of_nat j'\<rparr>) \<and> rs ! j' \<le> i"
    using rep j i by (intro restart_index_loop_at [where j = j]) simp_all
  then obtain j' where j': "j' < length rs" "restart_index_loop ?it2 = Some (?it2\<lparr>bi_restart_index := of_nat j'\<rparr>)"
      "rs ! j' \<le> i" by blast
  have dec: "DecodeEntry (entries_from ?it1 (offset es i)) = Some (of_nat (shared_of ?e),
      of_nat (length (key_of ?e) - shared_of ?e), of_nat (length (value_of ?e)), ?rest)"
    unfolding entry_at(1) [OF rep1 assms(2)] by (rule DecodeEntry_entry [OF sh tail])
  have "ParseNextKey it = Some (True, ?it2\<lparr>bi_restart_index := of_nat j'\<rparr>)"
  proof (rule ParseNextKey_step [OF off])
    show "of_nat (offset es i) < bi_restarts it" using cur by simp
    show "DecodeEntry (entries_from ?it1 (unat (of_nat (offset es i) :: u32))) = Some (of_nat (shared_of ?e),
        of_nat (length (key_of ?e) - shared_of ?e), of_nat (length (value_of ?e)), ?rest)"
      unfolding sizes(5) [OF i] by (rule dec)
    show "unat (of_nat (shared_of ?e) :: u32) \<le> length (bi_key it)"
      unfolding unat_u32 [OF small(1)] by (rule key(1))
    show "?p = unat (bi_restarts it) - length ?rest" by (rule p [symmetric])
    show "?p + unat (of_nat (length (key_of ?e) - shared_of ?e) :: u32) \<le> length (bi_data it)"
      unfolding unat_u32 [OF small(2)] by (rule room)
    show "restart_index_loop (?it1\<lparr>
        bi_key := take (unat (of_nat (shared_of ?e) :: u32)) (bi_key it) @
          take (unat (of_nat (length (key_of ?e) - shared_of ?e) :: u32)) (drop ?p (bi_data it)),
        bi_value := Some (?p + unat (of_nat (length (key_of ?e) - shared_of ?e) :: u32),
          unat (of_nat (length (value_of ?e)) :: u32))\<rparr>) = Some (?it2\<lparr>bi_restart_index := of_nat j'\<rparr>)"
      unfolding unat_u32 [OF small(1)] unat_u32 [OF small(2)] unat_u32 [OF small(3)] newkey newval by (rule j'(2))
  qed
  moreover have "at_entry es rs i (?it2\<lparr>bi_restart_index := of_nat j'\<rparr>)"
  proof -
    have next_ok: "shared_of (es ! Suc i) \<le> length (key_of ?e)"
        "take (shared_of (es ! Suc i)) (key_of ?e) = take (shared_of (es ! Suc i)) (key_of (es ! Suc i))"
      if "Suc i < length es"
      using ok [unfolded entries_ok_def, rule_format, OF that] by (simp_all add: prev_key_def)
    show ?thesis
      using rep j' next_ok assms(2) ends(4)
      by (auto simp: at_entry_def ready_def NextEntryOffset_def intro: le_SucI)
  qed
  ultimately show thesis using that by simp
qed

end
