(* ===== verification/Ldb_Iterator.thy ===== *)
theory Ldb_Iterator
  imports Ldb_Comparator
begin

text \<open>
  What the class \<open>Iterator\<close> of LevelDB promises (\<open>include/leveldb/iterator.h\<close>), as a locale: an
  iterator is a cursor in a list of keys and values that is sorted by a comparator.  Position
  \<open>length xs\<close> stands for an iterator that is not valid.  Every iterator of the engine that is
  modelled is an instance.
\<close>

definition ordered :: "('k \<Rightarrow> bool) \<Rightarrow> ('k \<Rightarrow> 'k \<Rightarrow> int option) \<Rightarrow> ('k \<times> 'v) list \<Rightarrow> bool" where
  "ordered ok compare xs \<longleftrightarrow> sorted_wrt (below compare) (map fst xs) \<and> (\<forall>k \<in> fst ` set xs. ok k)"

text \<open>The position of the first key that is not below a target.\<close>

definition lower_bound :: "('k \<Rightarrow> 'k \<Rightarrow> int option) \<Rightarrow> 'k \<Rightarrow> ('k \<times> 'v) list \<Rightarrow> nat" where
  "lower_bound compare target xs = length (takeWhile (\<lambda>x. below compare (fst x) target) xs)"

lemma lower_bound_le [simp]: "lower_bound compare target xs \<le> length xs"
  by (simp add: lower_bound_def length_takeWhile_le)

lemma lower_bound_below: "i < lower_bound compare target xs \<Longrightarrow> below compare (fst (xs ! i)) target"
  unfolding lower_bound_def by (metis nth_mem set_takeWhileD takeWhile_nth)

lemma lower_bound_reached:
  "lower_bound compare target xs < length xs \<Longrightarrow> \<not> below compare (fst (xs ! lower_bound compare target xs)) target"
  unfolding lower_bound_def by (rule nth_length_takeWhile)

lemma lower_bound_eqI:
  assumes "\<And>j. j < i \<Longrightarrow> below compare (fst (xs ! j)) target" "i \<le> length xs"
    "i < length xs \<Longrightarrow> \<not> below compare (fst (xs ! i)) target"
  shows "lower_bound compare target xs = i"
proof (cases "lower_bound compare target xs" i rule: linorder_cases)
  case less
  with assms(1,2) lower_bound_reached [of compare target xs] show ?thesis by simp
next
  case greater
  with lower_bound_below [OF greater] assms(3) lower_bound_le [of compare target xs] show ?thesis by simp
qed simp

definition insert_sorted :: "('k \<Rightarrow> 'k \<Rightarrow> int option) \<Rightarrow> 'k \<times> 'v \<Rightarrow> ('k \<times> 'v) list \<Rightarrow> ('k \<times> 'v) list" where
  "insert_sorted compare x xs = (let n = lower_bound compare (fst x) xs in take n xs @ x # drop n xs)"

context key_order
begin

text \<open>In a sorted list everything before a smaller key is smaller.\<close>

lemma ordered_below:
  assumes "ordered ok compare xs" "ok target" "j \<le> i" "i < length xs" "below compare (fst (xs ! i)) target"
  shows "below compare (fst (xs ! j)) target"
proof (cases "j = i")
  case False
  with assms(3) have "j < i" by simp
  with assms(1,4) have "below compare (fst (xs ! j)) (fst (xs ! i))"
    by (auto simp: ordered_def sorted_wrt_iff_nth_less)
  moreover have "ok (fst (xs ! j))" "ok (fst (xs ! i))" using assms(1,4) \<open>j < i\<close> by (auto simp: ordered_def)
  ultimately show ?thesis using trans assms(2,5) by blast
qed (use assms in simp)

lemma above_bound:
  assumes "ordered ok compare xs" "ok target" "lower_bound compare target xs \<le> i" "i < length xs"
  shows "\<not> below compare (fst (xs ! i)) target"
  using ordered_below [OF assms(1,2,3,4)] lower_bound_reached [of compare target xs] assms(3,4) by auto

lemma set_insert_sorted: "set (insert_sorted compare x xs) = insert x (set xs)"
proof -
  have "set (take n xs) \<union> set (drop n xs) = set xs" for n by (metis append_take_drop_id set_append)
  then show ?thesis by (auto simp: insert_sorted_def Let_def)
qed

lemma ordered_insert_sorted:
  assumes "ordered ok compare xs" "ok (fst x)" "fst x \<notin> fst ` set xs"
  shows "ordered ok compare (insert_sorted compare x xs)"
proof -
  let ?n = "lower_bound compare (fst x) xs"
  have sorted: "sorted_wrt (below compare) (map fst (take ?n xs) @ map fst (drop ?n xs))"
    using assms(1) by (simp add: ordered_def flip: map_append)
  have oks: "\<forall>k \<in> fst ` set xs. ok k" using assms(1) by (simp add: ordered_def)
  have less: "below compare k (fst x)" if "k \<in> set (map fst (take ?n xs))" for k
    using that lower_bound_below [of _ compare "fst x" xs] by (force simp: in_set_conv_nth)
  have greater: "below compare (fst x) k" if k: "k \<in> set (map fst (drop ?n xs))" for k
  proof -
    obtain y where "y \<in> set (drop ?n xs)" "k = fst y" using k by auto
    then obtain j where "j < length (drop ?n xs)" "k = fst (drop ?n xs ! j)"
      unfolding in_set_conv_nth by blast
    then have j: "?n + j < length xs" "k = fst (xs ! (?n + j))" by simp_all
    then have mem: "k \<in> fst ` set xs" by (metis image_eqI nth_mem)
    then have "ok k" "k \<noteq> fst x" using oks assms(3) by blast+
    moreover have "\<not> below compare k (fst x)" using above_bound [OF assms(1,2), of "?n + j"] j by simp
    ultimately show ?thesis using not_below assms(2) by blast
  qed
  have "sorted_wrt (below compare) (map fst (insert_sorted compare x xs))"
    using sorted less greater trans assms(2) oks
    by (auto simp: insert_sorted_def Let_def sorted_wrt_append dest: in_set_takeD in_set_dropD)
  moreover have "\<forall>k \<in> fst ` set (insert_sorted compare x xs). ok k"
    using oks assms(2) by (simp add: set_insert_sorted)
  ultimately show ?thesis by (simp add: ordered_def)
qed

lemma compare_nonneg:
  assumes "ok a" "ok b" "compare a b = Some r"
  shows "0 \<le> r \<longleftrightarrow> \<not> below compare a b"
  using assms by (auto simp: below_def)

end

locale iterator = key_order ok compare
  for ok :: "'k \<Rightarrow> bool" and compare :: "'k \<Rightarrow> 'k \<Rightarrow> int option" +
  fixes stands :: "'it \<Rightarrow> ('k \<times> 'v) list \<Rightarrow> nat \<Rightarrow> bool"
    and Valid :: "'it \<Rightarrow> bool" and key :: "'it \<Rightarrow> 'k option" and val :: "'it \<Rightarrow> 'v option"
    and Next :: "'it \<Rightarrow> 'it option" and Prev :: "'it \<Rightarrow> 'it option" and Seek :: "'k \<Rightarrow> 'it \<Rightarrow> 'it option"
    and SeekToFirst :: "'it \<Rightarrow> 'it option" and SeekToLast :: "'it \<Rightarrow> 'it option"
  assumes position: "stands it xs i \<Longrightarrow> i \<le> length xs \<and> ordered ok compare xs"
    and Valid: "stands it xs i \<Longrightarrow> Valid it \<longleftrightarrow> i < length xs"
    and entry: "stands it xs i \<Longrightarrow> i < length xs \<Longrightarrow> key it = Some (fst (xs ! i)) \<and> val it = Some (snd (xs ! i))"
    and Next: "stands it xs i \<Longrightarrow> i < length xs \<Longrightarrow> \<exists>it'. Next it = Some it' \<and> stands it' xs (Suc i)"
    and Prev: "stands it xs i \<Longrightarrow> i < length xs \<Longrightarrow>
      \<exists>it'. Prev it = Some it' \<and> stands it' xs (if i = 0 then length xs else i - 1)"
    and Seek: "stands it xs i \<Longrightarrow> ok target \<Longrightarrow>
      \<exists>it'. Seek target it = Some it' \<and> stands it' xs (lower_bound compare target xs)"
    and SeekToFirst: "stands it xs i \<Longrightarrow> \<exists>it'. SeekToFirst it = Some it' \<and> stands it' xs 0"
    and SeekToLast: "stands it xs i \<Longrightarrow> \<exists>it'. SeekToLast it = Some it' \<and> stands it' xs (length xs - 1)"

text \<open>What the entries from the cursor on are; \<open>None\<close> if an operation fails or \<open>n\<close> steps do not suffice.\<close>

primrec scan :: "('it \<Rightarrow> bool) \<Rightarrow> ('it \<Rightarrow> 'k option) \<Rightarrow> ('it \<Rightarrow> 'v option) \<Rightarrow> ('it \<Rightarrow> 'it option) \<Rightarrow>
    nat \<Rightarrow> 'it \<Rightarrow> ('k \<times> 'v) list option" where
  "scan valid key val move 0 it = (if valid it then None else Some [])"
| "scan valid key val move (Suc n) it =
     (if valid it then do {
        k \<leftarrow> key it;
        v \<leftarrow> val it;
        it \<leftarrow> move it;
        xs \<leftarrow> scan valid key val move n it;
        Some ((k, v) # xs)
      }
      else Some [])"

context iterator
begin

lemma forward:
  "stands it xs i \<Longrightarrow> length xs - i \<le> n \<Longrightarrow> scan Valid key val Next n it = Some (drop i xs)"
proof (induction n arbitrary: it i)
  case 0
  then show ?case using position Valid by fastforce
next
  case (Suc n)
  show ?case
  proof (cases "i < length xs")
    case True
    obtain it' where it': "Next it = Some it'" "stands it' xs (Suc i)" using Next [OF Suc.prems(1) True] by blast
    have "scan Valid key val Next n it' = Some (drop (Suc i) xs)"
      using it'(2) Suc.prems(2) by (intro Suc.IH) simp_all
    then show ?thesis
      using Valid [OF Suc.prems(1)] entry [OF Suc.prems(1) True] True it'(1)
      by (simp add: Cons_nth_drop_Suc del: bind_Some_iff)
  qed (use Suc.prems Valid in simp)
qed

lemma backward:
  "stands it xs i \<Longrightarrow> i < length xs \<Longrightarrow> i < n \<Longrightarrow>
    scan Valid key val Prev n it = Some (rev (take (Suc i) xs))"
proof (induction n arbitrary: it i)
  case (Suc n)
  obtain it' where it': "Prev it = Some it'" "stands it' xs (if i = 0 then length xs else i - 1)"
    using Prev [OF Suc.prems(1,2)] by blast
  have rest: "scan Valid key val Prev n it' = Some (rev (take i xs))"
  proof (cases i)
    case 0
    then show ?thesis using it'(2) Valid by (cases n) auto
  next
    case (Suc j)
    with it'(2) Suc.IH [of it' j] Suc.prems show ?thesis by simp
  qed
  show ?case
    using Valid [OF Suc.prems(1)] entry [OF Suc.prems(1,2)] Suc.prems(2) it'(1) rest
    by (simp add: take_Suc_conv_app_nth del: bind_Some_iff)
qed simp

text \<open>A whole pass in either direction, and one from a target.\<close>

lemma first_to_last:
  assumes "stands it xs i"
  shows "Option.bind (SeekToFirst it) (scan Valid key val Next (length xs)) = Some xs"
proof -
  obtain it' where "SeekToFirst it = Some it'" "stands it' xs 0" using SeekToFirst [OF assms] by blast
  then show ?thesis using forward [of it' xs 0 "length xs"] by (simp del: bind_Some_iff)
qed

lemma last_to_first:
  assumes "stands it xs i"
  shows "Option.bind (SeekToLast it) (scan Valid key val Prev (length xs)) = Some (rev xs)"
proof -
  obtain it' where it': "SeekToLast it = Some it'" "stands it' xs (length xs - 1)"
    using SeekToLast [OF assms] by blast
  show ?thesis
  proof (cases xs)
    case Nil
    then show ?thesis using it' Valid [OF it'(2)] by (simp del: bind_Some_iff)
  next
    case (Cons x ys)
    then show ?thesis using it' backward [OF it'(2), of "length xs"] by (simp del: bind_Some_iff)
  qed
qed

lemma from_target:
  assumes "stands it xs i" "ok target"
  shows "Option.bind (Seek target it) (scan Valid key val Next (length xs)) =
    Some (filter (\<lambda>x. \<not> below compare (fst x) target) xs)"
proof -
  let ?n = "lower_bound compare target xs"
  have sorted: "ordered ok compare xs" using position [OF assms(1)] by simp
  obtain it' where "Seek target it = Some it'" "stands it' xs ?n" using Seek [OF assms] by blast
  then have "Option.bind (Seek target it) (scan Valid key val Next (length xs)) = Some (drop ?n xs)"
    using forward [of it' xs ?n "length xs"] by (simp del: bind_Some_iff)
  moreover have "filter (\<lambda>x. \<not> below compare (fst x) target) (take ?n xs) = []"
    using lower_bound_below by (fastforce simp: filter_empty_conv in_set_conv_nth)
  moreover have "filter (\<lambda>x. \<not> below compare (fst x) target) (drop ?n xs) = drop ?n xs"
  proof (rule filter_True, rule ballI)
    fix x assume "x \<in> set (drop ?n xs)"
    then obtain j where j: "?n + j < length xs" "x = xs ! (?n + j)" by (auto simp: in_set_conv_nth less_diff_conv add.commute)
    then have "\<not> below compare (fst (xs ! ?n)) target" by (intro lower_bound_reached) simp
    then show "\<not> below compare (fst x) target"
      using ordered_below [OF sorted assms(2), of ?n "?n + j"] j by auto
  qed
  ultimately show ?thesis by (metis append_Nil append_take_drop_id filter_append)
qed

end

end
