(* ===== verification/Ldb_Block_Iter.thy ===== *)
theory Ldb_Block_Iter
  imports Ldb_Block_Cursor Ldb_Iterator
begin

text \<open>
  The iterator over a well-formed block is an \<open>iterator\<close> over the entries of the block, whatever
  the comparator that sorts them.
\<close>

definition cursor :: "entry list \<Rightarrow> nat list \<Rightarrow> block_iter \<Rightarrow> nat \<Rightarrow> bool" where
  "cursor es rs it i \<longleftrightarrow> (if i < length es then at_entry es rs i it else i = length es \<and> at_end es rs it)"

lemma cursor_rep: "cursor es rs it i \<Longrightarrow> iter_rep es rs it"
  by (auto simp: cursor_def at_entry_def ready_def at_end_def split: if_splits)

lemma cursor_le: "cursor es rs it i \<Longrightarrow> i \<le> length es"
  by (auto simp: cursor_def split: if_splits)

lemma cursor_Valid: "cursor es rs it i \<Longrightarrow> Iter_Valid it \<longleftrightarrow> i < length es"
proof (cases "i < length es")
  case True
  assume c: "cursor es rs it i"
  note sizes = block_sizes [OF cursor_rep [OF c]]
  have "offset es i < length (entries_bytes es)" using offset_mono [OF True order_refl] by simp
  then show ?thesis
    using c True sizes(2) sizes(5) [of i] by (simp add: cursor_def at_entry_def Iter_Valid_def word_less_nat_alt)
qed (auto simp: cursor_def at_end_def Iter_Valid_def)

lemma cursor_entry:
  assumes "cursor es rs it i" "i < length es"
  shows "Iter_key it = Some (key_of (es ! i))" "Iter_value it = Some (value_of (es ! i))"
proof -
  have valid: "Iter_Valid it" using cursor_Valid assms by simp
  then show "Iter_key it = Some (key_of (es ! i))"
    using assms by (simp add: cursor_def at_entry_def Iter_key_def)
  note rep = cursor_rep [OF assms(1)]
  note ends = entry_end [OF rep assms(2)]
  let ?k = "drop (shared_of (es ! i)) (key_of (es ! i))" and ?v = "value_of (es ! i)"
  have le: "length ?k + length ?v \<le> offset es (Suc i)" using ends(4) by simp
  have "drop (offset es (Suc i) - length ?v) (bi_data it) =
      drop (length ?k) (drop (offset es (Suc i) - length (?k @ ?v)) (bi_data it))"
    using le by simp
  also have "\<dots> = ?v @ drop (offset es (Suc i)) (bi_data it)" unfolding ends(3) by simp
  finally have val: "take (length ?v) (drop (offset es (Suc i) - length ?v) (bi_data it)) = ?v" by simp
  have "offset es (Suc i) \<le> length (bi_data it)"
    using ends(2) rep by (simp add: iter_rep_def length_block_bytes)
  with valid val le show "Iter_value it = Some ?v"
    using assms by (simp add: cursor_def at_entry_def Iter_value_def del: bind_Some_iff)
qed

lemma ParseNextKey_ready:
  assumes "ready es rs i it"
  obtains it' where "ParseNextKey it = Some (i < length es, it')" "cursor es rs it' i"
    "bi_compare it' = bi_compare it"
proof (cases "i < length es")
  case True
  with ParseNextKey_entry [OF assms] that show thesis by (auto simp: cursor_def)
next
  case False
  with assms have i: "i = length es" "NextEntryOffset it = Some (bi_restarts it)" "iter_rep es rs it"
    by (auto simp: ready_def iter_rep_def)
  then show thesis using that ParseNextKey_end [OF i(2)] False
    by (auto simp: cursor_def at_end_def iter_rep_def)
qed

lemma cursor_Next:
  assumes "cursor es rs it i" "i < length es"
  obtains it' where "Iter_Next it = Some it'" "cursor es rs it' (Suc i)" "bi_compare it' = bi_compare it"
proof -
  have "ready es rs (Suc i) it" using assms by (simp add: cursor_def at_entry_def)
  then obtain it' where "ParseNextKey it = Some (Suc i < length es, it')" "cursor es rs it' (Suc i)"
      "bi_compare it' = bi_compare it" by (rule ParseNextKey_ready)
  then show thesis using that cursor_Valid [OF assms(1)] assms(2) by (simp add: Iter_Next_def)
qed

lemma SeekToFirst_cursor:
  assumes "iter_rep es rs it"
  obtains it' where "Iter_SeekToFirst it = Some it'" "cursor es rs it' 0" "bi_compare it' = bi_compare it"
proof -
  have rs: "0 < length rs" "rs ! 0 = 0" using assms by (auto simp: iter_rep_def restarts_ok_def)
  obtain it1 where 1: "SeekToRestartPoint 0 it = Some it1" "ready es rs 0 it1" "bi_compare it1 = bi_compare it"
    using SeekToRestartPoint_ready [OF assms rs(1)] rs(2) by auto
  show thesis
    by (rule ParseNextKey_ready [OF 1(2)]) (use 1 that in \<open>simp add: Iter_SeekToFirst_def del: bind_Some_iff\<close>)
qed

section \<open>Backwards\<close>

lemma scan_until_at:
  assumes "ready es rs k it" "k < i" "i \<le> length es"
  shows "\<exists>it'. scan_until (of_nat (offset es i)) it = Some it' \<and> cursor es rs it' (i - 1) \<and>
    bi_compare it' = bi_compare it"
  using assms
proof (induction "i - k" arbitrary: k it)
  case (Suc n)
  obtain it1 where 1: "ParseNextKey it = Some (k < length es, it1)" "cursor es rs it1 k" "bi_compare it1 = bi_compare it"
    by (rule ParseNextKey_ready [OF Suc.prems(1)])
  have k: "k < length es" using Suc.prems by simp
  have rep: "iter_rep es rs it1" by (rule cursor_rep [OF 1(2)])
  have r: "ready es rs (Suc k) it1" using 1(2) k by (simp add: cursor_def at_entry_def)
  have next1: "NextEntryOffset it1 = Some (of_nat (offset es (Suc k)))" using r by (simp add: ready_def)
  have less: "(of_nat (offset es (Suc k)) :: u32) < of_nat (offset es i) \<longleftrightarrow> Suc k < i"
    using block_sizes(5) [OF rep, of "Suc k"] block_sizes(5) [OF rep, of i] Suc.prems k offset_less_iff [of "Suc k" es i]
    by (simp add: word_less_nat_alt)
  have unf: "scan_until (of_nat (offset es i)) it =
      (if Suc k < i then scan_until (of_nat (offset es i)) it1 else Some it1)"
    using 1(1) k next1 less by (simp add: scan_until.simps [of _ it] del: bind_Some_iff)
  show ?case
  proof (cases "Suc k < i")
    case True
    then have "\<exists>it'. scan_until (of_nat (offset es i)) it1 = Some it' \<and> cursor es rs it' (i - 1) \<and>
        bi_compare it' = bi_compare it1"
      using Suc.hyps(2) Suc.prems(3) by (intro Suc.hyps(1) [OF _ r]) simp_all
    with unf True 1(3) show ?thesis by simp
  next
    case False
    with Suc.prems(2) have "k = i - 1" by simp
    with unf False 1 show ?thesis by simp
  qed
qed simp

lemma SeekToLast_cursor:
  assumes "iter_rep es rs it"
  obtains it' where "Iter_SeekToLast it = Some it'" "cursor es rs it' (length es - 1)"
    "bi_compare it' = bi_compare it"
proof -
  have rs: "rs \<noteq> []" "restarts_ok es rs" using assms by (auto simp: iter_rep_def restarts_ok_def)
  then have last: "length rs - 1 < length rs" by simp
  have num: "bi_num_restarts it - 1 = of_nat (length rs - 1)"
    using assms last of_nat_diff [of 1 "length rs", where ?'a = "32 word"] by (simp add: iter_rep_def)
  obtain it1 where 1: "SeekToRestartPoint (bi_num_restarts it - 1) it = Some it1"
      "ready es rs (rs ! (length rs - 1)) it1" "bi_compare it1 = bi_compare it"
    using SeekToRestartPoint_ready [OF assms last] num by metis
  have same: "bi_restarts it1 = bi_restarts it" using 1(2) assms by (simp add: ready_def iter_rep_def)
  show thesis
  proof (cases "es = []")
    case True
    then have zero: "rs ! (length rs - 1) = 0" using restart_le(1) [OF rs(2) last] by simp
    obtain it2 where 2: "ParseNextKey it1 = Some (False, it2)" "cursor es rs it2 0" "bi_compare it2 = bi_compare it1"
      by (rule ParseNextKey_ready [OF 1(2)]) (use True zero in auto)
    have "scan_until (bi_restarts it) it1 = Some it2"
      using 2(1) by (simp add: scan_until.simps [of _ it1] del: bind_Some_iff)
    with that 1 2 True same show thesis by (simp add: Iter_SeekToLast_def)
  next
    case False
    have eq: "bi_restarts it = of_nat (offset es (length es))" using assms by (simp add: iter_rep_def)
    obtain it2 where "scan_until (bi_restarts it) it1 = Some it2" "cursor es rs it2 (length es - 1)"
        "bi_compare it2 = bi_compare it1"
      using scan_until_at [OF 1(2) restart_le(2) [OF rs(2) last False] order_refl] eq by auto
    with that 1 same show thesis by (simp add: Iter_SeekToLast_def)
  qed
qed

lemma Prev_loop_at:
  assumes "iter_rep es rs it" "j < length rs" "bi_restart_index it = of_nat j" "i \<le> length es"
  shows "if i = 0 then Prev_loop (of_nat (offset es i)) it =
      Some (False, it\<lparr>bi_current := bi_restarts it, bi_restart_index := bi_num_restarts it\<rparr>)
    else \<exists>j' < length rs. rs ! j' < i \<and> Prev_loop (of_nat (offset es i)) it =
      Some (True, it\<lparr>bi_restart_index := of_nat j'\<rparr>)"
  using assms
proof (induction j arbitrary: it)
  case (Suc j)
  have le: "rs ! Suc j \<le> length es" using restart_le Suc.prems by (simp add: iter_rep_def)
  note sizes = block_sizes [OF Suc.prems(1)]
  have r: "GetRestartPoint it (bi_restart_index it) = Some (of_nat (offset es (rs ! Suc j)))"
    unfolding Suc.prems(3) by (rule GetRestartPoint_at [OF Suc.prems(1,2)])
  have ge: "(of_nat (offset es i) :: u32) \<le> of_nat (offset es (rs ! Suc j)) \<longleftrightarrow> i \<le> rs ! Suc j"
    using sizes(5) [OF Suc.prems(4)] sizes(5) [OF le] offset_less_iff [OF le Suc.prems(4)]
    by (simp add: word_le_nat_alt flip: not_less)
  have nz: "(of_nat (Suc j) :: u32) \<noteq> 0"
  proof
    assume "(of_nat (Suc j) :: u32) = 0"
    then have "unat (of_nat (Suc j) :: u32) = 0" by simp
    then show False using unat_u32 [of "Suc j"] sizes(1) Suc.prems(2) by simp
  qed
  let ?it = "it\<lparr>bi_restart_index := of_nat j\<rparr>"
  have minus: "bi_restart_index it - 1 = of_nat j" unfolding Suc.prems(3) by simp
  have unf: "Prev_loop (of_nat (offset es i)) it =
      (if i \<le> rs ! Suc j then Prev_loop (of_nat (offset es i)) ?it else Some (True, it))"
    using r ge nz minus Suc.prems(3) by (simp add: Prev_loop.simps [of _ it] del: bind_Some_iff of_nat_Suc)
  have same: "it\<lparr>bi_restart_index := of_nat (Suc j)\<rparr> = it" using Suc.prems(3) by simp
  have IH: "if i = 0 then Prev_loop (of_nat (offset es i)) ?it =
      Some (False, ?it\<lparr>bi_current := bi_restarts ?it, bi_restart_index := bi_num_restarts ?it\<rparr>)
    else \<exists>j' < length rs. rs ! j' < i \<and> Prev_loop (of_nat (offset es i)) ?it =
      Some (True, ?it\<lparr>bi_restart_index := of_nat j'\<rparr>)"
    using Suc.prems by (intro Suc.IH) simp_all
  show ?case
  proof (cases "i \<le> rs ! Suc j")
    case True
    with unf IH show ?thesis by (auto split: if_splits)
  next
    case False
    with unf same Suc.prems(2) show ?thesis by (auto intro!: exI [of _ "Suc j"])
  qed
next
  case 0
  have zero: "rs ! 0 = 0" using 0 by (simp add: iter_rep_def restarts_ok_def)
  note sizes = block_sizes [OF 0(1)]
  have r: "GetRestartPoint it 0 = Some 0"
    using GetRestartPoint_at [OF 0(1,2)] zero by simp
  have "(of_nat (offset es i) :: u32) \<le> 0 \<longleftrightarrow> i = 0"
    using sizes(5) [OF 0(4)] offset_less_iff [of 0 es i] 0(4)
    by (cases "i = 0") (auto simp: word_le_nat_alt)
  then have unf: "Prev_loop (of_nat (offset es i)) it = (if i = 0 then
      Some (False, it\<lparr>bi_current := bi_restarts it, bi_restart_index := bi_num_restarts it\<rparr>) else Some (True, it))"
    using r 0(3) by (simp add: Prev_loop.simps [of _ it] del: bind_Some_iff)
  then show ?case using 0(2,3) zero by (auto intro!: exI [of _ 0])
qed

lemma cursor_Prev:
  assumes "cursor es rs it i" "i < length es"
  obtains it' where "Iter_Prev it = Some it'" "cursor es rs it' (if i = 0 then length es else i - 1)"
    "bi_compare it' = bi_compare it"
proof -
  have rep: "iter_rep es rs it" by (rule cursor_rep [OF assms(1)])
  have valid: "Iter_Valid it" using cursor_Valid assms by simp
  have cur: "bi_current it = of_nat (offset es i)" using assms by (simp add: cursor_def at_entry_def)
  obtain j where j: "j < length rs" "bi_restart_index it = of_nat j"
    using assms by (auto simp: cursor_def at_entry_def)
  note loop = Prev_loop_at [OF rep j, of i]
  show thesis
  proof (cases "i = 0")
    case True
    let ?it = "it\<lparr>bi_current := bi_restarts it, bi_restart_index := bi_num_restarts it\<rparr>"
    have "Iter_Prev it = Some ?it"
      using loop True valid by (simp add: Iter_Prev_def cur del: bind_Some_iff)
    moreover have "cursor es rs ?it (length es)" using rep by (simp add: cursor_def at_end_def iter_rep_def)
    ultimately show thesis using that True by simp
  next
    case False
    obtain j' where j': "j' < length rs" "rs ! j' < i"
        "Prev_loop (of_nat (offset es i)) it = Some (True, it\<lparr>bi_restart_index := of_nat j'\<rparr>)"
      using loop False assms(2) by auto
    let ?it = "it\<lparr>bi_restart_index := of_nat j'\<rparr>"
    have rep': "iter_rep es rs ?it" using rep by simp
    obtain it1 where 1: "SeekToRestartPoint (of_nat j') ?it = Some it1" "ready es rs (rs ! j') it1"
        "bi_compare it1 = bi_compare ?it"
      by (rule SeekToRestartPoint_ready [OF rep' j'(1)])
    obtain it2 where "scan_until (of_nat (offset es i)) it1 = Some it2" "cursor es rs it2 (i - 1)"
        "bi_compare it2 = bi_compare it1"
      using scan_until_at [OF 1(2) j'(2)] assms(2) by auto
    with that False 1 j' valid show thesis by (simp add: Iter_Prev_def cur)
  qed
qed

section \<open>Searching\<close>

lemma half_word:
  assumes "l < r" "r < 2 ^ 31"
  shows "(of_nat l + of_nat r + 1 :: u32) div 2 = of_nat ((l + r + 1) div 2)"
proof -
  have "unat (of_nat (l + r + 1) :: u32) = l + r + 1" using assms by (intro unat_u32) simp
  moreover have "unat (of_nat ((l + r + 1) div 2) :: u32) = (l + r + 1) div 2" using assms by (intro unat_u32) simp
  moreover have "unat (2 :: u32) = 2" by simp
  ultimately have half: "unat ((of_nat (l + r + 1) :: u32) div 2) = unat (of_nat ((l + r + 1) div 2) :: u32)"
    by (simp only: unat_div)
  have sum: "(of_nat l + of_nat r + 1 :: u32) = of_nat (l + r + 1)" by simp
  show ?thesis unfolding sum word_eq_iff_unsigned [where ?'a = nat] by (rule half)
qed

locale slice_order = key_order ok compare
  for ok :: "byte list \<Rightarrow> bool" and compare :: "byte list \<Rightarrow> byte list \<Rightarrow> int option"

sublocale comparator \<subseteq> slice_order ok compare
  by unfold_locales

context slice_order
begin

text \<open>The entries whose keys are compared are those whose keys are ordered.\<close>

lemma Seek_binary_at:
  assumes "ordered ok compare (map snd es)" "ok target" "iter_rep es rs it" "bi_compare it = compare"
    "l \<le> r" "r < length rs" "l = 0 \<or> below compare (key_of (es ! (rs ! l))) target"
  shows "\<exists>l' < length rs. Seek_binary target (of_nat l) (of_nat r) it = Some (Some (of_nat l'), it) \<and>
    (l' = 0 \<or> below compare (key_of (es ! (rs ! l'))) target)"
  using assms(5-)
proof (induction "r - l" arbitrary: l r rule: less_induct)
  case less
  note sizes = block_sizes [OF assms(3)]
  have r: "r < 2 ^ 30" using sizes(1) less.prems(2) by simp
  have lt: "(of_nat l :: u32) < of_nat r \<longleftrightarrow> l < r"
    using unat_u32 [of l] unat_u32 [of r] less.prems r by (simp add: word_less_nat_alt)
  show ?case
  proof (cases "l < r")
    case False
    then have "Seek_binary target (of_nat l) (of_nat r) it = Some (Some (of_nat l), it)"
      using lt by (simp add: Seek_binary.simps [of target "of_nat l"])
    with False less.prems show ?thesis by (intro exI [of _ l]) simp
  next
    case True
    define m where "m = (l + r + 1) div 2"
    have m: "l < m" "m \<le> r" "m < length rs" using True less.prems(2) by (auto simp: m_def)
    have mid: "(of_nat l + of_nat r + 1 :: u32) div 2 = of_nat m" using half_word [OF True] r by (simp add: m_def)
    have rs: "restarts_ok es rs" "entries_ok es" using assms(3) by (simp_all add: iter_rep_def)
    have "rs ! 0 < rs ! m"
      using rs(1) m sorted_wrt_nth_less [of "(<)" rs 0 m] by (simp add: restarts_ok_def)
    then have ne: "es \<noteq> []" using restart_le(1) [OF rs(1) m(3)] by auto
    note i = restart_le(2) [OF rs(1) m(3) ne]
    let ?i = "rs ! m" and ?e = "es ! (rs ! m)"
    have shared: "shared_of ?e = 0" by (rule restart_le(3) [OF rs(1) m(3) i])
    have point: "GetRestartPoint it (of_nat m) = Some (of_nat (offset es ?i))"
      by (rule GetRestartPoint_at [OF assms(3) m(3)])
    have tail: "length (entry_bytes ?e @ entries_bytes (drop (Suc ?i) es)) < 2 ^ 32"
      using sizes(1) entry_end(2) [OF assms(3) i] offset_Suc [OF i] by simp
    let ?rest = "drop (shared_of ?e) (key_of ?e) @ value_of ?e @ entries_bytes (drop (Suc ?i) es)"
    have dec: "DecodeEntry (entries_from it (unat (of_nat (offset es ?i) :: u32))) = Some (0,
        of_nat (length (key_of ?e)), of_nat (length (value_of ?e)), ?rest)"
      using DecodeEntry_entry [of ?e "entries_bytes (drop (Suc ?i) es)"] tail shared sizes(5) [of ?i] i
        entry_at(1) [OF assms(3) i] by simp
    have key_len: "unat (of_nat (length (key_of ?e)) :: u32) = length (key_of ?e)"
      using tail shared by (intro unat_u32) (simp add: entry_bytes_def)
    let ?p = "unat (bi_restarts it) - length ?rest"
    have p: "?p = offset es (Suc ?i) - length (key_of ?e @ value_of ?e)"
      using entry_end(2,4) [OF assms(3) i] shared by (simp add: sizes(2))
    have room: "?p + length (key_of ?e) \<le> length (bi_data it)"
      using entry_end(2,4) [OF assms(3) i] assms(3) shared unfolding p
      by (simp add: iter_rep_def length_block_bytes)
    have key: "take (length (key_of ?e)) (drop ?p (bi_data it)) = key_of ?e"
      using entry_end(3) [OF assms(3) i] shared unfolding p by simp
    have "ok (key_of ?e)" using assms(1) i by (auto simp: ordered_def)
    then obtain c where c: "compare (key_of ?e) target = Some c" using total assms(2) by blast
    have minus: "(of_nat m - 1 :: u32) = of_nat (m - 1)"
      using of_nat_diff [of 1 m, where ?'a = "32 word"] m(1) by simp
    have unf: "Seek_binary target (of_nat l) (of_nat r) it =
        (if c < 0 then Seek_binary target (of_nat m) (of_nat r) it
         else Seek_binary target (of_nat l) (of_nat (m - 1)) it)"
      using True lt mid point dec room key key_len c assms(4) minus
      by (simp add: Seek_binary.simps [of target "of_nat l" "of_nat r"] Let_def del: bind_Some_iff length_append length_drop)
    show ?thesis
    proof (cases "c < 0")
      case True
      then have "below compare (key_of ?e) target" using c by (simp add: below_def)
      with True unf less.hyps [of r m] m less.prems show ?thesis by simp
    next
      case False
      with unf less.hyps [of "m - 1" l] m less.prems show ?thesis by simp
    qed
  qed
qed

lemma Seek_linear_at:
  assumes "ordered ok compare (map snd es)" "ok target" "ready es rs k it" "bi_compare it = compare"
    "\<And>j. j < k \<Longrightarrow> below compare (key_of (es ! j)) target"
  shows "\<exists>it'. Seek_linear target it = Some it' \<and> cursor es rs it' (lower_bound compare target (map snd es)) \<and>
    bi_compare it' = compare"
  using assms(3-)
proof (induction "length es - k" arbitrary: k it rule: less_induct)
  case less
  obtain it1 where 1: "ParseNextKey it = Some (k < length es, it1)" "cursor es rs it1 k" "bi_compare it1 = bi_compare it"
    by (rule ParseNextKey_ready [OF less.prems(1)])
  have le: "k \<le> length es" using less.prems(1) by (simp add: ready_def)
  show ?case
  proof (cases "k < length es")
    case False
    then have "lower_bound compare target (map snd es) = k"
      using le less.prems(3) by (intro lower_bound_eqI) simp_all
    moreover have "Seek_linear target it = Some it1"
      using 1(1) False by (simp add: Seek_linear.simps [of target it] del: bind_Some_iff)
    ultimately show ?thesis using 1 less.prems(2) by simp
  next
    case True
    have "ok (key_of (es ! k))" using assms(1) True by (auto simp: ordered_def)
    then obtain c where c: "compare (key_of (es ! k)) target = Some c" using total assms(2) by blast
    have key: "bi_key it1 = key_of (es ! k)" and r: "ready es rs (Suc k) it1"
      using 1(2) True by (simp_all add: cursor_def at_entry_def)
    have unf: "Seek_linear target it = (if c \<ge> 0 then Some it1 else Seek_linear target it1)"
      using 1 True c less.prems(2) key by (simp add: Seek_linear.simps [of target it] del: bind_Some_iff)
    show ?thesis
    proof (cases "c \<ge> 0")
      case c0: True
      then have "lower_bound compare target (map snd es) = k"
        using True c less.prems(3) by (intro lower_bound_eqI) (auto simp: below_def)
      then show ?thesis using unf c0 1 less.prems(2) by simp
    next
      case False
      then have "below compare (key_of (es ! j)) target" if "j < Suc k" for j
        using that less.prems(3) c by (cases "j = k") (auto simp: below_def)
      with unf False less.hyps [OF _ r] 1(3) less.prems(2) True show ?thesis by simp
    qed
  qed
qed

lemma Seek_cursor:
  assumes "ordered ok compare (map snd es)" "ok target" "iter_rep es rs it" "bi_compare it = compare"
  obtains it' where "Iter_Seek target it = Some it'" "cursor es rs it' (lower_bound compare target (map snd es))"
    "bi_compare it' = compare"
proof -
  have rs: "rs \<noteq> []" "restarts_ok es rs" using assms(3) by (auto simp: iter_rep_def restarts_ok_def)
  have num: "bi_num_restarts it - 1 = of_nat (length rs - 1)"
    using assms(3) rs(1) of_nat_diff [of 1 "length rs", where ?'a = "32 word"]
    by (simp add: iter_rep_def Suc_le_eq)
  have "\<exists>l < length rs. Seek_binary target 0 (bi_num_restarts it - 1) it = Some (Some (of_nat l), it) \<and>
      (l = 0 \<or> below compare (key_of (es ! (rs ! l))) target)"
    using Seek_binary_at [OF assms, of 0 "length rs - 1"] rs(1) unfolding num by simp
  then obtain l where l: "l < length rs"
      "Seek_binary target 0 (bi_num_restarts it - 1) it = Some (Some (of_nat l), it)"
      "l = 0 \<or> below compare (key_of (es ! (rs ! l))) target" by blast
  obtain it1 where 1: "SeekToRestartPoint (of_nat l) it = Some it1" "ready es rs (rs ! l) it1"
      "bi_compare it1 = bi_compare it"
    by (rule SeekToRestartPoint_ready [OF assms(3) l(1)])
  have "below compare (key_of (es ! j)) target" if "j < rs ! l" for j
  proof (cases "l = 0")
    case True
    then show ?thesis using that rs(2) by (simp add: restarts_ok_def)
  next
    case False
    have "es \<noteq> []" using that restart_le(1) [OF rs(2) l(1)] by auto
    then have "rs ! l < length es" by (rule restart_le(2) [OF rs(2) l(1)])
    then show ?thesis using ordered_below [OF assms(1,2), of j "rs ! l"] that l(3) False by simp
  qed
  then obtain it2 where "Seek_linear target it1 = Some it2"
      "cursor es rs it2 (lower_bound compare target (map snd es))" "bi_compare it2 = compare"
    using Seek_linear_at [OF assms(1,2) 1(2)] 1(3) assms(4) by auto
  with that l 1 show thesis by (simp add: Iter_Seek_def)
qed

end

text \<open>Where an iterator stands in the keys and values of its block.\<close>

definition block_stands :: "(byte list \<Rightarrow> bool) \<Rightarrow> (byte list \<Rightarrow> byte list \<Rightarrow> int option) \<Rightarrow>
    block_iter \<Rightarrow> (byte list \<times> byte list) list \<Rightarrow> nat \<Rightarrow> bool" where
  "block_stands ok compare it xs i \<longleftrightarrow> ordered ok compare xs \<and> bi_compare it = compare \<and>
     (\<exists>es rs. xs = map snd es \<and> cursor es rs it i)"

lemma block_standsI:
  "ordered ok compare (map snd es) \<Longrightarrow> bi_compare it = compare \<Longrightarrow> cursor es rs it i \<Longrightarrow>
    block_stands ok compare it (map snd es) i"
  by (auto simp: block_stands_def)

lemma block_standsE:
  assumes "block_stands ok compare it xs i"
  obtains es rs where "xs = map snd es" "cursor es rs it i" "ordered ok compare (map snd es)" "bi_compare it = compare"
  using assms by (auto simp: block_stands_def)

sublocale slice_order \<subseteq> block_iterator: iterator ok compare "block_stands ok compare"
  Iter_Valid Iter_key Iter_value Iter_Next Iter_Prev Iter_Seek Iter_SeekToFirst Iter_SeekToLast
proof (unfold_locales, goal_cases)
  case (1 it xs i)
  then show ?case by (auto elim!: block_standsE dest: cursor_le)
next
  case (2 it xs i)
  then show ?case by (auto elim!: block_standsE dest: cursor_Valid)
next
  case (3 it xs i)
  then show ?case by (auto elim!: block_standsE dest: cursor_entry)
next
  case (4 it xs i)
  then show ?case by (elim block_standsE) (metis block_standsI cursor_Next length_map)
next
  case (5 it xs i)
  then show ?case by (elim block_standsE) (metis block_standsI cursor_Prev length_map)
next
  case (6 it xs i target)
  then show ?case by (elim block_standsE) (metis block_standsI Seek_cursor cursor_rep)
next
  case (7 it xs i)
  then show ?case by (elim block_standsE) (metis block_standsI SeekToFirst_cursor cursor_rep)
next
  case (8 it xs i)
  then show ?case by (elim block_standsE) (metis block_standsI SeekToLast_cursor cursor_rep length_map)
qed

interpretation bytewise_block: slice_order "\<lambda>_. True" Bytewise_Compare
  by unfold_locales

end
