(* ===== verification/Ldb_Block_Build.thy ===== *)
theory Ldb_Block_Build
  imports Ldb_Block_Iter
begin

text \<open>
  What the block builder writes: after any sequence of ordered additions its buffer holds the
  entries of these keys and values, and its restart points are entries that share nothing.
  Reading the block back is then a matter of the iterators of \<open>Ldb_Block_Iter\<close>.
\<close>

definition build_rep :: "entry list \<Rightarrow> nat list \<Rightarrow> block_builder \<Rightarrow> bool" where
  "build_rep es rs b \<longleftrightarrow> entries_ok es \<and> restarts_ok es rs \<and> bb_buffer b = entries_bytes es \<and>
     bb_restarts b = map (\<lambda>r. of_nat (offset es r)) rs \<and> \<not> bb_finished b \<and>
     bb_last_key b = prev_key es (length es) \<and> bb_counter b \<le> bb_interval b \<and> 1 \<le> bb_interval b \<and>
     bb_counter b = length es - last rs"

lemma build_rep_new: "BlockBuilder compare interval = Some b \<Longrightarrow> build_rep [] [0] b \<and> bb_compare b = compare"
  by (auto simp: BlockBuilder_def build_rep_def entries_ok_def restarts_ok_def prev_key_def split: if_splits)

lemma build_rep_Reset: "build_rep es rs b \<Longrightarrow> build_rep [] [0] (BlockBuilder_Reset b)"
  by (auto simp: BlockBuilder_Reset_def build_rep_def entries_ok_def restarts_ok_def prev_key_def)

lemma Finish_block:
  assumes "build_rep es rs b"
  shows "fst (BlockBuilder_Finish b) = block_bytes es rs"
proof -
  have "foldl PutFixed32 buf ns = buf @ concat (map EncodeFixed32 ns)" for buf ns
    by (induction ns arbitrary: buf) (simp_all add: PutFixed32_def)
  with assms show ?thesis
    by (simp add: BlockBuilder_Finish_def build_rep_def block_bytes_def PutFixed32_def comp_def Let_def)
qed

lemma size_estimate: "build_rep es rs b \<Longrightarrow> CurrentSizeEstimate b = length (fst (BlockBuilder_Finish b))"
  using length_block_bytes [of es rs] Finish_block [of es rs b] by (simp add: CurrentSizeEstimate_def build_rep_def)

section \<open>Adding an entry\<close>

lemma entries_ok_snoc:
  assumes "entries_ok es" "shared_of e \<le> length (key_of e)" "shared_of e \<le> length (prev_key es (length es))"
    "take (shared_of e) (key_of e) = take (shared_of e) (prev_key es (length es))"
  shows "entries_ok (es @ [e])"
proof -
  have "prev_key (es @ [e]) i = prev_key es i" if "i \<le> length es" for i
    using that by (auto simp: prev_key_def nth_append)
  then show ?thesis using assms by (auto simp: entries_ok_def nth_append less_Suc_eq)
qed

lemma restarts_ok_same:
  assumes "restarts_ok es rs" "es = [] \<longrightarrow> shared_of e = 0"
  shows "restarts_ok (es @ [e]) rs"
  using assms by (force simp: restarts_ok_def nth_append)

lemma restarts_ok_new:
  assumes "restarts_ok es rs" "es \<noteq> []" "shared_of e = 0"
  shows "restarts_ok (es @ [e]) (rs @ [length es])"
  using assms by (fastforce simp: restarts_ok_def nth_append sorted_wrt_append)

lemma last_restart: "restarts_ok es rs \<Longrightarrow> last rs \<le> length es"
  using restart_le(1) [of es rs "length rs - 1"] by (simp add: restarts_ok_def last_conv_nth)

lemma offsets_snoc:
  "restarts_ok es rs \<Longrightarrow> map (\<lambda>r. of_nat (offset (es @ [e]) r)) rs = map (\<lambda>r. (of_nat (offset es r) :: u32)) rs"
  by (auto simp: restarts_ok_def offset_append)

definition larger :: "byte list \<Rightarrow> block_builder \<Rightarrow> bool option" where
  "larger k b = (if bb_buffer b = [] then Some True else map_option (\<lambda>r. r > 0) (bb_compare b k (bb_last_key b)))"

lemma put_entry:
  "PutVarint32 (PutVarint32 (PutVarint32 buf (of_nat s)) (of_nat (length k - s))) (of_nat (length v)) @
    drop s k @ v = buf @ entry_bytes (s, k, v)"
  by (simp add: PutVarint32_def entry_bytes_def)

lemma Add_same:
  assumes "larger k b = Some True" "\<not> bb_finished b" "bb_counter b < bb_interval b"
    "diff_loop (bb_last_key b) k 0 = s" "take s (bb_last_key b) @ take (length k - s) (drop s k) = k"
  shows "BlockBuilder_Add k v b =
    Some (b\<lparr>bb_buffer := bb_buffer b @ entry_bytes (s, k, v), bb_last_key := k, bb_counter := bb_counter b + 1\<rparr>)"
  using assms unfolding BlockBuilder_Add_def larger_def by (simp add: put_entry Let_def del: bind_Some_iff if_split_asm)

lemma Add_restart:
  assumes "larger k b = Some True" "\<not> bb_finished b" "bb_counter b = bb_interval b"
  shows "BlockBuilder_Add k v b =
    Some (b\<lparr>bb_buffer := bb_buffer b @ entry_bytes (0, k, v), bb_last_key := k, bb_counter := 1,
      bb_restarts := bb_restarts b @ [of_nat (length (bb_buffer b))]\<rparr>)"
  using assms put_entry [of "bb_buffer b" 0 k v] unfolding BlockBuilder_Add_def larger_def
  by (simp add: Let_def del: bind_Some_iff)

text \<open>The additions that are allowed, with or without a new restart point.\<close>

lemma Add_entry:
  assumes rep: "build_rep es rs b" and larger: "es = [] \<or> (\<exists>r > 0. bb_compare b k (prev_key es (length es)) = Some r)"
  obtains s rs' b' where "BlockBuilder_Add k v b = Some b'" "build_rep (es @ [(s, k, v)]) rs' b'"
    "bb_compare b' = bb_compare b"
proof -
  let ?last = "prev_key es (length es)"
  have ok: "entries_ok es" "restarts_ok es rs" "bb_last_key b = ?last" using rep by (simp_all add: build_rep_def)
  have buffer: "bb_buffer b = [] \<longleftrightarrow> es = []"
  proof (cases es)
    case (Cons e fs)
    then have "entries_bytes es \<noteq> []" using entry_bytes_3 [of e] by auto
    with rep Cons show ?thesis by (simp add: build_rep_def)
  qed (use rep in \<open>simp add: build_rep_def\<close>)
  have larger': "larger k b = Some True"
    using larger buffer ok(3) by (auto simp: larger_def)
  let ?put = "\<lambda>s. bb_buffer b @ entry_bytes (s, k, v)"
  show thesis
  proof (cases "bb_counter b < bb_interval b")
    case True
    define s where "s = diff_loop ?last k 0"
    have s: "take s ?last = take s k" "s \<le> length ?last" "s \<le> length k"
      using diff_loop_prefix [of 0 ?last k] by (simp_all add: s_def Let_def)
    let ?b = "b\<lparr>bb_buffer := ?put s, bb_last_key := k, bb_counter := bb_counter b + 1\<rparr>"
    have key: "take s ?last @ take (length k - s) (drop s k) = k" using s by simp
    have "BlockBuilder_Add k v b = Some ?b"
      using True larger' rep key by (intro Add_same) (simp_all add: build_rep_def s_def)
    moreover have "build_rep (es @ [(s, k, v)]) rs ?b"
    proof -
      have "es = [] \<longrightarrow> s = 0" using s(2) by (auto simp: prev_key_def)
      moreover have "length es - last rs + 1 = length (es @ [(s, k, v)]) - last rs"
        using last_restart [OF ok(2)] by simp
      ultimately show ?thesis
        using rep True s entries_ok_snoc [OF ok(1), of "(s, k, v)"] restarts_ok_same [OF ok(2), of "(s, k, v)"]
        by (simp add: build_rep_def offsets_snoc [OF ok(2)] prev_key_def)
    qed
    ultimately show thesis using that by simp
  next
    case False
    let ?b = "b\<lparr>bb_buffer := ?put 0, bb_last_key := k, bb_counter := 1,
      bb_restarts := bb_restarts b @ [of_nat (length (bb_buffer b))]\<rparr>"
    have ne: "es \<noteq> []" using False rep by (auto simp: build_rep_def)
    have "BlockBuilder_Add k v b = Some ?b"
      using False larger' rep by (intro Add_restart) (simp_all add: build_rep_def)
    moreover have "build_rep (es @ [(0, k, v)]) (rs @ [length es]) ?b"
      using rep ne entries_ok_snoc [OF ok(1), of "(0, k, v)"] restarts_ok_new [OF ok(2) ne, of "(0, k, v)"]
      by (simp add: build_rep_def offsets_snoc [OF ok(2)] prev_key_def offset_append)
    ultimately show thesis using that by simp
  qed
qed

section \<open>Building a block and reading it\<close>

primrec Adds :: "(byte list \<times> byte list) list \<Rightarrow> block_builder \<Rightarrow> block_builder option" where
  "Adds [] b = Some b"
| "Adds (x # xs) b = do { b \<leftarrow> BlockBuilder_Add (fst x) (snd x) b; Adds xs b }"

definition build_block :: "(byte list \<Rightarrow> byte list \<Rightarrow> int option) \<Rightarrow> nat \<Rightarrow> (byte list \<times> byte list) list \<Rightarrow>
    byte list option" where
  "build_block compare interval xs = do {
     b \<leftarrow> BlockBuilder compare interval;
     b \<leftarrow> Adds xs b;
     Some (fst (BlockBuilder_Finish b))
   }"

definition open_block :: "(byte list \<Rightarrow> byte list \<Rightarrow> int option) \<Rightarrow> byte list \<Rightarrow> block_iterator option" where
  "open_block compare contents = do { b \<leftarrow> Block contents; Block_NewIterator compare b }"

lemma open_block_bytes:
  assumes "entries_ok es" "restarts_ok es rs" "length (block_bytes es rs) < 2 ^ 32"
  obtains it where "open_block compare (block_bytes es rs) = Some (Block_iterator it)"
    "cursor es rs it (length es)" "bi_compare it = compare"
proof -
  let ?bytes = "block_bytes es rs"
  have len: "length ?bytes = length (entries_bytes es) + 4 * length rs + 4" by (rule length_block_bytes)
  have n: "unat (of_nat (length rs) :: u32) = length rs" using assms(3) len by (intro unat_u32) simp
  have "drop (length ?bytes - 4) ?bytes = EncodeFixed32 (of_nat (length rs))"
    by (simp add: block_bytes_def EncodeFixed32_def)
  then have num: "NumRestarts ?bytes (length ?bytes) = Some (of_nat (length rs))"
    using len DecodeFixed32_append [of _ "[]"] by (simp add: NumRestarts_def)
  have n1: "unat (1 + of_nat (length rs) :: u32) = Suc (length rs)"
    using unat_u32 [of "Suc (length rs)"] assms(3) len by simp
  let ?b = "\<lparr>blk_data = ?bytes, blk_size = length ?bytes, blk_restart_offset = of_nat (length (entries_bytes es))\<rparr>"
  have "(length ?bytes - 4) div 4 \<ge> length rs" using len by simp
  then have block: "Block ?bytes = Some ?b"
    using len num n n1 by (simp add: Block_def Let_def del: bind_Some_iff)
  have "(of_nat (length rs) :: u32) \<noteq> 0"
    using n assms(2) unat_eq_0 [of "of_nat (length rs) :: u32"] by (auto simp: restarts_ok_def)
  moreover define it where "it = \<lparr>bi_compare = compare, bi_data = ?bytes, bi_restarts = of_nat (length (entries_bytes es)),
    bi_num_restarts = of_nat (length rs), bi_current = of_nat (length (entries_bytes es)),
    bi_restart_index = of_nat (length rs), bi_key = [], bi_value = None, bi_status = OK\<rparr>"
  ultimately have "open_block compare ?bytes = Some (Block_iterator it)"
    using block num len
    by (simp add: open_block_def Block_NewIterator_def new_Iter_def word_neq_0_conv del: bind_Some_iff)
  moreover have "cursor es rs it (length es)" "bi_compare it = compare"
    using assms by (simp_all add: cursor_def at_end_def iter_rep_def it_def)
  ultimately show thesis using that by blast
qed

context slice_order
begin

lemma Adds_rep:
  assumes "ordered ok compare (map snd es @ xs)" "build_rep es rs b" "bb_compare b = compare"
  shows "\<exists>es' rs' b'. Adds xs b = Some b' \<and> build_rep es' rs' b' \<and> map snd es' = map snd es @ xs \<and> bb_compare b' = compare"
  using assms
proof (induction xs arbitrary: es rs b)
  case (Cons x xs)
  have "es = [] \<or> (\<exists>r > 0. bb_compare b (fst x) (prev_key es (length es)) = Some r)"
  proof (cases "es = []")
    case False
    let ?e = "es ! (length es - 1)"
    have mem: "?e \<in> set es" using False by simp
    have "below compare (key_of ?e) (fst x)" "ok (key_of ?e)" "ok (fst x)"
      using Cons.prems(1) mem by (auto simp: ordered_def sorted_wrt_append)
    then have "\<exists>r > 0. compare (fst x) (key_of ?e) = Some r" using flip by blast
    then show ?thesis using False Cons.prems(3) by (simp add: prev_key_def)
  qed simp
  then obtain s rs' b' where b': "BlockBuilder_Add (fst x) (snd x) b = Some b'"
      "build_rep (es @ [(s, fst x, snd x)]) rs' b'" "bb_compare b' = bb_compare b"
    by (rule Add_entry [OF Cons.prems(2)])
  have "\<exists>es' rs'' b''. Adds xs b' = Some b'' \<and> build_rep es' rs'' b'' \<and>
      map snd es' = map snd (es @ [(s, fst x, snd x)]) @ xs \<and> bb_compare b'' = compare"
    using Cons.prems b' by (intro Cons.IH) simp_all
  then show ?case using b'(1) by simp
qed auto

lemma build_block_bytes:
  assumes "ordered ok compare xs" "1 \<le> interval"
  obtains es rs where "build_block compare interval xs = Some (block_bytes es rs)" "map snd es = xs"
    "entries_ok es" "restarts_ok es rs"
proof -
  obtain b where b: "BlockBuilder compare interval = Some b" using assms(2) by (simp add: BlockBuilder_def)
  note new = build_rep_new [OF b]
  obtain es rs b' where b': "Adds xs b = Some b'" "build_rep es rs b'" "map snd es = xs"
    using Adds_rep [of "[]" xs "[0]" b] new assms(1) by auto
  then have "build_block compare interval xs = Some (block_bytes es rs)"
    using b Finish_block by (simp add: build_block_def)
  with that b' show thesis by (simp add: build_rep_def)
qed

text \<open>A finished block opens as an iterator over what was added to it.\<close>

lemma build_open:
  assumes "ordered ok compare xs" "1 \<le> interval" "build_block compare interval xs = Some contents"
    "length contents < 2 ^ 32"
  obtains it where "open_block compare contents = Some (Block_iterator it)"
    "block_stands ok compare it xs (length xs)"
proof -
  obtain es rs where e: "build_block compare interval xs = Some (block_bytes es rs)" "map snd es = xs"
      "entries_ok es" "restarts_ok es rs" by (rule build_block_bytes [OF assms(1,2)])
  obtain it where "open_block compare (block_bytes es rs) = Some (Block_iterator it)"
      "cursor es rs it (length es)" "bi_compare it = compare"
    by (rule open_block_bytes [OF e(3,4)]) (use e assms in simp)
  then show thesis
    using that [of it] block_standsI [of ok compare es it rs "length es"] e assms(1,3) by (auto simp: length_map [symmetric])
qed

end

end
