(* ===== verification/Ldb_Block_Properties.thy ===== *)
theory Ldb_Block_Properties
  imports Ldb_Block_Build Ldb_Format
begin

text \<open>The properties of blocks: what is built is read back, and what happens on other bytes.\<close>

section \<open>Any bytes\<close>

lemma GetVarint32Ptr_rest: "GetVarint32Ptr p = Some (v, rest) \<Longrightarrow> length rest < length p"
proof -
  have loop: "GetVarint32PtrFallback_loop s r p = Some (v, rest) \<Longrightarrow> length rest < length p" for s r p
  proof (induction s r p rule: GetVarint32PtrFallback_loop.induct)
    case (2 s r b p)
    then show ?case by (fastforce simp: Let_def less_Suc_eq split: if_splits)
  qed simp
  show "GetVarint32Ptr p = Some (v, rest) \<Longrightarrow> length rest < length p"
    using loop [of 0 0 p] by (auto simp: GetVarint32Ptr_def GetVarint32PtrFallback_def
      split: list.splits if_splits simp del: GetVarint32PtrFallback_loop.simps)
qed

lemma DecodeEntry_rest:
  assumes "DecodeEntry p = Some (s, n, v, rest)" "length p < 2 ^ 32"
  shows "length rest + 3 \<le> length p" "unat (n + v) \<le> length rest"
proof -
  have "3 \<le> length p" using assms(1) by (simp add: DecodeEntry_def split: if_splits)
  then obtain p1 p2 where r: "GetVarint32Ptr p = Some (s, p1)" "GetVarint32Ptr p1 = Some (n, p2)"
      "GetVarint32Ptr p2 = Some (v, rest)" "\<not> (of_nat (length rest) :: u32) < n + v"
    using assms(1) by (auto simp: DecodeEntry_slow split: if_splits)
  then show le: "length rest + 3 \<le> length p"
    using GetVarint32Ptr_rest [OF r(1)] GetVarint32Ptr_rest [OF r(2)] GetVarint32Ptr_rest [OF r(3)] by simp
  then have "unat (of_nat (length rest) :: u32) = length rest" using assms(2) by (intro unat_u32) simp
  with r(4) show "unat (n + v) \<le> length rest" by (simp add: word_less_nat_alt)
qed





text \<open>The read of a key that is longer than the block.\<close>

lemma ParseNextKey_overread:
  assumes "NextEntryOffset it = Some c" "c < bi_restarts it"
    "DecodeEntry (entries_from (it\<lparr>bi_current := c\<rparr>) (unat c)) = Some (s, n, v, rest)"
    "unat s \<le> length (bi_key it)" "length (bi_data it) < unat n"
  shows "ParseNextKey it = None"
  using assms by (simp add: ParseNextKey_def Let_def not_le not_less del: bind_Some_iff)


section \<open>Properties\<close>

interpretation internal_block: slice_order "internal_ok (\<lambda>_. True)" "Internal_Compare Bytewise_Compare"
  by unfold_locales

text \<open>C15: A block that the builder makes of any sorted list of keys and values, with any restart
  interval, opens as an iterator; a pass from the first entry yields the list, and a pass
  backwards from the last yields its reverse.  Building succeeds for every sorted list; reading
  needs the block to be smaller than 4 GB.\<close>

lemma block_roundtrip:
  assumes "ordered (\<lambda>_. True) Bytewise_Compare xs" "1 \<le> interval"
  shows "\<exists>contents. build_block Bytewise_Compare interval xs = Some contents \<and>
    (length contents < 2 ^ 32 \<longrightarrow> (\<exists>it. open_block Bytewise_Compare contents = Some (Block_iterator it) \<and>
       Option.bind (Iter_SeekToFirst it) (scan Iter_Valid Iter_key Iter_value Iter_Next (length xs)) = Some xs \<and>
       Option.bind (Iter_SeekToLast it) (scan Iter_Valid Iter_key Iter_value Iter_Prev (length xs)) = Some (rev xs)))"
proof -
  obtain contents where c: "build_block Bytewise_Compare interval xs = Some contents"
    using bytewise.build_block_bytes [OF assms] by blast
  show ?thesis
    by (rule exI [of _ contents], simp only: c simp_thms, intro impI)
      (rule bytewise.build_open [OF assms c], assumption,
        metis bytewise.block_iterator.first_to_last bytewise.block_iterator.last_to_first)
qed

lemma block_roundtrip_witness:
  "let xs = [([97], [1]), ([97, 98], [2]), ([99], [3])]
   in \<exists>contents. build_block Bytewise_Compare 2 xs = Some contents \<and>
    (length contents < 2 ^ 32 \<longrightarrow> (\<exists>it. open_block Bytewise_Compare contents = Some (Block_iterator it) \<and>
       Option.bind (Iter_SeekToFirst it) (scan Iter_Valid Iter_key Iter_value Iter_Next (length xs)) = Some xs \<and>
       Option.bind (Iter_SeekToLast it) (scan Iter_Valid Iter_key Iter_value Iter_Prev (length xs)) = Some (rev xs)))"
  unfolding Let_def by (rule block_roundtrip) (simp_all add: ordered_def below_Bytewise)

text \<open>C13: Looking up an internal key in a block of internal keys lands on the first entry that is not
  below it: what the iterator yields from there on are exactly the entries that are not below
  the key, whatever the restart points are.\<close>

lemma block_seek:
  assumes "ordered (internal_ok (\<lambda>_. True)) (Internal_Compare Bytewise_Compare) xs" "1 \<le> interval"
    "internal_ok (\<lambda>_. True) target"
    "build_block (Internal_Compare Bytewise_Compare) interval xs = Some contents" "length contents < 2 ^ 32"
  shows "\<exists>it. open_block (Internal_Compare Bytewise_Compare) contents = Some (Block_iterator it) \<and>
    Option.bind (Iter_Seek target it) (scan Iter_Valid Iter_key Iter_value Iter_Next (length xs)) =
      Some (filter (\<lambda>x. \<not> below (Internal_Compare Bytewise_Compare) (fst x) target) xs)"
  by (rule internal_block.build_open [OF assms(1,2,4,5)])
    (metis internal_block.block_iterator.from_target assms(3))

lemma block_seek_witness:
  "let xs = [([97] @ EncodeFixed64 513, [1]), ([97] @ EncodeFixed64 257, [2])];
       contents = [0, 9, 1, 97, 1, 2, 0, 0, 0, 0, 0, 0, 1, 2, 7, 1, 1, 0, 0, 0, 0, 0, 0, 2, 0, 0, 0, 0, 1, 0, 0, 0]
   in \<exists>it. open_block (Internal_Compare Bytewise_Compare) contents = Some (Block_iterator it) \<and>
    Option.bind (Iter_Seek ([97] @ EncodeFixed64 511) it) (scan Iter_Valid Iter_key Iter_value Iter_Next (length xs)) =
      Some (filter (\<lambda>x. \<not> below (Internal_Compare Bytewise_Compare) (fst x) ([97] @ EncodeFixed64 511)) xs)"
  unfolding Let_def
proof (rule block_seek)
  show "ordered (internal_ok (\<lambda>_. True)) (Internal_Compare Bytewise_Compare)
      [([97] @ EncodeFixed64 513, [1 :: byte]), ([97] @ EncodeFixed64 257, [2])]"
    by (simp add: ordered_def below_Internal below_Bytewise Bytewise_Compare_def del: append.simps)
  show "build_block (Internal_Compare Bytewise_Compare) 16
      [([97] @ EncodeFixed64 513, [1]), ([97] @ EncodeFixed64 257, [2])] =
      Some [0, 9, 1, 97, 1, 2, 0, 0, 0, 0, 0, 0, 1, 2, 7, 1, 1, 0, 0, 0, 0, 0, 0, 2, 0, 0, 0, 0, 1, 0, 0, 0]"
    by code_simp
qed (simp_all del: append.simps)

lemma open_small:
  assumes "NumRestarts c (length c) = Some n" "4 \<le> length c" "unat n \<le> (length c - 4) div 4"
    "r = of_nat (length c - unat (1 + n) * 4)" "n \<noteq> 0"
  shows "open_block compare c = Some (Block_iterator \<lparr>bi_compare = compare, bi_data = c, bi_restarts = r,
    bi_num_restarts = n, bi_current = r, bi_restart_index = n, bi_key = [], bi_value = None, bi_status = OK\<rparr>)"
  using assms
  by (simp add: open_block_def Block_def Block_NewIterator_def new_Iter_def Let_def word_neq_0_conv del: bind_Some_iff)



text \<open>C31: The bounds check of an entry of a block holds what it promises as long as the two lengths do
  not sum up to 4 GB.  It adds them in 32 bits: on a block of 15 bytes, the sum is 0, the check
  passes, and the iterator reads beyond the block.\<close>

lemma block_entry_bounds:
  "(DecodeEntry p = Some (shared, non_shared, value_length, rest) \<and> length p < 2 ^ 32 \<and>
      unat non_shared + unat value_length < 2 ^ 32 \<longrightarrow> unat non_shared + unat value_length \<le> length rest) \<and>
   (\<exists>contents it. length contents = 15 \<and> open_block Bytewise_Compare contents = Some (Block_iterator it) \<and>
      Iter_SeekToFirst it = None)"
proof (intro conjI impI)
  assume "DecodeEntry p = Some (shared, non_shared, value_length, rest) \<and> length p < 2 ^ 32 \<and>
      unat non_shared + unat value_length < 2 ^ 32"
  then show "unat non_shared + unat value_length \<le> length rest"
    using DecodeEntry_rest(2) [of p shared non_shared value_length rest]
    by (simp add: unat_add_lem [THEN iffD1])
next
  let ?c = "[0, 255, 255, 255, 255, 15, 1, 0, 0, 0, 0, 1, 0, 0, 0] :: byte list"
  let ?it = "\<lparr>bi_compare = Bytewise_Compare, bi_data = ?c, bi_restarts = 7, bi_num_restarts = 1,
    bi_current = 7, bi_restart_index = 1, bi_key = [], bi_value = None, bi_status = OK\<rparr>"
  have "open_block Bytewise_Compare ?c = Some (Block_iterator ?it)"
    by (rule open_small [of _ 1]) code_simp+
  moreover have "Iter_SeekToFirst ?it = None"
  proof -
    let ?itr = "?it\<lparr>bi_restart_index := 0, bi_value := Some (0, 0)\<rparr>"
    have "GetRestartPoint ?it 0 = Some 0" by code_simp
    then have seek: "SeekToRestartPoint 0 ?it = Some ?itr" by (simp add: SeekToRestartPoint_def)
    have "DecodeEntry (entries_from (?itr\<lparr>bi_current := 0\<rparr>) (unat (0 :: u32))) = Some (0, 4294967295, 1, [])"
      by code_simp
    then have "ParseNextKey ?itr = None"
      by (intro ParseNextKey_overread [of ?itr 0 0 4294967295 1 "[]"]) (simp_all add: NextEntryOffset_def)
    with seek show ?thesis by (simp add: Iter_SeekToFirst_def del: bind_Some_iff)
  qed
  ultimately show "\<exists>contents it. length contents = 15 \<and> open_block Bytewise_Compare contents = Some (Block_iterator it) \<and>
      Iter_SeekToFirst it = None" by (intro exI [of _ ?c] exI [of _ ?it]) simp
qed

lemma block_entry_bounds_witness:
  "3 + 2 \<le> length ([97, 98, 99, 1, 2 :: byte]) \<and> DecodeEntry [0, 3, 2, 97, 98, 99, 1, 2] = Some (0, 3, 2, [97, 98, 99, 1, 2])"
proof -
  have "DecodeEntry [0, 3, 2, 97, 98, 99, 1, 2] = Some (0, 3, 2, [97, 98, 99, 1, 2])" by code_simp
  with block_entry_bounds [of "[0, 3, 2, 97, 98, 99, 1, 2]" 0 3 2 "[97, 98, 99, 1, 2]"] show ?thesis by simp
qed

end
