(* ===== verification/Ldb_Arena.thy ===== *)
theory Ldb_Arena
  imports C_Prelude
begin

text \<open>
  The allocator of memtables, \<open>leveldb-library/util/arena.cc\<close> and \<open>arena.h\<close>.  Memory is the blocks
  that \<open>new\<close> returned, and a place in it is the number of a block and an offset; blocks begin at
  multiples of 8, as \<open>new\<close> promises.  A failed assertion, and arithmetic on the null pointer,
  are undefined.
\<close>

type_synonym place = "nat \<times> nat"

record arena =
  ar_alloc_ptr :: "place option"
  ar_remaining :: nat
  ar_blocks :: "nat list"
  ar_usage :: nat

definition Arena :: arena where
  "Arena = \<lparr>ar_alloc_ptr = None, ar_remaining = 0, ar_blocks = [], ar_usage = 0\<rparr>"

definition arena_block :: nat where "arena_block = 4096"

definition MemoryUsage :: "arena \<Rightarrow> nat" where
  "MemoryUsage a = ar_usage a"

definition AllocateNewBlock :: "nat \<Rightarrow> arena \<Rightarrow> place \<times> arena" where
  "AllocateNewBlock block_bytes a =
     ((length (ar_blocks a), 0),
      a\<lparr>ar_blocks := ar_blocks a @ [block_bytes], ar_usage := MemoryUsage a + block_bytes + 8\<rparr>)"

definition AllocateFallback :: "nat \<Rightarrow> arena \<Rightarrow> place \<times> arena" where
  "AllocateFallback bytes a =
     (if bytes > arena_block div 4 then AllocateNewBlock bytes a
      else let (p, a) = AllocateNewBlock arena_block a
           in (p, a\<lparr>ar_alloc_ptr := Some (fst p, snd p + bytes), ar_remaining := arena_block - bytes\<rparr>))"

definition Allocate :: "nat \<Rightarrow> arena \<Rightarrow> (place \<times> arena) option" where
  "Allocate bytes a =
     (if bytes = 0 then None
      else if bytes \<le> ar_remaining a
      then do {
        (b, off) \<leftarrow> ar_alloc_ptr a;
        Some ((b, off), a\<lparr>ar_alloc_ptr := Some (b, off + bytes), ar_remaining := ar_remaining a - bytes\<rparr>)
      }
      else Some (AllocateFallback bytes a))"

definition arena_slop :: "arena \<Rightarrow> nat" where
  "arena_slop a =
     (let current_mod = (case ar_alloc_ptr a of None \<Rightarrow> 0 | Some (b, off) \<Rightarrow> off mod 8)
      in if current_mod = 0 then 0 else 8 - current_mod)"

definition AllocateAligned :: "nat \<Rightarrow> arena \<Rightarrow> (place \<times> arena) option" where
  "AllocateAligned bytes a = do {
     let slop = arena_slop a;
     let needed = bytes + slop;
     (result, a) \<leftarrow>
       (if needed \<le> ar_remaining a
        then do {
          (b, off) \<leftarrow> ar_alloc_ptr a;
          Some ((b, off + slop), a\<lparr>ar_alloc_ptr := Some (b, off + needed), ar_remaining := ar_remaining a - needed\<rparr>)
        }
        else Some (AllocateFallback bytes a));
     if snd result mod 8 = 0 then Some (result, a) else None
   }"

section \<open>What an arena hands out\<close>

text \<open>The free part of the arena is what lies behind the pointer.\<close>

definition arena_ok :: "arena \<Rightarrow> bool" where
  "arena_ok a \<longleftrightarrow> (case ar_alloc_ptr a of
      None \<Rightarrow> ar_remaining a = 0
    | Some (b, off) \<Rightarrow> b < length (ar_blocks a) \<and> off + ar_remaining a = ar_blocks a ! b)"

definition taken :: "arena \<Rightarrow> place \<Rightarrow> bool" where
  "taken a p \<longleftrightarrow> fst p < length (ar_blocks a) \<and> snd p < ar_blocks a ! fst p \<and>
     (\<forall>off. ar_alloc_ptr a = Some (fst p, off) \<longrightarrow> snd p < off)"

text \<open>A fresh region: inside of a block, and taken only from now on.\<close>

definition hands_out :: "arena \<Rightarrow> place \<Rightarrow> nat \<Rightarrow> arena \<Rightarrow> bool" where
  "hands_out a p n a' \<longleftrightarrow> arena_ok a' \<and> (\<forall>q. taken a q \<longrightarrow> taken a' q) \<and>
     (\<forall>i < n. \<not> taken a (fst p, snd p + i) \<and> taken a' (fst p, snd p + i))"

lemma arena_ok_new: "arena_ok Arena" and taken_new: "\<not> taken Arena p"
  by (simp_all add: arena_ok_def taken_def Arena_def)

lemma hands_out_advance:
  assumes "arena_ok a" "ar_alloc_ptr a = Some (b, off)" "slop + n \<le> ar_remaining a"
  shows "hands_out a (b, off + slop) n
    (a\<lparr>ar_alloc_ptr := Some (b, off + (slop + n)), ar_remaining := ar_remaining a - (slop + n)\<rparr>)"
  using assms by (auto simp: hands_out_def arena_ok_def taken_def)

lemma hands_out_fallback:
  assumes "arena_ok a"
  shows "hands_out a (fst (AllocateFallback n a)) n (snd (AllocateFallback n a))"
    "snd (fst (AllocateFallback n a)) = 0"
  using assms
  by (auto simp: hands_out_def arena_ok_def taken_def AllocateFallback_def AllocateNewBlock_def arena_block_def
      nth_append split: option.splits)

lemma Allocate_hands_out:
  assumes "arena_ok a" "0 < n"
  obtains p a' where "Allocate n a = Some (p, a')" "hands_out a p n a'"
proof (cases "n \<le> ar_remaining a")
  case True
  with assms obtain b off where "ar_alloc_ptr a = Some (b, off)"
    by (auto simp: arena_ok_def split: option.splits)
  with that [of "(b, off)"] True assms hands_out_advance [OF assms(1), of b off 0 n] show thesis
    by (simp add: Allocate_def del: bind_Some_iff)
next
  case False
  with that [of "fst (AllocateFallback n a)" "snd (AllocateFallback n a)"] assms hands_out_fallback show thesis
    by (simp add: Allocate_def)
qed

lemma AllocateAligned_hands_out:
  assumes "arena_ok a" "0 < n"
  obtains p a' where "AllocateAligned n a = Some (p, a')" "hands_out a p n a'" "snd p mod 8 = 0"
proof -
  define slop where "slop = arena_slop a"
  show thesis
  proof (cases "n + slop \<le> ar_remaining a")
    case True
    with assms obtain b o' where p: "ar_alloc_ptr a = Some (b, o')"
      by (auto simp: arena_ok_def split: option.splits)
    then have "slop = (if o' mod 8 = 0 then 0 else 8 - o' mod 8)" by (simp add: slop_def arena_slop_def Let_def)
    then have aligned: "(o' + slop) mod 8 = 0" by presburger
    have "AllocateAligned n a = Some ((b, o' + slop),
        a\<lparr>ar_alloc_ptr := Some (b, o' + (slop + n)), ar_remaining := ar_remaining a - (slop + n)\<rparr>)"
      using True p aligned
      by (simp add: AllocateAligned_def Let_def add.commute [of n] flip: slop_def del: bind_Some_iff)
    then show thesis using that aligned hands_out_advance [OF assms(1) p, of slop n] True by (simp add: add.commute)
  next
    case False
    then have "AllocateAligned n a = Some (AllocateFallback n a)"
      using hands_out_fallback(2) [OF assms(1), of n]
      by (simp add: AllocateAligned_def Let_def flip: slop_def del: bind_Some_iff)
        (simp add: case_prod_beta)
    with that [of "fst (AllocateFallback n a)" "snd (AllocateFallback n a)"] hands_out_fallback [OF assms(1), of n]
    show thesis by simp
  qed
qed

end
