(* ===== verification/Ldb_Random.thy ===== *)
theory Ldb_Random
  imports C_Prelude
begin

text \<open>
  The generator of pseudo-random numbers of LevelDB, \<open>leveldb-library/util/random.h\<close>, and that it is
  multiplication by 16807 modulo the prime \<open>2 ^ 31 - 1\<close>.  The state is the seed; every operation
  returns the next one.
\<close>

definition Random_new :: "u32 \<Rightarrow> u32" where
  "Random_new s = (let seed = s AND 0x7fffffff in if seed = 0 \<or> seed = 2147483647 then 1 else seed)"

definition Random_Next :: "u32 \<Rightarrow> u32" where
  "Random_Next seed =
     (let M = (2147483647 :: u32);
          A = (16807 :: u64);
          product = ucast seed * A;
          seed = (ucast (drop_bit 31 product + (product AND ucast M)) :: u32)
      in if seed > M then seed - M else seed)"

text \<open>A remainder by 0 is undefined, and so is the shift of the last operation out of an \<open>int\<close>.\<close>

definition Uniform :: "int \<Rightarrow> u32 \<Rightarrow> (u32 \<times> u32) option" where
  "Uniform n seed = (let seed = Random_Next seed in
     if (of_int n :: u32) = 0 then None else Some (seed mod of_int n, seed))"

definition OneIn :: "int \<Rightarrow> u32 \<Rightarrow> (bool \<times> u32) option" where
  "OneIn n seed = map_option (\<lambda>(r, seed). (r = 0, seed)) (Uniform n seed)"

definition Skewed :: "int \<Rightarrow> u32 \<Rightarrow> (u32 \<times> u32) option" where
  "Skewed max_log seed = do {
     (base, seed) \<leftarrow> Uniform (max_log + 1) seed;
     if base < 31 then Uniform (push_bit (unat base) 1) seed else None
   }"

section \<open>The sequence of seeds\<close>

definition seed_ok :: "u32 \<Rightarrow> bool" where
  "seed_ok seed \<longleftrightarrow> 0 < seed \<and> seed < 2147483647"

lemma unat_u32_lit: "unat (2147483647 :: u32) = 2147483647"
  by simp

lemma seed_ok_new: "seed_ok (Random_new s)"
proof -
  have "(s AND 0x7fffffff) = take_bit 31 s" by (simp add: take_bit_eq_mask mask_eq_exp_minus_1)
  then have "unat (s AND 0x7fffffff) = take_bit 31 (unat s)" by (simp only: unsigned_take_bit_eq)
  then have "unat (s AND 0x7fffffff) < 2 ^ 31" by (simp only: take_bit_nat_less_exp)
  then have "s AND 0x7fffffff \<le> 2147483647" by (simp add: word_le_nat_alt)
  then show ?thesis by (auto simp: seed_ok_def Random_new_def Let_def word_gt_0 dest: order_le_imp_less_or_eq)
qed

lemma mod_reduce:
  fixes n :: nat
  assumes "n < 2 ^ 46" "n mod 2147483647 \<noteq> 0" "m = n div 2 ^ 31 + n mod 2 ^ 31"
  shows "(if 2147483647 < m then m - 2147483647 else m) = n mod 2147483647"
proof -
  have "n = n div 2 ^ 31 * 2147483648 + n mod 2 ^ 31" by simp
  also have "\<dots> = n div 2 ^ 31 * 2147483647 + m" using assms(3) by simp
  finally have eq: "n mod 2147483647 = m mod 2147483647" by (metis mod_mult_self3)
  have "n div 2 ^ 31 < 2 ^ 15" "n mod 2 ^ 31 < 2147483648" using assms(1) by simp_all
  then have "m < 2 * 2147483647" using assms(3) by simp
  then show ?thesis
    using assms(2) eq by (cases "m < 2147483647"; cases "m = 2147483647") (auto simp: le_mod_geq not_less)
qed

lemma coprime_A: "coprime (16807 :: nat) 2147483647"
proof (rule coprimeI)
  fix d :: nat assume "d dvd 16807" "d dvd 2147483647"
  then have "d dvd 739806647 * 16807" "d dvd 5790 * 2147483647" by - (rule dvd_mult, assumption)+
  then have "d dvd 5790 * 2147483647 - 739806647 * 16807" by (intro dvd_diff_nat)
  then show "is_unit d" by simp
qed

lemma Next_multiplies:
  assumes "seed_ok seed"
  shows "unat (Random_Next seed) = unat seed * 16807 mod 2147483647" "seed_ok (Random_Next seed)"
proof -
  let ?n = "unat seed * 16807"
  let ?p = "ucast seed * 16807 :: u64"
  have s: "0 < unat seed" "unat seed < 2147483647"
    using assms by (simp_all add: seed_ok_def word_less_nat_alt)
  have n: "?n < 2 ^ 46" using s(2) by simp
  have nz: "?n mod 2147483647 \<noteq> 0"
  proof
    assume "?n mod 2147483647 = 0"
    then have "2147483647 dvd unat seed" using coprime_A coprime_dvd_mult_left_iff by (metis coprime_commute mod_0_imp_dvd)
    with s show False by (auto dest: dvd_imp_le)
  qed
  have p: "unat ?p = ?n"
    using n by (simp add: unat_word_ariths unat_ucast_up)
  have mask: "(ucast (2147483647 :: u32) :: u64) = mask 31" by (simp add: mask_eq_exp_minus_1)
  define m where "m = ?n div 2 ^ 31 + ?n mod 2 ^ 31"
  have m_less: "m < 2 ^ 32" using n by (simp add: m_def)
  have sum: "unat (drop_bit 31 ?p + (?p AND ucast (2147483647 :: u32))) = m"
  proof -
    have a: "unat (drop_bit 31 ?p) = ?n div 2 ^ 31" by (simp only: unat_drop_bit_div p)
    have b: "unat (take_bit 31 ?p) = ?n mod 2 ^ 31"
      by (simp only: unsigned_take_bit_eq p) (simp only: take_bit_eq_mod)
    show ?thesis
      unfolding mask take_bit_eq_mask [symmetric] unat_word_ariths a b m_def [symmetric] using m_less by simp
  qed
  define v where "v = (ucast (drop_bit 31 ?p + (?p AND ucast (2147483647 :: u32))) :: u32)"
  have u: "unat v = m"
    unfolding v_def using sum m_less by (simp only: unsigned_ucast_eq) (simp add: take_bit_nat_eq_self_iff)
  have "Random_Next seed = (if 2147483647 < v then v - 2147483647 else v)"
    by (simp only: Random_Next_def Let_def v_def)
  then have "unat (Random_Next seed) = (if 2147483647 < m then m - 2147483647 else m)"
    using u by (simp add: word_less_nat_alt unat_sub word_le_nat_alt)
  with mod_reduce [OF n nz m_def] show eq: "unat (Random_Next seed) = ?n mod 2147483647" by simp
  show "seed_ok (Random_Next seed)" using nz by (simp add: seed_ok_def word_less_nat_alt eq)
qed

end
