(* ===== verification/Ldb_Skiplist.thy ===== *)
theory Ldb_Skiplist
  imports Ldb_Iterator Ldb_Arena Ldb_Random
begin

text \<open>
  The skip list under the memtable, \<open>leveldb-library/db/skiplist.h\<close>: nodes in the memory of an
  arena, each with an array of links whose length is the height of the node.  The atomic links
  of the code are read and written by one thread here.  A link that was never set, a link above
  the height of its node, a failed assertion, and a comparison without result are undefined.
\<close>

section \<open>State\<close>

text \<open>The key of the head is arbitrary, and here absent; \<open>NULL\<close> is \<open>None\<close>.\<close>

record 'k node =
  nd_key :: "'k option"
  nd_next :: "place option option list"

record 'k skiplist =
  sl_compare :: "'k \<Rightarrow> 'k \<Rightarrow> int option"
  sl_arena :: arena
  sl_nodes :: "place \<Rightarrow> 'k node option"
  sl_head :: place
  sl_max_height :: nat
  sl_rnd :: u32

definition kMaxHeight :: nat where "kMaxHeight = 12"

definition Node_Next :: "'k skiplist \<Rightarrow> place \<Rightarrow> nat \<Rightarrow> place option option" where
  "Node_Next sl x n = do {
     nd \<leftarrow> sl_nodes sl x;
     if n < length (nd_next nd) then nd_next nd ! n else None
   }"

definition SetNext :: "place \<Rightarrow> nat \<Rightarrow> place option \<Rightarrow> 'k skiplist \<Rightarrow> 'k skiplist option" where
  "SetNext x n y sl = do {
     nd \<leftarrow> sl_nodes sl x;
     if n < length (nd_next nd)
     then Some (sl\<lparr>sl_nodes := (sl_nodes sl)(x := Some (nd\<lparr>nd_next := (nd_next nd)[n := Some y]\<rparr>))\<rparr>)
     else None
   }"

definition Node_key :: "'k skiplist \<Rightarrow> place \<Rightarrow> 'k option" where
  "Node_key sl x = do { nd \<leftarrow> sl_nodes sl x; nd_key nd }"

text \<open>A node takes 16 bytes and 8 more for every link but the first; keys are pointers.\<close>

definition NewNode :: "'k option \<Rightarrow> nat \<Rightarrow> 'k skiplist \<Rightarrow> (place \<times> 'k skiplist) option" where
  "NewNode key height sl = do {
     (p, a) \<leftarrow> AllocateAligned (16 + 8 * (height - 1)) (sl_arena sl);
     Some (p, sl\<lparr>sl_arena := a,
       sl_nodes := (sl_nodes sl)(p := Some \<lparr>nd_key = key, nd_next = replicate height None\<rparr>)\<rparr>)
   }"

primrec clear_head :: "nat \<Rightarrow> 'k skiplist \<Rightarrow> 'k skiplist option" where
  "clear_head 0 sl = Some sl"
| "clear_head (Suc i) sl = do { sl \<leftarrow> clear_head i sl; SetNext (sl_head sl) i None sl }"

definition SkipList :: "('k \<Rightarrow> 'k \<Rightarrow> int option) \<Rightarrow> arena \<Rightarrow> 'k skiplist option" where
  "SkipList compare a = do {
     (head, sl) \<leftarrow> NewNode None kMaxHeight
       \<lparr>sl_compare = compare, sl_arena = a, sl_nodes = (\<lambda>_. None), sl_head = (0, 0), sl_max_height = 1,
        sl_rnd = Random_new 0xdeadbeef\<rparr>;
     clear_head kMaxHeight (sl\<lparr>sl_head := head\<rparr>)
   }"

function RandomHeight_loop :: "nat \<Rightarrow> u32 \<Rightarrow> nat \<times> u32" where
  "RandomHeight_loop height rnd =
     (if height < kMaxHeight
      then let rnd = Random_Next rnd
           in if rnd mod 4 = 0 then RandomHeight_loop (height + 1) rnd else (height, rnd)
      else (height, rnd))"
  by pat_completeness auto
termination
  by (relation "measure (\<lambda>(height, rnd). kMaxHeight - height)") auto

declare RandomHeight_loop.simps [simp del]

definition RandomHeight :: "'k skiplist \<Rightarrow> (nat \<times> 'k skiplist) option" where
  "RandomHeight sl =
     (let (height, rnd) = RandomHeight_loop 1 (sl_rnd sl)
      in if height > 0 \<and> height \<le> kMaxHeight then Some (height, sl\<lparr>sl_rnd := rnd\<rparr>) else None)"

section \<open>Searching\<close>

definition KeyIsAfterNode :: "'k skiplist \<Rightarrow> 'k \<Rightarrow> place option \<Rightarrow> bool option" where
  "KeyIsAfterNode sl key n =
     (case n of
        None \<Rightarrow> Some False
      | Some n \<Rightarrow> do {
          k \<leftarrow> Node_key sl n;
          r \<leftarrow> sl_compare sl k key;
          Some (r < 0)
        })"

text \<open>The array \<open>prev\<close> is optional, its elements are not initialised.\<close>

definition set_prev :: "nat \<Rightarrow> place \<Rightarrow> place option list option \<Rightarrow> place option list option option" where
  "set_prev level x prev =
     (case prev of
        None \<Rightarrow> Some None
      | Some ps \<Rightarrow> if level < length ps then Some (Some (ps[level := Some x])) else None)"

partial_function (option) FindGreaterOrEqual_loop ::
  "'k skiplist \<Rightarrow> 'k \<Rightarrow> place \<Rightarrow> nat \<Rightarrow> place option list option \<Rightarrow> (place option \<times> place option list option) option" where
  "FindGreaterOrEqual_loop sl key x level prev = do {
     next_node \<leftarrow> Node_Next sl x level;
     after \<leftarrow> KeyIsAfterNode sl key next_node;
     if after then do {
       y \<leftarrow> next_node;
       FindGreaterOrEqual_loop sl key y level prev
     }
     else do {
       prev \<leftarrow> set_prev level x prev;
       if level = 0 then Some (next_node, prev) else FindGreaterOrEqual_loop sl key x (level - 1) prev
     }
   }"

declare FindGreaterOrEqual_loop.simps [code]

definition FindGreaterOrEqual ::
  "'k skiplist \<Rightarrow> 'k \<Rightarrow> place option list option \<Rightarrow> (place option \<times> place option list option) option" where
  "FindGreaterOrEqual sl key prev = FindGreaterOrEqual_loop sl key (sl_head sl) (sl_max_height sl - 1) prev"

definition at_or_after :: "'k skiplist \<Rightarrow> 'k \<Rightarrow> place \<Rightarrow> bool option" where
  "at_or_after sl key y = do {
     k \<leftarrow> Node_key sl y;
     r \<leftarrow> sl_compare sl k key;
     Some (r \<ge> 0)
   }"

partial_function (option) FindLessThan_loop :: "'k skiplist \<Rightarrow> 'k \<Rightarrow> place \<Rightarrow> nat \<Rightarrow> place option" where
  "FindLessThan_loop sl key x level = do {
     ok \<leftarrow> (if x = sl_head sl then Some True else map_option Not (at_or_after sl key x));
     if \<not> ok then None
     else do {
       next_node \<leftarrow> Node_Next sl x level;
       (case next_node of
          None \<Rightarrow> if level = 0 then Some x else FindLessThan_loop sl key x (level - 1)
        | Some y \<Rightarrow> do {
            stop \<leftarrow> at_or_after sl key y;
            if stop then if level = 0 then Some x else FindLessThan_loop sl key x (level - 1)
            else FindLessThan_loop sl key y level
          })
     }
   }"

declare FindLessThan_loop.simps [code]

definition FindLessThan :: "'k skiplist \<Rightarrow> 'k \<Rightarrow> place option" where
  "FindLessThan sl key = FindLessThan_loop sl key (sl_head sl) (sl_max_height sl - 1)"

partial_function (option) FindLast_loop :: "'k skiplist \<Rightarrow> place \<Rightarrow> nat \<Rightarrow> place option" where
  "FindLast_loop sl x level = do {
     next_node \<leftarrow> Node_Next sl x level;
     (case next_node of
        None \<Rightarrow> if level = 0 then Some x else FindLast_loop sl x (level - 1)
      | Some y \<Rightarrow> FindLast_loop sl y level)
   }"

declare FindLast_loop.simps [code]

definition FindLast :: "'k skiplist \<Rightarrow> place option" where
  "FindLast sl = FindLast_loop sl (sl_head sl) (sl_max_height sl - 1)"

section \<open>Inserting\<close>

definition SkipList_Equal :: "'k skiplist \<Rightarrow> 'k \<Rightarrow> 'k \<Rightarrow> bool option" where
  "SkipList_Equal sl a b = map_option (\<lambda>r. r = 0) (sl_compare sl a b)"

text \<open>The head becomes the predecessor on the levels from \<open>i\<close> to below \<open>height\<close>.\<close>

primrec raise_prev :: "nat \<Rightarrow> nat \<Rightarrow> place \<Rightarrow> place option list \<Rightarrow> place option list option" where
  "raise_prev 0 i head prev = Some prev"
| "raise_prev (Suc n) i head prev =
     (if i < length prev then raise_prev n (Suc i) head (prev[i := Some head]) else None)"

definition raise_height :: "nat \<Rightarrow> place option list \<Rightarrow> 'k skiplist \<Rightarrow> (place option list \<times> 'k skiplist) option" where
  "raise_height height prev sl =
     (if height > sl_max_height sl
      then do {
        prev \<leftarrow> raise_prev (height - sl_max_height sl) (sl_max_height sl) (sl_head sl) prev;
        Some (prev, sl\<lparr>sl_max_height := height\<rparr>)
      }
      else Some (prev, sl))"

primrec link_levels :: "nat \<Rightarrow> nat \<Rightarrow> place \<Rightarrow> place option list \<Rightarrow> 'k skiplist \<Rightarrow> 'k skiplist option" where
  "link_levels 0 i x prev sl = Some sl"
| "link_levels (Suc n) i x prev sl = do {
     p \<leftarrow> (if i < length prev then prev ! i else None);
     y \<leftarrow> Node_Next sl p i;
     sl \<leftarrow> SetNext x i y sl;
     sl \<leftarrow> SetNext p i (Some x) sl;
     link_levels n (Suc i) x prev sl
   }"

definition SkipList_Insert :: "'k \<Rightarrow> 'k skiplist \<Rightarrow> 'k skiplist option" where
  "SkipList_Insert key sl = do {
     (x, prev) \<leftarrow> FindGreaterOrEqual sl key (Some (replicate kMaxHeight None));
     duplicate \<leftarrow> (case x of
         None \<Rightarrow> Some False
       | Some x \<Rightarrow> do { k \<leftarrow> Node_key sl x; SkipList_Equal sl key k });
     if duplicate then None
     else do {
       prev \<leftarrow> prev;
       (height, sl) \<leftarrow> RandomHeight sl;
       (prev, sl) \<leftarrow> raise_height height prev sl;
       (x, sl) \<leftarrow> NewNode (Some key) height sl;
       link_levels height 0 x prev sl
     }
   }"

definition Contains :: "'k \<Rightarrow> 'k skiplist \<Rightarrow> bool option" where
  "Contains key sl = do {
     (x, prev) \<leftarrow> FindGreaterOrEqual sl key None;
     (case x of
        None \<Rightarrow> Some False
      | Some x \<Rightarrow> do { k \<leftarrow> Node_key sl x; SkipList_Equal sl key k })
   }"

section \<open>Iterator\<close>

record 'k skip_iter =
  si_list :: "'k skiplist"
  si_node :: "place option"

definition skip_Iterator :: "'k skiplist \<Rightarrow> 'k skip_iter" where
  "skip_Iterator sl = \<lparr>si_list = sl, si_node = None\<rparr>"

definition skip_Valid :: "'k skip_iter \<Rightarrow> bool" where
  "skip_Valid it \<longleftrightarrow> si_node it \<noteq> None"

definition skip_key :: "'k skip_iter \<Rightarrow> 'k option" where
  "skip_key it = do { x \<leftarrow> si_node it; Node_key (si_list it) x }"

definition skip_Next :: "'k skip_iter \<Rightarrow> 'k skip_iter option" where
  "skip_Next it = do {
     x \<leftarrow> si_node it;
     y \<leftarrow> Node_Next (si_list it) x 0;
     Some (it\<lparr>si_node := y\<rparr>)
   }"

definition skip_Prev :: "'k skip_iter \<Rightarrow> 'k skip_iter option" where
  "skip_Prev it = do {
     x \<leftarrow> si_node it;
     k \<leftarrow> Node_key (si_list it) x;
     y \<leftarrow> FindLessThan (si_list it) k;
     Some (it\<lparr>si_node := (if y = sl_head (si_list it) then None else Some y)\<rparr>)
   }"

definition skip_Seek :: "'k \<Rightarrow> 'k skip_iter \<Rightarrow> 'k skip_iter option" where
  "skip_Seek target it = do {
     (x, prev) \<leftarrow> FindGreaterOrEqual (si_list it) target None;
     Some (it\<lparr>si_node := x\<rparr>)
   }"

definition skip_SeekToFirst :: "'k skip_iter \<Rightarrow> 'k skip_iter option" where
  "skip_SeekToFirst it = do {
     x \<leftarrow> Node_Next (si_list it) (sl_head (si_list it)) 0;
     Some (it\<lparr>si_node := x\<rparr>)
   }"

definition skip_SeekToLast :: "'k skip_iter \<Rightarrow> 'k skip_iter option" where
  "skip_SeekToLast it = do {
     x \<leftarrow> FindLast (si_list it);
     Some (it\<lparr>si_node := (if x = sl_head (si_list it) then None else Some x)\<rparr>)
   }"

end
