(* ===== verification/Ldb_Skiplist_Rep.thy ===== *)
theory Ldb_Skiplist_Rep
  imports Ldb_Skiplist
begin

text \<open>
  What a skip list represents: the list of its nodes in the order of the lowest level.  On every
  level, a node that reaches the level points to the next node that does.  From this, the three
  searches and insertion are correct for any heights of the nodes.
\<close>

definition tallness :: "'k skiplist \<Rightarrow> place \<Rightarrow> nat" where
  "tallness sl p = (case sl_nodes sl p of None \<Rightarrow> 0 | Some nd \<Rightarrow> length (nd_next nd))"

abbreviation reaches :: "'k skiplist \<Rightarrow> nat \<Rightarrow> place \<Rightarrow> bool" where
  "reaches sl l p \<equiv> l < tallness sl p"

text \<open>Position 0 is the head.\<close>

definition node_at :: "'k skiplist \<Rightarrow> place list \<Rightarrow> nat \<Rightarrow> place" where
  "node_at sl ps n = (sl_head sl # ps) ! n"

definition skip_links :: "'k skiplist \<Rightarrow> place list \<Rightarrow> bool" where
  "skip_links sl ps \<longleftrightarrow> distinct (sl_head sl # ps) \<and>
     1 \<le> sl_max_height sl \<and> sl_max_height sl \<le> kMaxHeight \<and> tallness sl (sl_head sl) = kMaxHeight \<and>
     (\<forall>p \<in> set ps. 1 \<le> tallness sl p \<and> tallness sl p \<le> sl_max_height sl) \<and>
     (\<forall>n \<le> length ps. \<forall>l. reaches sl l (node_at sl ps n) \<longrightarrow>
        Node_Next sl (node_at sl ps n) l = Some (find (reaches sl l) (drop n ps)))"

definition skip_memory :: "'k skiplist \<Rightarrow> bool" where
  "skip_memory sl \<longleftrightarrow> arena_ok (sl_arena sl) \<and> (\<forall>p. sl_nodes sl p \<noteq> None \<longrightarrow> taken (sl_arena sl) p)"

definition skip_rep :: "'k skiplist \<Rightarrow> place list \<Rightarrow> 'k list \<Rightarrow> bool" where
  "skip_rep sl ps ks \<longleftrightarrow> skip_links sl ps \<and> skip_memory sl \<and> map (Node_key sl) ps = map Some ks"

lemma node_at_simps [simp]: "node_at sl ps 0 = sl_head sl" "node_at sl ps (Suc n) = ps ! n"
  by (simp_all add: node_at_def)

lemma node_at_eq_iff:
  "skip_links sl ps \<Longrightarrow> n \<le> length ps \<Longrightarrow> m \<le> length ps \<Longrightarrow> node_at sl ps n = node_at sl ps m \<longleftrightarrow> n = m"
  unfolding skip_links_def node_at_def by (metis le_imp_less_Suc length_Cons nth_eq_iff_index_eq)

text \<open>The position before \<open>k\<close> where the search leaves level \<open>l\<close>.\<close>

primrec before :: "'k skiplist \<Rightarrow> place list \<Rightarrow> nat \<Rightarrow> nat \<Rightarrow> nat" where
  "before sl ps l 0 = 0"
| "before sl ps l (Suc k) = (if reaches sl l (ps ! k) then Suc k else before sl ps l k)"

lemma before_le: "before sl ps l k \<le> k"
  by (induction k) (auto intro: le_SucI)

lemma before_reaches: "reaches sl l (sl_head sl) \<Longrightarrow> reaches sl l (node_at sl ps (before sl ps l k))"
  by (induction k) auto

lemma before_none: "before sl ps l k \<le> i \<Longrightarrow> i < k \<Longrightarrow> \<not> reaches sl l (ps ! i)"
  by (induction k) (auto split: if_splits simp: less_Suc_eq)

lemma before_unique:
  assumes "n \<le> k" "reaches sl l (node_at sl ps n)" "\<And>i. n \<le> i \<Longrightarrow> i < k \<Longrightarrow> \<not> reaches sl l (ps ! i)"
  shows "n = before sl ps l k"
  using assms
proof (induction k)
  case (Suc k)
  show ?case
  proof (cases "n = Suc k")
    case False
    with Suc have "n = before sl ps l k" "\<not> reaches sl l (ps ! k)" by simp_all
    then show ?thesis by simp
  qed (use Suc.prems in simp)
qed simp

lemma find_prefix_None:
  "n \<le> k \<Longrightarrow> k \<le> length ps \<Longrightarrow> find P (drop n (take k ps)) = None \<longleftrightarrow> (\<forall>i. n \<le> i \<longrightarrow> i < k \<longrightarrow> \<not> P (ps ! i))"
  by (auto simp: find_None_iff in_set_conv_nth) (metis add.commute le_add_diff_inverse less_diff_conv min.absorb2)

lemma find_append: "find P (xs @ ys) = (case find P xs of None \<Rightarrow> find P ys | Some x \<Rightarrow> Some x)"
  by (induction xs) simp_all

lemma find_split:
  assumes "n \<le> k" "k \<le> length ps"
  shows "find P (drop n ps) = (case find P (drop n (take k ps)) of None \<Rightarrow> find P (drop k ps) | Some x \<Rightarrow> Some x)"
proof -
  have "drop n ps = drop n (take k ps) @ drop k ps"
    using assms by (metis append_take_drop_id drop_append length_take min.absorb2 diff_is_0_eq drop_0)
  then show ?thesis by (simp add: find_append split: option.splits)
qed

lemma before_iff:
  assumes "n \<le> k" "k \<le> length ps" "reaches sl l (node_at sl ps n)"
  shows "find (reaches sl l) (drop n (take k ps)) = None \<longleftrightarrow> n = before sl ps l k"
  using assms before_unique [OF assms(1,3)] before_none [of sl ps l k] by (auto simp: find_prefix_None)

text \<open>One step of a search for position \<open>k\<close>: along the level, or down.\<close>

lemma next_cases:
  assumes "skip_links sl ps" "n \<le> k" "k \<le> length ps" "reaches sl l (node_at sl ps n)"
  obtains (along) m where "n < m" "m \<le> k" "reaches sl l (node_at sl ps m)"
      "Node_Next sl (node_at sl ps n) l = Some (Some (node_at sl ps m))"
    | (down) "n = before sl ps l k" "Node_Next sl (node_at sl ps n) l = Some (find (reaches sl l) (drop k ps))"
proof -
  have nxt: "Node_Next sl (node_at sl ps n) l = Some (find (reaches sl l) (drop n ps))"
    using assms by (simp add: skip_links_def)
  show thesis
  proof (cases "find (reaches sl l) (drop n (take k ps))")
    case None
    with down nxt before_iff [OF assms(2-4)] find_split [OF assms(2,3)] show thesis by simp
  next
    case (Some x)
    then obtain i where i: "i < k - n" "x = drop n (take k ps) ! i" "reaches sl l x"
      using assms by (auto simp: find_Some_iff)
    then have "x = node_at sl ps (Suc (n + i))" using assms by simp
    with i along [of "Suc (n + i)"] nxt Some find_split [OF assms(2,3)] show thesis by simp
  qed
qed

lemma find_from:
  "find P (drop k ps) = Some y \<Longrightarrow> \<exists>i. k \<le> i \<and> i < length ps \<and> y = ps ! i"
  by (auto simp: find_Some_iff) (metis add.commute le_add1 less_diff_conv)

definition node_from :: "place list \<Rightarrow> nat \<Rightarrow> place option" where
  "node_from ps k = (if k < length ps then Some (ps ! k) else None)"

lemma lowest_level:
  assumes "skip_links sl ps" "k \<le> length ps"
  shows "before sl ps 0 k = k" "find (reaches sl 0) (drop k ps) = node_from ps k"
proof -
  have tall: "reaches sl 0 p" if "p \<in> set ps" for p
    using assms(1) that by (auto simp: skip_links_def Suc_le_eq)
  then show "before sl ps 0 k = k" using assms(2) by (cases k) simp_all
  show "find (reaches sl 0) (drop k ps) = node_from ps k"
    using tall by (cases "k < length ps") (auto simp: node_from_def Cons_nth_drop_Suc [symmetric])
qed

section \<open>The searches\<close>

text \<open>The keys below the target are those before position \<open>k\<close>.\<close>

definition splits_at :: "'k skiplist \<Rightarrow> 'k list \<Rightarrow> 'k \<Rightarrow> nat \<Rightarrow> bool" where
  "splits_at sl ks target k \<longleftrightarrow> k \<le> length ks \<and>
     (\<forall>i < length ks. \<exists>r. sl_compare sl (ks ! i) target = Some r \<and> (r < 0 \<longleftrightarrow> i < k))"

lemma rep_length: "skip_rep sl ps ks \<Longrightarrow> length ks = length ps"
  unfolding skip_rep_def by (metis length_map)

lemma rep_key: "skip_rep sl ps ks \<Longrightarrow> i < length ps \<Longrightarrow> Node_key sl (ps ! i) = Some (ks ! i)"
  using rep_length [of sl ps ks] unfolding skip_rep_def by (metis nth_map)

lemma KeyIsAfterNode_at:
  assumes "skip_rep sl ps ks" "splits_at sl ks target k" "i < length ps"
  shows "KeyIsAfterNode sl target (Some (ps ! i)) = Some (i < k)" "at_or_after sl target (ps ! i) = Some (k \<le> i)"
  using assms rep_key [OF assms(1,3)] rep_length [OF assms(1)]
  by (auto simp: splits_at_def KeyIsAfterNode_def at_or_after_def not_less [symmetric] del: bind_Some_iff)

definition prevs :: "'k skiplist \<Rightarrow> place list \<Rightarrow> nat \<Rightarrow> nat \<Rightarrow> place option list \<Rightarrow> place option list" where
  "prevs sl ps k level pr = map (\<lambda>i. if i \<le> level then Some (node_at sl ps (before sl ps i k)) else pr ! i) [0..<length pr]"

lemma prevs_nth [simp]:
  "length (prevs sl ps k level pr) = length pr"
  "i < length pr \<Longrightarrow> prevs sl ps k level pr ! i = (if i \<le> level then Some (node_at sl ps (before sl ps i k)) else pr ! i)"
  by (simp_all add: prevs_def)

lemma prevs_down:
  assumes "level < length pr" "level \<noteq> 0"
  shows "prevs sl ps k (level - 1) (pr[level := Some (node_at sl ps (before sl ps level k))]) = prevs sl ps k level pr"
proof (rule nth_equalityI)
  fix i assume "i < length (prevs sl ps k (level - 1) (pr[level := Some (node_at sl ps (before sl ps level k))]))"
  with assms show "prevs sl ps k (level - 1) (pr[level := Some (node_at sl ps (before sl ps level k))]) ! i =
      prevs sl ps k level pr ! i"
    by (cases i level rule: linorder_cases) auto
qed simp

lemma prevs_bottom:
  assumes "0 < length pr"
  shows "pr[0 := Some (node_at sl ps (before sl ps 0 k))] = prevs sl ps k 0 pr"
proof (rule nth_equalityI)
  fix i assume "i < length (pr[0 := Some (node_at sl ps (before sl ps 0 k))])"
  then show "pr[0 := Some (node_at sl ps (before sl ps 0 k))] ! i = prevs sl ps k 0 pr ! i"
    by (cases "i = 0") simp_all
qed simp

lemma reaches_head: "skip_links sl ps \<Longrightarrow> l < sl_max_height sl \<Longrightarrow> reaches sl l (sl_head sl)"
  by (auto simp: skip_links_def)

lemma FindGreaterOrEqual_at:
  assumes rep: "skip_rep sl ps ks" and split: "splits_at sl ks target k"
    and "n \<le> k" "reaches sl level (node_at sl ps n)" "\<And>pr. prev = Some pr \<Longrightarrow> level < length pr"
  shows "FindGreaterOrEqual_loop sl target (node_at sl ps n) level prev =
    Some (node_from ps k, map_option (prevs sl ps k level) prev)"
  using assms(3-)
proof (induction "level * Suc (length ps) + (k - n)" arbitrary: n level prev rule: less_induct)
  case less
  have links: "skip_links sl ps" and k: "k \<le> length ps"
    using rep split rep_length [OF rep] by (simp_all add: skip_rep_def splits_at_def)
  show ?case
  proof (cases rule: next_cases [OF links less.prems(1) k less.prems(2)])
    case (1 m)
    then have m: "0 < m" "m - 1 < k" "node_at sl ps m = ps ! (m - 1)" by (cases m; simp)+
    have after: "KeyIsAfterNode sl target (Some (node_at sl ps m)) = Some True"
      using KeyIsAfterNode_at(1) [OF rep split, of "m - 1"] m k by simp
    have "FindGreaterOrEqual_loop sl target (node_at sl ps n) level prev =
        FindGreaterOrEqual_loop sl target (node_at sl ps m) level prev"
      using 1(4) after by (simp add: FindGreaterOrEqual_loop.simps [of sl target "node_at sl ps n"] del: bind_Some_iff)
    then show ?thesis using less.hyps [of level m prev] 1 less.prems by simp
  next
    case 2
    let ?next = "find (reaches sl level) (drop k ps)"
    have after: "KeyIsAfterNode sl target ?next = Some False"
    proof (cases ?next)
      case (Some y)
      then obtain i where "k \<le> i" "i < length ps" "y = ps ! i" using find_from by metis
      with Some KeyIsAfterNode_at(1) [OF rep split, of i] show ?thesis by simp
    qed (simp add: KeyIsAfterNode_def)
    let ?prev = "map_option (\<lambda>pr. pr[level := Some (node_at sl ps n)]) prev"
    have prev: "set_prev level (node_at sl ps n) prev = Some ?prev"
      using less.prems(3) by (cases prev) (simp_all add: set_prev_def)
    have unf: "FindGreaterOrEqual_loop sl target (node_at sl ps n) level prev = (if level = 0 then Some (?next, ?prev)
        else FindGreaterOrEqual_loop sl target (node_at sl ps n) (level - 1) ?prev)"
      using 2(2) after prev
      by (simp add: FindGreaterOrEqual_loop.simps [of sl target "node_at sl ps n" level prev] del: bind_Some_iff)
    show ?thesis
    proof (cases "level = 0")
      case True
      have "?prev = map_option (prevs sl ps k 0) prev"
        using less.prems(3) prevs_bottom [of _ sl ps k] True 2(1) by (cases prev) auto
      with unf True lowest_level(2) [OF links k] show ?thesis by simp
    next
      case False
      have "(level - 1) * Suc (length ps) + Suc (length ps) = level * Suc (length ps)"
        using False by (cases level) simp_all
      then have dec: "(level - 1) * Suc (length ps) + (k - n) < level * Suc (length ps) + (k - n)" by linarith
      have "FindGreaterOrEqual_loop sl target (node_at sl ps n) (level - 1) ?prev =
          Some (node_from ps k, map_option (prevs sl ps k (level - 1)) ?prev)"
        using less.prems by (intro less.hyps [OF dec]) auto
      moreover have "map_option (prevs sl ps k (level - 1)) ?prev = map_option (prevs sl ps k level) prev"
        using prevs_down [of level _ sl ps k] False less.prems(3) 2(1) by (cases prev) auto
      ultimately show ?thesis using unf False by simp
    qed
  qed
qed

lemma FindGreaterOrEqual_rep:
  assumes "skip_rep sl ps ks" "splits_at sl ks target k" "\<And>pr. prev = Some pr \<Longrightarrow> kMaxHeight = length pr"
  shows "FindGreaterOrEqual sl target prev = Some (node_from ps k, map_option (prevs sl ps k (sl_max_height sl - 1)) prev)"
proof -
  have links: "skip_links sl ps" using assms(1) by (simp add: skip_rep_def)
  then have "sl_max_height sl - 1 < sl_max_height sl" "sl_max_height sl \<le> kMaxHeight" by (simp_all add: skip_links_def)
  then show ?thesis
    unfolding FindGreaterOrEqual_def node_at_simps(1) [of sl ps, symmetric]
    using reaches_head [OF links] assms(3) by (intro FindGreaterOrEqual_at [OF assms(1,2)]) auto
qed
lemma FindLessThan_at:
  assumes rep: "skip_rep sl ps ks" and split: "splits_at sl ks target k"
    and "n \<le> k" "reaches sl level (node_at sl ps n)"
  shows "FindLessThan_loop sl target (node_at sl ps n) level = Some (node_at sl ps k)"
  using assms(3-)
proof (induction "level * Suc (length ps) + (k - n)" arbitrary: n level rule: less_induct)
  case less
  have links: "skip_links sl ps" and k: "k \<le> length ps"
    using rep split rep_length [OF rep] by (simp_all add: skip_rep_def splits_at_def)
  have assertion: "(if node_at sl ps n = sl_head sl then Some True
      else map_option Not (at_or_after sl target (node_at sl ps n))) = Some True"
    using KeyIsAfterNode_at(2) [OF rep split, of "n - 1"] less.prems(1) k by (cases n) auto
  show ?case
  proof (cases rule: next_cases [OF links less.prems(1) k less.prems(2)])
    case (1 m)
    then have m: "0 < m" "m - 1 < k" "node_at sl ps m = ps ! (m - 1)" by (cases m; simp)+
    have "at_or_after sl target (node_at sl ps m) = Some False"
      using KeyIsAfterNode_at(2) [OF rep split, of "m - 1"] m k by simp
    then have "FindLessThan_loop sl target (node_at sl ps n) level = FindLessThan_loop sl target (node_at sl ps m) level"
      using 1(4) assertion
      by (simp add: FindLessThan_loop.simps [of sl target "node_at sl ps n"] del: bind_Some_iff if_split_asm)
    then show ?thesis using less.hyps [of level m] 1 less.prems by simp
  next
    case 2
    let ?next = "find (reaches sl level) (drop k ps)"
    have stop: "at_or_after sl target y = Some True" if y: "?next = Some y" for y
    proof -
      obtain i where "k \<le> i" "i < length ps" "y = ps ! i" using find_from [OF y] by blast
      with KeyIsAfterNode_at(2) [OF rep split, of i] show ?thesis by simp
    qed
    have unf: "FindLessThan_loop sl target (node_at sl ps n) level = (if level = 0 then Some (node_at sl ps n)
        else FindLessThan_loop sl target (node_at sl ps n) (level - 1))"
      using 2(2) stop assertion
      by (cases ?next) (simp_all add: FindLessThan_loop.simps [of sl target "node_at sl ps n" level] del: bind_Some_iff)
    show ?thesis
    proof (cases "level = 0")
      case True
      with unf 2(1) lowest_level(1) [OF links k] show ?thesis by simp
    next
      case False
      have "(level - 1) * Suc (length ps) + Suc (length ps) = level * Suc (length ps)"
        using False by (cases level) simp_all
      then have dec: "(level - 1) * Suc (length ps) + (k - n) < level * Suc (length ps) + (k - n)" by linarith
      show ?thesis using less.hyps [OF dec] less.prems unf False by simp
    qed
  qed
qed

lemma FindLessThan_rep:
  assumes "skip_rep sl ps ks" "splits_at sl ks target k"
  shows "FindLessThan sl target = Some (node_at sl ps k)"
proof -
  have links: "skip_links sl ps" using assms(1) by (simp add: skip_rep_def)
  then show ?thesis
    unfolding FindLessThan_def node_at_simps(1) [of sl ps, symmetric]
    using reaches_head [OF links] by (intro FindLessThan_at [OF assms]) (auto simp: skip_links_def)
qed

lemma FindLast_at:
  assumes links: "skip_links sl ps" and "n \<le> length ps" "reaches sl level (node_at sl ps n)"
  shows "FindLast_loop sl (node_at sl ps n) level = Some (node_at sl ps (length ps))"
  using assms(2-)
proof (induction "level * Suc (length ps) + (length ps - n)" arbitrary: n level rule: less_induct)
  case less
  show ?case
  proof (cases rule: next_cases [OF links less.prems(1) order_refl less.prems(2)])
    case (1 m)
    then have "FindLast_loop sl (node_at sl ps n) level = FindLast_loop sl (node_at sl ps m) level"
      by (simp add: FindLast_loop.simps [of sl "node_at sl ps n"] del: bind_Some_iff)
    then show ?thesis using less.hyps [of level m] 1 less.prems by simp
  next
    case 2
    have unf: "FindLast_loop sl (node_at sl ps n) level = (if level = 0 then Some (node_at sl ps n)
        else FindLast_loop sl (node_at sl ps n) (level - 1))"
      using 2(2) by (simp add: FindLast_loop.simps [of sl "node_at sl ps n" level] del: bind_Some_iff)
    show ?thesis
    proof (cases "level = 0")
      case True
      with unf 2(1) lowest_level(1) [OF links order_refl] show ?thesis by simp
    next
      case False
      have "(level - 1) * Suc (length ps) + Suc (length ps) = level * Suc (length ps)"
        using False by (cases level) simp_all
      then have dec: "(level - 1) * Suc (length ps) + (length ps - n) < level * Suc (length ps) + (length ps - n)"
        by linarith
      show ?thesis using less.hyps [OF dec] less.prems unf False by simp
    qed
  qed
qed

lemma FindLast_rep:
  assumes "skip_links sl ps"
  shows "FindLast sl = Some (node_at sl ps (length ps))"
  unfolding FindLast_def node_at_simps(1) [of sl ps, symmetric]
  using reaches_head [OF assms] assms by (intro FindLast_at) (auto simp: skip_links_def)

section \<open>Setting links\<close>

text \<open>What setting links leaves alone.\<close>

definition same_shape :: "'k skiplist \<Rightarrow> 'k skiplist \<Rightarrow> bool" where
  "same_shape sl sl' \<longleftrightarrow> (\<exists>nodes. sl' = sl\<lparr>sl_nodes := nodes\<rparr>) \<and>
     (\<forall>z. tallness sl' z = tallness sl z \<and> Node_key sl' z = Node_key sl z \<and>
       (sl_nodes sl' z = None \<longleftrightarrow> sl_nodes sl z = None))"

lemma same_shape_refl: "same_shape sl sl"
  by (auto simp: same_shape_def intro: exI [of _ "sl_nodes sl"])

lemma same_shape_trans: "same_shape a b \<Longrightarrow> same_shape b c \<Longrightarrow> same_shape a c"
  by (auto simp: same_shape_def simp del: split_paired_All)

lemma same_shape_fields:
  assumes "same_shape sl sl'"
  shows "sl_head sl' = sl_head sl" "sl_max_height sl' = sl_max_height sl" "sl_arena sl' = sl_arena sl"
    "sl_compare sl' = sl_compare sl" "tallness sl' = tallness sl" "Node_key sl' = Node_key sl"
    "sl_nodes sl' z = None \<longleftrightarrow> sl_nodes sl z = None"
  using assms by (auto simp: same_shape_def fun_eq_iff simp del: split_paired_All)

lemma SetNext_at:
  assumes "reaches sl n x"
  obtains sl' where "SetNext x n y sl = Some sl'" "same_shape sl sl'"
    "\<And>z l. Node_Next sl' z l = (if z = x \<and> l = n then Some y else Node_Next sl z l)"
proof -
  obtain nd where nd: "sl_nodes sl x = Some nd" "n < length (nd_next nd)"
    using assms by (auto simp: tallness_def split: option.splits)
  let ?sl = "sl\<lparr>sl_nodes := (sl_nodes sl)(x := Some (nd\<lparr>nd_next := (nd_next nd)[n := Some y]\<rparr>))\<rparr>"
  have "SetNext x n y sl = Some ?sl" using nd by (simp add: SetNext_def)
  moreover have "same_shape sl ?sl"
    using nd by (auto simp: same_shape_def tallness_def Node_key_def)
  moreover have "Node_Next ?sl z l = (if z = x \<and> l = n then Some y else Node_Next sl z l)" for z l
    using nd by (auto simp: Node_Next_def)
  ultimately show thesis using that by blast
qed

lemma link_levels_at:
  assumes "\<And>j. i \<le> j \<Longrightarrow> j < i + n \<Longrightarrow> j < length prev \<and> prev ! j = Some (q j) \<and> q j \<noteq> x \<and>
      reaches sl j (q j) \<and> reaches sl j x \<and> Node_Next sl (q j) j = Some (y j)"
  obtains sl' where "link_levels n i x prev sl = Some sl'" "same_shape sl sl'"
    "\<And>z l. Node_Next sl' z l = (if i \<le> l \<and> l < i + n \<and> z = x then Some (y l)
       else if i \<le> l \<and> l < i + n \<and> z = q l then Some (Some x) else Node_Next sl z l)"
  using assms
proof (induction n arbitrary: i sl thesis)
  case 0
  show ?case by (rule 0(1) [of sl]) (auto intro: same_shape_refl)
next
  case (Suc n)
  have now: "i < length prev" "prev ! i = Some (q i)" "q i \<noteq> x" "reaches sl i (q i)" "reaches sl i x"
      "Node_Next sl (q i) i = Some (y i)"
    using Suc.prems(2) [of i] by simp_all
  obtain sl1 where 1: "SetNext x i (y i) sl = Some sl1" "same_shape sl sl1"
      "\<And>z l. Node_Next sl1 z l = (if z = x \<and> l = i then Some (y i) else Node_Next sl z l)"
    using SetNext_at [OF now(5), of "y i"] by metis
  have "reaches sl1 i (q i)" using now(4) same_shape_fields(5) [OF 1(2)] by simp
  then obtain sl2 where 2: "SetNext (q i) i (Some x) sl1 = Some sl2" "same_shape sl1 sl2"
      "\<And>z l. Node_Next sl2 z l = (if z = q i \<and> l = i then Some (Some x) else Node_Next sl1 z l)"
    using SetNext_at by metis
  have shape: "same_shape sl sl2" by (rule same_shape_trans [OF 1(2) 2(2)])
  obtain sl3 where 3: "link_levels n (Suc i) x prev sl2 = Some sl3" "same_shape sl2 sl3"
      "\<And>z l. Node_Next sl3 z l = (if Suc i \<le> l \<and> l < Suc i + n \<and> z = x then Some (y l)
        else if Suc i \<le> l \<and> l < Suc i + n \<and> z = q l then Some (Some x) else Node_Next sl2 z l)"
  proof (rule Suc.IH)
    fix j assume "Suc i \<le> j" "j < Suc i + n"
    then show "j < length prev \<and> prev ! j = Some (q j) \<and> q j \<noteq> x \<and> reaches sl2 j (q j) \<and> reaches sl2 j x \<and>
        Node_Next sl2 (q j) j = Some (y j)"
      using Suc.prems(2) [of j] same_shape_fields(5) [OF shape] by (simp add: 1(3) 2(3))
  next
    fix sl3
    assume "link_levels n (Suc i) x prev sl2 = Some sl3" "same_shape sl2 sl3"
      "\<And>z l. Node_Next sl3 z l = (if Suc i \<le> l \<and> l < Suc i + n \<and> z = x then Some (y l)
        else if Suc i \<le> l \<and> l < Suc i + n \<and> z = q l then Some (Some x) else Node_Next sl2 z l)"
    then show thesis by (rule that)
  qed
  show ?case
  proof (rule Suc.prems(1))
    show "link_levels (Suc n) i x prev sl = Some sl3"
      using now 1(1) 2(1) 3(1) by (simp del: bind_Some_iff)
    show "same_shape sl sl3" by (rule same_shape_trans [OF shape 3(2)])
    show "Node_Next sl3 z l = (if i \<le> l \<and> l < i + Suc n \<and> z = x then Some (y l)
        else if i \<le> l \<and> l < i + Suc n \<and> z = q l then Some (Some x) else Node_Next sl z l)" for z l
      using now(3) by (cases "l = i") (auto simp: 1(3) 2(3) 3(3))
  qed
qed
section \<open>Insertion\<close>

lemma node_at_insert:
  assumes "n \<le> Suc (length ps)" "k \<le> length ps" "sl_head sl' = sl_head sl"
  shows "node_at sl' (take k ps @ x # drop k ps) n =
    (if n \<le> k then node_at sl ps n else if n = Suc k then x else node_at sl ps (n - 1))"
  using assms by (cases n) (auto simp: nth_append nth_Cons' min_def node_at_def)

lemma drop_insert:
  assumes "k \<le> length ps"
  shows "n \<le> k \<Longrightarrow> drop n (take k ps @ x # drop k ps) = drop n (take k ps) @ x # drop k ps"
    "k < n \<Longrightarrow> drop n (take k ps @ x # drop k ps) = drop (n - 1) ps"
  using assms by (auto simp: drop_Cons' min_def)

lemma insert_links:
  assumes links: "skip_links sl ps" and k: "k \<le> length ps" and x: "x \<notin> set (sl_head sl # ps)"
    and h: "1 \<le> h" "h \<le> kMaxHeight" and head: "sl_head sl' = sl_head sl"
    and max: "sl_max_height sl' = max h (sl_max_height sl)"
    and tall: "\<And>z. tallness sl' z = (if z = x then h else tallness sl z)"
    and nxt: "\<And>z l. Node_Next sl' z l = (if l < h \<and> z = x then Some (find (reaches sl l) (drop k ps))
      else if l < h \<and> z = node_at sl ps (before sl ps l k) then Some (Some x) else Node_Next sl z l)"
  shows "skip_links sl' (take k ps @ x # drop k ps)"
proof -
  let ?ps = "take k ps @ x # drop k ps"
  have in_set: "node_at sl ps n \<noteq> x" if "n \<le> length ps" for n
    using x that by (cases n) auto
  have old: "Node_Next sl (node_at sl ps n) l = Some (find (reaches sl l) (drop n ps))"
    if "n \<le> length ps" "reaches sl l (node_at sl ps n)" for n l
    using links that by (auto simp: skip_links_def)
  have same: "find (reaches sl' l) xs = find (reaches sl l) xs" if "set xs \<subseteq> set ps" for l xs
    using that x by (intro find_cong) (auto simp: tall)
  have sub: "set (drop n ps) \<subseteq> set ps" "set (drop n (take k ps)) \<subseteq> set ps" for n
    by (auto dest: in_set_dropD in_set_takeD)
  have step: "Node_Next sl' (node_at sl' ?ps n) l = Some (find (reaches sl' l) (drop n ?ps))"
    if n: "n \<le> length ?ps" and r: "reaches sl' l (node_at sl' ?ps n)" for n l
  proof -
    have n': "n \<le> Suc (length ps)" using n k by simp
    note at = node_at_insert [OF n' k head, of x]
    have b: "before sl ps l k \<le> length ps" using before_le [of sl ps l k] k by simp
    consider "n \<le> k" | "n = Suc k" | "Suc k < n" by linarith
    then show ?thesis
    proof cases
      case 1
      have reach: "reaches sl l (node_at sl ps n)" and ne: "node_at sl ps n \<noteq> x"
        using r at 1 in_set [of n] k by (auto simp: tall)
      have eq: "node_at sl ps n = node_at sl ps (before sl ps l k) \<longleftrightarrow> n = before sl ps l k"
        using node_at_eq_iff [OF links _ b] 1 k by simp
      have new: "find (reaches sl' l) (drop n ?ps) = (case find (reaches sl l) (drop n (take k ps)) of
          None \<Rightarrow> if l < h then Some x else find (reaches sl l) (drop k ps) | Some z \<Rightarrow> Some z)"
        by (simp only: drop_insert(1) [OF k 1] find_append same [OF sub(1)] same [OF sub(2)] find.simps) (simp add: tall)
      show ?thesis
        unfolding new using 1 at ne eq old [OF _ reach] k before_iff [OF 1 k reach] find_split [OF 1 k, of "reaches sl l"]
        by (auto simp: nxt split: option.splits)
    next
      case 2
      with r at have "l < h" by (simp add: tall)
      moreover have "drop n ?ps = drop k ps" using drop_insert(2) [OF k, of n x] 2 by simp
      ultimately show ?thesis using 2 at same [OF sub(1), of l k] by (simp add: nxt del: drop_append)
    next
      case 3
      then have m: "n - 1 \<le> length ps" using n' by simp
      have reach: "reaches sl l (node_at sl ps (n - 1))" and ne: "node_at sl ps (n - 1) \<noteq> x"
        using r at 3 in_set [OF m] by (auto simp: tall)
      have "node_at sl ps (n - 1) \<noteq> node_at sl ps (before sl ps l k)"
        using node_at_eq_iff [OF links m b] before_le [of sl ps l k] 3 by simp
      moreover have "drop n ?ps = drop (n - 1) ps" using drop_insert(2) [OF k, of n x] 3 by simp
      ultimately show ?thesis
        using 3 at ne old [OF m reach] same [OF sub(1), of l "n - 1"] by (simp add: nxt del: drop_append)
    qed
  qed
  have "distinct (sl_head sl' # ?ps)"
    using links x head k unfolding skip_links_def
    by (auto simp: distinct_append set_take_disj_set_drop_if_distinct dest: in_set_dropD in_set_takeD)
  moreover have "1 \<le> tallness sl' p \<and> tallness sl' p \<le> sl_max_height sl'" if "p \<in> set ?ps" for p
    using that links h by (auto simp: skip_links_def tall max dest!: in_set_dropD in_set_takeD)
  ultimately show ?thesis
    using step links h x head unfolding skip_links_def by (auto simp: max tall)
qed

lemma RandomHeight_loop_range:
  "1 \<le> height \<Longrightarrow> height \<le> kMaxHeight \<Longrightarrow> RandomHeight_loop height rnd = (h, rnd') \<Longrightarrow> 1 \<le> h \<and> h \<le> kMaxHeight"
proof (induction height rnd rule: RandomHeight_loop.induct)
  case (1 height rnd)
  then show ?case by (auto simp: RandomHeight_loop.simps [of height rnd] Let_def split: if_splits)
qed

lemma RandomHeight_range:
  obtains h rnd where "RandomHeight sl = Some (h, sl\<lparr>sl_rnd := rnd\<rparr>)" "1 \<le> h" "h \<le> kMaxHeight"
proof -
  obtain h rnd where r: "RandomHeight_loop 1 (sl_rnd sl) = (h, rnd)" by fastforce
  then have "1 \<le> h \<and> h \<le> kMaxHeight" by (intro RandomHeight_loop_range [OF _ _ r]) (simp_all add: kMaxHeight_def)
  with r that show thesis by (simp add: RandomHeight_def)
qed

lemma raise_prev_at:
  "i + n \<le> length prev \<Longrightarrow> \<exists>prev'. raise_prev n i head prev = Some prev' \<and> length prev' = length prev \<and>
    (\<forall>j. prev' ! j = (if i \<le> j \<and> j < i + n then Some head else prev ! j))"
proof (induction n arbitrary: i prev)
  case (Suc n)
  have "\<exists>prev'. raise_prev n (Suc i) head (prev[i := Some head]) = Some prev' \<and>
      length prev' = length (prev[i := Some head]) \<and>
      (\<forall>j. prev' ! j = (if Suc i \<le> j \<and> j < Suc i + n then Some head else prev[i := Some head] ! j))"
    using Suc.prems by (intro Suc.IH) simp
  then show ?case using Suc.prems by (auto simp: nth_list_update)
qed auto

lemma NewNode_at:
  assumes "skip_memory sl" "0 < h"
  obtains x sl' where "NewNode key h sl = Some (x, sl')" "sl_nodes sl x = None" "skip_memory sl'"
    "sl_nodes sl' = (sl_nodes sl)(x := Some \<lparr>nd_key = key, nd_next = replicate h None\<rparr>)"
    "\<exists>nodes a. sl' = sl\<lparr>sl_arena := a, sl_nodes := nodes\<rparr>"
proof -
  have "arena_ok (sl_arena sl)" "0 < 16 + 8 * (h - 1)" using assms by (simp_all add: skip_memory_def)
  then obtain x a where a: "AllocateAligned (16 + 8 * (h - 1)) (sl_arena sl) = Some (x, a)"
      "hands_out (sl_arena sl) x (16 + 8 * (h - 1)) a"
    by (rule AllocateAligned_hands_out)
  then have fresh: "\<not> taken (sl_arena sl) x" "taken a x" "arena_ok a" "\<And>q. taken (sl_arena sl) q \<Longrightarrow> taken a q"
    by (auto simp: hands_out_def dest: spec [of _ 0])
  let ?sl = "sl\<lparr>sl_arena := a, sl_nodes := (sl_nodes sl)(x := Some \<lparr>nd_key = key, nd_next = replicate h None\<rparr>)\<rparr>"
  show thesis
  proof (rule that)
    show "NewNode key h sl = Some (x, ?sl)" using a(1) by (simp add: NewNode_def)
    show "sl_nodes sl x = None" using assms(1) fresh(1) unfolding skip_memory_def by blast
    show "skip_memory ?sl" using assms(1) fresh(2-) by (auto simp: skip_memory_def)
  qed auto
qed
lemma Insert_rep:
  assumes rep: "skip_rep sl ps ks" and split: "splits_at sl ks key k"
    and fresh: "k < length ks \<Longrightarrow> \<exists>r. sl_compare sl key (ks ! k) = Some r \<and> r \<noteq> 0"
  obtains x sl' where "SkipList_Insert key sl = Some sl'"
    "skip_rep sl' (take k ps @ x # drop k ps) (take k ks @ key # drop k ks)" "sl_compare sl' = sl_compare sl"
proof -
  have links: "skip_links sl ps" and mem: "skip_memory sl" and keys: "map (Node_key sl) ps = map Some ks"
    using rep by (simp_all add: skip_rep_def)
  have k: "k \<le> length ps" using split rep_length [OF rep] by (simp add: splits_at_def)
  have bounds: "1 \<le> sl_max_height sl" "sl_max_height sl \<le> kMaxHeight" using links by (simp_all add: skip_links_def)
  let ?q = "\<lambda>j. node_at sl ps (before sl ps j k)"
  let ?prev = "prevs sl ps k (sl_max_height sl - 1) (replicate kMaxHeight None)"
  have find: "FindGreaterOrEqual sl key (Some (replicate kMaxHeight None)) = Some (node_from ps k, Some ?prev)"
    using FindGreaterOrEqual_rep [OF rep split, of "Some (replicate kMaxHeight None)"] by simp
  have dup: "(case node_from ps k of None \<Rightarrow> Some False
      | Some x \<Rightarrow> Option.bind (Node_key sl x) (SkipList_Equal sl key)) = Some False"
    using fresh rep_key [OF rep, of k] rep_length [OF rep]
    by (auto simp: node_from_def SkipList_Equal_def del: bind_Some_iff)
  obtain h rnd where h: "RandomHeight sl = Some (h, sl\<lparr>sl_rnd := rnd\<rparr>)" "1 \<le> h" "h \<le> kMaxHeight"
    by (rule RandomHeight_range)
  let ?M = "max h (sl_max_height sl)"
  let ?sl2 = "sl\<lparr>sl_rnd := rnd, sl_max_height := ?M\<rparr>"
  have empty: "before sl ps j k = 0" if "sl_max_height sl \<le> j" for j
  proof -
    have "\<not> reaches sl j (ps ! i)" if "i < k" for i
      using that \<open>sl_max_height sl \<le> j\<close> k links by (auto simp: skip_links_def not_less dest!: bspec [of _ _ "ps ! i"])
    then show ?thesis by (induction k) auto
  qed
  obtain prev where prev: "raise_height h ?prev (sl\<lparr>sl_rnd := rnd\<rparr>) = Some (prev, ?sl2)" "length prev = kMaxHeight"
      "\<And>j. j < h \<Longrightarrow> prev ! j = Some (?q j)"
  proof (cases "h > sl_max_height sl")
    case True
    obtain prev where prev: "raise_prev (h - sl_max_height sl) (sl_max_height sl) (sl_head sl) ?prev = Some prev"
        "length prev = kMaxHeight" "\<And>j. prev ! j = (if sl_max_height sl \<le> j \<and> j < h then Some (sl_head sl) else ?prev ! j)"
      using raise_prev_at [of "sl_max_height sl" "h - sl_max_height sl" ?prev "sl_head sl"] True h(3) by auto
    have "prev ! j = Some (?q j)" if "j < h" for j
      using that h(3) prev(3) [of j] empty [of j] by (cases "sl_max_height sl \<le> j") auto
    moreover have "sl\<lparr>sl_rnd := rnd\<rparr>\<lparr>sl_max_height := h\<rparr> = ?sl2" using True by simp
    ultimately show thesis using that [of prev] True prev(1,2) by (simp add: raise_height_def del: bind_Some_iff)
  next
    case False
    then have "sl\<lparr>sl_rnd := rnd\<rparr> = ?sl2" by simp
    moreover have "?prev ! j = Some (?q j)" if "j < h" for j
      using that False h(3) by (subst prevs_nth) auto
    ultimately show thesis using that [of ?prev] False by (simp add: raise_height_def)
  qed
  have "skip_memory ?sl2" "0 < h" using mem h by (simp_all add: skip_memory_def)
  then obtain x sl3 where x: "NewNode (Some key) h ?sl2 = Some (x, sl3)" "sl_nodes ?sl2 x = None" "skip_memory sl3"
      "sl_nodes sl3 = (sl_nodes ?sl2)(x := Some \<lparr>nd_key = Some key, nd_next = replicate h None\<rparr>)"
      "\<exists>nodes a. sl3 = ?sl2\<lparr>sl_arena := a, sl_nodes := nodes\<rparr>"
    by (rule NewNode_at)
  have new: "tallness sl3 z = (if z = x then h else tallness sl z)"
      "Node_key sl3 z = (if z = x then Some key else Node_key sl z)"
      "z \<noteq> x \<Longrightarrow> Node_Next sl3 z l = Node_Next sl z l" for z l
    using x(4) by (simp_all add: tallness_def Node_key_def Node_Next_def)
  have fields: "sl_head sl3 = sl_head sl" "sl_max_height sl3 = ?M" "sl_compare sl3 = sl_compare sl"
    using x(5) by auto
  have notin: "x \<notin> set (sl_head sl # ps)"
  proof
    assume "x \<in> set (sl_head sl # ps)"
    then have "1 \<le> tallness sl x" using links by (auto simp: skip_links_def kMaxHeight_def)
    then show False using x(2) by (simp add: tallness_def)
  qed
  obtain sl4 where link: "link_levels h 0 x prev sl3 = Some sl4" "same_shape sl3 sl4"
      "\<And>z l. Node_Next sl4 z l = (if 0 \<le> l \<and> l < 0 + h \<and> z = x then Some (find (reaches sl l) (drop k ps))
        else if 0 \<le> l \<and> l < 0 + h \<and> z = ?q l then Some (Some x) else Node_Next sl3 z l)"
  proof (rule link_levels_at)
    fix j assume "0 \<le> j" "j < 0 + h"
    then have j: "j < h" by simp
    have b: "before sl ps j k \<le> k" by (rule before_le)
    then have ne: "?q j \<noteq> x" using notin k by (cases "before sl ps j k") auto
    have r: "reaches sl j (?q j)"
      by (rule before_reaches) (use links j h(3) in \<open>simp add: skip_links_def\<close>)
    have n: "Node_Next sl (?q j) j = Some (find (reaches sl j) (drop k ps))"
      using r links b k before_iff [OF b k r] find_split [OF b k, of "reaches sl j"] by (simp add: skip_links_def)
    show "j < length prev \<and> prev ! j = Some (?q j) \<and> ?q j \<noteq> x \<and> reaches sl3 j (?q j) \<and> reaches sl3 j x \<and>
        Node_Next sl3 (?q j) j = Some (find (reaches sl j) (drop k ps))"
      using j prev(2,3) h(3) ne r n new by simp
  next
    fix sl4
    assume "link_levels h 0 x prev sl3 = Some sl4" "same_shape sl3 sl4"
      "\<And>z l. Node_Next sl4 z l = (if 0 \<le> l \<and> l < 0 + h \<and> z = x then Some (find (reaches sl l) (drop k ps))
        else if 0 \<le> l \<and> l < 0 + h \<and> z = ?q l then Some (Some x) else Node_Next sl3 z l)"
    then show thesis by (rule that)
  qed
  note shape = same_shape_fields [OF link(2)]
  have "SkipList_Insert key sl = Some sl4"
    using find dup h(1) prev(1) x(1) link(1) unfolding SkipList_Insert_def by (simp del: bind_Some_iff)
  moreover have "skip_rep sl4 (take k ps @ x # drop k ps) (take k ks @ key # drop k ks)"
    unfolding skip_rep_def
  proof (intro conjI)
    show "skip_memory sl4" using x(3) shape(3,7) by (simp add: skip_memory_def)
    show "map (Node_key sl4) (take k ps @ x # drop k ps) = map Some (take k ks @ key # drop k ks)"
    proof -
      have "Node_key sl4 z = Node_key sl z" if "z \<in> set ps" for z
        using that notin new(2) shape(6) by auto
      then have same: "map (Node_key sl4) (take k ps) = map (Node_key sl) (take k ps)"
          "map (Node_key sl4) (drop k ps) = map (Node_key sl) (drop k ps)"
        by (auto dest: in_set_takeD in_set_dropD)
      have "map (Node_key sl) (take k ps) = map Some (take k ks)" "map (Node_key sl) (drop k ps) = map Some (drop k ks)"
        using keys by (simp_all flip: take_map drop_map)
      moreover have "Node_key sl4 x = Some key" using shape(6) new(2) by simp
      ultimately show ?thesis by (simp only: map_append list.map same)
    qed
    show "skip_links sl4 (take k ps @ x # drop k ps)"
    proof (rule insert_links [OF links k notin h(2,3)])
      show "Node_Next sl4 z l = (if l < h \<and> z = x then Some (find (reaches sl l) (drop k ps))
          else if l < h \<and> z = ?q l then Some (Some x) else Node_Next sl z l)" for z l
      proof (cases "z = x")
        case True
        have "sl_nodes sl x = None" using x(2) by simp
        with True link(3) [of z l] show ?thesis by (auto simp: Node_Next_def x(4))
      qed (use link(3) [of z l] new in auto)
    qed (use shape fields new in simp_all)
  qed
  ultimately show thesis using that shape(4) fields(3) by simp
qed
lemma Contains_rep:
  assumes rep: "skip_rep sl ps ks" and split: "splits_at sl ks key k"
    and total: "k < length ks \<Longrightarrow> sl_compare sl key (ks ! k) = Some r"
  shows "Contains key sl = Some (k < length ks \<and> r = 0)"
  using FindGreaterOrEqual_rep [OF rep split, of None] rep_key [OF rep, of k] rep_length [OF rep] total
  by (auto simp: Contains_def node_from_def SkipList_Equal_def del: bind_Some_iff)

section \<open>The empty list\<close>

lemma clear_head_at:
  assumes "n \<le> tallness sl (sl_head sl)"
  obtains sl' where "clear_head n sl = Some sl'" "same_shape sl sl'" "sl_rnd sl' = sl_rnd sl"
    "\<forall>l < n. Node_Next sl' (sl_head sl) l = Some None"
  using assms
proof (induction n arbitrary: thesis)
  case 0
  show ?case by (rule 0(1) [of sl]) (auto intro: same_shape_refl)
next
  case (Suc n)
  obtain sl1 where 1: "clear_head n sl = Some sl1" "same_shape sl sl1" "sl_rnd sl1 = sl_rnd sl"
      "\<forall>l < n. Node_Next sl1 (sl_head sl) l = Some None"
    using Suc.IH Suc.prems(2) by auto
  note shape = same_shape_fields [OF 1(2)]
  have r: "reaches sl1 n (sl_head sl1)" using Suc.prems(2) shape by simp
  obtain sl2 where 2: "SetNext (sl_head sl1) n None sl1 = Some sl2" "same_shape sl1 sl2"
      "\<And>z l. Node_Next sl2 z l = (if z = sl_head sl1 \<and> l = n then Some None else Node_Next sl1 z l)"
    using SetNext_at [OF r] by metis
  show ?case
  proof (rule Suc.prems(1))
    show "clear_head (Suc n) sl = Some sl2" using 1(1) 2(1) by (simp del: bind_Some_iff)
    show "same_shape sl sl2" by (rule same_shape_trans [OF 1(2) 2(2)])
    show "sl_rnd sl2 = sl_rnd sl" using 1(3) 2(2) by (auto simp: same_shape_def)
    show "\<forall>l < Suc n. Node_Next sl2 (sl_head sl) l = Some None" using 1(4) shape(1) by (auto simp: 2(3) less_Suc_eq)
  qed
qed

lemma SkipList_rep:
  assumes "arena_ok a"
  obtains sl where "SkipList compare a = Some sl" "skip_rep sl [] []" "sl_compare sl = compare"
proof -
  let ?sl0 = "\<lparr>sl_compare = compare, sl_arena = a, sl_nodes = (\<lambda>_. None), sl_head = (0, 0), sl_max_height = 1,
        sl_rnd = Random_new 0xdeadbeef\<rparr> :: 'a skiplist"
  have "skip_memory ?sl0" "0 < kMaxHeight" using assms by (simp_all add: skip_memory_def kMaxHeight_def)
  then obtain x sl1 where 1: "NewNode None kMaxHeight ?sl0 = Some (x, sl1)" "sl_nodes ?sl0 x = None" "skip_memory sl1"
      "sl_nodes sl1 = (sl_nodes ?sl0)(x := Some \<lparr>nd_key = None, nd_next = replicate kMaxHeight None\<rparr>)"
      "\<exists>nodes a. sl1 = ?sl0\<lparr>sl_arena := a, sl_nodes := nodes\<rparr>"
    by (rule NewNode_at)
  let ?sl = "sl1\<lparr>sl_head := x\<rparr>"
  have tall: "tallness ?sl (sl_head ?sl) = kMaxHeight" using 1(4) by (simp add: tallness_def)
  obtain sl2 where 2: "clear_head kMaxHeight ?sl = Some sl2" "same_shape ?sl sl2"
      "\<forall>l < kMaxHeight. Node_Next sl2 (sl_head ?sl) l = Some None"
    using clear_head_at [of kMaxHeight ?sl] tall by auto
  note shape = same_shape_fields [OF 2(2)]
  have "skip_rep sl2 [] []"
    using 2(3) tall 1(3,5) shape unfolding skip_rep_def skip_links_def
    by (auto simp: skip_memory_def kMaxHeight_def simp del: split_paired_All)
  moreover have "SkipList compare a = Some sl2"
    using 1(1) 2(1) by (simp add: SkipList_def del: bind_Some_iff)
  moreover have "sl_compare sl2 = compare" using shape(4) 1(5) by auto
  ultimately show thesis using that by simp
qed

text \<open>More of the arena may be taken by others.\<close>

lemma skip_rep_arena:
  "skip_rep sl ps ks \<Longrightarrow> hands_out (sl_arena sl) p n a \<Longrightarrow> skip_rep (sl\<lparr>sl_arena := a\<rparr>) ps ks"
proof -
  assume rep: "skip_rep sl ps ks" and out: "hands_out (sl_arena sl) p n a"
  have "tallness (sl\<lparr>sl_arena := a\<rparr>) = tallness sl" "Node_Next (sl\<lparr>sl_arena := a\<rparr>) = Node_Next sl"
      "Node_key (sl\<lparr>sl_arena := a\<rparr>) = Node_key sl" "node_at (sl\<lparr>sl_arena := a\<rparr>) = node_at sl"
    by (simp_all add: fun_eq_iff tallness_def Node_Next_def Node_key_def node_at_def)
  then show ?thesis
    using rep out unfolding skip_rep_def skip_links_def skip_memory_def hands_out_def
    by (auto simp del: split_paired_All split_paired_Ex)
qed

section \<open>Iterators\<close>

text \<open>An iterator at position \<open>i\<close> of the list, behind the last for \<open>NULL\<close>.\<close>

definition skip_stands :: "'k skip_iter \<Rightarrow> place list \<Rightarrow> 'k list \<Rightarrow> nat \<Rightarrow> bool" where
  "skip_stands it ps ks i \<longleftrightarrow> skip_rep (si_list it) ps ks \<and> i \<le> length ks \<and> si_node it = node_from ps i"

lemma skip_Valid_at: "skip_stands it ps ks i \<Longrightarrow> skip_Valid it \<longleftrightarrow> i < length ks"
  using rep_length [of "si_list it" ps ks] by (auto simp: skip_stands_def skip_Valid_def node_from_def)

lemma skip_key_at: "skip_stands it ps ks i \<Longrightarrow> i < length ks \<Longrightarrow> skip_key it = Some (ks ! i)"
  using rep_length [of "si_list it" ps ks] rep_key [of "si_list it" ps ks i]
  by (auto simp: skip_stands_def skip_key_def node_from_def)

lemma skip_Next_at:
  assumes "skip_stands it ps ks i" "i < length ks"
  shows "\<exists>it'. skip_Next it = Some it' \<and> skip_stands it' ps ks (Suc i) \<and> si_list it' = si_list it"
proof -
  have rep: "skip_rep (si_list it) ps ks" and len: "length ks = length ps"
    using assms rep_length [of "si_list it" ps ks] by (auto simp: skip_stands_def)
  then have links: "skip_links (si_list it) ps" by (simp add: skip_rep_def)
  have i: "i < length ps" using assms len by simp
  then have "reaches (si_list it) 0 (node_at (si_list it) ps (Suc i))"
    using links by (auto simp: skip_links_def Suc_le_eq)
  then have "Node_Next (si_list it) (node_at (si_list it) ps (Suc i)) 0 = Some (find (reaches (si_list it) 0) (drop (Suc i) ps))"
    using links i unfolding skip_links_def by (meson Suc_leI)
  then have "Node_Next (si_list it) (ps ! i) 0 = Some (node_from ps (Suc i))"
    using lowest_level(2) [OF links] i by simp
  then show ?thesis using assms i len rep by (simp add: skip_Next_def skip_stands_def node_from_def)
qed

lemma node_at_head: "skip_links sl ps \<Longrightarrow> k \<le> length ps \<Longrightarrow>
    (if node_at sl ps k = sl_head sl then None else Some (node_at sl ps k)) =
    node_from ps (if k = 0 then length ps else k - 1)"
  using node_at_eq_iff [of sl ps k 0] by (cases k) (auto simp: node_from_def)

lemma skip_Prev_at:
  assumes "skip_stands it ps ks i" "i < length ks" "splits_at (si_list it) ks (ks ! i) i"
  shows "\<exists>it'. skip_Prev it = Some it' \<and> skip_stands it' ps ks (if i = 0 then length ks else i - 1) \<and>
    si_list it' = si_list it"
proof -
  have rep: "skip_rep (si_list it) ps ks" and len: "length ks = length ps" and node: "si_node it = Some (ps ! i)"
    using assms rep_length [of "si_list it" ps ks] by (auto simp: skip_stands_def node_from_def)
  then have links: "skip_links (si_list it) ps" by (simp add: skip_rep_def)
  have "FindLessThan (si_list it) (ks ! i) = Some (node_at (si_list it) ps i)"
    by (rule FindLessThan_rep [OF rep assms(3)])
  then have "skip_Prev it = Some (it\<lparr>si_node := node_from ps (if i = 0 then length ps else i - 1)\<rparr>)"
    using node rep_key [OF rep, of i] assms(2) len node_at_head [OF links, of i] by (simp add: skip_Prev_def)
  with rep len assms(2) show ?thesis by (auto simp: skip_stands_def)
qed

lemma skip_Seek_at:
  assumes "skip_rep (si_list it) ps ks" "splits_at (si_list it) ks target k"
  shows "\<exists>it'. skip_Seek target it = Some it' \<and> skip_stands it' ps ks k \<and> si_list it' = si_list it"
  using FindGreaterOrEqual_rep [OF assms, of None] assms by (simp add: skip_Seek_def skip_stands_def splits_at_def)

lemma skip_SeekToFirst_at:
  assumes "skip_rep (si_list it) ps ks"
  shows "\<exists>it'. skip_SeekToFirst it = Some it' \<and> skip_stands it' ps ks 0 \<and> si_list it' = si_list it"
proof -
  have links: "skip_links (si_list it) ps" using assms by (simp add: skip_rep_def)
  then have "reaches (si_list it) 0 (node_at (si_list it) ps 0)" by (simp add: skip_links_def kMaxHeight_def)
  then have "Node_Next (si_list it) (sl_head (si_list it)) 0 = Some (node_from ps 0)"
    using links lowest_level(2) [OF links, of 0] unfolding skip_links_def
    by (metis drop0 le0 node_at_simps(1))
  with assms show ?thesis by (simp add: skip_SeekToFirst_def skip_stands_def)
qed

lemma skip_SeekToLast_at:
  assumes "skip_rep (si_list it) ps ks"
  shows "\<exists>it'. skip_SeekToLast it = Some it' \<and> skip_stands it' ps ks (length ks - 1) \<and> si_list it' = si_list it"
proof -
  have links: "skip_links (si_list it) ps" using assms by (simp add: skip_rep_def)
  show ?thesis
    using FindLast_rep [OF links] node_at_head [OF links order_refl] assms rep_length [OF assms]
    by (cases ps) (auto simp: skip_SeekToLast_def skip_stands_def)
qed

end
