(* ===== verification/Ldb_Memtable.thy ===== *)
theory Ldb_Memtable
  imports Ldb_Skiplist_Rep Ldb_Write_Batch
begin

text \<open>
  The memtable of LevelDB, \<open>leveldb-library/db/memtable.cc\<close>, and the insertion of write batches
  (\<open>WriteBatchInternal::InsertInto\<close>).  A key of the skip list is a pointer to an entry in the
  arena; it is the bytes from there on.
\<close>

section \<open>Entries\<close>

text \<open>
  The string in front, which may be assumed to be complete, and what lies behind it.  At most five
  bytes are read for the length.
\<close>

definition memtable_slice :: "byte list \<Rightarrow> (byte list \<times> byte list) option" where
  "memtable_slice data = do {
     (len, q) \<leftarrow> GetVarint32Ptr (take 5 data);
     let p = drop (length (take 5 data) - length q) data;
     if unat len \<le> length p then Some (take (unat len) p, drop (unat len) p) else None
   }"

definition KeyComparator :: "(byte list \<Rightarrow> byte list \<Rightarrow> int option) \<Rightarrow> byte list \<Rightarrow> byte list \<Rightarrow> int option" where
  "KeyComparator compare aptr bptr = do {
     (a, _) \<leftarrow> memtable_slice aptr;
     (b, _) \<leftarrow> memtable_slice bptr;
     compare a b
   }"

definition EncodeKey :: "byte list \<Rightarrow> byte list" where
  "EncodeKey target = PutVarint32 [] (of_nat (length target)) @ target"

section \<open>The table\<close>

text \<open>The comparator of user keys, the number of references, and the skip list with the arena.\<close>

record memtable =
  mt_user_compare :: "byte list \<Rightarrow> byte list \<Rightarrow> int option"
  mt_refs :: int
  mt_table :: "byte list skiplist"

definition MemTable :: "(byte list \<Rightarrow> byte list \<Rightarrow> int option) \<Rightarrow> memtable option" where
  "MemTable user_compare = do {
     table \<leftarrow> SkipList (KeyComparator (Internal_Compare user_compare)) Arena;
     Some \<lparr>mt_user_compare = user_compare, mt_refs = 0, mt_table = table\<rparr>
   }"

definition MemTable_Ref :: "memtable \<Rightarrow> memtable" where
  "MemTable_Ref mt = mt\<lparr>mt_refs := mt_refs mt + 1\<rparr>"

text \<open>No table is left when the last reference is dropped.\<close>

definition MemTable_Unref :: "memtable \<Rightarrow> memtable option option" where
  "MemTable_Unref mt =
     (let mt = mt\<lparr>mt_refs := mt_refs mt - 1\<rparr>
      in if mt_refs mt \<ge> 0 then Some (if mt_refs mt \<le> 0 then None else Some mt) else None)"

definition ApproximateMemoryUsage :: "memtable \<Rightarrow> nat" where
  "ApproximateMemoryUsage mt = MemoryUsage (sl_arena (mt_table mt))"

definition MemTable_Add :: "SequenceNumber \<Rightarrow> ValueType \<Rightarrow> byte list \<Rightarrow> byte list \<Rightarrow> memtable \<Rightarrow> memtable option" where
  "MemTable_Add s type key val mt = do {
     let key_size = length key;
     let val_size = length val;
     let internal_key_size = key_size + 8;
     let encoded_len = VarintLength (of_nat internal_key_size) + internal_key_size +
       VarintLength (of_nat val_size) + val_size;
     (buf, arena) \<leftarrow> Allocate encoded_len (sl_arena (mt_table mt));
     let entry = EncodeVarint32 (of_nat internal_key_size) @ key @
       EncodeFixed64 (push_bit 8 s OR type_number type) @ EncodeVarint32 (of_nat val_size) @ val;
     if length entry = encoded_len then do {
       table \<leftarrow> SkipList_Insert entry (mt_table mt\<lparr>sl_arena := arena\<rparr>);
       Some (mt\<lparr>mt_table := table\<rparr>)
     }
     else None
   }"

text \<open>Whether there is an answer; then the value or the status is changed.\<close>

definition MemTable_Get :: "LookupKey \<Rightarrow> memtable \<Rightarrow> byte list \<Rightarrow> status \<Rightarrow> (bool \<times> byte list \<times> status) option" where
  "MemTable_Get key mt val s = do {
     let memkey = memtable_key key;
     iter \<leftarrow> skip_Seek memkey (skip_Iterator (mt_table mt));
     if skip_Valid iter then do {
       entry \<leftarrow> skip_key iter;
       (ikey, rest) \<leftarrow> memtable_slice entry;
       if length ikey < 8 then None
       else do {
         r \<leftarrow> mt_user_compare mt (take (length ikey - 8) ikey) (user_key key);
         if r = 0 then do {
           tag \<leftarrow> DecodeFixed64 (drop (length ikey - 8) ikey);
           if tag AND 0xff = type_number kTypeValue then do {
             (v, _) \<leftarrow> memtable_slice rest;
             Some (True, v, s)
           }
           else if tag AND 0xff = type_number kTypeDeletion then Some (True, val, NotFound [])
           else Some (False, val, s)
         }
         else Some (False, val, s)
       }
     }
     else Some (False, val, s)
   }"

section \<open>Iterator\<close>

definition mem_Iterator :: "memtable \<Rightarrow> byte list skip_iter" where
  "mem_Iterator mt = skip_Iterator (mt_table mt)"

definition mem_Seek :: "byte list \<Rightarrow> byte list skip_iter \<Rightarrow> byte list skip_iter option" where
  "mem_Seek k it = skip_Seek (EncodeKey k) it"

definition mem_key :: "byte list skip_iter \<Rightarrow> byte list option" where
  "mem_key it = do {
     entry \<leftarrow> skip_key it;
     (k, _) \<leftarrow> memtable_slice entry;
     Some k
   }"

definition mem_value :: "byte list skip_iter \<Rightarrow> byte list option" where
  "mem_value it = do {
     entry \<leftarrow> skip_key it;
     (_, rest) \<leftarrow> memtable_slice entry;
     (v, _) \<leftarrow> memtable_slice rest;
     Some v
   }"

section \<open>Inserting a batch\<close>

definition MemTableInserter :: "(SequenceNumber \<times> memtable) handler" where
  "MemTableInserter = \<lparr>
     h_Put = (\<lambda>key val (sequence, mem). do {
       mem \<leftarrow> MemTable_Add sequence kTypeValue key val mem;
       Some (sequence + 1, mem)
     }),
     h_Delete = (\<lambda>key (sequence, mem). do {
       mem \<leftarrow> MemTable_Add sequence kTypeDeletion key [] mem;
       Some (sequence + 1, mem)
     })\<rparr>"

definition InsertInto :: "byte list \<Rightarrow> memtable \<Rightarrow> (status \<times> memtable) option" where
  "InsertInto b mem = do {
     sequence \<leftarrow> Sequence b;
     (s, _, mem) \<leftarrow> Iterate MemTableInserter b (sequence, mem);
     Some (s, mem)
   }"

section \<open>Reading entries back\<close>

definition mem_entry :: "byte list \<times> byte list \<Rightarrow> byte list" where
  "mem_entry x = PutLengthPrefixedSlice [] (fst x) @ PutLengthPrefixedSlice [] (snd x)"

lemma EncodeVarint32_length: "length (EncodeVarint32 v) \<le> 5"
  by (simp add: EncodeVarint32_def Let_def)

lemma memtable_slice_put:
  assumes "slice_ok k"
  shows "memtable_slice (PutLengthPrefixedSlice [] k @ rest) = Some (k, rest)"
proof -
  let ?e = "EncodeVarint32 (of_nat (length k))"
  have len: "length ?e \<le> 5" by (rule EncodeVarint32_length)
  then have take5: "take 5 (?e @ zs) = ?e @ take (5 - length ?e) zs" for zs by simp
  have "GetVarint32Ptr (?e @ zs) = Some (of_nat (length k), zs)" for zs
    using varint32_codec.get_put [of "of_nat (length k)" zs] by (simp add: GetVarint32_def)
  then show ?thesis
    unfolding memtable_slice_def PutLengthPrefixedSlice_def PutVarint32_def append_Nil append_assoc take5
    by (simp add: unat_of_nat_slice [OF assms] Let_def del: bind_Some_iff)
qed

lemma mem_entry_parts:
  assumes "slice_ok (fst x)" "slice_ok (snd x)"
  shows "memtable_slice (mem_entry x) = Some (fst x, PutLengthPrefixedSlice [] (snd x))"
    "memtable_slice (PutLengthPrefixedSlice [] (snd x)) = Some (snd x, [])"
  using assms memtable_slice_put [of "snd x" "[]"] by (simp_all add: mem_entry_def memtable_slice_put)

lemma EncodeKey_slice: "slice_ok k \<Longrightarrow> memtable_slice (EncodeKey k) = Some (k, [])"
  using memtable_slice_put [of k "[]"] by (simp add: EncodeKey_def PutLengthPrefixedSlice_def)

end
