(* ===== verification/Ldb_Memtable_Rep.thy ===== *)
theory Ldb_Memtable_Rep
  imports Ldb_Memtable
begin

text \<open>
  What a memtable represents: a list of internal keys and values, sorted by the comparator of
  internal keys.  Adding inserts into it, lookups find the newest entry that a snapshot may see,
  and its iterators are instances of \<open>iterator\<close>.
\<close>

section \<open>Representation\<close>

definition mem_keys :: "byte list skiplist \<Rightarrow> (byte list \<Rightarrow> bool) \<Rightarrow> (byte list \<Rightarrow> byte list \<Rightarrow> int option) \<Rightarrow>
    place list \<Rightarrow> (byte list \<times> byte list) list \<Rightarrow> bool" where
  "mem_keys sl ok compare ps xs \<longleftrightarrow> sl_compare sl = KeyComparator (Internal_Compare compare) \<and>
     ordered (internal_ok ok) (Internal_Compare compare) xs \<and> (\<forall>x \<in> set xs. slice_ok (fst x) \<and> slice_ok (snd x)) \<and>
     skip_rep sl ps (map mem_entry xs)"

definition mem_rep :: "(byte list \<Rightarrow> bool) \<Rightarrow> (byte list \<Rightarrow> byte list \<Rightarrow> int option) \<Rightarrow> memtable \<Rightarrow>
    (byte list \<times> byte list) list \<Rightarrow> bool" where
  "mem_rep ok compare mt xs \<longleftrightarrow> mt_user_compare mt = compare \<and> (\<exists>ps. mem_keys (mt_table mt) ok compare ps xs)"

lemma KeyComparator_entries:
  "slice_ok (fst x) \<Longrightarrow> slice_ok (snd x) \<Longrightarrow> memtable_slice t = Some (k, r) \<Longrightarrow>
    KeyComparator compare (mem_entry x) t = compare (fst x) k \<and>
    KeyComparator compare t (mem_entry x) = compare k (fst x)"
  by (simp add: KeyComparator_def mem_entry_parts)

context user_comparator
begin

abbreviation icompare where "icompare \<equiv> Internal_Compare compare"

lemma mem_splits:
  assumes "mem_keys sl ok compare ps xs" "internal_ok ok k" "memtable_slice t = Some (k, r)"
  shows "splits_at sl (map mem_entry xs) t (lower_bound icompare k xs)"
proof -
  have "\<exists>c. sl_compare sl (map mem_entry xs ! i) t = Some c \<and> (c < 0 \<longleftrightarrow> i < lower_bound icompare k xs)"
    if i: "i < length xs" for i
  proof -
    have x: "slice_ok (fst (xs ! i))" "slice_ok (snd (xs ! i))" "internal_ok ok (fst (xs ! i))"
      using assms(1) i by (auto simp: mem_keys_def ordered_def)
    obtain c where c: "icompare (fst (xs ! i)) k = Some c" using internal.total [OF x(3) assms(2)] by blast
    have sorted: "ordered (internal_ok ok) icompare xs" using assms(1) by (simp add: mem_keys_def)
    have "c < 0 \<longleftrightarrow> i < lower_bound icompare k xs"
      using lower_bound_below [of i icompare k xs] internal.above_bound [OF sorted assms(2) _ i] c
      by (cases "i < lower_bound icompare k xs") (auto simp: below_def)
    then show ?thesis
      using c i assms(1) KeyComparator_entries [OF x(1,2) assms(3)] by (simp add: mem_keys_def)
  qed
  then show ?thesis by (simp add: splits_at_def)
qed

section \<open>Adding\<close>

lemma VarintLength_32: "n < 2 ^ 32 \<Longrightarrow> VarintLength (of_nat n) = length (EncodeVarint32 (of_nat n))"
proof -
  assume n: "n < 2 ^ 32"
  have "(ucast (of_nat n :: u32) :: u64) = of_nat n"
  proof -
    have "take_bit 32 n = n" "take_bit 64 n = n" using n by (simp_all add: take_bit_nat_eq_self_iff)
    then show ?thesis
      by (simp add: word_eq_iff_unsigned [where ?'a = nat] unat_ucast_up unsigned_of_nat)
  qed
  then show ?thesis
    using VarintLength_loop_eq [of "of_nat n" 1]
    by (simp add: VarintLength_def EncodeVarint32_bytes EncodeVarint64_bytes)
qed

lemma Add_rep:
  assumes rep: "mem_rep ok compare mt xs" and key: "ok key" "length key + 8 < 2 ^ 32" "slice_ok val"
    and fresh: "key @ EncodeFixed64 (push_bit 8 s OR type_number type) \<notin> fst ` set xs"
  obtains mt' where "MemTable_Add s type key val mt = Some mt'"
    "mem_rep ok compare mt'
      (insert_sorted icompare (key @ EncodeFixed64 (push_bit 8 s OR type_number type), val) xs)"
proof -
  define k where "k = key @ EncodeFixed64 (push_bit 8 s OR type_number type)"
  define n where "n = lower_bound icompare k xs"
  obtain ps where ps: "mem_keys (mt_table mt) ok compare ps xs" and cmp: "mt_user_compare mt = compare"
    using rep by (auto simp: mem_rep_def)
  then have rep: "skip_rep (mt_table mt) ps (map mem_entry xs)" by (simp add: mem_keys_def)
  have k: "internal_ok ok k" "slice_ok k" using key by (simp_all add: k_def slice_ok_def)
  let ?len = "VarintLength (of_nat (length key + 8)) + (length key + 8) + VarintLength (of_nat (length val)) + length val"
  have entry: "EncodeVarint32 (of_nat (length key + 8)) @ key @ EncodeFixed64 (push_bit 8 s OR type_number type) @
      EncodeVarint32 (of_nat (length val)) @ val = mem_entry (k, val)"
    by (simp add: mem_entry_def k_def PutLengthPrefixedSlice_def PutVarint32_def)
  have len: "length (mem_entry (k, val)) = ?len"
    using key VarintLength_32 [of "length key + 8"] VarintLength_32 [of "length val"]
    by (simp add: entry [symmetric] slice_ok_def)
  have "arena_ok (sl_arena (mt_table mt))" "0 < ?len"
    using rep by (simp_all add: skip_rep_def skip_memory_def)
  then obtain p a where alloc: "Allocate ?len (sl_arena (mt_table mt)) = Some (p, a)" "hands_out (sl_arena (mt_table mt)) p ?len a"
    by (rule Allocate_hands_out)
  let ?table = "mt_table mt\<lparr>sl_arena := a\<rparr>"
  have rep1: "skip_rep ?table ps (map mem_entry xs)" by (rule skip_rep_arena [OF rep alloc(2)])
  with ps have keys1: "mem_keys ?table ok compare ps xs" by (simp add: mem_keys_def)
  note slice = mem_entry_parts(1) [of "(k, val)", simplified, OF k(2) key(3)]
  note split = mem_splits [OF keys1 k(1) slice, folded n_def]
  have differ: "\<exists>r. sl_compare ?table (mem_entry (k, val)) (map mem_entry xs ! n) = Some r \<and> r \<noteq> 0"
    if "n < length (map mem_entry xs)"
  proof -
    have x: "slice_ok (fst (xs ! n))" "slice_ok (snd (xs ! n))" "internal_ok ok (fst (xs ! n))"
      using ps that by (auto simp: mem_keys_def ordered_def)
    have ne: "fst (xs ! n) \<noteq> k" using fresh that unfolding k_def by (metis image_eqI length_map nth_mem)
    obtain r where "icompare k (fst (xs ! n)) = Some r" using internal.total [OF k(1) x(3)] by blast
    moreover from this have "r \<noteq> 0" using internal.zero [OF k(1) x(3)] ne by auto
    ultimately show ?thesis
      using KeyComparator_entries [OF x(1,2) slice] keys1 that by (simp add: mem_keys_def)
  qed
  obtain x sl where ins: "SkipList_Insert (mem_entry (k, val)) ?table = Some sl"
      "skip_rep sl (take n ps @ x # drop n ps) (take n (map mem_entry xs) @ mem_entry (k, val) # drop n (map mem_entry xs))"
      "sl_compare sl = sl_compare ?table"
    by (rule Insert_rep [OF rep1 split differ])
  have "MemTable_Add s type key val mt = Some (mt\<lparr>mt_table := sl\<rparr>)"
    by (simp only: MemTable_Add_def Let_def entry alloc(1) len ins(1) Option.bind.simps prod.case if_True refl)
  moreover have "mem_rep ok compare (mt\<lparr>mt_table := sl\<rparr>) (insert_sorted icompare (k, val) xs)"
  proof -
    have "take n (map mem_entry xs) @ mem_entry (k, val) # drop n (map mem_entry xs) =
        map mem_entry (insert_sorted icompare (k, val) xs)"
      by (simp add: insert_sorted_def Let_def n_def take_map drop_map)
    moreover have "ordered (internal_ok ok) icompare (insert_sorted icompare (k, val) xs)"
      using internal.ordered_insert_sorted [of xs "(k, val)"] ps k(1) fresh by (simp add: mem_keys_def k_def)
    ultimately have "mem_keys sl ok compare (take n ps @ x # drop n ps) (insert_sorted icompare (k, val) xs)"
      using ins(2,3) ps k(2) key(3) by (simp add: mem_keys_def internal.set_insert_sorted)
    then show ?thesis using cmp by (auto simp: mem_rep_def)
  qed
  ultimately show thesis using that by (simp add: k_def)
qed

lemma MemTable_rep: obtains mt where "MemTable compare = Some mt" "mem_rep ok compare mt []"
proof -
  obtain sl where "SkipList (KeyComparator icompare) Arena = Some sl" "skip_rep sl [] []"
      "sl_compare sl = KeyComparator icompare"
    by (rule SkipList_rep [OF arena_ok_new])
  then show thesis using that by (auto simp: MemTable_def mem_rep_def mem_keys_def ordered_def)
qed

end
section \<open>Histories\<close>

text \<open>
  What was written to a table: updates with their sequence numbers, oldest first.  A snapshot
  sees the updates up to its sequence number, and the last of them for a key counts.
\<close>

type_synonym history = "(SequenceNumber \<times> update) list"

primrec update_key :: "update \<Rightarrow> byte list" where
  "update_key (Put_update k v) = k"
| "update_key (Delete_update k) = k"

primrec update_type :: "update \<Rightarrow> ValueType" where
  "update_type (Put_update k v) = kTypeValue"
| "update_type (Delete_update k) = kTypeDeletion"

primrec update_value :: "update \<Rightarrow> byte list" where
  "update_value (Put_update k v) = v"
| "update_value (Delete_update k) = []"

definition newest :: "byte list \<Rightarrow> SequenceNumber \<Rightarrow> history \<Rightarrow> update option" where
  "newest k s h = map_option snd (find (\<lambda>x. update_key (snd x) = k \<and> fst x \<le> s) (rev h))"

definition hist_entry :: "SequenceNumber \<times> update \<Rightarrow> byte list \<times> byte list" where
  "hist_entry x = (update_key (snd x) @ EncodeFixed64 (push_bit 8 (fst x) OR type_number (update_type (snd x))),
     update_value (snd x))"

definition hist_ok :: "(byte list \<Rightarrow> bool) \<Rightarrow> history \<Rightarrow> bool" where
  "hist_ok ok h \<longleftrightarrow> sorted_wrt (<) (map fst h) \<and> (\<forall>x \<in> set h. fst x \<le> kMaxSequenceNumber \<and>
     ok (update_key (snd x)) \<and> length (update_key (snd x)) + 8 < 2 ^ 32 \<and> slice_ok (update_value (snd x)))"

primrec numbered :: "SequenceNumber \<Rightarrow> update list \<Rightarrow> history" where
  "numbered s [] = []"
| "numbered s (u # us) = (s, u) # numbered (s + 1) us"

definition mem_hist :: "(byte list \<Rightarrow> bool) \<Rightarrow> (byte list \<Rightarrow> byte list \<Rightarrow> int option) \<Rightarrow> memtable \<Rightarrow> history \<Rightarrow> bool" where
  "mem_hist ok compare mt h \<longleftrightarrow> hist_ok ok h \<and> (\<exists>xs. mem_rep ok compare mt xs \<and> set xs = hist_entry ` set h)"

lemma hist_same_number:
  assumes "hist_ok ok h" "x \<in> set h" "y \<in> set h" "fst x = fst y"
  shows "x = y"
proof -
  have "distinct (map fst h)"
    using assms(1) by (simp add: hist_ok_def strict_sorted_iff)
  then show ?thesis using assms(2-) by (auto simp: distinct_map inj_on_def)
qed

lemma newest_Some:
  assumes "hist_ok ok h" "(r, u) \<in> set h" "update_key u = k" "r \<le> s"
    "\<And>r' u'. (r', u') \<in> set h \<Longrightarrow> update_key u' = k \<Longrightarrow> r' \<le> s \<Longrightarrow> r' \<le> r"
  shows "newest k s h = Some u"
proof -
  obtain as bs where h: "h = as @ (r, u) # bs" using assms(2) by (auto simp: in_set_conv_decomp)
  have "find (\<lambda>x. update_key (snd x) = k \<and> fst x \<le> s) (rev bs) = None"
  proof (rule ccontr)
    assume "find (\<lambda>x. update_key (snd x) = k \<and> fst x \<le> s) (rev bs) \<noteq> None"
    then obtain r' u' where x: "(r', u') \<in> set bs" "update_key u' = k" "r' \<le> s"
      by (auto simp: find_None_iff)
    then have "r' \<le> r" using assms(5) [of r' u'] h by simp
    moreover have "r < r'" using assms(1) x(1) h by (auto simp: hist_ok_def sorted_wrt_append)
    ultimately show False by simp
  qed
  then show ?thesis using assms(3,4) by (simp add: newest_def h find_append)
qed

lemma newest_None:
  "(\<And>r u. (r, u) \<in> set h \<Longrightarrow> update_key u = k \<Longrightarrow> \<not> r \<le> s) \<Longrightarrow> newest k s h = None"
  by (auto simp: newest_def find_None_iff)

lemma numbered_fst: "x \<in> set (numbered s us) \<Longrightarrow> \<exists>i < length us. fst x = s + of_nat i"
proof (induction us arbitrary: s)
  case (Cons u us)
  then show ?case
  proof (cases "x = (s, u)")
    case False
    with Cons obtain i where "i < length us" "fst x = s + 1 + of_nat i" by fastforce
    then show ?thesis by (intro exI [of _ "Suc i"]) (simp add: add.assoc)
  qed auto
qed simp

lemma packed_type:
  "s \<le> kMaxSequenceNumber \<Longrightarrow> (push_bit 8 s OR type_number t) AND 0xff = type_number t"
proof -
  have "(255 :: u64) = mask 8" by (simp add: mask_eq_exp_minus_1)
  then have "x AND 0xff = take_bit 8 x" for x :: u64 by (simp only: take_bit_eq_mask)
  then show ?thesis by (cases t) (simp_all add: take_bit_or take_bit_push_bit)
qed

lemma packed_seek:
  assumes "r \<le> kMaxSequenceNumber" "s \<le> kMaxSequenceNumber"
  shows "push_bit 8 s OR 1 < push_bit 8 r OR type_number t \<longleftrightarrow> s < r"
  using packed_less [OF assms(2,1), of kTypeValue t] by (cases t) auto

context user_comparator
begin

lemma Insert_update:
  assumes hist: "mem_hist ok compare mt h" and new: "hist_ok ok (h @ [(s, u)])"
  obtains mt' where "handle_update MemTableInserter u (s, mt) = Some (s + 1, mt')"
    "mem_hist ok compare mt' (h @ [(s, u)])"
proof -
  obtain xs where xs: "mem_rep ok compare mt xs" "set xs = hist_entry ` set h" using hist by (auto simp: mem_hist_def)
  let ?k = "update_key u @ EncodeFixed64 (push_bit 8 s OR type_number (update_type u))"
  have u: "ok (update_key u)" "length (update_key u) + 8 < 2 ^ 32" "slice_ok (update_value u)" "s \<le> kMaxSequenceNumber"
    using new by (auto simp: hist_ok_def)
  have fresh: "?k \<notin> fst ` set xs"
  proof
    assume "?k \<in> fst ` set xs"
    then obtain r v where x: "(r, v) \<in> set h" "fst (hist_entry (r, v)) = ?k" using xs(2) by auto
    then have "push_bit 8 r OR type_number (update_type v) = push_bit 8 s OR type_number (update_type u)"
      by (auto simp: hist_entry_def append_eq_append_conv)
    moreover have "r \<le> kMaxSequenceNumber" "r < s" using x(1) new by (auto simp: hist_ok_def sorted_wrt_append)
    ultimately show False using packed_parts(1) u(4) by (metis less_irrefl)
  qed
  obtain mt' where mt': "MemTable_Add s (update_type u) (update_key u) (update_value u) mt = Some mt'"
      "mem_rep ok compare mt' (insert_sorted icompare (?k, update_value u) xs)"
    by (rule Add_rep [OF xs(1) u(1-3) fresh])
  have "set (insert_sorted icompare (?k, update_value u) xs) = hist_entry ` set (h @ [(s, u)])"
    using xs(2) by (simp add: internal.set_insert_sorted hist_entry_def)
  with mt'(2) new have "mem_hist ok compare mt' (h @ [(s, u)])" by (auto simp: mem_hist_def)
  moreover have "handle_update MemTableInserter u (s, mt) = Some (s + 1, mt')"
    using mt'(1) by (cases u) (simp_all add: MemTableInserter_def)
  ultimately show thesis using that by blast
qed

lemma Insert_updates:
  assumes "mem_hist ok compare mt h" "hist_ok ok (h @ numbered s us)"
  obtains s' mt' where "handle_updates MemTableInserter us (s, mt) = Some (s', mt')"
    "mem_hist ok compare mt' (h @ numbered s us)"
  using assms
proof (induction us arbitrary: s mt h thesis)
  case (Cons u us)
  have "hist_ok ok (h @ [(s, u)])" using Cons.prems(3) by (auto simp: hist_ok_def sorted_wrt_append)
  then obtain mt1 where 1: "handle_update MemTableInserter u (s, mt) = Some (s + 1, mt1)"
      "mem_hist ok compare mt1 (h @ [(s, u)])"
    by (rule Insert_update [OF Cons.prems(2)])
  obtain s2 mt2 where "handle_updates MemTableInserter us (s + 1, mt1) = Some (s2, mt2)"
      "mem_hist ok compare mt2 ((h @ [(s, u)]) @ numbered (s + 1) us)"
    by (rule Cons.IH [OF _ 1(2)]) (use Cons.prems(3) in auto)
  with Cons.prems(1) 1(1) show ?case by simp
qed simp

lemma InsertInto_hist:
  assumes "mem_hist ok compare mt h" "hist_ok ok (h @ numbered s us)" "\<forall>u \<in> set us. update_ok u" "length us < 2 ^ 31"
  obtains mt' where "InsertInto (batch s us) mt = Some (OK, mt')" "mem_hist ok compare mt' (h @ numbered s us)"
proof -
  obtain s' mt' where "handle_updates MemTableInserter us (s, mt) = Some (s', mt')"
      "mem_hist ok compare mt' (h @ numbered s us)"
    by (rule Insert_updates [OF assms(1,2)])
  then show thesis
    using that Iterate_batch [OF assms(3,4), where hs = MemTableInserter and h = "(s, mt)"] by (simp add: InsertInto_def Sequence_batch)
qed

end
section \<open>Lookups\<close>

lemma new_LookupKey_eq:
  assumes "s \<le> kMaxSequenceNumber" "length k + 8 < 2 ^ 32"
  obtains lk where "new_LookupKey k s = Some lk" "user_key lk = k"
    "memtable_slice (memtable_key lk) = Some (k @ EncodeFixed64 (push_bit 8 s OR 1), [])"
proof -
  let ?p = "push_bit 8 s OR 1 :: u64"
  let ?n = "EncodeVarint32 (of_nat (length k + 8))"
  let ?lk = "\<lparr>lk_chars = ?n @ k @ EncodeFixed64 ?p, lk_kstart = length ?n\<rparr>"
  have "new_LookupKey k s = Some ?lk"
    using assms(1) EncodeVarint32_length [of "of_nat (length k + 8)"]
    by (simp add: new_LookupKey_def PackSequenceAndType_def kValueTypeForSeek_def Let_def)
  moreover have "user_key ?lk = k" by (simp add: user_key_def)
  moreover have "memtable_slice (memtable_key ?lk) = Some (k @ EncodeFixed64 ?p, [])"
    using EncodeKey_slice [of "k @ EncodeFixed64 ?p"] assms(2)
    by (simp add: EncodeKey_def memtable_key_def PutVarint32_def slice_ok_def)
  ultimately show thesis using that by blast
qed

definition answer :: "update option \<Rightarrow> byte list \<Rightarrow> status \<Rightarrow> bool \<times> byte list \<times> status" where
  "answer u val s = (case u of
      None \<Rightarrow> (False, val, s)
    | Some (Put_update k v) \<Rightarrow> (True, v, s)
    | Some (Delete_update k) \<Rightarrow> (True, val, NotFound []))"

context user_comparator
begin

lemma same_user:
  assumes "ok u" "ok v" "ok w" "\<not> below icompare (u @ EncodeFixed64 m) (v @ EncodeFixed64 n)"
    "u = w \<or> below icompare (u @ EncodeFixed64 m) (w @ EncodeFixed64 l)" "w = v"
  shows "u = v"
  using assms zero [of u v] by (auto simp: below_Internal)

text \<open>Where a lookup lands.\<close>

lemma lower_bound_hist:
  assumes hist: "hist_ok ok h" and xs: "ordered (internal_ok ok) icompare xs" "set xs = hist_entry ` set h"
    and k: "ok k" and s: "s \<le> kMaxSequenceNumber"
    and n: "n = lower_bound icompare (k @ EncodeFixed64 (push_bit 8 s OR 1)) xs"
  shows "if n < length xs \<and> ExtractUserKey (fst (xs ! n)) = Some k
    then \<exists>x. xs ! n = hist_entry x \<and> x \<in> set h \<and> newest k s h = Some (snd x)
    else newest k s h = None"
proof -
  let ?target = "k @ EncodeFixed64 (push_bit 8 s OR 1)"
  have tok: "internal_ok ok ?target" using k by simp
  have visible: "\<exists>j. n \<le> j \<and> j < length xs \<and> xs ! j = hist_entry (r, u)"
    if x: "(r, u) \<in> set h" "update_key u = k" "r \<le> s" for r u
  proof -
    obtain j where j: "j < length xs" "xs ! j = hist_entry (r, u)" using x(1) xs(2) by (metis image_eqI in_set_conv_nth)
    have "r \<le> kMaxSequenceNumber" using x(1) hist by (auto simp: hist_ok_def)
    then have "\<not> below icompare (fst (xs ! j)) ?target"
      using j x(2,3) packed_seek [OF _ s, of r "update_type u"] internal.irrefl irrefl [OF k]
      by (auto simp: hist_entry_def below_Internal)
    then have "n \<le> j" using lower_bound_below [of j icompare ?target xs] n by (meson not_le)
    with j show ?thesis by blast
  qed
  show ?thesis
  proof (cases "n < length xs \<and> ExtractUserKey (fst (xs ! n)) = Some k")
    case True
    then obtain r u where x: "xs ! n = hist_entry (r, u)" "(r, u) \<in> set h" using xs(2) nth_mem [of n xs] by fastforce
    have ku: "update_key u = k" using True x(1) by (simp add: hist_entry_def)
    have rmax: "r \<le> kMaxSequenceNumber" using x(2) hist by (auto simp: hist_ok_def)
    have "\<not> below icompare (fst (xs ! n)) ?target" using True n lower_bound_reached [of icompare ?target xs] by simp
    then have rs: "r \<le> s"
      using x(1) ku packed_seek [OF rmax s, of "update_type u"] zero [OF k k] by (auto simp: hist_entry_def below_Internal)
    have "newest k s h = Some u"
    proof (rule newest_Some [OF hist x(2) ku rs])
      fix r' u' assume y: "(r', u') \<in> set h" "update_key u' = k" "r' \<le> s"
      then obtain j where j: "n \<le> j" "j < length xs" "xs ! j = hist_entry (r', u')" using visible by blast
      have r': "r' \<le> kMaxSequenceNumber" using y(1) hist by (auto simp: hist_ok_def)
      show "r' \<le> r"
      proof (cases "j = n")
        case True
        then have "push_bit 8 r' OR type_number (update_type u') = push_bit 8 r OR type_number (update_type u)"
          using j(3) x(1) by (auto simp: hist_entry_def append_eq_append_conv)
        then show ?thesis using packed_parts(1) [OF r', of "update_type u'"] packed_parts(1) [OF rmax, of "update_type u"] by simp
      next
        case False
        then have "below icompare (fst (xs ! n)) (fst (xs ! j))"
          using xs(1) j(1,2) by (simp add: ordered_def sorted_wrt_iff_nth_less)
        then have "push_bit 8 r' OR type_number (update_type u') < push_bit 8 r OR type_number (update_type u)"
          using x(1) j(3) y(2) ku irrefl [OF k] by (auto simp: hist_entry_def below_Internal)
        then show ?thesis using packed_less [OF r' rmax] by auto
      qed
    qed
    with True x show ?thesis by auto
  next
    case False
    have "newest k s h = None"
    proof (rule newest_None, rule notI)
      fix r u assume y: "(r, u) \<in> set h" "update_key u = k" "r \<le> s"
      then obtain j where j: "n \<le> j" "j < length xs" "xs ! j = hist_entry (r, u)" using visible by blast
      have n': "n < length xs" using j by simp
      then obtain r' u' where x: "xs ! n = hist_entry (r', u')" "(r', u') \<in> set h" using xs(2) nth_mem [of n xs] by fastforce
      have u': "ok (update_key u')" using x(2) hist by (auto simp: hist_ok_def)
      have "\<not> below icompare (fst (xs ! n)) ?target" using n' n lower_bound_reached [of icompare ?target xs] by simp
      moreover have "fst (xs ! n) = fst (xs ! j) \<or> below icompare (fst (xs ! n)) (fst (xs ! j))"
        using xs(1) j(1,2) by (cases "j = n") (simp_all add: ordered_def sorted_wrt_iff_nth_less)
      ultimately have "update_key u' = k"
        using x(1) j(3) y(2) zero [OF u' k] by (auto simp: hist_entry_def below_Internal append_eq_append_conv)
      then show False using False n' x(1) by (simp add: hist_entry_def)
    qed
    with False show ?thesis by simp
  qed
qed

lemma Get_hist:
  assumes "mem_hist ok compare mt h" "ok k" "length k + 8 < 2 ^ 32" "s \<le> kMaxSequenceNumber"
  obtains lk where "new_LookupKey k s = Some lk" "\<And>val st. MemTable_Get lk mt val st = Some (answer (newest k s h) val st)"
proof -
  obtain xs ps where hist: "hist_ok ok h" "set xs = hist_entry ` set h" "mt_user_compare mt = compare"
      "mem_keys (mt_table mt) ok compare ps xs"
    using assms(1) by (auto simp: mem_hist_def mem_rep_def)
  then have sorted: "ordered (internal_ok ok) icompare xs" and rep: "skip_rep (mt_table mt) ps (map mem_entry xs)"
    by (simp_all add: mem_keys_def)
  obtain lk where lk: "new_LookupKey k s = Some lk" "user_key lk = k"
      "memtable_slice (memtable_key lk) = Some (k @ EncodeFixed64 (push_bit 8 s OR 1), [])"
    by (rule new_LookupKey_eq [OF assms(4,3)])
  define n where "n = lower_bound icompare (k @ EncodeFixed64 (push_bit 8 s OR 1)) xs"
  note land = lower_bound_hist [OF hist(1) sorted hist(2) assms(2,4) n_def]
  have tok: "internal_ok ok (k @ EncodeFixed64 (push_bit 8 s OR 1))" using assms(2) by simp
  obtain it where it: "skip_Seek (memtable_key lk) (skip_Iterator (mt_table mt)) = Some it"
      "skip_stands it ps (map mem_entry xs) n"
    using skip_Seek_at [of "skip_Iterator (mt_table mt)" ps "map mem_entry xs"] rep
      mem_splits [OF hist(4) tok lk(3), folded n_def]
    by (auto simp: skip_Iterator_def)
  have valid: "skip_Valid it \<longleftrightarrow> n < length xs" using skip_Valid_at [OF it(2)] by simp
  have "MemTable_Get lk mt val st = Some (answer (newest k s h) val st)" for val st
  proof (cases "n < length xs")
    case False
    with land it(1) valid show ?thesis by (simp add: MemTable_Get_def answer_def)
  next
    case True
    then have key: "skip_key it = Some (mem_entry (xs ! n))" using skip_key_at [OF it(2)] by simp
    have slices: "slice_ok (fst (xs ! n))" "slice_ok (snd (xs ! n))" using hist(4) True by (auto simp: mem_keys_def)
    obtain r u where x: "xs ! n = hist_entry (r, u)" "(r, u) \<in> set h" using hist(2) nth_mem [OF True] by fastforce
    have u: "ok (update_key u)" "r \<le> kMaxSequenceNumber" using x(2) hist(1) by (auto simp: hist_ok_def)
    obtain c where c: "compare (update_key u) k = Some c" using total [OF u(1) assms(2)] by blast
    have same: "c = 0 \<longleftrightarrow> update_key u = k" using c zero [OF u(1) assms(2)] by auto
    have tag: "DecodeFixed64 (EncodeFixed64 (push_bit 8 r OR type_number (update_type u))) =
        Some (push_bit 8 r OR type_number (update_type u))"
      using DecodeFixed64_append [of _ "[]"] by simp
    note parts = mem_entry_parts [OF slices, unfolded x(1), simplified hist_entry_def fst_conv snd_conv]
    have get: "MemTable_Get lk mt val st = Some (if c = 0
        then (True, case u of Put_update k v \<Rightarrow> v | Delete_update k \<Rightarrow> val, case u of Put_update k v \<Rightarrow> st | Delete_update k \<Rightarrow> NotFound [])
        else (False, val, st))"
      using it(1) valid True key parts x(1) c lk(2) hist(3) tag
        packed_type [OF u(2), of kTypeValue, simplified] packed_type [OF u(2), of kTypeDeletion, simplified]
      by (cases u) (simp_all add: MemTable_Get_def hist_entry_def Let_def del: bind_Some_iff)
    show ?thesis
    proof (cases "update_key u = k")
      case eq: True
      then have "ExtractUserKey (fst (xs ! n)) = Some k" using x(1) by (simp add: hist_entry_def)
      then obtain y where y: "xs ! n = hist_entry y" "y \<in> set h" "newest k s h = Some (snd y)"
        using land True by auto
      then have "push_bit 8 (fst y) OR type_number (update_type (snd y)) = push_bit 8 r OR type_number (update_type u)"
        using x(1) by (auto simp: hist_entry_def append_eq_append_conv)
      moreover have "fst y \<le> kMaxSequenceNumber" using y(2) hist(1) by (auto simp: hist_ok_def)
      ultimately have "fst y = r" using packed_parts(1) u(2) by metis
      then have "y = (r, u)" using hist_same_number [OF hist(1) y(2) x(2)] by simp
      with y(3) eq same get show ?thesis by (cases u) (simp_all add: answer_def)
    next
      case False
      then have "newest k s h = None" using land x(1) by (simp add: hist_entry_def)
      with False same get show ?thesis by (simp add: answer_def)
    qed
  qed
  with that lk(1) show thesis by blast
qed

end
section \<open>Iterators\<close>

definition mem_stands :: "(byte list \<Rightarrow> bool) \<Rightarrow> (byte list \<Rightarrow> byte list \<Rightarrow> int option) \<Rightarrow> byte list skip_iter \<Rightarrow>
    (byte list \<times> byte list) list \<Rightarrow> nat \<Rightarrow> bool" where
  "mem_stands ok compare it xs i \<longleftrightarrow> (\<exists>ps. mem_keys (si_list it) ok compare ps xs \<and> skip_stands it ps (map mem_entry xs) i)"

lemma mem_standsI:
  "mem_keys (si_list it) ok compare ps xs \<Longrightarrow>
    \<exists>it'. f it = Some it' \<and> skip_stands it' ps (map mem_entry xs) n \<and> si_list it' = si_list it \<Longrightarrow>
    \<exists>it'. f it = Some it' \<and> mem_stands ok compare it' xs n"
  by (auto simp: mem_stands_def)

lemma mem_entry_at:
  assumes "mem_keys sl ok compare ps xs" "skip_stands it ps (map mem_entry xs) i" "i < length xs"
  shows "mem_key it = Some (fst (xs ! i)) \<and> mem_value it = Some (snd (xs ! i))"
proof -
  have x: "slice_ok (fst (xs ! i))" "slice_ok (snd (xs ! i))" using assms by (auto simp: mem_keys_def)
  have "skip_key it = Some (mem_entry (xs ! i))" using skip_key_at [OF assms(2)] assms(3) by simp
  then show ?thesis using mem_entry_parts [OF x] by (simp add: mem_key_def mem_value_def del: bind_Some_iff)
qed

sublocale user_comparator \<subseteq> mem: key_order "\<lambda>k. internal_ok ok k \<and> slice_ok k" "Internal_Compare compare"
  using internal.total internal.zero internal.flip internal.trans by unfold_locales blast+

sublocale user_comparator \<subseteq> mem: iterator "\<lambda>k. internal_ok ok k \<and> slice_ok k" "Internal_Compare compare"
  "mem_stands ok compare" skip_Valid mem_key mem_value skip_Next skip_Prev mem_Seek skip_SeekToFirst skip_SeekToLast
proof (unfold_locales, goal_cases)
  case (1 it xs i)
  then show ?case by (auto simp: mem_stands_def mem_keys_def skip_stands_def ordered_def)
next
  case (2 it xs i)
  then show ?case using skip_Valid_at by (fastforce simp: mem_stands_def)
next
  case (3 it xs i)
  then show ?case using mem_entry_at by (auto simp: mem_stands_def)
next
  case (4 it xs i)
  then obtain ps where ps: "mem_keys (si_list it) ok compare ps xs" "skip_stands it ps (map mem_entry xs) i"
    by (auto simp: mem_stands_def)
  then show ?case using skip_Next_at [OF ps(2)] 4(2) by (intro mem_standsI [OF ps(1)]) simp
next
  case (5 it xs i)
  then obtain ps where ps: "mem_keys (si_list it) ok compare ps xs" "skip_stands it ps (map mem_entry xs) i"
    by (auto simp: mem_stands_def)
  have x: "slice_ok (fst (xs ! i))" "slice_ok (snd (xs ! i))" "internal_ok ok (fst (xs ! i))"
      and sorted: "ordered (internal_ok ok) icompare xs"
    using ps(1) 5(2) by (auto simp: mem_keys_def ordered_def)
  have "lower_bound icompare (fst (xs ! i)) xs = i"
    using sorted 5(2) internal.irrefl [OF x(3)]
    by (intro lower_bound_eqI) (simp_all add: ordered_def sorted_wrt_iff_nth_less)
  then have "splits_at (si_list it) (map mem_entry xs) (mem_entry (xs ! i)) i"
    using mem_splits [OF ps(1) x(3) mem_entry_parts(1) [OF x(1,2)]] by simp
  from skip_Prev_at [OF ps(2), unfolded length_map, OF 5(2)] this 5(2)
  show ?case by (intro mem_standsI [OF ps(1)]) (simp only: nth_map)
next
  case (6 it xs i target)
  then obtain ps where ps: "mem_keys (si_list it) ok compare ps xs" by (auto simp: mem_stands_def)
  then have rep: "skip_rep (si_list it) ps (map mem_entry xs)" by (simp add: mem_keys_def)
  from 6(2) have "splits_at (si_list it) (map mem_entry xs) (EncodeKey target) (lower_bound icompare target xs)"
    using mem_splits [OF ps _ EncodeKey_slice] by blast
  from skip_Seek_at [OF rep this] show ?case
    by (intro mem_standsI [OF ps, where f = "mem_Seek target"]) (simp add: mem_Seek_def)
next
  case (7 it xs i)
  then obtain ps where ps: "mem_keys (si_list it) ok compare ps xs" by (auto simp: mem_stands_def)
  then show ?case by (intro mem_standsI [OF ps] skip_SeekToFirst_at) (simp add: mem_keys_def)
next
  case (8 it xs i)
  then obtain ps where ps: "mem_keys (si_list it) ok compare ps xs" by (auto simp: mem_stands_def)
  then show ?case using skip_SeekToLast_at [of it ps "map mem_entry xs"]
    by (intro mem_standsI [OF ps]) (simp add: mem_keys_def)
qed

context user_comparator
begin

lemma mem_Iterator_stands:
  assumes "mem_rep ok compare mt xs"
  shows "mem_stands ok compare (mem_Iterator mt) xs (length xs)"
proof -
  obtain ps where ps: "mem_keys (mt_table mt) ok compare ps xs" using assms by (auto simp: mem_rep_def)
  then have "skip_rep (mt_table mt) ps (map mem_entry xs)" by (simp add: mem_keys_def)
  from rep_length [OF this] this ps show ?thesis
    by (auto simp: mem_stands_def mem_Iterator_def skip_Iterator_def skip_stands_def node_from_def)
qed

end

end
