(* ===== verification/Ldb_Memtable_Properties.thy ===== *)
theory Ldb_Memtable_Properties
  imports Ldb_Memtable_Rep
begin

text \<open>The properties of pseudo-random numbers, the arena, the skip list and the memtable.\<close>

section \<open>The generator\<close>

text \<open>From any seed, the generator starts inside of [1, 2 ^ 31 - 2], and each step, computed with
  shifts instead of a division, multiplies the seed by 16807 modulo the prime 2 ^ 31 - 1 and
  stays inside: it never gets stuck at 0.\<close>

lemma random_is_lehmer:
  "seed_ok (Random_new s) \<and> (seed_ok seed \<longrightarrow>
     seed_ok (Random_Next seed) \<and> unat (Random_Next seed) = unat seed * 16807 mod (2 ^ 31 - 1))"
  using seed_ok_new Next_multiplies by simp

section \<open>The arena\<close>







section \<open>The memtable\<close>

primrec insert_batches :: "(SequenceNumber \<times> update list) list \<Rightarrow> memtable \<Rightarrow> memtable option" where
  "insert_batches [] mt = Some mt"
| "insert_batches (b # bs) mt = do {
     (s, mt) \<leftarrow> InsertInto (batch (fst b) (snd b)) mt;
     if s = OK then insert_batches bs mt else None
   }"

definition history_of :: "(SequenceNumber \<times> update list) list \<Rightarrow> history" where
  "history_of bs = concat (map (\<lambda>b. numbered (fst b) (snd b)) bs)"

definition batches_ok :: "(byte list \<Rightarrow> bool) \<Rightarrow> (SequenceNumber \<times> update list) list \<Rightarrow> bool" where
  "batches_ok ok bs \<longleftrightarrow> hist_ok ok (history_of bs) \<and> (\<forall>b \<in> set bs. length (snd b) < 2 ^ 31 \<and> (\<forall>u \<in> set (snd b). update_ok u))"

context user_comparator
begin

lemma insert_batches_hist:
  assumes "mem_hist ok compare mt h" "hist_ok ok (h @ history_of bs)"
    "\<forall>b \<in> set bs. length (snd b) < 2 ^ 31 \<and> (\<forall>u \<in> set (snd b). update_ok u)"
  obtains mt' where "insert_batches bs mt = Some mt'" "mem_hist ok compare mt' (h @ history_of bs)"
  using assms
proof (induction bs arbitrary: mt h thesis)
  case Nil
  then show ?case by (simp add: history_of_def)
next
  case (Cons b bs)
  have "hist_ok ok (h @ numbered (fst b) (snd b))"
    using Cons.prems(3) by (auto simp: hist_ok_def history_of_def sorted_wrt_append)
  then obtain mt1 where 1: "InsertInto (batch (fst b) (snd b)) mt = Some (OK, mt1)"
      "mem_hist ok compare mt1 (h @ numbered (fst b) (snd b))"
    by (rule InsertInto_hist [OF Cons.prems(2)]) (use Cons.prems(4) in auto)
  obtain mt2 where "insert_batches bs mt1 = Some mt2" "mem_hist ok compare mt2 ((h @ numbered (fst b) (snd b)) @ history_of bs)"
    by (rule Cons.IH [OF _ 1(2)]) (use Cons.prems(3,4) in \<open>auto simp: history_of_def\<close>)
  with Cons.prems(1) 1(1) show ?case by (simp add: history_of_def)
qed

lemma new_hist: obtains mt where "MemTable compare = Some mt" "mem_hist ok compare mt []"
  by (rule MemTable_rep) (auto simp: mem_hist_def hist_ok_def intro: that)

end

text \<open>C2: A memtable into which write batches with ascending sequence numbers were inserted refines the
  history of the updates: looking up a key at a snapshot finds the value of the last update of
  the key up to the snapshot, reports NotFound if that was a deletion, and gives no answer,
  changing neither value nor status, if there is none.  Inserting and looking up always return.\<close>

lemma memtable_refines_history:
  assumes "batches_ok (\<lambda>_. True) bs" "s \<le> kMaxSequenceNumber" "length k + 8 < 2 ^ 32"
  shows "\<exists>mt lk. Option.bind (MemTable Bytewise_Compare) (insert_batches bs) = Some mt \<and> new_LookupKey k s = Some lk \<and>
    MemTable_Get lk mt val st = Some (answer (newest k s (history_of bs)) val st)"
proof -
  obtain mt0 where mt0: "MemTable Bytewise_Compare = Some mt0" "mem_hist (\<lambda>_. True) Bytewise_Compare mt0 []"
    by (rule bytewise_user.new_hist)
  obtain mt where mt: "insert_batches bs mt0 = Some mt" "mem_hist (\<lambda>_. True) Bytewise_Compare mt (history_of bs)"
    using bytewise_user.insert_batches_hist [OF mt0(2), of bs] assms(1) by (auto simp: batches_ok_def)
  obtain lk where "new_LookupKey k s = Some lk"
      "\<And>val st. MemTable_Get lk mt val st = Some (answer (newest k s (history_of bs)) val st)"
    by (rule bytewise_user.Get_hist [OF mt(2) _ assms(3,2)]) simp_all
  with mt0 mt show ?thesis by auto
qed
lemma memtable_refines_history_witness:
  "let bs = [(5, [Put_update [97] [1], Put_update [98] [2]]), (9, [Delete_update [97], Put_update [97] [3]])]
   in \<exists>mt lk. Option.bind (MemTable Bytewise_Compare) (insert_batches bs) = Some mt \<and> new_LookupKey [97] 9 = Some lk \<and>
     MemTable_Get lk mt [7] OK = Some (True, [7], NotFound [])"
proof -
  let ?bs = "[(5, [Put_update [97] [1], Put_update [98] [2]]), (9, [Delete_update [97], Put_update [97] [3]])]
    :: (SequenceNumber \<times> update list) list"
  have ok: "batches_ok (\<lambda>_. True) ?bs"
    by (simp add: batches_ok_def hist_ok_def history_of_def slice_ok_def kMaxSequenceNumber_def)
  have "newest [97] 9 (history_of ?bs) = Some (Delete_update [97])"
    by (simp add: newest_def history_of_def)
  then show ?thesis
    using memtable_refines_history [OF ok, of 9 "[97]" "[7]" OK]
    by (simp add: answer_def kMaxSequenceNumber_def Let_def)
qed

text \<open>C29: The iterator of a memtable passes over the internal keys of everything written, sorted by user
  key and from new to old, each exactly once, in both directions.\<close>

lemma memtable_iterates:
  assumes "batches_ok (\<lambda>_. True) bs"
  shows "\<exists>mt xs. Option.bind (MemTable Bytewise_Compare) (insert_batches bs) = Some mt \<and>
    set xs = hist_entry ` set (history_of bs) \<and> sorted_wrt (below (Internal_Compare Bytewise_Compare)) (map fst xs) \<and>
    Option.bind (skip_SeekToFirst (mem_Iterator mt)) (scan skip_Valid mem_key mem_value skip_Next (length xs)) = Some xs \<and>
    Option.bind (skip_SeekToLast (mem_Iterator mt)) (scan skip_Valid mem_key mem_value skip_Prev (length xs)) = Some (rev xs)"
proof -
  obtain mt0 where mt0: "MemTable Bytewise_Compare = Some mt0" "mem_hist (\<lambda>_. True) Bytewise_Compare mt0 []"
    by (rule bytewise_user.new_hist)
  obtain mt where mt: "insert_batches bs mt0 = Some mt" "mem_hist (\<lambda>_. True) Bytewise_Compare mt (history_of bs)"
    using bytewise_user.insert_batches_hist [OF mt0(2), of bs] assms by (auto simp: batches_ok_def)
  then obtain xs where xs: "mem_rep (\<lambda>_. True) Bytewise_Compare mt xs" "set xs = hist_entry ` set (history_of bs)"
    by (auto simp: mem_hist_def)
  note stands = bytewise_user.mem_Iterator_stands [OF xs(1)]
  have "sorted_wrt (below (Internal_Compare Bytewise_Compare)) (map fst xs)"
    using xs(1) by (auto simp: mem_rep_def mem_keys_def ordered_def)
  then show ?thesis
    using mt0(1) mt(1) xs(2) bytewise_user.mem.first_to_last [OF stands] bytewise_user.mem.last_to_first [OF stands]
    by (intro exI [of _ mt] exI [of _ xs]) (simp del: bind_Some_iff)
qed

lemma memtable_iterates_witness:
  "let bs = [(5, [Put_update [97] [1], Delete_update [97]])]
   in \<exists>mt xs. Option.bind (MemTable Bytewise_Compare) (insert_batches bs) = Some mt \<and>
     set xs = {([97] @ EncodeFixed64 1281, [1]), ([97] @ EncodeFixed64 1536, [])} \<and>
     Option.bind (skip_SeekToFirst (mem_Iterator mt)) (scan skip_Valid mem_key mem_value skip_Next (length xs)) = Some xs"
proof -
  let ?bs = "[(5, [Put_update [97] [1], Delete_update [97]])] :: (SequenceNumber \<times> update list) list"
  have ok: "batches_ok (\<lambda>_. True) ?bs"
    by (simp add: batches_ok_def hist_ok_def history_of_def slice_ok_def kMaxSequenceNumber_def)
  have "hist_entry ` set (history_of ?bs) = {([97] @ EncodeFixed64 1281, [1]), ([97] @ EncodeFixed64 1536, [])}"
    by (simp add: hist_entry_def history_of_def)
  then show ?thesis using memtable_iterates [OF ok] by (auto simp: Let_def simp del: bind_Some_iff)
qed

section \<open>The skip list\<close>

text \<open>C16: Inserting a key that is not in a skip list keeps its shape: on every level, each node that
  reaches the level points to the next node that does, whatever height the generator draws; the
  keys are those before with the new one at its place, and it is found from then on.\<close>

lemma skiplist_insert:
  assumes "skip_rep sl ps ks" "splits_at sl ks key k"
    "k < length ks \<longrightarrow> (\<exists>r. sl_compare sl key (ks ! k) = Some r \<and> r \<noteq> 0)" "sl_compare sl key key = Some 0"
  shows "\<exists>x sl'. SkipList_Insert key sl = Some sl' \<and>
    skip_rep sl' (take k ps @ x # drop k ps) (take k ks @ key # drop k ks) \<and>
    Contains key sl' = Some True"
proof -
  obtain x sl' where ins: "SkipList_Insert key sl = Some sl'"
      "skip_rep sl' (take k ps @ x # drop k ps) (take k ks @ key # drop k ks)" "sl_compare sl' = sl_compare sl"
    by (rule Insert_rep [OF assms(1,2)]) (use assms(3) in blast)
  have k: "k \<le> length ks" using assms(2) by (simp add: splits_at_def)
  have "splits_at sl' (take k ks @ key # drop k ks) key k"
    unfolding splits_at_def ins(3)
  proof (intro conjI allI impI)
    fix i assume "i < length (take k ks @ key # drop k ks)"
    then consider "i < k" | "i = k" | "k < i" "i - 1 < length ks" using k by fastforce
    then show "\<exists>r. sl_compare sl ((take k ks @ key # drop k ks) ! i) key = Some r \<and> (r < 0 \<longleftrightarrow> i < k)"
    proof cases
      case 1
      then have "\<exists>r. sl_compare sl (ks ! i) key = Some r \<and> (r < 0 \<longleftrightarrow> i < k)"
        using assms(2) k unfolding splits_at_def by (meson less_le_trans)
      with 1 k show ?thesis by (simp add: nth_append)
    next
      case 3
      then have "(take k ks @ key # drop k ks) ! i = ks ! (i - 1)" using k by (simp add: nth_append nth_Cons')
      moreover have "\<exists>r. sl_compare sl (ks ! (i - 1)) key = Some r \<and> (r < 0 \<longleftrightarrow> i - 1 < k)"
        using assms(2) 3(2) by (auto simp: splits_at_def)
      ultimately show ?thesis using 3(1) by auto
    qed (use assms(2,4) k in \<open>auto simp: splits_at_def nth_append\<close>)
  qed (use k in simp)
  then have "Contains key sl' = Some True"
    using Contains_rep [OF ins(2), of key k 0] k assms(4) ins(3) by (simp add: nth_append)
  with ins show ?thesis by blast
qed

lemma skiplist_insert_witness:
  "\<exists>sl x sl'. SkipList (\<lambda>a b. Some (a - b)) Arena = Some sl \<and> SkipList_Insert 5 sl = Some sl' \<and>
    skip_rep sl' [x] [5 :: int] \<and> Contains 5 sl' = Some True"
proof -
  obtain sl where sl: "SkipList (\<lambda>a b. Some (a - b)) Arena = Some sl" "skip_rep sl [] ([] :: int list)"
      "sl_compare sl = (\<lambda>a b. Some (a - b))"
    by (rule SkipList_rep [OF arena_ok_new])
  then show ?thesis using skiplist_insert [of sl "[]" "[]" 5 0] by (auto simp: splits_at_def)
qed

end
