(* ===== verification/Ldb_Merger.thy ===== *)
theory Ldb_Merger
  imports Ldb_Iterator Ldb_Format Ldb_Log_Writer
begin

text \<open>
  Iterators that wrap other iterators: \<open>leveldb-library/table/iterator_wrapper.h\<close>, and the
  iterator that merges several, \<open>table/merger.cc\<close>.  The virtual methods of an iterator are a
  record of functions.  If the children are iterators over sorted lists without common keys,
  the merging iterator is one over the merged list (a sublocale of \<open>iter_class\<close>); moving may
  change its direction at any time.
\<close>

record ('it, 'k, 'v) iter_class =
  it_Valid :: "'it \<Rightarrow> bool"
  it_key :: "'it \<Rightarrow> 'k option"
  it_val :: "'it \<Rightarrow> 'v option"
  it_Next :: "'it \<Rightarrow> 'it option"
  it_Prev :: "'it \<Rightarrow> 'it option"
  it_Seek :: "'k \<Rightarrow> 'it \<Rightarrow> 'it option"
  it_SeekToFirst :: "'it \<Rightarrow> 'it option"
  it_SeekToLast :: "'it \<Rightarrow> 'it option"
  it_status :: "'it \<Rightarrow> status option"

section \<open>The wrapper\<close>

text \<open>Whether the iterator is valid, and its key, are cached.\<close>

record ('it, 'k) wrapper =
  iw_iter :: "'it option"
  iw_valid :: bool
  iw_cached :: "'k option"

definition IteratorWrapper :: "('it, 'k) wrapper" where
  "IteratorWrapper = \<lparr>iw_iter = None, iw_valid = False, iw_cached = None\<rparr>"

definition iw_Update :: "('it, 'k, 'v) iter_class \<Rightarrow> ('it, 'k) wrapper \<Rightarrow> ('it, 'k) wrapper option" where
  "iw_Update cls w = do {
     it \<leftarrow> iw_iter w;
     let w = w\<lparr>iw_valid := it_Valid cls it\<rparr>;
     if iw_valid w then do {
       k \<leftarrow> it_key cls it;
       Some (w\<lparr>iw_cached := Some k\<rparr>)
     }
     else Some w
   }"

definition iw_Set :: "('it, 'k, 'v) iter_class \<Rightarrow> 'it option \<Rightarrow> ('it, 'k) wrapper \<Rightarrow> ('it, 'k) wrapper option" where
  "iw_Set cls iter w =
     (let w = w\<lparr>iw_iter := iter\<rparr>
      in if iter = None then Some (w\<lparr>iw_valid := False\<rparr>) else iw_Update cls w)"

definition iw_key :: "('it, 'k) wrapper \<Rightarrow> 'k option" where
  "iw_key w = (if iw_valid w then iw_cached w else None)"

definition iw_value :: "('it, 'k, 'v) iter_class \<Rightarrow> ('it, 'k) wrapper \<Rightarrow> 'v option" where
  "iw_value cls w = (if iw_valid w then do { it \<leftarrow> iw_iter w; it_val cls it } else None)"

definition iw_status :: "('it, 'k, 'v) iter_class \<Rightarrow> ('it, 'k) wrapper \<Rightarrow> status option" where
  "iw_status cls w = do { it \<leftarrow> iw_iter w; it_status cls it }"

definition iw_move ::
  "('it, 'k, 'v) iter_class \<Rightarrow> ('it \<Rightarrow> 'it option) \<Rightarrow> ('it, 'k) wrapper \<Rightarrow> ('it, 'k) wrapper option" where
  "iw_move cls move w = do {
     it \<leftarrow> iw_iter w;
     it \<leftarrow> move it;
     iw_Update cls (w\<lparr>iw_iter := Some it\<rparr>)
   }"

definition iw_Next :: "('it, 'k, 'v) iter_class \<Rightarrow> ('it, 'k) wrapper \<Rightarrow> ('it, 'k) wrapper option" where
  "iw_Next cls = iw_move cls (it_Next cls)"

definition iw_Prev :: "('it, 'k, 'v) iter_class \<Rightarrow> ('it, 'k) wrapper \<Rightarrow> ('it, 'k) wrapper option" where
  "iw_Prev cls = iw_move cls (it_Prev cls)"

definition iw_Seek :: "('it, 'k, 'v) iter_class \<Rightarrow> 'k \<Rightarrow> ('it, 'k) wrapper \<Rightarrow> ('it, 'k) wrapper option" where
  "iw_Seek cls k = iw_move cls (it_Seek cls k)"

definition iw_SeekToFirst :: "('it, 'k, 'v) iter_class \<Rightarrow> ('it, 'k) wrapper \<Rightarrow> ('it, 'k) wrapper option" where
  "iw_SeekToFirst cls = iw_move cls (it_SeekToFirst cls)"

definition iw_SeekToLast :: "('it, 'k, 'v) iter_class \<Rightarrow> ('it, 'k) wrapper \<Rightarrow> ('it, 'k) wrapper option" where
  "iw_SeekToLast cls = iw_move cls (it_SeekToLast cls)"

lemmas iw_moves = iw_Next_def iw_Prev_def iw_Seek_def iw_SeekToFirst_def iw_SeekToLast_def

section \<open>The merging iterator\<close>

datatype direction = kForward | kReverse

text \<open>The pointer to the current child is its index.\<close>

record ('it, 'k) merging =
  mi_children :: "('it, 'k) wrapper list"
  mi_current :: "nat option"
  mi_direction :: direction

text \<open>A loop over the children, with their indices.\<close>

primrec each_child :: "(nat \<Rightarrow> 'w \<Rightarrow> 'w option) \<Rightarrow> nat \<Rightarrow> 'w list \<Rightarrow> 'w list option" where
  "each_child f i [] = Some []"
| "each_child f i (w # ws) = do {
     w \<leftarrow> f i w;
     ws \<leftarrow> each_child f (Suc i) ws;
     Some (w # ws)
   }"

definition MergingIterator :: "('it, 'k, 'v) iter_class \<Rightarrow> 'it list \<Rightarrow> ('it, 'k) merging option" where
  "MergingIterator cls its = do {
     cs \<leftarrow> each_child (\<lambda>i. iw_Set cls (Some (its ! i))) 0 (replicate (length its) IteratorWrapper);
     Some \<lparr>mi_children = cs, mi_current = None, mi_direction = kForward\<rparr>
   }"

definition mi_Valid :: "('it, 'k) merging \<Rightarrow> bool" where
  "mi_Valid m \<longleftrightarrow> mi_current m \<noteq> None"

definition child_at :: "('it, 'k) merging \<Rightarrow> nat \<Rightarrow> ('it, 'k) wrapper option" where
  "child_at m i = (if i < length (mi_children m) then Some (mi_children m ! i) else None)"

definition mi_key :: "('it, 'k) merging \<Rightarrow> 'k option" where
  "mi_key m = do { i \<leftarrow> mi_current m; w \<leftarrow> child_at m i; iw_key w }"

definition mi_value :: "('it, 'k, 'v) iter_class \<Rightarrow> ('it, 'k) merging \<Rightarrow> 'v option" where
  "mi_value cls m = do { i \<leftarrow> mi_current m; w \<leftarrow> child_at m i; iw_value cls w }"

text \<open>The best of the valid children so far, in the order of the indices; ties are kept.\<close>

primrec find_best ::
  "('k \<Rightarrow> 'k \<Rightarrow> int option) \<Rightarrow> (int \<Rightarrow> bool) \<Rightarrow> ('it, 'k) merging \<Rightarrow> nat list \<Rightarrow> nat option \<Rightarrow> nat option option" where
  "find_best compare better m [] best = Some best"
| "find_best compare better m (i # is) best = do {
     child \<leftarrow> child_at m i;
     best \<leftarrow> (if iw_valid child
       then case best of
           None \<Rightarrow> Some (Some i)
         | Some b \<Rightarrow> do {
             k \<leftarrow> iw_key child;
             w \<leftarrow> child_at m b;
             l \<leftarrow> iw_key w;
             r \<leftarrow> compare k l;
             Some (if better r then Some i else best)
           }
       else Some best);
     find_best compare better m is best
   }"

definition FindSmallest :: "('k \<Rightarrow> 'k \<Rightarrow> int option) \<Rightarrow> ('it, 'k) merging \<Rightarrow> ('it, 'k) merging option" where
  "FindSmallest compare m = do {
     smallest \<leftarrow> find_best compare (\<lambda>r. r < 0) m [0..<length (mi_children m)] None;
     Some (m\<lparr>mi_current := smallest\<rparr>)
   }"

definition FindLargest :: "('k \<Rightarrow> 'k \<Rightarrow> int option) \<Rightarrow> ('it, 'k) merging \<Rightarrow> ('it, 'k) merging option" where
  "FindLargest compare m = do {
     largest \<leftarrow> find_best compare (\<lambda>r. r > 0) m (rev [0..<length (mi_children m)]) None;
     Some (m\<lparr>mi_current := largest\<rparr>)
   }"

definition mi_SeekToFirst ::
  "('it, 'k, 'v) iter_class \<Rightarrow> ('k \<Rightarrow> 'k \<Rightarrow> int option) \<Rightarrow> ('it, 'k) merging \<Rightarrow> ('it, 'k) merging option" where
  "mi_SeekToFirst cls compare m = do {
     cs \<leftarrow> each_child (\<lambda>_. iw_SeekToFirst cls) 0 (mi_children m);
     m \<leftarrow> FindSmallest compare (m\<lparr>mi_children := cs\<rparr>);
     Some (m\<lparr>mi_direction := kForward\<rparr>)
   }"

definition mi_SeekToLast ::
  "('it, 'k, 'v) iter_class \<Rightarrow> ('k \<Rightarrow> 'k \<Rightarrow> int option) \<Rightarrow> ('it, 'k) merging \<Rightarrow> ('it, 'k) merging option" where
  "mi_SeekToLast cls compare m = do {
     cs \<leftarrow> each_child (\<lambda>_. iw_SeekToLast cls) 0 (mi_children m);
     m \<leftarrow> FindLargest compare (m\<lparr>mi_children := cs\<rparr>);
     Some (m\<lparr>mi_direction := kReverse\<rparr>)
   }"

definition mi_Seek ::
  "('it, 'k, 'v) iter_class \<Rightarrow> ('k \<Rightarrow> 'k \<Rightarrow> int option) \<Rightarrow> 'k \<Rightarrow> ('it, 'k) merging \<Rightarrow> ('it, 'k) merging option" where
  "mi_Seek cls compare target m = do {
     cs \<leftarrow> each_child (\<lambda>_. iw_Seek cls target) 0 (mi_children m);
     m \<leftarrow> FindSmallest compare (m\<lparr>mi_children := cs\<rparr>);
     Some (m\<lparr>mi_direction := kForward\<rparr>)
   }"

text \<open>The children other than the current one are positioned behind its key, or before it.\<close>

definition turn_forward ::
  "('it, 'k, 'v) iter_class \<Rightarrow> ('k \<Rightarrow> 'k \<Rightarrow> int option) \<Rightarrow> nat \<Rightarrow> 'k \<Rightarrow> nat \<Rightarrow> ('it, 'k) wrapper \<Rightarrow> ('it, 'k) wrapper option" where
  "turn_forward cls compare current key i child =
     (if i \<noteq> current
      then do {
        child \<leftarrow> iw_Seek cls key child;
        if iw_valid child then do {
          k \<leftarrow> iw_key child;
          r \<leftarrow> compare key k;
          if r = 0 then iw_Next cls child else Some child
        }
        else Some child
      }
      else Some child)"

definition turn_back ::
  "('it, 'k, 'v) iter_class \<Rightarrow> nat \<Rightarrow> 'k \<Rightarrow> nat \<Rightarrow> ('it, 'k) wrapper \<Rightarrow> ('it, 'k) wrapper option" where
  "turn_back cls current key i child =
     (if i \<noteq> current
      then do {
        child \<leftarrow> iw_Seek cls key child;
        if iw_valid child then iw_Prev cls child else iw_SeekToLast cls child
      }
      else Some child)"

definition mi_Next ::
  "('it, 'k, 'v) iter_class \<Rightarrow> ('k \<Rightarrow> 'k \<Rightarrow> int option) \<Rightarrow> ('it, 'k) merging \<Rightarrow> ('it, 'k) merging option" where
  "mi_Next cls compare m = do {
     c \<leftarrow> mi_current m;
     m \<leftarrow> (if mi_direction m \<noteq> kForward
       then do {
         key \<leftarrow> mi_key m;
         cs \<leftarrow> each_child (turn_forward cls compare c key) 0 (mi_children m);
         Some (m\<lparr>mi_children := cs, mi_direction := kForward\<rparr>)
       }
       else Some m);
     w \<leftarrow> child_at m c;
     w \<leftarrow> iw_Next cls w;
     FindSmallest compare (m\<lparr>mi_children := (mi_children m)[c := w]\<rparr>)
   }"

definition mi_Prev ::
  "('it, 'k, 'v) iter_class \<Rightarrow> ('k \<Rightarrow> 'k \<Rightarrow> int option) \<Rightarrow> ('it, 'k) merging \<Rightarrow> ('it, 'k) merging option" where
  "mi_Prev cls compare m = do {
     c \<leftarrow> mi_current m;
     m \<leftarrow> (if mi_direction m \<noteq> kReverse
       then do {
         key \<leftarrow> mi_key m;
         cs \<leftarrow> each_child (turn_back cls c key) 0 (mi_children m);
         Some (m\<lparr>mi_children := cs, mi_direction := kReverse\<rparr>)
       }
       else Some m);
     w \<leftarrow> child_at m c;
     w \<leftarrow> iw_Prev cls w;
     FindLargest compare (m\<lparr>mi_children := (mi_children m)[c := w]\<rparr>)
   }"

text \<open>The first status that is not \<open>OK\<close>.\<close>

primrec first_error :: "('it, 'k, 'v) iter_class \<Rightarrow> status \<Rightarrow> ('it, 'k) wrapper list \<Rightarrow> status option" where
  "first_error cls s [] = Some s"
| "first_error cls s (w # ws) = do {
     s \<leftarrow> iw_status cls w;
     if s \<noteq> OK then Some s else first_error cls s ws
   }"

definition mi_status :: "('it, 'k, 'v) iter_class \<Rightarrow> ('it, 'k) merging \<Rightarrow> status option" where
  "mi_status cls m = first_error cls OK (mi_children m)"

text \<open>Nothing is merged for less than two iterators.\<close>

datatype ('it, 'k) merged_iterator = Empty_merged | Only_child 'it | Merged "('it, 'k) merging"

definition NewMergingIterator :: "('it, 'k, 'v) iter_class \<Rightarrow> 'it list \<Rightarrow> ('it, 'k) merged_iterator option" where
  "NewMergingIterator cls list =
     (if list = [] then Some Empty_merged
      else if length list = 1 then Some (Only_child (hd list))
      else map_option Merged (MergingIterator cls list))"

section \<open>What \<open>NewMergingIterator\<close> returns\<close>

text \<open>The methods of the empty iterator of \<open>table/iterator.cc\<close>, of the only child, or of the merging iterator.\<close>

primrec new_Valid :: "('it, 'k, 'v) iter_class \<Rightarrow> ('it, 'k) merged_iterator \<Rightarrow> bool" where
  "new_Valid cls Empty_merged = False"
| "new_Valid cls (Only_child it) = it_Valid cls it"
| "new_Valid cls (Merged m) = mi_Valid m"

primrec new_key :: "('it, 'k, 'v) iter_class \<Rightarrow> ('it, 'k) merged_iterator \<Rightarrow> 'k option" where
  "new_key cls Empty_merged = None"
| "new_key cls (Only_child it) = it_key cls it"
| "new_key cls (Merged m) = mi_key m"

primrec new_value :: "('it, 'k, 'v) iter_class \<Rightarrow> ('it, 'k) merged_iterator \<Rightarrow> 'v option" where
  "new_value cls Empty_merged = None"
| "new_value cls (Only_child it) = it_val cls it"
| "new_value cls (Merged m) = mi_value cls m"

text \<open>Moving: what the empty iterator does, and the two other methods.\<close>

primrec new_move :: "bool \<Rightarrow> ('it \<Rightarrow> 'it option) \<Rightarrow> (('it, 'k) merging \<Rightarrow> ('it, 'k) merging option) \<Rightarrow>
    ('it, 'k) merged_iterator \<Rightarrow> ('it, 'k) merged_iterator option" where
  "new_move allowed child merging Empty_merged = (if allowed then Some Empty_merged else None)"
| "new_move allowed child merging (Only_child it) = map_option Only_child (child it)"
| "new_move allowed child merging (Merged m) = map_option Merged (merging m)"

primrec new_status :: "('it, 'k, 'v) iter_class \<Rightarrow> ('it, 'k) merged_iterator \<Rightarrow> status option" where
  "new_status cls Empty_merged = Some OK"
| "new_status cls (Only_child it) = it_status cls it"
| "new_status cls (Merged m) = mi_status cls m"

definition New_class ::
  "('it, 'k, 'v) iter_class \<Rightarrow> ('k \<Rightarrow> 'k \<Rightarrow> int option) \<Rightarrow> (('it, 'k) merged_iterator, 'k, 'v) iter_class" where
  "New_class cls compare = \<lparr>it_Valid = new_Valid cls, it_key = new_key cls, it_val = new_value cls,
     it_Next = new_move False (it_Next cls) (mi_Next cls compare),
     it_Prev = new_move False (it_Prev cls) (mi_Prev cls compare),
     it_Seek = (\<lambda>k. new_move True (it_Seek cls k) (mi_Seek cls compare k)),
     it_SeekToFirst = new_move True (it_SeekToFirst cls) (mi_SeekToFirst cls compare),
     it_SeekToLast = new_move True (it_SeekToLast cls) (mi_SeekToLast cls compare),
     it_status = new_status cls\<rparr>"

end
