(* ===== verification/Ldb_Db_Iter.thy ===== *)
theory Ldb_Db_Iter
  imports Ldb_Merger Ldb_Random
begin

text \<open>
  The iterator that users of a database see, \<open>leveldb-library/db/db_iter.cc\<close>: it combines the entries
  of an internal iterator for the same user key into at most one, hiding what is deleted,
  overwritten, or newer than the snapshot.  The capacity of strings is not modelled, so a value
  that is cleared is just empty.  Of the database, only the calls of \<open>RecordReadSample\<close> are kept.
\<close>

section \<open>State\<close>

record 'it db_iter =
  di_iter :: 'it
  di_sequence :: SequenceNumber
  di_status :: status
  di_saved_key :: "byte list"
  di_saved_value :: "byte list"
  di_direction :: direction
  di_valid :: bool
  di_rnd :: u32
  di_bytes_counter :: int
  di_samples :: "byte list list"

definition kReadBytesPeriod :: int where "kReadBytesPeriod = 1048576"

definition RandomPeriod :: "'it db_iter \<Rightarrow> (int \<times> 'it db_iter) option" where
  "RandomPeriod di = do {
     (r, rnd) \<leftarrow> Uniform (2 * kReadBytesPeriod) (di_rnd di);
     Some (uint r, di\<lparr>di_rnd := rnd\<rparr>)
   }"

definition DBIter :: "'it \<Rightarrow> SequenceNumber \<Rightarrow> u32 \<Rightarrow> 'it db_iter option" where
  "DBIter iter s seed = do {
     (n, di) \<leftarrow> RandomPeriod \<lparr>di_iter = iter, di_sequence = s, di_status = OK, di_saved_key = [], di_saved_value = [],
       di_direction = kForward, di_valid = False, di_rnd = Random_new seed, di_bytes_counter = 0, di_samples = []\<rparr>;
     Some (di\<lparr>di_bytes_counter := n\<rparr>)
   }"

definition di_key :: "('it, byte list, byte list) iter_class \<Rightarrow> 'it db_iter \<Rightarrow> byte list option" where
  "di_key cls di =
     (if \<not> di_valid di then None
      else if di_direction di = kForward then do { k \<leftarrow> it_key cls (di_iter di); ExtractUserKey k }
      else Some (di_saved_key di))"

definition di_value :: "('it, byte list, byte list) iter_class \<Rightarrow> 'it db_iter \<Rightarrow> byte list option" where
  "di_value cls di =
     (if \<not> di_valid di then None
      else if di_direction di = kForward then it_val cls (di_iter di) else Some (di_saved_value di))"

definition di_get_status :: "('it, byte list, byte list) iter_class \<Rightarrow> 'it db_iter \<Rightarrow> status option" where
  "di_get_status cls di = (if status_ok (di_status di) then it_status cls (di_iter di) else Some (di_status di))"

section \<open>Parsing\<close>

partial_function (option) sample_loop :: "byte list \<Rightarrow> 'it db_iter \<Rightarrow> 'it db_iter option" where
  "sample_loop k di =
     (if di_bytes_counter di < 0 then do {
        p \<leftarrow> RandomPeriod di;
        sample_loop k ((snd p)\<lparr>di_bytes_counter := di_bytes_counter di + fst p, di_samples := di_samples di @ [k]\<rparr>)
      }
      else Some di)"

declare sample_loop.simps [code]

text \<open>The parsed key, if there is one.\<close>

definition ParseKey ::
  "('it, byte list, byte list) iter_class \<Rightarrow> 'it db_iter \<Rightarrow> (ParsedInternalKey option \<times> 'it db_iter) option" where
  "ParseKey cls di = do {
     k \<leftarrow> it_key cls (di_iter di);
     v \<leftarrow> it_val cls (di_iter di);
     let n = int (length k + length v);
     di \<leftarrow> sample_loop k (di\<lparr>di_bytes_counter := di_bytes_counter di - n\<rparr>);
     ikey \<leftarrow> ParseInternalKey k;
     Some (ikey, if ikey = None then di\<lparr>di_status := Corruption (ascii ''corrupted internal key in DBIter'')\<rparr> else di)
   }"

section \<open>Forward\<close>

text \<open>
  One entry: whether it is the one to yield, and whether keys are to be skipped from now on.
  The key to skip up to is \<open>saved_key_\<close> in every call.
\<close>

definition next_step :: "(byte list \<Rightarrow> byte list \<Rightarrow> int option) \<Rightarrow> bool \<Rightarrow> ParsedInternalKey option \<Rightarrow> 'it db_iter \<Rightarrow>
    (bool \<times> bool \<times> 'it db_iter) option" where
  "next_step compare skipping ikey di =
     (case ikey of
        None \<Rightarrow> Some (False, skipping, di)
      | Some ikey \<Rightarrow>
          if pik_sequence ikey \<le> di_sequence di then
            (case pik_type ikey of
               kTypeDeletion \<Rightarrow> Some (False, True, di\<lparr>di_saved_key := pik_user_key ikey\<rparr>)
             | kTypeValue \<Rightarrow> do {
                 hidden \<leftarrow> (if skipping
                   then do { r \<leftarrow> compare (pik_user_key ikey) (di_saved_key di); Some (r \<le> 0) }
                   else Some False);
                 if hidden then Some (False, skipping, di)
                 else Some (True, skipping, di\<lparr>di_valid := True, di_saved_key := []\<rparr>)
               })
          else Some (False, skipping, di))"

partial_function (option) FindNext_loop ::
  "('it, byte list, byte list) iter_class \<Rightarrow> (byte list \<Rightarrow> byte list \<Rightarrow> int option) \<Rightarrow> bool \<Rightarrow> 'it db_iter \<Rightarrow> 'it db_iter option" where
  "FindNext_loop cls compare skipping di = do {
     p \<leftarrow> ParseKey cls di;
     s \<leftarrow> next_step compare skipping (fst p) (snd p);
     if fst s then Some (snd (snd s))
     else do {
       it \<leftarrow> it_Next cls (di_iter (snd (snd s)));
       if it_Valid cls it then FindNext_loop cls compare (fst (snd s)) ((snd (snd s))\<lparr>di_iter := it\<rparr>)
       else Some ((snd (snd s))\<lparr>di_iter := it, di_saved_key := [], di_valid := False\<rparr>)
     }
   }"

declare FindNext_loop.simps [code]

definition FindNextUserEntry ::
  "('it, byte list, byte list) iter_class \<Rightarrow> (byte list \<Rightarrow> byte list \<Rightarrow> int option) \<Rightarrow> bool \<Rightarrow> 'it db_iter \<Rightarrow> 'it db_iter option" where
  "FindNextUserEntry cls compare skipping di =
     (if it_Valid cls (di_iter di) \<and> di_direction di = kForward then FindNext_loop cls compare skipping di else None)"

definition di_Next ::
  "('it, byte list, byte list) iter_class \<Rightarrow> (byte list \<Rightarrow> byte list \<Rightarrow> int option) \<Rightarrow> 'it db_iter \<Rightarrow> 'it db_iter option" where
  "di_Next cls compare di =
     (if \<not> di_valid di then None
      else if di_direction di = kReverse then do {
        it \<leftarrow> (if \<not> it_Valid cls (di_iter di) then it_SeekToFirst cls (di_iter di) else it_Next cls (di_iter di));
        let di = di\<lparr>di_direction := kForward, di_iter := it\<rparr>;
        if \<not> it_Valid cls it then Some (di\<lparr>di_valid := False, di_saved_key := []\<rparr>)
        else FindNextUserEntry cls compare True di
      }
      else do {
        k \<leftarrow> it_key cls (di_iter di);
        u \<leftarrow> ExtractUserKey k;
        FindNextUserEntry cls compare True (di\<lparr>di_saved_key := u\<rparr>)
      })"

section \<open>Backward\<close>

text \<open>One entry: whether the loop ends, and the type of the entry that is saved.\<close>

definition prev_step :: "('it, byte list, byte list) iter_class \<Rightarrow> (byte list \<Rightarrow> byte list \<Rightarrow> int option) \<Rightarrow> ValueType \<Rightarrow>
    ParsedInternalKey option \<Rightarrow> 'it db_iter \<Rightarrow> (bool \<times> ValueType \<times> 'it db_iter) option" where
  "prev_step cls compare value_type ikey di =
     (case ikey of
        None \<Rightarrow> Some (False, value_type, di)
      | Some ikey \<Rightarrow>
          if pik_sequence ikey \<le> di_sequence di then do {
            stop \<leftarrow> (if value_type \<noteq> kTypeDeletion
              then do { r \<leftarrow> compare (pik_user_key ikey) (di_saved_key di); Some (r < 0) }
              else Some False);
            if stop then Some (True, value_type, di)
            else if pik_type ikey = kTypeDeletion
            then Some (False, kTypeDeletion, di\<lparr>di_saved_key := [], di_saved_value := []\<rparr>)
            else do {
              raw_value \<leftarrow> it_val cls (di_iter di);
              k \<leftarrow> it_key cls (di_iter di);
              u \<leftarrow> ExtractUserKey k;
              Some (False, pik_type ikey, di\<lparr>di_saved_key := u, di_saved_value := raw_value\<rparr>)
            }
          }
          else Some (False, value_type, di))"

partial_function (option) FindPrev_loop :: "('it, byte list, byte list) iter_class \<Rightarrow>
    (byte list \<Rightarrow> byte list \<Rightarrow> int option) \<Rightarrow> ValueType \<Rightarrow> 'it db_iter \<Rightarrow> (ValueType \<times> 'it db_iter) option" where
  "FindPrev_loop cls compare value_type di = do {
     p \<leftarrow> ParseKey cls di;
     s \<leftarrow> prev_step cls compare value_type (fst p) (snd p);
     if fst s then Some (snd s)
     else do {
       it \<leftarrow> it_Prev cls (di_iter (snd (snd s)));
       if it_Valid cls it then FindPrev_loop cls compare (fst (snd s)) ((snd (snd s))\<lparr>di_iter := it\<rparr>)
       else Some (fst (snd s), (snd (snd s))\<lparr>di_iter := it\<rparr>)
     }
   }"

declare FindPrev_loop.simps [code]

definition FindPrevUserEntry ::
  "('it, byte list, byte list) iter_class \<Rightarrow> (byte list \<Rightarrow> byte list \<Rightarrow> int option) \<Rightarrow> 'it db_iter \<Rightarrow> 'it db_iter option" where
  "FindPrevUserEntry cls compare di =
     (if di_direction di \<noteq> kReverse then None
      else do {
        (value_type, di) \<leftarrow> (if it_Valid cls (di_iter di) then FindPrev_loop cls compare kTypeDeletion di
          else Some (kTypeDeletion, di));
        Some (if value_type = kTypeDeletion
          then di\<lparr>di_valid := False, di_saved_key := [], di_saved_value := [], di_direction := kForward\<rparr>
          else di\<lparr>di_valid := True\<rparr>)
      })"

text \<open>Backwards until the user key changes; whether there is such an entry.\<close>

partial_function (option) back_loop :: "('it, byte list, byte list) iter_class \<Rightarrow>
    (byte list \<Rightarrow> byte list \<Rightarrow> int option) \<Rightarrow> 'it db_iter \<Rightarrow> (bool \<times> 'it db_iter) option" where
  "back_loop cls compare di = do {
     it \<leftarrow> it_Prev cls (di_iter di);
     if \<not> it_Valid cls it
     then Some (False, di\<lparr>di_iter := it, di_valid := False, di_saved_key := [], di_saved_value := []\<rparr>)
     else do {
       k \<leftarrow> it_key cls it;
       u \<leftarrow> ExtractUserKey k;
       r \<leftarrow> compare u (di_saved_key di);
       if r < 0 then Some (True, di\<lparr>di_iter := it\<rparr>)
       else back_loop cls compare (di\<lparr>di_iter := it\<rparr>)
     }
   }"

declare back_loop.simps [code]

definition di_Prev ::
  "('it, byte list, byte list) iter_class \<Rightarrow> (byte list \<Rightarrow> byte list \<Rightarrow> int option) \<Rightarrow> 'it db_iter \<Rightarrow> 'it db_iter option" where
  "di_Prev cls compare di =
     (if \<not> di_valid di then None
      else if di_direction di = kForward then
        if \<not> it_Valid cls (di_iter di) then None
        else do {
          k \<leftarrow> it_key cls (di_iter di);
          u \<leftarrow> ExtractUserKey k;
          (found, di) \<leftarrow> back_loop cls compare (di\<lparr>di_saved_key := u\<rparr>);
          if \<not> found then Some di else FindPrevUserEntry cls compare (di\<lparr>di_direction := kReverse\<rparr>)
        }
      else FindPrevUserEntry cls compare di)"

section \<open>Seeking\<close>

definition di_Seek :: "('it, byte list, byte list) iter_class \<Rightarrow> (byte list \<Rightarrow> byte list \<Rightarrow> int option) \<Rightarrow>
    byte list \<Rightarrow> 'it db_iter \<Rightarrow> 'it db_iter option" where
  "di_Seek cls compare target di = do {
     key \<leftarrow> AppendInternalKey [] \<lparr>pik_user_key = target, pik_sequence = di_sequence di, pik_type = kValueTypeForSeek\<rparr>;
     it \<leftarrow> it_Seek cls key (di_iter di);
     let di = di\<lparr>di_direction := kForward, di_saved_value := [], di_saved_key := key, di_iter := it\<rparr>;
     if it_Valid cls it then FindNextUserEntry cls compare False di else Some (di\<lparr>di_valid := False\<rparr>)
   }"

definition di_SeekToFirst ::
  "('it, byte list, byte list) iter_class \<Rightarrow> (byte list \<Rightarrow> byte list \<Rightarrow> int option) \<Rightarrow> 'it db_iter \<Rightarrow> 'it db_iter option" where
  "di_SeekToFirst cls compare di = do {
     it \<leftarrow> it_SeekToFirst cls (di_iter di);
     let di = di\<lparr>di_direction := kForward, di_saved_value := [], di_iter := it\<rparr>;
     if it_Valid cls it then FindNextUserEntry cls compare False di else Some (di\<lparr>di_valid := False\<rparr>)
   }"

definition di_SeekToLast ::
  "('it, byte list, byte list) iter_class \<Rightarrow> (byte list \<Rightarrow> byte list \<Rightarrow> int option) \<Rightarrow> 'it db_iter \<Rightarrow> 'it db_iter option" where
  "di_SeekToLast cls compare di = do {
     it \<leftarrow> it_SeekToLast cls (di_iter di);
     FindPrevUserEntry cls compare (di\<lparr>di_direction := kReverse, di_saved_value := [], di_iter := it\<rparr>)
   }"

text \<open>Its virtual methods.\<close>

definition DBIter_class :: "('it, byte list, byte list) iter_class \<Rightarrow> (byte list \<Rightarrow> byte list \<Rightarrow> int option) \<Rightarrow>
    ('it db_iter, byte list, byte list) iter_class" where
  "DBIter_class cls compare = \<lparr>it_Valid = di_valid, it_key = di_key cls, it_val = di_value cls,
     it_Next = di_Next cls compare, it_Prev = di_Prev cls compare, it_Seek = di_Seek cls compare,
     it_SeekToFirst = di_SeekToFirst cls compare, it_SeekToLast = di_SeekToLast cls compare,
     it_status = di_get_status cls\<rparr>"

section \<open>The gaps between samples\<close>

text \<open>Of two periods in a row one is not 0, so sampling ends.\<close>

lemma Uniform_period:
  "Uniform (2 * kReadBytesPeriod) seed = Some (Random_Next seed mod 2097152, Random_Next seed)"
  by (simp add: Uniform_def kReadBytesPeriod_def Let_def)

lemma split_period: "(a * 1024 + b) * 2097152 = a * 2147483647 + (a + b * 2097152)" for a b :: nat
  by simp

lemma two_periods:
  assumes "seed_ok seed" "Random_Next seed mod 2097152 = 0"
  shows "Random_Next (Random_Next seed) mod 2097152 \<noteq> 0"
proof -
  let ?x = "unat (Random_Next seed)"
  have x: "seed_ok (Random_Next seed)" by (rule Next_multiplies(2) [OF assms(1)])
  then have bounds: "0 < ?x" "?x < 2147483647" by (simp_all add: seed_ok_def word_less_nat_alt)
  have "unat (Random_Next seed mod 2097152) = ?x mod 2097152" by (simp add: unat_mod)
  then have "?x mod 2097152 = 0" using assms(2) by simp
  then obtain k where k: "?x = k * 2097152" by (metis mod_0_imp_dvd dvd_def mult.commute)
  with bounds have k': "0 < k" "k < 1024" by simp_all
  let ?a = "16807 * k div 1024" and ?b = "16807 * k mod 1024"
  have "?x * 16807 = 16807 * k * 2097152" using k by simp
  also have "\<dots> = (?a * 1024 + ?b) * 2097152" by (rule arg_cong [OF div_mod_decomp])
  also have "\<dots> = ?a * 2147483647 + (?a + ?b * 2097152)" by (rule split_period)
  finally have "?x * 16807 = ?a * 2147483647 + (?a + ?b * 2097152)" .
  then have "?x * 16807 mod 2147483647 = (?a + ?b * 2097152) mod 2147483647" by (simp only: mod_mult_self3)
  moreover have "?a + ?b * 2097152 < 2147483647"
  proof -
    have "?a < 16807" "?b \<le> 1023" using k' by simp_all
    then show ?thesis by linarith
  qed
  ultimately have "unat (Random_Next (Random_Next seed)) = ?a + ?b * 2097152"
    using Next_multiplies(1) [OF x] by simp
  then have "unat (Random_Next (Random_Next seed) mod 2097152) = ?a mod 2097152" by (simp add: unat_mod)
  moreover have "?a mod 2097152 = ?a" "0 < ?a" using k' by simp_all
  ultimately show ?thesis by (metis less_irrefl unat_0)
qed

text \<open>What parsing and searching leave alone.\<close>

definition same_view :: "'it db_iter \<Rightarrow> 'it db_iter \<Rightarrow> bool" where
  "same_view di di' \<longleftrightarrow> (\<exists>rnd n ks. seed_ok rnd \<and> di' = di\<lparr>di_rnd := rnd, di_bytes_counter := n, di_samples := ks\<rparr>)"

lemma debt_shrinks:
  fixes c z :: int
  assumes "c < 0" "0 \<le> z" "z = 0 \<longleftrightarrow> a" "a \<Longrightarrow> \<not> b"
  shows "(if c + z < 0 then 2 * nat (- (c + z)) + (if b then 1 else 0) else 0) < 2 * nat (- c) + (if a then 1 else 0)"
  using assms by (cases a) auto

definition sample_debt :: "'it db_iter \<Rightarrow> nat" where
  "sample_debt di = (if di_bytes_counter di < 0
     then 2 * nat (- di_bytes_counter di) + (if Random_Next (di_rnd di) mod 2097152 = 0 then 1 else 0) else 0)"

lemma sample_loop_ends:
  assumes "seed_ok (di_rnd di)"
  shows "\<exists>di'. sample_loop k di = Some di' \<and> same_view di di'"
  using assms
proof (induction "sample_debt di" arbitrary: di rule: less_induct)
  case less
  show ?case
  proof (cases "di_bytes_counter di < 0")
    case False
    have "same_view di di"
      unfolding same_view_def
      by (rule exI [of _ "di_rnd di"], rule exI [of _ "di_bytes_counter di"], rule exI [of _ "di_samples di"])
        (use less.prems in simp)
    with False show ?thesis by (simp add: sample_loop.simps [of k di])
  next
    case True
    let ?r = "Random_Next (di_rnd di)"
    let ?n = "uint (?r mod 2097152)"
    let ?di = "di\<lparr>di_rnd := ?r, di_bytes_counter := di_bytes_counter di + ?n, di_samples := di_samples di @ [k]\<rparr>"
    have step: "sample_loop k di = sample_loop k ?di"
      using True by (simp add: sample_loop.simps [of k di] RandomPeriod_def Uniform_period)
    have ok: "seed_ok ?r" by (rule Next_multiplies(2) [OF less.prems])
    define a where "a = (?r mod 2097152 = 0)"
    define b where "b = (Random_Next ?r mod 2097152 = 0)"
    have ab: "?n = 0 \<longleftrightarrow> a" "0 \<le> ?n" "a \<Longrightarrow> \<not> b"
      unfolding a_def b_def using two_periods [OF less.prems] by (simp_all only: uint_0_iff uint_ge_0 not_False_eq_True)
    have sel: "di_bytes_counter ?di = di_bytes_counter di + ?n" "di_rnd ?di = ?r" by simp_all
    have "sample_debt ?di < sample_debt di"
      using debt_shrinks [OF True ab(2,1,3)] True
      by (simp only: sample_debt_def sel if_True a_def b_def)
    from less.hyps [OF this] have "\<exists>di'. sample_loop k ?di = Some di' \<and> same_view ?di di'"
      using ok by simp
    then show ?thesis using step by (auto simp: same_view_def)
  qed
qed

end
