(* ===== verification/Ldb_Merger_Rep.thy ===== *)
theory Ldb_Merger_Rep
  imports Ldb_Merger
begin

text \<open>
  The wrapper and the merging iterator keep the contract of iterators: \<open>w_stands\<close> and
  \<open>merged_stands\<close> say where they stand, and both are instances of \<open>iterator\<close> for every class of
  children that is one.
\<close>

section \<open>Cuts\<close>

text \<open>
  The keys that satisfy \<open>P\<close> are the first \<open>n\<close> of a list.  Going forward, an iterator stands
  behind them, going back, on the last of them.
\<close>

definition cut :: "('k \<Rightarrow> bool) \<Rightarrow> ('k \<times> 'v) list \<Rightarrow> nat \<Rightarrow> bool" where
  "cut P xs n \<longleftrightarrow> n \<le> length xs \<and> (\<forall>i < length xs. P (fst (xs ! i)) \<longleftrightarrow> i < n)"

definition last_before :: "nat \<Rightarrow> ('k \<times> 'v) list \<Rightarrow> nat" where
  "last_before n xs = (if n = 0 then length xs else n - 1)"

definition back_cut :: "('k \<Rightarrow> bool) \<Rightarrow> ('k \<times> 'v) list \<Rightarrow> nat \<Rightarrow> bool" where
  "back_cut P xs p \<longleftrightarrow> (\<exists>n. cut P xs n \<and> p = last_before n xs)"

lemma cut_cong: "cut P xs n \<Longrightarrow> (\<And>x. x \<in> set xs \<Longrightarrow> Q (fst x) = P (fst x)) \<Longrightarrow> cut Q xs n"
  by (simp add: cut_def)

lemma back_cut_cong: "back_cut P xs p \<Longrightarrow> (\<And>x. x \<in> set xs \<Longrightarrow> Q (fst x) = P (fst x)) \<Longrightarrow> back_cut Q xs p"
  unfolding back_cut_def using cut_cong [of P xs _ Q] by blast

lemma cut_all [simp]: "cut (\<lambda>_. True) xs (length xs)" "cut (\<lambda>_. False) xs 0"
  by (simp_all add: cut_def)

lemma cut_mem: "cut P xs n \<Longrightarrow> x \<in> set xs \<Longrightarrow> P (fst x) \<longleftrightarrow> (\<exists>i < n. xs ! i = x)"
  by (fastforce simp: cut_def in_set_conv_nth)

lemma last_before_less: "last_before n xs < length xs \<longleftrightarrow> 0 < n \<and> n \<le> length xs" if "n \<le> length xs"
  using that by (auto simp: last_before_def)

context key_order
begin

abbreviation less :: "'k \<Rightarrow> 'k \<Rightarrow> bool" where "less \<equiv> below compare"

lemma ordered_nth:
  assumes "ordered ok compare xs" "i < length xs" "j < length xs"
  shows "less (fst (xs ! i)) (fst (xs ! j)) \<longleftrightarrow> i < j"
proof -
  have oks: "ok (fst (xs ! i))" "ok (fst (xs ! j))" using assms by (auto simp: ordered_def)
  have "less (fst (xs ! a)) (fst (xs ! b))" if "a < b" "b < length xs" for a b
    using assms(1) that by (simp add: ordered_def sorted_wrt_iff_nth_less)
  then show ?thesis using asym [OF oks] irrefl [OF oks(1)] assms(2,3) by (metis nat_neq_iff)
qed

lemma ordered_distinct: "ordered ok compare xs \<Longrightarrow> i < length xs \<Longrightarrow> j < length xs \<Longrightarrow> fst (xs ! i) = fst (xs ! j) \<Longrightarrow> i = j"
  using ordered_nth [of xs i j] ordered_nth [of xs j i] irrefl by (metis ordered_nth nat_neq_iff)

lemma cut_lower: "ordered ok compare xs \<Longrightarrow> ok t \<Longrightarrow> cut (\<lambda>k. less k t) xs (lower_bound compare t xs)"
  unfolding cut_def using lower_bound_below [of _ compare t xs] above_bound [of xs t] by (meson not_le lower_bound_le)

lemma cut_nth:
  assumes "ordered ok compare xs" "p < length xs"
  shows "cut (\<lambda>k. less k (fst (xs ! p))) xs p" "cut (\<lambda>k. \<not> less (fst (xs ! p)) k) xs (Suc p)"
  using assms ordered_nth [OF assms(1)] by (auto simp: cut_def)

text \<open>A cut is one below or up to a key of the list.\<close>

lemma cut_less:
  assumes "ordered ok compare xs" "cut P xs q" "q < length xs" "x \<in> set xs"
  shows "less (fst x) (fst (xs ! q)) \<longleftrightarrow> P (fst x)"
  using assms ordered_nth [OF assms(1) _ assms(3)] by (auto simp: cut_def in_set_conv_nth)

lemma cut_upto:
  assumes "ordered ok compare xs" "cut P xs q" "0 < q" "x \<in> set xs"
  shows "\<not> less (fst (xs ! (q - 1))) (fst x) \<longleftrightarrow> P (fst x)"
proof -
  have "q - 1 < length xs" using assms(2,3) by (auto simp: cut_def)
  with assms ordered_nth [OF assms(1), of "q - 1"] show ?thesis by (auto simp: cut_def in_set_conv_nth)
qed

end

section \<open>Loops over the children\<close>

lemma each_child_all:
  assumes "\<And>j. j < length ws \<Longrightarrow> \<exists>w. f (i + j) (ws ! j) = Some w \<and> Q j w"
  shows "\<exists>ws'. each_child f i ws = Some ws' \<and> length ws' = length ws \<and> (\<forall>j < length ws. Q j (ws' ! j))"
  using assms
proof (induction ws arbitrary: i Q)
  case (Cons w ws)
  obtain w' where w': "f i w = Some w'" "Q 0 w'" using Cons.prems [of 0] by auto
  have "\<exists>w. f (Suc i + j) (ws ! j) = Some w \<and> Q (Suc j) w" if "j < length ws" for j
    using Cons.prems [of "Suc j"] that by simp
  then obtain ws' where "each_child f (Suc i) ws = Some ws'" "length ws' = length ws" "\<forall>j < length ws. Q (Suc j) (ws' ! j)"
    using Cons.IH [of "Suc i" "\<lambda>j. Q (Suc j)"] by blast
  with w' show ?case by (simp add: All_less_Suc2)
qed simp

definition key_at :: "('it, 'k) merging \<Rightarrow> nat \<Rightarrow> 'k option" where
  "key_at m i = do { w \<leftarrow> child_at m i; iw_key w }"

text \<open>\<open>b\<close> is the best child among \<open>S\<close>, for a strict order.\<close>

definition best_of :: "('k \<Rightarrow> 'k \<Rightarrow> bool) \<Rightarrow> ('it, 'k) merging \<Rightarrow> nat set \<Rightarrow> nat option \<Rightarrow> bool" where
  "best_of R m S b \<longleftrightarrow> (case b of
      None \<Rightarrow> \<forall>i \<in> S. key_at m i = None
    | Some b \<Rightarrow> b \<in> S \<and> (\<exists>l. key_at m b = Some l \<and> (\<forall>i \<in> S. \<forall>k. key_at m i = Some k \<longrightarrow> \<not> R k l)))"

lemma find_best_rule:
  assumes valid: "\<And>i. i < length (mi_children m) \<Longrightarrow> iw_valid (mi_children m ! i) \<longleftrightarrow> key_at m i \<noteq> None"
    and compare: "\<And>i j k l. key_at m i = Some k \<Longrightarrow> key_at m j = Some l \<Longrightarrow> \<exists>r. compare k l = Some r \<and> (better r \<longleftrightarrow> R k l)"
    and irrefl: "\<And>i k. key_at m i = Some k \<Longrightarrow> \<not> R k k"
    and trans: "\<And>h i j a b c. key_at m h = Some a \<Longrightarrow> key_at m i = Some b \<Longrightarrow> key_at m j = Some c \<Longrightarrow> R a b \<Longrightarrow> R b c \<Longrightarrow> R a c"
    and "best_of R m S best" "\<forall>i \<in> set is. i < length (mi_children m)"
  shows "\<exists>b. find_best compare better m is best = Some b \<and> best_of R m (S \<union> set is) b"
  using assms(5,6)
proof (induction "is" arbitrary: S best)
  case (Cons i js)
  have i: "child_at m i = Some (mi_children m ! i)" using Cons.prems(2) by (simp add: child_at_def)
  note rest = Cons.IH [of "insert i S"]
  show ?case
  proof (cases "key_at m i")
    case None
    then have "best_of R m (insert i S) best" using Cons.prems(1) by (simp add: best_of_def split: option.splits)
    moreover have "\<not> iw_valid (mi_children m ! i)" using None valid Cons.prems(2) by simp
    ultimately show ?thesis using rest Cons.prems(2) i by (simp del: bind_Some_iff)
  next
    case (Some k)
    then have v: "iw_valid (mi_children m ! i)" "iw_key (mi_children m ! i) = Some k"
      using valid Cons.prems(2) i by (auto simp: key_at_def)
    show ?thesis
    proof (cases best)
      case None
      then have "best_of R m (insert i S) (Some i)" using Cons.prems(1) Some irrefl by (auto simp: best_of_def)
      with None show ?thesis using rest Cons.prems(2) i v by (simp del: bind_Some_iff)
    next
      case best: (Some b)
      then obtain l where l: "key_at m b = Some l" "b \<in> S" "\<forall>i \<in> S. \<forall>k. key_at m i = Some k \<longrightarrow> \<not> R k l"
        using Cons.prems(1) by (auto simp: best_of_def)
      then obtain w where w: "child_at m b = Some w" "iw_key w = Some l" by (auto simp: key_at_def)
      obtain r where r: "compare k l = Some r" "better r \<longleftrightarrow> R k l" using compare [OF Some l(1)] by blast
      have "best_of R m (insert i S) (if better r then Some i else Some b)"
        using r(2) l Some irrefl [OF Some] trans [OF _ Some l(1)] by (auto simp: best_of_def)
      then show ?thesis
        using rest [of "if better r then Some i else Some b"] Cons.prems(2) best i v w r(1)
        by (simp del: bind_Some_iff)
    qed
  qed
qed simp
section \<open>The wrapper is an iterator\<close>

definition w_stands ::
  "('it \<Rightarrow> ('k \<times> 'v) list \<Rightarrow> nat \<Rightarrow> bool) \<Rightarrow> ('it, 'k) wrapper \<Rightarrow> ('k \<times> 'v) list \<Rightarrow> nat \<Rightarrow> bool" where
  "w_stands stands w xs p \<longleftrightarrow> (\<exists>it. iw_iter w = Some it \<and> stands it xs p) \<and>
     iw_valid w = (p < length xs) \<and> (p < length xs \<longrightarrow> iw_cached w = Some (fst (xs ! p)))"

locale iter_class = iterator ok compare stands "it_Valid cls" "it_key cls" "it_val cls" "it_Next cls" "it_Prev cls"
    "it_Seek cls" "it_SeekToFirst cls" "it_SeekToLast cls"
  for ok :: "'k \<Rightarrow> bool" and compare :: "'k \<Rightarrow> 'k \<Rightarrow> int option"
    and stands :: "'it \<Rightarrow> ('k \<times> 'v) list \<Rightarrow> nat \<Rightarrow> bool" and cls :: "('it, 'k, 'v) iter_class"
begin

lemma Update_stands:
  assumes "iw_iter w = Some it" "stands it xs p"
  shows "\<exists>w'. iw_Update cls w = Some w' \<and> w_stands stands w' xs p"
  using assms Valid [OF assms(2)] entry [OF assms(2)]
  by (cases "p < length xs") (simp_all add: iw_Update_def w_stands_def Let_def del: bind_Some_iff)

lemma move_stands:
  assumes "w_stands stands w xs p" "\<And>it. stands it xs p \<Longrightarrow> \<exists>it'. move it = Some it' \<and> stands it' xs q"
  shows "\<exists>w'. iw_move cls move w = Some w' \<and> w_stands stands w' xs q"
proof -
  obtain it where it: "iw_iter w = Some it" "stands it xs p" using assms(1) by (auto simp: w_stands_def)
  obtain it' where "move it = Some it'" "stands it' xs q" using assms(2) [OF it(2)] by blast
  with it(1)
  show ?thesis using Update_stands [of "w\<lparr>iw_iter := Some it'\<rparr>"] by (simp add: iw_move_def del: bind_Some_iff)
qed

end

text \<open>
  What a client can do with an iterator, and the same with a position in a list: the positions
  are the specification.
\<close>

datatype 'k move = To_first | To_last | To 'k | Forward | Backward

primrec cursor_move :: "('k \<Rightarrow> 'k \<Rightarrow> int option) \<Rightarrow> ('k \<times> 'v) list \<Rightarrow> 'k move \<Rightarrow> nat \<Rightarrow> nat option" where
  "cursor_move compare xs To_first p = Some 0"
| "cursor_move compare xs To_last p = Some (length xs - 1)"
| "cursor_move compare xs (To k) p = Some (lower_bound compare k xs)"
| "cursor_move compare xs Forward p = (if p < length xs then Some (Suc p) else None)"
| "cursor_move compare xs Backward p = (if p < length xs then Some (if p = 0 then length xs else p - 1) else None)"

primrec iter_move :: "('it, 'k, 'v) iter_class \<Rightarrow> 'k move \<Rightarrow> 'it \<Rightarrow> 'it option" where
  "iter_move cls To_first = it_SeekToFirst cls"
| "iter_move cls To_last = it_SeekToLast cls"
| "iter_move cls (To k) = it_Seek cls k"
| "iter_move cls Forward = it_Next cls"
| "iter_move cls Backward = it_Prev cls"

primrec all_moves :: "('m \<Rightarrow> 'x \<Rightarrow> 'x option) \<Rightarrow> 'm list \<Rightarrow> 'x \<Rightarrow> 'x option" where
  "all_moves f [] x = Some x"
| "all_moves f (m # ms) x = do { x \<leftarrow> f m x; all_moves f ms x }"

text \<open>What a client sees: the key and the value, if the iterator is valid.\<close>

definition displays :: "('it, 'k, 'v) iter_class \<Rightarrow> 'it \<Rightarrow> ('k \<times> 'v) option \<Rightarrow> bool" where
  "displays cls it e \<longleftrightarrow> it_Valid cls it = (e \<noteq> None) \<and> (\<forall>k v. e = Some (k, v) \<longrightarrow> it_key cls it = Some k \<and> it_val cls it = Some v)"

definition entry_at :: "('k \<times> 'v) list \<Rightarrow> nat \<Rightarrow> ('k \<times> 'v) option" where
  "entry_at xs p = (if p < length xs then Some (xs ! p) else None)"

text \<open>An iterator follows a list if it shows what the position shows, after any moves that are allowed.\<close>

definition follows :: "('k \<Rightarrow> bool) \<Rightarrow> ('k \<Rightarrow> 'k \<Rightarrow> int option) \<Rightarrow> ('it, 'k, 'v) iter_class \<Rightarrow> 'it \<Rightarrow> ('k \<times> 'v) list \<Rightarrow> nat \<Rightarrow> bool" where
  "follows ok compare cls it xs p \<longleftrightarrow> (\<forall>ms q. (\<forall>k. To k \<in> set ms \<longrightarrow> ok k) \<longrightarrow>
     all_moves (cursor_move compare xs) ms p = Some q \<longrightarrow>
     (\<exists>it'. all_moves (iter_move cls) ms it = Some it' \<and> displays cls it' (entry_at xs q)))"

context iter_class
begin

lemma stands_follows:
  assumes "stands it xs p"
  shows "follows ok compare cls it xs p"
proof -
  have move: "\<exists>it'. iter_move cls m it = Some it' \<and> stands it' xs q"
    if "stands it xs p" "\<And>k. m = To k \<Longrightarrow> ok k" "cursor_move compare xs m p = Some q" for m it p q
    using that Next [of it xs p] Prev [of it xs p] Seek [of it xs p] SeekToFirst [of it xs p] SeekToLast [of it xs p]
    by (cases m) (auto split: if_splits)
  have "\<exists>it'. all_moves (iter_move cls) ms it = Some it' \<and> displays cls it' (entry_at xs q)"
    if "stands it xs p" "\<forall>k. To k \<in> set ms \<longrightarrow> ok k" "all_moves (cursor_move compare xs) ms p = Some q" for ms it p q
    using that
  proof (induction ms arbitrary: it p)
    case Nil
    then show ?case using Valid entry by (fastforce simp: displays_def entry_at_def)
  next
    case (Cons m ms)
    obtain p' where p': "cursor_move compare xs m p = Some p'" "all_moves (cursor_move compare xs) ms p' = Some q"
      using Cons.prems(3) by auto
    obtain it' where it': "iter_move cls m it = Some it'" "stands it' xs p'"
      using move [OF Cons.prems(1) _ p'(1)] Cons.prems(2) by auto
    from Cons.IH [OF it'(2) _ p'(2)] Cons.prems(2) it'(1) show ?case by simp
  qed
  with assms show ?thesis unfolding follows_def by blast
qed

end

sublocale iter_class \<subseteq> wrapped: iterator ok compare "w_stands stands" iw_valid iw_key "iw_value cls" "iw_Next cls"
  "iw_Prev cls" "iw_Seek cls" "iw_SeekToFirst cls" "iw_SeekToLast cls"
proof (unfold_locales, goal_cases)
  case (1 it xs i)
  then show ?case using position by (auto simp: w_stands_def)
next
  case (2 it xs i)
  then show ?case by (simp add: w_stands_def)
next
  case (3 it xs i)
  then show ?case using entry by (auto simp: w_stands_def iw_key_def iw_value_def)
next
  case (4 it xs i)
  then show ?case unfolding iw_moves using Next by (intro move_stands) auto
next
  case (5 it xs i)
  then show ?case unfolding iw_moves by (intro move_stands Prev) auto
next
  case (6 it xs i target)
  then show ?case unfolding iw_moves using Seek by (intro move_stands) auto
next
  case (7 it xs i)
  then show ?case unfolding iw_moves using SeekToFirst by (intro move_stands) auto
next
  case (8 it xs i)
  then show ?case unfolding iw_moves using SeekToLast by (intro move_stands) auto
qed

section \<open>Sorted lists of a set\<close>

context key_order
begin

lemma ordered_unique:
  "ordered ok compare xs \<Longrightarrow> ordered ok compare ys \<Longrightarrow> set xs = set ys \<Longrightarrow> xs = ys"
proof (induction xs arbitrary: ys)
  case (Cons x xs)
  then obtain y ys' where ys: "ys = y # ys'" by (cases ys) auto
  have oks: "ok (fst z)" if "z \<in> set (x # xs)" for z using Cons.prems(1) that by (auto simp: ordered_def)
  have x: "less (fst x) (fst z)" if "z \<in> set xs" for z using Cons.prems(1) that by (auto simp: ordered_def)
  have y: "less (fst y) (fst z)" if "z \<in> set ys'" for z using Cons.prems(2) that by (auto simp: ordered_def ys)
  have "x = y"
  proof (rule ccontr)
    assume "x \<noteq> y"
    moreover have "y \<in> set (x # xs)" "x \<in> set (y # ys')" using Cons.prems(3) ys by (metis list.set_intros(1))+
    ultimately have "y \<in> set xs" "x \<in> set ys'" by simp_all
    then show False using x [of y] y [of x] asym [of "fst x" "fst y"] oks by auto
  qed
  have "\<not> less (fst x) (fst x)" using irrefl oks [of x] by simp
  then have "x \<notin> set xs" "x \<notin> set ys'" using x [of x] y [of x] \<open>x = y\<close> by blast+
  moreover have "insert x (set xs) = insert x (set ys')" using Cons.prems(3) ys \<open>x = y\<close> by simp
  ultimately have same: "set xs = set ys'" by (simp add: insert_ident)
  have "ordered ok compare xs" "ordered ok compare ys'" using Cons.prems(1,2) ys by (simp_all add: ordered_def)
  then have "xs = ys'" using same by (rule Cons.IH)
  with ys \<open>x = y\<close> show ?case by simp
qed simp

lemma ordered_exists:
  assumes "finite S" "\<And>x. x \<in> S \<Longrightarrow> ok (fst x)" "inj_on fst S"
  shows "\<exists>xs. ordered ok compare xs \<and> set xs = S"
  using assms
proof (induction S)
  case empty
  then show ?case by (intro exI [of _ "[]"]) (simp add: ordered_def)
next
  case (insert x S)
  then obtain xs where xs: "ordered ok compare xs" "set xs = S" by auto
  have "ordered ok compare (insert_sorted compare x xs)"
    by (rule ordered_insert_sorted [OF xs(1)]) (use insert.prems insert.hyps xs(2) in auto)
  then show ?case using set_insert_sorted [of x xs] xs(2) by blast
qed

end

section \<open>Where a merging iterator stands\<close>

text \<open>The merge of sorted lists without common keys.\<close>

definition merge_of ::
  "('k \<Rightarrow> bool) \<Rightarrow> ('k \<Rightarrow> 'k \<Rightarrow> int option) \<Rightarrow> ('k \<times> 'v) list list \<Rightarrow> ('k \<times> 'v) list \<Rightarrow> bool" where
  "merge_of ok compare xss xs \<longleftrightarrow> ordered ok compare xs \<and> set xs = (\<Union>ys \<in> set xss. set ys) \<and>
     (\<forall>ys \<in> set xss. ordered ok compare ys) \<and>
     (\<forall>i < length xss. \<forall>j < length xss. i \<noteq> j \<longrightarrow> fst ` set (xss ! i) \<inter> fst ` set (xss ! j) = {})"

text \<open>
  The children stand in their lists; a current child stands at the entry; going forward, every
  child stands behind the keys below the entry, going back, on the last key up to the entry.
\<close>

definition children_at ::
  "('it \<Rightarrow> ('k \<times> 'v) list \<Rightarrow> nat \<Rightarrow> bool) \<Rightarrow> ('it, 'k) wrapper list \<Rightarrow> ('k \<times> 'v) list list \<Rightarrow> nat list \<Rightarrow> bool" where
  "children_at stands cs xss ps \<longleftrightarrow> length xss = length cs \<and> length ps = length cs \<and>
     (\<forall>i < length cs. w_stands stands (cs ! i) (xss ! i) (ps ! i))"

definition merged_stands ::
  "('k \<Rightarrow> bool) \<Rightarrow> ('k \<Rightarrow> 'k \<Rightarrow> int option) \<Rightarrow> ('it \<Rightarrow> ('k \<times> 'v) list \<Rightarrow> nat \<Rightarrow> bool) \<Rightarrow>
    ('it, 'k) merging \<Rightarrow> ('k \<times> 'v) list \<Rightarrow> nat \<Rightarrow> bool" where
  "merged_stands ok compare stands m xs p \<longleftrightarrow> (\<exists>xss ps. merge_of ok compare xss xs \<and>
     children_at stands (mi_children m) xss ps \<and>
     (case mi_current m of
        None \<Rightarrow> p = length xs
      | Some c \<Rightarrow> c < length xss \<and> p < length xs \<and> ps ! c < length (xss ! c) \<and> xss ! c ! (ps ! c) = xs ! p \<and>
          (\<forall>i < length xss. if mi_direction m = kForward
             then cut (\<lambda>k. below compare k (fst (xs ! p))) (xss ! i) (ps ! i)
             else back_cut (\<lambda>k. \<not> below compare (fst (xs ! p)) k) (xss ! i) (ps ! i))))"

lemma merge_of_child: "merge_of ok compare xss xs \<Longrightarrow> i < length xss \<Longrightarrow> ordered ok compare (xss ! i)"
  by (simp add: merge_of_def)

lemma merge_of_mem: "merge_of ok compare xss xs \<Longrightarrow> x \<in> set xs \<longleftrightarrow> (\<exists>i < length xss. x \<in> set (xss ! i))"
  by (auto simp: merge_of_def) (metis in_set_conv_nth)

lemma merge_of_unique:
  assumes "merge_of ok compare xss xs" "i < length xss" "j < length xss" "x \<in> set (xss ! i)" "y \<in> set (xss ! j)" "fst x = fst y"
  shows "i = j"
  using assms unfolding merge_of_def by (metis IntI empty_iff imageI)

context iter_class
begin

abbreviation merges :: "('k \<times> 'v) list list \<Rightarrow> ('k \<times> 'v) list \<Rightarrow> bool" where
  "merges \<equiv> merge_of ok compare"

lemma key_at_child:
  assumes "children_at stands (mi_children m) xss ps"
  shows "key_at m i = (if i < length xss \<and> ps ! i < length (xss ! i) then Some (fst (xss ! i ! (ps ! i))) else None)"
  using assms by (auto simp: key_at_def child_at_def children_at_def w_stands_def iw_key_def)

lemma find_best_children:
  assumes merge: "merges xss xs" and cs: "children_at stands (mi_children m) xss ps" "set js = {..<length xss}"
    and better: "(better, R) = (\<lambda>r. r < 0, less) \<or> (better, R) = (\<lambda>r. 0 < r, \<lambda>a b. less b a)"
  obtains b where "find_best compare better m js None = Some b" "best_of R m {..<length xss} b"
proof -
  have okay: "ok k" if "key_at m i = Some k" for i k
  proof -
    have "i < length xss" "ps ! i < length (xss ! i)" "k = fst (xss ! i ! (ps ! i))"
      using that key_at_child [OF cs(1), of i] by (auto split: if_splits)
    then show ?thesis using merge_of_child [OF merge] by (auto simp: ordered_def)
  qed
  have "\<exists>b. find_best compare better m js None = Some b \<and> best_of R m ({} \<union> set js) b"
  proof (rule find_best_rule)
    fix i assume "i < length (mi_children m)"
    then show "iw_valid (mi_children m ! i) \<longleftrightarrow> key_at m i \<noteq> None"
      using cs(1) key_at_child [OF cs(1), of i] by (simp add: children_at_def w_stands_def)
  next
    fix i j k l assume "key_at m i = Some k" "key_at m j = Some l"
    then have kl: "ok k" "ok l" using okay by blast+
    obtain r where r: "compare k l = Some r" using total [OF kl] by blast
    then have "better r \<longleftrightarrow> R k l" using better flip [OF kl] by (auto simp: below_def)
    with r show "\<exists>r. compare k l = Some r \<and> (better r \<longleftrightarrow> R k l)" by blast
  next
    fix i k assume "key_at m i = Some k"
    then show "\<not> R k k" using better irrefl okay by blast
  next
    fix h i j a b c assume k: "key_at m h = Some a" "key_at m i = Some b" "key_at m j = Some c" "R a b" "R b c"
    then have oks: "ok a" "ok b" "ok c" using okay by blast+
    show "R a c" using better k(4,5) trans [OF oks] trans [OF oks(3,2,1)] by auto
  next
    show "best_of R m {} None" by (simp add: best_of_def)
    show "\<forall>i \<in> set js. i < length (mi_children m)" using cs by (simp add: children_at_def)
  qed
  then show thesis using that cs(2) by auto
qed

text \<open>If every child stands behind the keys of a cut, the smallest is the first entry behind it.\<close>

lemma FindSmallest_cut:
  assumes merge: "merges xss xs" and cs: "children_at stands (mi_children m) xss ps"
    and cuts: "\<And>i. i < length xss \<Longrightarrow> cut P (xss ! i) (ps ! i)" and q: "cut P xs q"
  obtains m' where "FindSmallest compare m = Some m'"
    "merged_stands ok compare stands (m'\<lparr>mi_direction := kForward\<rparr>) xs q" "mi_direction m' = mi_direction m"
proof -
  have sorted: "ordered ok compare xs" using merge by (simp add: merge_of_def)
  obtain b where b: "find_best compare (\<lambda>r. r < 0) m [0..<length (mi_children m)] None = Some b" "best_of less m {..<length xss} b"
    by (rule find_best_children [OF merge cs, where js = "[0..<length (mi_children m)]" and R = less and better = "\<lambda>r. r < 0"])
      (use cs in \<open>auto simp: children_at_def lessThan_atLeast0\<close>)
  let ?m = "m\<lparr>mi_current := b\<rparr>"
  have find: "FindSmallest compare m = Some ?m" using b(1) by (simp add: FindSmallest_def)
  text \<open>An entry behind the cut is not below the best.\<close>
  have behind: "ps ! i < length (xss ! i) \<and> (fst (xss ! i ! (ps ! i)) = fst x \<or> less (fst (xss ! i ! (ps ! i))) (fst x))"
    if x: "i < length xss" "x \<in> set (xss ! i)" "\<not> P (fst x)" for i x
  proof -
    obtain l where l: "l < length (xss ! i)" "x = xss ! i ! l" using x(2) by (metis in_set_conv_nth)
    with x(3) cuts [OF x(1)] have "ps ! i \<le> l" by (simp add: cut_def)
    with l ordered_nth [OF merge_of_child [OF merge x(1)], of "ps ! i" l] show ?thesis
      by (cases "ps ! i = l") auto
  qed
  have "merged_stands ok compare stands (?m\<lparr>mi_direction := kForward\<rparr>) xs q"
  proof (cases b)
    case None
    have P: "P (fst x)" if x: "x \<in> set xs" for x
    proof -
      obtain i where i: "i < length xss" "x \<in> set (xss ! i)" using merge_of_mem [OF merge, THEN iffD1, OF x] by blast
      then have "key_at m i = None" using None b(2) by (simp add: best_of_def)
      then show ?thesis using behind [OF i] i(1) key_at_child [OF cs, of i] by (auto split: if_splits)
    qed
    have "q = length xs"
    proof (rule ccontr)
      assume "q \<noteq> length xs"
      then have "q < length xs" using q by (simp add: cut_def)
      with P [OF nth_mem [OF this]] q show False by (simp add: cut_def)
    qed
    with None show ?thesis using merge cs by (auto simp: merged_stands_def)
  next
    case (Some c)
    then obtain l where c: "c < length xss" "key_at m c = Some l" "\<And>i k. i < length xss \<Longrightarrow> key_at m i = Some k \<Longrightarrow> \<not> less k l"
      using b(2) by (auto simp: best_of_def)
    then have e: "ps ! c < length (xss ! c)" "l = fst (xss ! c ! (ps ! c))"
      using key_at_child [OF cs, of c] by (auto split: if_splits)
    let ?e = "xss ! c ! (ps ! c)"
    have mem: "?e \<in> set xs" using merge_of_mem [OF merge] c(1) e(1) nth_mem by blast
    have notP: "\<not> P (fst ?e)" using cuts [OF c(1)] e(1) by (simp add: cut_def)
    obtain j where j: "j < length xs" "xs ! j = ?e" using mem by (metis in_set_conv_nth)
    then have qj: "q \<le> j" using q notP unfolding cut_def by (metis not_le)
    then have qlen: "q < length xs" using j(1) by simp
    have "\<not> less (fst (xs ! q)) l"
    proof
      assume less: "less (fst (xs ! q)) l"
      have notq: "\<not> P (fst (xs ! q))" using q qlen by (simp add: cut_def)
      obtain i where i: "i < length xss" "xs ! q \<in> set (xss ! i)" using merge_of_mem [OF merge, THEN iffD1, OF nth_mem [OF qlen]] by blast
      let ?k = "fst (xss ! i ! (ps ! i))"
      have k: "ps ! i < length (xss ! i)" "?k = fst (xs ! q) \<or> less ?k (fst (xs ! q))" using behind [OF i notq] by auto
      then have "\<not> less ?k l" using c(3) [OF i(1)] i(1) key_at_child [OF cs, of i] by simp
      moreover have "ok ?k" "ok l" "ok (fst (xs ! q))"
        using merge_of_child [OF merge] i(1) c(1) e sorted qlen k(1) by (auto simp: ordered_def)
      ultimately show False using less k(2) trans by metis
    qed
    then have "xs ! q = ?e" using ordered_nth [OF sorted qlen j(1)] j e(2) qj by (cases "q = j") auto
    moreover have "cut (\<lambda>k. less k (fst (xs ! q))) (xss ! i) (ps ! i)" if "i < length xss" for i
      using cuts [OF that] by (rule cut_cong) (use cut_less [OF sorted q qlen] merge_of_mem [OF merge] that in blast)
    ultimately show ?thesis using Some merge cs c(1) e(1) qlen by (auto simp: merged_stands_def)
  qed
  then show thesis using that find by simp
qed

text \<open>If every child stands on the last key of a cut, the largest is the last entry of it.\<close>

lemma FindLargest_cut:
  assumes merge: "merges xss xs" and cs: "children_at stands (mi_children m) xss ps"
    and cuts: "\<And>i. i < length xss \<Longrightarrow> back_cut P (xss ! i) (ps ! i)" and q: "cut P xs q"
  obtains m' where "FindLargest compare m = Some m'"
    "merged_stands ok compare stands (m'\<lparr>mi_direction := kReverse\<rparr>) xs (last_before q xs)" "mi_direction m' = mi_direction m"
proof -
  have sorted: "ordered ok compare xs" using merge by (simp add: merge_of_def)
  obtain b where b: "find_best compare (\<lambda>r. 0 < r) m (rev [0..<length (mi_children m)]) None = Some b"
      "best_of (\<lambda>a b. less b a) m {..<length xss} b"
    by (rule find_best_children [OF merge cs, where js = "rev [0..<length (mi_children m)]" and R = "\<lambda>a b. less b a" and better = "\<lambda>r. 0 < r"])
      (use cs in \<open>auto simp: children_at_def lessThan_atLeast0\<close>)
  let ?m = "m\<lparr>mi_current := b\<rparr>"
  have find: "FindLargest compare m = Some ?m" using b(1) by (simp add: FindLargest_def)
  have before: "ps ! i < length (xss ! i) \<and> P (fst (xss ! i ! (ps ! i))) \<and>
      (fst (xss ! i ! (ps ! i)) = fst x \<or> less (fst x) (fst (xss ! i ! (ps ! i))))"
    if x: "i < length xss" "x \<in> set (xss ! i)" "P (fst x)" for i x
  proof -
    obtain l where l: "l < length (xss ! i)" "x = xss ! i ! l" using x(2) by (metis in_set_conv_nth)
    obtain n where n: "cut P (xss ! i) n" "ps ! i = last_before n (xss ! i)" using cuts [OF x(1)] by (auto simp: back_cut_def)
    with l x(3) have "l < n" "n \<le> length (xss ! i)" by (simp_all add: cut_def)
    with n(2) have "l \<le> ps ! i" "ps ! i < length (xss ! i)" "ps ! i < n" by (auto simp: last_before_def)
    with l n(1) ordered_nth [OF merge_of_child [OF merge x(1)], of l "ps ! i"] show ?thesis
      by (cases "ps ! i = l") (auto simp: cut_def)
  qed
  have inside: "P (fst (xss ! i ! (ps ! i)))" if "i < length xss" "ps ! i < length (xss ! i)" for i
    using cuts [OF that(1)] that(2) by (auto simp: back_cut_def cut_def last_before_def split: if_splits)
  have "merged_stands ok compare stands (?m\<lparr>mi_direction := kReverse\<rparr>) xs (last_before q xs)"
  proof (cases b)
    case None
    have notP: "\<not> P (fst x)" if x: "x \<in> set xs" for x
    proof -
      obtain i where i: "i < length xss" "x \<in> set (xss ! i)" using merge_of_mem [OF merge, THEN iffD1, OF x] by blast
      then have "key_at m i = None" using None b(2) by (simp add: best_of_def)
      then show ?thesis using before [OF i] i(1) key_at_child [OF cs, of i] by (auto split: if_splits)
    qed
    have "q = 0"
    proof (rule ccontr)
      assume "q \<noteq> 0"
      then have "0 < length xs" "0 < q" using q by (auto simp: cut_def)
      with notP [OF nth_mem [of 0 xs]] q show False by (simp add: cut_def)
    qed
    with None show ?thesis using merge cs by (auto simp: merged_stands_def last_before_def)
  next
    case (Some c)
    then obtain l where c: "c < length xss" "key_at m c = Some l" "\<And>i k. i < length xss \<Longrightarrow> key_at m i = Some k \<Longrightarrow> \<not> less l k"
      using b(2) by (auto simp: best_of_def)
    then have e: "ps ! c < length (xss ! c)" "l = fst (xss ! c ! (ps ! c))"
      using key_at_child [OF cs, of c] by (auto split: if_splits)
    let ?e = "xss ! c ! (ps ! c)" and ?q = "q - 1"
    have mem: "?e \<in> set xs" using merge_of_mem [OF merge] c(1) e(1) nth_mem by blast
    have isP: "P (fst ?e)" using inside [OF c(1) e(1)] .
    obtain j where j: "j < length xs" "xs ! j = ?e" using mem by (metis in_set_conv_nth)
    then have qj: "j < q" using q isP unfolding cut_def by metis
    then have qlen: "?q < length xs" "0 < q" using q by (auto simp: cut_def)
    have "\<not> less l (fst (xs ! ?q))"
    proof
      assume less: "less l (fst (xs ! ?q))"
      have isq: "P (fst (xs ! ?q))" using q qlen by (simp add: cut_def)
      obtain i where i: "i < length xss" "xs ! ?q \<in> set (xss ! i)" using merge_of_mem [OF merge, THEN iffD1, OF nth_mem [OF qlen(1)]] by blast
      let ?k = "fst (xss ! i ! (ps ! i))"
      have k: "ps ! i < length (xss ! i)" "?k = fst (xs ! ?q) \<or> less (fst (xs ! ?q)) ?k" using before [OF i isq] by auto
      then have "\<not> less l ?k" using c(3) [OF i(1)] i(1) key_at_child [OF cs, of i] by simp
      moreover have "ok ?k" "ok l" "ok (fst (xs ! ?q))"
        using merge_of_child [OF merge] i(1) c(1) e sorted qlen k(1) by (auto simp: ordered_def)
      ultimately show False using less k(2) trans by metis
    qed
    then have "xs ! ?q = ?e" using ordered_nth [OF sorted j(1) qlen(1)] j e(2) qj by (cases "?q = j") auto
    moreover have "back_cut (\<lambda>k. \<not> less (fst (xs ! ?q)) k) (xss ! i) (ps ! i)" if "i < length xss" for i
      using cuts [OF that] by (rule back_cut_cong) (use cut_upto [OF sorted q qlen(2)] merge_of_mem [OF merge] that in blast)
    ultimately show ?thesis using Some merge cs c(1) e(1) qlen by (auto simp: merged_stands_def last_before_def)
  qed
  then show thesis using that find by simp
qed

end

section \<open>The merging iterator is an iterator\<close>

context iter_class
begin

lemma each_child_stands:
  assumes cs: "children_at stands cs xss ps"
    and f: "\<And>i. i < length xss \<Longrightarrow> \<exists>w. f i (cs ! i) = Some w \<and> w_stands stands w (xss ! i) (q i)"
  obtains cs' where "each_child f 0 cs = Some cs'" "children_at stands cs' xss (map q [0..<length xss])"
proof -
  have len: "length xss = length cs" using cs by (simp add: children_at_def)
  then obtain cs' where "each_child f 0 cs = Some cs'" "length cs' = length cs" "\<forall>i < length cs. w_stands stands (cs' ! i) (xss ! i) (q i)"
    using each_child_all [of cs f 0 "\<lambda>i w. w_stands stands w (xss ! i) (q i)"] f by auto
  then show thesis using that len by (simp add: children_at_def)
qed

lemma other_keys:
  assumes "merges xss xs" "c < length xss" "i < length xss" "i \<noteq> c" "e \<in> set (xss ! c)" "x \<in> set (xss ! i)"
  shows "\<not> less (fst e) (fst x) \<longleftrightarrow> less (fst x) (fst e)"
proof -
  have "ok (fst e)" "ok (fst x)" using merge_of_child [OF assms(1)] assms(2,3,5,6) by (auto simp: ordered_def)
  then show ?thesis
    using not_below asym merge_of_unique [OF assms(1,2,3,5,6)] assms(4) by metis
qed

lemma same_direction: "mi_direction m = d \<Longrightarrow> m\<lparr>mi_direction := d\<rparr> = m"
  by (cases m) simp

lemma merged_Next:
  assumes stands: "merged_stands ok compare stands m xs p" and p: "p < length xs"
  shows "\<exists>m'. mi_Next cls compare m = Some m' \<and> merged_stands ok compare stands m' xs (Suc p)"
proof -
  let ?key = "fst (xs ! p)"
  obtain xss ps c where merge: "merges xss xs" and cs: "children_at stands (mi_children m) xss ps"
      and c: "mi_current m = Some c" "c < length xss" "ps ! c < length (xss ! c)" "xss ! c ! (ps ! c) = xs ! p"
      and cuts: "\<And>i. i < length xss \<Longrightarrow> mi_direction m = kForward \<Longrightarrow> cut (\<lambda>k. less k ?key) (xss ! i) (ps ! i)"
    using stands p by (auto simp: merged_stands_def split: option.splits)
  have lens: "length (mi_children m) = length xss" "length ps = length xss" using cs by (auto simp: children_at_def)
  have sorted: "ordered ok compare xs" using merge by (simp add: merge_of_def)
  then have okey: "ok ?key" using p by (auto simp: ordered_def)
  have mem: "xs ! p \<in> set (xss ! c)" using c(3,4) nth_mem by metis
  have key: "mi_key m = Some ?key" using c(1) key_at_child [OF cs, of c] c(2-4) by (simp add: mi_key_def key_at_def)
  obtain m1 ps1 where m1: "(if mi_direction m \<noteq> kForward
        then do { key \<leftarrow> mi_key m; cs \<leftarrow> each_child (turn_forward cls compare c key) 0 (mi_children m);
          Some (m\<lparr>mi_children := cs, mi_direction := kForward\<rparr>) }
        else Some m) = Some m1" "mi_direction m1 = kForward" "children_at stands (mi_children m1) xss ps1" "ps1 ! c = ps ! c"
      "\<And>i. i < length xss \<Longrightarrow> i \<noteq> c \<Longrightarrow> cut (\<lambda>k. less k ?key) (xss ! i) (ps1 ! i)"
  proof (cases "mi_direction m")
    case kForward
    then show thesis using that [of m ps] cs cuts by simp
  next
    case kReverse
    let ?q = "\<lambda>i. if i = c then ps ! c else lower_bound compare ?key (xss ! i)"
    have "\<exists>w. turn_forward cls compare c ?key i (mi_children m ! i) = Some w \<and> w_stands stands w (xss ! i) (?q i)"
      if i: "i < length xss" for i
    proof (cases "i = c")
      case True
      then show ?thesis using cs i lens by (simp add: turn_forward_def children_at_def)
    next
      case False
      have at: "w_stands stands (mi_children m ! i) (xss ! i) (ps ! i)" using cs i lens by (simp add: children_at_def)
      obtain w where w: "iw_Seek cls ?key (mi_children m ! i) = Some w" "w_stands stands w (xss ! i) (lower_bound compare ?key (xss ! i))"
        using wrapped.Seek [OF at okey] by blast
      show ?thesis
      proof (cases "iw_valid w")
        case True
        let ?x = "xss ! i ! lower_bound compare ?key (xss ! i)"
        have l: "lower_bound compare ?key (xss ! i) < length (xss ! i)" using True w(2) by (simp add: w_stands_def)
        then have k: "iw_key w = Some (fst ?x)" using wrapped.entry [OF w(2)] by simp
        have "fst ?x \<noteq> ?key" using merge_of_unique [OF merge i c(2) nth_mem [OF l] mem] False by auto
        moreover have "ok (fst ?x)" using merge_of_child [OF merge i] l by (auto simp: ordered_def)
        ultimately obtain r where "compare ?key (fst ?x) = Some r" "r \<noteq> 0" using total [OF okey] zero [OF okey] by metis
        then show ?thesis using False True w k by (simp add: turn_forward_def del: bind_Some_iff)
      qed (use False w in \<open>simp add: turn_forward_def del: bind_Some_iff\<close>)
    qed
    then obtain cs' where cs': "each_child (turn_forward cls compare c ?key) 0 (mi_children m) = Some cs'"
        "children_at stands cs' xss (map ?q [0..<length xss])"
      by (rule each_child_stands [OF cs])
    show thesis
    proof (rule that)
      show "children_at stands (mi_children (m\<lparr>mi_children := cs', mi_direction := kForward\<rparr>)) xss (map ?q [0..<length xss])"
        using cs'(2) by simp
    next
      fix i assume "i < length xss" "i \<noteq> c"
      then show "cut (\<lambda>k. less k ?key) (xss ! i) (map ?q [0..<length xss] ! i)"
        using cut_lower [OF merge_of_child [OF merge] okey] by simp
    qed (use kReverse key cs'(1) c(2) in \<open>simp_all del: bind_Some_iff\<close>)
  qed
  have lens1: "length (mi_children m1) = length xss" "length ps1 = length xss" using m1(3) by (auto simp: children_at_def)
  have "w_stands stands (mi_children m1 ! c) (xss ! c) (ps ! c)" using m1(3,4) c(2) lens1 by (auto simp: children_at_def)
  then obtain w where w: "iw_Next cls (mi_children m1 ! c) = Some w" "w_stands stands w (xss ! c) (Suc (ps ! c))"
    using wrapped.Next c(3) by blast
  let ?m2 = "m1\<lparr>mi_children := (mi_children m1)[c := w]\<rparr>" and ?ps2 = "ps1[c := Suc (ps ! c)]"
  obtain m' where m': "FindSmallest compare ?m2 = Some m'"
      "merged_stands ok compare stands (m'\<lparr>mi_direction := kForward\<rparr>) xs (Suc p)" "mi_direction m' = mi_direction ?m2"
  proof (rule FindSmallest_cut [OF merge])
    show "children_at stands (mi_children ?m2) xss ?ps2"
      using m1(3) w(2) lens1 c(2) by (auto simp: children_at_def nth_list_update)
    show "cut (\<lambda>k. \<not> less ?key k) xs (Suc p)" by (rule cut_nth(2) [OF sorted p])
    fix i assume i: "i < length xss"
    show "cut (\<lambda>k. \<not> less ?key k) (xss ! i) (?ps2 ! i)"
    proof (cases "i = c")
      case True
      then show ?thesis using cut_nth(2) [OF merge_of_child [OF merge c(2)] c(3)] c(2,4) lens1 by simp
    next
      case False
      then have "cut (\<lambda>k. less k ?key) (xss ! i) (?ps2 ! i)" using m1(5) i by simp
      then show ?thesis by (rule cut_cong) (rule other_keys [OF merge c(2) i False mem])
    qed
  qed
  have "mi_Next cls compare m = Some m'"
    unfolding mi_Next_def c(1) Option.bind.simps m1(1)
    using c(2) lens1 w(1) m'(1) by (simp add: child_at_def del: bind_Some_iff)
  moreover have "m'\<lparr>mi_direction := kForward\<rparr> = m'" using m'(3) m1(2) by (intro same_direction) simp
  ultimately show ?thesis using m'(2) by auto
qed

lemma merged_Prev:
  assumes stands: "merged_stands ok compare stands m xs p" and p: "p < length xs"
  shows "\<exists>m'. mi_Prev cls compare m = Some m' \<and> merged_stands ok compare stands m' xs (last_before p xs)"
proof -
  let ?key = "fst (xs ! p)"
  obtain xss ps c where merge: "merges xss xs" and cs: "children_at stands (mi_children m) xss ps"
      and c: "mi_current m = Some c" "c < length xss" "ps ! c < length (xss ! c)" "xss ! c ! (ps ! c) = xs ! p"
      and cuts: "\<And>i. i < length xss \<Longrightarrow> mi_direction m = kReverse \<Longrightarrow> back_cut (\<lambda>k. \<not> less ?key k) (xss ! i) (ps ! i)"
    using stands p by (auto simp: merged_stands_def split: option.splits)
  have lens: "length (mi_children m) = length xss" "length ps = length xss" using cs by (auto simp: children_at_def)
  have sorted: "ordered ok compare xs" using merge by (simp add: merge_of_def)
  then have okey: "ok ?key" using p by (auto simp: ordered_def)
  have mem: "xs ! p \<in> set (xss ! c)" using c(3,4) nth_mem by metis
  have key: "mi_key m = Some ?key" using c(1) key_at_child [OF cs, of c] c(2-4) by (simp add: mi_key_def key_at_def)
  note others = other_keys [OF merge c(2) _ _ mem]
  obtain m1 ps1 where m1: "(if mi_direction m \<noteq> kReverse
        then do { key \<leftarrow> mi_key m; cs \<leftarrow> each_child (turn_back cls c key) 0 (mi_children m);
          Some (m\<lparr>mi_children := cs, mi_direction := kReverse\<rparr>) }
        else Some m) = Some m1" "mi_direction m1 = kReverse" "children_at stands (mi_children m1) xss ps1" "ps1 ! c = ps ! c"
      "\<And>i. i < length xss \<Longrightarrow> i \<noteq> c \<Longrightarrow> back_cut (\<lambda>k. less k ?key) (xss ! i) (ps1 ! i)"
  proof (cases "mi_direction m")
    case kReverse
    have "back_cut (\<lambda>k. less k ?key) (xss ! i) (ps ! i)" if i: "i < length xss" "i \<noteq> c" for i
      using cuts [OF i(1) kReverse] by (rule back_cut_cong) (use others [OF i] in blast)
    then show thesis using that [of m ps] cs kReverse by simp
  next
    case kForward
    let ?q = "\<lambda>i. if i = c then ps ! c else last_before (lower_bound compare ?key (xss ! i)) (xss ! i)"
    have "\<exists>w. turn_back cls c ?key i (mi_children m ! i) = Some w \<and> w_stands stands w (xss ! i) (?q i)"
      if i: "i < length xss" for i
    proof (cases "i = c")
      case True
      then show ?thesis using cs i lens by (simp add: turn_back_def children_at_def)
    next
      case False
      let ?l = "lower_bound compare ?key (xss ! i)"
      have at: "w_stands stands (mi_children m ! i) (xss ! i) (ps ! i)" using cs i lens by (simp add: children_at_def)
      obtain w where w: "iw_Seek cls ?key (mi_children m ! i) = Some w" "w_stands stands w (xss ! i) ?l"
        using wrapped.Seek [OF at okey] by blast
      have valid: "iw_valid w \<longleftrightarrow> ?l < length (xss ! i)" using w(2) by (simp add: w_stands_def)
      have "\<exists>w'. (if iw_valid w then iw_Prev cls w else iw_SeekToLast cls w) = Some w' \<and> w_stands stands w' (xss ! i) (last_before ?l (xss ! i))"
      proof (cases "?l < length (xss ! i)")
        case True
        then show ?thesis using wrapped.Prev [OF w(2) True] valid by (simp add: last_before_def)
      next
        case False
        then have "?l = length (xss ! i)" using lower_bound_le [of compare ?key "xss ! i"] by linarith
        moreover have "\<exists>w'. iw_SeekToLast cls w = Some w' \<and> w_stands stands w' (xss ! i) (length (xss ! i) - 1)"
          by (rule wrapped.SeekToLast [OF w(2)])
        ultimately show ?thesis using valid by (cases "xss ! i = []") (auto simp: last_before_def)
      qed
      then show ?thesis using False w(1) by (simp add: turn_back_def del: bind_Some_iff)
    qed
    then obtain cs' where cs': "each_child (turn_back cls c ?key) 0 (mi_children m) = Some cs'"
        "children_at stands cs' xss (map ?q [0..<length xss])"
      by (rule each_child_stands [OF cs])
    show thesis
    proof (rule that)
      show "children_at stands (mi_children (m\<lparr>mi_children := cs', mi_direction := kReverse\<rparr>)) xss (map ?q [0..<length xss])"
        using cs'(2) by simp
    next
      fix i assume "i < length xss" "i \<noteq> c"
      then show "back_cut (\<lambda>k. less k ?key) (xss ! i) (map ?q [0..<length xss] ! i)"
        using cut_lower [OF merge_of_child [OF merge] okey] by (auto simp: back_cut_def)
    qed (use kForward key cs'(1) c(2) in \<open>simp_all del: bind_Some_iff\<close>)
  qed
  have lens1: "length (mi_children m1) = length xss" "length ps1 = length xss" using m1(3) by (auto simp: children_at_def)
  have "w_stands stands (mi_children m1 ! c) (xss ! c) (ps ! c)" using m1(3,4) c(2) lens1 by (auto simp: children_at_def)
  then obtain w where w: "iw_Prev cls (mi_children m1 ! c) = Some w" "w_stands stands w (xss ! c) (last_before (ps ! c) (xss ! c))"
    using wrapped.Prev c(3) unfolding last_before_def by blast
  let ?m2 = "m1\<lparr>mi_children := (mi_children m1)[c := w]\<rparr>" and ?ps2 = "ps1[c := last_before (ps ! c) (xss ! c)]"
  obtain m' where m': "FindLargest compare ?m2 = Some m'"
      "merged_stands ok compare stands (m'\<lparr>mi_direction := kReverse\<rparr>) xs (last_before p xs)" "mi_direction m' = mi_direction ?m2"
  proof (rule FindLargest_cut [OF merge])
    show "children_at stands (mi_children ?m2) xss ?ps2"
      using m1(3) w(2) lens1 c(2) by (auto simp: children_at_def nth_list_update)
    show "cut (\<lambda>k. less k ?key) xs p" by (rule cut_nth(1) [OF sorted p])
    fix i assume i: "i < length xss"
    show "back_cut (\<lambda>k. less k ?key) (xss ! i) (?ps2 ! i)"
    proof (cases "i = c")
      case True
      then show ?thesis
        using cut_nth(1) [OF merge_of_child [OF merge c(2)] c(3)] c(2,4) lens1 by (auto simp: back_cut_def)
    qed (use m1(5) i in simp)
  qed
  have "mi_Prev cls compare m = Some m'"
    unfolding mi_Prev_def c(1) Option.bind.simps m1(1)
    using c(2) lens1 w(1) m'(1) by (simp add: child_at_def del: bind_Some_iff)
  moreover have "m'\<lparr>mi_direction := kReverse\<rparr> = m'" using m'(3) m1(2) by (intro same_direction) simp
  ultimately show ?thesis using m'(2) by auto
qed

end

sublocale iter_class \<subseteq> merged: iterator ok compare "merged_stands ok compare stands" mi_Valid mi_key "mi_value cls"
  "mi_Next cls compare" "mi_Prev cls compare" "mi_Seek cls compare" "mi_SeekToFirst cls compare" "mi_SeekToLast cls compare"
proof (unfold_locales, goal_cases)
  case (1 m xs p)
  then show ?case by (auto simp: merged_stands_def merge_of_def split: option.splits)
next
  case (2 m xs p)
  then show ?case by (auto simp: merged_stands_def mi_Valid_def split: option.splits)
next
  case (3 m xs p)
  then obtain xss ps c where cs: "children_at stands (mi_children m) xss ps"
      and c: "mi_current m = Some c" "c < length xss" "ps ! c < length (xss ! c)" "xss ! c ! (ps ! c) = xs ! p"
    by (auto simp: merged_stands_def split: option.splits)
  then have "w_stands stands (mi_children m ! c) (xss ! c) (ps ! c)" "c < length (mi_children m)" by (auto simp: children_at_def)
  with c wrapped.entry [OF this(1) c(3)] show ?case by (simp add: mi_key_def mi_value_def child_at_def)
next
  case (4 m xs p)
  then show ?case by (rule merged_Next)
next
  case (5 m xs p)
  then show ?case using merged_Prev unfolding last_before_def by blast
next
  case (6 m xs p target)
  then obtain xss ps where merge: "merges xss xs" and cs: "children_at stands (mi_children m) xss ps"
    by (auto simp: merged_stands_def)
  then have sorted: "ordered ok compare xs" by (simp add: merge_of_def)
  obtain cs' where cs': "each_child (\<lambda>_. iw_Seek cls target) 0 (mi_children m) = Some cs'"
      "children_at stands cs' xss (map (\<lambda>i. lower_bound compare target (xss ! i)) [0..<length xss])"
    by (rule each_child_stands [OF cs, where f = "\<lambda>_. iw_Seek cls target" and q = "\<lambda>i. lower_bound compare target (xss ! i)"])
      (use cs wrapped.Seek 6(2) in \<open>auto simp: children_at_def\<close>)
  obtain m' where "FindSmallest compare (m\<lparr>mi_children := cs'\<rparr>) = Some m'"
      "merged_stands ok compare stands (m'\<lparr>mi_direction := kForward\<rparr>) xs (lower_bound compare target xs)"
    by (rule FindSmallest_cut [OF merge, of "m\<lparr>mi_children := cs'\<rparr>", OF _ _ cut_lower [OF sorted 6(2)]])
      (use cs'(2) cut_lower [OF merge_of_child [OF merge] 6(2)] in auto)
  with cs'(1) show ?case by (simp add: mi_Seek_def del: bind_Some_iff)
next
  case (7 m xs p)
  then obtain xss ps where merge: "merges xss xs" and cs: "children_at stands (mi_children m) xss ps"
    by (auto simp: merged_stands_def)
  obtain cs' where cs': "each_child (\<lambda>_. iw_SeekToFirst cls) 0 (mi_children m) = Some cs'"
      "children_at stands cs' xss (map (\<lambda>i. 0) [0..<length xss])"
    by (rule each_child_stands [OF cs, where f = "\<lambda>_. iw_SeekToFirst cls" and q = "\<lambda>i. 0"])
      (use cs wrapped.SeekToFirst in \<open>auto simp: children_at_def\<close>)
  obtain m' where "FindSmallest compare (m\<lparr>mi_children := cs'\<rparr>) = Some m'"
      "merged_stands ok compare stands (m'\<lparr>mi_direction := kForward\<rparr>) xs 0"
    by (rule FindSmallest_cut [OF merge, of "m\<lparr>mi_children := cs'\<rparr>", OF _ _ cut_all(2)]) (use cs'(2) in auto)
  with cs'(1) show ?case by (simp add: mi_SeekToFirst_def del: bind_Some_iff)
next
  case (8 m xs p)
  then obtain xss ps where merge: "merges xss xs" and cs: "children_at stands (mi_children m) xss ps"
    by (auto simp: merged_stands_def)
  obtain cs' where cs': "each_child (\<lambda>_. iw_SeekToLast cls) 0 (mi_children m) = Some cs'"
      "children_at stands cs' xss (map (\<lambda>i. length (xss ! i) - 1) [0..<length xss])"
    by (rule each_child_stands [OF cs, where f = "\<lambda>_. iw_SeekToLast cls" and q = "\<lambda>i. length (xss ! i) - 1"])
      (use cs wrapped.SeekToLast in \<open>auto simp: children_at_def\<close>)
  obtain m' where "FindLargest compare (m\<lparr>mi_children := cs'\<rparr>) = Some m'"
      "merged_stands ok compare stands (m'\<lparr>mi_direction := kReverse\<rparr>) xs (last_before (length xs) xs)"
  proof (rule FindLargest_cut [OF merge, of "m\<lparr>mi_children := cs'\<rparr>", OF _ _ cut_all(1)])
    fix i assume "i < length xss"
    then show "back_cut (\<lambda>_. True) (xss ! i) (map (\<lambda>i. length (xss ! i) - 1) [0..<length xss] ! i)"
      unfolding back_cut_def by (intro exI [of _ "length (xss ! i)"]) (simp add: last_before_def)
  qed (use cs'(2) in auto)
  with cs'(1) show ?case by (cases "xs = []") (simp_all add: mi_SeekToLast_def last_before_def del: bind_Some_iff)
qed

context iter_class
begin

text \<open>A new merging iterator stands nowhere yet.\<close>

lemma MergingIterator_stands:
  assumes "length xss = length its" "merges xss xs" "\<And>i. i < length its \<Longrightarrow> \<exists>p. stands (its ! i) (xss ! i) p"
  obtains m where "MergingIterator cls its = Some m" "merged_stands ok compare stands m xs (length xs)"
proof -
  define p where "p i = (SOME p. stands (its ! i) (xss ! i) p)" for i
  have p: "stands (its ! i) (xss ! i) (p i)" if "i < length its" for i
    using someI_ex [OF assms(3) [OF that]] by (simp add: p_def)
  let ?ws = "replicate (length its) IteratorWrapper :: ('b, 'a) wrapper list"
  have "\<exists>w. iw_Set cls (Some (its ! (0 + i))) (?ws ! i) = Some w \<and> w_stands stands w (xss ! i) (p i)" if "i < length ?ws" for i
    using Update_stands [of "IteratorWrapper\<lparr>iw_iter := Some (its ! i)\<rparr>"] p [of i] that by (simp add: iw_Set_def)
  then obtain cs where cs: "each_child (\<lambda>i. iw_Set cls (Some (its ! i))) 0 ?ws = Some cs" "length cs = length its"
      "\<forall>i < length its. w_stands stands (cs ! i) (xss ! i) (p i)"
    using each_child_all [of ?ws "\<lambda>i. iw_Set cls (Some (its ! i))" 0 "\<lambda>i w. w_stands stands w (xss ! i) (p i)"] by auto
  let ?m = "\<lparr>mi_children = cs, mi_current = None, mi_direction = kForward\<rparr>"
  have "children_at stands cs xss (map p [0..<length its])" using cs assms(1) by (simp add: children_at_def)
  then have "merged_stands ok compare stands ?m xs (length xs)" using assms(2) by (auto simp: merged_stands_def)
  moreover have "MergingIterator cls its = Some ?m" using cs(1) by (simp add: MergingIterator_def)
  ultimately show thesis using that by blast
qed

end

section \<open>What \<open>NewMergingIterator\<close> returns is an iterator\<close>

primrec new_stands :: "('k \<Rightarrow> bool) \<Rightarrow> ('k \<Rightarrow> 'k \<Rightarrow> int option) \<Rightarrow> ('it \<Rightarrow> ('k \<times> 'v) list \<Rightarrow> nat \<Rightarrow> bool) \<Rightarrow>
    ('it, 'k) merged_iterator \<Rightarrow> ('k \<times> 'v) list \<Rightarrow> nat \<Rightarrow> bool" where
  "new_stands ok compare stands Empty_merged xs p \<longleftrightarrow> xs = [] \<and> p = 0"
| "new_stands ok compare stands (Only_child it) xs p \<longleftrightarrow> stands it xs p"
| "new_stands ok compare stands (Merged m) xs p \<longleftrightarrow> merged_stands ok compare stands m xs p"

context iter_class
begin

abbreviation new_at :: "('it, 'k) merged_iterator \<Rightarrow> ('k \<times> 'v) list \<Rightarrow> nat \<Rightarrow> bool" where
  "new_at \<equiv> new_stands ok compare stands"

lemma new_move_stands:
  assumes "new_at it xs p"
    "\<And>it. stands it xs p \<Longrightarrow> \<exists>it'. child it = Some it' \<and> stands it' xs q"
    "\<And>m. merged_stands ok compare stands m xs p \<Longrightarrow> \<exists>m'. merging m = Some m' \<and> merged_stands ok compare stands m' xs q"
    "xs = [] \<Longrightarrow> allowed \<and> q = 0"
  shows "\<exists>it'. new_move allowed child merging it = Some it' \<and> new_at it' xs q"
proof (cases it)
  case Empty_merged
  then show ?thesis using assms(1,4) by simp
next
  case (Only_child i)
  then obtain i' where "child i = Some i'" "stands i' xs q" using assms(1,2) by auto
  then show ?thesis using Only_child by simp
next
  case (Merged m)
  then obtain m' where "merging m = Some m'" "merged_stands ok compare stands m' xs q" using assms(1,3) by auto
  then show ?thesis using Merged by simp
qed

end

sublocale iter_class \<subseteq> new: iterator ok compare "new_stands ok compare stands" "it_Valid (New_class cls compare)"
  "it_key (New_class cls compare)" "it_val (New_class cls compare)" "it_Next (New_class cls compare)"
  "it_Prev (New_class cls compare)" "it_Seek (New_class cls compare)" "it_SeekToFirst (New_class cls compare)"
  "it_SeekToLast (New_class cls compare)"
proof (unfold_locales, goal_cases)
  case (1 it xs i)
  then show ?case using position merged.position by (cases it) (auto simp: ordered_def)
next
  case (2 it xs i)
  then show ?case using Valid merged.Valid by (cases it) (auto simp: New_class_def)
next
  case (3 it xs i)
  then show ?case using entry merged.entry by (cases it) (auto simp: New_class_def)
next
  case (4 it xs i)
  then show ?case unfolding New_class_def iter_class.simps by (intro new_move_stands Next merged.Next) auto
next
  case (5 it xs i)
  then show ?case unfolding New_class_def iter_class.simps by (intro new_move_stands Prev merged.Prev) auto
next
  case (6 it xs i target)
  then show ?case unfolding New_class_def iter_class.simps
    by (intro new_move_stands [OF 6(1)] Seek merged.Seek) (auto simp: lower_bound_def)
next
  case (7 it xs i)
  then show ?case unfolding New_class_def iter_class.simps by (intro new_move_stands SeekToFirst merged.SeekToFirst) auto
next
  case (8 it xs i)
  then show ?case unfolding New_class_def iter_class.simps by (intro new_move_stands SeekToLast merged.SeekToLast) auto
qed

context iter_class
begin

lemma new_class: "iter_class ok compare (new_stands ok compare stands) (New_class cls compare)"
  by (rule iter_class.intro) (rule new.iterator_axioms)

lemma NewMergingIterator_stands:
  assumes "length xss = length its" "merges xss xs" "\<And>i. i < length its \<Longrightarrow> \<exists>p. stands (its ! i) (xss ! i) p"
  obtains it p where "NewMergingIterator cls its = Some it" "new_at it xs p"
proof -
  consider "its = []" | it where "its = [it]" | "its \<noteq> []" "length its \<noteq> 1" by (cases its) (auto simp: length_Suc_conv)
  then show thesis
  proof cases
    case 1
    then have "xs = []" using assms(1,2) by (auto simp: merge_of_def)
    with 1 that [of Empty_merged 0] show thesis by (simp add: NewMergingIterator_def)
  next
    case (2 it)
    then obtain ys where ys: "xss = [ys]" using assms(1) by (auto simp: length_Suc_conv)
    have "xs = ys"
    proof (rule ordered_unique)
      show "ordered ok compare xs" "ordered ok compare ys" "set xs = set ys"
        using assms(2) ys by (simp_all add: merge_of_def)
    qed
    moreover obtain p where "stands it ys p" using assms(3) [of 0] 2 ys by auto
    ultimately show thesis using that [of "Only_child it" p] 2 by (simp add: NewMergingIterator_def)
  next
    case 3
    obtain m where "MergingIterator cls its = Some m" "merged_stands ok compare stands m xs (length xs)"
      by (rule MergingIterator_stands [OF assms])
    then show thesis using that [of "Merged m" "length xs"] 3 by (simp add: NewMergingIterator_def)
  qed
qed

end

end
