(* ===== verification/Ldb_Db_Iter_Rep.thy ===== *)
theory Ldb_Db_Iter_Rep
  imports Ldb_Db_Iter Ldb_Merger_Rep Ldb_Memtable_Rep
begin

text \<open>
  What the iterator over a database shows: of the entries of the internal iterator, those that are
  values, not newer than the snapshot, and the newest of their user key (\<open>db_view\<close>).  It is an
  \<open>iterator\<close> over this view, for every class of internal iterators (the locale \<open>db_entries\<close>).
\<close>

section \<open>The view of a snapshot\<close>

text \<open>The entries are those of a history, in the order of internal keys.\<close>

definition sees :: "SequenceNumber \<Rightarrow> history \<Rightarrow> nat \<Rightarrow> bool" where
  "sees s hs i \<longleftrightarrow> fst (hs ! i) \<le> s"

definition user_at :: "history \<Rightarrow> nat \<Rightarrow> byte list" where
  "user_at hs i = update_key (snd (hs ! i))"

definition shown :: "SequenceNumber \<Rightarrow> history \<Rightarrow> nat \<Rightarrow> bool" where
  "shown s hs i \<longleftrightarrow> sees s hs i \<and> update_type (snd (hs ! i)) = kTypeValue \<and>
     (\<forall>j < i. sees s hs j \<longrightarrow> user_at hs j \<noteq> user_at hs i)"

definition pair_at :: "history \<Rightarrow> nat \<Rightarrow> byte list \<times> byte list" where
  "pair_at hs i = (user_at hs i, update_value (snd (hs ! i)))"

definition db_view :: "SequenceNumber \<Rightarrow> history \<Rightarrow> (byte list \<times> byte list) list" where
  "db_view s hs = map (pair_at hs) (filter (shown s hs) [0..<length hs])"

definition rank :: "SequenceNumber \<Rightarrow> history \<Rightarrow> nat \<Rightarrow> nat" where
  "rank s hs p = length (filter (shown s hs) [0..<p])"

lemma db_view_split:
  "p \<le> length hs \<Longrightarrow> db_view s hs = map (pair_at hs) (filter (shown s hs) [0..<p]) @
     map (pair_at hs) (filter (shown s hs) [p..<length hs])"
  unfolding db_view_def using upt_add_eq_append [of 0 p "length hs - p"] by simp

lemma rank_all [simp]: "rank s hs (length hs) = length (db_view s hs)"
  by (simp add: rank_def db_view_def)

lemma rank_Suc: "shown s hs p \<Longrightarrow> rank s hs (Suc p) = Suc (rank s hs p)"
  by (simp add: rank_def)

lemma rank_nth:
  assumes "p < length hs" "shown s hs p"
  shows "rank s hs p < length (db_view s hs)" "db_view s hs ! rank s hs p = pair_at hs p"
  using assms db_view_split [of p hs s] upt_conv_Cons [of p "length hs"]
  by (simp_all add: rank_def nth_append)

lemma view_cut:
  assumes "p \<le> length hs" "\<And>i. i < length hs \<Longrightarrow> shown s hs i \<Longrightarrow> P (user_at hs i) \<longleftrightarrow> i < p"
  shows "cut P (db_view s hs) (rank s hs p)"
proof -
  let ?as = "filter (shown s hs) [0..<p]" and ?bs = "filter (shown s hs) [p..<length hs]"
  have a: "P (user_at hs (?as ! i))" if "i < length ?as" for i
    using assms nth_mem [OF that] by auto
  have b: "\<not> P (user_at hs (?bs ! i))" if "i < length ?bs" for i
    using assms nth_mem [OF that] by auto
  show ?thesis
    unfolding cut_def db_view_split [OF assms(1)] rank_def
    using a b by (auto simp: nth_append pair_at_def)
qed

lemma cut_unique: "cut P xs a \<Longrightarrow> cut P xs b \<Longrightarrow> a = b"
  unfolding cut_def by (metis le_neq_implies_less less_irrefl linorder_neqE_nat order_less_le_trans)

section \<open>Entries of the internal iterator\<close>

definition entries_ordered :: "(byte list \<Rightarrow> bool) \<Rightarrow> (byte list \<Rightarrow> byte list \<Rightarrow> int option) \<Rightarrow> history \<Rightarrow> bool" where
  "entries_ordered ok compare hs \<longleftrightarrow>
     ordered (\<lambda>k. internal_ok ok k \<and> slice_ok k) (Internal_Compare compare) (map hist_entry hs) \<and>
     (\<forall>x \<in> set hs. fst x \<le> kMaxSequenceNumber)"

definition db_key_ok :: "(byte list \<Rightarrow> bool) \<Rightarrow> byte list \<Rightarrow> bool" where
  "db_key_ok ok u \<longleftrightarrow> ok u \<and> length u + 8 < 2 ^ 32"

lemma ParseInternalKey_entry:
  assumes "fst x \<le> kMaxSequenceNumber"
  shows "ParseInternalKey (fst (hist_entry x)) =
    Some (Some \<lparr>pik_user_key = update_key (snd x), pik_sequence = fst x, pik_type = update_type (snd x)\<rparr>)"
proof -
  have "DecodeFixed64 (EncodeFixed64 n) = Some n" for n using DecodeFixed64_append [of n "[]"] by simp
  then show ?thesis
    using packed_parts [OF assms, of "update_type (snd x)"]
    by (cases "update_type (snd x)") (simp_all add: ParseInternalKey_def hist_entry_def Let_def)
qed

lemma ExtractUserKey_entry [simp]: "ExtractUserKey (fst (hist_entry x)) = Some (update_key (snd x))"
  by (simp add: hist_entry_def)

context user_comparator
begin

lemma entry_user_ok:
  assumes "entries_ordered ok compare hs" "i < length hs"
  shows "ok (user_at hs i)" "length (user_at hs i) + 8 < 2 ^ 32"
  using assms by (auto simp: entries_ordered_def ordered_def user_at_def hist_entry_def slice_ok_def)

lemma users_sorted:
  assumes "entries_ordered ok compare hs" "i \<le> j" "j < length hs"
  shows "user_at hs i = user_at hs j \<or> less (user_at hs i) (user_at hs j)"
proof (cases "i = j")
  case False
  have oks: "ok (user_at hs i)" "ok (user_at hs j)" using entry_user_ok [OF assms(1)] assms(2,3) by simp_all
  have "below (Internal_Compare compare) (fst (hist_entry (hs ! i))) (fst (hist_entry (hs ! j)))"
    using assms False by (simp add: entries_ordered_def ordered_def sorted_wrt_iff_nth_less)
  then show ?thesis using zero [OF oks] by (auto simp: hist_entry_def below_Internal user_at_def)
qed simp

text \<open>The view is sorted, and no two of its entries have the same key.\<close>

lemma shown_sorted:
  assumes "entries_ordered ok compare hs" "shown s hs i" "shown s hs j" "i < j" "j < length hs"
  shows "less (user_at hs i) (user_at hs j)"
  using users_sorted [OF assms(1), of i j] assms(2-5) by (auto simp: shown_def)

lemma db_view_ordered:
  assumes "entries_ordered ok compare hs"
  shows "ordered (db_key_ok ok) compare (db_view s hs)"
proof -
  have "sorted_wrt (\<lambda>i j. less (user_at hs i) (user_at hs j)) (filter (shown s hs) [0..<length hs])"
  proof (rule sorted_wrt_mono_rel [of _ "(<)"])
    fix i j assume "i \<in> set (filter (shown s hs) [0..<length hs])" "j \<in> set (filter (shown s hs) [0..<length hs])" "i < j"
    then show "less (user_at hs i) (user_at hs j)" using shown_sorted [OF assms, of s i j] by simp
  qed (simp add: sorted_wrt_filter sorted_wrt_upt)
  then show ?thesis
    using entry_user_ok [OF assms] by (auto simp: ordered_def db_view_def sorted_wrt_map pair_at_def db_key_ok_def)
qed

end

section \<open>Searching forward\<close>

text \<open>The parts of the state that no search changes.\<close>

definition keeps :: "'it db_iter \<Rightarrow> 'it db_iter \<Rightarrow> bool" where
  "keeps di di' \<longleftrightarrow> di_sequence di' = di_sequence di \<and> di_status di' = di_status di \<and> seed_ok (di_rnd di')"

lemma keeps_trans: "keeps di di' \<Longrightarrow> keeps di' di'' \<Longrightarrow> keeps di di''"
  by (simp add: keeps_def)

locale db_entries = user_comparator ok compare separator successor +
  inner: iter_class "\<lambda>k. internal_ok ok k \<and> slice_ok k" "Internal_Compare compare" stands cls
  for ok :: "byte list \<Rightarrow> bool" and compare :: "byte list \<Rightarrow> byte list \<Rightarrow> int option"
    and separator :: "byte list \<Rightarrow> byte list \<Rightarrow> byte list option" and successor :: "byte list \<Rightarrow> byte list option"
    and stands :: "'it \<Rightarrow> (byte list \<times> byte list) list \<Rightarrow> nat \<Rightarrow> bool"
    and cls :: "('it, byte list, byte list) iter_class"
begin

abbreviation at :: "'it \<Rightarrow> history \<Rightarrow> nat \<Rightarrow> bool" where
  "at it hs p \<equiv> stands it (map hist_entry hs) p"

lemma at_entry:
  assumes "at it hs p" "p < length hs"
  shows "it_Valid cls it" "it_key cls it = Some (fst (hist_entry (hs ! p)))" "it_val cls it = Some (update_value (snd (hs ! p)))"
  using inner.Valid [OF assms(1)] inner.entry [OF assms(1)] assms(2) by (simp_all add: hist_entry_def)

lemma at_invalid: "at it hs (length hs) \<Longrightarrow> \<not> it_Valid cls it"
  using inner.Valid by fastforce

lemma at_Next:
  assumes "at it hs p" "p < length hs"
  obtains it' where "it_Next cls it = Some it'" "at it' hs (Suc p)"
  using inner.Next [OF assms(1)] assms(2) by auto

lemma at_Prev:
  assumes "at it hs p" "p < length hs"
  obtains it' where "it_Prev cls it = Some it'" "at it' hs (if p = 0 then length hs else p - 1)"
  using inner.Prev [OF assms(1)] assms(2) that unfolding length_map by blast

lemma ParseKey_at:
  assumes "entries_ordered ok compare hs" "at (di_iter di) hs p" "p < length hs" "seed_ok (di_rnd di)"
  obtains di' where "ParseKey cls di = Some (Some \<lparr>pik_user_key = user_at hs p, pik_sequence = fst (hs ! p),
      pik_type = update_type (snd (hs ! p))\<rparr>, di')" "same_view di di'"
proof -
  have seq: "fst (hs ! p) \<le> kMaxSequenceNumber" using assms(1,3) by (simp add: entries_ordered_def)
  let ?k = "fst (hist_entry (hs ! p))" and ?v = "update_value (snd (hs ! p))"
  let ?di = "di\<lparr>di_bytes_counter := di_bytes_counter di - int (length ?k + length ?v)\<rparr>"
  obtain di' where di': "sample_loop ?k ?di = Some di'" "same_view ?di di'"
    using sample_loop_ends [of ?di ?k] assms(4) by auto
  have "same_view di di'" using di'(2) by (auto simp: same_view_def)
  moreover have "ParseKey cls di = Some (Some \<lparr>pik_user_key = user_at hs p, pik_sequence = fst (hs ! p),
      pik_type = update_type (snd (hs ! p))\<rparr>, di')"
    using at_entry [OF assms(2,3)] di'(1) ParseInternalKey_entry [OF seq]
    by (simp add: ParseKey_def user_at_def Let_def del: bind_Some_iff)
  ultimately show thesis using that by blast
qed

text \<open>
  What decides whether a value at or behind \<open>p\<close> is skipped: whether a visible entry in front of
  \<open>p\<close> has the same user key, or the user key satisfies \<open>D\<close>, which at most the first user key does.
\<close>

definition skips :: "SequenceNumber \<Rightarrow> history \<Rightarrow> nat \<Rightarrow> (byte list \<Rightarrow> bool) \<Rightarrow> bool \<Rightarrow> byte list \<Rightarrow> bool" where
  "skips s hs p D skipping skip \<longleftrightarrow> (skipping \<longrightarrow> ok skip) \<and>
     (\<forall>j < length hs. p \<le> j \<longrightarrow> sees s hs j \<longrightarrow>
        (skipping \<and> \<not> less skip (user_at hs j) \<longleftrightarrow> (\<exists>i < p. sees s hs i \<and> user_at hs i = user_at hs j) \<or> D (user_at hs j))) \<and>
     (\<forall>j < length hs. \<forall>i. p \<le> i \<longrightarrow> i \<le> j \<longrightarrow> sees s hs i \<longrightarrow> sees s hs j \<longrightarrow> D (user_at hs j) \<longrightarrow>
        user_at hs i = user_at hs j)"

definition lands :: "history \<Rightarrow> nat \<Rightarrow> (byte list \<Rightarrow> bool) \<Rightarrow> 'it db_iter \<Rightarrow> 'it db_iter \<Rightarrow> bool" where
  "lands hs p D di di' \<longleftrightarrow> keeps di di' \<and> di_direction di' = di_direction di \<and> (\<exists>g. p \<le> g \<and> g \<le> length hs \<and> at (di_iter di') hs g \<and>
     (\<forall>j. p \<le> j \<and> j < g \<longrightarrow> shown (di_sequence di) hs j \<longrightarrow> D (user_at hs j)) \<and>
     (if g < length hs then shown (di_sequence di) hs g \<and> \<not> D (user_at hs g) \<and> di_valid di' else \<not> di_valid di'))"

lemma lands_later:
  assumes "lands hs (Suc p) D di1 di'" "keeps di di1" "di_direction di1 = di_direction di" "shown (di_sequence di) hs p \<longrightarrow> D (user_at hs p)"
  shows "lands hs p D di di'"
proof -
  have seq: "di_sequence di1 = di_sequence di" using assms(2) by (simp add: keeps_def)
  obtain g where g: "Suc p \<le> g" "g \<le> length hs" "at (di_iter di') hs g"
      "\<forall>j. Suc p \<le> j \<and> j < g \<longrightarrow> shown (di_sequence di) hs j \<longrightarrow> D (user_at hs j)"
      "if g < length hs then shown (di_sequence di) hs g \<and> \<not> D (user_at hs g) \<and> di_valid di' else \<not> di_valid di'"
    using assms(1) unfolding lands_def seq by blast
  have "\<forall>j. p \<le> j \<and> j < g \<longrightarrow> shown (di_sequence di) hs j \<longrightarrow> D (user_at hs j)"
    using g(4) assms(4) by (metis Suc_leI le_neq_implies_less)
  with g show ?thesis
    using assms(1-3) unfolding lands_def keeps_def by (intro conjI exI [of _ g]) auto
qed

lemma skipsI:
  assumes "skipping \<Longrightarrow> ok skip"
    "\<And>j. j < length hs \<Longrightarrow> p \<le> j \<Longrightarrow> sees s hs j \<Longrightarrow> skipping \<and> \<not> less skip (user_at hs j) \<longleftrightarrow>
       (\<exists>i < p. sees s hs i \<and> user_at hs i = user_at hs j) \<or> D (user_at hs j)"
    "\<And>i j. j < length hs \<Longrightarrow> p \<le> i \<Longrightarrow> i \<le> j \<Longrightarrow> sees s hs i \<Longrightarrow> sees s hs j \<Longrightarrow> D (user_at hs j) \<Longrightarrow>
       user_at hs i = user_at hs j"
  shows "skips s hs p D skipping skip"
  unfolding skips_def using assms by blast

lemma skipsD:
  assumes "skips s hs p D skipping skip"
  shows "\<lbrakk>j < length hs; p \<le> i; i \<le> j; sees s hs i; sees s hs j; D (user_at hs j)\<rbrakk> \<Longrightarrow> user_at hs i = user_at hs j"
    "\<lbrakk>j < length hs; p \<le> j; sees s hs j\<rbrakk> \<Longrightarrow> skipping \<and> \<not> less skip (user_at hs j) \<longleftrightarrow>
       (\<exists>i < p. sees s hs i \<and> user_at hs i = user_at hs j) \<or> D (user_at hs j)"
    "skipping \<Longrightarrow> ok skip"
  using assms unfolding skips_def by blast+

lemma skips_later:
  assumes "skips s hs p D skipping skip" "skipping' \<Longrightarrow> ok skip'"
    "\<And>j. j < length hs \<Longrightarrow> Suc p \<le> j \<Longrightarrow> sees s hs j \<Longrightarrow> skipping' \<and> \<not> less skip' (user_at hs j) \<longleftrightarrow>
       (\<exists>i < Suc p. sees s hs i \<and> user_at hs i = user_at hs j) \<or> D (user_at hs j)"
  shows "skips s hs (Suc p) D skipping' skip'"
  by (rule skipsI) (fact assms(2), fact assms(3), rule skipsD(1) [OF assms(1)], simp_all)

lemma skips_step:
  assumes es: "entries_ordered ok compare hs" and p: "p < length hs" and sk: "skips s hs p D skipping skip"
  shows "\<not> sees s hs p \<Longrightarrow> skips s hs (Suc p) D skipping skip"
    "sees s hs p \<Longrightarrow> update_type (snd (hs ! p)) = kTypeDeletion \<Longrightarrow> skips s hs (Suc p) D True (user_at hs p)"
    "sees s hs p \<Longrightarrow> skipping \<and> \<not> less skip (user_at hs p) \<Longrightarrow> skips s hs (Suc p) D skipping skip"
proof goal_cases
  case 1
  then have "(\<exists>i < Suc p. sees s hs i \<and> user_at hs i = u) \<longleftrightarrow> (\<exists>i < p. sees s hs i \<and> user_at hs i = u)" for u
    by (auto simp: less_Suc_eq)
  then show ?case
    using skipsD(2,3) [OF sk] by (intro skips_later [OF sk]) simp_all
next
  case 2
  have "\<not> less (user_at hs p) (user_at hs j) \<longleftrightarrow>
      (\<exists>i < Suc p. sees s hs i \<and> user_at hs i = user_at hs j) \<or> D (user_at hs j)"
    if j: "j < length hs" "Suc p \<le> j" "sees s hs j" for j
  proof -
    have oks: "ok (user_at hs p)" "ok (user_at hs j)" using entry_user_ok [OF es] p j(1) by simp_all
    have pj: "user_at hs p = user_at hs j \<or> less (user_at hs p) (user_at hs j)"
      using users_sorted [OF es, of p j] j by simp
    have "user_at hs p = user_at hs j" if i: "i < Suc p" "user_at hs i = user_at hs j" for i
    proof -
      have "user_at hs i = user_at hs p \<or> less (user_at hs i) (user_at hs p)"
        using users_sorted [OF es, of i p] i(1) p by simp
      with pj i(2) asym [OF oks] show ?thesis by metis
    qed
    moreover have "user_at hs p = user_at hs j" if "D (user_at hs j)"
      using skipsD(1) [OF sk, of j p] j 2(1) that by simp
    ultimately show ?thesis using pj irrefl [OF oks(2)] 2(1) by (metis lessI)
  qed
  then show ?case
    using entry_user_ok(1) [OF es p] by (intro skips_later [OF sk]) simp_all
next
  case 3
  have p': "(\<exists>i < p. sees s hs i \<and> user_at hs i = user_at hs p) \<or> D (user_at hs p)" using skipsD(2) [OF sk p _ 3(1)] 3(2) by simp
  have "(\<exists>i < Suc p. sees s hs i \<and> user_at hs i = u) \<or> D u \<longleftrightarrow> (\<exists>i < p. sees s hs i \<and> user_at hs i = u) \<or> D u" for u
    using p' by (auto simp: less_Suc_eq)
  then show ?case
    using skipsD(2,3) [OF sk] by (intro skips_later [OF sk]) simp_all
qed

end

context db_entries
begin

lemma keeps_same_view: "same_view di di' \<Longrightarrow> keeps di di'"
  by (auto simp: same_view_def keeps_def)

lemma same_view_fields:
  assumes "same_view di di'"
  shows "di_iter di' = di_iter di" "di_sequence di' = di_sequence di" "di_saved_key di' = di_saved_key di"
    "di_saved_value di' = di_saved_value di" "di_direction di' = di_direction di" "di_valid di' = di_valid di"
    "di_status di' = di_status di" "seed_ok (di_rnd di')"
  using assms by (auto simp: same_view_def)

lemma FindNext_loop_lands:
  assumes es: "entries_ordered ok compare hs"
  shows "at (di_iter di) hs p \<Longrightarrow> p < length hs \<Longrightarrow> seed_ok (di_rnd di) \<Longrightarrow>
    skips (di_sequence di) hs p D skipping (di_saved_key di) \<Longrightarrow>
    \<exists>di'. FindNext_loop cls compare skipping di = Some di' \<and> lands hs p D di di'"
proof (induction "length hs - p" arbitrary: p di skipping)
  case (Suc n)
  let ?s = "di_sequence di"
  let ?key = "\<lparr>pik_user_key = user_at hs p, pik_sequence = fst (hs ! p), pik_type = update_type (snd (hs ! p))\<rparr>"
  obtain d1 where d1: "ParseKey cls di = Some (Some ?key, d1)" "same_view di d1"
    by (rule ParseKey_at [OF es Suc.prems(1,2,3)])
  note f1 = same_view_fields [OF d1(2)]
  have oku: "ok (user_at hs p)" by (rule entry_user_ok(1) [OF es Suc.prems(2)])
  show ?case
  proof (cases "\<exists>d2. next_step compare skipping (Some ?key) d1 = Some (True, skipping, d2)")
    case True
    then obtain d2 where d2: "next_step compare skipping (Some ?key) d1 = Some (True, skipping, d2)" by blast
    then have sees: "sees ?s hs p" and val: "update_type (snd (hs ! p)) = kTypeValue"
        and d2': "d2 = d1\<lparr>di_valid := True, di_saved_key := []\<rparr>"
      using f1(2) by (auto simp: next_step_def sees_def split: if_splits ValueType.splits)
    have "\<not> (skipping \<and> \<not> less (di_saved_key d1) (user_at hs p))"
    proof
      assume skip: "skipping \<and> \<not> less (di_saved_key d1) (user_at hs p)"
      then have "ok (di_saved_key d1)" using skipsD(3) [OF Suc.prems(4)] f1(3) by simp
      then have "user_at hs p = di_saved_key d1 \<or> less (user_at hs p) (di_saved_key d1)"
        using not_below [OF _ oku] skip by metis
      then have "\<exists>r \<le> 0. compare (user_at hs p) (di_saved_key d1) = Some r"
        using zero [OF oku oku] by (auto simp: below_def intro: less_imp_le)
      then show False using d2 skip sees val f1(2) by (auto simp: next_step_def sees_def)
    qed
    then have "\<not> (\<exists>i < p. sees ?s hs i \<and> user_at hs i = user_at hs p)" "\<not> D (user_at hs p)"
      using skipsD(2) [OF Suc.prems(4,2) _ sees] f1(3) by auto
    then have "shown ?s hs p" "\<not> D (user_at hs p)" using sees val by (auto simp: shown_def)
    moreover have "FindNext_loop cls compare skipping di = Some d2"
      using d1(1) d2 by (simp add: FindNext_loop.simps [of cls compare skipping di] del: bind_Some_iff)
    ultimately show ?thesis
      using Suc.prems(1,2) f1 unfolding lands_def d2' keeps_def
      by (intro exI [of _ d2] conjI exI [of _ p]) (auto simp: d2')
  next
    case False
    obtain sk' d2 where d2: "next_step compare skipping (Some ?key) d1 = Some (False, sk', d2)"
        "skips ?s hs (Suc p) D sk' (di_saved_key d2)" "keeps d1 d2" "di_iter d2 = di_iter d1"
        "di_direction d2 = di_direction d1" "shown ?s hs p \<longrightarrow> D (user_at hs p)"
    proof (cases "sees ?s hs p")
      case unseen: False
      show thesis
        by (rule that [of skipping d1])
          (use unseen f1 skips_step(1) [OF es Suc.prems(2,4) unseen] in
            \<open>simp_all add: next_step_def sees_def keeps_def shown_def\<close>)
    next
      case sees: True
      show thesis
      proof (cases "update_type (snd (hs ! p))")
        case kTypeDeletion
        show thesis
          by (rule that [of True "d1\<lparr>di_saved_key := user_at hs p\<rparr>"])
            (use sees kTypeDeletion f1 skips_step(2) [OF es Suc.prems(2,4) sees kTypeDeletion] in
              \<open>simp_all add: next_step_def sees_def keeps_def shown_def\<close>)
      next
        case kTypeValue
        have hidden: "skipping \<and> \<not> less (di_saved_key d1) (user_at hs p)"
        proof (rule ccontr)
          assume not: "\<not> (skipping \<and> \<not> less (di_saved_key d1) (user_at hs p))"
          have "skipping \<Longrightarrow> \<exists>r > 0. compare (user_at hs p) (di_saved_key d1) = Some r"
            using not flip [OF oku] skipsD(3) [OF Suc.prems(4)] f1(3) by auto
          then have "\<exists>d2. next_step compare skipping (Some ?key) d1 = Some (True, skipping, d2)"
            using sees kTypeValue f1(2) by (cases skipping) (auto simp: next_step_def sees_def simp del: bind_Some_iff)
          with False show False by blast
        qed
        then have oks: "ok (di_saved_key d1)" using skipsD(3) [OF Suc.prems(4)] f1(3) by simp
        obtain r where r: "compare (user_at hs p) (di_saved_key d1) = Some r" using total [OF oku oks] by blast
        have "r \<le> 0" using hidden flip [OF oku oks] r by (auto simp: not_le)
        then have step: "next_step compare skipping (Some ?key) d1 = Some (False, skipping, d1)"
          using hidden r sees kTypeValue f1(2) by (simp add: next_step_def sees_def)
        have hidden': "skipping \<and> \<not> less (di_saved_key di) (user_at hs p)" using hidden f1(3) by simp
        have "shown ?s hs p \<longrightarrow> D (user_at hs p)"
          using skipsD(2) [OF Suc.prems(4,2) _ sees] hidden' by (auto simp: shown_def)
        then show thesis
          using that [OF step] skips_step(3) [OF es Suc.prems(2,4) sees hidden'] f1 by (simp add: keeps_def)
      qed
    qed
    have at2: "at (di_iter d2) hs p" using d2(4) f1(1) Suc.prems(1) by simp
    obtain it where it: "it_Next cls (di_iter d2) = Some it" "at it hs (Suc p)" by (rule at_Next [OF at2 Suc.prems(2)])
    have loop: "FindNext_loop cls compare skipping di =
        (if it_Valid cls it then FindNext_loop cls compare sk' (d2\<lparr>di_iter := it\<rparr>)
         else Some (d2\<lparr>di_iter := it, di_saved_key := [], di_valid := False\<rparr>))"
      using d1(1) d2(1) it(1) by (simp add: FindNext_loop.simps [of cls compare skipping di] del: bind_Some_iff)
    have keep: "keeps di d2" by (rule keeps_trans [OF keeps_same_view [OF d1(2)] d2(3)])
    show ?thesis
    proof (cases "Suc p < length hs")
      case True
      let ?d = "d2\<lparr>di_iter := it\<rparr>"
      have seq: "di_sequence d2 = ?s" using keep by (simp add: keeps_def)
      have "\<exists>di'. FindNext_loop cls compare sk' ?d = Some di' \<and> lands hs (Suc p) D ?d di'"
        by (rule Suc.hyps(1)) (use Suc.hyps(2) it(2) True d2(2) keep seq in \<open>simp_all add: keeps_def\<close>)
      then obtain di' where di': "FindNext_loop cls compare sk' ?d = Some di'" "lands hs (Suc p) D ?d di'" by blast
      have "lands hs p D di di'"
        by (rule lands_later [OF di'(2)]) (use keep d2(5,6) f1(5) in \<open>simp_all add: keeps_def\<close>)
      then show ?thesis using loop di'(1) at_entry(1) [OF it(2) True] by simp
    next
      case False
      then have "Suc p = length hs" using Suc.prems(2) by simp
      then have fin: "at it hs (length hs)" using it(2) by simp
      have "\<forall>j. p \<le> j \<and> j < length hs \<longrightarrow> shown ?s hs j \<longrightarrow> D (user_at hs j)"
        using d2(6) \<open>Suc p = length hs\<close> by (metis less_Suc_eq_le le_antisym)
      then have "lands hs p D di (d2\<lparr>di_iter := it, di_saved_key := [], di_valid := False\<rparr>)"
        using fin keep d2(5) f1(5) Suc.prems(2) unfolding lands_def keeps_def
        by (intro conjI exI [of _ "length hs"]) simp_all
      then show ?thesis using loop at_invalid [OF fin] by simp
    qed
  qed
qed simp

end

section \<open>Searching backward\<close>

text \<open>
  What is known when the entries from \<open>p0\<close> down to behind \<open>p\<close> are done: nothing of them is shown,
  or only the last value that was saved can be.
\<close>

definition saved_at :: "history \<Rightarrow> 'it db_iter \<Rightarrow> nat \<Rightarrow> bool" where
  "saved_at hs di v \<longleftrightarrow> di_saved_key di = user_at hs v \<and> di_saved_value di = update_value (snd (hs ! v))"

definition seen_back :: "history \<Rightarrow> nat \<Rightarrow> nat \<Rightarrow> ValueType \<Rightarrow> 'it db_iter \<Rightarrow> bool" where
  "seen_back hs p0 lo type di \<longleftrightarrow> (case type of
      kTypeDeletion \<Rightarrow> \<forall>j. lo \<le> j \<and> j \<le> p0 \<longrightarrow> \<not> shown (di_sequence di) hs j
    | kTypeValue \<Rightarrow> \<exists>v. lo \<le> v \<and> v \<le> p0 \<and> sees (di_sequence di) hs v \<and> update_type (snd (hs ! v)) = kTypeValue \<and>
        saved_at hs di v \<and> (\<forall>j. lo \<le> j \<and> j < v \<longrightarrow> \<not> sees (di_sequence di) hs j) \<and>
        (\<forall>j. v < j \<and> j \<le> p0 \<longrightarrow> \<not> shown (di_sequence di) hs j))"

text \<open>Standing before all visible entries for the user key of entry \<open>g\<close> and after all smaller ones.\<close>

definition just_before :: "SequenceNumber \<Rightarrow> history \<Rightarrow> nat \<Rightarrow> nat \<Rightarrow> bool" where
  "just_before s hs p g \<longleftrightarrow> (p = length hs \<or> p < g \<and> user_at hs p \<noteq> user_at hs g) \<and>
     (\<forall>j < g. p = length hs \<or> p < j \<longrightarrow> \<not> sees s hs j)"

definition backs :: "('it \<Rightarrow> history \<Rightarrow> nat \<Rightarrow> bool) \<Rightarrow> history \<Rightarrow> nat \<Rightarrow> 'it db_iter \<Rightarrow> ValueType \<Rightarrow> 'it db_iter \<Rightarrow> bool" where
  "backs at hs p0 di type di' \<longleftrightarrow> keeps di di' \<and> di_direction di' = di_direction di \<and> (\<exists>p. at (di_iter di') hs p) \<and>
     (if type = kTypeDeletion then \<forall>j \<le> p0. \<not> shown (di_sequence di) hs j
      else \<exists>v p'. v \<le> p0 \<and> shown (di_sequence di) hs v \<and> saved_at hs di' v \<and> at (di_iter di') hs p' \<and>
        just_before (di_sequence di) hs p' v \<and> (\<forall>j. v < j \<and> j \<le> p0 \<longrightarrow> \<not> shown (di_sequence di) hs j))"

lemma backs_from:
  assumes "backs at hs p0 di1 type di'" "keeps di di1" "di_direction di1 = di_direction di"
  shows "backs at hs p0 di type di'"
proof -
  have seq: "di_sequence di1 = di_sequence di" using assms(2) by (simp add: keeps_def)
  show ?thesis
    using assms(1) keeps_trans [OF assms(2)] unfolding backs_def seq assms(3) by blast
qed

lemma prev_step_sees:
  assumes "pik_sequence key \<le> di_sequence di"
    "(if type \<noteq> kTypeDeletion then do { r \<leftarrow> compare (pik_user_key key) (di_saved_key di); Some (r < 0) } else Some False) = Some b"
  shows "prev_step cls compare type (Some key) di =
    (if b then Some (True, type, di)
     else if pik_type key = kTypeDeletion then Some (False, kTypeDeletion, di\<lparr>di_saved_key := [], di_saved_value := []\<rparr>)
     else do {
       raw_value \<leftarrow> it_val cls (di_iter di);
       k \<leftarrow> it_key cls (di_iter di);
       u \<leftarrow> ExtractUserKey k;
       Some (False, pik_type key, di\<lparr>di_saved_key := u, di_saved_value := raw_value\<rparr>)
     })"
  unfolding prev_step_def option.case by (simp only: assms if_True Option.bind.simps)

context db_entries
begin

text \<open>One step: the loop ends behind a smaller visible key, or the entry is taken into account.\<close>

lemma prev_step_cases:
  assumes es: "entries_ordered ok compare hs" and p: "p \<le> p0" "p0 < length hs" and at: "at (di_iter di) hs p"
    and seen: "seen_back hs p0 (Suc p) type di"
    and key: "key = \<lparr>pik_user_key = user_at hs p, pik_sequence = fst (hs ! p), pik_type = update_type (snd (hs ! p))\<rparr>"
  obtains v where "prev_step cls compare type (Some key) di = Some (True, type, di)" "type = kTypeValue"
      "p < v" "v \<le> p0" "shown (di_sequence di) hs v" "saved_at hs di v" "just_before (di_sequence di) hs p v"
      "\<forall>j. v < j \<and> j \<le> p0 \<longrightarrow> \<not> shown (di_sequence di) hs j"
  | type' k v where "prev_step cls compare type (Some key) di = Some (False, type', di\<lparr>di_saved_key := k, di_saved_value := v\<rparr>)"
      "seen_back hs p0 p type' (di\<lparr>di_saved_key := k, di_saved_value := v\<rparr>)"
proof (cases "sees (di_sequence di) hs p")
  case False
  have "seen_back hs p0 p type di"
  proof (cases type)
    case kTypeDeletion
    have "\<not> shown (di_sequence di) hs p" using False by (simp add: shown_def)
    then have "\<not> shown (di_sequence di) hs j" if "p \<le> j" "j \<le> p0" for j
      using seen that kTypeDeletion by (cases "j = p") (simp_all add: seen_back_def)
    then show ?thesis using kTypeDeletion by (simp add: seen_back_def)
  next
    case kTypeValue
    then obtain v where v: "Suc p \<le> v" "v \<le> p0" "sees (di_sequence di) hs v" "update_type (snd (hs ! v)) = kTypeValue"
        "saved_at hs di v" "\<forall>j. Suc p \<le> j \<and> j < v \<longrightarrow> \<not> sees (di_sequence di) hs j"
        "\<forall>j. v < j \<and> j \<le> p0 \<longrightarrow> \<not> shown (di_sequence di) hs j"
      using seen by (auto simp: seen_back_def)
    have "\<not> sees (di_sequence di) hs j" if "p \<le> j" "j < v" for j
      using v(6) False that by (cases "j = p") simp_all
    then show ?thesis using v kTypeValue by (auto simp: seen_back_def intro!: exI [of _ v])
  qed
  then show thesis
    using that(2) [of type "di_saved_value di" "di_saved_key di"] False key by (simp add: prev_step_def sees_def)
next
  case sees: True
  note goes_on = that(2)
  have plen: "p < length hs" using p by simp
  have oku: "ok (user_at hs p)" by (rule entry_user_ok(1) [OF es plen])
  text \<open>Taking an entry into account, once the saved one is known not to be shown.\<close>
  have take: thesis
    if stop: "(if type \<noteq> kTypeDeletion then do { r \<leftarrow> compare (user_at hs p) (di_saved_key di); Some (r < 0) } else Some False) = Some False"
      and hidden: "\<forall>j. Suc p \<le> j \<and> j \<le> p0 \<longrightarrow> \<not> shown (di_sequence di) hs j"
  proof -
    have "(if type \<noteq> kTypeDeletion then do { r \<leftarrow> compare (pik_user_key key) (di_saved_key di); Some (r < 0) } else Some False) = Some False"
      using stop unfolding key by (simp only: ParsedInternalKey.select_convs)
    moreover have "pik_sequence key \<le> di_sequence di" using sees key by (simp add: sees_def)
    ultimately have step: "prev_step cls compare type (Some key) di =
      (if pik_type key = kTypeDeletion then Some (False, kTypeDeletion, di\<lparr>di_saved_key := [], di_saved_value := []\<rparr>)
       else do {
         raw_value \<leftarrow> it_val cls (di_iter di);
         k \<leftarrow> it_key cls (di_iter di);
         u \<leftarrow> ExtractUserKey k;
         Some (False, pik_type key, di\<lparr>di_saved_key := u, di_saved_value := raw_value\<rparr>)
       })"
      by (simp only: prev_step_sees if_False)
    show thesis
    proof (cases "update_type (snd (hs ! p))")
      case kTypeDeletion
      have "\<not> shown (di_sequence di) hs p" using kTypeDeletion by (simp add: shown_def)
      then have none: "\<not> shown (di_sequence di) hs j" if "p \<le> j" "j \<le> p0" for j
        using hidden that by (cases "j = p") simp_all
      show thesis
        by (rule goes_on [of kTypeDeletion "[]" "[]"])
          (use step kTypeDeletion key none in \<open>simp_all add: seen_back_def\<close>)
    next
      case kTypeValue
      let ?di = "di\<lparr>di_saved_key := user_at hs p, di_saved_value := update_value (snd (hs ! p))\<rparr>"
      have "seen_back hs p0 p kTypeValue ?di"
        using sees kTypeValue p(1) hidden by (auto simp: seen_back_def saved_at_def intro!: exI [of _ p])
      moreover have "prev_step cls compare type (Some key) di = Some (False, kTypeValue, ?di)"
        using step kTypeValue key at_entry [OF at plen] by (simp add: user_at_def del: bind_Some_iff)
      ultimately show thesis using goes_on by blast
    qed
  qed
  show thesis
  proof (cases type)
    case kTypeDeletion
    then show thesis using take seen by (simp add: seen_back_def)
  next
    case kTypeValue
    then obtain v where v: "Suc p \<le> v" "v \<le> p0" "sees (di_sequence di) hs v" "update_type (snd (hs ! v)) = kTypeValue"
        "saved_at hs di v" "\<forall>j. Suc p \<le> j \<and> j < v \<longrightarrow> \<not> sees (di_sequence di) hs j"
        "\<forall>j. v < j \<and> j \<le> p0 \<longrightarrow> \<not> shown (di_sequence di) hs j"
      using seen by (auto simp: seen_back_def)
    have vlen: "v < length hs" using v(2) p(2) by simp
    have okv: "ok (user_at hs v)" by (rule entry_user_ok(1) [OF es vlen])
    have order: "user_at hs p = user_at hs v \<or> less (user_at hs p) (user_at hs v)"
      using users_sorted [OF es, of p v] v(1) vlen by simp
    obtain r where r: "compare (user_at hs p) (user_at hs v) = Some r" using total [OF oku okv] by blast
    have saved: "di_saved_key di = user_at hs v" using v(5) by (simp add: saved_at_def)
    show thesis
    proof (cases "less (user_at hs p) (user_at hs v)")
      case True
      then have "r < 0" using r by (simp add: below_def)
      then have step: "prev_step cls compare type (Some key) di = Some (True, type, di)"
        using sees key kTypeValue r saved by (simp add: prev_step_def sees_def del: bind_Some_iff)
      have differ: "user_at hs p \<noteq> user_at hs v" using True irrefl [OF okv] by metis
      have "user_at hs j \<noteq> user_at hs v" if "j < v" "sees (di_sequence di) hs j" for j
      proof -
        have "j \<le> p" using v(6) that by (metis not_less_eq_eq)
        then have "user_at hs j = user_at hs p \<or> less (user_at hs j) (user_at hs p)"
          using users_sorted [OF es, of j p] plen by simp
        then show ?thesis using True asym [OF oku okv] differ by metis
      qed
      then have "shown (di_sequence di) hs v" using v(3,4) by (simp add: shown_def)
      moreover have "just_before (di_sequence di) hs p v"
        using v(1,6) differ plen by (auto simp: just_before_def)
      ultimately show thesis using that(1) [OF step kTypeValue _ v(2)] v(1,5,7) by simp
    next
      case False
      then have same: "user_at hs p = user_at hs v" using order by blast
      have "\<not> shown (di_sequence di) hs v" using same sees v(1) by (auto simp: shown_def intro!: exI [of _ p])
      have "\<not> shown (di_sequence di) hs j" if j: "Suc p \<le> j" "j \<le> p0" for j
      proof (cases "j \<le> v")
        case True
        then show ?thesis
          using v(6) j(1) \<open>\<not> shown (di_sequence di) hs v\<close> by (cases "j = v") (simp_all add: shown_def)
      qed (use v(7) j(2) in simp)
      moreover have "r = 0" using r same zero [OF okv okv] by simp
      ultimately show thesis using take r saved kTypeValue by (simp del: bind_Some_iff)
    qed
  qed
qed

lemma FindPrev_loop_backs:
  assumes es: "entries_ordered ok compare hs" and p0: "p0 < length hs"
  shows "at (di_iter di) hs p \<Longrightarrow> p \<le> p0 \<Longrightarrow> seed_ok (di_rnd di) \<Longrightarrow> seen_back hs p0 (Suc p) type di \<Longrightarrow>
    \<exists>type' di'. FindPrev_loop cls compare type di = Some (type', di') \<and> backs at hs p0 di type' di'"
proof (induction p arbitrary: di type rule: less_induct)
  case (less p)
  let ?key = "\<lparr>pik_user_key = user_at hs p, pik_sequence = fst (hs ! p), pik_type = update_type (snd (hs ! p))\<rparr>"
  have plen: "p < length hs" using less.prems(2) p0 by simp
  obtain d1 where d1: "ParseKey cls di = Some (Some ?key, d1)" "same_view di d1"
    by (rule ParseKey_at [OF es less.prems(1) plen less.prems(3)])
  note f1 = same_view_fields [OF d1(2)]
  have at1: "at (di_iter d1) hs p" using less.prems(1) f1(1) by simp
  have seen1: "seen_back hs p0 (Suc p) type d1"
    using less.prems(4) f1 by (simp add: seen_back_def saved_at_def split: ValueType.splits)
  show ?case
  proof (rule prev_step_cases [OF es less.prems(2) p0 at1 seen1 refl])
    fix v assume v: "prev_step cls compare type (Some ?key) d1 = Some (True, type, d1)" "type = kTypeValue" "v \<le> p0"
      "shown (di_sequence d1) hs v" "saved_at hs d1 v" "just_before (di_sequence d1) hs p v"
      "\<forall>j. v < j \<and> j \<le> p0 \<longrightarrow> \<not> shown (di_sequence d1) hs j"
    have "FindPrev_loop cls compare type di = Some (type, d1)"
      using d1(1) v(1) by (simp add: FindPrev_loop.simps [of cls compare type di] del: bind_Some_iff)
    moreover have "backs at hs p0 di type d1"
      using v f1 at1 keeps_same_view [OF d1(2)] unfolding backs_def by auto
    ultimately show ?thesis by blast
  next
    fix type' k w
    let ?d2 = "d1\<lparr>di_saved_key := k, di_saved_value := w\<rparr>"
    assume step: "prev_step cls compare type (Some ?key) d1 = Some (False, type', ?d2)" "seen_back hs p0 p type' ?d2"
    have at2: "at (di_iter ?d2) hs p" using at1 by simp
    obtain it where it: "it_Prev cls (di_iter ?d2) = Some it" "at it hs (if p = 0 then length hs else p - 1)"
      by (rule at_Prev [OF at2 plen])
    let ?d3 = "?d2\<lparr>di_iter := it\<rparr>"
    have loop: "FindPrev_loop cls compare type di =
        (if it_Valid cls it then FindPrev_loop cls compare type' ?d3 else Some (type', ?d3))"
      using d1(1) step(1) it(1) by (simp add: FindPrev_loop.simps [of cls compare type di] del: bind_Some_iff)
    have keep: "keeps di ?d3" "di_direction ?d3 = di_direction di" "di_sequence ?d3 = di_sequence di"
      using f1 by (simp_all add: keeps_def)
    have seen3: "seen_back hs p0 p type' ?d3"
      using step(2) by (simp add: seen_back_def saved_at_def split: ValueType.splits)
    show ?thesis
    proof (cases "p = 0")
      case True
      then have fin: "at it hs (length hs)" using it(2) by simp
      have "backs at hs p0 di type' ?d3"
        using seen3 keep fin True unfolding backs_def seen_back_def
        by (cases type') (auto simp: just_before_def shown_def saved_at_def)
      then show ?thesis using loop at_invalid [OF fin] by auto
    next
      case False
      then have at3: "at it hs (p - 1)" and lt: "p - 1 < length hs" using it(2) plen by simp_all
      have "\<exists>type'' di'. FindPrev_loop cls compare type' ?d3 = Some (type'', di') \<and> backs at hs p0 ?d3 type'' di'"
        by (rule less.IH [of "p - 1"]) (use False at3 seen3 less.prems(2) f1(8) in simp_all)
      then obtain type'' di' where di': "FindPrev_loop cls compare type' ?d3 = Some (type'', di')" "backs at hs p0 ?d3 type'' di'"
        by blast
      have "backs at hs p0 di type'' di'"
        by (rule backs_from [OF di'(2) keep(1,2)])
      then show ?thesis using loop di'(1) at_entry(1) [OF at3 lt] by auto
    qed
  qed
qed

text \<open>Backwards to the last entry of a smaller user key.\<close>

lemma back_loop_at:
  assumes es: "entries_ordered ok compare hs" and g: "g < length hs"
  shows "at (di_iter di) hs p \<Longrightarrow> p \<le> g \<Longrightarrow> di_saved_key di = user_at hs g \<Longrightarrow>
    \<forall>j. p \<le> j \<and> j \<le> g \<longrightarrow> user_at hs j = user_at hs g \<Longrightarrow>
    (\<exists>it. back_loop cls compare di = Some (False, di\<lparr>di_iter := it, di_valid := False, di_saved_key := [], di_saved_value := []\<rparr>) \<and>
       at it hs (length hs) \<and> (\<forall>j \<le> g. user_at hs j = user_at hs g)) \<or>
    (\<exists>it p'. back_loop cls compare di = Some (True, di\<lparr>di_iter := it\<rparr>) \<and> at it hs p' \<and> p' < g \<and>
       less (user_at hs p') (user_at hs g) \<and> (\<forall>j. p' < j \<and> j \<le> g \<longrightarrow> user_at hs j = user_at hs g))"
proof (induction p arbitrary: di)
  case 0
  obtain it where it: "it_Prev cls (di_iter di) = Some it" "at it hs (length hs)"
    by (rule at_Prev [OF 0(1)]) (use g in auto)
  then have "back_loop cls compare di = Some (False, di\<lparr>di_iter := it, di_valid := False, di_saved_key := [], di_saved_value := []\<rparr>)"
    using at_invalid by (simp add: back_loop.simps [of cls compare di])
  then show ?case using it(2) 0(4) by blast
next
  case (Suc p)
  have plen: "p < length hs" "Suc p < length hs" using Suc.prems(2) g by simp_all
  obtain it where it: "it_Prev cls (di_iter di) = Some it" "at it hs p"
    by (rule at_Prev [OF Suc.prems(1) plen(2)]) auto
  have oks: "ok (user_at hs p)" "ok (user_at hs g)" using entry_user_ok(1) [OF es] plen(1) g by simp_all
  obtain r where r: "compare (user_at hs p) (user_at hs g) = Some r" using total [OF oks] by blast
  have loop: "back_loop cls compare di =
      (if r < 0 then Some (True, di\<lparr>di_iter := it\<rparr>) else back_loop cls compare (di\<lparr>di_iter := it\<rparr>))"
    using it(1) at_entry [OF it(2) plen(1)] r Suc.prems(3)
    by (simp add: back_loop.simps [of cls compare di] user_at_def del: bind_Some_iff)
  show ?case
  proof (cases "r < 0")
    case True
    then have "less (user_at hs p) (user_at hs g)" using r by (simp add: below_def)
    moreover have "back_loop cls compare di = Some (True, di\<lparr>di_iter := it\<rparr>)" using True loop by simp
    moreover have "\<forall>j. p < j \<and> j \<le> g \<longrightarrow> user_at hs j = user_at hs g" using Suc.prems(4) Suc_le_eq by blast
    ultimately show ?thesis using it(2) Suc_le_lessD [OF Suc.prems(2)] by blast
  next
    case False
    then have "\<not> less (user_at hs p) (user_at hs g)" using r by (simp add: below_def)
    then have same: "user_at hs p = user_at hs g" using users_sorted [OF es, of p g] Suc.prems(2) g by simp
    have upto: "\<forall>j. p \<le> j \<and> j \<le> g \<longrightarrow> user_at hs j = user_at hs g"
    proof (intro allI impI)
      fix j assume "p \<le> j \<and> j \<le> g"
      then show "user_at hs j = user_at hs g" using same Suc.prems(4) by (cases "j = p") (simp, blast intro: Suc_leI le_neq_implies_less)
    qed
    have "(\<exists>it'. back_loop cls compare (di\<lparr>di_iter := it\<rparr>) =
         Some (False, di\<lparr>di_iter := it, di_iter := it', di_valid := False, di_saved_key := [], di_saved_value := []\<rparr>) \<and>
         at it' hs (length hs) \<and> (\<forall>j \<le> g. user_at hs j = user_at hs g)) \<or>
      (\<exists>it' p'. back_loop cls compare (di\<lparr>di_iter := it\<rparr>) = Some (True, di\<lparr>di_iter := it, di_iter := it'\<rparr>) \<and> at it' hs p' \<and> p' < g \<and>
         less (user_at hs p') (user_at hs g) \<and> (\<forall>j. p' < j \<and> j \<le> g \<longrightarrow> user_at hs j = user_at hs g))"
      by (rule Suc.IH, simp add: it(2), simp add: Suc_leD [OF Suc.prems(2)], simp add: Suc.prems(3), rule upto)
    then show ?thesis using False loop by simp
  qed
qed

end

section \<open>It is an iterator\<close>

text \<open>
  The internal iterator stands at the entry that is shown, when moving forward, and just before its
  user key, with the entry saved, when moving backward.
\<close>

definition db_stands :: "(byte list \<Rightarrow> bool) \<Rightarrow> (byte list \<Rightarrow> byte list \<Rightarrow> int option) \<Rightarrow>
    ('it \<Rightarrow> (byte list \<times> byte list) list \<Rightarrow> nat \<Rightarrow> bool) \<Rightarrow> 'it db_iter \<Rightarrow> (byte list \<times> byte list) list \<Rightarrow> nat \<Rightarrow> bool" where
  "db_stands ok compare stands di ys q \<longleftrightarrow> di_status di = OK \<and> di_sequence di \<le> kMaxSequenceNumber \<and> seed_ok (di_rnd di) \<and>
     (\<exists>hs p. entries_ordered ok compare hs \<and> ys = db_view (di_sequence di) hs \<and> stands (di_iter di) (map hist_entry hs) p \<and>
        (if \<not> di_valid di then q = length ys
         else if di_direction di = kForward then p < length hs \<and> shown (di_sequence di) hs p \<and> q = rank (di_sequence di) hs p
         else \<exists>g < length hs. shown (di_sequence di) hs g \<and> q = rank (di_sequence di) hs g \<and> saved_at hs di g \<and>
           just_before (di_sequence di) hs p g))"

context db_entries
begin

abbreviation db_at :: "'it db_iter \<Rightarrow> (byte list \<times> byte list) list \<Rightarrow> nat \<Rightarrow> bool" where
  "db_at \<equiv> db_stands ok compare stands"

definition sound :: "'it db_iter \<Rightarrow> bool" where
  "sound di \<longleftrightarrow> di_status di = OK \<and> di_sequence di \<le> kMaxSequenceNumber \<and> seed_ok (di_rnd di)"

text \<open>A search forward from \<open>p\<close> ends at the first entry of the view behind a cut.\<close>

lemma FindNextUserEntry_db:
  assumes es: "entries_ordered ok compare hs" and sound: "sound di" and dir: "di_direction di = kForward"
    and at: "at (di_iter di) hs p" "p < length hs"
    and skips: "skips (di_sequence di) hs p D skipping (di_saved_key di)"
    and cut: "cut P (db_view (di_sequence di) hs) q"
    and P: "\<And>j. j < length hs \<Longrightarrow> shown (di_sequence di) hs j \<Longrightarrow> P (user_at hs j) \<longleftrightarrow> j < p \<or> D (user_at hs j)"
  shows "\<exists>di'. FindNextUserEntry cls compare skipping di = Some di' \<and> db_at di' (db_view (di_sequence di) hs) q"
proof -
  let ?s = "di_sequence di"
  obtain di' where loop: "FindNext_loop cls compare skipping di = Some di'" and lands: "lands hs p D di di'"
    using FindNext_loop_lands [OF es at _ skips] sound by (auto simp: sound_def)
  obtain g where g: "p \<le> g" "g \<le> length hs" "at (di_iter di') hs g"
      "\<And>j. p \<le> j \<Longrightarrow> j < g \<Longrightarrow> shown ?s hs j \<Longrightarrow> D (user_at hs j)"
      "if g < length hs then shown ?s hs g \<and> \<not> D (user_at hs g) \<and> di_valid di' else \<not> di_valid di'"
    using lands unfolding lands_def by blast
  have keep: "sound di'" "di_sequence di' = ?s" "di_direction di' = kForward"
    using lands sound dir by (auto simp: lands_def keeps_def sound_def)
  have "P (user_at hs j) \<longleftrightarrow> j < g" if j: "j < length hs" "shown ?s hs j" for j
  proof (cases "j < g")
    case True
    then show ?thesis using P [OF j] g(4) [of j] j(2) by (cases "p \<le> j") auto
  next
    case False
    then have glen: "g < length hs" and gshown: "shown ?s hs g" "\<not> D (user_at hs g)" using j(1) g(5) by auto
    have "\<not> D (user_at hs j)"
    proof
      assume D: "D (user_at hs j)"
      have "user_at hs g = user_at hs j"
        by (rule skipsD(1) [OF skips j(1) g(1)]) (use False gshown j(2) D in \<open>simp_all add: shown_def\<close>)
      with D gshown show False by simp
    qed
    then show ?thesis using P [OF j] False g(1) by simp
  qed
  then have "cut P (db_view ?s hs) (rank ?s hs g)" by (rule view_cut [OF g(2)])
  then have q: "q = rank ?s hs g" by (rule cut_unique [OF cut])
  have "db_at di' (db_view ?s hs) q"
  proof (cases "g < length hs")
    case True
    then show ?thesis using keep g(3,5) es q unfolding db_stands_def sound_def
      by (intro conjI exI [of _ hs] exI [of _ g]) simp_all
  next
    case False
    then have "g = length hs" using g(2) by simp
    then show ?thesis using keep g(3,5) es q unfolding db_stands_def sound_def
      by (intro conjI exI [of _ hs] exI [of _ g]) simp_all
  qed
  then show ?thesis using loop at_entry(1) [OF at] dir by (simp add: FindNextUserEntry_def)
qed

definition gives_up :: "'it db_iter \<Rightarrow> 'it db_iter" where
  "gives_up di = di\<lparr>di_valid := False, di_saved_key := [], di_saved_value := [], di_direction := kForward\<rparr>"

lemma nothing_before:
  assumes "entries_ordered ok compare hs" "sound d" "at (di_iter d) hs p" "s = di_sequence d"
    "cut P (db_view s hs) q" "\<And>j. j < length hs \<Longrightarrow> shown s hs j \<Longrightarrow> \<not> P (user_at hs j)"
  shows "db_at (gives_up d) (db_view s hs) (last_before q (db_view s hs))"
proof -
  have "cut P (db_view s hs) (rank s hs 0)" using assms(6) by (intro view_cut) auto
  then have "q = 0" using cut_unique [OF assms(5)] by (simp add: rank_def)
  then show ?thesis
    using assms(1-4) unfolding db_stands_def sound_def last_before_def gives_up_def by auto
qed

text \<open>A search backward from \<open>p\<close> ends at the last entry of the view in front of a cut.\<close>

lemma FindPrevUserEntry_db:
  assumes es: "entries_ordered ok compare hs" and sound: "sound di" and dir: "di_direction di = kReverse"
    and at: "at (di_iter di) hs p"
    and cut: "cut P (db_view (di_sequence di) hs) q"
    and P: "\<And>j. j < length hs \<Longrightarrow> shown (di_sequence di) hs j \<Longrightarrow> P (user_at hs j) \<longleftrightarrow> p < length hs \<and> j \<le> p"
  shows "\<exists>di'. FindPrevUserEntry cls compare di = Some di' \<and>
    db_at di' (db_view (di_sequence di) hs) (last_before q (db_view (di_sequence di) hs))"
proof -
  let ?s = "di_sequence di" and ?ys = "db_view (di_sequence di) hs"
  show ?thesis
  proof (cases "p < length hs")
    case False
    then have "p = length hs" using inner.position [OF at] by simp
    then have invalid: "\<not> it_Valid cls (di_iter di)" using at at_invalid by simp
    have "db_at (gives_up di) ?ys (last_before q ?ys)"
      by (rule nothing_before [OF es sound at refl cut]) (use P False in simp)
    then show ?thesis using invalid dir by (simp add: FindPrevUserEntry_def gives_up_def)
  next
    case True
    obtain type di' where loop: "FindPrev_loop cls compare kTypeDeletion di = Some (type, di')" and backs: "backs at hs p di type di'"
      using FindPrev_loop_backs [OF es True at order_refl, of kTypeDeletion] sound
      by (fastforce simp: sound_def seen_back_def)
    have keep: "sound di'" "di_sequence di' = ?s" "di_direction di' = kReverse"
      using backs sound dir by (auto simp: backs_def keeps_def sound_def)
    have run: "FindPrevUserEntry cls compare di = Some (if type = kTypeDeletion
        then gives_up di' else di'\<lparr>di_valid := True\<rparr>)"
      using loop at_entry(1) [OF at True] dir by (simp add: FindPrevUserEntry_def gives_up_def)
    show ?thesis
    proof (cases type)
      case kTypeDeletion
      obtain p' where "at (di_iter di') hs p'" using backs by (auto simp: backs_def)
      then have "db_at (gives_up di') ?ys (last_before q ?ys)"
        by (rule nothing_before [OF es keep(1) _ keep(2) [symmetric] cut])
          (use backs P kTypeDeletion in \<open>auto simp: backs_def\<close>)
      then show ?thesis using run kTypeDeletion by simp
    next
      case kTypeValue
      then obtain v p' where v: "v \<le> p" "shown ?s hs v" "saved_at hs di' v" "at (di_iter di') hs p'" "just_before ?s hs p' v"
          "\<And>j. v < j \<Longrightarrow> j \<le> p \<Longrightarrow> \<not> shown ?s hs j"
        using backs unfolding backs_def by auto
      have vlen: "v < length hs" using v(1) True by simp
      have "cut P ?ys (rank ?s hs (Suc v))"
      proof (rule view_cut)
        fix j assume j: "j < length hs" "shown ?s hs j"
        have "j \<le> p \<longleftrightarrow> j < Suc v" using v(1) v(6) [of j] j(2) by (meson le_trans less_Suc_eq_le not_le)
        then show "P (user_at hs j) \<longleftrightarrow> j < Suc v" using P [OF j] True by simp
      qed (use vlen in simp)
      then have "q = Suc (rank ?s hs v)" using cut_unique [OF cut] rank_Suc [OF v(2)] by simp
      then have "last_before q ?ys = rank ?s hs v" by (simp add: last_before_def)
      then have "db_at (di'\<lparr>di_valid := True\<rparr>) ?ys (last_before q ?ys)"
        using keep v vlen es unfolding db_stands_def sound_def
        by (intro conjI exI [of _ hs] exI [of _ p']) (auto simp: saved_at_def)
      then show ?thesis using run kTypeValue by simp
    qed
  qed
qed

end

context db_entries
begin

text \<open>What standing in the view means for the internal iterator.\<close>

lemma db_atE:
  assumes "db_at di ys q"
  obtains hs p where "sound di" "entries_ordered ok compare hs" "ys = db_view (di_sequence di) hs" "at (di_iter di) hs p"
    "\<not> di_valid di \<Longrightarrow> q = length ys"
    "di_valid di \<Longrightarrow> di_direction di = kForward \<Longrightarrow>
      p < length hs \<and> shown (di_sequence di) hs p \<and> q = rank (di_sequence di) hs p"
    "di_valid di \<Longrightarrow> di_direction di = kReverse \<Longrightarrow> \<exists>g < length hs. shown (di_sequence di) hs g \<and>
      q = rank (di_sequence di) hs g \<and> saved_at hs di g \<and> just_before (di_sequence di) hs p g"
proof -
  obtain hs p where h: "entries_ordered ok compare hs" "ys = db_view (di_sequence di) hs" "at (di_iter di) hs p"
      "if \<not> di_valid di then q = length ys
       else if di_direction di = kForward then p < length hs \<and> shown (di_sequence di) hs p \<and> q = rank (di_sequence di) hs p
       else \<exists>g < length hs. shown (di_sequence di) hs g \<and> q = rank (di_sequence di) hs g \<and> saved_at hs di g \<and>
         just_before (di_sequence di) hs p g"
    and "sound di"
    using assms unfolding db_stands_def sound_def by blast
  then show thesis using that [of hs p] by simp
qed

lemma shown_user_eq:
  assumes "shown s hs i" "shown s hs j" "user_at hs i = user_at hs j"
  shows "i = j"
  using assms by (cases i j rule: linorder_cases) (auto simp: shown_def)

text \<open>The keys of the view up to, or below, the one of entry \<open>g\<close>.\<close>

lemma shown_upto:
  assumes es: "entries_ordered ok compare hs" and g: "g < length hs" "shown s hs g" and j: "j < length hs" "shown s hs j"
  shows "\<not> less (user_at hs g) (user_at hs j) \<longleftrightarrow> j \<le> g" "less (user_at hs j) (user_at hs g) \<longleftrightarrow> j < g"
proof -
  have oks: "ok (user_at hs g)" "ok (user_at hs j)" using entry_user_ok(1) [OF es] g(1) j(1) by simp_all
  consider "j < g" "less (user_at hs j) (user_at hs g)" | "j = g" | "g < j" "less (user_at hs g) (user_at hs j)"
    using shown_sorted [OF es j(2) g(2) _ g(1)] shown_sorted [OF es g(2) j(2) _ j(1)] by (metis linorder_less_linear)
  then have "(\<not> less (user_at hs g) (user_at hs j) \<longleftrightarrow> j \<le> g) \<and> (less (user_at hs j) (user_at hs g) \<longleftrightarrow> j < g)"
    using asym [OF oks] asym [OF oks(2,1)] irrefl [OF oks(1)] by cases auto
  then show "\<not> less (user_at hs g) (user_at hs j) \<longleftrightarrow> j \<le> g" "less (user_at hs j) (user_at hs g) \<longleftrightarrow> j < g" by simp_all
qed

lemma cut_shown:
  assumes "entries_ordered ok compare hs" "g < length hs" "shown s hs g"
  shows "cut (\<lambda>k. \<not> less (user_at hs g) k) (db_view s hs) (Suc (rank s hs g))"
    "cut (\<lambda>k. less k (user_at hs g)) (db_view s hs) (rank s hs g)"
proof -
  have "cut (\<lambda>k. \<not> less (user_at hs g) k) (db_view s hs) (rank s hs (Suc g))"
    using assms shown_upto(1) [OF assms] by (intro view_cut) (auto simp: less_Suc_eq_le)
  then show "cut (\<lambda>k. \<not> less (user_at hs g) k) (db_view s hs) (Suc (rank s hs g))"
    by (simp add: rank_Suc [OF assms(3)])
  show "cut (\<lambda>k. less k (user_at hs g)) (db_view s hs) (rank s hs g)"
    using assms shown_upto(2) [OF assms] by (intro view_cut) auto
qed

lemma db_entry:
  assumes "db_at di ys q" "q < length ys"
  shows "di_key cls di = Some (fst (ys ! q)) \<and> di_value cls di = Some (snd (ys ! q))"
  using assms(1)
proof (rule db_atE)
  fix hs p
  assume ys: "ys = db_view (di_sequence di) hs" and at: "at (di_iter di) hs p"
    and valid: "\<not> di_valid di \<Longrightarrow> q = length ys"
    and fwd: "di_valid di \<Longrightarrow> di_direction di = kForward \<Longrightarrow> p < length hs \<and> shown (di_sequence di) hs p \<and> q = rank (di_sequence di) hs p"
    and rev: "di_valid di \<Longrightarrow> di_direction di = kReverse \<Longrightarrow> \<exists>g < length hs. shown (di_sequence di) hs g \<and>
      q = rank (di_sequence di) hs g \<and> saved_at hs di g \<and> just_before (di_sequence di) hs p g"
  have v: "di_valid di" using valid assms(2) by auto
  show ?thesis
  proof (cases "di_direction di")
    case kForward
    then have p: "p < length hs" "shown (di_sequence di) hs p" "q = rank (di_sequence di) hs p" using fwd v by auto
    then show ?thesis
      using v kForward at_entry [OF at p(1)] rank_nth [OF p(1,2)] ys
      by (simp add: di_key_def di_value_def pair_at_def user_at_def)
  next
    case kReverse
    then obtain g where "g < length hs" "shown (di_sequence di) hs g" "q = rank (di_sequence di) hs g" "saved_at hs di g"
      using rev v by blast
    then show ?thesis
      using v kReverse rank_nth ys by (simp add: di_key_def di_value_def pair_at_def saved_at_def)
  qed
qed

lemma db_Next:
  assumes "db_at di ys q" "q < length ys"
  shows "\<exists>di'. di_Next cls compare di = Some di' \<and> db_at di' ys (Suc q)"
  using assms(1)
proof (rule db_atE)
  fix hs p
  let ?s = "di_sequence di"
  assume sound: "sound di" and es: "entries_ordered ok compare hs" and ys: "ys = db_view ?s hs" and at: "at (di_iter di) hs p"
    and valid: "\<not> di_valid di \<Longrightarrow> q = length ys"
    and fwd: "di_valid di \<Longrightarrow> di_direction di = kForward \<Longrightarrow> p < length hs \<and> shown ?s hs p \<and> q = rank ?s hs p"
    and rev: "di_valid di \<Longrightarrow> di_direction di = kReverse \<Longrightarrow> \<exists>g < length hs. shown ?s hs g \<and>
      q = rank ?s hs g \<and> saved_at hs di g \<and> just_before ?s hs p g"
  have v: "di_valid di" using valid assms(2) by auto
  text \<open>Both directions start behind everything smaller, with the key of \<open>g\<close> to be skipped.\<close>
  have search: "\<exists>di'. FindNextUserEntry cls compare True d = Some di' \<and> db_at di' ys (Suc q)"
    if d: "sound d" "di_sequence d = ?s" "di_direction d = kForward" "di_saved_key d = user_at hs g" "at (di_iter d) hs p'" "p' < length hs"
      and g: "g < length hs" "shown ?s hs g" "q = rank ?s hs g" "p' \<le> g"
      and before: "\<And>j. j < p' \<Longrightarrow> less (user_at hs j) (user_at hs g) \<or> \<not> sees ?s hs j"
      and unseen: "\<And>j. p' \<le> j \<Longrightarrow> j < g \<Longrightarrow> \<not> sees ?s hs j"
    for d p' g
  proof -
    let ?D = "\<lambda>k. \<not> less (user_at hs g) k"
    have okg: "ok (user_at hs g)" by (rule entry_user_ok(1) [OF es g(1)])
    have above: "user_at hs g = user_at hs j \<or> less (user_at hs g) (user_at hs j)" if "p' \<le> j" "j < length hs" "sees ?s hs j" for j
      using users_sorted [OF es, of g j] unseen [of j] that by (meson not_le)
    have "skips ?s hs p' ?D True (user_at hs g)"
    proof (rule skipsI)
      show "ok (user_at hs g)" by (rule okg)
    next
      fix j assume j: "j < length hs" "p' \<le> j" "sees ?s hs j"
      have "\<not> less (user_at hs g) (user_at hs j)" if i: "i < p'" "sees ?s hs i" "user_at hs i = user_at hs j" for i
        using before [OF i(1)] i(2,3) asym [OF okg entry_user_ok(1) [OF es j(1)]] by auto
      then show "True \<and> \<not> less (user_at hs g) (user_at hs j) \<longleftrightarrow>
          (\<exists>i < p'. sees ?s hs i \<and> user_at hs i = user_at hs j) \<or> \<not> less (user_at hs g) (user_at hs j)" by blast
    next
      fix i j assume ij: "j < length hs" "p' \<le> i" "i \<le> j" "sees ?s hs i" "sees ?s hs j" "\<not> less (user_at hs g) (user_at hs j)"
      then have "user_at hs g = user_at hs j" using above [of j] by simp
      moreover have "user_at hs g = user_at hs i \<or> less (user_at hs g) (user_at hs i)" using above [of i] ij by simp
      moreover have "user_at hs i = user_at hs j \<or> less (user_at hs i) (user_at hs j)" using users_sorted [OF es, of i j] ij by simp
      ultimately show "user_at hs i = user_at hs j"
        using asym [of "user_at hs i" "user_at hs j"] entry_user_ok(1) [OF es] ij(1,3) by (metis le_less_trans)
    qed
    moreover have "cut ?D (db_view ?s hs) (Suc q)" using cut_shown(1) [OF es g(1,2)] g(3) by simp
    moreover have "?D (user_at hs j) \<longleftrightarrow> j < p' \<or> ?D (user_at hs j)" if "j < length hs" "shown ?s hs j" for j
      using shown_upto(1) [OF es g(1,2) that] g(4) by auto
    ultimately show ?thesis
      using FindNextUserEntry_db [of hs d p' ?D True ?D "Suc q"] es d ys by simp
  qed
  show ?thesis
  proof (cases "di_direction di")
    case kForward
    then have p: "p < length hs" "shown ?s hs p" "q = rank ?s hs p" using fwd v by auto
    let ?d = "di\<lparr>di_saved_key := user_at hs p\<rparr>"
    have run: "di_Next cls compare di = FindNextUserEntry cls compare True ?d"
      using v kForward at_entry(2) [OF at p(1)] by (simp add: di_Next_def user_at_def del: bind_Some_iff)
    have "less (user_at hs j) (user_at hs p) \<or> \<not> sees ?s hs j" if "j < p" for j
      using users_sorted [OF es, of j p] that p(1,2) by (auto simp: shown_def)
    then show ?thesis
      unfolding run using sound kForward at p by (intro search [of ?d p p]) (simp_all add: sound_def)
  next
    case kReverse
    then obtain g where g: "g < length hs" "shown ?s hs g" "q = rank ?s hs g" "saved_at hs di g" "just_before ?s hs p g"
      using rev v by blast
    let ?p = "if p = length hs then 0 else Suc p"
    obtain it where it: "(if \<not> it_Valid cls (di_iter di) then it_SeekToFirst cls (di_iter di) else it_Next cls (di_iter di)) = Some it"
        "at it hs ?p"
    proof (cases "p = length hs")
      case True
      then have "\<not> it_Valid cls (di_iter di)" using at at_invalid by simp
      then show thesis using inner.SeekToFirst [OF at] that True by auto
    next
      case False
      then have plen: "p < length hs" using g(1,5) by (auto simp: just_before_def)
      show thesis by (rule at_Next [OF at plen]) (use that at_entry(1) [OF at plen] False in auto)
    qed
    have pg: "?p \<le> g" using g(1,5) by (auto simp: just_before_def)
    then have valid': "it_Valid cls it" using at_entry(1) [OF it(2)] g(1) by simp
    let ?d = "di\<lparr>di_direction := kForward, di_iter := it\<rparr>"
    have run: "di_Next cls compare di = FindNextUserEntry cls compare True ?d"
      unfolding di_Next_def using v kReverse it(1) valid' by (simp add: Let_def del: bind_Some_iff split del: if_split)
    have "less (user_at hs j) (user_at hs g) \<or> \<not> sees ?s hs j" if j: "j < ?p" for j
      using users_sorted [OF es, of j g] j pg g(1,2) by (auto simp: shown_def split: if_splits)
    moreover have "\<not> sees ?s hs j" if "?p \<le> j" "j < g" for j
      using g(5) that by (auto simp: just_before_def split: if_splits)
    ultimately show ?thesis
      unfolding run using sound it(2) g pg by (intro search [of ?d g ?p]) (simp_all add: sound_def saved_at_def)
  qed
qed

lemma db_Prev:
  assumes "db_at di ys q" "q < length ys"
  shows "\<exists>di'. di_Prev cls compare di = Some di' \<and> db_at di' ys (last_before q ys)"
  using assms(1)
proof (rule db_atE)
  fix hs p
  let ?s = "di_sequence di"
  assume sound: "sound di" and es: "entries_ordered ok compare hs" and ys: "ys = db_view ?s hs" and at: "at (di_iter di) hs p"
    and valid: "\<not> di_valid di \<Longrightarrow> q = length ys"
    and fwd: "di_valid di \<Longrightarrow> di_direction di = kForward \<Longrightarrow> p < length hs \<and> shown ?s hs p \<and> q = rank ?s hs p"
    and rev: "di_valid di \<Longrightarrow> di_direction di = kReverse \<Longrightarrow> \<exists>g < length hs. shown ?s hs g \<and>
      q = rank ?s hs g \<and> saved_at hs di g \<and> just_before ?s hs p g"
  have v: "di_valid di" using valid assms(2) by auto
  have search: "\<exists>di'. FindPrevUserEntry cls compare d = Some di' \<and> db_at di' ys (last_before q ys)"
    if d: "sound d" "di_sequence d = ?s" "di_direction d = kReverse" "at (di_iter d) hs p'"
      and g: "g < length hs" "shown ?s hs g" "q = rank ?s hs g"
      and low: "\<And>j. j < length hs \<Longrightarrow> shown ?s hs j \<Longrightarrow> j < g \<longleftrightarrow> p' < length hs \<and> j \<le> p'"
    for d p' g
  proof -
    have "cut (\<lambda>k. less k (user_at hs g)) (db_view ?s hs) q" using cut_shown(2) [OF es g(1,2)] g(3) by simp
    moreover have "less (user_at hs j) (user_at hs g) \<longleftrightarrow> p' < length hs \<and> j \<le> p'" if "j < length hs" "shown ?s hs j" for j
      using shown_upto(2) [OF es g(1,2) that] low [OF that] by simp
    ultimately show ?thesis
      using FindPrevUserEntry_db [of hs d p' "\<lambda>k. less k (user_at hs g)" q] es d ys by simp
  qed
  show ?thesis
  proof (cases "di_direction di")
    case kReverse
    then obtain g where g: "g < length hs" "shown ?s hs g" "q = rank ?s hs g" "saved_at hs di g" "just_before ?s hs p g"
      using rev v by blast
    have run: "di_Prev cls compare di = FindPrevUserEntry cls compare di"
      using v kReverse by (simp add: di_Prev_def)
    have "j < g \<longleftrightarrow> p < length hs \<and> j \<le> p" if "j < length hs" "shown ?s hs j" for j
      using g(1,5) that inner.position [OF at] unfolding just_before_def shown_def
      by (metis le_neq_implies_less length_map less_le_trans nat_less_le not_le order_le_less_trans)
    then show ?thesis unfolding run using sound kReverse at g by (intro search [of di p g]) simp_all
  next
    case kForward
    then have p: "p < length hs" "shown ?s hs p" "q = rank ?s hs p" using fwd v by auto
    let ?d = "di\<lparr>di_saved_key := user_at hs p\<rparr>"
    have run: "di_Prev cls compare di = Option.bind (back_loop cls compare ?d)
        (\<lambda>(found, di). if \<not> found then Some di else FindPrevUserEntry cls compare (di\<lparr>di_direction := kReverse\<rparr>))"
      using v kForward at_entry(1,2) [OF at p(1)] by (simp add: di_Prev_def user_at_def del: bind_Some_iff)
    have same: "\<not> shown ?s hs j" if "j < p" "user_at hs j = user_at hs p" for j
      using that p(2) by (auto simp: shown_def)
    have "at (di_iter ?d) hs p" "di_saved_key ?d = user_at hs p" "\<forall>j. p \<le> j \<and> j \<le> p \<longrightarrow> user_at hs j = user_at hs p"
      using at by auto
    from back_loop_at [OF es p(1) this(1) order_refl this(2,3)] consider it where "back_loop cls compare ?d = Some (False, ?d\<lparr>di_iter := it, di_valid := False, di_saved_key := [], di_saved_value := []\<rparr>)"
        "at it hs (length hs)" "\<forall>j \<le> p. user_at hs j = user_at hs p"
      | it p' where "back_loop cls compare ?d = Some (True, ?d\<lparr>di_iter := it\<rparr>)" "at it hs p'" "p' < p"
        "less (user_at hs p') (user_at hs p)" "\<forall>j. p' < j \<and> j \<le> p \<longrightarrow> user_at hs j = user_at hs p"
      by blast
    then show ?thesis
    proof cases
      case (1 it)
      let ?e = "?d\<lparr>di_iter := it, di_valid := False, di_saved_key := [], di_saved_value := []\<rparr>"
      have none: "\<not> shown ?s hs j" if "j < p" for j using same [OF that] 1(3) less_imp_le [OF that] by blast
      then have "filter (shown ?s hs) [0..<p] = []" by (simp add: filter_empty_conv)
      then have "last_before q ys = length ys" using p(3) by (simp add: rank_def last_before_def)
      moreover have "db_at ?e ys (length ys)"
        using sound es ys 1(2) unfolding db_stands_def sound_def by auto
      ultimately show ?thesis using run 1(1) by simp
    next
      case (2 it p')
      have "j < p \<longleftrightarrow> p' < length hs \<and> j \<le> p'" if "j < length hs" "shown ?s hs j" for j
        using 2(3,5) p(1) same [of j] that(2) by (metis less_le_trans nat_less_le not_le order_le_less_trans)
      then have "\<exists>di'. FindPrevUserEntry cls compare (?d\<lparr>di_iter := it, di_direction := kReverse\<rparr>) = Some di' \<and> db_at di' ys (last_before q ys)"
        using sound 2(2) p by (intro search [of _ p' p]) (simp_all add: sound_def)
      then show ?thesis using run 2(1) by simp
    qed
  qed
qed

end

context db_entries
begin

lemma skips_none:
  assumes "entries_ordered ok compare hs" "\<And>i j. i < p \<Longrightarrow> p \<le> j \<Longrightarrow> j < length hs \<Longrightarrow> sees s hs i \<Longrightarrow> sees s hs j \<Longrightarrow>
    user_at hs i \<noteq> user_at hs j"
  shows "skips s hs p (\<lambda>_. False) False k"
  by (rule skipsI) (use assms(2) in auto)

lemma db_search:
  assumes es: "entries_ordered ok compare hs" and sound: "sound di" and dir: "di_direction di = kForward"
    and at: "at (di_iter di) hs p"
    and differ: "\<And>i j. i < p \<Longrightarrow> p \<le> j \<Longrightarrow> j < length hs \<Longrightarrow> sees (di_sequence di) hs i \<Longrightarrow> sees (di_sequence di) hs j \<Longrightarrow>
      user_at hs i \<noteq> user_at hs j"
    and cut: "cut P (db_view (di_sequence di) hs) q"
    and P: "\<And>j. j < length hs \<Longrightarrow> shown (di_sequence di) hs j \<Longrightarrow> P (user_at hs j) \<longleftrightarrow> j < p"
  shows "\<exists>di'. (if it_Valid cls (di_iter di) then FindNextUserEntry cls compare False di else Some (di\<lparr>di_valid := False\<rparr>)) = Some di' \<and>
    db_at di' (db_view (di_sequence di) hs) q"
proof (cases "p < length hs")
  case True
  then show ?thesis
    using FindNextUserEntry_db [OF es sound dir at True skips_none [OF es differ] cut] P at_entry(1) [OF at True] by simp
next
  case False
  then have p: "p = length hs" using inner.position [OF at] by simp
  have "cut P (db_view (di_sequence di) hs) (rank (di_sequence di) hs (length hs))"
    using P p by (intro view_cut) auto
  then have "q = length (db_view (di_sequence di) hs)" using cut_unique [OF cut] by simp
  then have "db_at (di\<lparr>di_valid := False\<rparr>) (db_view (di_sequence di) hs) q"
    using es sound at unfolding db_stands_def sound_def by auto
  then show ?thesis using at_invalid at p by simp
qed

lemma db_Seek:
  assumes "db_at di ys q" "db_key_ok ok target"
  shows "\<exists>di'. di_Seek cls compare target di = Some di' \<and> db_at di' ys (lower_bound compare target ys)"
  using assms(1)
proof (rule db_atE)
  fix hs p
  let ?s = "di_sequence di" and ?key = "target @ EncodeFixed64 (push_bit 8 (di_sequence di) OR 1)"
  assume sound: "sound di" and es: "entries_ordered ok compare hs" and ys: "ys = db_view ?s hs" and at: "at (di_iter di) hs p"
  have t: "ok target" "length target + 8 < 2 ^ 32" using assms(2) by (simp_all add: db_key_ok_def)
  have smax: "?s \<le> kMaxSequenceNumber" using sound by (simp add: sound_def)
  then have append: "AppendInternalKey [] \<lparr>pik_user_key = target, pik_sequence = ?s, pik_type = kValueTypeForSeek\<rparr> = Some ?key"
    by (simp add: AppendInternalKey_def PackSequenceAndType_def kValueTypeForSeek_def PutFixed64_def)
  let ?xs = "map hist_entry hs" and ?n = "lower_bound (Internal_Compare compare) ?key (map hist_entry hs)"
  have okey: "internal_ok ok ?key \<and> slice_ok ?key" using t by (simp add: slice_ok_def)
  obtain it where it: "it_Seek cls ?key (di_iter di) = Some it" "at it hs ?n" using inner.Seek [OF at okey] by blast
  let ?d = "di\<lparr>di_direction := kForward, di_saved_value := [], di_saved_key := ?key, di_iter := it\<rparr>"
  have run: "di_Seek cls compare target di =
      (if it_Valid cls (di_iter ?d) then FindNextUserEntry cls compare False ?d else Some (?d\<lparr>di_valid := False\<rparr>))"
    using append it(1) by (simp add: di_Seek_def Let_def)
  have ordered: "ordered (\<lambda>k. internal_ok ok k \<and> slice_ok k) (Internal_Compare compare) ?xs"
    using es by (simp add: entries_ordered_def)
  text \<open>Among the entries that the snapshot sees, exactly those in front have smaller user keys.\<close>
  have front: "j < ?n \<longleftrightarrow> less (user_at hs j) target" if j: "j < length hs" "sees ?s hs j" for j
  proof -
    have "j < ?n \<longleftrightarrow> below (Internal_Compare compare) (fst (hist_entry (hs ! j))) ?key"
      using lower_bound_below [of j "Internal_Compare compare" ?key ?xs] mem.above_bound [OF ordered okey, of j] j(1)
      by (cases "j < ?n") auto
    moreover have "fst (hs ! j) \<le> kMaxSequenceNumber" using es j(1) by (simp add: entries_ordered_def)
    ultimately show ?thesis
      using packed_seek [OF _ smax] j(2) by (auto simp: hist_entry_def below_Internal sees_def user_at_def not_less [symmetric])
  qed
  have seq: "di_sequence ?d = ?s" by simp
  have "\<exists>di'. (if it_Valid cls (di_iter ?d) then FindNextUserEntry cls compare False ?d else Some (?d\<lparr>di_valid := False\<rparr>)) = Some di' \<and>
      db_at di' (db_view (di_sequence ?d) hs) (lower_bound compare target (db_view (di_sequence ?d) hs))"
  proof (rule db_search [OF es, where p = ?n and P = "\<lambda>k. less k target"])
    show "sound ?d" using sound by (simp add: sound_def)
    show "at (di_iter ?d) hs ?n" using it(2) by simp
    show "cut (\<lambda>k. less k target) (db_view (di_sequence ?d) hs) (lower_bound compare target (db_view (di_sequence ?d) hs))"
    proof -
      have "ordered ok compare (db_view ?s hs)" using db_view_ordered [OF es, of ?s] by (auto simp: ordered_def db_key_ok_def)
      then show ?thesis using cut_lower t(1) by simp
    qed
  next
    fix i j assume ij: "i < ?n" "?n \<le> j" "j < length hs" "sees (di_sequence ?d) hs i" "sees (di_sequence ?d) hs j"
    then have "less (user_at hs i) target" "\<not> less (user_at hs j) target" using front [of i] front [of j] by auto
    then show "user_at hs i \<noteq> user_at hs j" by auto
  next
    fix j assume "j < length hs" "shown (di_sequence ?d) hs j"
    then show "less (user_at hs j) target \<longleftrightarrow> j < ?n" using front [of j] by (simp add: shown_def)
  qed simp
  then show ?thesis using run ys by simp
qed

lemma db_SeekToFirst:
  assumes "db_at di ys q"
  shows "\<exists>di'. di_SeekToFirst cls compare di = Some di' \<and> db_at di' ys 0"
  using assms
proof (rule db_atE)
  fix hs p
  let ?s = "di_sequence di"
  assume sound: "sound di" and es: "entries_ordered ok compare hs" and ys: "ys = db_view ?s hs" and at: "at (di_iter di) hs p"
  obtain it where it: "it_SeekToFirst cls (di_iter di) = Some it" "at it hs 0" using inner.SeekToFirst [OF at] by blast
  let ?d = "di\<lparr>di_direction := kForward, di_saved_value := [], di_iter := it\<rparr>"
  have run: "di_SeekToFirst cls compare di =
      (if it_Valid cls (di_iter ?d) then FindNextUserEntry cls compare False ?d else Some (?d\<lparr>di_valid := False\<rparr>))"
    using it(1) by (simp add: di_SeekToFirst_def Let_def)
  have "\<exists>di'. (if it_Valid cls (di_iter ?d) then FindNextUserEntry cls compare False ?d else Some (?d\<lparr>di_valid := False\<rparr>)) = Some di' \<and>
      db_at di' (db_view (di_sequence ?d) hs) 0"
    by (rule db_search [OF es, where p = 0 and P = "\<lambda>_. False"]) (use sound it(2) in \<open>simp_all add: sound_def\<close>)
  then show ?thesis using run ys by simp
qed

lemma db_SeekToLast:
  assumes "db_at di ys q"
  shows "\<exists>di'. di_SeekToLast cls compare di = Some di' \<and> db_at di' ys (length ys - 1)"
  using assms
proof (rule db_atE)
  fix hs p
  let ?s = "di_sequence di"
  assume sound: "sound di" and es: "entries_ordered ok compare hs" and ys: "ys = db_view ?s hs" and at: "at (di_iter di) hs p"
  obtain it where it: "it_SeekToLast cls (di_iter di) = Some it" "at it hs (length hs - 1)" using inner.SeekToLast [OF at] by auto
  let ?d = "di\<lparr>di_direction := kReverse, di_saved_value := [], di_iter := it\<rparr>"
  have last: "last_before (length ys) ys = length ys - 1" by (cases "ys = []") (simp_all add: last_before_def)
  have "\<exists>di'. FindPrevUserEntry cls compare ?d = Some di' \<and>
      db_at di' (db_view (di_sequence ?d) hs) (last_before (length ys) (db_view (di_sequence ?d) hs))"
    by (rule FindPrevUserEntry_db [OF es, where p = "length hs - 1" and P = "\<lambda>_. True"])
      (use sound it(2) ys in \<open>auto simp: sound_def\<close>)
  then show ?thesis using it(1) ys last by (simp add: di_SeekToLast_def)
qed

lemma DBIter_stands:
  assumes "entries_ordered ok compare hs" "s \<le> kMaxSequenceNumber" "at it hs p"
  obtains di where "DBIter it s seed = Some di" "db_at di (db_view s hs) (length (db_view s hs))"
proof -
  let ?r = "Random_Next (Random_new seed)"
  let ?di = "\<lparr>di_iter = it, di_sequence = s, di_status = OK, di_saved_key = [], di_saved_value = [],
    di_direction = kForward, di_valid = False, di_rnd = ?r, di_bytes_counter = uint (?r mod 2097152), di_samples = []\<rparr>"
  have "DBIter it s seed = Some ?di" by (simp add: DBIter_def RandomPeriod_def Uniform_period)
  moreover have "db_at ?di (db_view s hs) (length (db_view s hs))"
    using assms Next_multiplies(2) [OF seed_ok_new] unfolding db_stands_def by auto
  ultimately show thesis using that by blast
qed

end

sublocale db_entries \<subseteq> db: key_order "db_key_ok ok" compare
proof (unfold_locales, goal_cases)
  case (1 a b)
  then show ?case using total by (simp add: db_key_ok_def)
next
  case (2 a b)
  then show ?case using zero by (simp add: db_key_ok_def)
next
  case (3 a b)
  then show ?case using flip by (simp add: db_key_ok_def)
next
  case (4 a b c)
  then show ?case using trans [of a b c] by (simp add: db_key_ok_def)
qed

sublocale db_entries \<subseteq> db: iterator "db_key_ok ok" compare "db_stands ok compare stands" di_valid "di_key cls" "di_value cls"
  "di_Next cls compare" "di_Prev cls compare" "di_Seek cls compare" "di_SeekToFirst cls compare" "di_SeekToLast cls compare"
proof (unfold_locales, goal_cases)
  case (1 di ys q)
  then show ?case
  proof (rule db_atE)
    fix hs p assume es: "entries_ordered ok compare hs" and ys: "ys = db_view (di_sequence di) hs"
      and q: "\<not> di_valid di \<Longrightarrow> q = length ys"
        "di_valid di \<Longrightarrow> di_direction di = kForward \<Longrightarrow> p < length hs \<and> shown (di_sequence di) hs p \<and> q = rank (di_sequence di) hs p"
        "di_valid di \<Longrightarrow> di_direction di = kReverse \<Longrightarrow> \<exists>g < length hs. shown (di_sequence di) hs g \<and>
          q = rank (di_sequence di) hs g \<and> saved_at hs di g \<and> just_before (di_sequence di) hs p g"
    have "q \<le> length ys" using q rank_nth(1) ys by (cases "di_valid di"; cases "di_direction di") (auto intro: less_imp_le)
    then show ?thesis using db_view_ordered [OF es] ys by simp
  qed
next
  case (2 di ys q)
  then show ?case
  proof (rule db_atE)
    fix hs p assume ys: "ys = db_view (di_sequence di) hs"
      and q: "\<not> di_valid di \<Longrightarrow> q = length ys"
        "di_valid di \<Longrightarrow> di_direction di = kForward \<Longrightarrow> p < length hs \<and> shown (di_sequence di) hs p \<and> q = rank (di_sequence di) hs p"
        "di_valid di \<Longrightarrow> di_direction di = kReverse \<Longrightarrow> \<exists>g < length hs. shown (di_sequence di) hs g \<and>
          q = rank (di_sequence di) hs g \<and> saved_at hs di g \<and> just_before (di_sequence di) hs p g"
    show ?thesis using q rank_nth(1) ys by (cases "di_valid di"; cases "di_direction di") auto
  qed
next
  case (3 di ys q)
  then show ?case by (rule db_entry)
next
  case (4 di ys q)
  then show ?case by (rule db_Next)
next
  case (5 di ys q)
  then show ?case using db_Prev unfolding last_before_def by blast
next
  case (6 di ys q target)
  then show ?case by (rule db_Seek)
next
  case (7 di ys q)
  then show ?case by (rule db_SeekToFirst)
next
  case (8 di ys q)
  then show ?case by (rule db_SeekToLast)
qed

context db_entries
begin

lemma db_class: "iter_class (db_key_ok ok) compare (db_stands ok compare stands) (DBIter_class cls compare)"
  unfolding iter_class_def DBIter_class_def iter_class.simps by (rule db.iterator_axioms)

end

end
