(* ===== verification/Ldb_Table_Format.thy ===== *)
theory Ldb_Table_Format
  imports Ldb_Block_Build
begin

text \<open>
  What a table file consists of: \<open>leveldb-library/table/format.cc\<close> and \<open>format.h\<close>.  A block
  handle is a place in the file, the footer holds the handles of two blocks, and every block is
  followed by a type and a checksum that \<open>ReadBlock\<close> checks.  A failed assertion and a read
  beyond a buffer make the result undefined.
\<close>

section \<open>Block handles and the footer\<close>

record block_handle =
  bh_offset :: u64
  bh_size :: u64

definition BlockHandle :: block_handle where
  "BlockHandle = \<lparr>bh_offset = NOT 0, bh_size = NOT 0\<rparr>"

definition kMaxEncodedLength :: nat where [c_defs]: "kMaxEncodedLength = 10 + 10"
definition kEncodedLength :: nat where [c_defs]: "kEncodedLength = 2 * kMaxEncodedLength + 8"
definition kTableMagicNumber :: u64 where [c_defs]: "kTableMagicNumber = 0xdb4775248b80fb57"
definition kBlockTrailerSize :: nat where [c_defs]: "kBlockTrailerSize = 5"

definition BlockHandle_EncodeTo :: "block_handle \<Rightarrow> byte list \<Rightarrow> byte list option" where
  "BlockHandle_EncodeTo h dst =
     (if bh_offset h \<noteq> NOT 0 \<and> bh_size h \<noteq> NOT 0
      then Some (PutVarint64 (PutVarint64 dst (bh_offset h)) (bh_size h)) else None)"

text \<open>The fields that were read are set even if a later one is bad; so is the input.\<close>

definition BlockHandle_DecodeFrom :: "byte list \<Rightarrow> block_handle \<Rightarrow> status \<times> block_handle \<times> byte list" where
  "BlockHandle_DecodeFrom input h =
     (let bad = Corruption (ascii ''bad block handle'')
      in case GetVarint64 input of
           None \<Rightarrow> (bad, h, input)
         | Some (off, input) \<Rightarrow>
             (let h = h\<lparr>bh_offset := off\<rparr>
              in case GetVarint64 input of
                   None \<Rightarrow> (bad, h, input)
                 | Some (sz, input) \<Rightarrow> (OK, h\<lparr>bh_size := sz\<rparr>, input)))"

record footer =
  ft_metaindex_handle :: block_handle
  ft_index_handle :: block_handle

definition new_Footer :: footer where
  "new_Footer = \<lparr>ft_metaindex_handle = BlockHandle, ft_index_handle = BlockHandle\<rparr>"

definition resize :: "nat \<Rightarrow> byte list \<Rightarrow> byte list" where
  "resize n s = take n s @ replicate (n - length s) 0"

definition Footer_EncodeTo :: "footer \<Rightarrow> byte list \<Rightarrow> byte list option" where
  "Footer_EncodeTo f dst = do {
     let original_size = length dst;
     dst \<leftarrow> BlockHandle_EncodeTo (ft_metaindex_handle f) dst;
     dst \<leftarrow> BlockHandle_EncodeTo (ft_index_handle f) dst;
     let dst = resize (2 * kMaxEncodedLength) dst;
     let dst = PutFixed32 dst (ucast (kTableMagicNumber AND 0xffffffff));
     let dst = PutFixed32 dst (ucast (drop_bit 32 kTableMagicNumber));
     if length dst = original_size + kEncodedLength then Some dst else None
   }"

text \<open>The magic number is read 40 bytes into the input, however long that is.\<close>

definition Footer_DecodeFrom :: "byte list \<Rightarrow> footer \<Rightarrow> (status \<times> footer \<times> byte list) option" where
  "Footer_DecodeFrom input f = do {
     let magic_ptr = kEncodedLength - 8;
     magic_lo \<leftarrow> DecodeFixed32 (drop magic_ptr input);
     magic_hi \<leftarrow> DecodeFixed32 (drop (magic_ptr + 4) input);
     let magic = (push_bit 32 (ucast magic_hi) OR ucast magic_lo :: u64);
     if magic \<noteq> kTableMagicNumber
     then Some (Corruption (ascii ''not an sstable (bad magic number)''), f, input)
     else do {
       let (result, h, rest) = BlockHandle_DecodeFrom input (ft_metaindex_handle f);
       let f = f\<lparr>ft_metaindex_handle := h\<rparr>;
       if \<not> status_ok result then Some (result, f, rest)
       else do {
         let (result, h, rest) = BlockHandle_DecodeFrom rest (ft_index_handle f);
         let f = f\<lparr>ft_index_handle := h\<rparr>;
         Some (result, f, if status_ok result then drop (magic_ptr + 8) input else rest)
       }
     }
   }"

section \<open>Reading a block\<close>

datatype CompressionType = kNoCompression | kSnappyCompression

primrec type_char :: "CompressionType \<Rightarrow> byte" where
  "type_char kNoCompression = 0"
| "type_char kSnappyCompression = 1"

text \<open>The port is compiled without Snappy: its functions return false.\<close>

definition Snappy_Compress :: "byte list \<Rightarrow> byte list option" where
  "Snappy_Compress input = None"

definition Snappy_GetUncompressedLength :: "byte list \<Rightarrow> size option" where
  "Snappy_GetUncompressedLength input = None"

definition Snappy_Uncompress :: "byte list \<Rightarrow> byte list option" where
  "Snappy_Uncompress input = None"

record block_contents =
  bc_data :: "byte list"
  bc_cachable :: bool
  bc_heap_allocated :: bool

text \<open>
  \<open>RandomAccessFile::Read\<close>: for an offset and a number of bytes, the status, what was read, and
  whether it is in the buffer that was passed.
\<close>

type_synonym random_file = "u64 \<Rightarrow> size \<Rightarrow> status \<times> byte list \<times> bool"

definition ReadBlock :: "random_file \<Rightarrow> bool \<Rightarrow> block_handle \<Rightarrow> (status \<times> block_contents) option" where
  "ReadBlock file verify_checksums handle = do {
     let result = \<lparr>bc_data = [], bc_cachable = False, bc_heap_allocated = False\<rparr>;
     let n = bh_size handle;
     let (s, data, in_buf) = file (bh_offset handle) (n + of_nat kBlockTrailerSize);
     if \<not> status_ok s then Some (s, result)
     else if length data \<noteq> unat (n + of_nat kBlockTrailerSize)
     then Some (Corruption (ascii ''truncated block read''), result)
     else if length data < unat n + kBlockTrailerSize then None
     else do {
       let n = unat n;
       mismatch \<leftarrow> (if verify_checksums then do {
           stored \<leftarrow> DecodeFixed32 (drop (n + 1) data);
           actual \<leftarrow> Value 0 (take (n + 1) data);
           Some (actual \<noteq> Unmask stored)
         } else Some False);
       if mismatch then Some (Corruption (ascii ''block checksum mismatch''), result)
       else if data ! n = type_char kNoCompression
       then Some (OK, result\<lparr>bc_data := take n data, bc_heap_allocated := in_buf, bc_cachable := in_buf\<rparr>)
       else if data ! n = type_char kSnappyCompression
       then (case Snappy_GetUncompressedLength (take n data) of
               None \<Rightarrow> Some (Corruption (ascii ''corrupted compressed block contents''), result)
             | Some _ \<Rightarrow> (case Snappy_Uncompress (take n data) of
                 None \<Rightarrow> Some (Corruption (ascii ''corrupted compressed block contents''), result)
               | Some ubuf \<Rightarrow> Some (OK, result\<lparr>bc_data := ubuf, bc_heap_allocated := True, bc_cachable := True\<rparr>)))
       else Some (Corruption (ascii ''bad block type''), result)
     }
   }"

section \<open>What they hold\<close>

definition handle_ok :: "block_handle \<Rightarrow> bool" where
  "handle_ok h \<longleftrightarrow> bh_offset h \<noteq> NOT 0 \<and> bh_size h \<noteq> NOT 0"

definition handle_bytes :: "block_handle \<Rightarrow> byte list" where
  "handle_bytes h = EncodeVarint64 (bh_offset h) @ EncodeVarint64 (bh_size h)"

lemma EncodeTo_handle: "handle_ok h \<Longrightarrow> BlockHandle_EncodeTo h dst = Some (dst @ handle_bytes h)"
  by (simp add: BlockHandle_EncodeTo_def handle_ok_def handle_bytes_def PutVarint64_def)

lemma DecodeFrom_handle: "BlockHandle_DecodeFrom (handle_bytes h @ rest) h' = (OK, h, rest)"
  by (simp add: BlockHandle_DecodeFrom_def handle_bytes_def varint64_codec.get_put Let_def)

text \<open>What is left of a handle that is read.\<close>

definition get_handle :: "byte list \<Rightarrow> (block_handle \<times> byte list) option" where
  "get_handle input = (case BlockHandle_DecodeFrom input BlockHandle of (s, h, rest) \<Rightarrow> if status_ok s then Some (h, rest) else None)"

interpretation handle_codec: codec handle_bytes get_handle "\<lambda>_. True"
  by unfold_locales (simp add: get_handle_def DecodeFrom_handle status_ok_def)

lemma length_EncodeVarint64: "length (EncodeVarint64 v) \<le> 10"
  using length_varint_bytes [of v] by (simp add: EncodeVarint64_bytes)

lemma length_handle_bytes: "length (handle_bytes h) \<le> 20"
  using length_EncodeVarint64 [of "bh_offset h"] length_EncodeVarint64 [of "bh_size h"] by (simp add: handle_bytes_def)

definition footer_bytes :: "footer \<Rightarrow> byte list" where
  "footer_bytes f = (let hs = handle_bytes (ft_metaindex_handle f) @ handle_bytes (ft_index_handle f)
     in hs @ replicate (40 - length hs) 0 @ EncodeFixed32 0x8b80fb57 @ EncodeFixed32 0xdb477524)"

lemma length_fixed32_bytes [simp]: "length (EncodeFixed32 v) = 4"
  by (simp add: EncodeFixed32_def)

lemma length_footer_bytes [simp]: "length (footer_bytes f) = 48"
  using length_handle_bytes [of "ft_metaindex_handle f"] length_handle_bytes [of "ft_index_handle f"]
  by (simp add: footer_bytes_def Let_def)

lemma magic_parts:
  "ucast (kTableMagicNumber AND 0xffffffff) = (0x8b80fb57 :: u32)" "ucast (drop_bit 32 kTableMagicNumber) = (0xdb477524 :: u32)"
  "push_bit 32 (ucast (0xdb477524 :: u32)) OR ucast (0x8b80fb57 :: u32) = kTableMagicNumber"
  by (simp_all add: kTableMagicNumber_def)

lemma EncodeTo_footer:
  assumes "handle_ok (ft_metaindex_handle f)" "handle_ok (ft_index_handle f)"
  shows "Footer_EncodeTo f [] = Some (footer_bytes f)"
proof -
  let ?hs = "handle_bytes (ft_metaindex_handle f) @ handle_bytes (ft_index_handle f)"
  have "length ?hs \<le> 40"
    using length_handle_bytes [of "ft_metaindex_handle f"] length_handle_bytes [of "ft_index_handle f"] by simp
  then have "resize (2 * kMaxEncodedLength) ?hs = ?hs @ replicate (40 - length ?hs) 0"
    by (simp add: resize_def kMaxEncodedLength_def)
  then have "PutFixed32 (PutFixed32 (resize (2 * kMaxEncodedLength) ?hs) 0x8b80fb57) 0xdb477524 = footer_bytes f"
    by (simp add: PutFixed32_def footer_bytes_def Let_def)
  then show ?thesis
    using assms by (simp add: Footer_EncodeTo_def EncodeTo_handle magic_parts Let_def kEncodedLength_def kMaxEncodedLength_def
        del: bind_Some_iff)
qed

lemma DecodeFrom_footer: "Footer_DecodeFrom (footer_bytes f @ rest) f' = Some (OK, f, rest)"
proof -
  let ?hs = "handle_bytes (ft_metaindex_handle f) @ handle_bytes (ft_index_handle f)"
  let ?pad = "replicate (40 - length ?hs) 0 :: byte list"
  have len: "length (?hs @ ?pad) = 40"
    using length_handle_bytes [of "ft_metaindex_handle f"] length_handle_bytes [of "ft_index_handle f"] by simp
  have bytes: "footer_bytes f = (?hs @ ?pad) @ EncodeFixed32 0x8b80fb57 @ EncodeFixed32 0xdb477524"
    by (simp add: footer_bytes_def Let_def)
  have "drop (length (?hs @ ?pad)) (footer_bytes f @ rest) = EncodeFixed32 0x8b80fb57 @ EncodeFixed32 0xdb477524 @ rest"
    unfolding bytes append_assoc [of "?hs @ ?pad"] by (rule append_eq_conv_conj [THEN iffD1, THEN conjunct2, symmetric]) simp
  then have d: "drop 40 (footer_bytes f @ rest) = EncodeFixed32 0x8b80fb57 @ EncodeFixed32 0xdb477524 @ rest"
    by (simp only: len)
  then have "drop 4 (drop 40 (footer_bytes f @ rest)) = EncodeFixed32 0xdb477524 @ rest" by simp
  then have d2: "drop 44 (footer_bytes f @ rest) = EncodeFixed32 0xdb477524 @ rest" by simp
  have h: "footer_bytes f @ rest = handle_bytes (ft_metaindex_handle f) @ handle_bytes (ft_index_handle f) @
      ?pad @ EncodeFixed32 0x8b80fb57 @ EncodeFixed32 0xdb477524 @ rest"
    by (simp add: bytes)
  have "BlockHandle_DecodeFrom (footer_bytes f @ rest) g = (OK, ft_metaindex_handle f,
      handle_bytes (ft_index_handle f) @ ?pad @ EncodeFixed32 0x8b80fb57 @ EncodeFixed32 0xdb477524 @ rest)" for g
    unfolding h by (rule DecodeFrom_handle)
  moreover have rest: "drop 48 (footer_bytes f @ rest) = rest" by simp
  moreover have magic: "kTableMagicNumber = 15800726617472432983" by (simp add: kTableMagicNumber_def)
  ultimately show ?thesis
    by (simp add: Footer_DecodeFrom_def kEncodedLength_def kMaxEncodedLength_def d d2 DecodeFixed32_append magic_parts
        DecodeFrom_handle status_ok_def Let_def rest magic del: bind_Some_iff drop_append)
qed

text \<open>A block in a file: the data and the trailer are at the offset of the handle.\<close>

definition block_trailer :: "byte list \<Rightarrow> CompressionType \<Rightarrow> byte list" where
  "block_trailer data t = type_char t # EncodeFixed32 (Mask (crc32c 0 (data @ [type_char t])))"

lemma length_block_trailer [simp]: "length (block_trailer data t) = 5"
  by (simp add: block_trailer_def)

definition stored_at :: "byte list \<Rightarrow> block_handle \<Rightarrow> byte list \<Rightarrow> bool" where
  "stored_at cs h data \<longleftrightarrow> unat (bh_size h) = length data \<and>
     (\<exists>xs ys. cs = xs @ data @ block_trailer data kNoCompression @ ys \<and> unat (bh_offset h) = length xs)"

lemma stored_at_append: "stored_at cs h data \<Longrightarrow> stored_at (cs @ zs) h data"
  unfolding stored_at_def by (metis append.assoc)

lemma stored_at_new:
  assumes "length cs + length data < 2 ^ 64"
  shows "stored_at (cs @ data @ block_trailer data kNoCompression) \<lparr>bh_offset = of_nat (length cs), bh_size = of_nat (length data)\<rparr> data"
proof -
  have "unat (of_nat n :: u64) = n" if "n < 2 ^ 64" for n
    using that by (simp add: unat_of_nat take_bit_nat_eq_self_iff)
  with assms show ?thesis by (auto simp: stored_at_def intro: exI [of _ cs] exI [of _ "[]"])
qed

text \<open>A file whose reads return what it contains.\<close>

definition file_reads :: "random_file \<Rightarrow> byte list \<Rightarrow> bool" where
  "file_reads file cs \<longleftrightarrow> (\<forall>off n. unat off + unat n \<le> length cs \<longrightarrow>
     (\<exists>in_buf. file off n = (OK, take (unat n) (drop (unat off) cs), in_buf)))"

lemma ReadBlock_stored:
  assumes "file_reads file cs" "stored_at cs h data" "length cs < 2 ^ 64"
  obtains in_buf where "ReadBlock file verify_checksums h = Some (OK, \<lparr>bc_data = data, bc_cachable = in_buf, bc_heap_allocated = in_buf\<rparr>)"
proof -
  let ?t = "block_trailer data kNoCompression" and ?n = "bh_size h + 5"
  obtain xs ys where cs: "cs = xs @ data @ ?t @ ys" "unat (bh_offset h) = length xs" "unat (bh_size h) = length data"
    using assms(2) by (auto simp: stored_at_def)
  have n: "unat ?n = length data + 5"
    using assms(3) cs by (simp add: unat_word_ariths)
  obtain b where read: "file (bh_offset h) ?n = (OK, data @ ?t, b)"
  proof -
    have "unat (bh_offset h) + unat ?n \<le> length cs" using n cs by simp
    then obtain b where "file (bh_offset h) ?n = (OK, take (unat ?n) (drop (unat (bh_offset h)) cs), b)"
      using assms(1) by (auto simp: file_reads_def)
    moreover have "take (unat ?n) (drop (unat (bh_offset h)) cs) = data @ ?t" using n cs by simp
    ultimately show thesis using that by simp
  qed
  have "DecodeFixed32 (drop (length data + 1) (data @ ?t)) = Some (Mask (crc32c 0 (data @ [0])))"
    using DecodeFixed32_append [of _ "[]"] by (simp add: block_trailer_def)
  moreover have "take (length data + 1) (data @ ?t) = data @ [0]" by (simp add: block_trailer_def)
  ultimately have "ReadBlock file verify_checksums h = Some (OK, \<lparr>bc_data = data, bc_cachable = b, bc_heap_allocated = b\<rparr>)"
    using read cs(3) n
    by (simp add: ReadBlock_def kBlockTrailerSize_def status_ok_def Let_def Value_def Extend_crc32c Unmask_Mask
        block_trailer_def nth_append del: bind_Some_iff)
  then show thesis by (rule that)
qed

end
