(* ===== verification/Ldb_Filter_Block.thy ===== *)
theory Ldb_Filter_Block
  imports Ldb_Format
begin

text \<open>
  The filters of a table: \<open>leveldb-library/table/filter_block.cc\<close> and \<open>filter_block.h\<close>.  There is
  one filter for the keys of all blocks that begin in the same 2 KB of the file.  A filter
  block that was built rules out no key of a block, for any filter policy that has no false
  negatives (the locale \<open>filter_policy\<close>).
\<close>

section \<open>The code\<close>

definition kFilterBaseLg :: nat where [c_defs]: "kFilterBaseLg = 11"
definition kFilterBase :: u64 where [c_defs]: "kFilterBase = push_bit kFilterBaseLg 1"

text \<open>The virtual methods of a filter policy.\<close>

record policy =
  fp_Name :: "byte list"
  fp_CreateFilter :: "byte list list \<Rightarrow> byte list \<Rightarrow> byte list option"
  fp_KeyMayMatch :: "byte list \<Rightarrow> byte list \<Rightarrow> bool option"

record filter_builder =
  fb_policy :: policy
  fb_keys :: "byte list"
  fb_start :: "nat list"
  fb_result :: "byte list"
  fb_offsets :: "u32 list"

definition FilterBlockBuilder :: "policy \<Rightarrow> filter_builder" where
  "FilterBlockBuilder pol = \<lparr>fb_policy = pol, fb_keys = [], fb_start = [], fb_result = [], fb_offsets = []\<rparr>"

text \<open>The number of keys is converted to \<open>int\<close>.\<close>

definition GenerateFilter :: "filter_builder \<Rightarrow> filter_builder option" where
  "GenerateFilter b =
     (let num_keys = length (fb_start b)
      in if num_keys = 0 then Some (b\<lparr>fb_offsets := fb_offsets b @ [of_nat (length (fb_result b))]\<rparr>)
         else if num_keys \<ge> 2 ^ 31 then None
         else do {
           let start = fb_start b @ [length (fb_keys b)];
           let tmp_keys = map (\<lambda>i. take (start ! (i + 1) - start ! i) (drop (start ! i) (fb_keys b))) [0..<num_keys];
           let b = b\<lparr>fb_offsets := fb_offsets b @ [of_nat (length (fb_result b))]\<rparr>;
           result \<leftarrow> fp_CreateFilter (fb_policy b) tmp_keys (fb_result b);
           Some (b\<lparr>fb_result := result, fb_keys := [], fb_start := []\<rparr>)
         })"

partial_function (option) generate_up_to :: "u64 \<Rightarrow> filter_builder \<Rightarrow> filter_builder option" where
  "generate_up_to filter_index b =
     (if filter_index > of_nat (length (fb_offsets b))
      then do { b \<leftarrow> GenerateFilter b; generate_up_to filter_index b }
      else Some b)"

declare generate_up_to.simps [code]

definition StartBlock :: "u64 \<Rightarrow> filter_builder \<Rightarrow> filter_builder option" where
  "StartBlock block_offset b =
     (let filter_index = block_offset div kFilterBase
      in if filter_index \<ge> of_nat (length (fb_offsets b)) then generate_up_to filter_index b else None)"

definition AddKey :: "byte list \<Rightarrow> filter_builder \<Rightarrow> filter_builder" where
  "AddKey key b = b\<lparr>fb_start := fb_start b @ [length (fb_keys b)], fb_keys := fb_keys b @ key\<rparr>"

definition FilterBlock_Finish :: "filter_builder \<Rightarrow> (byte list \<times> filter_builder) option" where
  "FilterBlock_Finish b = do {
     b \<leftarrow> (if fb_start b \<noteq> [] then GenerateFilter b else Some b);
     let array_offset = (of_nat (length (fb_result b)) :: u32);
     let result = foldl PutFixed32 (fb_result b) (fb_offsets b);
     let result = PutFixed32 result array_offset;
     let result = result @ [of_nat kFilterBaseLg];
     Some (result, b\<lparr>fb_result := result\<rparr>)
   }"

text \<open>The pointer to the offsets is an index; a reader of bad contents has no filters.\<close>

record filter_reader =
  fr_policy :: policy
  fr_data :: "byte list"
  fr_offset :: nat
  fr_num :: nat
  fr_base_lg :: u64

definition FilterBlockReader :: "policy \<Rightarrow> byte list \<Rightarrow> filter_reader option" where
  "FilterBlockReader pol contents =
     (let n = length contents; r = \<lparr>fr_policy = pol, fr_data = [], fr_offset = 0, fr_num = 0, fr_base_lg = 0\<rparr>
      in if n < 5 then Some r
         else do {
           let r = r\<lparr>fr_base_lg := scast (contents ! (n - 1))\<rparr>;
           last_word \<leftarrow> DecodeFixed32 (drop (n - 5) contents);
           if unat last_word > n - 5 then Some r
           else Some (r\<lparr>fr_data := contents, fr_offset := unat last_word, fr_num := (n - 5 - unat last_word) div 4\<rparr>)
         })"

definition Reader_KeyMayMatch :: "filter_reader \<Rightarrow> u64 \<Rightarrow> byte list \<Rightarrow> bool option" where
  "Reader_KeyMayMatch r block_offset key =
     (if fr_base_lg r \<ge> 64 then None
      else let index = unat (drop_bit (unat (fr_base_lg r)) block_offset)
        in if index < fr_num r then do {
             start \<leftarrow> DecodeFixed32 (drop (fr_offset r + index * 4) (fr_data r));
             limit \<leftarrow> DecodeFixed32 (drop (fr_offset r + index * 4 + 4) (fr_data r));
             if start \<le> limit \<and> unat limit \<le> fr_offset r
             then fp_KeyMayMatch (fr_policy r) key (take (unat (limit - start)) (drop (unat start) (fr_data r)))
             else Some (start \<noteq> limit)
           }
           else Some True)"

section \<open>What the builder holds\<close>

lemma unat_of_nat_eq: "n < 2 ^ LENGTH('a) \<Longrightarrow> unat (of_nat n :: 'a::len word) = n"
  by (simp add: unat_of_nat)

text \<open>Where the strings of a list begin when they are joined.\<close>

definition starts :: "'a list list \<Rightarrow> nat list" where
  "starts xs = map (\<lambda>i. length (concat (take i xs))) [0..<length xs]"

lemma starts_snoc [simp]: "starts (xs @ [x]) = starts xs @ [length (concat xs)]"
  by (auto simp: starts_def)

lemma length_starts [simp]: "length (starts xs) = length xs"
  by (simp add: starts_def)

lemma starts_nth: "i \<le> length xs \<Longrightarrow> (starts xs @ [length (concat xs)]) ! i = length (concat (take i xs))"
  by (auto simp: starts_def nth_append)

lemma concat_part:
  assumes "i < length xs"
  shows "take (length (concat (take (Suc i) xs)) - length (concat (take i xs))) (drop (length (concat (take i xs))) (concat xs)) = xs ! i"
proof -
  have "concat xs = concat (take i xs) @ xs ! i @ concat (drop (Suc i) xs)"
    using id_take_nth_drop [OF assms] by (metis concat.simps(2) concat_append)
  then show ?thesis using assms by (simp add: take_Suc_conv_app_nth)
qed

text \<open>A filter for a group of keys; no key, no filter.\<close>

definition filter_for :: "policy \<Rightarrow> byte list list \<Rightarrow> byte list \<Rightarrow> bool" where
  "filter_for pol g f \<longleftrightarrow> (if g = [] then f = [] else fp_CreateFilter pol g [] = Some f)"

definition fb_rep :: "policy \<Rightarrow> byte list list list \<Rightarrow> byte list list \<Rightarrow> filter_builder \<Rightarrow> bool" where
  "fb_rep pol gs ks b \<longleftrightarrow> fb_policy b = pol \<and> fb_keys b = concat ks \<and> fb_start b = starts ks \<and>
     (\<exists>fs. list_all2 (filter_for pol) gs fs \<and> fb_result b = concat fs \<and> fb_offsets b = map of_nat (starts fs))"

lemma fb_rep_new: "fb_rep pol [] [] (FilterBlockBuilder pol)"
  by (simp add: fb_rep_def FilterBlockBuilder_def starts_def)

lemma fb_rep_AddKey: "fb_rep pol gs ks b \<Longrightarrow> fb_rep pol gs (ks @ [k]) (AddKey k b)"
  by (simp add: fb_rep_def AddKey_def)

lemma fb_rep_offsets: "fb_rep pol gs ks b \<Longrightarrow> length (fb_offsets b) = length gs"
  by (auto simp: fb_rep_def list_all2_lengthD)

locale table_policy = filter_policy "fp_CreateFilter pol" "fp_KeyMayMatch pol" ok
  for pol :: policy and ok :: "byte list list \<Rightarrow> bool"
begin

lemma Generate_rep:
  assumes "fb_rep pol gs ks b" "ks = [] \<or> ok ks" "length ks < 2 ^ 31"
  shows "\<exists>b'. GenerateFilter b = Some b' \<and> fb_rep pol (gs @ [ks]) [] b'"
proof -
  obtain fs where fs: "list_all2 (filter_for pol) gs fs" "fb_result b = concat fs" "fb_offsets b = map of_nat (starts fs)"
    using assms(1) by (auto simp: fb_rep_def)
  have b: "fb_policy b = pol" "fb_keys b = concat ks" "fb_start b = starts ks" using assms(1) by (simp_all add: fb_rep_def)
  show ?thesis
  proof (cases "ks = []")
    case True
    have "list_all2 (filter_for pol) (gs @ [[]]) (fs @ [[]])" using fs(1) by (simp add: list_all2_appendI filter_for_def)
    with True b fs show ?thesis
      by (auto simp: GenerateFilter_def fb_rep_def starts_def intro!: exI [of _ "fs @ [[]]"])
  next
    case False
    then obtain f where f: "\<And>dst. fp_CreateFilter pol ks dst = Some (dst @ f)" using assms(2) create_appends by blast
    have "map (\<lambda>i. take ((starts ks @ [length (concat ks)]) ! (i + 1) - (starts ks @ [length (concat ks)]) ! i)
        (drop ((starts ks @ [length (concat ks)]) ! i) (concat ks))) [0..<length ks] = map (\<lambda>i. ks ! i) [0..<length ks]"
      by (rule map_cong) (simp_all add: starts_nth concat_part del: take_Suc)
    then have keys: "map (\<lambda>i. take ((starts ks @ [length (concat ks)]) ! (i + 1) - (starts ks @ [length (concat ks)]) ! i)
        (drop ((starts ks @ [length (concat ks)]) ! i) (concat ks))) [0..<length ks] = ks"
      by (simp add: map_nth)
    have "list_all2 (filter_for pol) (gs @ [ks]) (fs @ [f])"
      using fs(1) False f [of "[]"] by (simp add: list_all2_appendI filter_for_def)
    moreover have "GenerateFilter b =
        Some (b\<lparr>fb_offsets := fb_offsets b @ [of_nat (length (fb_result b))], fb_result := fb_result b @ f, fb_keys := [], fb_start := []\<rparr>)"
      using False assms(3) keys f by (simp add: GenerateFilter_def b Let_def del: upt_Suc)
    ultimately show ?thesis
      using b fs by (auto simp: fb_rep_def starts_def [of "[]"] intro!: exI [of _ "fs @ [f]"])
  qed
qed

lemma generate_rep:
  assumes "fb_rep pol gs ks b" "ks = [] \<or> ok ks" "length ks < 2 ^ 31" "length gs \<le> unat i"
  shows "\<exists>b'. generate_up_to i b = Some b' \<and> fb_rep pol
    (if length gs = unat i then gs else gs @ [ks] @ replicate (unat i - length gs - 1) []) (if length gs = unat i then ks else []) b'"
  using assms
proof (induction "unat i - length gs" arbitrary: gs ks b)
  case 0
  then have "unat i = length gs" by simp
  then have "of_nat (length (fb_offsets b)) = i" by (simp add: fb_rep_offsets [OF 0(2)] flip: \<open>unat i = length gs\<close>)
  then have "\<not> of_nat (length (fb_offsets b)) < i" by simp
  with 0 show ?case by (simp add: generate_up_to.simps [of i b])
next
  case (Suc n)
  have less: "length gs < unat i" using Suc.hyps(2) by simp
  have "unat (of_nat (length gs) :: u64) = length gs"
    using less unsigned_less [of i, where ?'a = nat] by (intro unat_of_nat_eq) simp
  then have lt: "of_nat (length (fb_offsets b)) < i" using less by (simp add: fb_rep_offsets [OF Suc.prems(1)] word_less_nat_alt)
  obtain b1 where b1: "GenerateFilter b = Some b1" "fb_rep pol (gs @ [ks]) [] b1" using Generate_rep [OF Suc.prems(1-3)] by blast
  have "\<exists>b'. generate_up_to i b1 = Some b' \<and> fb_rep pol
      (if length (gs @ [ks]) = unat i then gs @ [ks] else (gs @ [ks]) @ [[]] @ replicate (unat i - length (gs @ [ks]) - 1) [])
      (if length (gs @ [ks]) = unat i then [] else []) b'"
    using Suc.hyps(2) less b1(2) by (intro Suc.hyps(1)) simp_all
  moreover have "(if length (gs @ [ks]) = unat i then gs @ [ks] else (gs @ [ks]) @ [[]] @ replicate (unat i - length (gs @ [ks]) - 1) []) =
      gs @ [ks] @ replicate (unat i - length gs - 1) []"
  proof (cases "Suc (length gs) = unat i")
    case False
    then have "unat i - length gs - 1 = Suc (unat i - length (gs @ [ks]) - 1)" using less by simp
    then show ?thesis using False by (simp only: replicate_Suc) simp
  qed simp
  ultimately show ?case using lt b1(1) less by (simp add: generate_up_to.simps [of i b])
qed

end
text \<open>The group of keys at an offset of the file.\<close>

definition filter_index :: "u64 \<Rightarrow> nat" where
  "filter_index off = unat off div 2048"

lemma filter_index_div: "unat (off div kFilterBase) = filter_index off"
  by (simp add: filter_index_def kFilterBase_def kFilterBaseLg_def unat_div)

lemma filter_index_shift: "unat (drop_bit 11 off) = filter_index off"
  by (simp add: filter_index_def unat_drop_bit_div)

text \<open>The groups after the start of a block, and all of them in the end.\<close>

definition groups_at :: "nat \<Rightarrow> byte list list list \<Rightarrow> byte list list \<Rightarrow> byte list list list" where
  "groups_at i gs ks = (if length gs = i then gs else gs @ [ks] @ replicate (i - length gs - 1) [])"

definition all_groups :: "byte list list list \<Rightarrow> byte list list \<Rightarrow> byte list list list" where
  "all_groups gs ks = (if ks = [] then gs else gs @ [ks])"

lemma length_groups_at: "length gs \<le> i \<Longrightarrow> length (groups_at i gs ks) = i"
  by (auto simp: groups_at_def)

lemma groups_keep:
  "j < length gs \<Longrightarrow> groups_at i gs ks ! j = gs ! j" "j < length gs \<Longrightarrow> all_groups gs ks ! j = gs ! j"
  "length gs < i \<Longrightarrow> groups_at i gs ks ! length gs = ks" "ks \<noteq> [] \<Longrightarrow> all_groups gs ks ! length gs = ks"
  by (simp_all add: groups_at_def all_groups_def nth_append)

definition filters_bytes :: "byte list list \<Rightarrow> byte list" where
  "filters_bytes fs = concat fs @ concat (map EncodeFixed32 (map of_nat (starts fs))) @ EncodeFixed32 (of_nat (length (concat fs))) @ [11]"

lemma length_fixed [simp]: "length (EncodeFixed32 v) = 4"
  by (simp add: EncodeFixed32_def)

lemma length_filters_bytes: "length (filters_bytes fs) = length (concat fs) + 4 * length fs + 5"
proof -
  have "length (concat (map EncodeFixed32 vs)) = 4 * length vs" for vs by (induction vs) simp_all
  then show ?thesis by (simp only: filters_bytes_def length_append length_map length_starts length_fixed list.size)
qed

lemma fixed_array_at:
  assumes "i \<le> length ns"
  shows "DecodeFixed32 (drop (length xs + i * 4) (xs @ concat (map EncodeFixed32 ns) @ EncodeFixed32 n @ ys)) = Some ((ns @ [n]) ! i)"
proof -
  have d: "drop (length xs + i * 4) (xs @ zs) = drop (i * 4) zs" for zs :: "byte list" by simp
  have "drop (i * 4) (concat (map EncodeFixed32 ns) @ EncodeFixed32 n @ ys) =
      EncodeFixed32 ((ns @ [n]) ! i) @ drop (Suc i * 4) (concat (map EncodeFixed32 ns) @ EncodeFixed32 n @ ys)"
    using assms
  proof (induction ns arbitrary: i)
    case (Cons m ns)
    then show ?case by (cases i) simp_all
  qed simp
  then show ?thesis unfolding d by (simp add: DecodeFixed32_append)
qed

lemma starts_le: "i \<le> length xs \<Longrightarrow> length (concat (take i xs)) \<le> length (concat xs)"
  by (metis append_take_drop_id concat_append le_add1 length_append)

context table_policy
begin

lemma StartBlock_rep:
  assumes "fb_rep pol gs ks b" "ks = [] \<or> ok ks" "length ks < 2 ^ 31" "length gs \<le> filter_index off"
  shows "\<exists>b'. StartBlock off b = Some b' \<and> fb_rep pol (groups_at (filter_index off) gs ks) (if length gs = filter_index off then ks else []) b'"
proof -
  have "unat (of_nat (length gs) :: u64) = length gs"
    using assms(4) unsigned_less [of off, where ?'a = nat] by (intro unat_of_nat_eq) (simp add: filter_index_def)
  then have "of_nat (length (fb_offsets b)) \<le> off div kFilterBase"
    using assms(4) by (simp add: fb_rep_offsets [OF assms(1)] word_le_nat_alt filter_index_div)
  then show ?thesis
    using generate_rep [OF assms(1-3), of "off div kFilterBase", unfolded filter_index_div, OF assms(4)]
    by (simp add: StartBlock_def groups_at_def)
qed

lemma Finish_rep:
  assumes "fb_rep pol gs ks b" "ks = [] \<or> ok ks" "length ks < 2 ^ 31"
  obtains fs b' where "FilterBlock_Finish b = Some (filters_bytes fs, b')" "list_all2 (filter_for pol) (all_groups gs ks) fs"
proof -
  have empty: "fb_start b \<noteq> [] \<longleftrightarrow> ks \<noteq> []"
    using assms(1) by (metis fb_rep_def length_0_conv length_starts)
  obtain b1 where b1: "(if fb_start b \<noteq> [] then GenerateFilter b else Some b) = Some b1" "\<exists>ks'. fb_rep pol (all_groups gs ks) ks' b1"
    using Generate_rep [OF assms] assms(1) by (cases "ks = []") (auto simp: empty all_groups_def)
  then obtain fs where fs: "list_all2 (filter_for pol) (all_groups gs ks) fs" "fb_result b1 = concat fs" "fb_offsets b1 = map of_nat (starts fs)"
    by (auto simp: fb_rep_def)
  have "foldl PutFixed32 buf ns = buf @ concat (map EncodeFixed32 ns)" for buf ns
    by (induction ns arbitrary: buf) (simp_all add: PutFixed32_def)
  then have "FilterBlock_Finish b = Some (filters_bytes fs, b1\<lparr>fb_result := filters_bytes fs\<rparr>)"
    using b1(1) fs by (simp add: FilterBlock_Finish_def filters_bytes_def PutFixed32_def kFilterBaseLg_def Let_def)
  with that fs(1) show thesis by blast
qed

lemma FilterBlockReader_reads:
  assumes "length (filters_bytes fs) < 2 ^ 32"
  shows "FilterBlockReader pol (filters_bytes fs) =
    Some \<lparr>fr_policy = pol, fr_data = filters_bytes fs, fr_offset = length (concat fs), fr_num = length fs, fr_base_lg = 11\<rparr>"
proof -
  let ?c = "filters_bytes fs"
  note len = length_filters_bytes [of fs]
  have u: "unat (of_nat (length (concat fs)) :: u32) = length (concat fs)"
    using assms len by (intro unat_of_nat_eq) simp
  have n: "length (concat fs) + length fs * 4 = length ?c - 5" using len by simp
  have "DecodeFixed32 (drop (length (concat fs) + length (starts fs) * 4) ?c) = Some (of_nat (length (concat fs)))"
    using fixed_array_at [of "length (starts fs)" "map of_nat (starts fs)" "concat fs" "of_nat (length (concat fs))" "[11]"]
    by (simp add: filters_bytes_def nth_append)
  then have d: "DecodeFixed32 (drop (length ?c - 5) ?c) = Some (of_nat (length (concat fs)))" using n by simp
  have "?c \<noteq> []" "last ?c = 11" by (simp_all add: filters_bytes_def)
  then have "?c ! (length ?c - 1) = 11" by (simp add: last_conv_nth)
  moreover have "(scast (11 :: byte) :: u64) = 11" by simp
  ultimately show ?thesis using len u d by (simp add: FilterBlockReader_def)
qed

lemma Reader_group:
  assumes "length (filters_bytes fs) < 2 ^ 32" "filter_index off < length fs"
  shows "Reader_KeyMayMatch \<lparr>fr_policy = pol, fr_data = filters_bytes fs, fr_offset = length (concat fs), fr_num = length fs, fr_base_lg = 11\<rparr>
      off key = fp_KeyMayMatch pol key (fs ! filter_index off)"
proof -
  let ?i = "filter_index off" and ?c = "filters_bytes fs"
  let ?s = "\<lambda>i. length (concat (take i fs))"
  have nth: "(map of_nat (starts fs) @ [of_nat (length (concat fs))]) ! i = (of_nat (?s i) :: u32)" if "i \<le> length fs" for i
    using starts_nth [OF that] that by (simp add: nth_append split: if_splits)
  have d: "DecodeFixed32 (drop (length (concat fs) + i * 4) ?c) = Some (of_nat (?s i))" if "i \<le> length fs" for i
    using fixed_array_at [of i "map of_nat (starts fs)" "concat fs" "of_nat (length (concat fs))" "[11]"] nth [OF that] that
    by (simp add: filters_bytes_def)
  have le: "?s ?i \<le> ?s (Suc ?i)" "?s (Suc ?i) \<le> length (concat fs)"
    using assms(2) starts_le [of "Suc ?i" fs] by (simp_all add: take_Suc_conv_app_nth)
  have small: "?s (Suc ?i) < 2 ^ 32" using le(2) assms(1) length_filters_bytes [of fs] by simp
  have u: "unat (of_nat (?s ?i) :: u32) = ?s ?i" "unat (of_nat (?s (Suc ?i)) :: u32) = ?s (Suc ?i)"
    using small le(1) by (intro unat_of_nat_eq; simp)+
  have part: "take (?s (Suc ?i) - ?s ?i) (drop (?s ?i) ?c) = fs ! ?i"
    using concat_part [OF assms(2)] le starts_le [of ?i fs] assms(2)
    by (simp add: filters_bytes_def del: take_Suc concat_append)
  have "of_nat (?s ?i) \<le> (of_nat (?s (Suc ?i)) :: u32)" using u le(1) by (simp add: word_le_nat_alt)
  moreover from this have "unat (of_nat (?s (Suc ?i)) - of_nat (?s ?i) :: u32) = ?s (Suc ?i) - ?s ?i" by (simp only: unat_sub u)
  moreover have "DecodeFixed32 (drop (length (concat fs) + ?i * 4 + 4) ?c) = Some (of_nat (?s (Suc ?i)))"
  proof -
    have "length (concat fs) + Suc ?i * 4 = length (concat fs) + ?i * 4 + 4" by simp
    with d [of "Suc ?i"] assms(2) show ?thesis by (metis Suc_leI)
  qed
  ultimately show ?thesis
    using assms(2) d [of ?i] u le(2) part
    by (simp add: Reader_KeyMayMatch_def filter_index_shift Let_def del: take_Suc)
qed

text \<open>No key of a group is ruled out.\<close>

lemma Reader_no_false_negatives:
  assumes "list_all2 (filter_for pol) gs fs" "length (filters_bytes fs) < 2 ^ 32" "filter_index off < length gs"
    "key \<in> set (gs ! filter_index off)" "ok (gs ! filter_index off)"
  shows "\<exists>r. FilterBlockReader pol (filters_bytes fs) = Some r \<and> Reader_KeyMayMatch r off key = Some True"
proof -
  have len: "length fs = length gs" using assms(1) by (simp add: list_all2_lengthD)
  have "filter_for pol (gs ! filter_index off) (fs ! filter_index off)" using assms(1,3) by (rule list_all2_nthD)
  then have "fp_CreateFilter pol (gs ! filter_index off) [] = Some (fs ! filter_index off)"
    using assms(4) by (auto simp: filter_for_def split: if_splits)
  then have "fp_KeyMayMatch pol key (fs ! filter_index off) = Some True"
    using no_false_negatives assms(4,5) by blast
  then show ?thesis
    using FilterBlockReader_reads [OF assms(2)] Reader_group [OF assms(2), of off key] len assms(3) by simp
qed

end

end
