(* ===== verification/Ldb_Table_Builder.thy ===== *)
theory Ldb_Table_Builder
  imports Ldb_Table_Format Ldb_Filter_Block
begin

text \<open>
  Writing a table: \<open>leveldb-library/table/table_builder.cc\<close>.  The blocks of the entries are
  followed by the filters, an index of meta blocks, an index of the blocks and the footer.  A
  failed assertion makes the result undefined; a file operation that fails stops the builder.
\<close>

section \<open>The code\<close>

text \<open>The options that tables use.\<close>

record table_options =
  op_comparator :: comparator
  op_paranoid_checks :: bool
  op_block_size :: size
  op_block_restart_interval :: nat
  op_compression :: CompressionType
  op_filter_policy :: "policy option"

text \<open>
  A block builder holds its own copy of comparator and restart interval, and the number of
  entries is unbounded.  \<open>compressed_output\<close> is never filled.
\<close>

record 'f table_builder =
  tb_options :: table_options
  tb_file :: 'f
  tb_offset :: u64
  tb_status :: status
  tb_data_block :: block_builder
  tb_index_block :: block_builder
  tb_last_key :: "byte list"
  tb_num_entries :: nat
  tb_closed :: bool
  tb_filter_block :: "filter_builder option"
  tb_pending_index_entry :: bool
  tb_pending_handle :: block_handle

definition TableBuilder :: "table_options \<Rightarrow> 'f \<Rightarrow> 'f table_builder option" where
  "TableBuilder options file = do {
     data_block \<leftarrow> BlockBuilder (cmp_Compare (op_comparator options)) (op_block_restart_interval options);
     index_block \<leftarrow> BlockBuilder (cmp_Compare (op_comparator options)) (op_block_restart_interval options);
     let filter_block = map_option FilterBlockBuilder (op_filter_policy options);
     filter_block \<leftarrow> (case filter_block of None \<Rightarrow> Some None | Some fb \<Rightarrow> map_option Some (StartBlock 0 fb));
     Some \<lparr>tb_options = options, tb_file = file, tb_offset = 0, tb_status = OK, tb_data_block = data_block,
       tb_index_block = index_block\<lparr>bb_interval := 1\<rparr>, tb_last_key = [], tb_num_entries = 0, tb_closed = False,
       tb_filter_block = filter_block, tb_pending_index_entry = False, tb_pending_handle = BlockHandle\<rparr>
   }"

definition tb_ok :: "'f table_builder \<Rightarrow> bool" where
  "tb_ok r = status_ok (tb_status r)"

definition WriteRawBlock ::
  "'f writable_file \<Rightarrow> byte list \<Rightarrow> CompressionType \<Rightarrow> 'f table_builder \<Rightarrow> (block_handle \<times> 'f table_builder) option" where
  "WriteRawBlock file contents type r = do {
     let handle = \<lparr>bh_offset = tb_offset r, bh_size = of_nat (length contents)\<rparr>;
     let (s, f) = wf_Append file contents (tb_file r);
     let r = r\<lparr>tb_status := s, tb_file := f\<rparr>;
     if \<not> status_ok s then Some (handle, r)
     else do {
       crc \<leftarrow> Value 0 contents;
       crc \<leftarrow> Extend 0 crc [type_char type];
       let trailer = type_char type # EncodeFixed32 (Mask crc);
       let (s, f) = wf_Append file trailer (tb_file r);
       let r = r\<lparr>tb_status := s, tb_file := f\<rparr>;
       Some (handle, if status_ok s then r\<lparr>tb_offset := tb_offset r + of_nat (length contents + kBlockTrailerSize)\<rparr> else r)
     }
   }"

text \<open>The block that is written is passed and returned.\<close>

definition WriteBlock ::
  "'f writable_file \<Rightarrow> block_builder \<Rightarrow> 'f table_builder \<Rightarrow> (block_handle \<times> block_builder \<times> 'f table_builder) option" where
  "WriteBlock file block r =
     (if \<not> tb_ok r then None
      else do {
        let (raw, block) = BlockBuilder_Finish block;
        let (contents, type) = (case op_compression (tb_options r) of
            kNoCompression \<Rightarrow> (raw, kNoCompression)
          | kSnappyCompression \<Rightarrow> (case Snappy_Compress raw of
              None \<Rightarrow> (raw, kNoCompression)
            | Some compressed \<Rightarrow>
                if length compressed < length raw - length raw div 8 then (compressed, kSnappyCompression)
                else (raw, kNoCompression)));
        (handle, r) \<leftarrow> WriteRawBlock file contents type r;
        Some (handle, BlockBuilder_Reset block, r)
      })"

definition TableBuilder_Flush :: "'f writable_file \<Rightarrow> 'f table_builder \<Rightarrow> 'f table_builder option" where
  "TableBuilder_Flush file r =
     (if tb_closed r then None
      else if \<not> tb_ok r then Some r
      else if BlockBuilder_empty (tb_data_block r) then Some r
      else if tb_pending_index_entry r then None
      else do {
        (handle, block, r) \<leftarrow> WriteBlock file (tb_data_block r) r;
        let r = r\<lparr>tb_data_block := block, tb_pending_handle := handle\<rparr>;
        let r = (if tb_ok r
          then (let (s, f) = wf_Flush file (tb_file r) in r\<lparr>tb_pending_index_entry := True, tb_status := s, tb_file := f\<rparr>)
          else r);
        (case tb_filter_block r of
           None \<Rightarrow> Some r
         | Some fb \<Rightarrow> do { fb \<leftarrow> StartBlock (tb_offset r) fb; Some (r\<lparr>tb_filter_block := Some fb\<rparr>) })
      })"

text \<open>The entry of the index for the block that was written last, with a key that was shortened.\<close>

definition add_index_entry :: "byte list \<Rightarrow> 'f table_builder \<Rightarrow> 'f table_builder option" where
  "add_index_entry key r = do {
     handle_encoding \<leftarrow> BlockHandle_EncodeTo (tb_pending_handle r) [];
     index_block \<leftarrow> BlockBuilder_Add key handle_encoding (tb_index_block r);
     Some (r\<lparr>tb_last_key := key, tb_index_block := index_block, tb_pending_index_entry := False\<rparr>)
   }"

definition TableBuilder_Add ::
  "'f writable_file \<Rightarrow> byte list \<Rightarrow> byte list \<Rightarrow> 'f table_builder \<Rightarrow> 'f table_builder option" where
  "TableBuilder_Add file key val r =
     (if tb_closed r then None
      else if \<not> tb_ok r then Some r
      else do {
        larger \<leftarrow> (if tb_num_entries r > 0
          then map_option (\<lambda>c. c > 0) (cmp_Compare (op_comparator (tb_options r)) key (tb_last_key r))
          else Some True);
        if \<not> larger then None
        else do {
          r \<leftarrow> (if tb_pending_index_entry r
            then if \<not> BlockBuilder_empty (tb_data_block r) then None
              else do {
                sep \<leftarrow> cmp_FindShortestSeparator (op_comparator (tb_options r)) (tb_last_key r) key;
                add_index_entry sep r
              }
            else Some r);
          let r = r\<lparr>tb_filter_block := map_option (AddKey key) (tb_filter_block r)\<rparr>;
          let r = r\<lparr>tb_last_key := key, tb_num_entries := tb_num_entries r + 1\<rparr>;
          data_block \<leftarrow> BlockBuilder_Add key val (tb_data_block r);
          let r = r\<lparr>tb_data_block := data_block\<rparr>;
          let estimated_block_size = (of_nat (CurrentSizeEstimate (tb_data_block r)) :: size);
          if estimated_block_size \<ge> op_block_size (tb_options r) then TableBuilder_Flush file r else Some r
        }
      })"

text \<open>The parts of \<open>Finish\<close>; the handle of the filters is that of a new object if there are none.\<close>

definition write_filter :: "'f writable_file \<Rightarrow> 'f table_builder \<Rightarrow> (block_handle \<times> 'f table_builder) option" where
  "write_filter file r =
     (case tb_filter_block r of
        Some fb \<Rightarrow>
          if tb_ok r then do {
            (contents, fb) \<leftarrow> FilterBlock_Finish fb;
            WriteRawBlock file contents kNoCompression (r\<lparr>tb_filter_block := Some fb\<rparr>)
          }
          else Some (BlockHandle, r)
      | None \<Rightarrow> Some (BlockHandle, r))"

definition filter_key :: "policy \<Rightarrow> byte list" where
  "filter_key pol = ascii ''filter.'' @ fp_Name pol"

definition write_metaindex ::
  "'f writable_file \<Rightarrow> block_handle \<Rightarrow> 'f table_builder \<Rightarrow> (block_handle \<times> 'f table_builder) option" where
  "write_metaindex file filter_block_handle r =
     (if tb_ok r then do {
        meta_index_block \<leftarrow> BlockBuilder (cmp_Compare (op_comparator (tb_options r))) (op_block_restart_interval (tb_options r));
        meta_index_block \<leftarrow> (case (tb_filter_block r, op_filter_policy (tb_options r)) of
            (Some _, Some pol) \<Rightarrow> do {
              handle_encoding \<leftarrow> BlockHandle_EncodeTo filter_block_handle [];
              BlockBuilder_Add (filter_key pol) handle_encoding meta_index_block
            }
          | (Some _, None) \<Rightarrow> None
          | (None, _) \<Rightarrow> Some meta_index_block);
        (handle, _, r) \<leftarrow> WriteBlock file meta_index_block r;
        Some (handle, r)
      }
      else Some (BlockHandle, r))"

definition write_index :: "'f writable_file \<Rightarrow> 'f table_builder \<Rightarrow> (block_handle \<times> 'f table_builder) option" where
  "write_index file r =
     (if tb_ok r then do {
        r \<leftarrow> (if tb_pending_index_entry r
          then do {
            succ \<leftarrow> cmp_FindShortSuccessor (op_comparator (tb_options r)) (tb_last_key r);
            add_index_entry succ r
          }
          else Some r);
        (handle, block, r) \<leftarrow> WriteBlock file (tb_index_block r) r;
        Some (handle, r\<lparr>tb_index_block := block\<rparr>)
      }
      else Some (BlockHandle, r))"

definition write_footer ::
  "'f writable_file \<Rightarrow> block_handle \<Rightarrow> block_handle \<Rightarrow> 'f table_builder \<Rightarrow> 'f table_builder option" where
  "write_footer file metaindex_block_handle index_block_handle r =
     (if tb_ok r then do {
        footer_encoding \<leftarrow> Footer_EncodeTo
          (new_Footer\<lparr>ft_metaindex_handle := metaindex_block_handle, ft_index_handle := index_block_handle\<rparr>) [];
        let (s, f) = wf_Append file footer_encoding (tb_file r);
        let r = r\<lparr>tb_status := s, tb_file := f\<rparr>;
        Some (if tb_ok r then r\<lparr>tb_offset := tb_offset r + of_nat (length footer_encoding)\<rparr> else r)
      }
      else Some r)"

definition TableBuilder_Finish :: "'f writable_file \<Rightarrow> 'f table_builder \<Rightarrow> (status \<times> 'f table_builder) option" where
  "TableBuilder_Finish file r = do {
     r \<leftarrow> TableBuilder_Flush file r;
     if tb_closed r then None
     else do {
       let r = r\<lparr>tb_closed := True\<rparr>;
       (filter_block_handle, r) \<leftarrow> write_filter file r;
       (metaindex_block_handle, r) \<leftarrow> write_metaindex file filter_block_handle r;
       (index_block_handle, r) \<leftarrow> write_index file r;
       r \<leftarrow> write_footer file metaindex_block_handle index_block_handle r;
       Some (tb_status r, r)
     }
   }"

definition Abandon :: "'f table_builder \<Rightarrow> 'f table_builder option" where
  "Abandon r = (if tb_closed r then None else Some (r\<lparr>tb_closed := True\<rparr>))"

definition NumEntries :: "'f table_builder \<Rightarrow> nat" where
  "NumEntries r = tb_num_entries r"

definition FileSize :: "'f table_builder \<Rightarrow> u64" where
  "FileSize r = tb_offset r"

text \<open>The destructor; it asserts that the builder was closed.\<close>

definition delete_TableBuilder :: "'f table_builder \<Rightarrow> 'f option" where
  "delete_TableBuilder r = (if tb_closed r then Some (tb_file r) else None)"

section \<open>Building a table from a list\<close>

primrec Table_Adds ::
  "'f writable_file \<Rightarrow> (byte list \<times> byte list) list \<Rightarrow> 'f table_builder \<Rightarrow> 'f table_builder option" where
  "Table_Adds file [] r = Some r"
| "Table_Adds file (x # xs) r = do { r \<leftarrow> TableBuilder_Add file (fst x) (snd x) r; Table_Adds file xs r }"

definition build_table ::
  "'f writable_file \<Rightarrow> table_options \<Rightarrow> (byte list \<times> byte list) list \<Rightarrow> 'f \<Rightarrow> (status \<times> 'f table_builder) option" where
  "build_table file options xs f = do {
     r \<leftarrow> TableBuilder options f;
     r \<leftarrow> Table_Adds file xs r;
     TableBuilder_Finish file r
   }"

end
