(* ===== verification/Ldb_Two_Level.thy ===== *)
theory Ldb_Two_Level
  imports Ldb_Merger_Rep
begin

text \<open>
  The iterator over an index whose values name the blocks of the data:
  \<open>leveldb-library/table/two_level_iterator.cc\<close>.  If the index has for every block a key that
  separates it from the next one, the iterator is one over the blocks one after the other (a
  sublocale of \<open>iter_class\<close>), whichever of the blocks are empty.
\<close>

section \<open>The code\<close>

record ('i, 'd, 'k, 'h) two_level =
  tl_index_iter :: "('i, 'k) wrapper"
  tl_data_iter :: "('d, 'k) wrapper"
  tl_data_block_handle :: 'h
  tl_status :: status

text \<open>The function that opens a block is \<open>block_function\<close>; the handle is empty at first.\<close>

definition TwoLevelIterator ::
  "('i, 'k, 'h) iter_class \<Rightarrow> 'h \<Rightarrow> 'i \<Rightarrow> ('i, 'd, 'k, 'h) two_level option" where
  "TwoLevelIterator icls no_handle index_iter = do {
     w \<leftarrow> iw_Set icls (Some index_iter) IteratorWrapper;
     Some \<lparr>tl_index_iter = w, tl_data_iter = IteratorWrapper, tl_data_block_handle = no_handle, tl_status = OK\<rparr>
   }"

definition tl_Valid :: "('i, 'd, 'k, 'h) two_level \<Rightarrow> bool" where
  "tl_Valid t = iw_valid (tl_data_iter t)"

definition tl_key :: "('i, 'd, 'k, 'h) two_level \<Rightarrow> 'k option" where
  "tl_key t = iw_key (tl_data_iter t)"

definition tl_value :: "('d, 'k, 'v) iter_class \<Rightarrow> ('i, 'd, 'k, 'h) two_level \<Rightarrow> 'v option" where
  "tl_value dcls t = iw_value dcls (tl_data_iter t)"

definition tl_get_status ::
  "('i, 'k, 'h) iter_class \<Rightarrow> ('d, 'k, 'v) iter_class \<Rightarrow> ('i, 'd, 'k, 'h) two_level \<Rightarrow> status option" where
  "tl_get_status icls dcls t = do {
     s \<leftarrow> iw_status icls (tl_index_iter t);
     if \<not> status_ok s then Some s
     else do {
       d \<leftarrow> (case iw_iter (tl_data_iter t) of None \<Rightarrow> Some OK | Some _ \<Rightarrow> iw_status dcls (tl_data_iter t));
       Some (if \<not> status_ok d then d else tl_status t)
     }
   }"

definition SaveError :: "status \<Rightarrow> ('i, 'd, 'k, 'h) two_level \<Rightarrow> ('i, 'd, 'k, 'h) two_level" where
  "SaveError s t = (if status_ok (tl_status t) \<and> \<not> status_ok s then t\<lparr>tl_status := s\<rparr> else t)"

definition SetDataIterator ::
  "('d, 'k, 'v) iter_class \<Rightarrow> 'd option \<Rightarrow> ('i, 'd, 'k, 'h) two_level \<Rightarrow> ('i, 'd, 'k, 'h) two_level option" where
  "SetDataIterator dcls data_iter t = do {
     t \<leftarrow> (case iw_iter (tl_data_iter t) of
         None \<Rightarrow> Some t
       | Some _ \<Rightarrow> do { s \<leftarrow> iw_status dcls (tl_data_iter t); Some (SaveError s t) });
     w \<leftarrow> iw_Set dcls data_iter (tl_data_iter t);
     Some (t\<lparr>tl_data_iter := w\<rparr>)
   }"

definition InitDataBlock ::
  "('i, 'k, 'h) iter_class \<Rightarrow> ('d, 'k, 'v) iter_class \<Rightarrow> ('h \<Rightarrow> 'd option) \<Rightarrow>
    ('i, 'd, 'k, 'h) two_level \<Rightarrow> ('i, 'd, 'k, 'h) two_level option" where
  "InitDataBlock icls dcls block_function t =
     (if \<not> iw_valid (tl_index_iter t) then SetDataIterator dcls None t
      else do {
        handle \<leftarrow> iw_value icls (tl_index_iter t);
        if iw_iter (tl_data_iter t) \<noteq> None \<and> handle = tl_data_block_handle t then Some t
        else do {
          iter \<leftarrow> block_function handle;
          SetDataIterator dcls (Some iter) (t\<lparr>tl_data_block_handle := handle\<rparr>)
        }
      })"

text \<open>An operation of the data iterator, if there is one.\<close>

definition move_data ::
  "(('d, 'k) wrapper \<Rightarrow> ('d, 'k) wrapper option) \<Rightarrow> ('i, 'd, 'k, 'h) two_level \<Rightarrow> ('i, 'd, 'k, 'h) two_level option" where
  "move_data move t =
     (case iw_iter (tl_data_iter t) of
        None \<Rightarrow> Some t
      | Some _ \<Rightarrow> do { w \<leftarrow> move (tl_data_iter t); Some (t\<lparr>tl_data_iter := w\<rparr>) })"

text \<open>The loops over empty blocks: \<open>step\<close> moves the index and \<open>enter\<close> positions in the next block.\<close>

partial_function (option) skip_blocks ::
  "('i, 'k, 'h) iter_class \<Rightarrow> ('d, 'k, 'v) iter_class \<Rightarrow> ('h \<Rightarrow> 'd option) \<Rightarrow>
    (('i, 'k) wrapper \<Rightarrow> ('i, 'k) wrapper option) \<Rightarrow> (('d, 'k) wrapper \<Rightarrow> ('d, 'k) wrapper option) \<Rightarrow>
    ('i, 'd, 'k, 'h) two_level \<Rightarrow> ('i, 'd, 'k, 'h) two_level option" where
  "skip_blocks icls dcls block_function step enter t =
     (if iw_iter (tl_data_iter t) = None \<or> \<not> iw_valid (tl_data_iter t)
      then
        if \<not> iw_valid (tl_index_iter t) then SetDataIterator dcls None t
        else do {
          w \<leftarrow> step (tl_index_iter t);
          t \<leftarrow> InitDataBlock icls dcls block_function (t\<lparr>tl_index_iter := w\<rparr>);
          t \<leftarrow> move_data enter t;
          skip_blocks icls dcls block_function step enter t
        }
      else Some t)"

declare skip_blocks.simps [code]

definition SkipEmptyDataBlocksForward where
  "SkipEmptyDataBlocksForward icls dcls block_function =
     skip_blocks icls dcls block_function (iw_Next icls) (iw_SeekToFirst dcls)"

definition SkipEmptyDataBlocksBackward where
  "SkipEmptyDataBlocksBackward icls dcls block_function =
     skip_blocks icls dcls block_function (iw_Prev icls) (iw_SeekToLast dcls)"

definition tl_Seek ::
  "('i, 'k, 'h) iter_class \<Rightarrow> ('d, 'k, 'v) iter_class \<Rightarrow> ('h \<Rightarrow> 'd option) \<Rightarrow> 'k \<Rightarrow>
    ('i, 'd, 'k, 'h) two_level \<Rightarrow> ('i, 'd, 'k, 'h) two_level option" where
  "tl_Seek icls dcls block_function target t = do {
     w \<leftarrow> iw_Seek icls target (tl_index_iter t);
     t \<leftarrow> InitDataBlock icls dcls block_function (t\<lparr>tl_index_iter := w\<rparr>);
     t \<leftarrow> move_data (iw_Seek dcls target) t;
     SkipEmptyDataBlocksForward icls dcls block_function t
   }"

definition tl_SeekToFirst ::
  "('i, 'k, 'h) iter_class \<Rightarrow> ('d, 'k, 'v) iter_class \<Rightarrow> ('h \<Rightarrow> 'd option) \<Rightarrow>
    ('i, 'd, 'k, 'h) two_level \<Rightarrow> ('i, 'd, 'k, 'h) two_level option" where
  "tl_SeekToFirst icls dcls block_function t = do {
     w \<leftarrow> iw_SeekToFirst icls (tl_index_iter t);
     t \<leftarrow> InitDataBlock icls dcls block_function (t\<lparr>tl_index_iter := w\<rparr>);
     t \<leftarrow> move_data (iw_SeekToFirst dcls) t;
     SkipEmptyDataBlocksForward icls dcls block_function t
   }"

definition tl_SeekToLast ::
  "('i, 'k, 'h) iter_class \<Rightarrow> ('d, 'k, 'v) iter_class \<Rightarrow> ('h \<Rightarrow> 'd option) \<Rightarrow>
    ('i, 'd, 'k, 'h) two_level \<Rightarrow> ('i, 'd, 'k, 'h) two_level option" where
  "tl_SeekToLast icls dcls block_function t = do {
     w \<leftarrow> iw_SeekToLast icls (tl_index_iter t);
     t \<leftarrow> InitDataBlock icls dcls block_function (t\<lparr>tl_index_iter := w\<rparr>);
     t \<leftarrow> move_data (iw_SeekToLast dcls) t;
     SkipEmptyDataBlocksBackward icls dcls block_function t
   }"

definition tl_Next ::
  "('i, 'k, 'h) iter_class \<Rightarrow> ('d, 'k, 'v) iter_class \<Rightarrow> ('h \<Rightarrow> 'd option) \<Rightarrow>
    ('i, 'd, 'k, 'h) two_level \<Rightarrow> ('i, 'd, 'k, 'h) two_level option" where
  "tl_Next icls dcls block_function t =
     (if tl_Valid t then do {
        w \<leftarrow> iw_Next dcls (tl_data_iter t);
        SkipEmptyDataBlocksForward icls dcls block_function (t\<lparr>tl_data_iter := w\<rparr>)
      }
      else None)"

definition tl_Prev ::
  "('i, 'k, 'h) iter_class \<Rightarrow> ('d, 'k, 'v) iter_class \<Rightarrow> ('h \<Rightarrow> 'd option) \<Rightarrow>
    ('i, 'd, 'k, 'h) two_level \<Rightarrow> ('i, 'd, 'k, 'h) two_level option" where
  "tl_Prev icls dcls block_function t =
     (if tl_Valid t then do {
        w \<leftarrow> iw_Prev dcls (tl_data_iter t);
        SkipEmptyDataBlocksBackward icls dcls block_function (t\<lparr>tl_data_iter := w\<rparr>)
      }
      else None)"

text \<open>Its virtual methods.\<close>

definition TwoLevel_class ::
  "('i, 'k, 'h) iter_class \<Rightarrow> ('d, 'k, 'v) iter_class \<Rightarrow> ('h \<Rightarrow> 'd option) \<Rightarrow> (('i, 'd, 'k, 'h) two_level, 'k, 'v) iter_class" where
  "TwoLevel_class icls dcls block_function =
     \<lparr>it_Valid = tl_Valid, it_key = tl_key, it_val = tl_value dcls, it_Next = tl_Next icls dcls block_function,
      it_Prev = tl_Prev icls dcls block_function, it_Seek = tl_Seek icls dcls block_function,
      it_SeekToFirst = tl_SeekToFirst icls dcls block_function, it_SeekToLast = tl_SeekToLast icls dcls block_function,
      it_status = tl_get_status icls dcls\<rparr>"
section \<open>Where a two-level iterator stands\<close>

text \<open>The list that an index stands for, and where a block of it begins.\<close>

definition parts :: "('h \<Rightarrow> ('k \<times> 'v) list) \<Rightarrow> ('k \<times> 'h) list \<Rightarrow> ('k \<times> 'v) list" where
  "parts con ixs = concat (map (\<lambda>x. con (snd x)) ixs)"

definition part_start :: "('h \<Rightarrow> ('k \<times> 'v) list) \<Rightarrow> ('k \<times> 'h) list \<Rightarrow> nat \<Rightarrow> nat" where
  "part_start con ixs q = length (parts con (take q ixs))"

text \<open>The key of an index entry separates its block, and those before it, from those behind it.\<close>

definition indexed ::
  "('k \<Rightarrow> bool) \<Rightarrow> ('k \<Rightarrow> 'k \<Rightarrow> int option) \<Rightarrow> ('h \<Rightarrow> ('k \<times> 'v) list) \<Rightarrow> ('k \<times> 'h) list \<Rightarrow> bool" where
  "indexed ok compare con ixs \<longleftrightarrow> ordered ok compare ixs \<and>
     (\<forall>j < length ixs. ordered ok compare (con (snd (ixs ! j))) \<and>
       (\<forall>i < length ixs. \<forall>x \<in> set (con (snd (ixs ! j))). below compare (fst (ixs ! i)) (fst x) \<longleftrightarrow> i < j))"

text \<open>The index stands at a block, and the data iterator, if there is one, somewhere in the block of its handle.\<close>

definition tl_ok where
  "tl_ok istands dstands con t ixs q \<longleftrightarrow> w_stands istands (tl_index_iter t) ixs q \<and> tl_status t = OK \<and>
     (if iw_iter (tl_data_iter t) = None then \<not> iw_valid (tl_data_iter t)
      else \<exists>r. w_stands dstands (tl_data_iter t) (con (tl_data_block_handle t)) r)"

definition tl_at where
  "tl_at istands dstands con t ixs q r \<longleftrightarrow> w_stands istands (tl_index_iter t) ixs q \<and> tl_status t = OK \<and> q < length ixs \<and>
     tl_data_block_handle t = snd (ixs ! q) \<and> w_stands dstands (tl_data_iter t) (con (snd (ixs ! q))) r"

definition tl_end where
  "tl_end istands t ixs \<longleftrightarrow> (\<exists>q. w_stands istands (tl_index_iter t) ixs q) \<and> tl_status t = OK \<and>
     iw_iter (tl_data_iter t) = None \<and> \<not> iw_valid (tl_data_iter t)"

definition two_stands where
  "two_stands ok compare istands dstands block_function t xs p \<longleftrightarrow> (\<exists>con ixs. indexed ok compare con ixs \<and> xs = parts con ixs \<and>
     (\<forall>h \<in> snd ` set ixs. \<exists>d r. block_function h = Some d \<and> dstands d (con h) r) \<and>
     (if p < length xs then \<exists>q r. tl_at istands dstands con t ixs q r \<and> r < length (con (snd (ixs ! q))) \<and> p = part_start con ixs q + r
      else p = length xs \<and> tl_end istands t ixs))"

lemma parts_simps [simp]:
  "parts con [] = []" "parts con (x # ixs) = con (snd x) @ parts con ixs" "parts con (ixs @ jxs) = parts con ixs @ parts con jxs"
  by (simp_all add: parts_def)

lemma part_start_simps [simp]: "part_start con ixs 0 = 0" "part_start con ixs (length ixs) = length (parts con ixs)"
  by (simp_all add: part_start_def)

lemma part_start_Suc: "q < length ixs \<Longrightarrow> part_start con ixs (Suc q) = part_start con ixs q + length (con (snd (ixs ! q)))"
  by (simp add: part_start_def take_Suc_conv_app_nth)

lemma part_last:
  "Suc q = length ixs \<Longrightarrow> part_start con ixs q + length (con (snd (ixs ! q))) = length (parts con ixs)"
  using part_start_Suc [of q ixs con] part_start_simps(2) [of con ixs] by simp

lemma part_split:
  assumes "q < length ixs"
  shows "parts con ixs = parts con (take q ixs) @ con (snd (ixs ! q)) @ parts con (drop (Suc q) ixs)"
  using id_take_nth_drop [OF assms] by (metis append_Cons append_Nil parts_simps(2,3))

lemma part_nth:
  "q < length ixs \<Longrightarrow> r < length (con (snd (ixs ! q))) \<Longrightarrow> parts con ixs ! (part_start con ixs q + r) = con (snd (ixs ! q)) ! r"
  by (subst part_split [of q]) (simp_all add: part_start_def nth_append)

lemma part_start_le:
  "q < length ixs \<Longrightarrow> r \<le> length (con (snd (ixs ! q))) \<Longrightarrow> part_start con ixs q + r \<le> length (parts con ixs)"
  by (subst part_split [of q]) (simp_all add: part_start_def)

text \<open>Every position lies in a block.\<close>

lemma part_find:
  assumes "p < length (parts con ixs)"
  obtains q r where "q < length ixs" "r < length (con (snd (ixs ! q)))" "p = part_start con ixs q + r"
  using assms
proof (induction ixs arbitrary: p thesis)
  case (Cons x ixs)
  show ?case
  proof (cases "p < length (con (snd x))")
    case True
    with Cons.prems(1) [of 0 p] show ?thesis by simp
  next
    case False
    then have "p - length (con (snd x)) < length (parts con ixs)" using Cons.prems(2) by simp
    then obtain q r where q: "q < length ixs" "r < length (con (snd (ixs ! q)))" "p - length (con (snd x)) = part_start con ixs q + r"
      by (rule Cons.IH [rotated])
    with False show ?thesis
      by (intro Cons.prems(1) [of "Suc q" r]) (simp_all add: part_start_def)
  qed
qed simp

lemma part_mono:
  assumes "q < q'" "q' \<le> length ixs" "r < length (con (snd (ixs ! q)))"
  shows "part_start con ixs q + r < part_start con ixs q'"
  using assms(1,2)
proof (induction q')
  case (Suc q')
  show ?case
  proof (cases "q = q'")
    case True
    with Suc.prems assms(3) show ?thesis by (simp add: part_start_Suc)
  next
    case False
    with Suc show ?thesis by (simp add: part_start_Suc)
  qed
qed simp

context key_order
begin

lemma indexed_less:
  "indexed ok compare con ixs \<Longrightarrow> i < length ixs \<Longrightarrow> j < length ixs \<Longrightarrow> x \<in> set (con (snd (ixs ! j))) \<Longrightarrow>
    less (fst (ixs ! i)) (fst x) \<longleftrightarrow> i < j"
  by (simp add: indexed_def)

lemma parts_ordered:
  assumes "indexed ok compare con ixs"
  shows "ordered ok compare (parts con ixs)"
proof -
  let ?k = "\<lambda>q r. fst (con (snd (ixs ! q)) ! r)"
  have oks: "ok (fst x)" if x: "x \<in> set (parts con ixs)" for x
  proof -
    obtain y where "y \<in> set ixs" "x \<in> set (con (snd y))" using x by (auto simp: parts_def)
    then obtain i where "i < length ixs" "x \<in> set (con (snd (ixs ! i)))" by (auto simp: in_set_conv_nth [of y])
    with assms show ?thesis by (auto simp: indexed_def ordered_def)
  qed
  have "less (fst (parts con ixs ! i)) (fst (parts con ixs ! j))" if ij: "i < j" "j < length (parts con ixs)" for i j
  proof -
    obtain a r where a: "a < length ixs" "r < length (con (snd (ixs ! a)))" "i = part_start con ixs a + r"
      using less_trans [OF ij] by (rule part_find)
    obtain b s where b: "b < length ixs" "s < length (con (snd (ixs ! b)))" "j = part_start con ixs b + s"
      using ij(2) by (rule part_find)
    have ab: "a \<le> b"
    proof (rule ccontr)
      assume "\<not> a \<le> b"
      then have "part_start con ixs b + s < part_start con ixs a" using part_mono [of b a ixs s con] a(1) b(2) by simp
      with a(3) b(3) ij(1) show False by simp
    qed
    have nth: "parts con ixs ! i = con (snd (ixs ! a)) ! r" "parts con ixs ! j = con (snd (ixs ! b)) ! s"
      using part_nth [where con = con, OF a(1,2)] part_nth [where con = con, OF b(1,2)] a(3) b(3) by simp_all
    show ?thesis
    proof (cases "a = b")
      case True
      have "ordered ok compare (con (snd (ixs ! b)))" using assms b(1) by (simp add: indexed_def)
      then show ?thesis unfolding nth using True a b ij(1) ordered_nth [of "con (snd (ixs ! b))" r s] by simp
    next
      case False
      let ?x = "con (snd (ixs ! a)) ! r" and ?y = "con (snd (ixs ! b)) ! s" and ?m = "fst (ixs ! a)"
      have xy: "?x \<in> set (con (snd (ixs ! a)))" "?y \<in> set (con (snd (ixs ! b)))" using a b by simp_all
      have x: "\<not> less ?m (fst ?x)" and y: "less ?m (fst ?y)"
        using indexed_less [OF assms a(1) a(1) xy(1)] indexed_less [OF assms a(1) b(1) xy(2)] False ab by simp_all
      have m: "ok ?m" "ok (fst ?x)" "ok (fst ?y)"
        using assms a b oks [of "parts con ixs ! i"] oks [of "parts con ixs ! j"] ij by (auto simp: indexed_def ordered_def nth)
      show ?thesis unfolding nth using x y not_below [OF m(1,2)] trans [OF m(2,1,3)] by metis
    qed
  qed
  with oks show ?thesis by (auto simp: ordered_def sorted_wrt_iff_nth_less)
qed

text \<open>The block in which a target is searched.\<close>

lemma parts_lower_bound:
  assumes idx: "indexed ok compare con ixs" and t: "ok target"
  defines "q \<equiv> lower_bound compare target ixs"
  shows "lower_bound compare target (parts con ixs) =
    (if q < length ixs then part_start con ixs q + lower_bound compare target (con (snd (ixs ! q))) else length (parts con ixs))"
proof -
  let ?xs = "parts con ixs" and ?r = "lower_bound compare target (con (snd (ixs ! q)))"
  have ixs: "ordered ok compare ixs" using idx by (simp add: indexed_def)
  have before: "less (fst (con (snd (ixs ! a)) ! r)) target"
    if "a < q" "a < length ixs" "r < length (con (snd (ixs ! a)))" for a r
  proof -
    let ?x = "con (snd (ixs ! a)) ! r"
    have x: "?x \<in> set (con (snd (ixs ! a)))" using that(3) by simp
    then have "\<not> less (fst (ixs ! a)) (fst ?x)" "ok (fst ?x)" "ok (fst (ixs ! a))"
      using idx that(2) by (auto simp: indexed_def ordered_def)
    moreover have "less (fst (ixs ! a)) target" using that(1) lower_bound_below [of a compare target ixs] by (simp add: q_def)
    ultimately show ?thesis using trans t not_below by metis
  qed
  have behind: "\<not> less (fst (con (snd (ixs ! b)) ! r)) target"
    if "q < b" "b < length ixs" "r < length (con (snd (ixs ! b)))" for b r
  proof -
    let ?x = "con (snd (ixs ! b)) ! r"
    have q: "q < length ixs" using that(1,2) by simp
    have x: "?x \<in> set (con (snd (ixs ! b)))" using that(3) by simp
    then have "less (fst (ixs ! q)) (fst ?x)" "ok (fst ?x)" "ok (fst (ixs ! q))"
      using idx that q by (auto simp: indexed_def ordered_def)
    moreover have "\<not> less (fst (ixs ! q)) target" using lower_bound_reached [of compare target ixs] q by (simp add: q_def)
    ultimately show ?thesis using trans t by metis
  qed
  show ?thesis
  proof (cases "q < length ixs")
    case True
    have "lower_bound compare target ?xs = part_start con ixs q + ?r"
    proof (rule lower_bound_eqI)
      show "part_start con ixs q + ?r \<le> length ?xs" using True by (intro part_start_le) simp_all
      fix j assume j: "j < part_start con ixs q + ?r"
      also have "\<dots> \<le> length ?xs" using True by (intro part_start_le) simp_all
      finally obtain a r where a: "a < length ixs" "r < length (con (snd (ixs ! a)))" "j = part_start con ixs a + r"
        by (rule part_find)
      have "a \<le> q"
      proof (rule ccontr)
        assume "\<not> a \<le> q"
        then have "part_start con ixs (Suc q) \<le> part_start con ixs a"
        proof (cases "a = Suc q")
          case False
          with \<open>\<not> a \<le> q\<close> a(1) show ?thesis
            unfolding part_start_def using take_add [of "Suc q" "a - Suc q" ixs] by simp
        qed simp
        with j a(3) True show False using lower_bound_le [of compare target "con (snd (ixs ! q))"] by (simp add: part_start_Suc)
      qed
      then show "less (fst (?xs ! j)) target"
        using before [OF _ a(1,2)] j a part_nth [where con = con, OF a(1,2)] lower_bound_below [of r compare target "con (snd (ixs ! q))"]
        by (cases "a = q") auto
    next
      assume less: "part_start con ixs q + ?r < length ?xs"
      show "\<not> less (fst (?xs ! (part_start con ixs q + ?r))) target"
      proof (cases "?r < length (con (snd (ixs ! q)))")
        case r: True
        then show ?thesis using lower_bound_reached [OF r] part_nth [where con = con, OF True r] by simp
      next
        case False
        then have e: "part_start con ixs q + ?r = part_start con ixs (Suc q)"
          using True lower_bound_le [of compare target "con (snd (ixs ! q))"] by (simp add: part_start_Suc)
        obtain b r where b: "b < length ixs" "r < length (con (snd (ixs ! b)))" "part_start con ixs (Suc q) = part_start con ixs b + r"
          using less unfolding e by (rule part_find)
        have "q < b"
        proof (rule ccontr)
          assume "\<not> q < b"
          then have "part_start con ixs b + r < part_start con ixs (Suc q)" using part_mono [of b "Suc q" ixs r con] b True by simp
          with b(3) show False by simp
        qed
        then show ?thesis unfolding e b(3) part_nth [where con = con, OF b(1,2)] by (rule behind [OF _ b(1,2)])
      qed
    qed
    with True show ?thesis by simp
  next
    case False
    then have q: "q = length ixs" unfolding q_def using lower_bound_le [of compare target ixs] by simp
    have "lower_bound compare target ?xs = length ?xs"
    proof (rule lower_bound_eqI)
      fix j assume "j < length ?xs"
      then obtain a r where a: "a < length ixs" "r < length (con (snd (ixs ! a)))" "j = part_start con ixs a + r" by (rule part_find)
      then show "less (fst (?xs ! j)) target" using before [OF _ a(1,2)] q part_nth [where con = con, OF a(1,2)] by simp
    qed simp_all
    with False show ?thesis by simp
  qed
qed

end
section \<open>Moving\<close>

text \<open>Iterators whose status is fine as long as they stand somewhere.\<close>

locale sound_class = iter_class +
  assumes status: "stands it xs p \<Longrightarrow> it_status cls it = Some OK"
begin

lemma iw_status_OK: "w_stands stands w xs p \<Longrightarrow> iw_status cls w = Some OK"
  using status by (auto simp: w_stands_def iw_status_def)

lemma iw_Set_stands: "stands it xs p \<Longrightarrow> \<exists>w'. iw_Set cls (Some it) w = Some w' \<and> w_stands stands w' xs p"
  using Update_stands [of "w\<lparr>iw_iter := Some it\<rparr>" it xs p] by (simp add: iw_Set_def Let_def)

end

locale two_levels = i: sound_class ok compare istands icls + d: sound_class ok compare dstands dcls
  for ok :: "'k \<Rightarrow> bool" and compare :: "'k \<Rightarrow> 'k \<Rightarrow> int option"
    and istands :: "'i \<Rightarrow> ('k \<times> 'h) list \<Rightarrow> nat \<Rightarrow> bool" and icls :: "('i, 'k, 'h) iter_class"
    and dstands :: "'d \<Rightarrow> ('k \<times> 'v) list \<Rightarrow> nat \<Rightarrow> bool" and dcls :: "('d, 'k, 'v) iter_class" +
  fixes block_function :: "'h \<Rightarrow> 'd option"
begin

abbreviation "okay \<equiv> tl_ok istands dstands"
abbreviation "standing \<equiv> tl_at istands dstands"
abbreviation "ended \<equiv> tl_end istands"

lemma wrapped_iter: "w_stands dstands w xs r \<Longrightarrow> \<exists>it. iw_iter w = Some it"
  by (auto simp: w_stands_def)

lemma standing_okay: "standing con t ixs q r \<Longrightarrow> okay con t ixs q"
  using wrapped_iter by (fastforce simp: tl_at_def tl_ok_def)

lemma SetDataIterator_eq:
  assumes "tl_status t = OK" "iw_iter (tl_data_iter t) \<noteq> None \<Longrightarrow> iw_status dcls (tl_data_iter t) = Some OK"
  shows "SetDataIterator dcls it t = do { w \<leftarrow> iw_Set dcls it (tl_data_iter t); Some (t\<lparr>tl_data_iter := w\<rparr>) }"
  using assms by (auto simp: SetDataIterator_def SaveError_def status_ok_def split: option.split)

lemma okay_status:
  assumes "okay con t ixs q"
  shows "tl_status t = OK" "iw_iter (tl_data_iter t) \<noteq> None \<Longrightarrow> iw_status dcls (tl_data_iter t) = Some OK"
  using assms d.iw_status_OK by (auto simp: tl_ok_def split: if_splits)

lemma SetDataIterator_None:
  assumes "okay con t ixs q"
  shows "\<exists>t'. SetDataIterator dcls None t = Some t' \<and> ended t' ixs \<and> okay con t' ixs q"
  using assms by (auto simp: SetDataIterator_eq [OF okay_status [OF assms]] iw_Set_def tl_end_def tl_ok_def)

definition opens :: "('h \<Rightarrow> ('k \<times> 'v) list) \<Rightarrow> ('k \<times> 'h) list \<Rightarrow> bool" where
  "opens con ixs \<longleftrightarrow> (\<forall>h \<in> snd ` set ixs. \<exists>d r. block_function h = Some d \<and> dstands d (con h) r)"

lemma Init_block:
  assumes "okay con t ixs q" "opens con ixs" "q < length ixs"
  shows "\<exists>t' r. InitDataBlock icls dcls block_function t = Some t' \<and> standing con t' ixs q r"
proof -
  let ?h = "snd (ixs ! q)"
  have i: "w_stands istands (tl_index_iter t) ixs q" using assms(1) by (simp add: tl_ok_def)
  then have v: "iw_valid (tl_index_iter t)" "iw_value icls (tl_index_iter t) = Some ?h"
    using i.wrapped.Valid [OF i] i.wrapped.entry [OF i assms(3)] assms(3) by simp_all
  show ?thesis
  proof (cases "iw_iter (tl_data_iter t) \<noteq> None \<and> ?h = tl_data_block_handle t")
    case True
    with assms(1) obtain r where "w_stands dstands (tl_data_iter t) (con ?h) r" by (auto simp: tl_ok_def split: if_splits)
    then have "standing con t ixs q r" using assms(1,3) True by (simp add: tl_at_def tl_ok_def)
    with v True show ?thesis by (auto simp: InitDataBlock_def)
  next
    case False
    obtain it r where it: "block_function ?h = Some it" "dstands it (con ?h) r"
      using assms(2,3) by (fastforce simp: opens_def)
    obtain w where w: "iw_Set dcls (Some it) (tl_data_iter t) = Some w" "w_stands dstands w (con ?h) r"
      using d.iw_Set_stands [OF it(2)] by blast
    have "SetDataIterator dcls (Some it) (t\<lparr>tl_data_block_handle := ?h\<rparr>) = Some (t\<lparr>tl_data_block_handle := ?h, tl_data_iter := w\<rparr>)"
      using w(1) okay_status [OF assms(1)] by (subst SetDataIterator_eq) simp_all
    moreover have "standing con (t\<lparr>tl_data_block_handle := ?h, tl_data_iter := w\<rparr>) ixs q r"
      using assms(1,3) w(2) by (simp add: tl_at_def tl_ok_def)
    ultimately show ?thesis using v False it(1) by (auto simp: InitDataBlock_def)
  qed
qed

lemma Init_end:
  assumes "okay con t ixs q" "\<not> q < length ixs"
  shows "\<exists>t'. InitDataBlock icls dcls block_function t = Some t' \<and> ended t' ixs \<and> okay con t' ixs q"
proof -
  have "\<not> iw_valid (tl_index_iter t)"
    using assms by (auto simp: tl_ok_def dest!: i.wrapped.Valid)
  with SetDataIterator_None [OF assms(1)] show ?thesis by (simp add: InitDataBlock_def)
qed

lemma move_data_stands:
  assumes "standing con t ixs q r" "\<And>w. w_stands dstands w (con (snd (ixs ! q))) r \<Longrightarrow> \<exists>w'. move w = Some w' \<and> w_stands dstands w' (con (snd (ixs ! q))) r'"
  shows "\<exists>t'. move_data move t = Some t' \<and> standing con t' ixs q r'"
proof -
  have w: "w_stands dstands (tl_data_iter t) (con (snd (ixs ! q))) r" using assms(1) by (simp add: tl_at_def)
  obtain w' where "move (tl_data_iter t) = Some w'" "w_stands dstands w' (con (snd (ixs ! q))) r'" using assms(2) [OF w] by blast
  with wrapped_iter [OF w] assms(1) show ?thesis by (auto simp: move_data_def tl_at_def)
qed

lemma move_data_end: "ended t ixs \<Longrightarrow> move_data move t = Some t"
  by (simp add: move_data_def tl_end_def)

lemma okay_index: "okay con t ixs q \<Longrightarrow> w_stands istands w ixs q' \<Longrightarrow> okay con (t\<lparr>tl_index_iter := w\<rparr>) ixs q'"
  by (simp add: tl_ok_def)

text \<open>The index moves to another block, and the data iterator to a position in it.\<close>

lemma enter_block:
  assumes "okay con t ixs q" "opens con ixs"
    and step: "\<exists>w'. step (tl_index_iter t) = Some w' \<and> w_stands istands w' ixs q'"
    and enter: "\<And>w r. q' < length ixs \<Longrightarrow> w_stands dstands w (con (snd (ixs ! q'))) r \<Longrightarrow>
      \<exists>w'. enter w = Some w' \<and> w_stands dstands w' (con (snd (ixs ! q'))) r'"
  shows "\<exists>t'. do { w \<leftarrow> step (tl_index_iter t); t \<leftarrow> InitDataBlock icls dcls block_function (t\<lparr>tl_index_iter := w\<rparr>); move_data enter t } = Some t' \<and>
    (if q' < length ixs then standing con t' ixs q' r' else ended t' ixs \<and> okay con t' ixs q')"
proof -
  obtain w where w: "step (tl_index_iter t) = Some w" "w_stands istands w ixs q'" using step by blast
  note ok = okay_index [OF assms(1) w(2)]
  show ?thesis
  proof (cases "q' < length ixs")
    case True
    obtain t1 r where t1: "InitDataBlock icls dcls block_function (t\<lparr>tl_index_iter := w\<rparr>) = Some t1" "standing con t1 ixs q' r"
      using Init_block [OF ok assms(2) True] by blast
    obtain t2 where "move_data enter t1 = Some t2" "standing con t2 ixs q' r'"
      using move_data_stands [OF t1(2)] enter [OF True] by blast
    with w(1) t1(1) True show ?thesis by simp
  next
    case False
    obtain t1 where t1: "InitDataBlock icls dcls block_function (t\<lparr>tl_index_iter := w\<rparr>) = Some t1" "ended t1 ixs" "okay con t1 ixs q'"
      using Init_end [OF ok False] by blast
    with w(1) move_data_end [OF t1(2)] False show ?thesis by simp
  qed
qed

abbreviation "skip \<equiv> skip_blocks icls dcls block_function"

lemma skip_stays:
  assumes "standing con t ixs q r" "r < length (con (snd (ixs ! q)))"
  shows "skip step enter t = Some t"
proof -
  have w: "w_stands dstands (tl_data_iter t) (con (snd (ixs ! q))) r" using assms(1) by (simp add: tl_at_def)
  with wrapped_iter [OF w] d.wrapped.Valid [OF w] assms(2) show ?thesis by (auto simp: skip_blocks.simps [of _ _ _ _ _ t])
qed

lemma skip_end:
  assumes "ended t ixs" "okay con t ixs q" "\<not> q < length ixs"
  shows "\<exists>t'. skip step enter t = Some t' \<and> ended t' ixs"
proof -
  have "\<not> iw_valid (tl_index_iter t)" using assms(2,3) by (auto simp: tl_ok_def dest!: i.wrapped.Valid)
  with assms(1) SetDataIterator_None [OF assms(2)] show ?thesis
    by (auto simp: skip_blocks.simps [of _ _ _ _ _ t] tl_end_def)
qed

lemma skip_moves:
  assumes "standing con t ixs q r" "\<not> r < length (con (snd (ixs ! q)))" "opens con ixs"
    and "\<exists>w'. step (tl_index_iter t) = Some w' \<and> w_stands istands w' ixs q'"
    and "\<And>w r. q' < length ixs \<Longrightarrow> w_stands dstands w (con (snd (ixs ! q'))) r \<Longrightarrow>
      \<exists>w'. enter w = Some w' \<and> w_stands dstands w' (con (snd (ixs ! q'))) r'"
  shows "\<exists>t'. skip step enter t = skip step enter t' \<and>
    (if q' < length ixs then standing con t' ixs q' r' else ended t' ixs \<and> okay con t' ixs q')"
proof -
  obtain t' where t': "do { w \<leftarrow> step (tl_index_iter t); t \<leftarrow> InitDataBlock icls dcls block_function (t\<lparr>tl_index_iter := w\<rparr>); move_data enter t } = Some t'"
    "if q' < length ixs then standing con t' ixs q' r' else ended t' ixs \<and> okay con t' ixs q'"
    using enter_block [of con t ixs q step q' enter r'] standing_okay [OF assms(1)] assms(3-5) by blast
  have w: "w_stands dstands (tl_data_iter t) (con (snd (ixs ! q))) r" and i: "w_stands istands (tl_index_iter t) ixs q" "q < length ixs"
    using assms(1) by (simp_all add: tl_at_def)
  have "\<not> iw_valid (tl_data_iter t)" "iw_valid (tl_index_iter t)"
    using d.wrapped.Valid [OF w] assms(2) i.wrapped.Valid [OF i(1)] i(2) by simp_all
  with t' show ?thesis by (intro exI [of _ t']) (auto simp: skip_blocks.simps [of _ _ _ _ _ t])
qed

end
section \<open>A two-level iterator is an iterator\<close>

context two_levels
begin

abbreviation "two_at \<equiv> two_stands ok compare istands dstands block_function"

lemma lands:
  assumes "indexed ok compare con ixs" "opens con ixs" "standing con t ixs q r" "r < length (con (snd (ixs ! q)))"
  shows "two_at t (parts con ixs) (part_start con ixs q + r)"
proof -
  have "q < length ixs" using assms(3) by (simp add: tl_at_def)
  then have "part_start con ixs q + r < length (parts con ixs)" using part_mono [of q "length ixs" ixs r con] assms(4) by simp
  with assms show ?thesis unfolding two_stands_def opens_def by (intro exI [of _ con] exI [of _ ixs]) auto
qed

lemma lands_end: "indexed ok compare con ixs \<Longrightarrow> opens con ixs \<Longrightarrow> ended t ixs \<Longrightarrow> two_at t (parts con ixs) (length (parts con ixs))"
  unfolding two_stands_def opens_def by (intro exI [of _ con] exI [of _ ixs]) simp

lemma two_cases:
  assumes "two_at t xs p"
  obtains (inside) con ixs q r where "indexed ok compare con ixs" "opens con ixs" "xs = parts con ixs" "standing con t ixs q r"
      "r < length (con (snd (ixs ! q)))" "p = part_start con ixs q + r" "p < length xs"
    | (outside) con ixs where "indexed ok compare con ixs" "opens con ixs" "xs = parts con ixs" "p = length xs" "ended t ixs"
  using assms unfolding two_stands_def opens_def by (auto split: if_splits)

lemma SkipForward_lands:
  assumes "indexed ok compare con ixs" "opens con ixs" "standing con t ixs q r"
  shows "\<exists>t'. SkipEmptyDataBlocksForward icls dcls block_function t = Some t' \<and> two_at t' (parts con ixs) (part_start con ixs q + r)"
  unfolding SkipEmptyDataBlocksForward_def
  using assms(3)
proof (induction "length ixs - q" arbitrary: t q r rule: less_induct)
  case less
  have q: "q < length ixs" and i: "w_stands istands (tl_index_iter t) ixs q" and d: "w_stands dstands (tl_data_iter t) (con (snd (ixs ! q))) r"
    using less.prems by (simp_all add: tl_at_def)
  show ?case
  proof (cases "r < length (con (snd (ixs ! q)))")
    case True
    with lands [OF assms(1,2) less.prems] skip_stays [OF less.prems] show ?thesis by simp
  next
    case False
    then have r: "r = length (con (snd (ixs ! q)))" using d.wrapped.position [OF d] by simp
    obtain t' where t': "skip (iw_Next icls) (iw_SeekToFirst dcls) t = skip (iw_Next icls) (iw_SeekToFirst dcls) t'"
        "if Suc q < length ixs then standing con t' ixs (Suc q) 0 else ended t' ixs \<and> okay con t' ixs (Suc q)"
      using skip_moves [where con = con and step = "iw_Next icls" and enter = "iw_SeekToFirst dcls" and r' = 0, OF less.prems False assms(2) i.wrapped.Next [OF i q]] d.wrapped.SeekToFirst by blast
    show ?thesis
    proof (cases "Suc q < length ixs")
      case True
      then have "standing con t' ixs (Suc q) 0" using t'(2) by simp
      from less.hyps [OF _ this] q t'(1) r show ?thesis by (simp add: part_start_Suc)
    next
      case fin: False
      then have "Suc q = length ixs" using q by simp
      then have "part_start con ixs q + r = length (parts con ixs)" using part_last r by blast
      with fin t' skip_end [of t' ixs con "Suc q"] lands_end [OF assms(1,2)] show ?thesis by metis
    qed
  qed
qed

lemma SkipForward_end:
  assumes "indexed ok compare con ixs" "opens con ixs" "ended t ixs" "okay con t ixs q" "\<not> q < length ixs"
  shows "\<exists>t'. SkipEmptyDataBlocksForward icls dcls block_function t = Some t' \<and> two_at t' (parts con ixs) (length (parts con ixs))"
  unfolding SkipEmptyDataBlocksForward_def using skip_end [OF assms(3-5)] lands_end [OF assms(1,2)] by metis

lemma SkipBackward_lands:
  assumes "indexed ok compare con ixs" "opens con ixs" "standing con t ixs q r"
  shows "\<exists>t'. SkipEmptyDataBlocksBackward icls dcls block_function t = Some t' \<and> two_at t' (parts con ixs)
    (if r < length (con (snd (ixs ! q))) then part_start con ixs q + r else last_before (part_start con ixs q) (parts con ixs))"
  unfolding SkipEmptyDataBlocksBackward_def
  using assms(3)
proof (induction q arbitrary: t r)
  case 0
  have q: "0 < length ixs" and i: "w_stands istands (tl_index_iter t) ixs 0" using "0.prems" by (simp_all add: tl_at_def)
  show ?case
  proof (cases "r < length (con (snd (ixs ! 0)))")
    case True
    with lands [OF assms(1,2) "0.prems"] skip_stays [OF "0.prems"] show ?thesis by simp
  next
    case False
    have "\<exists>w'. iw_Prev icls (tl_index_iter t) = Some w' \<and> w_stands istands w' ixs (length ixs)"
      using i.wrapped.Prev [OF i q] by simp
    from skip_moves [where con = con and step = "iw_Prev icls" and enter = "iw_SeekToLast dcls" and r' = 0, OF "0.prems" False assms(2) this]
    obtain t' where t': "skip (iw_Prev icls) (iw_SeekToLast dcls) t = skip (iw_Prev icls) (iw_SeekToLast dcls) t'"
        "ended t' ixs \<and> okay con t' ixs (length ixs)" by auto
    have "\<exists>t''. skip (iw_Prev icls) (iw_SeekToLast dcls) t' = Some t'' \<and> ended t'' ixs"
      using t'(2) by (intro skip_end) auto
    with t'(1) lands_end [OF assms(1,2)] False show ?thesis by (auto simp: last_before_def)
  qed
next
  case (Suc q)
  have q: "Suc q < length ixs" and i: "w_stands istands (tl_index_iter t) ixs (Suc q)" using Suc.prems by (simp_all add: tl_at_def)
  show ?case
  proof (cases "r < length (con (snd (ixs ! Suc q)))")
    case True
    with lands [OF assms(1,2) Suc.prems] skip_stays [OF Suc.prems] show ?thesis by simp
  next
    case False
    let ?n = "length (con (snd (ixs ! q)))"
    have "\<exists>w'. iw_Prev icls (tl_index_iter t) = Some w' \<and> w_stands istands w' ixs q"
      using i.wrapped.Prev [OF i q] by simp
    from skip_moves [where con = con and step = "iw_Prev icls" and enter = "iw_SeekToLast dcls" and r' = "?n - 1",
        OF Suc.prems False assms(2) this] d.wrapped.SeekToLast q
    obtain t' where t': "skip (iw_Prev icls) (iw_SeekToLast dcls) t = skip (iw_Prev icls) (iw_SeekToLast dcls) t'"
        "standing con t' ixs q (?n - 1)" by auto
    have "(if ?n - 1 < ?n then part_start con ixs q + (?n - 1) else last_before (part_start con ixs q) (parts con ixs)) =
        last_before (part_start con ixs (Suc q)) (parts con ixs)"
      using q by (auto simp: part_start_Suc last_before_def)
    with Suc.IH [OF t'(2)] t'(1) False show ?thesis by simp
  qed
qed

text \<open>Entering a block at the beginning of an operation.\<close>

lemma two_okay: "two_at t xs p \<Longrightarrow> \<exists>con ixs q. indexed ok compare con ixs \<and> opens con ixs \<and> xs = parts con ixs \<and> okay con t ixs q"
  by (erule two_cases) (use standing_okay in \<open>blast, fastforce simp: tl_end_def tl_ok_def\<close>)

lemma Seek_lands:
  assumes "two_at t xs p" "ok target"
  shows "\<exists>t'. tl_Seek icls dcls block_function target t = Some t' \<and> two_at t' xs (lower_bound compare target xs)"
proof -
  obtain con ixs q where t: "indexed ok compare con ixs" "opens con ixs" "xs = parts con ixs" "okay con t ixs q"
    using two_okay [OF assms(1)] by blast
  let ?q = "lower_bound compare target ixs" and ?r = "lower_bound compare target (con (snd (ixs ! lower_bound compare target ixs)))"
  have i: "w_stands istands (tl_index_iter t) ixs q" using t(4) by (simp add: tl_ok_def)
  obtain t1 where t1: "do { w \<leftarrow> iw_Seek icls target (tl_index_iter t); t \<leftarrow> InitDataBlock icls dcls block_function (t\<lparr>tl_index_iter := w\<rparr>);
        move_data (iw_Seek dcls target) t } = Some t1"
      "if ?q < length ixs then standing con t1 ixs ?q ?r else ended t1 ixs \<and> okay con t1 ixs ?q"
    using enter_block [where con = con and step = "iw_Seek icls target" and enter = "iw_Seek dcls target" and r' = ?r,
        OF t(4,2) i.wrapped.Seek [OF i assms(2)]] d.wrapped.Seek [OF _ assms(2)] by blast
  have eq: "tl_Seek icls dcls block_function target t = SkipEmptyDataBlocksForward icls dcls block_function t1"
    using t1(1) by (auto simp: tl_Seek_def)
  show ?thesis
  proof (cases "?q < length ixs")
    case True
    then show ?thesis unfolding eq t(3) i.parts_lower_bound [OF t(1) assms(2)] using SkipForward_lands [OF t(1,2)] t1(2) by simp
  next
    case False
    then show ?thesis unfolding eq t(3) i.parts_lower_bound [OF t(1) assms(2)] using SkipForward_end [OF t(1,2), of t1 ?q] t1(2) by simp
  qed
qed

lemma SeekToFirst_lands:
  assumes "two_at t xs p"
  shows "\<exists>t'. tl_SeekToFirst icls dcls block_function t = Some t' \<and> two_at t' xs 0"
proof -
  obtain con ixs q where t: "indexed ok compare con ixs" "opens con ixs" "xs = parts con ixs" "okay con t ixs q"
    using two_okay [OF assms] by blast
  have i: "w_stands istands (tl_index_iter t) ixs q" using t(4) by (simp add: tl_ok_def)
  obtain t1 where t1: "do { w \<leftarrow> iw_SeekToFirst icls (tl_index_iter t); t \<leftarrow> InitDataBlock icls dcls block_function (t\<lparr>tl_index_iter := w\<rparr>);
        move_data (iw_SeekToFirst dcls) t } = Some t1"
      "if 0 < length ixs then standing con t1 ixs 0 0 else ended t1 ixs \<and> okay con t1 ixs 0"
    using enter_block [where con = con and step = "iw_SeekToFirst icls" and enter = "iw_SeekToFirst dcls" and r' = 0,
        OF t(4,2) i.wrapped.SeekToFirst [OF i]] d.wrapped.SeekToFirst by blast
  have eq: "tl_SeekToFirst icls dcls block_function t = SkipEmptyDataBlocksForward icls dcls block_function t1"
    using t1(1) by (auto simp: tl_SeekToFirst_def)
  show ?thesis
  proof (cases "0 < length ixs")
    case True
    then show ?thesis unfolding eq t(3) using SkipForward_lands [OF t(1,2), of t1 0 0] t1(2) by simp
  next
    case False
    then show ?thesis unfolding eq t(3) using SkipForward_end [OF t(1,2), of t1 0] t1(2) by simp
  qed
qed

lemma SeekToLast_lands:
  assumes "two_at t xs p"
  shows "\<exists>t'. tl_SeekToLast icls dcls block_function t = Some t' \<and> two_at t' xs (length xs - 1)"
proof -
  obtain con ixs q where t: "indexed ok compare con ixs" "opens con ixs" "xs = parts con ixs" "okay con t ixs q"
    using two_okay [OF assms] by blast
  have i: "w_stands istands (tl_index_iter t) ixs q" using t(4) by (simp add: tl_ok_def)
  let ?q = "length ixs - 1" let ?n = "length (con (snd (ixs ! ?q)))"
  obtain t1 where t1: "do { w \<leftarrow> iw_SeekToLast icls (tl_index_iter t); t \<leftarrow> InitDataBlock icls dcls block_function (t\<lparr>tl_index_iter := w\<rparr>);
        move_data (iw_SeekToLast dcls) t } = Some t1"
      "if ?q < length ixs then standing con t1 ixs ?q (?n - 1) else ended t1 ixs \<and> okay con t1 ixs ?q"
    using enter_block [where con = con and step = "iw_SeekToLast icls" and enter = "iw_SeekToLast dcls" and r' = "?n - 1",
        OF t(4,2) i.wrapped.SeekToLast [OF i]] d.wrapped.SeekToLast by blast
  have eq: "tl_SeekToLast icls dcls block_function t = SkipEmptyDataBlocksBackward icls dcls block_function t1"
    using t1(1) by (auto simp: tl_SeekToLast_def)
  show ?thesis
  proof (cases "ixs = []")
    case False
    then have q: "?q < length ixs" by simp
    have len: "length (parts con ixs) = part_start con ixs ?q + ?n"
      using part_last [of ?q ixs con] q by simp
    have "(if ?n - 1 < ?n then part_start con ixs ?q + (?n - 1) else last_before (part_start con ixs ?q) (parts con ixs)) = length (parts con ixs) - 1"
      by (cases "con (snd (ixs ! ?q)) = []") (simp_all add: len last_before_def Suc_leI)
    then show ?thesis unfolding eq t(3) using SkipBackward_lands [OF t(1,2), of t1 ?q "?n - 1"] t1(2) q by simp
  next
    case True
    then have "ended t1 ixs" "okay con t1 ixs 0" using t1(2) by simp_all
    then have "\<exists>t'. skip (iw_Prev icls) (iw_SeekToLast dcls) t1 = Some t' \<and> ended t' ixs" using True by (intro skip_end) auto
    then show ?thesis unfolding eq t(3) SkipEmptyDataBlocksBackward_def using lands_end [OF t(1,2)] True by fastforce
  qed
qed

lemma Next_lands:
  assumes "two_at t xs p" "p < length xs"
  shows "\<exists>t'. tl_Next icls dcls block_function t = Some t' \<and> two_at t' xs (Suc p)"
  using assms(1)
proof (cases rule: two_cases)
  case (inside con ixs q r)
  have d: "w_stands dstands (tl_data_iter t) (con (snd (ixs ! q))) r" using inside(4) by (simp add: tl_at_def)
  obtain w where w: "iw_Next dcls (tl_data_iter t) = Some w" "w_stands dstands w (con (snd (ixs ! q))) (Suc r)"
    using d.wrapped.Next [OF d inside(5)] by blast
  have "standing con (t\<lparr>tl_data_iter := w\<rparr>) ixs q (Suc r)" using inside(4) w(2) by (simp add: tl_at_def)
  from SkipForward_lands [OF inside(1,2) this] w(1) d.wrapped.Valid [OF d] inside(3,5,6) show ?thesis
    by (simp add: tl_Next_def tl_Valid_def)
qed (use assms(2) in simp)

lemma Prev_lands:
  assumes "two_at t xs p" "p < length xs"
  shows "\<exists>t'. tl_Prev icls dcls block_function t = Some t' \<and> two_at t' xs (if p = 0 then length xs else p - 1)"
  using assms(1)
proof (cases rule: two_cases)
  case (inside con ixs q r)
  let ?n = "length (con (snd (ixs ! q)))" let ?r = "if r = 0 then ?n else r - 1"
  have d: "w_stands dstands (tl_data_iter t) (con (snd (ixs ! q))) r" using inside(4) by (simp add: tl_at_def)
  obtain w where w: "iw_Prev dcls (tl_data_iter t) = Some w" "w_stands dstands w (con (snd (ixs ! q))) ?r"
    using d.wrapped.Prev [OF d inside(5)] by blast
  have "standing con (t\<lparr>tl_data_iter := w\<rparr>) ixs q ?r" using inside(4) w(2) by (simp add: tl_at_def)
  moreover have "(if ?r < ?n then part_start con ixs q + ?r else last_before (part_start con ixs q) (parts con ixs)) =
      (if p = 0 then length xs else p - 1)"
    using inside(3,5,6) by (auto simp: last_before_def)
  ultimately show ?thesis
    using SkipBackward_lands [OF inside(1,2), of "t\<lparr>tl_data_iter := w\<rparr>" q ?r] w(1) d.wrapped.Valid [OF d] inside(3,5)
    by (simp add: tl_Prev_def tl_Valid_def)
qed (use assms(2) in simp)

end

sublocale two_levels \<subseteq> two: sound_class ok compare "two_stands ok compare istands dstands block_function"
  "TwoLevel_class icls dcls block_function"
proof (unfold_locales, goal_cases)
  case (1 t xs p)
  then show ?case using i.parts_ordered by (auto simp: two_stands_def split: if_splits)
next
  case (2 t xs p)
  then show ?case
    by (cases rule: two_cases) (auto simp: TwoLevel_class_def tl_Valid_def tl_at_def tl_end_def dest!: d.wrapped.Valid)
next
  case (3 t xs p)
  from 3(1) show ?case
  proof (cases rule: two_cases)
    case (inside con ixs q r)
    have w: "w_stands dstands (tl_data_iter t) (con (snd (ixs ! q))) r" "q < length ixs" using inside(4) by (simp_all add: tl_at_def)
    from d.wrapped.entry [OF w(1) inside(5)] part_nth [where con = con, OF w(2) inside(5)] inside(3,6) show ?thesis
      by (simp add: TwoLevel_class_def tl_key_def tl_value_def)
  qed (use 3(2) in simp)
next
  case (4 t xs p)
  then show ?case using Next_lands by (simp add: TwoLevel_class_def)
next
  case (5 t xs p)
  then show ?case using Prev_lands by (simp add: TwoLevel_class_def)
next
  case (6 t xs p target)
  then show ?case using Seek_lands by (simp add: TwoLevel_class_def)
next
  case (7 t xs p)
  then show ?case using SeekToFirst_lands by (simp add: TwoLevel_class_def)
next
  case (8 t xs p)
  then show ?case using SeekToLast_lands by (simp add: TwoLevel_class_def)
next
  case (9 t xs p)
  then obtain con ixs q where t: "okay con t ixs q" using two_okay by blast
  then have "iw_status icls (tl_index_iter t) = Some OK" using i.iw_status_OK by (auto simp: tl_ok_def)
  with okay_status [OF t] show ?case
    by (auto simp: TwoLevel_class_def tl_get_status_def status_ok_def split: option.split)
qed

context two_levels
begin

lemma TwoLevelIterator_stands:
  assumes "istands it ixs q" "indexed ok compare con ixs" "opens con ixs"
  shows "\<exists>t. TwoLevelIterator icls no_handle it = Some t \<and> two_at t (parts con ixs) (length (parts con ixs))"
proof -
  obtain w where w: "iw_Set icls (Some it) IteratorWrapper = Some w" "w_stands istands w ixs q"
    using i.iw_Set_stands [OF assms(1)] by blast
  then have "ended \<lparr>tl_index_iter = w, tl_data_iter = IteratorWrapper, tl_data_block_handle = no_handle, tl_status = OK\<rparr> ixs"
    by (auto simp: tl_end_def IteratorWrapper_def)
  from lands_end [OF assms(2,3) this] w(1) show ?thesis by (simp add: TwoLevelIterator_def)
qed

end

end
