(* ===== verification/Ldb_Table_Build.thy ===== *)
theory Ldb_Table_Build
  imports Ldb_Table_Builder Ldb_Two_Level
begin

text \<open>
  What a table contains and that the builder of \<open>Ldb_Table_Builder\<close> writes it: every sorted list
  of keys and values that is not too large becomes a file whose index separates the blocks, and
  whose filters know all the keys.
\<close>

section \<open>Tables as files\<close>

text \<open>A block of sorted entries in a file, named by the encoding of its handle.\<close>

definition block_in :: "byte list \<Rightarrow> byte list \<Rightarrow> (byte list \<times> byte list) list \<Rightarrow> bool" where
  "block_in cs v xs \<longleftrightarrow> (\<exists>h es rs. v = handle_bytes h \<and> stored_at cs h (block_bytes es rs) \<and>
     map snd es = xs \<and> entries_ok es \<and> restarts_ok es rs)"

text \<open>A part of a table: the key of the index, the handle and the entries.\<close>

type_synonym table_part = "byte list \<times> block_handle \<times> (byte list \<times> byte list) list"

abbreviation part_key :: "table_part \<Rightarrow> byte list" where "part_key \<equiv> fst"
abbreviation part_handle :: "table_part \<Rightarrow> block_handle" where "part_handle b \<equiv> fst (snd b)"
abbreviation part_entries :: "table_part \<Rightarrow> (byte list \<times> byte list) list" where "part_entries b \<equiv> snd (snd b)"

definition index_entries :: "table_part list \<Rightarrow> (byte list \<times> byte list) list" where
  "index_entries bs = map (\<lambda>b. (part_key b, handle_bytes (part_handle b))) bs"

definition all_entries :: "table_part list \<Rightarrow> (byte list \<times> byte list) list" where
  "all_entries bs = concat (map part_entries bs)"

text \<open>
  The keys of the parts separate them from each other and from what follows.  Keys may be the
  \<open>same\<close> in part, as internal keys of one user key; then no key between the last entry of a part
  and the key of the index is the same as one behind.
\<close>

definition cuts ::
  "(byte list \<Rightarrow> bool) \<Rightarrow> (byte list \<Rightarrow> byte list \<Rightarrow> int option) \<Rightarrow> (byte list \<Rightarrow> byte list \<Rightarrow> bool) \<Rightarrow> table_part \<Rightarrow>
    byte list \<times> byte list \<Rightarrow> bool" where
  "cuts ok compare same b x \<longleftrightarrow> below compare (part_key b) (fst x) \<and>
     (\<forall>l. ok l \<longrightarrow> below compare (fst (last (part_entries b))) l \<longrightarrow> \<not> below compare (part_key b) l \<longrightarrow> \<not> same l (fst x))"

definition separated ::
  "(byte list \<Rightarrow> bool) \<Rightarrow> (byte list \<Rightarrow> byte list \<Rightarrow> int option) \<Rightarrow> (byte list \<Rightarrow> byte list \<Rightarrow> bool) \<Rightarrow> table_part list \<Rightarrow>
    (byte list \<times> byte list) list \<Rightarrow> bool" where
  "separated ok compare same bs ys \<longleftrightarrow>
     sorted_wrt (\<lambda>b c. \<forall>x \<in> set (part_entries c). cuts ok compare same b x) bs \<and>
     (\<forall>b \<in> set bs. ok (part_key b) \<and> part_entries b \<noteq> [] \<and>
        (\<forall>x \<in> set (part_entries b). \<not> below compare (part_key b) (fst x)) \<and>
        (\<forall>x \<in> set ys. cuts ok compare same b x))"

definition part_of :: "table_part list \<Rightarrow> byte list \<Rightarrow> (byte list \<times> byte list) list" where
  "part_of bs v = the (map_of (map (\<lambda>b. (handle_bytes (part_handle b), part_entries b)) bs) v)"

text \<open>The filters: the group of the offset of a block has all of its keys.\<close>

definition filters_in :: "policy \<Rightarrow> byte list \<Rightarrow> block_handle \<Rightarrow> (byte list list \<Rightarrow> bool) \<Rightarrow> table_part list \<Rightarrow> bool" where
  "filters_in pol cs h okp bs \<longleftrightarrow> (\<exists>gs fs. stored_at cs h (filters_bytes fs) \<and> list_all2 (filter_for pol) gs fs \<and>
     (\<forall>b \<in> set bs. filter_index (bh_offset (part_handle b)) < length gs \<and>
        okp (gs ! filter_index (bh_offset (part_handle b))) \<and>
        fst ` set (part_entries b) \<subseteq> set (gs ! filter_index (bh_offset (part_handle b)))))"

definition table_file ::
  "(byte list \<Rightarrow> bool) \<Rightarrow> (byte list \<Rightarrow> byte list \<Rightarrow> int option) \<Rightarrow> (byte list \<Rightarrow> byte list \<Rightarrow> bool) \<Rightarrow> policy option \<Rightarrow>
    (byte list list \<Rightarrow> bool) \<Rightarrow> table_part list \<Rightarrow> byte list \<Rightarrow> bool" where
  "table_file ok compare same pol okp bs cs \<longleftrightarrow> (\<exists>body f fh. cs = body @ footer_bytes f \<and> length cs < 2 ^ 32 \<and>
     block_in cs (handle_bytes (ft_index_handle f)) (index_entries bs) \<and>
     (\<forall>b \<in> set bs. block_in cs (handle_bytes (part_handle b)) (part_entries b)) \<and>
     distinct (map part_handle bs) \<and> separated ok compare same bs [] \<and> ordered ok compare (all_entries bs) \<and>
     block_in cs (handle_bytes (ft_metaindex_handle f)) (case pol of None \<Rightarrow> [] | Some pol \<Rightarrow> [(filter_key pol, handle_bytes fh)]) \<and>
     (case pol of None \<Rightarrow> True | Some pol \<Rightarrow> filters_in pol cs fh okp bs))"

lemma block_in_append: "block_in cs v xs \<Longrightarrow> block_in (cs @ zs) v xs"
  unfolding block_in_def using stored_at_append by blast

lemma index_entries_simps [simp]:
  "index_entries [] = []" "index_entries (bs @ [b]) = index_entries bs @ [(part_key b, handle_bytes (part_handle b))]"
  "length (index_entries bs) = length bs"
  by (simp_all add: index_entries_def)

lemma all_entries_simps [simp]: "all_entries [] = []" "all_entries (bs @ [b]) = all_entries bs @ part_entries b"
  by (simp_all add: all_entries_def)

lemma handle_bytes_inject [simp]: "handle_bytes h = handle_bytes h' \<longleftrightarrow> h = h'"
  using handle_codec.put_inject [of h h'] by simp

locale same_order = slice_order +
  fixes same :: "byte list \<Rightarrow> byte list \<Rightarrow> bool"
  assumes convex: "ok a \<Longrightarrow> ok b \<Longrightarrow> ok c \<Longrightarrow> below compare a b \<Longrightarrow> below compare b c \<Longrightarrow> same a c \<Longrightarrow> same a b"
begin

lemma cuts_further:
  assumes "cuts ok compare same b y" "ok (part_key b)" "less (fst y) (fst x)" "ok (fst x)" "ok (fst y)"
  shows "cuts ok compare same b x"
  unfolding cuts_def
proof (intro conjI allI impI notI)
  have y: "less (part_key b) (fst y)" using assms(1) by (simp add: cuts_def)
  with assms show "less (part_key b) (fst x)" using trans by blast
  fix l assume l: "ok l" "less (fst (last (part_entries b))) l" "\<not> less (part_key b) l" "same l (fst x)"
  then have "l = part_key b \<or> less l (part_key b)" using not_below [OF assms(2) l(1)] by blast
  then have "less l (fst y)" using y trans [OF l(1) assms(2,5)] by auto
  then have "same l (fst y)" using convex [OF l(1) assms(5,4)] assms(3) l(4) by blast
  with assms(1) l show False by (simp add: cuts_def)
qed

lemma separated_empty: "separated ok compare same [] ys"
  by (simp add: separated_def)

lemma separated_hd:
  assumes "separated ok compare same bs ys" "ys \<noteq> []" "ordered ok compare (ys @ ys')" "x \<in> set ys'" "b \<in> set bs"
  shows "cuts ok compare same b x"
proof -
  have y: "hd ys \<in> set ys" using assms(2) by simp
  then have "cuts ok compare same b (hd ys)" "ok (part_key b)" using assms(1,5) by (simp_all add: separated_def)
  moreover have "less (fst (hd ys)) (fst x)" "ok (fst (hd ys))" "ok (fst x)"
    using assms(3,4) y by (auto simp: ordered_def sorted_wrt_append)
  ultimately show ?thesis using cuts_further by blast
qed

text \<open>The list behind the parts may grow.\<close>

lemma separated_grows:
  assumes "separated ok compare same bs ys" "ys \<noteq> []" "ordered ok compare (ys @ [x])"
  shows "separated ok compare same bs (ys @ [x])"
  using separated_hd [OF assms] assms(1) by (auto simp: separated_def)

text \<open>What follows becomes a part, with a separator.\<close>

lemma separated_snoc:
  assumes "separated ok compare same bs ys" "ys \<noteq> []" "ok k" "\<And>x. x \<in> set ys \<Longrightarrow> \<not> less k (fst x)"
    "ordered ok compare (ys @ ys')" "\<And>x. x \<in> set ys' \<Longrightarrow> cuts ok compare same (k, h, ys) x"
  shows "separated ok compare same (bs @ [(k, h, ys)]) ys'"
  using separated_hd [OF assms(1,2,5)] assms by (auto simp: separated_def sorted_wrt_append)

lemma separated_keys_ordered:
  assumes "separated ok compare same bs ys" "ordered ok compare (all_entries bs)"
  shows "ordered ok compare (index_entries bs)"
proof -
  have "less (part_key (bs ! i)) (part_key (bs ! j))" if ij: "i < j" "j < length bs" for i j
  proof -
    let ?b = "bs ! i" and ?c = "bs ! j"
    have c: "part_entries ?c \<noteq> []" "ok (part_key ?c)" "ok (part_key ?b)"
      using assms(1) ij by (simp_all add: separated_def)
    let ?x = "hd (part_entries ?c)"
    have x: "?x \<in> set (part_entries ?c)" using c(1) by simp
    have bc: "less (part_key ?b) (fst ?x)" "\<not> less (part_key ?c) (fst ?x)"
      using x assms(1) ij by (auto simp: separated_def cuts_def sorted_wrt_iff_nth_less)
    have "?x \<in> set (all_entries bs)" using x ij(2) by (auto simp: all_entries_def intro!: bexI [of _ ?c])
    then have x: "ok (fst ?x)" using assms(2) by (simp add: ordered_def)
    have "part_key ?c = fst ?x \<or> less (fst ?x) (part_key ?c)" using bc(2) not_below [OF c(2) x] by blast
    then show ?thesis using bc(1) trans [OF c(3) x c(2)] by auto
  qed
  moreover have "map fst (index_entries bs) = map part_key bs" by (simp add: index_entries_def comp_def)
  ultimately have "sorted_wrt less (map fst (index_entries bs))" by (simp add: sorted_wrt_iff_nth_less)
  moreover have "ok k" if "k \<in> fst ` set (index_entries bs)" for k
    using that assms(1) by (auto simp: index_entries_def separated_def)
  ultimately show ?thesis by (simp add: ordered_def)
qed

end
section \<open>Writing blocks\<close>

text \<open>The builder after a block, or nothing, was written: \<open>zs\<close> are the bytes.\<close>

definition tb_wrote :: "('f \<Rightarrow> byte list) \<Rightarrow> byte list \<Rightarrow> 'f table_builder \<Rightarrow> 'f table_builder \<Rightarrow> bool" where
  "tb_wrote contents zs r r' \<longleftrightarrow> (\<exists>f. contents f = contents (tb_file r) @ zs \<and>
     r' = r\<lparr>tb_status := OK, tb_file := f, tb_offset := tb_offset r + of_nat (length zs)\<rparr>)"

lemma tb_wroteE:
  assumes "tb_wrote contents zs r r'"
  obtains f where "r' = r\<lparr>tb_status := OK, tb_file := f, tb_offset := tb_offset r + of_nat (length zs)\<rparr>"
    "contents f = contents (tb_file r) @ zs"
  using assms by (auto simp: tb_wrote_def)

lemma WriteRawBlock_writes:
  assumes "file_appends file contents"
  obtains r' where "WriteRawBlock file data kNoCompression r = Some (\<lparr>bh_offset = tb_offset r, bh_size = of_nat (length data)\<rparr>, r')"
    "tb_wrote contents (data @ block_trailer data kNoCompression) r r'"
proof -
  have app: "\<exists>f'. wf_Append file d f = (OK, f') \<and> contents f' = contents f @ d" for d f
    using assms by (metis file_appends_def prod.collapse)
  let ?t = "block_trailer data kNoCompression"
  obtain f1 where f1: "wf_Append file data (tb_file r) = (OK, f1)" "contents f1 = contents (tb_file r) @ data" using app by blast
  obtain f2 where f2: "wf_Append file ?t f1 = (OK, f2)" "contents f2 = contents f1 @ ?t" using app by blast
  let ?r = "r\<lparr>tb_status := OK, tb_file := f2, tb_offset := tb_offset r + of_nat (length (data @ ?t))\<rparr>"
  have t: "0 # EncodeFixed32 (Mask (crc32c 0 (data @ [0]))) = ?t" by (simp add: block_trailer_def)
  have "WriteRawBlock file data kNoCompression r = Some (\<lparr>bh_offset = tb_offset r, bh_size = of_nat (length data)\<rparr>, ?r)"
    using f1(1) f2(1)
    by (simp add: WriteRawBlock_def Value_def Extend_crc32c crc32c_append t status_ok_def kBlockTrailerSize_def Let_def del: bind_Some_iff)
  then show thesis by (rule that) (use f1(2) f2(2) in \<open>auto simp: tb_wrote_def\<close>)
qed

lemma WriteBlock_writes:
  assumes "file_appends file contents" "tb_status r = OK" "build_rep es rs block"
  obtains r' where "WriteBlock file block r = Some (\<lparr>bh_offset = tb_offset r, bh_size = of_nat (length (block_bytes es rs))\<rparr>,
      BlockBuilder_Reset block, r')"
    "tb_wrote contents (block_bytes es rs @ block_trailer (block_bytes es rs) kNoCompression) r r'"
proof -
  obtain r' where w: "WriteRawBlock file (block_bytes es rs) kNoCompression r =
      Some (\<lparr>bh_offset = tb_offset r, bh_size = of_nat (length (block_bytes es rs))\<rparr>, r')"
    "tb_wrote contents (block_bytes es rs @ block_trailer (block_bytes es rs) kNoCompression) r r'"
    by (rule WriteRawBlock_writes [OF assms(1)])
  have finish: "fst (BlockBuilder_Finish block) = block_bytes es rs" "BlockBuilder_Reset (snd (BlockBuilder_Finish block)) = BlockBuilder_Reset block"
    using Finish_block [OF assms(3)] by (simp_all add: BlockBuilder_Finish_def BlockBuilder_Reset_def Let_def)
  obtain b where b: "BlockBuilder_Finish block = (block_bytes es rs, b)" "BlockBuilder_Reset b = BlockBuilder_Reset block"
    using finish by (cases "BlockBuilder_Finish block") auto
  have "WriteBlock file block r = Some (\<lparr>bh_offset = tb_offset r, bh_size = of_nat (length (block_bytes es rs))\<rparr>, BlockBuilder_Reset block, r')"
    using b w(1) assms(2)
    by (cases "op_compression (tb_options r)")
      (simp_all add: WriteBlock_def tb_ok_def status_ok_def Snappy_Compress_def del: bind_Some_iff)
  then show thesis using w(2) by (rule that)
qed

lemma block_in_new:
  assumes "map snd es = xs" "entries_ok es" "restarts_ok es rs" "length cs + length (block_bytes es rs) < 2 ^ 64"
  shows "block_in (cs @ block_bytes es rs @ block_trailer (block_bytes es rs) kNoCompression)
    (handle_bytes \<lparr>bh_offset = of_nat (length cs), bh_size = of_nat (length (block_bytes es rs))\<rparr>) xs"
  using stored_at_new [OF assms(4)] assms(1-3) by (auto simp: block_in_def)

section \<open>The size of a table\<close>

text \<open>Bounds on the bytes of a block, and of a table; \<open>B\<close> bytes of filter per key.\<close>

definition entries_weight :: "nat \<Rightarrow> (byte list \<times> byte list) list \<Rightarrow> nat" where
  "entries_weight c xs = (\<Sum>x \<leftarrow> xs. length (fst x) + length (snd x) + c)"

lemma entries_weight_simps [simp]:
  "entries_weight c [] = 0" "entries_weight c (x # xs) = length (fst x) + length (snd x) + c + entries_weight c xs"
  "entries_weight c (xs @ ys) = entries_weight c xs + entries_weight c ys"
  by (simp_all add: entries_weight_def)

lemma entries_weight_add: "entries_weight (c + d) xs = entries_weight c xs + d * length xs"
  by (induction xs) simp_all

lemma length_EncodeVarint32: "length (EncodeVarint32 v) \<le> 5"
  by (simp add: EncodeVarint32_def Let_def)

lemma length_entry_bytes: "length (entry_bytes e) \<le> length (key_of e) + length (value_of e) + 15"
  using length_EncodeVarint32 [of "of_nat (shared_of e)"] length_EncodeVarint32 [of "of_nat (length (key_of e) - shared_of e)"]
    length_EncodeVarint32 [of "of_nat (length (value_of e))"]
  by (simp add: entry_bytes_def)

lemma length_entries_bytes: "length (entries_bytes es) \<le> entries_weight 15 (map snd es)"
proof (induction es)
  case (Cons e es)
  then show ?case using length_entry_bytes [of e] by simp
qed simp

lemma length_restarts:
  assumes "restarts_ok es rs"
  shows "length rs \<le> Suc (length es)"
proof -
  have "distinct rs" using assms strict_sorted_iff by (auto simp: restarts_ok_def)
  then have "length rs = card (set rs)" by (simp add: distinct_card)
  also have "\<dots> \<le> card {..length es}" using assms by (intro card_mono) (auto simp: restarts_ok_def)
  finally show ?thesis by simp
qed

lemma length_block_le: "restarts_ok es rs \<Longrightarrow> length (block_bytes es rs) \<le> entries_weight 19 (map snd es) + 8"
  using length_block_bytes [of es rs] length_entries_bytes [of es] length_restarts [of es rs]
    entries_weight_add [of 15 4 "map snd es"] by simp
section \<open>Blocks under construction\<close>

definition block_holds :: "(byte list \<Rightarrow> byte list \<Rightarrow> int option) \<Rightarrow> block_builder \<Rightarrow> (byte list \<times> byte list) list \<Rightarrow> bool" where
  "block_holds compare b xs \<longleftrightarrow> bb_compare b = compare \<and> (\<exists>es rs. build_rep es rs b \<and> map snd es = xs)"

lemma holds_new:
  assumes "1 \<le> interval"
  obtains b where "BlockBuilder compare interval = Some b" "block_holds compare b []"
  using assms build_rep_new [of compare interval] by (auto simp: block_holds_def BlockBuilder_def)

lemma holds_interval:
  assumes "block_holds compare b []"
  shows "block_holds compare (b\<lparr>bb_interval := 1\<rparr>) []"
proof -
  obtain rs where "build_rep [] rs b" "bb_compare b = compare" using assms by (auto simp: block_holds_def)
  moreover from this have "build_rep [] rs (b\<lparr>bb_interval := 1\<rparr>)" by (simp add: build_rep_def)
  ultimately show ?thesis unfolding block_holds_def by (intro conjI exI [of _ "[]"] exI [of _ rs]) simp_all
qed

lemma holds_Reset: "block_holds compare b xs \<Longrightarrow> block_holds compare (BlockBuilder_Reset b) []"
  using build_rep_Reset by (fastforce simp: block_holds_def BlockBuilder_Reset_def)

lemma holds_empty:
  assumes "block_holds compare b xs"
  shows "BlockBuilder_empty b \<longleftrightarrow> xs = []"
proof -
  obtain es rs where es: "build_rep es rs b" "xs = map snd es" using assms by (auto simp: block_holds_def)
  then have "BlockBuilder_empty b \<longleftrightarrow> entries_bytes es = []" by (simp add: BlockBuilder_empty_def build_rep_def)
  also have "\<dots> \<longleftrightarrow> es = []" using entry_bytes_3 [of "hd es"] by (cases es) auto
  finally show ?thesis using es(2) by simp
qed

context slice_order
begin

lemma holds_Add:
  assumes "block_holds compare b xs" "ordered ok compare (xs @ [x])"
  obtains b' where "BlockBuilder_Add (fst x) (snd x) b = Some b'" "block_holds compare b' (xs @ [x])"
proof -
  obtain es rs where es: "build_rep es rs b" "map snd es = xs" "bb_compare b = compare" using assms(1) by (auto simp: block_holds_def)
  have "ordered ok compare (map snd es @ [x])" using assms(2) es(2) by simp
  from Adds_rep [OF this es(1,3)] obtain es' rs' b' where
    "Adds [x] b = Some b'" "build_rep es' rs' b'" "map snd es' = xs @ [x]" "bb_compare b' = compare"
    using es(2) by blast
  then show thesis using that [of b'] by (auto simp: block_holds_def)
qed

end

text \<open>Writing a block puts it into the file.\<close>

lemma holds_WriteBlock:
  assumes "file_appends file contents" "tb_status r = OK" "block_holds compare b xs"
    "tb_offset r = of_nat (length (contents (tb_file r)))" "length (contents (tb_file r)) + entries_weight 19 xs + 13 < 2 ^ 32"
  obtains h zs r' where "WriteBlock file b r = Some (h, BlockBuilder_Reset b, r')" "tb_wrote contents zs r r'"
    "block_in (contents (tb_file r) @ zs) (handle_bytes h) xs" "unat (bh_offset h) = length (contents (tb_file r))"
    "handle_ok h" "0 < length zs" "length zs \<le> entries_weight 19 xs + 13"
proof -
  let ?cs = "contents (tb_file r)"
  obtain es rs where es: "build_rep es rs b" "map snd es = xs" using assms(3) by (auto simp: block_holds_def)
  let ?d = "block_bytes es rs"
  let ?h = "\<lparr>bh_offset = of_nat (length ?cs), bh_size = of_nat (length ?d)\<rparr> :: block_handle"
  have ok: "entries_ok es" "restarts_ok es rs" using es(1) by (simp_all add: build_rep_def)
  have len: "length ?d \<le> entries_weight 19 xs + 8" using length_block_le [OF ok(2)] es(2) by simp
  have u: "unat (of_nat (length ?cs) :: u64) = length ?cs" "unat (of_nat (length ?d) :: u64) = length ?d"
    using assms(5) len by (intro unat_of_nat_eq; simp)+
  obtain r' where r': "WriteBlock file b r = Some (?h, BlockBuilder_Reset b, r')" "tb_wrote contents (?d @ block_trailer ?d kNoCompression) r r'"
    using WriteBlock_writes [OF assms(1,2) es(1)] assms(4) by metis
  have "handle_ok ?h"
  proof -
    have "unat w < 2 ^ 32 \<Longrightarrow> w \<noteq> NOT 0" for w :: u64
      by (auto simp: unsigned_minus_1_eq_mask mask_eq_exp_minus_1)
    with u assms(5) len show ?thesis by (simp add: handle_ok_def)
  qed
  moreover have "block_in (?cs @ ?d @ block_trailer ?d kNoCompression) (handle_bytes ?h) xs"
    using assms(5) len by (intro block_in_new es(2) ok) simp
  moreover have "length (?d @ block_trailer ?d kNoCompression) = length ?d + 5" by simp
  ultimately show thesis
    using that [OF r'] u(1) len by (simp del: length_append append_assoc)
qed

end
