(* ===== verification/Ldb_Table_Rep.thy ===== *)
theory Ldb_Table_Rep
  imports Ldb_Table_Build
begin

text \<open>
  The invariant of the table builder, kept by every \<open>Add\<close>, and the file that \<open>Finish\<close> leaves.
\<close>

section \<open>The invariant\<close>

text \<open>The part of the last block, whose key is not known yet.\<close>

type_synonym pending = "(block_handle \<times> (byte list \<times> byte list) list) option"

definition written :: "table_part list \<Rightarrow> pending \<Rightarrow> table_part list" where
  "written bs pend = bs @ (case pend of None \<Rightarrow> [] | Some p \<Rightarrow> [([], p)])"

definition pending_entries :: "pending \<Rightarrow> (byte list \<times> byte list) list" where
  "pending_entries pend = (case pend of None \<Rightarrow> [] | Some p \<Rightarrow> snd p)"

lemma written_simps [simp]: "written bs None = bs" "written bs (Some p) = bs @ [([], p)]"
  by (simp_all add: written_def)

lemma pending_entries_simps [simp]: "pending_entries None = []" "pending_entries (Some p) = snd p"
  by (simp_all add: pending_entries_def)

abbreviation group_of :: "table_part \<Rightarrow> nat" where
  "group_of b \<equiv> filter_index (bh_offset (part_handle b))"

text \<open>What the filters have seen.\<close>

definition filters_know :: "byte list list list \<Rightarrow> byte list list \<Rightarrow> table_part list \<Rightarrow> (byte list \<times> byte list) list \<Rightarrow> bool" where
  "filters_know gs ks ps xs \<longleftrightarrow>
     (\<forall>b \<in> set ps. group_of b \<le> length gs \<and> fst ` set (part_entries b) \<subseteq> set ((gs @ [ks]) ! group_of b)) \<and>
     fst ` set xs \<subseteq> set ks \<and> concat (gs @ [ks]) = map fst (all_entries ps @ xs)"

definition filter_state ::
  "policy option \<Rightarrow> filter_builder option \<Rightarrow> nat \<Rightarrow> table_part list \<Rightarrow> (byte list \<times> byte list) list \<Rightarrow> bool" where
  "filter_state pol fb n ps xs \<longleftrightarrow> (case (pol, fb) of
     (None, None) \<Rightarrow> True
   | (Some pol, Some fb) \<Rightarrow> \<exists>gs ks. fb_rep pol gs ks fb \<and> length gs = n div 2048 \<and> filters_know gs ks ps xs
   | _ \<Rightarrow> False)"

definition tb_core ::
  "(byte list \<Rightarrow> byte list \<Rightarrow> int option) \<Rightarrow> ('f \<Rightarrow> byte list) \<Rightarrow> table_options \<Rightarrow> table_part list \<Rightarrow> pending \<Rightarrow>
    (byte list \<times> byte list) list \<Rightarrow> 'f table_builder \<Rightarrow> bool" where
  "tb_core compare contents options bs pend xs r \<longleftrightarrow> tb_options r = options \<and> tb_status r = OK \<and>
     tb_offset r = of_nat (length (contents (tb_file r))) \<and>
     length (contents (tb_file r)) \<le> entries_weight 32 (all_entries (written bs pend)) \<and>
     block_holds compare (tb_index_block r) (index_entries bs) \<and> block_holds compare (tb_data_block r) xs \<and>
     (tb_pending_index_entry r \<longleftrightarrow> pend \<noteq> None) \<and>
     (case pend of None \<Rightarrow> True | Some p \<Rightarrow> tb_pending_handle r = fst p \<and> handle_ok (fst p) \<and> snd p \<noteq> [] \<and> xs = []) \<and>
     (\<forall>b \<in> set (written bs pend). block_in (contents (tb_file r)) (handle_bytes (part_handle b)) (part_entries b) \<and>
        unat (bh_offset (part_handle b)) < length (contents (tb_file r))) \<and>
     distinct (map part_handle (written bs pend)) \<and>
     filter_state (op_filter_policy options) (tb_filter_block r) (length (contents (tb_file r))) (written bs pend) xs"

text \<open>A filter policy for lists of up to \<open>n\<close> keys, with \<open>B\<close> bytes of filter per key.\<close>

definition policy_fits :: "policy option \<Rightarrow> (byte list list \<Rightarrow> bool) \<Rightarrow> nat \<Rightarrow> byte list set \<Rightarrow> nat \<Rightarrow> bool" where
  "policy_fits pol okp B K n \<longleftrightarrow> (\<forall>p. pol = Some p \<longrightarrow> table_policy p okp \<and>
     (\<forall>ks. set ks \<subseteq> K \<longrightarrow> length ks \<le> n \<longrightarrow> okp ks) \<and>
     (\<forall>ks f. okp ks \<longrightarrow> ks \<noteq> [] \<longrightarrow> fp_CreateFilter p ks [] = Some f \<longrightarrow> length f \<le> B * length ks))"

section \<open>The filters\<close>

lemma groups_at_nth:
  assumes "j \<le> length gs" "length gs \<le> i"
  shows "(groups_at i gs ks @ [if length gs = i then ks else []]) ! j = (gs @ [ks]) ! j"
proof (cases "length gs = i")
  case False
  then show ?thesis using assms by (auto simp: groups_at_def nth_append)
qed (simp add: groups_at_def)

lemma concat_groups_at: "concat (groups_at i gs ks @ [if length gs = i then ks else []]) = concat (gs @ [ks])"
  by (simp add: groups_at_def)

text \<open>A block was written: its offset is the old end of the file, where the last group began or later.\<close>

lemma filter_state_StartBlock:
  assumes "filter_state (Some pol) (Some fb) n ps xs" "policy_fits (Some pol) okp B K N"
    "fst ` set (all_entries ps @ xs) \<subseteq> K" "length (all_entries ps @ xs) \<le> N" "N < 2 ^ 31"
    "n \<le> m" "m < 2 ^ 64" "unat (bh_offset h) = n"
  shows "\<exists>fb'. StartBlock (of_nat m) fb = Some fb' \<and> filter_state (Some pol) (Some fb') m (ps @ [([], h, xs)]) []"
proof -
  obtain gs ks where g: "fb_rep pol gs ks fb" "length gs = n div 2048" "filters_know gs ks ps xs"
    using assms(1) by (auto simp: filter_state_def)
  have policy: "table_policy pol okp" using assms(2) by (simp add: policy_fits_def)
  have keys: "concat gs @ ks = map fst (all_entries ps @ xs)" using g(3) by (simp add: filters_know_def)
  then have "set (concat gs @ ks) = fst ` set (all_entries ps @ xs)" "length (concat gs @ ks) = length (all_entries ps @ xs)"
    by (simp_all only: set_map length_map)
  then have ks: "set ks \<subseteq> K" "length ks \<le> N" using assms(3,4) by auto
  then have "okp ks" using assms(2) by (simp add: policy_fits_def)
  have off: "filter_index (of_nat m) = m div 2048" using assms(7) by (simp add: filter_index_def unat_of_nat_eq)
  obtain fb' where fb': "StartBlock (of_nat m) fb = Some fb'"
      "fb_rep pol (groups_at (m div 2048) gs ks) (if length gs = m div 2048 then ks else []) fb'"
    using table_policy.StartBlock_rep [OF policy g(1), of "of_nat m"] \<open>okp ks\<close> ks(2) assms(5,6) g(2) off by (auto simp: div_le_mono)
  let ?gs = "groups_at (m div 2048) gs ks" and ?ks = "if length gs = m div 2048 then ks else []"
  have le: "length gs \<le> m div 2048" using assms(6) g(2) by (simp add: div_le_mono)
  have h: "filter_index (bh_offset h) = length gs" using assms(8) g(2) by (simp add: filter_index_def)
  have "filters_know ?gs ?ks (ps @ [([], h, xs)]) []"
    using g(3) le h length_groups_at [OF le, of ks] groups_at_nth [OF _ le, of _ ks] concat_groups_at [of "m div 2048" gs ks]
    by (auto simp: filters_know_def nth_append)
  then show ?thesis using fb' length_groups_at [OF le, of ks] by (auto simp: filter_state_def)
qed

lemma filter_state_AddKey:
  assumes "filter_state pol fb n ps xs"
  shows "filter_state pol (map_option (AddKey (fst x)) fb) n ps (xs @ [x])"
proof (cases pol)
  case (Some p)
  then obtain b gs ks where b: "fb = Some b" "fb_rep p gs ks b" "length gs = n div 2048" "filters_know gs ks ps xs"
    using assms by (auto simp: filter_state_def split: option.splits)
  have "filters_know gs (ks @ [fst x]) ps (xs @ [x])"
    using b(4) by (fastforce simp: filters_know_def nth_append split: if_splits)
  then show ?thesis using Some b fb_rep_AddKey [OF b(2), of "fst x"] by (auto simp: filter_state_def)
qed (use assms in \<open>auto simp: filter_state_def split: option.splits\<close>)
section \<open>Flushing and adding\<close>

text \<open>A comparator that does not make keys longer, or separators that are the same as what they exclude.\<close>

locale table_order = comparator ok compare separator successor + same_order ok compare same
  for ok compare separator successor same +
  assumes separator_length: "ok start \<Longrightarrow> ok limit \<Longrightarrow> below compare start limit \<Longrightarrow> separator start limit = Some key \<Longrightarrow>
      length key \<le> length start"
    and separator_gap: "ok start \<Longrightarrow> ok limit \<Longrightarrow> below compare start limit \<Longrightarrow> separator start limit = Some key \<Longrightarrow>
      ok k \<Longrightarrow> below compare start k \<Longrightarrow> \<not> below compare key k \<Longrightarrow> \<not> same k limit"
    and successor_length: "ok key \<Longrightarrow> successor key = Some next \<Longrightarrow> length next \<le> length key"

definition table_options_ok where
  "table_options_ok compare separator successor options \<longleftrightarrow>
     op_comparator options = \<lparr>cmp_Compare = compare, cmp_FindShortestSeparator = separator, cmp_FindShortSuccessor = successor\<rparr> \<and>
     1 \<le> op_block_restart_interval options"

lemma entries_weight_mono: "c \<le> d \<Longrightarrow> entries_weight c xs \<le> entries_weight d xs"
  by (induction xs) simp_all

lemma length_le_weight: "c * length xs \<le> entries_weight c xs"
  by (induction xs) simp_all

context slice_order
begin

text \<open>The data block, which is not empty, is written.\<close>

lemma Flush_core:
  assumes app: "file_appends file contents" and core: "tb_core compare contents options bs None xs r" "xs \<noteq> []" "\<not> tb_closed r"
    and pol: "policy_fits (op_filter_policy options) okp B K n"
    and K: "fst ` set (all_entries bs @ xs) \<subseteq> K" "length (all_entries bs @ xs) \<le> n"
    and small: "entries_weight 32 (all_entries bs @ xs) < 2 ^ 32"
  obtains h r' where "TableBuilder_Flush file r = Some r'" "tb_core compare contents options bs (Some (h, xs)) [] r'"
    "tb_num_entries r' = tb_num_entries r" "tb_last_key r' = tb_last_key r" "\<not> tb_closed r'"
proof -
  let ?cs = "contents (tb_file r)"
  have r: "tb_status r = OK" "\<not> tb_closed r" "\<not> tb_pending_index_entry r" "block_holds compare (tb_data_block r) xs"
    "tb_offset r = of_nat (length ?cs)" "length ?cs \<le> entries_weight 32 (all_entries bs)" "tb_options r = options"
    using core(1,3) by (simp_all add: tb_core_def)
  have w: "entries_weight 19 xs + 13 \<le> entries_weight 32 xs"
    using entries_weight_add [of 19 13 xs] core(2) by (cases xs) simp_all
  have "length ?cs + entries_weight 19 xs + 13 < 2 ^ 32" using small r(6) w by simp
  from holds_WriteBlock [OF app r(1,4,5) this] obtain h zs r1 where r1:
    "WriteBlock file (tb_data_block r) r = Some (h, BlockBuilder_Reset (tb_data_block r), r1)" "tb_wrote contents zs r r1"
    "block_in (?cs @ zs) (handle_bytes h) xs" "unat (bh_offset h) = length ?cs" "handle_ok h" "0 < length zs"
    "length zs \<le> entries_weight 19 xs + 13" .
  obtain f1 where f1: "r1 = r\<lparr>tb_status := OK, tb_file := f1, tb_offset := tb_offset r + of_nat (length zs)\<rparr>" "contents f1 = ?cs @ zs"
    using r1(2) by (rule tb_wroteE)
  obtain f2 where f2: "wf_Flush file f1 = (OK, f2)" "contents f2 = contents f1"
    using app by (metis file_appends_def prod.collapse)
  let ?off = "tb_offset r + of_nat (length zs)"
  have off: "?off = of_nat (length (contents f2))" using r(5) f1(2) f2(2) by simp
  let ?r2 = "r1\<lparr>tb_data_block := BlockBuilder_Reset (tb_data_block r), tb_pending_handle := h, tb_pending_index_entry := True,
    tb_status := OK, tb_file := f2\<rparr>"
  have flush: "TableBuilder_Flush file r = (case tb_filter_block ?r2 of None \<Rightarrow> Some ?r2
      | Some fb \<Rightarrow> do { fb \<leftarrow> StartBlock (tb_offset ?r2) fb; Some (?r2\<lparr>tb_filter_block := Some fb\<rparr>) })"
    using r r1(1) core(2) holds_empty [OF r(4)] f2(1) f1(1)
    by (cases "tb_filter_block r") (simp_all add: TableBuilder_Flush_def tb_ok_def status_ok_def Let_def del: bind_Some_iff)
  have "\<exists>fb. (case tb_filter_block r of None \<Rightarrow> Some None | Some fb \<Rightarrow> map_option Some (StartBlock ?off fb)) = Some fb \<and>
      filter_state (op_filter_policy options) fb (length (contents f2)) (bs @ [([], h, xs)]) []"
  proof (cases "op_filter_policy options")
    case None
    then show ?thesis using core(1) by (auto simp: tb_core_def filter_state_def split: option.splits)
  next
    case (Some p)
    then obtain fb where fb: "tb_filter_block r = Some fb" "filter_state (Some p) (Some fb) (length ?cs) bs xs"
      using core(1) by (auto simp: tb_core_def filter_state_def split: option.splits)
    have n: "length (all_entries bs @ xs) < 2 ^ 31" using length_le_weight [of 32 "all_entries bs @ xs"] small by simp
    have m: "length (contents f2) < 2 ^ 64" "length ?cs \<le> length (contents f2)" using r(6) r1(7) w small f1(2) f2(2) by simp_all
    have "policy_fits (Some p) okp B K (length (all_entries bs @ xs))" using pol K(2) Some by (auto simp: policy_fits_def)
    from filter_state_StartBlock [OF fb(2) this K(1) le_refl n m(2,1) r1(4)]
    show ?thesis using fb(1) Some unfolding off by auto
  qed
  then obtain fb where fb: "(case tb_filter_block r of None \<Rightarrow> Some None | Some fb \<Rightarrow> map_option Some (StartBlock ?off fb)) = Some fb"
    "filter_state (op_filter_policy options) fb (length (contents f2)) (bs @ [([], h, xs)]) []" by blast
  let ?r3 = "?r2\<lparr>tb_filter_block := fb\<rparr>"
  have "TableBuilder_Flush file r = Some ?r3"
    unfolding flush using fb(1) f1(1) by (cases "tb_filter_block r") auto
  moreover have "tb_core compare contents options bs (Some (h, xs)) [] ?r3"
  proof -
    have blocks: "block_in (contents f2) (handle_bytes (part_handle b)) (part_entries b) \<and> unat (bh_offset (part_handle b)) < length (contents f2)"
      if "b \<in> set (bs @ [([], h, xs)])" for b
      using that core(1) r1(3,4,6) f1(2) f2(2) block_in_append [of ?cs _ _ zs]
      by (auto simp: tb_core_def trans_less_add1)
    have "h \<notin> part_handle ` set bs"
      using core(1) r1(4) by (fastforce simp: tb_core_def)
    then have "distinct (map part_handle (bs @ [([], h, xs)]))" using core(1) by (simp add: tb_core_def)
    moreover have "length (contents f2) \<le> entries_weight 32 (all_entries (bs @ [([], h, xs)]))"
      using f1(2) f2(2) r(6) r1(7) w by simp
    ultimately show ?thesis
      using core f1(1) off fb(2) blocks r1(5) r(7) holds_Reset [OF r(4)]
      by (simp add: tb_core_def)
  qed
  moreover have "tb_num_entries ?r3 = tb_num_entries r" "tb_last_key ?r3 = tb_last_key r" "\<not> tb_closed ?r3" using f1(1) core(3) by simp_all
  ultimately show thesis using that by blast
qed

text \<open>The entry of the index for the last block.\<close>

lemma index_step:
  assumes "block_holds compare (tb_index_block r) (index_entries bs)" "tb_pending_handle r = h" "handle_ok h"
    and order: "ordered ok compare (index_entries (bs @ [(k, h, xs)]))"
  obtains b where "add_index_entry k r = Some (r\<lparr>tb_last_key := k, tb_index_block := b, tb_pending_index_entry := False\<rparr>)"
    "block_holds compare b (index_entries (bs @ [(k, h, xs)]))"
proof -
  obtain b where b: "BlockBuilder_Add k (handle_bytes h) (tb_index_block r) = Some b" "block_holds compare b (index_entries (bs @ [(k, h, xs)]))"
    using holds_Add [OF assms(1), of "(k, handle_bytes h)"] order by auto
  with assms that show thesis by (simp add: add_index_entry_def EncodeTo_handle)
qed

lemma index_core:
  assumes core: "tb_core compare contents options bs (Some (h, xs)) [] r"
    and order: "ordered ok compare (index_entries (bs @ [(k, h, xs)]))"
  obtains r' where "add_index_entry k r = Some r'" "tb_core compare contents options (bs @ [(k, h, xs)]) None [] r'"
    "tb_num_entries r' = tb_num_entries r" "tb_closed r' = tb_closed r"
proof -
  have r: "tb_pending_handle r = h" "handle_ok h" "block_holds compare (tb_index_block r) (index_entries bs)"
    using core by (simp_all add: tb_core_def)
  obtain b where b: "add_index_entry k r = Some (r\<lparr>tb_last_key := k, tb_index_block := b, tb_pending_index_entry := False\<rparr>)"
    "block_holds compare b (index_entries (bs @ [(k, h, xs)]))"
    by (rule index_step [OF r(3,1,2) order])
  let ?r = "r\<lparr>tb_last_key := k, tb_index_block := b, tb_pending_index_entry := False\<rparr>"
  have "tb_core compare contents options (bs @ [(k, h, xs)]) None [] ?r"
  proof -
    have "filter_state p fb n (bs @ [([], h, xs)]) [] = filter_state p fb n (bs @ [(k, h, xs)]) []" for p fb n
    proof -
      have "filters_know gs ks (bs @ [([], h, xs)]) [] = filters_know gs ks (bs @ [(k, h, xs)]) []" for gs ks
        by (simp add: filters_know_def)
      then show ?thesis by (simp only: filter_state_def)
    qed
    then show ?thesis using core b(2) by (simp add: tb_core_def)
  qed
  then show thesis using that [OF b(1)] by simp
qed

end
section \<open>Adding entries\<close>

definition tb_rep ::
  "(byte list \<Rightarrow> bool) \<Rightarrow> (byte list \<Rightarrow> byte list \<Rightarrow> int option) \<Rightarrow> (byte list \<Rightarrow> byte list \<Rightarrow> bool) \<Rightarrow> ('f \<Rightarrow> byte list) \<Rightarrow> table_options \<Rightarrow>
    (byte list \<times> byte list) list \<Rightarrow> 'f table_builder \<Rightarrow> bool" where
  "tb_rep ok compare same contents options ys r \<longleftrightarrow> \<not> tb_closed r \<and> tb_num_entries r = length ys \<and> (ys \<noteq> [] \<longrightarrow> tb_last_key r = fst (last ys)) \<and>
     (\<exists>bs pend xs. tb_core compare contents options bs pend xs r \<and> ys = all_entries bs @ pending_entries pend @ xs \<and>
        separated ok compare same bs (pending_entries pend @ xs) \<and> (bs \<noteq> [] \<longrightarrow> pending_entries pend @ xs \<noteq> []) \<and>
        (\<forall>b \<in> set bs. length (part_key b) \<le> length (fst (last (part_entries b)))))"

lemma ordered_prefix: "ordered ok compare (xs @ ys) \<Longrightarrow> ordered ok compare xs"
  by (simp add: ordered_def sorted_wrt_append)

context slice_order
begin

lemma ordered_last:
  assumes "ordered ok compare (xs @ ys)" "x \<in> set xs" "y \<in> set ys"
  shows "less (fst x) (fst y)" "ok (fst x)" "ok (fst y)"
  using assms by (auto simp: ordered_def sorted_wrt_append)

lemma ordered_le_last:
  assumes "ordered ok compare xs" "x \<in> set xs"
  shows "\<not> less (fst (last xs)) (fst x)"
proof -
  obtain i where i: "i < length xs" "x = xs ! i" using assms(2) by (auto simp: in_set_conv_nth)
  then have "xs \<noteq> []" by auto
  then have "last xs = xs ! (length xs - 1)" by (rule last_conv_nth)
  then show ?thesis using ordered_nth [OF assms(1), of "length xs - 1" i] i by auto
qed

text \<open>A key at or above the last entry is above all of them.\<close>

lemma above_last:
  assumes "ordered ok compare xs" "x \<in> set xs" "ok k" "k = fst (last xs) \<or> less (fst (last xs)) k"
  shows "\<not> less k (fst x)"
proof
  assume k: "less k (fst x)"
  have l: "last xs \<in> set xs" using assms(2) by (cases xs) auto
  then have "ok (fst (last xs))" "ok (fst x)" using assms(1,2) by (auto simp: ordered_def)
  then have "less (fst (last xs)) (fst x)" using assms(3,4) k trans by blast
  with ordered_le_last [OF assms(1,2)] show False by simp
qed

end

context same_order
begin

text \<open>The index gets its entry, if one is pending, with a key below the next one.\<close>

lemma close_separated:
  assumes sep: "separated ok compare same bs ys" "ys \<noteq> []" and order: "ordered ok compare (all_entries bs @ ys @ zs)"
    and k: "ok k" "k = fst (last ys) \<or> less (fst (last ys)) k" "\<And>x. x \<in> set zs \<Longrightarrow> cuts ok compare same (k, h, ys) x"
  shows "separated ok compare same (bs @ [(k, h, ys)]) zs" "ordered ok compare (index_entries (bs @ [(k, h, ys)]))"
proof -
  have ord: "ordered ok compare (ys @ zs)" using order by (simp add: ordered_def sorted_wrt_append)
  show s: "separated ok compare same (bs @ [(k, h, ys)]) zs"
    using above_last [OF ordered_prefix [OF ord] _ k(1,2)] by (intro separated_snoc [OF sep k(1) _ ord k(3)]) auto
  have "ordered ok compare (all_entries (bs @ [(k, h, ys)]))"
    using order ordered_prefix [of ok compare "all_entries bs @ ys" zs] by simp
  with s show "ordered ok compare (index_entries (bs @ [(k, h, ys)]))" by (rule separated_keys_ordered)
qed

end

context table_order
begin

lemma Add_data:
  assumes core: "tb_core compare contents options bs None xs r" and order: "ordered ok compare (xs @ [x])"
  obtains b where "BlockBuilder_Add (fst x) (snd x) (tb_data_block r) = Some b"
    "tb_core compare contents options bs None (xs @ [x]) (r\<lparr>tb_filter_block := map_option (AddKey (fst x)) (tb_filter_block r),
       tb_last_key := fst x, tb_num_entries := tb_num_entries r + 1, tb_data_block := b\<rparr>)"
proof -
  have holds: "block_holds compare (tb_data_block r) xs" using core by (simp add: tb_core_def)
  obtain b where b: "BlockBuilder_Add (fst x) (snd x) (tb_data_block r) = Some b" "block_holds compare b (xs @ [x])"
    by (rule holds_Add [OF holds order])
  have "filter_state (op_filter_policy options) (map_option (AddKey (fst x)) (tb_filter_block r)) (length (contents (tb_file r))) bs (xs @ [x])"
    using core by (intro filter_state_AddKey) (simp add: tb_core_def)
  with core b show thesis by (intro that [OF b(1)]) (simp add: tb_core_def)
qed

lemma Add_rep:
  assumes app: "file_appends file contents" and rep: "tb_rep ok compare same contents options ys r"
    and opts: "table_options_ok compare separator successor options"
    and order: "ordered ok compare (ys @ [x])"
    and pol: "policy_fits (op_filter_policy options) okp B K n"
    and K: "fst ` set (ys @ [x]) \<subseteq> K" "length (ys @ [x]) \<le> n"
    and small: "entries_weight 32 (ys @ [x]) < 2 ^ 32"
  obtains r' where "TableBuilder_Add file (fst x) (snd x) r = Some r'" "tb_rep ok compare same contents options (ys @ [x]) r'"
proof -
  obtain bs pend xs where r: "tb_core compare contents options bs pend xs r" "ys = all_entries bs @ pending_entries pend @ xs"
    "separated ok compare same bs (pending_entries pend @ xs)" "bs \<noteq> [] \<longrightarrow> pending_entries pend @ xs \<noteq> []"
    "\<forall>b \<in> set bs. length (part_key b) \<le> length (fst (last (part_entries b)))"
    using rep by (auto simp: tb_rep_def)
  have cmp: "cmp_Compare (op_comparator options) = compare" "cmp_FindShortestSeparator (op_comparator options) = separator"
    using opts by (simp_all add: table_options_ok_def)
  have st: "tb_options r = options" "tb_status r = OK" "\<not> tb_closed r" "tb_pending_index_entry r \<longleftrightarrow> pend \<noteq> None"
    "block_holds compare (tb_data_block r) xs"
    using r(1) rep by (simp_all add: tb_core_def tb_rep_def)
  have larger: "(if tb_num_entries r > 0 then map_option (\<lambda>c. c > 0) (compare (fst x) (tb_last_key r)) else Some True) = Some True"
  proof (cases "ys = []")
    case False
    have "last ys \<in> set ys" using False by simp
    then have "less (fst (last ys)) (fst x)" "ok (fst (last ys))" "ok (fst x)" using ordered_last [OF order, of "last ys" x] by simp_all
    then have "\<exists>c > 0. compare (fst x) (fst (last ys)) = Some c" using flip by blast
    then show ?thesis using False rep by (auto simp: tb_rep_def)
  qed (use rep in \<open>simp add: tb_rep_def\<close>)
  have "\<exists>bs' r1. (if tb_pending_index_entry r
        then if \<not> BlockBuilder_empty (tb_data_block r) then None
          else do { sep \<leftarrow> separator (tb_last_key r) (fst x); add_index_entry sep r }
        else Some r) = Some r1 \<and> tb_core compare contents options bs' None xs r1 \<and> tb_num_entries r1 = tb_num_entries r \<and> \<not> tb_closed r1 \<and>
      ys = all_entries bs' @ xs \<and> separated ok compare same bs' (xs @ [x]) \<and>
      (\<forall>b \<in> set bs'. length (part_key b) \<le> length (fst (last (part_entries b))))"
  proof (cases pend)
    case None
    have "ordered ok compare (xs @ [x])" using order r(2) None by (simp add: ordered_def sorted_wrt_append)
    then have "separated ok compare same bs (xs @ [x])"
      using separated_grows [of bs xs x] separated_empty r(3,4) None by (cases "bs = []") auto
    then show ?thesis using None r st(3,4) by (intro exI [of _ bs] exI [of _ r]) simp
  next
    case (Some p)
    obtain h zs where p: "p = (h, zs)" by (cases p)
    have xs: "xs = []" "zs \<noteq> []" using r(1) Some p by (simp_all add: tb_core_def)
    have xs: "xs = []" "zs \<noteq> []" "tb_core compare contents options bs (Some (h, zs)) [] r" using xs r(1) Some p by simp_all
    have ys: "ys = all_entries bs @ zs" "last ys = last zs" "separated ok compare same bs zs" using r(2,3) Some p xs by simp_all
    have last: "last zs \<in> set ys" "ys \<noteq> []" using xs(2) ys by simp_all
    then have lt: "less (fst (last zs)) (fst x)" "ok (fst (last zs))" "ok (fst x)" using ordered_last [OF order, of "last zs" x] by simp_all
    obtain k where k: "separator (fst (last zs)) (fst x) = Some k" "ok k" "k = fst (last zs) \<or> less (fst (last zs)) k" "less k (fst x)"
      using separator [OF lt(2,3,1)] by blast
    have "ordered ok compare (all_entries bs @ zs @ [x])" using order ys(1) by simp
    moreover have "cuts ok compare same (k, h, zs) y" if "y \<in> set [x]" for y
      using that k(4) separator_gap [OF lt(2,3,1) k(1)] by (auto simp: cuts_def)
    ultimately have closed: "separated ok compare same (bs @ [(k, h, zs)]) [x]" "ordered ok compare (index_entries (bs @ [(k, h, zs)]))"
      using close_separated [OF ys(3) xs(2) _ k(2,3)] by blast+
    obtain r1 where r1: "add_index_entry k r = Some r1" "tb_core compare contents options (bs @ [(k, h, zs)]) None [] r1"
        "tb_num_entries r1 = tb_num_entries r" "tb_closed r1 = tb_closed r"
      by (rule index_core [OF xs(3) closed(2)])
    have "tb_last_key r = fst (last zs)" using rep last(2) ys(2) by (simp add: tb_rep_def)
    moreover have "length k \<le> length (fst (last zs))" using separator_length [OF lt(2,3,1) k(1)] .
    ultimately show ?thesis
      using r1 st(3-5) closed(1) holds_empty [OF st(5)] Some xs(1) k(1,4) ys(1) r(5)
      by (intro exI [of _ "bs @ [(k, h, zs)]"] exI [of _ r1]) simp
  qed
  then obtain bs' r1 where r1: "(if tb_pending_index_entry r
        then if \<not> BlockBuilder_empty (tb_data_block r) then None
          else do { sep \<leftarrow> separator (tb_last_key r) (fst x); add_index_entry sep r }
        else Some r) = Some r1" "tb_core compare contents options bs' None xs r1" "tb_num_entries r1 = tb_num_entries r \<and> \<not> tb_closed r1"
      "ys = all_entries bs' @ xs" "separated ok compare same bs' (xs @ [x])"
      "\<forall>b \<in> set bs'. length (part_key b) \<le> length (fst (last (part_entries b)))" by blast
  have "ordered ok compare (xs @ [x])" using order r1(4) by (simp add: ordered_def sorted_wrt_append)
  from Add_data [OF r1(2) this] obtain b where b: "BlockBuilder_Add (fst x) (snd x) (tb_data_block r1) = Some b"
    "tb_core compare contents options bs' None (xs @ [x]) (r1\<lparr>tb_filter_block := map_option (AddKey (fst x)) (tb_filter_block r1),
       tb_last_key := fst x, tb_num_entries := tb_num_entries r1 + 1, tb_data_block := b\<rparr>)" .
  let ?r2 = "r1\<lparr>tb_filter_block := map_option (AddKey (fst x)) (tb_filter_block r1),
       tb_last_key := fst x, tb_num_entries := tb_num_entries r1 + 1, tb_data_block := b\<rparr>"
  have opt: "tb_options r1 = options" using r1(2) by (simp add: tb_core_def)
  have add: "TableBuilder_Add file (fst x) (snd x) r =
      (if (of_nat (CurrentSizeEstimate b) :: size) \<ge> op_block_size options then TableBuilder_Flush file ?r2 else Some ?r2)"
    by (simp add: TableBuilder_Add_def tb_ok_def status_ok_def Let_def st(1-3) cmp larger r1(1) b(1) opt
        split del: if_split del: bind_Some_iff cong: if_cong)
  have num: "tb_num_entries ?r2 = length (ys @ [x])" "tb_last_key ?r2 = fst x" "\<not> tb_closed ?r2" using rep r1(3) by (simp_all add: tb_rep_def)
  show thesis
  proof (cases "(of_nat (CurrentSizeEstimate b) :: size) \<ge> op_block_size options")
    case False
    have "tb_rep ok compare same contents options (ys @ [x]) ?r2"
      unfolding tb_rep_def using num b(2) r1(4-6)
      by (intro conjI exI [of _ bs'] exI [of _ None] exI [of _ "xs @ [x]"]) simp_all
    then show thesis using add False that by simp
  next
    case True
    obtain h r3 where r3: "TableBuilder_Flush file ?r2 = Some r3" "tb_core compare contents options bs' (Some (h, xs @ [x])) [] r3"
        "tb_num_entries r3 = tb_num_entries ?r2" "tb_last_key r3 = tb_last_key ?r2" "\<not> tb_closed r3"
      by (rule Flush_core [OF app b(2) _ num(3) pol]) (use K small r1(4) in simp_all)
    have "tb_rep ok compare same contents options (ys @ [x]) r3"
      unfolding tb_rep_def using num r3(2-5) r1(4-6)
      by (intro conjI exI [of _ bs'] exI [of _ "Some (h, xs @ [x])"] exI [of _ "[]"]) simp_all
    then show thesis using add True r3(1) that by simp
  qed
qed

end

end
