(* ===== verification/Ldb_Table_Finish.thy ===== *)
theory Ldb_Table_Finish
  imports Ldb_Table_Rep
begin

text \<open>
  A new builder satisfies the invariant of \<open>Ldb_Table_Rep\<close>, additions keep it, and from it
  \<open>Finish\<close> makes a table (\<open>table_file\<close>).  Every sorted list that is small enough (\<open>table_weight\<close>)
  is written without an error.
\<close>

section \<open>From a new builder on\<close>

context table_order
begin

lemma rep_new:
  assumes "table_options_ok compare separator successor options" "contents f = []"
    "policy_fits (op_filter_policy options) okp B K n"
  obtains r where "TableBuilder options f = Some r" "tb_rep ok compare same contents options [] r"
proof -
  have cmp: "cmp_Compare (op_comparator options) = compare" "1 \<le> op_block_restart_interval options"
    using assms(1) by (simp_all add: table_options_ok_def)
  obtain b where b: "BlockBuilder compare (op_block_restart_interval options) = Some b" "block_holds compare b []"
    by (rule holds_new [OF cmp(2)])
  have "\<exists>fb. (case map_option FilterBlockBuilder (op_filter_policy options) of None \<Rightarrow> Some None
        | Some fb \<Rightarrow> map_option Some (StartBlock 0 fb)) = Some fb \<and> filter_state (op_filter_policy options) fb 0 [] []"
  proof (cases "op_filter_policy options")
    case (Some p)
    have policy: "table_policy p okp" using assms(3) Some by (simp add: policy_fits_def)
    obtain fb where "StartBlock 0 (FilterBlockBuilder p) = Some fb" "fb_rep p [] [] fb"
      using table_policy.StartBlock_rep [OF policy fb_rep_new, of 0] by (auto simp: groups_at_def filter_index_def)
    then show ?thesis using Some by (auto simp: filter_state_def filters_know_def)
  qed (simp add: filter_state_def)
  then obtain fb where fb: "(case map_option FilterBlockBuilder (op_filter_policy options) of None \<Rightarrow> Some None
        | Some fb \<Rightarrow> map_option Some (StartBlock 0 fb)) = Some fb" "filter_state (op_filter_policy options) fb 0 [] []" by blast
  let ?r = "\<lparr>tb_options = options, tb_file = f, tb_offset = 0, tb_status = OK, tb_data_block = b,
       tb_index_block = b\<lparr>bb_interval := 1\<rparr>, tb_last_key = [], tb_num_entries = 0, tb_closed = False,
       tb_filter_block = fb, tb_pending_index_entry = False, tb_pending_handle = BlockHandle\<rparr>"
  have "TableBuilder options f = Some ?r" using b(1) fb(1) cmp(1) by (simp add: TableBuilder_def del: bind_Some_iff)
  moreover have "tb_core compare contents options [] None [] ?r"
    using b(2) fb(2) assms(2) holds_interval [OF b(2)] by (simp add: tb_core_def)
  then have "tb_rep ok compare same contents options [] ?r"
    unfolding tb_rep_def using separated_empty
    by (intro conjI exI [of _ "[]"] exI [of _ None]) simp_all
  ultimately show thesis by (rule that)
qed

lemma Table_Adds_rep:
  assumes "file_appends file contents" "tb_rep ok compare same contents options ys r"
    "table_options_ok compare separator successor options" "ordered ok compare (ys @ xs)"
    "policy_fits (op_filter_policy options) okp B K n" "fst ` set (ys @ xs) \<subseteq> K" "length (ys @ xs) \<le> n"
    "entries_weight 32 (ys @ xs) < 2 ^ 32"
  shows "\<exists>r'. Table_Adds file xs r = Some r' \<and> tb_rep ok compare same contents options (ys @ xs) r'"
  using assms(2,4,6-8)
proof (induction xs arbitrary: ys r)
  case (Cons x xs)
  have "ordered ok compare (ys @ [x])" using Cons.prems(2) ordered_prefix [of ok compare "ys @ [x]" xs] by simp
  then obtain r1 where r1: "TableBuilder_Add file (fst x) (snd x) r = Some r1" "tb_rep ok compare same contents options (ys @ [x]) r1"
    by (rule Add_rep [OF assms(1) Cons.prems(1) assms(3) _ assms(5)]) (use Cons.prems in auto)
  have "\<exists>r'. Table_Adds file xs r1 = Some r' \<and> tb_rep ok compare same contents options ((ys @ [x]) @ xs) r'"
    by (rule Cons.IH [OF r1(2)]) (use Cons.prems in simp_all)
  with r1(1) show ?case by simp
qed simp

end

section \<open>The parts of \<open>Finish\<close>\<close>

text \<open>Something was appended, and what matters later is as before.\<close>

definition appended :: "('f \<Rightarrow> byte list) \<Rightarrow> byte list \<Rightarrow> 'f table_builder \<Rightarrow> 'f table_builder \<Rightarrow> bool" where
  "appended contents zs r r' \<longleftrightarrow> contents (tb_file r') = contents (tb_file r) @ zs \<and> tb_status r' = OK \<and>
     tb_offset r' = of_nat (length (contents (tb_file r'))) \<and> tb_options r' = tb_options r \<and>
     tb_index_block r' = tb_index_block r \<and> tb_pending_index_entry r' = tb_pending_index_entry r \<and>
     tb_pending_handle r' = tb_pending_handle r \<and> tb_last_key r' = tb_last_key r \<and>
     (tb_filter_block r' = None \<longleftrightarrow> tb_filter_block r = None) \<and> tb_closed r' = tb_closed r"

lemma appended_wrote:
  assumes "tb_wrote contents zs r r'" "tb_offset r = of_nat (length (contents (tb_file r)))"
  shows "appended contents zs r r'"
  using assms by (auto simp: appended_def tb_wrote_def)

lemma length_concat_filters:
  assumes "list_all2 (filter_for pol) gs fs" "\<And>g f. g \<in> set gs \<Longrightarrow> filter_for pol g f \<Longrightarrow> length f \<le> B * length g"
  shows "length (concat fs) \<le> B * length (concat gs)"
  using assms
proof (induction rule: list_all2_induct)
  case (Cons g gs f fs)
  have "length f \<le> B * length g" "length (concat fs) \<le> B * length (concat gs)" using Cons by auto
  then show ?case by (simp add: add_mult_distrib2)
qed simp

lemma write_filter_writes:
  assumes app: "file_appends file contents" and r: "tb_status r = OK" "tb_offset r = of_nat (length (contents (tb_file r)))"
    and state: "filter_state (Some p) (tb_filter_block r) (length (contents (tb_file r))) ps []"
    and pol: "policy_fits (Some p) okp B K n"
    and K: "fst ` set (all_entries ps) \<subseteq> K" "length (all_entries ps) \<le> n" "n < 2 ^ 31"
    and ne: "\<And>b. b \<in> set ps \<Longrightarrow> part_entries b \<noteq> []"
    and small: "length (contents (tb_file r)) + B * length (all_entries ps) < 2 ^ 31"
  obtains h zs r' where "write_filter file r = Some (h, r')" "appended contents zs r r'" "handle_ok h"
    "filters_in p (contents (tb_file r')) h okp ps" "length zs \<le> B * length (all_entries ps) + length (contents (tb_file r)) + 14"
proof -
  let ?cs = "contents (tb_file r)"
  obtain fb gs ks where fb: "tb_filter_block r = Some fb" "fb_rep p gs ks fb" "length gs = length ?cs div 2048" "filters_know gs ks ps []"
    using state by (auto simp: filter_state_def split: option.splits)
  have policy: "table_policy p okp" using pol by (simp add: policy_fits_def)
  let ?gs = "all_groups gs ks"
  have cat: "concat gs @ ks = map fst (all_entries ps)" using fb(4) by (simp add: filters_know_def)
  then have keys: "set (concat gs @ ks) = fst ` set (all_entries ps)" "length (concat gs @ ks) = length (all_entries ps)"
    by (simp_all only: set_map length_map)
  have okp: "okp g" if "g \<in> set (gs @ [ks])" for g
  proof -
    have "set g \<subseteq> K" using that keys(1) K(1) by auto
    moreover have "length g \<le> length (concat gs @ ks)" using that by (auto simp: in_set_conv_decomp)
    then have "length g \<le> n" using keys(2) K(2) by simp
    ultimately show ?thesis using pol by (simp add: policy_fits_def)
  qed
  have "length ks < 2 ^ 31" using keys(2) K(2,3) by simp
  then obtain fs fb' where f: "FilterBlock_Finish fb = Some (filters_bytes fs, fb')" "list_all2 (filter_for p) ?gs fs"
    using table_policy.Finish_rep [OF policy fb(2)] okp [of ks] by auto
  have sub: "set ?gs \<subseteq> set (gs @ [ks])" "length (concat ?gs) = length (all_entries ps)" "length ?gs \<le> Suc (length gs)"
    using keys(2) by (auto simp: all_groups_def)
  have "length (concat fs) \<le> B * length (concat ?gs)"
  proof (rule length_concat_filters [OF f(2)])
    fix g f assume g: "g \<in> set ?gs" "filter_for p g f"
    then have "okp g" using okp sub(1) by blast
    with g(2) pol show "length f \<le> B * length g" by (auto simp: filter_for_def policy_fits_def split: if_splits)
  qed
  moreover have "length fs = length ?gs" using f(2) by (simp add: list_all2_lengthD)
  moreover have "4 * (length ?cs div 2048) \<le> length ?cs" by linarith
  ultimately have len: "length (filters_bytes fs) \<le> B * length (all_entries ps) + length ?cs + 9"
    using sub(2,3) fb(3) by (simp add: length_filters_bytes)
  obtain r1 where r1: "WriteRawBlock file (filters_bytes fs) kNoCompression (r\<lparr>tb_filter_block := Some fb'\<rparr>) =
      Some (\<lparr>bh_offset = tb_offset r, bh_size = of_nat (length (filters_bytes fs))\<rparr>, r1)"
    "tb_wrote contents (filters_bytes fs @ block_trailer (filters_bytes fs) kNoCompression) (r\<lparr>tb_filter_block := Some fb'\<rparr>) r1"
    using WriteRawBlock_writes [OF app, of "filters_bytes fs" "r\<lparr>tb_filter_block := Some fb'\<rparr>"] by auto
  let ?h = "\<lparr>bh_offset = of_nat (length ?cs), bh_size = of_nat (length (filters_bytes fs))\<rparr> :: block_handle"
  let ?z = "filters_bytes fs @ block_trailer (filters_bytes fs) kNoCompression"
  have w: "write_filter file r = Some (?h, r1)"
    using fb(1) r f(1) r1(1) by (simp add: write_filter_def tb_ok_def status_ok_def)
  have a: "appended contents ?z r r1" using appended_wrote [OF r1(2)] r(2) fb(1) by (simp add: appended_def)
  have u: "unat (of_nat (length ?cs) :: u64) = length ?cs" "unat (of_nat (length (filters_bytes fs)) :: u64) = length (filters_bytes fs)"
    using small len by (intro unat_of_nat_eq; simp)+
  have "unat w < 2 ^ 33 \<Longrightarrow> w \<noteq> NOT 0" for w :: u64
    by (auto simp: unsigned_minus_1_eq_mask mask_eq_exp_minus_1)
  then have hok: "handle_ok ?h" using u small len by (simp add: handle_ok_def)
  have stored: "stored_at (contents (tb_file r1)) ?h (filters_bytes fs)"
    using a stored_at_new [of ?cs "filters_bytes fs"] small len by (simp add: appended_def)
  have "filters_in p (contents (tb_file r1)) ?h okp ps"
    unfolding filters_in_def
  proof (intro exI [of _ ?gs] exI [of _ fs] conjI ballI stored f(2))
    fix b assume b: "b \<in> set ps"
    have k: "group_of b \<le> length gs" "fst ` set (part_entries b) \<subseteq> set ((gs @ [ks]) ! group_of b)"
      using fb(4) b by (auto simp: filters_know_def)
    have g: "group_of b < length ?gs \<and> ?gs ! group_of b = (gs @ [ks]) ! group_of b"
    proof (cases "group_of b = length gs")
      case True
      then have "ks \<noteq> []" using k(2) ne [OF b] by auto
      then show ?thesis using True by (simp add: all_groups_def)
    next
      case False
      then have "group_of b < length gs" using k(1) by simp
      then show ?thesis by (simp add: all_groups_def nth_append)
    qed
    then show "group_of b < length ?gs" by simp
    then have "?gs ! group_of b \<in> set ?gs" by simp
    then show "okp (?gs ! group_of b)" using okp sub(1) by blast
    show "fst ` set (part_entries b) \<subseteq> set (?gs ! group_of b)" using g k(2) by simp
  qed
  with w a hok len show thesis by (intro that [OF w a hok]) simp_all
qed
lemma holds_Add_first:
  assumes "block_holds compare b []"
  obtains b' where "BlockBuilder_Add k v b = Some b'" "block_holds compare b' [(k, v)]"
proof -
  obtain rs where "build_rep [] rs b" "bb_compare b = compare" using assms by (auto simp: block_holds_def)
  then obtain s rs' b' where b': "BlockBuilder_Add k v b = Some b'" "build_rep [(s, k, v)] rs' b'" "bb_compare b' = compare"
    using Add_entry [of "[]" rs b k v thesis] by auto
  from b'(2,3) have "block_holds compare b' [(k, v)]"
    unfolding block_holds_def by (intro conjI exI [of _ "[(s, k, v)]"] exI [of _ rs']) simp_all
  with b'(1) show thesis by (rule that)
qed

definition meta_entries :: "policy option \<Rightarrow> block_handle \<Rightarrow> (byte list \<times> byte list) list" where
  "meta_entries pol fh = (case pol of None \<Rightarrow> [] | Some pol \<Rightarrow> [(filter_key pol, handle_bytes fh)])"

lemma write_metaindex_writes:
  assumes app: "file_appends file contents" and r: "tb_status r = OK" "tb_offset r = of_nat (length (contents (tb_file r)))"
    and opts: "tb_options r = options" "cmp_Compare (op_comparator options) = compare" "1 \<le> op_block_restart_interval options"
    and pol: "tb_filter_block r = None \<longleftrightarrow> op_filter_policy options = None" "op_filter_policy options \<noteq> None \<Longrightarrow> handle_ok fh"
    and small: "length (contents (tb_file r)) + entries_weight 19 (meta_entries (op_filter_policy options) fh) + 13 < 2 ^ 32"
  obtains h zs r' where "write_metaindex file fh r = Some (h, r')" "appended contents zs r r'" "handle_ok h"
    "block_in (contents (tb_file r')) (handle_bytes h) (meta_entries (op_filter_policy options) fh)"
    "length zs \<le> entries_weight 19 (meta_entries (op_filter_policy options) fh) + 13"
proof -
  obtain b where b: "BlockBuilder compare (op_block_restart_interval options) = Some b" "block_holds compare b []"
    by (rule holds_new [OF opts(3)])
  obtain b' where b': "(case (tb_filter_block r, op_filter_policy options) of
      (Some _, Some pol) \<Rightarrow> do {
        handle_encoding \<leftarrow> BlockHandle_EncodeTo fh [];
        BlockBuilder_Add (filter_key pol) handle_encoding b
      }
    | (Some _, None) \<Rightarrow> None
    | (None, _) \<Rightarrow> Some b) = Some b'" "block_holds compare b' (meta_entries (op_filter_policy options) fh)"
  proof (cases "op_filter_policy options")
    case None
    then show thesis using that [of b] pol(1) b(2) by (simp add: meta_entries_def)
  next
    case (Some p)
    obtain b' where "BlockBuilder_Add (filter_key p) (handle_bytes fh) b = Some b'" "block_holds compare b' [(filter_key p, handle_bytes fh)]"
      by (rule holds_Add_first [OF b(2)])
    then show thesis using that [of b'] Some pol by (auto simp: meta_entries_def EncodeTo_handle)
  qed
  obtain h zs r' where w: "WriteBlock file b' r = Some (h, BlockBuilder_Reset b', r')" "tb_wrote contents zs r r'"
    "block_in (contents (tb_file r) @ zs) (handle_bytes h) (meta_entries (op_filter_policy options) fh)" "handle_ok h"
    "length zs \<le> entries_weight 19 (meta_entries (op_filter_policy options) fh) + 13"
    by (rule holds_WriteBlock [OF app r(1) b'(2) r(2) small])
  have a: "appended contents zs r r'" by (rule appended_wrote [OF w(2) r(2)])
  have "write_metaindex file fh r = Some (h, r')"
    using r opts b(1) b'(1) w(1) by (simp add: write_metaindex_def tb_ok_def status_ok_def cong: option.case_cong del: bind_Some_iff)
  moreover have "block_in (contents (tb_file r')) (handle_bytes h) (meta_entries (op_filter_policy options) fh)"
    using a w(3) by (simp add: appended_def)
  ultimately show thesis using that a w(4,5) by blast
qed

lemma write_footer_writes:
  assumes app: "file_appends file contents" and r: "tb_status r = OK" "tb_offset r = of_nat (length (contents (tb_file r)))"
    and ok: "handle_ok mh" "handle_ok ih"
  obtains r' where "write_footer file mh ih r = Some r'"
    "appended contents (footer_bytes \<lparr>ft_metaindex_handle = mh, ft_index_handle = ih\<rparr>) r r'"
proof -
  let ?f = "\<lparr>ft_metaindex_handle = mh, ft_index_handle = ih\<rparr>"
  have "Footer_EncodeTo ?f [] = Some (footer_bytes ?f)" using ok by (intro EncodeTo_footer) simp_all
  moreover obtain f where f: "wf_Append file (footer_bytes ?f) (tb_file r) = (OK, f)" "contents f = contents (tb_file r) @ footer_bytes ?f"
    using app by (metis file_appends_def prod.collapse)
  ultimately have "write_footer file mh ih r = Some (r\<lparr>tb_status := OK, tb_file := f, tb_offset := tb_offset r + of_nat (length (footer_bytes ?f))\<rparr>)"
    using r(1) by (simp add: write_footer_def new_Footer_def tb_ok_def status_ok_def Let_def del: bind_Some_iff)
  moreover have "tb_wrote contents (footer_bytes ?f) r (r\<lparr>tb_status := OK, tb_file := f, tb_offset := tb_offset r + of_nat (length (footer_bytes ?f))\<rparr>)"
    using f(2) by (auto simp: tb_wrote_def)
  ultimately show thesis using that appended_wrote r(2) by blast
qed

context table_order
begin

text \<open>The index: the key of the last part is a successor of the last key.\<close>

lemma write_index_writes:
  assumes app: "file_appends file contents" and r: "tb_status r = OK" "tb_offset r = of_nat (length (contents (tb_file r)))"
    and succ: "cmp_FindShortSuccessor (op_comparator (tb_options r)) = successor"
    and index: "block_holds compare (tb_index_block r) (index_entries bs)"
    and pend: "tb_pending_index_entry r \<longleftrightarrow> pend \<noteq> None" "\<And>p. pend = Some p \<Longrightarrow> tb_pending_handle r = fst p \<and> handle_ok (fst p) \<and> snd p \<noteq> []"
      "bs \<noteq> [] \<Longrightarrow> pend \<noteq> None" "pend \<noteq> None \<Longrightarrow> tb_last_key r = fst (last (pending_entries pend))"
    and sep: "separated ok compare same bs (pending_entries pend)" and order: "ordered ok compare (all_entries bs @ pending_entries pend)"
    and lengths: "\<forall>b \<in> set bs. length (part_key b) \<le> length (fst (last (part_entries b)))"
    and small: "length (contents (tb_file r)) + entries_weight 39 (all_entries bs @ pending_entries pend) + 13 < 2 ^ 32"
  obtains bs' h zs r' where "write_index file r = Some (h, r')" "contents (tb_file r') = contents (tb_file r) @ zs"
    "tb_status r' = OK" "tb_offset r' = of_nat (length (contents (tb_file r')))" "handle_ok h" "tb_closed r' = tb_closed r"
    "block_in (contents (tb_file r')) (handle_bytes h) (index_entries bs')" "separated ok compare same bs' []"
    "map snd bs' = map snd (written bs pend)" "length zs \<le> entries_weight 39 (all_entries bs @ pending_entries pend) + 13"
proof -
  have "\<exists>bs' r1. (if tb_pending_index_entry r
        then do { succ \<leftarrow> successor (tb_last_key r); add_index_entry succ r } else Some r) = Some r1 \<and>
      tb_file r1 = tb_file r \<and> tb_status r1 = OK \<and> tb_offset r1 = tb_offset r \<and> tb_closed r1 = tb_closed r \<and>
      block_holds compare (tb_index_block r1) (index_entries bs') \<and> separated ok compare same bs' [] \<and>
      map snd bs' = map snd (written bs pend) \<and> (\<forall>b \<in> set bs'. part_entries b \<noteq> [] \<and> length (part_key b) \<le> length (fst (last (part_entries b))))"
  proof (cases pend)
    case None
    then have "bs = []" using pend(3) by auto
    with None show ?thesis using pend r index separated_empty by (intro exI [of _ bs] exI [of _ r]) auto
  next
    case (Some p)
    obtain h ys where p: "p = (h, ys)" by (cases p)
    have st: "tb_pending_index_entry r" "tb_pending_handle r = h" "handle_ok h" "ys \<noteq> []" "tb_last_key r = fst (last ys)"
      "separated ok compare same bs ys" "ordered ok compare (all_entries bs @ ys @ [])"
      using pend Some p sep order by simp_all
    have "last ys \<in> set ys" using st(4) by simp
    then have l: "ok (fst (last ys))" using order Some p by (simp add: ordered_def)
    obtain k where k: "successor (fst (last ys)) = Some k" "ok k" "k = fst (last ys) \<or> less (fst (last ys)) k"
      using successor [OF l] by blast
    note closed = close_separated [OF st(6,4,7) k(2,3), of h]
    obtain b where b: "add_index_entry k r = Some (r\<lparr>tb_last_key := k, tb_index_block := b, tb_pending_index_entry := False\<rparr>)"
      "block_holds compare b (index_entries (bs @ [(k, h, ys)]))"
      by (rule index_step [OF index st(2,3) closed(2)]) simp_all
    have "part_entries b \<noteq> []" if "b \<in> set bs" for b using st(6) that by (simp add: separated_def)
    then show ?thesis
      using st b closed(1) k(1) successor_length [OF l k(1)] lengths r Some p
      by (intro exI [of _ "bs @ [(k, h, ys)]"] exI [of _ "r\<lparr>tb_last_key := k, tb_index_block := b, tb_pending_index_entry := False\<rparr>"]) auto
  qed
  then obtain bs' r1 where r1: "(if tb_pending_index_entry r
        then do { succ \<leftarrow> successor (tb_last_key r); add_index_entry succ r } else Some r) = Some r1"
      "tb_file r1 = tb_file r" "tb_status r1 = OK" "tb_offset r1 = tb_offset r \<and> tb_closed r1 = tb_closed r"
      "block_holds compare (tb_index_block r1) (index_entries bs')" "separated ok compare same bs' []"
      "map snd bs' = map snd (written bs pend)"
      "\<forall>b \<in> set bs'. part_entries b \<noteq> [] \<and> length (part_key b) \<le> length (fst (last (part_entries b)))" by blast
  have all: "all_entries bs' = all_entries bs @ pending_entries pend"
  proof -
    have "all_entries cs = concat (map snd (map snd cs))" for cs by (simp add: all_entries_def comp_def)
    then have "all_entries bs' = all_entries (written bs pend)" by (simp only: r1(7))
    then show ?thesis by (cases pend) simp_all
  qed
  have weight: "entries_weight 19 (index_entries cs) \<le> entries_weight 39 (all_entries cs)"
    if "\<forall>b \<in> set cs. part_entries b \<noteq> [] \<and> length (part_key b) \<le> length (fst (last (part_entries b)))" for cs :: "table_part list"
    using that
  proof (induction cs)
    case (Cons c cs)
    have "length (fst (last xs)) + 39 \<le> entries_weight 39 xs" if "xs \<noteq> []" for xs :: "(byte list \<times> byte list) list"
      using that by (induction xs) auto
    then have "length (fst (last (part_entries c))) + 39 \<le> entries_weight 39 (part_entries c)" using Cons.prems by simp
    with Cons length_handle_bytes [of "part_handle c"] show ?case by (simp add: index_entries_def all_entries_def)
  qed (simp add: index_entries_def)
  have w39: "entries_weight 19 (index_entries bs') \<le> entries_weight 39 (all_entries bs @ pending_entries pend)"
    using weight [OF r1(8)] all by simp
  have off: "tb_offset r1 = of_nat (length (contents (tb_file r1)))" using r1(2,4) r(2) by simp
  have small': "length (contents (tb_file r1)) + entries_weight 19 (index_entries bs') + 13 < 2 ^ 32" using small w39 r1(2) by simp
  obtain h zs r' where w: "WriteBlock file (tb_index_block r1) r1 = Some (h, BlockBuilder_Reset (tb_index_block r1), r')"
    "tb_wrote contents zs r1 r'" "block_in (contents (tb_file r1) @ zs) (handle_bytes h) (index_entries bs')" "handle_ok h"
    "length zs \<le> entries_weight 19 (index_entries bs') + 13"
    by (rule holds_WriteBlock [OF app r1(3,5) off small'])
  have a: "appended contents zs r1 r'" by (rule appended_wrote [OF w(2) off])
  let ?r = "r'\<lparr>tb_index_block := BlockBuilder_Reset (tb_index_block r1)\<rparr>"
  have "write_index file r = Some (h, ?r)"
    by (simp add: write_index_def tb_ok_def status_ok_def r(1) succ r1(1) w(1) split del: if_split del: bind_Some_iff cong: if_cong)
  then show thesis
    by (rule that [where bs' = bs' and zs = zs]) (use a w r1 w39 in \<open>simp_all add: appended_def\<close>)
qed

end
section \<open>A table is built\<close>

definition table_weight :: "nat \<Rightarrow> table_options \<Rightarrow> (byte list \<times> byte list) list \<Rightarrow> nat" where
  "table_weight B options xs = 3 * entries_weight (B + 100) xs +
     (case op_filter_policy options of None \<Rightarrow> 0 | Some pol \<Rightarrow> length (fp_Name pol)) + 200"

lemma length_ascii_filter [simp]: "length (ascii ''filter.'') = 7"
  by (simp add: ascii_def)

lemma meta_weight:
  "entries_weight 19 (meta_entries pol fh) \<le> (case pol of None \<Rightarrow> 0 | Some pol \<Rightarrow> length (fp_Name pol)) + 46"
  using length_handle_bytes [of fh] by (cases pol) (simp_all add: meta_entries_def filter_key_def)

context table_order
begin

lemma Finish_table:
  assumes app: "file_appends file contents" and rep: "tb_rep ok compare same contents options ys r"
    and opts: "table_options_ok compare separator successor options" and order: "ordered ok compare ys"
    and pol: "policy_fits (op_filter_policy options) okp B K n"
    and K: "fst ` set ys \<subseteq> K" "length ys \<le> n" "n < 2 ^ 31"
    and small: "table_weight B options ys < 2 ^ 32"
  obtains bs r' where "TableBuilder_Finish file r = Some (OK, r')" "tb_closed r'"
    "table_file ok compare same (op_filter_policy options) okp bs (contents (tb_file r'))" "all_entries bs = ys"
    "FileSize r' = of_nat (length (contents (tb_file r')))"
proof -
  obtain bs pend xs where r: "tb_core compare contents options bs pend xs r" "ys = all_entries bs @ pending_entries pend @ xs"
    "separated ok compare same bs (pending_entries pend @ xs)" "bs \<noteq> [] \<longrightarrow> pending_entries pend @ xs \<noteq> []"
    "\<forall>b \<in> set bs. length (part_key b) \<le> length (fst (last (part_entries b)))" "\<not> tb_closed r"
    "ys \<noteq> [] \<longrightarrow> tb_last_key r = fst (last ys)"
    using rep by (auto simp: tb_rep_def)
  let ?pol = "op_filter_policy options" and ?w = "\<lambda>c. entries_weight c ys"
  have weights: "?w (c + d) = ?w c + d * length ys" for c d by (rule entries_weight_add)
  have w100: "?w (B + 100) = ?w 32 + (B + 68) * length ys" using weights [of 32 "B + 68"] by (simp add: add.commute)
  have w39: "?w 39 = ?w 32 + 7 * length ys" using weights [of 32 7] by simp
  let ?name = "case ?pol of None \<Rightarrow> 0 | Some pol \<Rightarrow> length (fp_Name pol)"
  have bound: "3 * ?w 32 + 3 * ((B + 68) * length ys) + ?name + 200 < 2 ^ 32"
    using small by (simp add: table_weight_def w100)
  then have w32: "?w 32 < 2 ^ 32" by linarith
  text \<open>The last block is written.\<close>
  obtain pend1 r1 where r1: "TableBuilder_Flush file r = Some r1" "tb_core compare contents options bs pend1 [] r1"
    "pending_entries pend1 = pending_entries pend @ xs" "tb_last_key r1 = tb_last_key r" "\<not> tb_closed r1" "bs \<noteq> [] \<Longrightarrow> pend1 \<noteq> None"
  proof (cases "xs = []")
    case True
    have "TableBuilder_Flush file r = Some r"
      using r(1,6) holds_empty [of compare "tb_data_block r" xs] True by (simp add: TableBuilder_Flush_def tb_core_def tb_ok_def)
    moreover have "bs \<noteq> [] \<Longrightarrow> pend \<noteq> None" using r(4) True by (cases pend) auto
    ultimately show thesis using that [of r pend] r True by simp
  next
    case False
    have none: "pend = None" using r(1) False by (auto simp: tb_core_def split: option.splits)
    have core: "tb_core compare contents options bs None xs r" "ys = all_entries bs @ xs" using r(1,2) none by simp_all
    from Flush_core [OF app core(1) False r(6) pol] K(1,2) w32
    obtain h r1 where "TableBuilder_Flush file r = Some r1" "tb_core compare contents options bs (Some (h, xs)) [] r1"
        "tb_num_entries r1 = tb_num_entries r" "tb_last_key r1 = tb_last_key r" "\<not> tb_closed r1"
      unfolding core(2) by metis
    then show thesis using that [of r1 "Some (h, xs)"] none by simp
  qed
  let ?ps = "written bs pend1"
  have ys: "ys = all_entries bs @ pending_entries pend1" "all_entries ?ps = ys"
    using r(2) r1(3) by (cases pend1; simp)+
  let ?r1 = "r1\<lparr>tb_closed := True\<rparr>"
  have st: "tb_status ?r1 = OK" "tb_offset ?r1 = of_nat (length (contents (tb_file ?r1)))" "tb_options ?r1 = options"
    "length (contents (tb_file r1)) \<le> ?w 32" "block_holds compare (tb_index_block r1) (index_entries bs)"
    "tb_pending_index_entry r1 \<longleftrightarrow> pend1 \<noteq> None" "distinct (map part_handle ?ps)"
    "filter_state ?pol (tb_filter_block r1) (length (contents (tb_file r1))) ?ps []"
    using r1(2) ys(2) by (simp_all add: tb_core_def)
  have blocks: "block_in (contents (tb_file r1)) (handle_bytes (part_handle b)) (part_entries b)" if "b \<in> set ?ps" for b
    using r1(2) that by (simp add: tb_core_def)
  have ne: "part_entries b \<noteq> []" if "b \<in> set ?ps" for b
    using that r(3) r1(2) by (cases pend1) (auto simp: separated_def tb_core_def)
  text \<open>The filters.\<close>
  obtain fh z1 r2 where r2: "write_filter file ?r1 = Some (fh, r2)" "appended contents z1 ?r1 r2" "?pol \<noteq> None \<Longrightarrow> handle_ok fh"
    "\<And>p. ?pol = Some p \<Longrightarrow> filters_in p (contents (tb_file r2)) fh okp ?ps" "length z1 \<le> B * length ys + ?w 32 + 14"
    "tb_filter_block r2 = None \<longleftrightarrow> ?pol = None"
  proof (cases ?pol)
    case None
    then have "tb_filter_block r1 = None" using st(8) by (auto simp: filter_state_def split: option.splits)
    then show thesis using that [of BlockHandle ?r1 "[]"] None st by (simp add: write_filter_def appended_def)
  next
    case (Some p)
    have fb: "tb_filter_block r1 \<noteq> None" using st(8) Some by (auto simp: filter_state_def split: option.splits)
    have state: "filter_state (Some p) (tb_filter_block ?r1) (length (contents (tb_file ?r1))) ?ps []" using st(8) Some by simp
    have "length (contents (tb_file ?r1)) + B * length (all_entries ?ps) < 2 ^ 31"
      using st(4) bound ys(2) by (simp add: add_mult_distrib)
    from write_filter_writes [OF app st(1,2) state _ _ _ K(3) ne this, of okp K]
    obtain h zs r' where w: "write_filter file ?r1 = Some (h, r')" "appended contents zs ?r1 r'" "handle_ok h"
        "filters_in p (contents (tb_file r')) h okp ?ps" "length zs \<le> B * length (all_entries ?ps) + length (contents (tb_file ?r1)) + 14"
      using pol Some K ys(2) by metis
    then show thesis using that [of h r' zs] Some fb ys(2) st(4) by (simp add: appended_def)
  qed
  have a2: "contents (tb_file r2) = contents (tb_file r1) @ z1" "tb_status r2 = OK" "tb_offset r2 = of_nat (length (contents (tb_file r2)))"
    "tb_options r2 = options" using r2(2) st(3) by (simp_all add: appended_def)
  have cmp: "cmp_Compare (op_comparator options) = compare" "cmp_FindShortSuccessor (op_comparator options) = successor"
    "1 \<le> op_block_restart_interval options" using opts by (simp_all add: table_options_ok_def)
  text \<open>The index of the meta blocks.\<close>
  note mw = meta_weight [of ?pol fh]
  have "length (contents (tb_file r2)) + entries_weight 19 (meta_entries ?pol fh) + 13 < 2 ^ 32"
    using mw a2(1) st(4) r2(5) bound by (simp add: add_mult_distrib)
  from write_metaindex_writes [OF app a2(2-4) cmp(1,3) r2(6,3) this]
  obtain mh z2 r3 where r3: "write_metaindex file fh r2 = Some (mh, r3)" "appended contents z2 r2 r3" "handle_ok mh"
    "block_in (contents (tb_file r3)) (handle_bytes mh) (meta_entries ?pol fh)" "length z2 \<le> entries_weight 19 (meta_entries ?pol fh) + 13"
    by metis
  have a3: "contents (tb_file r3) = contents (tb_file r1) @ z1 @ z2" "tb_status r3 = OK" "tb_offset r3 = of_nat (length (contents (tb_file r3)))"
    "tb_options r3 = options" "tb_index_block r3 = tb_index_block r1" "tb_pending_index_entry r3 = tb_pending_index_entry r1"
    "tb_pending_handle r3 = tb_pending_handle r1" "tb_last_key r3 = tb_last_key r1"
    using r3(2) r2(2) a2 by (simp_all add: appended_def)
  text \<open>The index.\<close>
  obtain bs' ih z3 r4 where r4: "write_index file r3 = Some (ih, r4)" "contents (tb_file r4) = contents (tb_file r3) @ z3"
    "tb_status r4 = OK" "tb_offset r4 = of_nat (length (contents (tb_file r4)))" "handle_ok ih" "tb_closed r4 = tb_closed r3"
    "block_in (contents (tb_file r4)) (handle_bytes ih) (index_entries bs')" "separated ok compare same bs' []"
    "map snd bs' = map snd ?ps" "length z3 \<le> entries_weight 39 (all_entries bs @ pending_entries pend1) + 13"
  proof (rule write_index_writes [OF app a3(2,3), where bs = bs and pend = pend1])
    show "cmp_FindShortSuccessor (op_comparator (tb_options r3)) = successor" using a3(4) cmp(2) by simp
    show "block_holds compare (tb_index_block r3) (index_entries bs)" using a3(5) st(5) by simp
    show "tb_pending_index_entry r3 \<longleftrightarrow> pend1 \<noteq> None" using a3(6) st(6) by simp
    show "tb_pending_handle r3 = fst p \<and> handle_ok (fst p) \<and> snd p \<noteq> []" if "pend1 = Some p" for p
      using a3(7) r1(2) that by (simp add: tb_core_def)
    show "pend1 \<noteq> None" if "bs \<noteq> []" using r1(6) that .
    show "tb_last_key r3 = fst (last (pending_entries pend1))" if "pend1 \<noteq> None"
      using a3(8) r1(2,4) r(7) ys(1) that by (auto simp: tb_core_def)
    show "separated ok compare same bs (pending_entries pend1)" using r(3) r1(3) by simp
    show "ordered ok compare (all_entries bs @ pending_entries pend1)" using order ys(1) by simp
    show "\<forall>b \<in> set bs. length (part_key b) \<le> length (fst (last (part_entries b)))" by (rule r(5))
    have "length (contents (tb_file r3)) + ?w 39 + 13 < 2 ^ 32"
      using a3(1) st(4) r2(5) r3(5) mw bound w39 by (simp add: add_mult_distrib)
    then show "length (contents (tb_file r3)) + entries_weight 39 (all_entries bs @ pending_entries pend1) + 13 < 2 ^ 32"
      by (simp only: ys(1))
  qed
  text \<open>The footer.\<close>
  let ?f = "\<lparr>ft_metaindex_handle = mh, ft_index_handle = ih\<rparr>"
  obtain r5 where r5: "write_footer file mh ih r4 = Some r5" "appended contents (footer_bytes ?f) r4 r5"
    by (rule write_footer_writes [OF app r4(3,4) r3(3) r4(5)])
  let ?cs = "contents (tb_file r5)"
  have cs: "?cs = contents (tb_file r1) @ z1 @ z2 @ z3 @ footer_bytes ?f" using r5(2) r4(2) a3(1) by (simp add: appended_def)
  have finish: "TableBuilder_Finish file r = Some (OK, r5)"
    using r1(1,5) r2(1) r3(1) r4(1) r5 by (simp add: TableBuilder_Finish_def appended_def)
  have closed: "tb_closed r5" using r5(2) r4(6) r3(2) r2(2) by (simp add: appended_def)
  have size: "FileSize r5 = of_nat (length ?cs)" using r5(2) by (simp add: FileSize_def appended_def)
  have handles: "map part_handle bs' = map part_handle ?ps" "all_entries bs' = ys"
  proof -
    have "map part_handle cs = map fst (map snd cs)" "all_entries cs = concat (map snd (map snd cs))" for cs :: "table_part list"
      by (simp_all add: all_entries_def comp_def)
    from this [of bs'] this [of ?ps] show "map part_handle bs' = map part_handle ?ps" "all_entries bs' = ys"
      using ys(2) by (simp_all only: r4(9))
  qed
  have mem: "\<exists>c \<in> set ?ps. snd c = snd b" if "b \<in> set bs'" for b
  proof -
    have "snd b \<in> set (map snd bs')" using that by simp
    then obtain c where "c \<in> set ?ps" "snd b = snd c" unfolding r4(9) set_map by blast
    then show ?thesis by (intro bexI [of _ c]) simp_all
  qed
  have "table_file ok compare same ?pol okp bs' ?cs"
    unfolding table_file_def
  proof (intro exI [of _ "contents (tb_file r1) @ z1 @ z2 @ z3"] exI [of _ ?f] exI [of _ fh] conjI ballI)
    show "?cs = (contents (tb_file r1) @ z1 @ z2 @ z3) @ footer_bytes ?f" using cs by simp
    have "length ?cs \<le> ?w 32 + (B * length ys + ?w 32 + 14) + (?name + 59) + (?w 39 + 13) + 48"
      using cs st(4) r2(5) r3(5) r4(10) mw ys(1) by simp
    then show "length ?cs < 2 ^ 32" using bound w39 by (simp add: add_mult_distrib)
    show "block_in ?cs (handle_bytes (ft_index_handle ?f)) (index_entries bs')"
      using block_in_append [OF r4(7), of "footer_bytes ?f"] r5(2) by (simp add: appended_def)
    show "block_in ?cs (handle_bytes (part_handle b)) (part_entries b)" if "b \<in> set bs'" for b
      using mem [OF that] blocks block_in_append [of "contents (tb_file r1)"] cs by metis
    show "distinct (map part_handle bs')" using st(7) handles by simp
    show "separated ok compare same bs' []" by (rule r4(8))
    show "ordered ok compare (all_entries bs')" using order handles(2) by simp
    have "block_in (contents (tb_file r3) @ z3 @ footer_bytes ?f) (handle_bytes mh) (meta_entries ?pol fh)"
      by (rule block_in_append [OF r3(4)])
    then show "block_in ?cs (handle_bytes (ft_metaindex_handle ?f)) (case ?pol of None \<Rightarrow> [] | Some pol \<Rightarrow> [(filter_key pol, handle_bytes fh)])"
      using cs a3(1) by (simp add: meta_entries_def)
    show "case ?pol of None \<Rightarrow> True | Some p \<Rightarrow> filters_in p ?cs fh okp bs'"
    proof (cases ?pol)
      case (Some p)
      obtain gs fs where g: "stored_at (contents (tb_file r2)) fh (filters_bytes fs)" "list_all2 (filter_for p) gs fs"
        "\<forall>b \<in> set ?ps. group_of b < length gs \<and> okp (gs ! group_of b) \<and> fst ` set (part_entries b) \<subseteq> set (gs ! group_of b)"
        using r2(4) [OF Some] by (auto simp: filters_in_def)
      have "stored_at ?cs fh (filters_bytes fs)" using stored_at_append [OF g(1), of "z2 @ z3 @ footer_bytes ?f"] cs a2(1) by simp
      moreover have "group_of b < length gs \<and> okp (gs ! group_of b) \<and> fst ` set (part_entries b) \<subseteq> set (gs ! group_of b)" if "b \<in> set bs'" for b
        using mem [OF that] g(3) by metis
      ultimately have "filters_in p ?cs fh okp bs'"
        unfolding filters_in_def by (intro exI [of _ gs] exI [of _ fs] conjI ballI g(2)) simp_all
      then show ?thesis using Some by simp
    qed simp
  qed
  then show thesis using that finish closed handles(2) size by blast
qed

text \<open>From a list to a table.\<close>

lemma build_table_file:
  assumes "file_appends file contents" "contents f = []" "table_options_ok compare separator successor options"
    "ordered ok compare xs" "policy_fits (op_filter_policy options) okp B (fst ` set xs) (length xs)"
    "table_weight B options xs < 2 ^ 32"
  obtains bs r where "build_table file options xs f = Some (OK, r)" "tb_closed r"
    "table_file ok compare same (op_filter_policy options) okp bs (contents (tb_file r))" "all_entries bs = xs"
    "FileSize r = of_nat (length (contents (tb_file r)))"
proof -
  obtain r0 where r0: "TableBuilder options f = Some r0" "tb_rep ok compare same contents options [] r0"
    by (rule rep_new [where contents = contents and f = f, OF assms(3,2,5)])
  have w: "entries_weight 32 xs \<le> entries_weight (B + 100) xs" by (rule entries_weight_mono) simp
  have small: "entries_weight 32 xs < 2 ^ 32" using w assms(6) by (simp add: table_weight_def)
  obtain r1 where r1: "Table_Adds file xs r0 = Some r1" "tb_rep ok compare same contents options xs r1"
    using Table_Adds_rep [OF assms(1) r0(2) assms(3) _ assms(5), of xs] assms(4) small by auto
  have "(B + 100) * length xs \<le> entries_weight (B + 100) xs" by (rule length_le_weight)
  then have n: "length xs < 2 ^ 31" using assms(6) by (simp add: table_weight_def add_mult_distrib)
  obtain bs r where "TableBuilder_Finish file r1 = Some (OK, r)" "tb_closed r"
    "table_file ok compare same (op_filter_policy options) okp bs (contents (tb_file r))" "all_entries bs = xs"
    "FileSize r = of_nat (length (contents (tb_file r)))"
    by (rule Finish_table [OF assms(1) r1(2) assms(3,4,5) subset_refl le_refl n assms(6)])
  with r0(1) r1(1) show thesis by (intro that [of r bs]) (simp_all add: build_table_def)
qed

end

end
