(* ===== verification/Ldb_Table.thy ===== *)
theory Ldb_Table
  imports Ldb_Table_Build
begin

text \<open>
  Reading a table: \<open>leveldb-library/table/table.cc\<close>, with the iterators without entries of
  \<open>table/iterator.cc\<close>.  The block cache is not modelled: the options have none.  An opened
  table built from a list is one again: its iterator follows the list, and \<open>InternalGet\<close> misses no key.
\<close>

section \<open>The code\<close>

text \<open>
  What \<open>Block::NewIterator\<close> returns: an iterator over the block, or one that is never valid and
  has a status (\<open>EmptyIterator\<close>).
\<close>

definition any_Valid :: "block_iterator \<Rightarrow> bool" where
  "any_Valid it = (case it of Block_iterator b \<Rightarrow> Iter_Valid b | _ \<Rightarrow> False)"

definition any_get :: "(block_iter \<Rightarrow> 'a option) \<Rightarrow> block_iterator \<Rightarrow> 'a option" where
  "any_get f it = (case it of Block_iterator b \<Rightarrow> f b | _ \<Rightarrow> None)"

text \<open>\<open>Next\<close> and \<open>Prev\<close> of an empty iterator are assertions that fail; the seeks do nothing.\<close>

definition any_step :: "(block_iter \<Rightarrow> block_iter option) \<Rightarrow> block_iterator \<Rightarrow> block_iterator option" where
  "any_step f it = (case it of Block_iterator b \<Rightarrow> map_option Block_iterator (f b) | _ \<Rightarrow> None)"

definition any_seek :: "(block_iter \<Rightarrow> block_iter option) \<Rightarrow> block_iterator \<Rightarrow> block_iterator option" where
  "any_seek f it = (case it of Block_iterator b \<Rightarrow> map_option Block_iterator (f b) | _ \<Rightarrow> Some it)"

definition any_status :: "block_iterator \<Rightarrow> status option" where
  "any_status it = (case it of Block_iterator b \<Rightarrow> Some (bi_status b) | Empty_iterator \<Rightarrow> Some OK | Error_iterator s \<Rightarrow> Some s)"

definition Any_class :: "(block_iterator, byte list, byte list) iter_class" where
  "Any_class = \<lparr>it_Valid = any_Valid, it_key = any_get Iter_key, it_val = any_get Iter_value,
     it_Next = any_step Iter_Next, it_Prev = any_step Iter_Prev, it_Seek = any_seek \<circ> Iter_Seek,
     it_SeekToFirst = any_seek Iter_SeekToFirst, it_SeekToLast = any_seek Iter_SeekToLast, it_status = any_status\<rparr>"

text \<open>A table; the status, the identifier for the cache and the memory of the filters are left out.\<close>

record table =
  tab_options :: table_options
  tab_file :: random_file
  tab_filter :: "filter_reader option"
  tab_metaindex_handle :: block_handle
  tab_index_block :: block

definition ReadFilter :: "byte list \<Rightarrow> table \<Rightarrow> table option" where
  "ReadFilter filter_handle_value t =
     (let (s, filter_handle, _) = BlockHandle_DecodeFrom filter_handle_value BlockHandle
      in if \<not> status_ok s then Some t
         else do {
           (s, block) \<leftarrow> ReadBlock (tab_file t) (op_paranoid_checks (tab_options t)) filter_handle;
           if \<not> status_ok s then Some t
           else do {
             pol \<leftarrow> op_filter_policy (tab_options t);
             reader \<leftarrow> FilterBlockReader pol (bc_data block);
             Some (t\<lparr>tab_filter := Some reader\<rparr>)
           }
         })"

definition ReadMeta :: "footer \<Rightarrow> table \<Rightarrow> table option" where
  "ReadMeta f t =
     (case op_filter_policy (tab_options t) of
        None \<Rightarrow> Some t
      | Some pol \<Rightarrow> do {
          (s, contents) \<leftarrow> ReadBlock (tab_file t) (op_paranoid_checks (tab_options t)) (ft_metaindex_handle f);
          if \<not> status_ok s then Some t
          else do {
            meta \<leftarrow> Block (bc_data contents);
            iter \<leftarrow> Block_NewIterator (cmp_Compare BytewiseComparator) meta;
            let key = filter_key pol;
            iter \<leftarrow> it_Seek Any_class key iter;
            if it_Valid Any_class iter then do {
              k \<leftarrow> it_key Any_class iter;
              if Slice_eq k key then do { v \<leftarrow> it_val Any_class iter; ReadFilter v t } else Some t
            }
            else Some t
          }
        })"

definition Table_Open :: "table_options \<Rightarrow> random_file \<Rightarrow> u64 \<Rightarrow> (status \<times> table option) option" where
  "Table_Open options file sz =
     (if sz < of_nat kEncodedLength then Some (Corruption (ascii ''file is too short to be an sstable''), None)
      else do {
        let (s, footer_input, _) = file (sz - of_nat kEncodedLength) (of_nat kEncodedLength);
        if \<not> status_ok s then Some (s, None)
        else do {
          (s, f, _) \<leftarrow> Footer_DecodeFrom footer_input new_Footer;
          if \<not> status_ok s then Some (s, None)
          else do {
            (s, contents) \<leftarrow> ReadBlock file (op_paranoid_checks options) (ft_index_handle f);
            if \<not> status_ok s then Some (s, None)
            else do {
              index_block \<leftarrow> Block (bc_data contents);
              t \<leftarrow> ReadMeta f \<lparr>tab_options = options, tab_file = file, tab_filter = None,
                tab_metaindex_handle = ft_metaindex_handle f, tab_index_block = index_block\<rparr>;
              Some (s, Some t)
            }
          }
        }
      })"

text \<open>Of the read options only \<open>verify_checksums\<close> matters.\<close>

definition BlockReader :: "table \<Rightarrow> bool \<Rightarrow> byte list \<Rightarrow> block_iterator option" where
  "BlockReader t verify_checksums index_value = do {
     let (s, handle, _) = BlockHandle_DecodeFrom index_value BlockHandle;
     (s, block) \<leftarrow> (if status_ok s then do {
         (s, contents) \<leftarrow> ReadBlock (tab_file t) verify_checksums handle;
         if status_ok s then do { b \<leftarrow> Block (bc_data contents); Some (s, Some b) } else Some (s, None)
       }
       else Some (s, None));
     (case block of
        Some b \<Rightarrow> Block_NewIterator (cmp_Compare (op_comparator (tab_options t))) b
      | None \<Rightarrow> Some (Error_iterator s))
   }"

type_synonym table_iter = "(block_iterator, block_iterator, byte list, byte list) two_level"

definition index_Iterator :: "table \<Rightarrow> block_iterator option" where
  "index_Iterator t = Block_NewIterator (cmp_Compare (op_comparator (tab_options t))) (tab_index_block t)"

definition Table_NewIterator :: "table \<Rightarrow> table_iter option" where
  "Table_NewIterator t = do { iter \<leftarrow> index_Iterator t; TwoLevelIterator Any_class [] iter }"

definition Table_class :: "table \<Rightarrow> bool \<Rightarrow> (table_iter, byte list, byte list) iter_class" where
  "Table_class t verify_checksums = TwoLevel_class Any_class Any_class (BlockReader t verify_checksums)"

text \<open>\<open>saver\<close> is called at most once; its argument is passed and returned.\<close>

definition InternalGet ::
  "table \<Rightarrow> bool \<Rightarrow> byte list \<Rightarrow> ('a \<Rightarrow> byte list \<Rightarrow> byte list \<Rightarrow> 'a option) \<Rightarrow> 'a \<Rightarrow> (status \<times> 'a) option" where
  "InternalGet t verify_checksums k saver arg = do {
     iiter \<leftarrow> index_Iterator t;
     iiter \<leftarrow> it_Seek Any_class k iiter;
     (s, arg) \<leftarrow> (if it_Valid Any_class iiter then do {
         handle_value \<leftarrow> it_val Any_class iiter;
         not_found \<leftarrow> (case tab_filter t of
             None \<Rightarrow> Some False
           | Some reader \<Rightarrow>
               (let (s, handle, _) = BlockHandle_DecodeFrom handle_value BlockHandle
                in if status_ok s then map_option Not (Reader_KeyMayMatch reader (bh_offset handle) k) else Some False));
         if not_found then Some (OK, arg)
         else do {
           block_iter \<leftarrow> BlockReader t verify_checksums handle_value;
           block_iter \<leftarrow> it_Seek Any_class k block_iter;
           arg \<leftarrow> (if it_Valid Any_class block_iter then do {
               key \<leftarrow> it_key Any_class block_iter;
               v \<leftarrow> it_val Any_class block_iter;
               saver arg key v
             }
             else Some arg);
           s \<leftarrow> it_status Any_class block_iter;
           Some (s, arg)
         }
       }
       else Some (OK, arg));
     s \<leftarrow> (if status_ok s then it_status Any_class iiter else Some s);
     Some (s, arg)
   }"

definition ApproximateOffsetOf :: "table \<Rightarrow> byte list \<Rightarrow> u64 option" where
  "ApproximateOffsetOf t key = do {
     index_iter \<leftarrow> index_Iterator t;
     index_iter \<leftarrow> it_Seek Any_class key index_iter;
     if it_Valid Any_class index_iter then do {
       input \<leftarrow> it_val Any_class index_iter;
       let (s, handle, _) = BlockHandle_DecodeFrom input BlockHandle;
       Some (if status_ok s then bh_offset handle else bh_offset (tab_metaindex_handle t))
     }
     else Some (bh_offset (tab_metaindex_handle t))
   }"

section \<open>Iterators over blocks\<close>

definition any_stands where
  "any_stands ok compare it xs p \<longleftrightarrow> (case it of
     Block_iterator b \<Rightarrow> block_stands ok compare b xs p \<and> bi_status b = OK
   | Empty_iterator \<Rightarrow> xs = [] \<and> p = 0
   | Error_iterator _ \<Rightarrow> False)"

lemma cursor_status: "cursor es rs it p \<Longrightarrow> bi_status it = OK"
  using cursor_rep by (fastforce simp: iter_rep_def)

lemma any_stands_Block: "any_stands ok compare (Block_iterator b) xs p \<longleftrightarrow> block_stands ok compare b xs p"
  by (auto simp: any_stands_def block_stands_def dest: cursor_status)

lemma any_stands_cases:
  assumes "any_stands ok compare it xs p"
  obtains b where "it = Block_iterator b" "block_stands ok compare b xs p" | "it = Empty_iterator" "xs = []" "p = 0"
  using assms by (auto simp: any_stands_def split: block_iterator.splits)

sublocale slice_order \<subseteq> any_block: sound_class ok compare "any_stands ok compare" Any_class
proof (unfold_locales, goal_cases)
  case (1 it xs i)
  then show ?case
  proof (cases rule: any_stands_cases)
    case (1 b)
    then show ?thesis using block_iterator.position by blast
  qed (simp add: ordered_def)
next
  case (2 it xs i)
  then show ?case by (cases rule: any_stands_cases) (auto simp: Any_class_def any_Valid_def dest: block_iterator.Valid)
next
  case (3 it xs i)
  then show ?case by (cases rule: any_stands_cases) (auto simp: Any_class_def any_get_def dest: block_iterator.entry)
next
  case (4 it xs i)
  then show ?case
    by (cases rule: any_stands_cases) (fastforce simp: Any_class_def any_step_def any_stands_Block dest: block_iterator.Next)+
next
  case (5 it xs i)
  then show ?case
    by (cases rule: any_stands_cases) (fastforce simp: Any_class_def any_step_def any_stands_Block dest: block_iterator.Prev)+
next
  case (6 it xs i target)
  from 6(1) show ?case
  proof (cases rule: any_stands_cases)
    case (1 b)
    with block_iterator.Seek [OF 1(2) 6(2)] show ?thesis by (auto simp: Any_class_def any_seek_def any_stands_Block)
  qed (simp add: Any_class_def any_seek_def any_stands_def lower_bound_def)
next
  case (7 it xs i)
  then show ?case
  proof (cases rule: any_stands_cases)
    case (1 b)
    with block_iterator.SeekToFirst [OF 1(2)] show ?thesis by (auto simp: Any_class_def any_seek_def any_stands_Block)
  qed (simp add: Any_class_def any_seek_def any_stands_def)
next
  case (8 it xs i)
  then show ?case
  proof (cases rule: any_stands_cases)
    case (1 b)
    with block_iterator.SeekToLast [OF 1(2)] show ?thesis by (auto simp: Any_class_def any_seek_def any_stands_Block)
  qed (simp add: Any_class_def any_seek_def any_stands_def)
next
  case (9 it xs p)
  then show ?case by (cases rule: any_stands_cases) (auto simp: Any_class_def any_status_def block_stands_def dest: cursor_status)
qed
section \<open>Opening blocks\<close>

lemma part_of_part:
  assumes "distinct (map part_handle bs)" "b \<in> set bs"
  shows "part_of bs (handle_bytes (part_handle b)) = part_entries b"
proof -
  let ?ps = "map (\<lambda>b. (handle_bytes (part_handle b), part_entries b)) bs"
  have keys: "map fst ?ps = map handle_bytes (map part_handle bs)" by (simp add: comp_def)
  have "distinct (map handle_bytes (map part_handle bs))" using assms(1) by (subst distinct_map) (simp add: inj_on_def)
  then have "distinct (map fst ?ps)" by (simp only: keys)
  then have "map_of ?ps (handle_bytes (part_handle b)) = Some (part_entries b)"
    using assms(2) by (intro map_of_is_SomeI) auto
  then show ?thesis by (simp add: part_of_def)
qed

lemma parts_part_of:
  assumes "distinct (map part_handle bs)"
  shows "parts (part_of bs) (index_entries bs) = all_entries bs"
proof -
  have "map (\<lambda>b. part_of bs (handle_bytes (part_handle b))) bs = map part_entries bs"
    using part_of_part [OF assms] by (intro map_cong) simp_all
  then show ?thesis by (simp only: parts_def index_entries_def all_entries_def map_map comp_def snd_conv)
qed

context slice_order
begin

lemma open_in:
  assumes "block_in cs (handle_bytes h) xs" "ordered ok compare xs" "file_reads file cs" "length cs < 2 ^ 32"
  obtains c b it where "ReadBlock file verify_checksums h = Some (OK, c)" "Block (bc_data c) = Some b"
    "Block_NewIterator compare b = Some it" "any_stands ok compare it xs (length xs)"
proof -
  obtain es rs where b: "stored_at cs h (block_bytes es rs)" "map snd es = xs" "entries_ok es" "restarts_ok es rs"
    using assms(1) by (auto simp: block_in_def)
  have "length (block_bytes es rs) < 2 ^ 32" using b(1) assms(4) by (auto simp: stored_at_def)
  then obtain it where it: "open_block compare (block_bytes es rs) = Some (Block_iterator it)" "cursor es rs it (length es)" "bi_compare it = compare"
    by (rule open_block_bytes [OF b(3,4)])
  have "length cs < 2 ^ 64" using assms(4) by simp
  then obtain in_buf where r: "ReadBlock file verify_checksums h = Some (OK, \<lparr>bc_data = block_bytes es rs, bc_cachable = in_buf, bc_heap_allocated = in_buf\<rparr>)"
    by (rule ReadBlock_stored [OF assms(3) b(1)])
  obtain blk where blk: "Block (block_bytes es rs) = Some blk" "Block_NewIterator compare blk = Some (Block_iterator it)"
    using it(1) by (auto simp: open_block_def)
  have "block_stands ok compare it xs (length xs)"
    using block_standsI [OF _ it(3,2), of ok] assms(2) b(2) by auto
  then show thesis using that [OF r _ blk(2)] blk(1) by (simp add: any_stands_Block)
qed

end

context same_order
begin

lemma separated_indexed:
  assumes sep: "separated ok compare same bs []" and order: "ordered ok compare (all_entries bs)" and dist: "distinct (map part_handle bs)"
  shows "indexed ok compare (part_of bs) (index_entries bs)"
proof -
  have con: "part_of bs (snd (index_entries bs ! j)) = part_entries (bs ! j)" if "j < length bs" for j
    using part_of_part [OF dist, of "bs ! j"] that by (simp add: index_entries_def)
  have part: "ordered ok compare (part_entries b)" if b: "b \<in> set bs" for b
  proof -
    obtain us vs where "bs = us @ b # vs" using b by (auto simp: in_set_conv_decomp)
    with order show ?thesis by (simp add: all_entries_def ordered_def sorted_wrt_append)
  qed
  have "below compare (part_key (bs ! i)) (fst x) \<longleftrightarrow> i < j"
    if ij: "i < length bs" "j < length bs" and x: "x \<in> set (part_entries (bs ! j))" for i j x
  proof (cases "i < j")
    case True
    then show ?thesis using sep ij x by (auto simp: separated_def cuts_def sorted_wrt_iff_nth_less)
  next
    case False
    have ok: "ok (part_key (bs ! i))" "ok (part_key (bs ! j))" "ok (fst x)"
      using sep ij x part [of "bs ! j"] by (auto simp: separated_def ordered_def)
    have j: "\<not> less (part_key (bs ! j)) (fst x)" using sep ij x by (simp add: separated_def)
    show ?thesis
    proof (cases "i = j")
      case True
      with j False show ?thesis by simp
    next
      case False
      with \<open>\<not> i < j\<close> have "j < i" by simp
      then have "less (part_key (bs ! j)) (part_key (bs ! i))"
        using ordered_nth [OF separated_keys_ordered [OF sep order], of j i] ij by (simp add: index_entries_def)
      then show ?thesis using j ok \<open>\<not> i < j\<close> trans [OF ok(2,1,3)] by blast
    qed
  qed
  then show ?thesis
    using con part separated_keys_ordered [OF sep order] by (simp add: indexed_def index_entries_def)
qed

end

section \<open>Opening a table\<close>

text \<open>What an opened table knows of its file; \<open>wanted\<close> is the policy of the reader.\<close>

definition reader_knows :: "policy \<Rightarrow> (byte list list \<Rightarrow> bool) \<Rightarrow> table_part list \<Rightarrow> filter_reader \<Rightarrow> bool" where
  "reader_knows pol okp bs r \<longleftrightarrow> (\<exists>gs fs. length (filters_bytes fs) < 2 ^ 32 \<and> FilterBlockReader pol (filters_bytes fs) = Some r \<and>
     list_all2 (filter_for pol) gs fs \<and>
     (\<forall>b \<in> set bs. filter_index (bh_offset (part_handle b)) < length gs \<and>
        okp (gs ! filter_index (bh_offset (part_handle b))) \<and>
        fst ` set (part_entries b) \<subseteq> set (gs ! filter_index (bh_offset (part_handle b)))))"

definition table_opened ::
  "(byte list \<Rightarrow> bool) \<Rightarrow> (byte list \<Rightarrow> byte list \<Rightarrow> int option) \<Rightarrow> (byte list \<Rightarrow> byte list \<Rightarrow> bool) \<Rightarrow> (byte list list \<Rightarrow> bool) \<Rightarrow> table_part list \<Rightarrow> byte list \<Rightarrow>
    table \<Rightarrow> bool" where
  "table_opened ok compare same okp bs cs t \<longleftrightarrow> cmp_Compare (op_comparator (tab_options t)) = compare \<and>
     file_reads (tab_file t) cs \<and> length cs < 2 ^ 32 \<and>
     (\<exists>it. index_Iterator t = Some it \<and> any_stands ok compare it (index_entries bs) (length bs)) \<and>
     (\<forall>b \<in> set bs. block_in cs (handle_bytes (part_handle b)) (part_entries b)) \<and>
     distinct (map part_handle bs) \<and> separated ok compare same bs [] \<and> ordered ok compare (all_entries bs) \<and>
     (\<forall>r. tab_filter t = Some r \<longrightarrow> (\<exists>pol. op_filter_policy (tab_options t) = Some pol \<and> reader_knows pol okp bs r)) \<and>
     (op_filter_policy (tab_options t) = None \<longleftrightarrow> tab_filter t = None)"

lemma ReadFilter_reads:
  assumes "stored_at cs fh (filters_bytes fs)" "file_reads (tab_file t) cs" "length cs < 2 ^ 32"
    "op_filter_policy (tab_options t) = Some pol" "table_policy pol okp"
  obtains r where "ReadFilter (handle_bytes fh) t = Some (t\<lparr>tab_filter := Some r\<rparr>)" "FilterBlockReader pol (filters_bytes fs) = Some r"
    "length (filters_bytes fs) < 2 ^ 32"
proof -
  have len: "length (filters_bytes fs) < 2 ^ 32" using assms(1,3) by (auto simp: stored_at_def)
  obtain r where r: "FilterBlockReader pol (filters_bytes fs) = Some r"
    using table_policy.FilterBlockReader_reads [OF assms(5) len] by simp
  have "length cs < 2 ^ 64" using assms(3) by simp
  then obtain in_buf where "ReadBlock (tab_file t) (op_paranoid_checks (tab_options t)) fh =
      Some (OK, \<lparr>bc_data = filters_bytes fs, bc_cachable = in_buf, bc_heap_allocated = in_buf\<rparr>)"
    by (rule ReadBlock_stored [OF assms(2,1)])
  then have "ReadFilter (handle_bytes fh) t = Some (t\<lparr>tab_filter := Some r\<rparr>)"
    using DecodeFrom_handle [of fh "[]" BlockHandle] r assms(4) by (simp add: ReadFilter_def status_ok_def)
  then show thesis using r len by (rule that)
qed

lemma ReadMeta_reads:
  assumes "block_in cs (handle_bytes (ft_metaindex_handle f)) [(filter_key pol, handle_bytes fh)]"
    "stored_at cs fh (filters_bytes fs)" "file_reads (tab_file t) cs" "length cs < 2 ^ 32"
    "op_filter_policy (tab_options t) = Some pol" "table_policy pol okp"
  obtains r where "ReadMeta f t = Some (t\<lparr>tab_filter := Some r\<rparr>)" "FilterBlockReader pol (filters_bytes fs) = Some r"
    "length (filters_bytes fs) < 2 ^ 32"
proof -
  obtain r where r: "ReadFilter (handle_bytes fh) t = Some (t\<lparr>tab_filter := Some r\<rparr>)" "FilterBlockReader pol (filters_bytes fs) = Some r"
      "length (filters_bytes fs) < 2 ^ 32"
    by (rule ReadFilter_reads [OF assms(2-6)])
  let ?xs = "[(filter_key pol, handle_bytes fh)]"
  have order: "ordered (\<lambda>_. True) Bytewise_Compare ?xs" by (simp add: ordered_def)
  obtain c b it where o: "ReadBlock (tab_file t) (op_paranoid_checks (tab_options t)) (ft_metaindex_handle f) = Some (OK, c)"
    "Block (bc_data c) = Some b" "Block_NewIterator Bytewise_Compare b = Some it" "any_stands (\<lambda>_. True) Bytewise_Compare it ?xs (length ?xs)"
    by (rule bytewise.open_in [OF assms(1) order assms(3,4)])
  have "lower_bound Bytewise_Compare (filter_key pol) ?xs = 0"
    using bytewise.irrefl [of "filter_key pol"] by (simp add: lower_bound_def)
  then obtain it' where it': "it_Seek Any_class (filter_key pol) it = Some it'" "any_stands (\<lambda>_. True) Bytewise_Compare it' ?xs 0"
    using bytewise.any_block.Seek [OF o(4), of "filter_key pol"] by auto
  then have "it_Valid Any_class it'" "it_key Any_class it' = Some (filter_key pol)" "it_val Any_class it' = Some (handle_bytes fh)"
    using bytewise.any_block.Valid [OF it'(2)] bytewise.any_block.entry [OF it'(2)] by simp_all
  then have "ReadMeta f t = Some (t\<lparr>tab_filter := Some r\<rparr>)"
    using o r(1) it'(1) assms(5) by (simp add: ReadMeta_def status_ok_def Slice_eq_iff BytewiseComparator_def)
  then show thesis using r(2,3) by (rule that)
qed

context same_order
begin

lemma Open_opens:
  assumes tf: "table_file ok compare same pol okp bs cs" and reads: "file_reads file cs"
    and opts: "cmp_Compare (op_comparator options) = compare" "op_filter_policy options = pol"
      "\<And>p. pol = Some p \<Longrightarrow> table_policy p okp"
  obtains t where "Table_Open options file (of_nat (length cs)) = Some (OK, Some t)" "table_opened ok compare same okp bs cs t"
    "tab_options t = options"
proof -
  obtain body f fh where t: "cs = body @ footer_bytes f" "length cs < 2 ^ 32" "block_in cs (handle_bytes (ft_index_handle f)) (index_entries bs)"
    "\<forall>b \<in> set bs. block_in cs (handle_bytes (part_handle b)) (part_entries b)" "distinct (map part_handle bs)"
    "separated ok compare same bs []" "ordered ok compare (all_entries bs)"
    "block_in cs (handle_bytes (ft_metaindex_handle f)) (case pol of None \<Rightarrow> [] | Some pol \<Rightarrow> [(filter_key pol, handle_bytes fh)])"
    "case pol of None \<Rightarrow> True | Some pol \<Rightarrow> filters_in pol cs fh okp bs"
    using tf by (auto simp: table_file_def)
  let ?sz = "of_nat (length cs) :: u64"
  have sz: "unat ?sz = length cs" "48 \<le> length cs" using unat_of_nat_eq [of "length cs", where ?'a = 64] t(1,2) by auto
  then have ge: "\<not> ?sz < 48" by (simp add: word_less_nat_alt)
  have off: "unat (?sz - 48) = length body" using sz t(1,2) ge unat_of_nat_eq [of "length body", where ?'a = 64] by (simp add: unat_sub word_le_nat_alt)
  obtain in_buf where foot: "file (?sz - 48) 48 = (OK, footer_bytes f, in_buf)"
  proof -
    have "unat (?sz - 48) + unat (48 :: size) \<le> length cs" using off t(1) by simp
    then obtain b where "file (?sz - 48) 48 = (OK, take (unat (48 :: size)) (drop (unat (?sz - 48)) cs), b)"
      using reads unfolding file_reads_def by blast
    then show thesis using that off t(1) by simp
  qed
  note keys = separated_keys_ordered [OF t(6,7)]
  obtain c b it where idx: "ReadBlock file (op_paranoid_checks options) (ft_index_handle f) = Some (OK, c)" "Block (bc_data c) = Some b"
    "Block_NewIterator compare b = Some it" "any_stands ok compare it (index_entries bs) (length (index_entries bs))"
    by (rule open_in [OF t(3) keys reads t(2)])
  let ?t = "\<lparr>tab_options = options, tab_file = file, tab_filter = None, tab_metaindex_handle = ft_metaindex_handle f, tab_index_block = b\<rparr>"
  obtain flt where m: "ReadMeta f ?t = Some (?t\<lparr>tab_filter := flt\<rparr>)" "pol = None \<longleftrightarrow> flt = None"
    "\<And>r. flt = Some r \<Longrightarrow> \<exists>p. pol = Some p \<and> reader_knows p okp bs r"
  proof (cases pol)
    case None
    then show thesis using that [of None] opts(2) by (simp add: ReadMeta_def)
  next
    case (Some p)
    obtain gs fs where g: "stored_at cs fh (filters_bytes fs)" "list_all2 (filter_for p) gs fs"
      "\<forall>b \<in> set bs. filter_index (bh_offset (part_handle b)) < length gs \<and> okp (gs ! filter_index (bh_offset (part_handle b))) \<and>
        fst ` set (part_entries b) \<subseteq> set (gs ! filter_index (bh_offset (part_handle b)))"
      using t(9) Some by (auto simp: filters_in_def)
    have p: "block_in cs (handle_bytes (ft_metaindex_handle f)) [(filter_key p, handle_bytes fh)]" "file_reads (tab_file ?t) cs"
      "op_filter_policy (tab_options ?t) = Some p"
      using t(8) Some reads opts(2) by simp_all
    obtain r where r: "ReadMeta f ?t = Some (?t\<lparr>tab_filter := Some r\<rparr>)" "FilterBlockReader p (filters_bytes fs) = Some r"
        "length (filters_bytes fs) < 2 ^ 32"
      by (rule ReadMeta_reads [OF p(1) g(1) p(2) t(2) p(3) opts(3) [OF Some]])
    have "reader_knows p okp bs r"
      unfolding reader_knows_def by (intro exI [of _ gs] exI [of _ fs] conjI r(2,3) g(2,3))
    then show thesis using that [OF r(1)] Some by simp
  qed
  have "Table_Open options file ?sz = Some (OK, Some (?t\<lparr>tab_filter := flt\<rparr>))"
    using ge foot idx(1,2) m(1) DecodeFrom_footer [of f "[]" new_Footer]
    by (simp add: Table_Open_def kEncodedLength_def kMaxEncodedLength_def status_ok_def del: bind_Some_iff)
  moreover have "table_opened ok compare same okp bs cs (?t\<lparr>tab_filter := flt\<rparr>)"
    unfolding table_opened_def using t(2,4-7) reads opts idx(3,4) m(2,3) by (simp add: index_Iterator_def)
  ultimately show thesis by (rule that) simp
qed

end

end
