(* ===== verification/Ldb_Table_Read.thy ===== *)
theory Ldb_Table_Read
  imports Ldb_Table
begin

text \<open>
  What is read from an opened table: the iterator follows the entries of the table
  (\<open>NewIterator_stands\<close>), and a lookup finds the first entry that is not below its key unless no
  entry is the same (\<open>InternalGet_finds\<close>).  An iterator with its table is one object of the class
  \<open>Tables_class\<close>, so that iterators of several tables can be merged.
\<close>

section \<open>The iterator of a table\<close>

text \<open>A two-level iterator and the argument of its block function.\<close>

definition with_table :: "('i \<Rightarrow> 'i option) \<Rightarrow> table \<times> 'i \<Rightarrow> (table \<times> 'i) option" where
  "with_table f it = map_option (Pair (fst it)) (f (snd it))"

definition Tables_class :: "bool \<Rightarrow> (table \<times> table_iter, byte list, byte list) iter_class" where
  "Tables_class v = \<lparr>it_Valid = \<lambda>it. it_Valid (Table_class (fst it) v) (snd it), it_key = \<lambda>it. it_key (Table_class (fst it) v) (snd it),
     it_val = \<lambda>it. it_val (Table_class (fst it) v) (snd it), it_Next = \<lambda>it. with_table (it_Next (Table_class (fst it) v)) it,
     it_Prev = \<lambda>it. with_table (it_Prev (Table_class (fst it) v)) it, it_Seek = \<lambda>k it. with_table (it_Seek (Table_class (fst it) v) k) it,
     it_SeekToFirst = \<lambda>it. with_table (it_SeekToFirst (Table_class (fst it) v)) it,
     it_SeekToLast = \<lambda>it. with_table (it_SeekToLast (Table_class (fst it) v)) it,
     it_status = \<lambda>it. it_status (Table_class (fst it) v) (snd it)\<rparr>"

definition table_stands where
  "table_stands ok compare v it = two_stands ok compare (any_stands ok compare) (any_stands ok compare) (BlockReader (fst it) v) (snd it)"

sublocale slice_order \<subseteq> table_iter: two_levels ok compare "any_stands ok compare" Any_class "any_stands ok compare" Any_class
  "BlockReader t v" for t v
  by unfold_locales

context slice_order
begin

lemma with_table_stands:
  assumes "\<exists>it'. f (snd it) = Some it' \<and> table_stands ok compare v (fst it, it') xs p"
  shows "\<exists>it'. with_table f it = Some it' \<and> table_stands ok compare v it' xs p"
  using assms by (auto simp: with_table_def)

end

sublocale slice_order \<subseteq> tables: sound_class ok compare "table_stands ok compare v" "Tables_class v" for v
proof (unfold_locales, goal_cases)
  case (1 it xs i)
  then show ?case unfolding table_stands_def by (rule table_iter.two.position)
next
  case (2 it xs i)
  then show ?case unfolding table_stands_def Tables_class_def Table_class_def iter_class.simps by (rule table_iter.two.Valid)
next
  case (3 it xs i)
  then show ?case unfolding table_stands_def Tables_class_def Table_class_def iter_class.simps by (rule table_iter.two.entry)
next
  case (4 it xs i)
  show ?case unfolding Tables_class_def iter_class.simps
    by (rule with_table_stands)
      (use table_iter.two.Next [OF 4(1) [unfolded table_stands_def] 4(2)] in \<open>simp add: table_stands_def Table_class_def\<close>)
next
  case (5 it xs i)
  show ?case unfolding Tables_class_def iter_class.simps
    by (rule with_table_stands)
      (use table_iter.two.Prev [OF 5(1) [unfolded table_stands_def] 5(2)] in \<open>simp add: table_stands_def Table_class_def\<close>)
next
  case (6 it xs i target)
  show ?case unfolding Tables_class_def iter_class.simps
    by (rule with_table_stands)
      (use table_iter.two.Seek [OF 6(1) [unfolded table_stands_def] 6(2)] in \<open>simp add: table_stands_def Table_class_def\<close>)
next
  case (7 it xs i)
  show ?case unfolding Tables_class_def iter_class.simps
    by (rule with_table_stands)
      (use table_iter.two.SeekToFirst [OF 7 [unfolded table_stands_def]] in \<open>simp add: table_stands_def Table_class_def\<close>)
next
  case (8 it xs i)
  show ?case unfolding Tables_class_def iter_class.simps
    by (rule with_table_stands)
      (use table_iter.two.SeekToLast [OF 8 [unfolded table_stands_def]] in \<open>simp add: table_stands_def Table_class_def\<close>)
next
  case (9 it xs p)
  then show ?case unfolding table_stands_def Tables_class_def Table_class_def iter_class.simps by (rule table_iter.two.status)
qed

context same_order
begin

lemma BlockReader_opens:
  assumes "table_opened ok compare same okp bs cs t" "b \<in> set bs"
  obtains it where "BlockReader t v (handle_bytes (part_handle b)) = Some it" "any_stands ok compare it (part_entries b) (length (part_entries b))"
proof -
  have b: "block_in cs (handle_bytes (part_handle b)) (part_entries b)" "file_reads (tab_file t) cs" "length cs < 2 ^ 32"
    "cmp_Compare (op_comparator (tab_options t)) = compare"
    using assms by (simp_all add: table_opened_def)
  obtain us vs where "bs = us @ b # vs" using assms(2) by (auto simp: in_set_conv_decomp)
  then have order: "ordered ok compare (part_entries b)"
    using assms(1) by (simp add: table_opened_def all_entries_def ordered_def sorted_wrt_append)
  obtain c blk it where o: "ReadBlock (tab_file t) v (part_handle b) = Some (OK, c)" "Block (bc_data c) = Some blk"
    "Block_NewIterator compare blk = Some it" "any_stands ok compare it (part_entries b) (length (part_entries b))"
    by (rule open_in [OF b(1) order b(2,3)])
  have "BlockReader t v (handle_bytes (part_handle b)) = Some it"
    using o(1-3) b(4) DecodeFrom_handle [of "part_handle b" "[]" BlockHandle] by (simp add: BlockReader_def status_ok_def)
  then show thesis using o(4) by (rule that)
qed

lemma table_index:
  assumes "table_opened ok compare same okp bs cs t"
  shows "indexed ok compare (part_of bs) (index_entries bs)" "parts (part_of bs) (index_entries bs) = all_entries bs"
    "b \<in> set bs \<Longrightarrow> part_of bs (handle_bytes (part_handle b)) = part_entries b"
proof -
  have t: "separated ok compare same bs []" "ordered ok compare (all_entries bs)" "distinct (map part_handle bs)"
    using assms by (simp_all add: table_opened_def)
  show "indexed ok compare (part_of bs) (index_entries bs)" by (rule separated_indexed [OF t])
  show "parts (part_of bs) (index_entries bs) = all_entries bs" by (rule parts_part_of [OF t(3)])
  show "part_of bs (handle_bytes (part_handle b)) = part_entries b" if "b \<in> set bs" by (rule part_of_part [OF t(3) that])
qed

lemma NewIterator_stands:
  assumes "table_opened ok compare same okp bs cs t"
  obtains it where "Table_NewIterator t = Some it" "table_stands ok compare v (t, it) (all_entries bs) (length (all_entries bs))"
proof -
  obtain i where i: "index_Iterator t = Some i" "any_stands ok compare i (index_entries bs) (length bs)"
    using assms by (auto simp: table_opened_def)
  have "\<exists>d r. BlockReader t v h = Some d \<and> any_stands ok compare d (part_of bs h) r" if h: "h \<in> snd ` set (index_entries bs)" for h
  proof -
    obtain b where b: "b \<in> set bs" "h = handle_bytes (part_handle b)" using h by (auto simp: index_entries_def)
    obtain d where "BlockReader t v h = Some d" "any_stands ok compare d (part_entries b) (length (part_entries b))"
      using BlockReader_opens [OF assms b(1)] b(2) by metis
    then show ?thesis using table_index(3) [OF assms b(1)] b(2) by auto
  qed
  then have opens: "table_iter.opens t v (part_of bs) (index_entries bs)" by (simp add: table_iter.opens_def)
  obtain it where "TwoLevelIterator Any_class [] i = Some it"
      "table_iter.two_at t v it (parts (part_of bs) (index_entries bs)) (length (parts (part_of bs) (index_entries bs)))"
    using table_iter.TwoLevelIterator_stands [OF i(2) table_index(1) [OF assms] opens] by blast
  then show thesis
    using that [of it] i(1) table_index(2) [OF assms] by (simp add: Table_NewIterator_def table_stands_def)
qed

end
section \<open>Lookups\<close>

text \<open>A filter policy that is always defined and treats keys that are the same alike.\<close>

definition policy_respects :: "(byte list \<Rightarrow> bool) \<Rightarrow> (byte list \<Rightarrow> byte list \<Rightarrow> bool) \<Rightarrow> policy option \<Rightarrow> bool" where
  "policy_respects ok same pol \<longleftrightarrow> (\<forall>p k f. pol = Some p \<longrightarrow> ok k \<longrightarrow> (\<exists>m. fp_KeyMayMatch p k f = Some m) \<and>
     (\<forall>l. ok l \<longrightarrow> same k l \<longrightarrow> fp_KeyMayMatch p k f = fp_KeyMayMatch p l f))"

lemma policy_respectsD:
  assumes "policy_respects ok same pol" "pol = Some p" "ok k"
  shows "\<exists>m. fp_KeyMayMatch p k f = Some m" "ok l \<Longrightarrow> same k l \<Longrightarrow> fp_KeyMayMatch p k f = fp_KeyMayMatch p l f"
  using assms by (auto simp: policy_respects_def)

context same_order
begin

lemma seek_any:
  assumes "any_stands ok compare it xs p" "ok k"
  obtains it' where "it_Seek Any_class k it = Some it'" "it_Valid Any_class it' \<longleftrightarrow> lower_bound compare k xs < length xs"
    "lower_bound compare k xs < length xs \<Longrightarrow> it_key Any_class it' = Some (fst (xs ! lower_bound compare k xs)) \<and>
       it_val Any_class it' = Some (snd (xs ! lower_bound compare k xs))" "it_status Any_class it' = Some OK"
proof -
  obtain it' where it': "it_Seek Any_class k it = Some it'" "any_stands ok compare it' xs (lower_bound compare k xs)"
    using any_block.Seek [OF assms] by blast
  show thesis by (rule that [OF it'(1)])
    (use any_block.Valid [OF it'(2)] any_block.entry [OF it'(2)] any_block.status [OF it'(2)] in simp_all)
qed

text \<open>The part that a lookup reads, and the entry it finds there, if there is one.\<close>

lemma lookup_part:
  assumes t: "table_opened ok compare same okp bs cs t" and k: "ok k"
  defines "xs \<equiv> all_entries bs" and "q \<equiv> lower_bound compare k (index_entries bs)"
  shows "\<not> q < length bs \<Longrightarrow> lower_bound compare k xs = length xs"
    and "q < length bs \<Longrightarrow> lower_bound compare k (part_entries (bs ! q)) < length (part_entries (bs ! q)) \<Longrightarrow>
      lower_bound compare k xs < length xs \<and> xs ! lower_bound compare k xs = part_entries (bs ! q) ! lower_bound compare k (part_entries (bs ! q))"
    and "q < length bs \<Longrightarrow> \<not> lower_bound compare k (part_entries (bs ! q)) < length (part_entries (bs ! q)) \<Longrightarrow>
      lower_bound compare k xs < length xs \<Longrightarrow> \<not> same k (fst (xs ! lower_bound compare k xs))"
proof -
  let ?ixs = "index_entries bs" and ?con = "part_of bs"
  have lb: "lower_bound compare k xs =
      (if q < length bs then part_start ?con ?ixs q + lower_bound compare k (?con (snd (?ixs ! q))) else length xs)"
    using parts_lower_bound [OF table_index(1) [OF t] k] table_index(2) [OF t] by (simp add: xs_def q_def)
  have con: "?con (snd (?ixs ! j)) = part_entries (bs ! j)" if "j < length bs" for j
    using table_index(3) [OF t, of "bs ! j"] that by (simp add: index_entries_def)
  show "lower_bound compare k xs = length xs" if "\<not> q < length bs" using lb that by simp
  show "lower_bound compare k xs < length xs \<and> xs ! lower_bound compare k xs = part_entries (bs ! q) ! lower_bound compare k (part_entries (bs ! q))"
    if q: "q < length bs" and r: "lower_bound compare k (part_entries (bs ! q)) < length (part_entries (bs ! q))"
  proof -
    have eq: "lower_bound compare k xs = part_start ?con ?ixs q + lower_bound compare k (part_entries (bs ! q))" using lb con q by simp
    have "part_start ?con ?ixs q + lower_bound compare k (part_entries (bs ! q)) < part_start ?con ?ixs (length ?ixs)"
      by (rule part_mono) (use q r con in simp_all)
    then have "lower_bound compare k xs < length xs" using eq table_index(2) [OF t] by (simp add: xs_def del: index_entries_simps(3))
    moreover have "xs ! lower_bound compare k xs = part_entries (bs ! q) ! lower_bound compare k (part_entries (bs ! q))"
      using part_nth [of q ?ixs "lower_bound compare k (part_entries (bs ! q))" ?con] q r con table_index(2) [OF t] eq
      by (simp add: xs_def)
    ultimately show ?thesis by simp
  qed
  show "\<not> same k (fst (xs ! lower_bound compare k xs))"
    if q: "q < length bs" and r: "\<not> lower_bound compare k (part_entries (bs ! q)) < length (part_entries (bs ! q))"
      and less: "lower_bound compare k xs < length xs"
  proof -
    let ?ys = "part_entries (bs ! q)"
    have "lower_bound compare k ?ys = length ?ys" using r lower_bound_le [of compare k ?ys] by simp
    then have all: "less (fst (?ys ! i)) k" if "i < length ?ys" for i using that lower_bound_below [of i compare k ?ys] by simp
    have sep: "separated ok compare same bs []" using t by (simp add: table_opened_def)
    have ne: "part_entries (bs ! j) \<noteq> []" if "j < length bs" for j using sep that by (simp add: separated_def)
    have "last ?ys = ?ys ! (length ?ys - 1)" using ne [OF q] by (rule last_conv_nth)
    then have l: "less (fst (last ?ys)) k" using all [of "length ?ys - 1"] ne [OF q] by simp
    have not: "\<not> less (part_key (bs ! q)) k"
      using lower_bound_reached [of compare k ?ixs] q by (simp add: q_def index_entries_def)
    have eq: "lower_bound compare k xs = part_start ?con ?ixs (Suc q)"
      using lb con q \<open>lower_bound compare k ?ys = length ?ys\<close> part_start_Suc [of q ?ixs ?con] by simp
    have Suc: "Suc q < length bs"
    proof (rule ccontr)
      assume "\<not> Suc q < length bs"
      then have "Suc q = length ?ixs" using q by simp
      then have "part_start ?con ?ixs (Suc q) = length xs" using table_index(2) [OF t] by (simp add: xs_def del: index_entries_simps(3))
      with eq less show False by simp
    qed
    have "xs ! lower_bound compare k xs = part_entries (bs ! Suc q) ! 0"
      using part_nth [of "Suc q" ?ixs 0 ?con] Suc ne con table_index(2) [OF t] eq by (simp add: xs_def)
    then have "xs ! lower_bound compare k xs \<in> set (part_entries (bs ! Suc q))" using ne [OF Suc] by simp
    then have "cuts ok compare same (bs ! q) (xs ! lower_bound compare k xs)"
      using sep Suc by (auto simp: separated_def sorted_wrt_iff_nth_less)
    then show ?thesis using k l not by (simp add: cuts_def)
  qed
qed

lemma InternalGet_finds:
  assumes t: "table_opened ok compare same okp bs cs t" and k: "ok k"
    and pol: "\<And>p. op_filter_policy (tab_options t) = Some p \<Longrightarrow> table_policy p okp"
      "policy_respects ok same (op_filter_policy (tab_options t))"
  defines "xs \<equiv> all_entries bs" and "p \<equiv> lower_bound compare k (all_entries bs)"
  obtains consulted where "p < length xs \<and> same k (fst (xs ! p)) \<Longrightarrow> consulted"
    "InternalGet t v k saver arg = (if consulted \<and> p < length xs
       then map_option (Pair OK) (saver arg (fst (xs ! p)) (snd (xs ! p))) else Some (OK, arg))"
proof -
  let ?q = "lower_bound compare k (index_entries bs)"
  obtain i where i: "index_Iterator t = Some i" "any_stands ok compare i (index_entries bs) (length bs)"
    using t by (auto simp: table_opened_def)
  obtain i' where i': "it_Seek Any_class k i = Some i'" "it_Valid Any_class i' \<longleftrightarrow> ?q < length (index_entries bs)"
    "?q < length (index_entries bs) \<Longrightarrow> it_key Any_class i' = Some (fst (index_entries bs ! ?q)) \<and>
       it_val Any_class i' = Some (snd (index_entries bs ! ?q))" "it_status Any_class i' = Some OK"
    using seek_any [OF i(2) k] by blast
  note part = lookup_part [OF t k, folded xs_def p_def]
  show thesis
  proof (cases "?q < length bs")
    case False
    then have "InternalGet t v k saver arg = Some (OK, arg)"
      using i(1) i'(1,2,4) by (simp add: InternalGet_def status_ok_def del: bind_Some_iff)
    then show thesis using that [of False] part(1) [OF False] by simp
  next
    case True
    let ?b = "bs ! ?q"
    let ?ys = "part_entries ?b"
    let ?r = "lower_bound compare k ?ys"
    have b: "?b \<in> set bs" using True by simp
    have val: "it_val Any_class i' = Some (handle_bytes (part_handle ?b))" using i'(3) True by (simp add: index_entries_def)
    obtain d where d: "BlockReader t v (handle_bytes (part_handle ?b)) = Some d" "any_stands ok compare d ?ys (length ?ys)"
      by (rule BlockReader_opens [OF t b])
    obtain d' where d': "it_Seek Any_class k d = Some d'" "it_Valid Any_class d' \<longleftrightarrow> ?r < length ?ys"
      "?r < length ?ys \<Longrightarrow> it_key Any_class d' = Some (fst (?ys ! ?r)) \<and> it_val Any_class d' = Some (snd (?ys ! ?r))"
      "it_status Any_class d' = Some OK"
      using seek_any [OF d(2) k] by blast
    have "\<exists>m. (case tab_filter t of
             None \<Rightarrow> Some False
           | Some reader \<Rightarrow> (let (s, handle, _) = BlockHandle_DecodeFrom (handle_bytes (part_handle ?b)) BlockHandle
                in if status_ok s then map_option Not (Reader_KeyMayMatch reader (bh_offset handle) k) else Some False)) = Some m \<and>
        (m \<longrightarrow> ?r < length ?ys \<longrightarrow> \<not> same k (fst (?ys ! ?r)))"
    proof (cases "tab_filter t")
      case (Some reader)
      then obtain pl where pl: "op_filter_policy (tab_options t) = Some pl" "reader_knows pl okp bs reader"
        using t by (auto simp: table_opened_def)
      then obtain gs fs where g: "length (filters_bytes fs) < 2 ^ 32" "FilterBlockReader pl (filters_bytes fs) = Some reader"
        "list_all2 (filter_for pl) gs fs" "filter_index (bh_offset (part_handle ?b)) < length gs"
        "okp (gs ! filter_index (bh_offset (part_handle ?b)))" "fst ` set ?ys \<subseteq> set (gs ! filter_index (bh_offset (part_handle ?b)))"
        using b by (auto simp: reader_knows_def)
      let ?off = "bh_offset (part_handle ?b)"
      have policy: "table_policy pl okp" by (rule pol(1) [OF pl(1)])
      have idx: "filter_index ?off < length fs" using g(3,4) by (simp add: list_all2_lengthD)
      have reads: "Reader_KeyMayMatch reader ?off l = fp_KeyMayMatch pl l (fs ! filter_index ?off)" for l
        using table_policy.FilterBlockReader_reads [OF policy g(1)] g(2) table_policy.Reader_group [OF policy g(1) idx, of l] by simp
      obtain m where m: "fp_KeyMayMatch pl k (fs ! filter_index ?off) = Some m"
        using policy_respectsD(1) [OF pol(2) pl(1) k] by blast
      have "m" if r: "?r < length ?ys" and s: "same k (fst (?ys ! ?r))"
      proof -
        have y: "fst (?ys ! ?r) \<in> set (gs ! filter_index ?off)" using g(6) r by auto
        have "?ys ! ?r \<in> set ?ys" using r by simp
        then have "?ys ! ?r \<in> set (all_entries bs)" using b by (auto simp: all_entries_def)
        then have "ok (fst (?ys ! ?r))" using t by (simp add: table_opened_def ordered_def)
        then have "fp_KeyMayMatch pl (fst (?ys ! ?r)) (fs ! filter_index ?off) = Some m"
          using policy_respectsD(2) [OF pol(2) pl(1) k _ s] m by simp
        moreover have "Reader_KeyMayMatch reader ?off (fst (?ys ! ?r)) = Some True"
          using table_policy.Reader_no_false_negatives [OF policy g(3,1,4) y g(5)] g(2) by simp
        ultimately show m using reads by simp
      qed
      then show ?thesis
        using Some m reads DecodeFrom_handle [of "part_handle ?b" "[]" BlockHandle] by (auto simp: status_ok_def)
    qed (intro exI [of _ False], simp)
    then obtain m where m: "(case tab_filter t of
             None \<Rightarrow> Some False
           | Some reader \<Rightarrow> (let (s, handle, _) = BlockHandle_DecodeFrom (handle_bytes (part_handle ?b)) BlockHandle
                in if status_ok s then map_option Not (Reader_KeyMayMatch reader (bh_offset handle) k) else Some False)) = Some m"
        "m \<longrightarrow> ?r < length ?ys \<longrightarrow> \<not> same k (fst (?ys ! ?r))" by blast
    have get: "InternalGet t v k saver arg = (if \<not> m \<and> ?r < length ?ys
       then map_option (Pair OK) (saver arg (fst (?ys ! ?r)) (snd (?ys ! ?r))) else Some (OK, arg))"
    proof (cases "\<not> m \<and> ?r < length ?ys")
      case r: True
      then show ?thesis
        using i(1) i'(1,2,4) d d' True by (simp add: InternalGet_def val m(1) status_ok_def del: bind_Some_iff cong: if_cong)
          (cases "saver arg (fst (?ys ! ?r)) (snd (?ys ! ?r))"; simp)
    next
      case False
      then show ?thesis
        using i(1) i'(1,2,4) d d' True by (auto simp: InternalGet_def val m(1) status_ok_def simp del: bind_Some_iff cong: if_cong)
    qed
    show thesis
    proof (rule that [of "\<not> m \<and> ?r < length ?ys"])
      show "\<not> m \<and> ?r < length ?ys" if s: "p < length xs \<and> same k (fst (xs ! p))"
      proof -
        have "?r < length ?ys" using part(3) [OF True] s by blast
        then show ?thesis using m(2) part(2) [OF True] s by simp
      qed
      show "InternalGet t v k saver arg = (if (\<not> m \<and> ?r < length ?ys) \<and> p < length xs
         then map_option (Pair OK) (saver arg (fst (xs ! p)) (snd (xs ! p))) else Some (OK, arg))"
        using get part(2) [OF True] by auto
    qed
  qed
qed

lemma ApproximateOffsetOf_part:
  assumes t: "table_opened ok compare same okp bs cs t" and b: "b \<in> set bs" "x \<in> set (part_entries b)"
  shows "ApproximateOffsetOf t (fst x) = Some (bh_offset (part_handle b))"
proof -
  obtain q where q: "q < length bs" "b = bs ! q" using b(1) by (auto simp: in_set_conv_nth)
  have idx: "less (part_key (bs ! j)) (fst x) \<longleftrightarrow> j < q" if "j < length bs" for j
    using indexed_less [OF table_index(1) [OF t], of j q x] table_index(3) [OF t, of "bs ! q"] that q b(2) by (simp add: index_entries_def)
  have lb: "lower_bound compare (fst x) (index_entries bs) = q"
    by (rule lower_bound_eqI) (use q idx in \<open>simp_all add: index_entries_def\<close>)
  have "x \<in> set (all_entries bs)" using b by (auto simp: all_entries_def)
  then have ok: "ok (fst x)" using t by (simp add: table_opened_def ordered_def)
  obtain i where i: "index_Iterator t = Some i" "any_stands ok compare i (index_entries bs) (length bs)"
    using t by (auto simp: table_opened_def)
  obtain i' where "it_Seek Any_class (fst x) i = Some i'" "it_Valid Any_class i'" "it_val Any_class i' = Some (handle_bytes (part_handle b))"
    by (rule seek_any [OF i(2) ok]) (use lb q in \<open>simp add: index_entries_def\<close>)
  then show ?thesis
    using i(1) DecodeFrom_handle [of "part_handle b" "[]" BlockHandle] by (simp add: ApproximateOffsetOf_def status_ok_def)
qed

end

end
