(* ===== verification/Ldb_Table_Stored.thy ===== *)
theory Ldb_Table_Stored
  imports Ldb_Table_Finish Ldb_Table_Read Ldb_Memtable_Rep
begin

text \<open>
  The tables of a database: the order of user keys and the order of internal keys satisfy what
  the builder of tables relies on (\<open>table_order\<close>), and so do the Bloom filter of
  \<open>leveldb-library/util/bloom.cc\<close> and the filter policy of internal keys of \<open>db/dbformat.cc\<close> as
  what tables expect of a policy.
\<close>

section \<open>The order of bytes\<close>

lemma Bytewise_separator_length:
  "Bytewise_FindShortestSeparator start limit = Some key \<Longrightarrow> length key \<le> length start"
  by (auto simp: Bytewise_FindShortestSeparator_def Let_def split: if_splits)

lemma length_successor_loop: "length (successor_loop key i) \<le> length key"
proof (induction key i rule: successor_loop.induct)
  case (1 key i)
  then show ?case by (subst successor_loop.simps) (simp add: Let_def)
qed

interpretation bytewise_table: table_order "\<lambda>_. True" Bytewise_Compare
  Bytewise_FindShortestSeparator Bytewise_FindShortSuccessor "(=)"
proof (unfold_locales, goal_cases)
  case (1 a b c)
  then show ?case using bytewise.asym [of a b] by simp
next
  case (2 start limit key)
  then show ?case using Bytewise_separator_length by blast
next
  case (3 start limit key k)
  then show ?case using bytewise.separator [of start limit] by auto
next
  case (4 key "next")
  then show ?case using length_successor_loop [of key 0] by (auto simp: Bytewise_FindShortSuccessor_def)
qed

section \<open>The order of internal keys\<close>

text \<open>Keys of the same user key.\<close>

definition same_user :: "byte list \<Rightarrow> byte list \<Rightarrow> bool" where
  "same_user a b \<longleftrightarrow> ExtractUserKey a = ExtractUserKey b"

lemma same_user_parts [simp]: "same_user (u @ EncodeFixed64 m) (v @ EncodeFixed64 n) \<longleftrightarrow> u = v"
  by (simp add: same_user_def)

text \<open>A key is left alone or becomes shorter.\<close>

lemma ExtractUserKey_length: "ExtractUserKey k = Some u \<Longrightarrow> length u + 8 = length k"
  by (auto simp: ExtractUserKey_def split: if_splits)

lemma Internal_separator_cases:
  assumes "Internal_FindShortestSeparator compare separator start limit = Some key"
  obtains "key = start" | u v t n where "ExtractUserKey start = Some u" "ExtractUserKey limit = Some v" "separator u v = Some t"
    "length t < length u" "key = t @ EncodeFixed64 n"
  using assms
  by (auto simp: Internal_FindShortestSeparator_def PutFixed64_def Let_def split: if_splits)

lemma Internal_separator_shape:
  assumes "Internal_FindShortestSeparator compare separator start limit = Some key"
  shows "key = start \<or> length key < length start"
  by (rule Internal_separator_cases [OF assms]) (auto dest: ExtractUserKey_length)

lemma Internal_successor_shape:
  assumes "Internal_FindShortSuccessor compare successor key = Some key'"
  shows "key' = key \<or> length key' < length key"
  using assms
  by (auto simp: Internal_FindShortSuccessor_def PutFixed64_def Let_def split: if_splits dest: ExtractUserKey_length)

context user_comparator
begin

text \<open>A key that is shortened leaves room only for user keys below the limit.\<close>

lemma Internal_separator_user:
  assumes "internal_ok ok start" "internal_ok ok limit" "below (Internal_Compare compare) start limit"
    "Internal_FindShortestSeparator compare separator start limit = Some key" "key \<noteq> start"
  obtains t n v m where "key = t @ EncodeFixed64 n" "limit = v @ EncodeFixed64 m" "ok t" "ok v" "below compare t v"
proof -
  obtain u m v n where k: "start = u @ EncodeFixed64 m" "ok u" "limit = v @ EncodeFixed64 n" "ok v"
    using assms(1,2) by (meson internal_okE)
  obtain t where t: "separator u v = Some t" "ok t" "below compare u v \<Longrightarrow> below compare t v" "below compare u v \<or> t = u"
    using assms(3) separator [OF k(2,4)] separator_same [OF k(2)] zero [OF k(2,4)] k(2)
    by (auto simp: k below_Internal)
  obtain l where key: "key = t @ EncodeFixed64 l" "length t < length u"
    by (rule Internal_separator_cases [OF assms(4)]) (use assms(5) t(1) k in auto)
  then have "below compare t v" using t(3,4) by auto
  then show thesis using that key(1) k(3,4) t(2) by blast
qed

end

locale user_table = user_comparator

sublocale user_table \<subseteq> stored: table_order "\<lambda>k. internal_ok ok k \<and> slice_ok k" "Internal_Compare compare"
  "Internal_FindShortestSeparator compare separator" "Internal_FindShortSuccessor compare successor" same_user
proof (unfold_locales, goal_cases)
  case (1 start limit)
  then obtain key where key: "Internal_FindShortestSeparator compare separator start limit = Some key" "internal_ok ok key"
    "key = start \<or> below (Internal_Compare compare) start key" "below (Internal_Compare compare) key limit"
    using internal.separator by blast
  then have "length key \<le> length start" using Internal_separator_shape [OF key(1)] by auto
  then show ?case using 1(1) key by (simp add: slice_ok_def)
next
  case (2 key)
  then show ?case using internal.separator_same by blast
next
  case (3 key)
  then obtain key' where key': "Internal_FindShortSuccessor compare successor key = Some key'" "internal_ok ok key'"
    "key' = key \<or> below (Internal_Compare compare) key key'"
    using internal.successor by blast
  then have "length key' \<le> length key" using Internal_successor_shape [OF key'(1)] by auto
  then show ?case using 3 key' by (simp add: slice_ok_def)
next
  case (4 a b c)
  obtain u l where a: "a = u @ EncodeFixed64 l" "ok u" using 4(1) by (meson internal_okE)
  obtain v m where b: "b = v @ EncodeFixed64 m" "ok v" using 4(2) by (meson internal_okE)
  obtain w n where c: "c = w @ EncodeFixed64 n" using 4(3) by (meson internal_okE)
  note k = a(1) b(1) c a(2) b(2)
  have "u = w" using 4(6) by (simp add: k)
  moreover have "below compare u v \<or> u = v" using 4(4) zero [OF k(4,5)] by (auto simp: k(1,2) below_Internal)
  moreover have "below compare v w \<or> w = v" using 4(5) zero [OF k(5)] k(4) \<open>u = w\<close> by (auto simp: k(2,3) below_Internal)
  ultimately show ?case using asym [OF k(4,5)] by (auto simp: k(1,2))
next
  case (5 start limit key)
  show ?case using Internal_separator_shape [OF 5(4)] by auto
next
  case (6 start limit key k)
  then have "key \<noteq> start" by blast
  with 6(1,2) obtain t n v m where t: "key = t @ EncodeFixed64 n" "limit = v @ EncodeFixed64 m" "below compare t v"
    by (elim conjE) (rule Internal_separator_user [OF _ _ 6(3,4)])
  obtain w l where k: "k = w @ EncodeFixed64 l" using 6(5) by (meson internal_okE)
  show ?case using 6(7) t by (auto simp: k below_Internal)
next
  case (7 key "next")
  show ?case using Internal_successor_shape [OF 7(2)] by auto
qed

interpretation stored_table: user_table "\<lambda>_. True" Bytewise_Compare Bytewise_FindShortestSeparator Bytewise_FindShortSuccessor
  by unfold_locales

section \<open>Filter policies\<close>

definition NewBloomFilterPolicy :: "nat \<Rightarrow> policy" where
  "NewBloomFilterPolicy bits_per_key =
     (let pol = BloomFilterPolicy bits_per_key
      in \<lparr>fp_Name = ascii ''leveldb.BuiltinBloomFilter2'', fp_CreateFilter = (\<lambda>keys dst. Some (CreateFilter pol keys dst)),
         fp_KeyMayMatch = (\<lambda>key f. Some (KeyMayMatch key f))\<rparr>)"

definition InternalFilterPolicy :: "policy \<Rightarrow> policy" where
  "InternalFilterPolicy p = \<lparr>fp_Name = fp_Name p, fp_CreateFilter = Internal_CreateFilter (fp_CreateFilter p),
     fp_KeyMayMatch = Internal_KeyMayMatch (fp_KeyMayMatch p)\<rparr>"

text \<open>The lists of keys that the Bloom filter of \<open>bits\<close> per key can take.\<close>

abbreviation bits_ok :: "nat \<Rightarrow> byte list list \<Rightarrow> bool" where
  "bits_ok bits \<equiv> bloom_ok (BloomFilterPolicy bits)"

interpretation bloom_policy: table_policy "NewBloomFilterPolicy bits" "bits_ok bits" for bits
  unfolding table_policy_def NewBloomFilterPolicy_def Let_def policy.simps by (rule bloom.filter_policy_axioms)

interpretation internal_policy: table_policy "InternalFilterPolicy (NewBloomFilterPolicy bits)" "internal_keys_ok (bits_ok bits)" for bits
  unfolding table_policy_def InternalFilterPolicy_def NewBloomFilterPolicy_def Let_def policy.simps
  by (rule bloom_user.internal.filter_policy_axioms)

lemma BloomFilterPolicy_parts:
  assumes "bits < 2 ^ 31"
  shows "unat (bp_bits_per_key (BloomFilterPolicy bits)) = bits" "unat (bp_k (BloomFilterPolicy bits)) \<le> 30"
  using assms by (simp_all add: BloomFilterPolicy_def Let_def unat_of_nat_eq)

lemma bits_total: "bits < 2 ^ 31 \<Longrightarrow> n < 2 ^ 32 \<Longrightarrow> n * bits < (2 :: nat) ^ 63"
  using mult_strict_mono' [of n "2 ^ 32" bits "2 ^ 31"] by simp

lemma bits_okI:
  assumes "bits < 2 ^ 31" "length keys < 2 ^ 32"
  shows "bits_ok bits keys"
  using BloomFilterPolicy_parts [OF assms(1)] bits_total [OF assms] by (simp add: bloom_ok_def)

text \<open>A filter has \<open>bits\<close> bits per key, 64 at least, and the number of probes.\<close>

lemma length_CreateFilter:
  assumes "bits < 2 ^ 31" "length keys < 2 ^ 32" "keys \<noteq> []"
  shows "length (CreateFilter (BloomFilterPolicy bits) keys []) \<le> (bits + 9) * length keys"
proof -
  let ?pol = "BloomFilterPolicy bits" and ?n = "length keys"
  have small: "?n * bits < 2 ^ 63" by (rule bits_total [OF assms(1,2)])
  note u = BloomFilterPolicy_parts(1) [OF assms(1)]
  have prod: "unat (of_nat ?n * bp_bits_per_key ?pol) = ?n * bits"
    using small assms(2) u by (simp add: unat_word_ariths unat_of_nat_eq)
  let ?b = "if of_nat ?n * bp_bits_per_key ?pol < 64 then 64 else of_nat ?n * bp_bits_per_key ?pol :: size"
  have b: "unat ?b = max 64 (?n * bits)" using prod by (auto simp: word_less_nat_alt)
  have "unat (?b + 7) = unat ?b + 7" using b small by (subst unat_add_lem [THEN iffD1]) auto
  then have "unat (filter_bytes ?pol ?n) = (max 64 (?n * bits) + 7) div 8"
    using b by (simp only: filter_bytes_def Let_def unat_div) simp
  moreover have "unat (filter_bytes ?pol ?n * 8) = 8 * unat (filter_bytes ?pol ?n)"
    using filter_bytes_size(2) [of ?n ?pol] small u by simp
  ultimately have "length (CreateFilter ?pol keys []) = (max 64 (?n * bits) + 7) div 8 + 1"
    by (simp add: CreateFilter_def Let_def)
  also have "\<dots> \<le> ?n * bits + 9" by linarith
  also have "\<dots> \<le> (bits + 9) * ?n" using assms(3) by (cases keys) (simp_all add: algebra_simps)
  finally show ?thesis .
qed

lemma bloom_fits:
  assumes "bits < 2 ^ 31" "n < 2 ^ 32"
  shows "policy_fits (Some (NewBloomFilterPolicy bits)) (\<lambda>keys. length keys \<le> n) (bits + 9) K n"
proof -
  have "table_policy (NewBloomFilterPolicy bits) (\<lambda>keys. length keys \<le> n)"
  proof (unfold_locales, goal_cases)
    case (1 keys)
    then have "bits_ok bits keys" using assms by (intro bits_okI) simp_all
    then show ?case by (rule bloom_policy.create_appends)
  next
    case (2 keys key f)
    then have "bits_ok bits keys" using assms by (intro bits_okI) simp_all
    with 2 show ?case using bloom_policy.no_false_negatives by blast
  qed
  then show ?thesis
    using length_CreateFilter [OF assms(1)] assms(2) by (auto simp: policy_fits_def NewBloomFilterPolicy_def Let_def)
qed

definition stored_keys_ok :: "nat \<Rightarrow> byte list list \<Rightarrow> bool" where
  "stored_keys_ok n keys \<longleftrightarrow> length keys \<le> n \<and> (\<forall>k \<in> set keys. internal_ok (\<lambda>_. True) k)"

lemma stored_keys:
  assumes "stored_keys_ok n keys" "bits < 2 ^ 31" "n < 2 ^ 32"
  shows "internal_keys_ok (bits_ok bits) keys"
proof -
  have "\<exists>users. map ExtractUserKey keys = map Some users"
    using assms(1) by (induction keys) (auto simp: stored_keys_ok_def internal_ok_def intro: exI [of _ "_ # _"])
  then obtain users where u: "map ExtractUserKey keys = map Some users" ..
  then have "length users = length keys" by (metis length_map)
  then have "bits_ok bits users" using assms by (intro bits_okI) (simp_all add: stored_keys_ok_def)
  with u show ?thesis by (auto simp: internal_keys_ok_def)
qed

lemma internal_bloom_fits:
  assumes "bits < 2 ^ 31" "n < 2 ^ 32" "\<And>k. k \<in> K \<Longrightarrow> internal_ok (\<lambda>_. True) k"
  shows "policy_fits (Some (InternalFilterPolicy (NewBloomFilterPolicy bits))) (stored_keys_ok n) (bits + 9) K n"
proof -
  let ?p = "InternalFilterPolicy (NewBloomFilterPolicy bits)"
  have "table_policy ?p (stored_keys_ok n)"
  proof (unfold_locales, goal_cases)
    case (1 keys)
    then show ?case using internal_policy.create_appends stored_keys assms by blast
  next
    case (2 keys key f)
    then show ?case using internal_policy.no_false_negatives stored_keys assms by blast
  qed
  moreover have "length f \<le> (bits + 9) * length keys"
    if ok: "stored_keys_ok n keys" "keys \<noteq> []" "fp_CreateFilter ?p keys [] = Some f" for keys f
  proof -
    obtain users where u: "map ExtractUserKey keys = map Some users"
      using stored_keys [OF ok(1) assms(1,2)] by (auto simp: internal_keys_ok_def)
    then have len: "length users = length keys" by (metis length_map)
    then have "users \<noteq> []" using ok(2) by auto
    moreover have "f = CreateFilter (BloomFilterPolicy bits) users []"
      using ok(3) u by (simp add: InternalFilterPolicy_def NewBloomFilterPolicy_def Internal_CreateFilter_def those_map_Some Let_def)
    ultimately show ?thesis
      using length_CreateFilter [OF assms(1), of users] ok(1,2) len assms(2) by (auto simp: stored_keys_ok_def)
  qed
  ultimately show ?thesis using assms(3) by (auto simp: policy_fits_def stored_keys_ok_def)
qed

lemma internal_bloom_respects:
  "policy_respects (\<lambda>k. internal_ok (\<lambda>_. True) k \<and> slice_ok k) same_user (Some (InternalFilterPolicy (NewBloomFilterPolicy bits)))"
  by (auto simp: policy_respects_def InternalFilterPolicy_def NewBloomFilterPolicy_def Internal_KeyMayMatch_def same_user_def
      internal_ok_def Let_def)

section \<open>Tables of a database\<close>

text \<open>The internal keys that a memtable or a table can hold, and their order.\<close>

abbreviation stored_key :: "byte list \<Rightarrow> bool" where
  "stored_key \<equiv> \<lambda>k. internal_ok (\<lambda>_. True) k \<and> slice_ok k"

abbreviation internal_compare :: "byte list \<Rightarrow> byte list \<Rightarrow> int option" where
  "internal_compare \<equiv> Internal_Compare Bytewise_Compare"

text \<open>The options of a database with the default comparator, with or without Bloom filters.\<close>

definition stored_options :: "nat option \<Rightarrow> table_options \<Rightarrow> bool" where
  "stored_options bits options \<longleftrightarrow> op_comparator options = InternalKeyComparator BytewiseComparator \<and>
     1 \<le> op_block_restart_interval options \<and> (\<forall>b. bits = Some b \<longrightarrow> b < 2 ^ 31) \<and>
     op_filter_policy options = map_option (InternalFilterPolicy \<circ> NewBloomFilterPolicy) bits"

text \<open>Bytes of filter per key, and a bound on the table for a list.\<close>

definition filter_room :: "nat option \<Rightarrow> nat" where
  "filter_room bits = (case bits of None \<Rightarrow> 0 | Some b \<Rightarrow> b + 9)"

definition fits_in_table :: "nat option \<Rightarrow> table_options \<Rightarrow> (byte list \<times> byte list) list \<Rightarrow> bool" where
  "fits_in_table bits options xs \<longleftrightarrow> table_weight (filter_room bits) options xs < 2 ^ 32"

lemma stored_policy:
  assumes "stored_options bits options"
  shows "n < 2 ^ 32 \<Longrightarrow> (\<And>k. k \<in> K \<Longrightarrow> stored_key k) \<Longrightarrow>
      policy_fits (op_filter_policy options) (stored_keys_ok n) (filter_room bits) K n"
    "policy_respects stored_key same_user (op_filter_policy options)"
proof -
  show "policy_fits (op_filter_policy options) (stored_keys_ok n) (filter_room bits) K n"
    if "n < 2 ^ 32" "\<And>k. k \<in> K \<Longrightarrow> stored_key k"
    using assms internal_bloom_fits [OF _ that(1), of _ K] that(2)
    by (cases bits) (auto simp: stored_options_def filter_room_def policy_fits_def [of None])
  show "policy_respects stored_key same_user (op_filter_policy options)"
    using assms internal_bloom_respects by (cases bits) (auto simp: stored_options_def policy_respects_def [of _ _ None])
qed

text \<open>Every sorted list that fits is written, and the file is opened.\<close>

lemma stored_table_opens:
  assumes "file_appends file contents" "contents f = []" "stored_options bits options"
    "ordered stored_key internal_compare xs" "fits_in_table bits options xs" "\<And>cs. file_reads (rfile cs) cs"
  obtains r bs t where "build_table file options xs f = Some (OK, r)" "all_entries bs = xs"
    "Table_Open options (rfile (contents (tb_file r))) (FileSize r) = Some (OK, Some t)" "tab_options t = options"
    "table_opened stored_key internal_compare same_user (stored_keys_ok (length xs)) bs (contents (tb_file r)) t"
    "\<And>p. op_filter_policy options = Some p \<Longrightarrow> table_policy p (stored_keys_ok (length xs))"
proof -
  let ?B = "filter_room bits"
  have "100 * length xs \<le> entries_weight (?B + 100) xs"
    using length_le_weight [of "?B + 100" xs] by (simp add: add_mult_distrib)
  then have n: "length xs < 2 ^ 32" using assms(5) by (simp add: fits_in_table_def table_weight_def)
  have pol: "policy_fits (op_filter_policy options) (stored_keys_ok (length xs)) ?B (fst ` set xs) (length xs)"
    using assms(4) by (intro stored_policy(1) [OF assms(3) n]) (auto simp: ordered_def)
  have opts: "table_options_ok internal_compare (Internal_FindShortestSeparator Bytewise_Compare Bytewise_FindShortestSeparator)
      (Internal_FindShortSuccessor Bytewise_Compare Bytewise_FindShortSuccessor) options"
    using assms(3) by (simp add: stored_options_def table_options_ok_def InternalKeyComparator_def BytewiseComparator_def)
  have small: "table_weight ?B options xs < 2 ^ 32" using assms(5) by (simp add: fits_in_table_def)
  obtain bs r where r: "build_table file options xs f = Some (OK, r)" "tb_closed r"
      "table_file stored_key internal_compare same_user (op_filter_policy options) (stored_keys_ok (length xs)) bs (contents (tb_file r))"
      "all_entries bs = xs" "FileSize r = of_nat (length (contents (tb_file r)))"
    by (rule stored_table.stored.build_table_file [where contents = contents and f = f, OF assms(1,2) opts assms(4) pol small])
  have p: "table_policy p (stored_keys_ok (length xs))" if "op_filter_policy options = Some p" for p
    using pol that by (simp add: policy_fits_def)
  obtain t where t: "Table_Open options (rfile (contents (tb_file r))) (FileSize r) = Some (OK, Some t)" "tab_options t = options"
      "table_opened stored_key internal_compare same_user (stored_keys_ok (length xs)) bs (contents (tb_file r)) t"
    using stored_table.stored.Open_opens [OF r(3) assms(6) _ refl p] opts r(5) by (auto simp: table_options_ok_def)
  show thesis by (rule that [OF r(1,4) t p])
qed

text \<open>The blocks of tables, and the tables, as iterators.\<close>

interpretation stored_blocks: sound_class stored_key internal_compare "any_stands stored_key internal_compare" Any_class
  by (rule stored_table.stored.any_block.sound_class_axioms)

interpretation stored_tables: two_levels stored_key internal_compare "any_stands stored_key internal_compare" Any_class
  "any_stands stored_key internal_compare" Any_class "BlockReader t v" for t v
  by (rule stored_table.stored.table_iter.two_levels_axioms)

end
