(* ===== verification/Ldb_Database.thy ===== *)
theory Ldb_Database
  imports Ldb_Db_Iter_Rep Ldb_Table_Stored
begin

text \<open>
  Reading from a database: \<open>DBImpl::NewInternalIterator\<close>, \<open>NewIterator\<close> and \<open>Get\<close> of
  \<open>leveldb-library/db/db_impl.cc\<close>.  The memtable, the one that is being written to a file, and the
  tables are children of one merging iterator, so their classes are combined by dispatch
  (\<open>either_class\<close>).  The lock and the reference to the current version are not modelled.
\<close>

section \<open>Children of two classes\<close>

definition Memtable_class :: "(byte list skip_iter, byte list, byte list) iter_class" where
  "Memtable_class = \<lparr>it_Valid = skip_Valid, it_key = mem_key, it_val = mem_value, it_Next = skip_Next, it_Prev = skip_Prev,
     it_Seek = mem_Seek, it_SeekToFirst = skip_SeekToFirst, it_SeekToLast = skip_SeekToLast, it_status = (\<lambda>_. Some OK)\<rparr>"

definition Block_class :: "(block_iter, byte list, byte list) iter_class" where
  "Block_class = \<lparr>it_Valid = Iter_Valid, it_key = Iter_key, it_val = Iter_value, it_Next = Iter_Next, it_Prev = Iter_Prev,
     it_Seek = Iter_Seek, it_SeekToFirst = Iter_SeekToFirst, it_SeekToLast = Iter_SeekToLast, it_status = Some \<circ> bi_status\<rparr>"

primrec either_move :: "('a \<Rightarrow> 'a option) \<Rightarrow> ('b \<Rightarrow> 'b option) \<Rightarrow> 'a + 'b \<Rightarrow> ('a + 'b) option" where
  "either_move f g (Inl a) = map_option Inl (f a)"
| "either_move f g (Inr b) = map_option Inr (g b)"

definition either_class :: "('a, 'k, 'v) iter_class \<Rightarrow> ('b, 'k, 'v) iter_class \<Rightarrow> ('a + 'b, 'k, 'v) iter_class" where
  "either_class a b = \<lparr>it_Valid = case_sum (it_Valid a) (it_Valid b), it_key = case_sum (it_key a) (it_key b),
     it_val = case_sum (it_val a) (it_val b), it_Next = either_move (it_Next a) (it_Next b),
     it_Prev = either_move (it_Prev a) (it_Prev b), it_Seek = (\<lambda>k. either_move (it_Seek a k) (it_Seek b k)),
     it_SeekToFirst = either_move (it_SeekToFirst a) (it_SeekToFirst b),
     it_SeekToLast = either_move (it_SeekToLast a) (it_SeekToLast b),
     it_status = case_sum (it_status a) (it_status b)\<rparr>"

section \<open>Reading\<close>

text \<open>The parts of the database that reading uses; \<open>tables\<close> is what \<open>Version::AddIterators\<close> appends.\<close>

record db_impl =
  db_mem :: memtable
  db_imm :: "memtable option"
  db_last_sequence :: SequenceNumber
  db_seed :: u32

definition NewInternalIterator ::
  "('t, byte list, byte list) iter_class \<Rightarrow> 't list \<Rightarrow> db_impl \<Rightarrow>
    ((byte list skip_iter + 't, byte list) merged_iterator \<times> SequenceNumber \<times> u32 \<times> db_impl) option" where
  "NewInternalIterator cls tables db = do {
     let latest_snapshot = db_last_sequence db;
     let list = [Inl (mem_Iterator (db_mem db))];
     let db = db\<lparr>db_mem := MemTable_Ref (db_mem db)\<rparr>;
     let list = list @ (case db_imm db of None \<Rightarrow> [] | Some imm \<Rightarrow> [Inl (mem_Iterator imm)]);
     let db = db\<lparr>db_imm := map_option MemTable_Ref (db_imm db)\<rparr>;
     let list = list @ map Inr tables;
     internal_iter \<leftarrow> NewMergingIterator (either_class Memtable_class cls) list;
     let db = db\<lparr>db_seed := db_seed db + 1\<rparr>;
     Some (internal_iter, latest_snapshot, db_seed db, db)
   }"

definition DBImpl_NewIterator ::
  "('t, byte list, byte list) iter_class \<Rightarrow> 't list \<Rightarrow> SequenceNumber option \<Rightarrow> db_impl \<Rightarrow>
    ((byte list skip_iter + 't, byte list) merged_iterator db_iter \<times> db_impl) option" where
  "DBImpl_NewIterator cls tables snapshot db = do {
     (iter, latest_snapshot, seed, db) \<leftarrow> NewInternalIterator cls tables db;
     di \<leftarrow> DBIter iter (case snapshot of Some s \<Rightarrow> s | None \<Rightarrow> latest_snapshot) seed;
     Some (di, db)
   }"

text \<open>The lookup in the tables, \<open>Version::Get\<close>, is a parameter.\<close>

definition DBImpl_Get ::
  "(LookupKey \<Rightarrow> byte list \<Rightarrow> (status \<times> byte list) option) \<Rightarrow> SequenceNumber option \<Rightarrow> byte list \<Rightarrow> byte list \<Rightarrow>
    db_impl \<Rightarrow> (status \<times> byte list) option" where
  "DBImpl_Get current_Get snapshot key val db = do {
     let snapshot = (case snapshot of Some s \<Rightarrow> s | None \<Rightarrow> db_last_sequence db);
     lkey \<leftarrow> new_LookupKey key snapshot;
     (found, val, s) \<leftarrow> MemTable_Get lkey (db_mem db) val OK;
     if found then Some (s, val)
     else do {
       (found, val, s) \<leftarrow> (case db_imm db of None \<Rightarrow> Some (False, val, s) | Some imm \<Rightarrow> MemTable_Get lkey imm val s);
       if found then Some (s, val) else current_Get lkey val
     }
   }"

section \<open>Two classes of iterators are one\<close>

primrec either_stands :: "('a \<Rightarrow> 'x \<Rightarrow> nat \<Rightarrow> bool) \<Rightarrow> ('b \<Rightarrow> 'x \<Rightarrow> nat \<Rightarrow> bool) \<Rightarrow> 'a + 'b \<Rightarrow> 'x \<Rightarrow> nat \<Rightarrow> bool" where
  "either_stands f g (Inl a) = f a"
| "either_stands f g (Inr b) = g b"

lemma either_move_stands:
  assumes "either_stands f g it xs p" "\<And>a. f a xs p \<Longrightarrow> \<exists>a'. h a = Some a' \<and> f a' xs q"
    "\<And>b. g b xs p \<Longrightarrow> \<exists>b'. k b = Some b' \<and> g b' xs q"
  shows "\<exists>it'. either_move h k it = Some it' \<and> either_stands f g it' xs q"
proof (cases it)
  case (Inl a)
  then obtain a' where "h a = Some a'" "f a' xs q" using assms(1) assms(2) [of a] by auto
  then show ?thesis using Inl by simp
next
  case (Inr b)
  then obtain b' where "k b = Some b'" "g b' xs q" using assms(1) assms(3) [of b] by auto
  then show ?thesis using Inr by simp
qed

locale two_classes = a: iter_class ok compare stands1 cls1 + b: iter_class ok compare stands2 cls2
  for ok :: "'k \<Rightarrow> bool" and compare :: "'k \<Rightarrow> 'k \<Rightarrow> int option"
    and stands1 :: "'a \<Rightarrow> ('k \<times> 'v) list \<Rightarrow> nat \<Rightarrow> bool" and cls1 :: "('a, 'k, 'v) iter_class"
    and stands2 :: "'b \<Rightarrow> ('k \<times> 'v) list \<Rightarrow> nat \<Rightarrow> bool" and cls2 :: "('b, 'k, 'v) iter_class"

sublocale two_classes \<subseteq> either: iter_class ok compare "either_stands stands1 stands2" "either_class cls1 cls2"
proof (unfold_locales, goal_cases)
  case (1 it xs i)
  then show ?case using a.position b.position by (cases it) auto
next
  case (2 it xs i)
  then show ?case using a.Valid b.Valid by (cases it) (auto simp: either_class_def)
next
  case (3 it xs i)
  then show ?case using a.entry b.entry by (cases it) (auto simp: either_class_def)
next
  case (4 it xs i)
  then show ?case unfolding either_class_def iter_class.simps by (intro either_move_stands a.Next b.Next) auto
next
  case (5 it xs i)
  then show ?case unfolding either_class_def iter_class.simps by (intro either_move_stands a.Prev b.Prev) auto
next
  case (6 it xs i target)
  then show ?case unfolding either_class_def iter_class.simps by (intro either_move_stands [OF 6(1)] a.Seek b.Seek) auto
next
  case (7 it xs i)
  then show ?case unfolding either_class_def iter_class.simps by (intro either_move_stands a.SeekToFirst b.SeekToFirst) auto
next
  case (8 it xs i)
  then show ?case unfolding either_class_def iter_class.simps by (intro either_move_stands a.SeekToLast b.SeekToLast) auto
qed

interpretation memtable_child: iter_class stored_key "Internal_Compare Bytewise_Compare"
  "mem_stands (\<lambda>_. True) Bytewise_Compare" Memtable_class
  unfolding iter_class_def Memtable_class_def iter_class.simps by (rule bytewise_user.mem.iterator_axioms)

interpretation block_child: iter_class stored_key "Internal_Compare Bytewise_Compare"
  "block_stands stored_key (Internal_Compare Bytewise_Compare)" Block_class
  unfolding iter_class_def Block_class_def iter_class.simps by (rule stored_table.stored.block_iterator.iterator_axioms)

interpretation children: two_classes stored_key "Internal_Compare Bytewise_Compare"
  "mem_stands (\<lambda>_. True) Bytewise_Compare" Memtable_class
  "block_stands stored_key (Internal_Compare Bytewise_Compare)" Block_class
  by unfold_locales

abbreviation child_stands where
  "child_stands \<equiv> either_stands (mem_stands (\<lambda>_. True) Bytewise_Compare) (block_stands stored_key (Internal_Compare Bytewise_Compare))"

abbreviation child_class where
  "child_class \<equiv> either_class Memtable_class Block_class"

interpretation database: db_entries "\<lambda>_. True" Bytewise_Compare Bytewise_FindShortestSeparator Bytewise_FindShortSuccessor
  "new_stands stored_key (Internal_Compare Bytewise_Compare) child_stands"
  "New_class child_class (Internal_Compare Bytewise_Compare)"
  by (rule db_entries.intro [OF bytewise_user.user_comparator_axioms children.either.new_class])

end
