(* ===== verification/Ldb_Database_Properties.thy ===== *)
theory Ldb_Database_Properties
  imports Ldb_Database Ldb_Memtable_Properties
begin

text \<open>The properties of merging iterators, of iterators over snapshots, and of lookups in a database.\<close>

section \<open>Views and histories\<close>


lemma newest_mem:
  assumes "newest k s h = Some u"
  obtains r where "(r, u) \<in> set h" "update_key u = k" "r \<le> s"
proof -
  obtain x where x: "find (\<lambda>x. update_key (snd x) = k \<and> fst x \<le> s) (rev h) = Some x" "u = snd x"
    using assms by (auto simp: newest_def)
  then have "x \<in> set (rev h)" "update_key (snd x) = k \<and> fst x \<le> s"
    unfolding find_Some_iff by (metis nth_mem)+
  with x(2) that [of "fst x"] show thesis by simp
qed

lemma hist_entry_inject:
  assumes "hist_ok ok h" "x \<in> set h" "y \<in> set h" "fst (hist_entry x) = fst (hist_entry y)"
  shows "x = y"
proof -
  have "push_bit 8 (fst x) OR type_number (update_type (snd x)) = push_bit 8 (fst y) OR type_number (update_type (snd y))"
    using assms(4) by (auto simp: hist_entry_def append_eq_append_conv)
  moreover have "fst x \<le> kMaxSequenceNumber" "fst y \<le> kMaxSequenceNumber" using assms(1-3) by (auto simp: hist_ok_def)
  ultimately have "fst x = fst y" using packed_parts(1) by metis
  then show ?thesis using hist_same_number [OF assms(1-3)] by simp
qed

context user_comparator
begin

text \<open>The first visible entry of a user key is the newest update.\<close>

lemma head_newest:
  assumes es: "entries_ordered ok compare hs" and h: "hist_ok ok h" "set hs = set h"
    and i: "i < length hs" "sees s hs i" "\<And>j. j < i \<Longrightarrow> sees s hs j \<Longrightarrow> user_at hs j \<noteq> user_at hs i"
  shows "newest (user_at hs i) s h = Some (snd (hs ! i))"
proof (rule newest_Some [OF h(1)])
  show "(fst (hs ! i), snd (hs ! i)) \<in> set h" using nth_mem [OF i(1)] by (simp add: h(2))
  show "update_key (snd (hs ! i)) = user_at hs i" by (simp add: user_at_def)
  show "fst (hs ! i) \<le> s" using i(2) by (simp add: sees_def)
  fix r u assume x: "(r, u) \<in> set h" "update_key u = user_at hs i" "r \<le> s"
  then obtain j where j: "j < length hs" "hs ! j = (r, u)" using h(2) by (metis in_set_conv_nth)
  then have "sees s hs j" "user_at hs j = user_at hs i" using x by (simp_all add: sees_def user_at_def)
  then have ij: "i \<le> j" using i(3) by (meson not_le)
  show "r \<le> fst (hs ! i)"
  proof (cases "i = j")
    case False
    then have "below (Internal_Compare compare) (fst (hist_entry (hs ! i))) (fst (hist_entry (hs ! j)))"
      using es ij j(1) by (simp add: entries_ordered_def ordered_def sorted_wrt_iff_nth_less)
    then have "push_bit 8 r OR type_number (update_type u) <
        push_bit 8 (fst (hs ! i)) OR type_number (update_type (snd (hs ! i)))"
      using j(2) \<open>user_at hs j = user_at hs i\<close> irrefl [OF entry_user_ok(1) [OF es i(1)]]
      by (auto simp: hist_entry_def below_Internal user_at_def)
    moreover have "r \<le> kMaxSequenceNumber" "fst (hs ! i) \<le> kMaxSequenceNumber"
      using es j i(1) unfolding entries_ordered_def by (metis fst_conv nth_mem)+
    ultimately show ?thesis using packed_less by force
  qed (use j(2) in simp)
qed

text \<open>So a view holds exactly what a lookup in the history finds.\<close>

lemma db_view_newest:
  assumes es: "entries_ordered ok compare hs" and h: "hist_ok ok h" "set hs = set h"
  shows "(k, v) \<in> set (db_view s hs) \<longleftrightarrow> newest k s h = Some (Put_update k v)"
proof
  assume "(k, v) \<in> set (db_view s hs)"
  then obtain i where i: "i < length hs" "shown s hs i" "k = user_at hs i" "v = update_value (snd (hs ! i))"
    by (auto simp: db_view_def pair_at_def)
  then have "newest k s h = Some (snd (hs ! i))" using head_newest [OF es h i(1)] by (simp add: shown_def)
  moreover have "snd (hs ! i) = Put_update k v"
    using i by (cases "snd (hs ! i)") (simp_all add: shown_def user_at_def)
  ultimately show "newest k s h = Some (Put_update k v)" by simp
next
  assume new: "newest k s h = Some (Put_update k v)"
  obtain r where r: "(r, Put_update k v) \<in> set h" "r \<le> s" by (rule newest_mem [OF new])
  then obtain j where "j < length hs" "hs ! j = (r, Put_update k v)" using h(2) by (metis in_set_conv_nth)
  then have j: "j < length hs \<and> sees s hs j \<and> user_at hs j = k" using r(2) by (simp add: sees_def user_at_def)
  define i where "i = (LEAST j. j < length hs \<and> sees s hs j \<and> user_at hs j = k)"
  have i: "i < length hs \<and> sees s hs i \<and> user_at hs i = k" unfolding i_def using j by (rule LeastI)
  have first: "user_at hs j \<noteq> user_at hs i" if "j < i" "sees s hs j" for j
    using not_less_Least [of j "\<lambda>j. j < length hs \<and> sees s hs j \<and> user_at hs j = k"] that i unfolding i_def [symmetric] by auto
  have "Some (snd (hs ! i)) = Some (Put_update k v)"
    using head_newest [OF es h _ _ first] i new by simp
  then have "shown s hs i" "pair_at hs i = (k, v)" using i first by (auto simp: shown_def pair_at_def user_at_def)
  then show "(k, v) \<in> set (db_view s hs)" using i unfolding db_view_def by (force simp: image_iff)
qed

end

section \<open>Merging the pieces of a database\<close>

text \<open>Iterators over the pieces of a history, in any order, merge into one over all of it.\<close>

lemma merged_history:
  assumes h: "hist_ok (\<lambda>_. True) h" "set h = (\<Union>g \<in> set pieces. set g)"
    and disjoint: "\<And>i j. i < length pieces \<Longrightarrow> j < length pieces \<Longrightarrow> i \<noteq> j \<Longrightarrow> set (pieces ! i) \<inter> set (pieces ! j) = {}"
    and its: "length its = length pieces"
      "\<And>i. i < length pieces \<Longrightarrow> \<exists>xs p. child_stands (its ! i) xs p \<and> set xs = hist_entry ` set (pieces ! i)"
  obtains it p hs where "NewMergingIterator child_class its = Some it"
    "new_stands stored_key (Internal_Compare Bytewise_Compare) child_stands it (map hist_entry hs) p"
    "entries_ordered (\<lambda>_. True) Bytewise_Compare hs" "set hs = set h"
proof -
  have inj: "inj_on fst (hist_entry ` set h)"
    using hist_entry_inject [OF h(1)] by (auto simp: inj_on_def)
  have keys: "stored_key (fst x)" if "x \<in> hist_entry ` set h" for x
    using that h(1) by (auto simp: hist_entry_def hist_ok_def slice_ok_def)
  obtain xs where xs: "ordered stored_key (Internal_Compare Bytewise_Compare) xs" "set xs = hist_entry ` set h"
    using key_order.ordered_exists [OF bytewise_user.mem.key_order_axioms, of "hist_entry ` set h"] keys inj by auto
  have "\<forall>i. \<exists>ys. i < length pieces \<longrightarrow> (\<exists>p. child_stands (its ! i) ys p) \<and> set ys = hist_entry ` set (pieces ! i)"
    using its(2) by blast
  from choice [OF this] obtain Y where
    "\<forall>i. i < length pieces \<longrightarrow> (\<exists>p. child_stands (its ! i) (Y i) p) \<and> set (Y i) = hist_entry ` set (pieces ! i)" ..
  then have Y: "\<And>i. i < length pieces \<Longrightarrow> \<exists>p. child_stands (its ! i) (Y i) p"
      "\<And>i. i < length pieces \<Longrightarrow> set (Y i) = hist_entry ` set (pieces ! i)"
    by blast+
  let ?xss = "map Y [0..<length pieces]"
  have part: "set (pieces ! i) \<subseteq> set h" if "i < length pieces" for i using h(2) that by auto
  have "merge_of stored_key (Internal_Compare Bytewise_Compare) ?xss xs"
    unfolding merge_of_def
  proof (intro conjI ballI allI impI)
    show "set xs = (\<Union>ys \<in> set ?xss. set ys)"
    proof -
      have "(\<Union>ys \<in> set ?xss. set ys) = (\<Union>i \<in> {..<length pieces}. hist_entry ` set (pieces ! i))"
        using Y(2) by (auto simp: lessThan_atLeast0)
      also have "\<dots> = hist_entry ` (\<Union>i < length pieces. set (pieces ! i))" by (simp only: image_UN)
      also have "(\<Union>i < length pieces. set (pieces ! i)) = (\<Union>g \<in> set pieces. set g)" by (auto simp: set_conv_nth [of pieces])
      finally show ?thesis using xs(2) h(2) by simp
    qed
    fix ys assume "ys \<in> set ?xss"
    then obtain i where i: "i < length pieces" "ys = Y i" by auto
    then obtain p where "child_stands (its ! i) ys p" using Y(1) by blast
    then show "ordered stored_key (Internal_Compare Bytewise_Compare) ys" using children.either.position by blast
  next
    fix i j assume ij: "i < length ?xss" "j < length ?xss" "i \<noteq> j"
    then have i: "i < length pieces" "j < length pieces" by simp_all
    have "fst x \<noteq> fst y" if xy: "x \<in> hist_entry ` set (pieces ! i)" "y \<in> hist_entry ` set (pieces ! j)" for x y
    proof
      assume "fst x = fst y"
      moreover obtain a b where "a \<in> set (pieces ! i)" "b \<in> set (pieces ! j)" "x = hist_entry a" "y = hist_entry b" using xy by blast
      ultimately show False
        using hist_entry_inject [OF h(1), of a b] disjoint [OF i ij(3)] part [OF i(1)] part [OF i(2)] by blast
    qed
    then have "fst ` (hist_entry ` set (pieces ! i)) \<inter> fst ` (hist_entry ` set (pieces ! j)) = {}" by blast
    then show "fst ` set (?xss ! i) \<inter> fst ` set (?xss ! j) = {}" using i Y(2) by simp
  qed (rule xs(1))
  then obtain it p where it: "NewMergingIterator child_class its = Some it"
      "new_stands stored_key (Internal_Compare Bytewise_Compare) child_stands it xs p"
    by (rule children.either.NewMergingIterator_stands [rotated]) (use its(1) Y(1) in auto)
  text \<open>Its entries are those of the history.\<close>
  have "\<forall>i. \<exists>x. i < length xs \<longrightarrow> x \<in> set h \<and> xs ! i = hist_entry x" 
  proof
    fix i
    have "xs ! i \<in> hist_entry ` set h" if "i < length xs" using nth_mem [OF that] xs(2) by simp
    then show "\<exists>x. i < length xs \<longrightarrow> x \<in> set h \<and> xs ! i = hist_entry x" by blast
  qed
  from choice [OF this] obtain X where X: "\<forall>i. i < length xs \<longrightarrow> X i \<in> set h \<and> xs ! i = hist_entry (X i)" ..
  let ?hs = "map X [0..<length xs]"
  have map: "map hist_entry ?hs = xs" using X by (intro nth_equalityI) auto
  have sub: "set ?hs \<subseteq> set h" using X by auto
  have same: "set ?hs = set h"
  proof (rule antisym [OF sub], rule subsetI)
    fix x assume x: "x \<in> set h"
    then have "hist_entry x \<in> set (map hist_entry ?hs)" unfolding map xs(2) by simp
    then obtain y where y: "y \<in> set ?hs" "hist_entry x = hist_entry y" unfolding set_map [of hist_entry] by (rule imageE)
    have "x = y" by (rule hist_entry_inject [OF h(1) x]) (use y sub in \<open>blast, simp\<close>)
    then show "x \<in> set ?hs" using y(1) by simp
  qed
  have "entries_ordered (\<lambda>_. True) Bytewise_Compare ?hs"
    unfolding entries_ordered_def map using xs(1) h(1) same by (simp add: hist_ok_def del: set_map)
  then show thesis using that [of it ?hs p] it map same by simp
qed

section \<open>Properties\<close>

definition batches_fit :: "(SequenceNumber \<times> update list) list \<Rightarrow> bool" where
  "batches_fit bs \<longleftrightarrow> (\<forall>b \<in> set bs. length (snd b) < 2 ^ 31 \<and> (\<forall>u \<in> set (snd b). update_ok u))"

definition memtable_of :: "(SequenceNumber \<times> update list) list \<Rightarrow> memtable option" where
  "memtable_of bs = Option.bind (MemTable Bytewise_Compare) (insert_batches bs)"



lemma memtable_of_hist:
  assumes "hist_ok (\<lambda>_. True) (history_of bs)" "batches_fit bs"
  obtains mt where "memtable_of bs = Some mt" "mem_hist (\<lambda>_. True) Bytewise_Compare mt (history_of bs)"
proof -
  obtain mt0 where mt0: "MemTable Bytewise_Compare = Some mt0" "mem_hist (\<lambda>_. True) Bytewise_Compare mt0 []"
    by (rule bytewise_user.new_hist)
  obtain mt where "insert_batches bs mt0 = Some mt" "mem_hist (\<lambda>_. True) Bytewise_Compare mt (history_of bs)"
    using bytewise_user.insert_batches_hist [OF mt0(2), of bs] assms by (auto simp: batches_fit_def)
  with mt0(1) that show thesis by (simp add: memtable_of_def)
qed

lemma mem_child:
  assumes "mem_hist (\<lambda>_. True) Bytewise_Compare mt h"
  shows "\<exists>xs p. child_stands (Inl (mem_Iterator mt)) xs p \<and> set xs = hist_entry ` set h"
  using assms bytewise_user.mem_Iterator_stands by (fastforce simp: mem_hist_def)






text \<open>C14: A merging iterator over any number of memtables whose updates have different sequence numbers
  refines a position in the sorted list of all their internal keys, for any sequence of seeks
  and steps in both directions, although the children of a merging iterator stand on different
  sides of its position when it moves forward and when it moves backward.\<close>

lemma merging_follows_merge:
  assumes hist: "hist_ok (\<lambda>_. True) h" "set h = (\<Union>bs \<in> set tables. set (history_of bs))"
    and disjoint: "\<forall>i < length tables. \<forall>j < length tables. i \<noteq> j \<longrightarrow> set (history_of (tables ! i)) \<inter> set (history_of (tables ! j)) = {}"
    and fit: "\<forall>bs \<in> set tables. hist_ok (\<lambda>_. True) (history_of bs) \<and> batches_fit bs"
  shows "\<exists>mts it xs p. those (map memtable_of tables) = Some mts \<and>
    NewMergingIterator child_class (map (\<lambda>mt. Inl (mem_Iterator mt)) mts) = Some it \<and>
    ordered stored_key internal_compare xs \<and> set xs = hist_entry ` set h \<and>
    follows stored_key internal_compare (New_class child_class internal_compare) it xs p"
proof -
  have "\<exists>mt. memtable_of bs = Some mt \<and> mem_hist (\<lambda>_. True) Bytewise_Compare mt (history_of bs)" if "bs \<in> set tables" for bs
    using memtable_of_hist [of bs] fit that by metis
  then have "\<exists>mts. those (map memtable_of tables) = Some mts \<and> length mts = length tables \<and>
      (\<forall>i < length tables. mem_hist (\<lambda>_. True) Bytewise_Compare (mts ! i) (history_of (tables ! i)))"
  proof (induction tables)
    case (Cons bs tables)
    then obtain mt mts where "memtable_of bs = Some mt" "mem_hist (\<lambda>_. True) Bytewise_Compare mt (history_of bs)"
        "those (map memtable_of tables) = Some mts" "length mts = length tables"
        "\<forall>i < length tables. mem_hist (\<lambda>_. True) Bytewise_Compare (mts ! i) (history_of (tables ! i))"
      by (metis list.set_intros(1,2))
    then show ?case by (intro exI [of _ "mt # mts"]) (auto simp: nth_Cons split: nat.splits)
  qed simp
  then obtain mts where mts: "those (map memtable_of tables) = Some mts" "length mts = length tables"
      "\<And>i. i < length tables \<Longrightarrow> mem_hist (\<lambda>_. True) Bytewise_Compare (mts ! i) (history_of (tables ! i))" by blast
  let ?its = "map (\<lambda>mt. Inl (mem_Iterator mt)) mts"
  obtain it p hs where it: "NewMergingIterator child_class ?its = Some it"
      "new_stands stored_key internal_compare child_stands it (map hist_entry hs) p"
      "entries_ordered (\<lambda>_. True) Bytewise_Compare hs" "set hs = set h"
  proof (rule merged_history [OF hist(1), of "map history_of tables" ?its])
    fix i assume "i < length (map history_of tables)"
    then show "\<exists>xs p. child_stands (?its ! i) xs p \<and> set xs = hist_entry ` set (map history_of tables ! i)"
      using mem_child [OF mts(3), of i] mts(2) by simp
  qed (use hist(2) disjoint mts(2) in auto)
  have "follows stored_key internal_compare (New_class child_class internal_compare) it (map hist_entry hs) p"
    using it(2) by (rule iter_class.stands_follows [OF children.either.new_class])
  moreover have "ordered stored_key internal_compare (map hist_entry hs)" using it(3) by (simp add: entries_ordered_def)
  moreover have "set (map hist_entry hs) = hist_entry ` set h" using it(4) by simp
  ultimately show ?thesis using mts(1) it(1) by blast
qed

lemma merging_follows_merge_witness:
  "let tables = [[(1, [Put_update [97] [1]])], [(2, [Put_update [98] [2]])]]
   in \<exists>mts it xs p. those (map memtable_of tables) = Some mts \<and>
    NewMergingIterator child_class (map (\<lambda>mt. Inl (mem_Iterator mt)) mts) = Some it \<and>
    set xs = hist_entry ` {(1, Put_update [97] [1]), (2, Put_update [98] [2])} \<and>
    follows stored_key internal_compare (New_class child_class internal_compare) it xs p"
proof -
  let ?t = "[[(1, [Put_update [97] [1]])], [(2, [Put_update [98] [2]])]] :: (SequenceNumber \<times> update list) list list"
  let ?h = "[(1, Put_update [97] [1]), (2, Put_update [98] [2])] :: history"
  have hist: "hist_ok (\<lambda>_. True) ?h"
    by (simp add: hist_ok_def slice_ok_def kMaxSequenceNumber_def)
  have all: "set ?h = (\<Union>bs \<in> set ?t. set (history_of bs))"
    by (simp add: history_of_def insert_commute)
  have disjoint: "\<forall>i < length ?t. \<forall>j < length ?t. i \<noteq> j \<longrightarrow> set (history_of (?t ! i)) \<inter> set (history_of (?t ! j)) = {}"
    by (auto simp: history_of_def less_Suc_eq nth_Cons')
  have fit: "\<forall>bs \<in> set ?t. hist_ok (\<lambda>_. True) (history_of bs) \<and> batches_fit bs"
    by (simp add: hist_ok_def history_of_def slice_ok_def kMaxSequenceNumber_def batches_fit_def)
  from merging_follows_merge [OF hist all disjoint fit] show ?thesis by (auto simp: Let_def)
qed

end
