(* ===== verification/Ldb_Version_Edit.thy ===== *)
theory Ldb_Version_Edit
  imports Ldb_Format Ldb_Log_Writer "HOL-Library.Product_Lexorder"
begin

text \<open>
  Changes of the set of table files, as they are stored in the manifest:
  \<open>leveldb-library/db/version_edit.cc\<close> and \<open>version_edit.h\<close>, with the class \<open>InternalKey\<close> of
  \<open>dbformat.h\<close>.  Decoding takes any bytes and keeps edits well-formed (\<open>edit_ok\<close>); it gives back what
  was encoded, added to the compaction pointers that the edit had before.
\<close>

section \<open>Data\<close>

text \<open>An \<open>InternalKey\<close> is its bytes; none means that it is invalid.\<close>

type_synonym InternalKey = "byte list"

definition InternalKey_Encode :: "InternalKey \<Rightarrow> byte list option" where
  "InternalKey_Encode rep = (if rep = [] then None else Some rep)"

definition InternalKey_DecodeFrom :: "byte list \<Rightarrow> InternalKey" where
  "InternalKey_DecodeFrom s = s"

record FileMetaData =
  fm_refs :: int
  fm_allowed_seeks :: int
  fm_number :: u64
  fm_file_size :: u64
  fm_smallest :: InternalKey
  fm_largest :: InternalKey

text \<open>The number of a new file is not initialised by the code; here it is 0 until it is set.\<close>

definition new_FileMetaData :: FileMetaData where
  "new_FileMetaData = \<lparr>fm_refs = 0, fm_allowed_seeks = 2 ^ 30, fm_number = 0, fm_file_size = 0, fm_smallest = [], fm_largest = []\<rparr>"

text \<open>The set of deleted files is the list in which it is iterated over.\<close>

record version_edit =
  ve_comparator :: "byte list"
  ve_log_number :: u64
  ve_prev_log_number :: u64
  ve_next_file_number :: u64
  ve_last_sequence :: SequenceNumber
  ve_has_comparator :: bool
  ve_has_log_number :: bool
  ve_has_prev_log_number :: bool
  ve_has_next_file_number :: bool
  ve_has_last_sequence :: bool
  ve_compact_pointers :: "(int \<times> InternalKey) list"
  ve_deleted_files :: "(int \<times> u64) list"
  ve_new_files :: "(int \<times> FileMetaData) list"

definition kNumLevels :: int where [c_defs]: "kNumLevels = 7"
definition kComparator :: u32 where [c_defs]: "kComparator = 1"
definition kLogNumber :: u32 where [c_defs]: "kLogNumber = 2"
definition kNextFileNumber :: u32 where [c_defs]: "kNextFileNumber = 3"
definition kLastSequence :: u32 where [c_defs]: "kLastSequence = 4"
definition kCompactPointer :: u32 where [c_defs]: "kCompactPointer = 5"
definition kDeletedFile :: u32 where [c_defs]: "kDeletedFile = 6"
definition kNewFile :: u32 where [c_defs]: "kNewFile = 7"
definition kPrevLogNumber :: u32 where [c_defs]: "kPrevLogNumber = 9"

section \<open>Operations\<close>

text \<open>The compaction pointers are not cleared.\<close>

definition VersionEdit_Clear :: "version_edit \<Rightarrow> version_edit" where
  "VersionEdit_Clear ve = ve\<lparr>ve_comparator := [], ve_log_number := 0, ve_prev_log_number := 0, ve_last_sequence := 0,
     ve_next_file_number := 0, ve_has_comparator := False, ve_has_log_number := False, ve_has_prev_log_number := False,
     ve_has_next_file_number := False, ve_has_last_sequence := False, ve_deleted_files := [], ve_new_files := []\<rparr>"

definition VersionEdit :: version_edit where
  "VersionEdit = \<lparr>ve_comparator = [], ve_log_number = 0, ve_prev_log_number = 0, ve_next_file_number = 0,
     ve_last_sequence = 0, ve_has_comparator = False, ve_has_log_number = False, ve_has_prev_log_number = False,
     ve_has_next_file_number = False, ve_has_last_sequence = False, ve_compact_pointers = [], ve_deleted_files = [],
     ve_new_files = []\<rparr>"

definition SetComparatorName :: "byte list \<Rightarrow> version_edit \<Rightarrow> version_edit" where
  "SetComparatorName name ve = ve\<lparr>ve_has_comparator := True, ve_comparator := name\<rparr>"

definition SetLogNumber :: "u64 \<Rightarrow> version_edit \<Rightarrow> version_edit" where
  "SetLogNumber num ve = ve\<lparr>ve_has_log_number := True, ve_log_number := num\<rparr>"

definition SetPrevLogNumber :: "u64 \<Rightarrow> version_edit \<Rightarrow> version_edit" where
  "SetPrevLogNumber num ve = ve\<lparr>ve_has_prev_log_number := True, ve_prev_log_number := num\<rparr>"

definition SetNextFile :: "u64 \<Rightarrow> version_edit \<Rightarrow> version_edit" where
  "SetNextFile num ve = ve\<lparr>ve_has_next_file_number := True, ve_next_file_number := num\<rparr>"

definition SetLastSequence :: "SequenceNumber \<Rightarrow> version_edit \<Rightarrow> version_edit" where
  "SetLastSequence seq ve = ve\<lparr>ve_has_last_sequence := True, ve_last_sequence := seq\<rparr>"

definition SetCompactPointer :: "int \<Rightarrow> InternalKey \<Rightarrow> version_edit \<Rightarrow> version_edit" where
  "SetCompactPointer level key ve = ve\<lparr>ve_compact_pointers := ve_compact_pointers ve @ [(level, key)]\<rparr>"

definition AddFile :: "int \<Rightarrow> u64 \<Rightarrow> u64 \<Rightarrow> InternalKey \<Rightarrow> InternalKey \<Rightarrow> version_edit \<Rightarrow> version_edit" where
  "AddFile level number file_size smallest largest ve =
     (let f = new_FileMetaData\<lparr>fm_number := number, fm_file_size := file_size, fm_smallest := smallest, fm_largest := largest\<rparr>
      in ve\<lparr>ve_new_files := ve_new_files ve @ [(level, f)]\<rparr>)"

definition VersionEdit_DeleteFile :: "int \<Rightarrow> u64 \<Rightarrow> version_edit \<Rightarrow> version_edit" where
  "VersionEdit_DeleteFile level number ve = ve\<lparr>ve_deleted_files := insort_insert (level, number) (ve_deleted_files ve)\<rparr>"

section \<open>Encoding\<close>

definition encode_number :: "bool \<Rightarrow> u32 \<Rightarrow> u64 \<Rightarrow> byte list \<Rightarrow> byte list" where
  "encode_number has tag number dst = (if has then PutVarint64 (PutVarint32 dst tag) number else dst)"

primrec encode_pointers :: "(int \<times> InternalKey) list \<Rightarrow> byte list \<Rightarrow> byte list option" where
  "encode_pointers [] dst = Some dst"
| "encode_pointers (p # ps) dst = do {
     key \<leftarrow> InternalKey_Encode (snd p);
     encode_pointers ps (PutLengthPrefixedSlice (PutVarint32 (PutVarint32 dst kCompactPointer) (of_int (fst p))) key)
   }"

primrec encode_deleted :: "(int \<times> u64) list \<Rightarrow> byte list \<Rightarrow> byte list" where
  "encode_deleted [] dst = dst"
| "encode_deleted (d # ds) dst = encode_deleted ds (PutVarint64 (PutVarint32 (PutVarint32 dst kDeletedFile) (of_int (fst d))) (snd d))"

primrec encode_new_files :: "(int \<times> FileMetaData) list \<Rightarrow> byte list \<Rightarrow> byte list option" where
  "encode_new_files [] dst = Some dst"
| "encode_new_files (n # ns) dst = do {
     let f = snd n;
     let dst = PutVarint32 (PutVarint32 dst kNewFile) (of_int (fst n));
     let dst = PutVarint64 (PutVarint64 dst (fm_number f)) (fm_file_size f);
     smallest \<leftarrow> InternalKey_Encode (fm_smallest f);
     largest \<leftarrow> InternalKey_Encode (fm_largest f);
     encode_new_files ns (PutLengthPrefixedSlice (PutLengthPrefixedSlice dst smallest) largest)
   }"

definition VersionEdit_EncodeTo :: "version_edit \<Rightarrow> byte list \<Rightarrow> byte list option" where
  "VersionEdit_EncodeTo ve dst = do {
     let dst = (if ve_has_comparator ve then PutLengthPrefixedSlice (PutVarint32 dst kComparator) (ve_comparator ve) else dst);
     let dst = encode_number (ve_has_log_number ve) kLogNumber (ve_log_number ve) dst;
     let dst = encode_number (ve_has_prev_log_number ve) kPrevLogNumber (ve_prev_log_number ve) dst;
     let dst = encode_number (ve_has_next_file_number ve) kNextFileNumber (ve_next_file_number ve) dst;
     let dst = encode_number (ve_has_last_sequence ve) kLastSequence (ve_last_sequence ve) dst;
     dst \<leftarrow> encode_pointers (ve_compact_pointers ve) dst;
     let dst = encode_deleted (ve_deleted_files ve) dst;
     encode_new_files (ve_new_files ve) dst
   }"

section \<open>Decoding\<close>

definition GetInternalKey :: "byte list \<Rightarrow> (InternalKey \<times> byte list) option" where
  "GetInternalKey input =
     (case GetLengthPrefixedSlice input of
        (Some str, input) \<Rightarrow> Some (InternalKey_DecodeFrom str, input)
      | (None, _) \<Rightarrow> None)"

definition GetLevel :: "byte list \<Rightarrow> (int \<times> byte list) option" where
  "GetLevel input = do {
     (v, input) \<leftarrow> GetVarint32 input;
     if uint v < kNumLevels then Some (uint v, input) else None
   }"

text \<open>One field: the message of an error, or the edit and what is left of the input.\<close>

definition decoded :: "string \<Rightarrow> ('a \<times> byte list) option \<Rightarrow> ('a \<Rightarrow> version_edit) \<Rightarrow> string + version_edit \<times> byte list" where
  "decoded msg r f = (case r of None \<Rightarrow> Inl msg | Some (x, input) \<Rightarrow> Inr (f x, input))"

definition decode_field :: "u32 \<Rightarrow> byte list \<Rightarrow> version_edit \<Rightarrow> string + version_edit \<times> byte list" where
  "decode_field tag input ve =
     (if tag = kComparator then
        decoded ''comparator name'' (get_slice input) (\<lambda>str. ve\<lparr>ve_has_comparator := True, ve_comparator := str\<rparr>)
      else if tag = kLogNumber then
        decoded ''log number'' (GetVarint64 input) (\<lambda>n. ve\<lparr>ve_has_log_number := True, ve_log_number := n\<rparr>)
      else if tag = kPrevLogNumber then
        decoded ''previous log number'' (GetVarint64 input) (\<lambda>n. ve\<lparr>ve_has_prev_log_number := True, ve_prev_log_number := n\<rparr>)
      else if tag = kNextFileNumber then
        decoded ''next file number'' (GetVarint64 input) (\<lambda>n. ve\<lparr>ve_has_next_file_number := True, ve_next_file_number := n\<rparr>)
      else if tag = kLastSequence then
        decoded ''last sequence number'' (GetVarint64 input) (\<lambda>n. ve\<lparr>ve_has_last_sequence := True, ve_last_sequence := n\<rparr>)
      else if tag = kCompactPointer then
        decoded ''compaction pointer''
          (do { (level, input) \<leftarrow> GetLevel input; (key, input) \<leftarrow> GetInternalKey input; Some ((level, key), input) })
          (\<lambda>p. ve\<lparr>ve_compact_pointers := ve_compact_pointers ve @ [p]\<rparr>)
      else if tag = kDeletedFile then
        decoded ''deleted file''
          (do { (level, input) \<leftarrow> GetLevel input; (number, input) \<leftarrow> GetVarint64 input; Some ((level, number), input) })
          (\<lambda>d. ve\<lparr>ve_deleted_files := insort_insert d (ve_deleted_files ve)\<rparr>)
      else if tag = kNewFile then
        decoded ''new-file entry''
          (do { (level, input) \<leftarrow> GetLevel input;
                (number, input) \<leftarrow> GetVarint64 input;
                (file_size, input) \<leftarrow> GetVarint64 input;
                (smallest, input) \<leftarrow> GetInternalKey input;
                (largest, input) \<leftarrow> GetInternalKey input;
                Some ((level, new_FileMetaData\<lparr>fm_number := number, fm_file_size := file_size, fm_smallest := smallest,
                  fm_largest := largest\<rparr>), input) })
          (\<lambda>n. ve\<lparr>ve_new_files := ve_new_files ve @ [n]\<rparr>)
      else Inl ''unknown tag'')"
lemma varint32_loop_shrinks: "GetVarint32PtrFallback_loop i r xs = Some (v, rest) \<Longrightarrow> length rest < length xs"
  by (induction i r xs rule: GetVarint32PtrFallback_loop.induct) (auto simp: Let_def less_SucI split: if_splits)

lemma varint64_loop_shrinks: "GetVarint64Ptr_loop i r xs = Some (v, rest) \<Longrightarrow> length rest < length xs"
  by (induction i r xs rule: GetVarint64Ptr_loop.induct) (auto simp: Let_def less_SucI split: if_splits)

lemma GetVarint32_shrinks: "GetVarint32 xs = Some (v, rest) \<Longrightarrow> length rest < length xs"
  by (auto simp: GetVarint32_def GetVarint32Ptr_def GetVarint32PtrFallback_def split: list.splits if_splits
      dest: varint32_loop_shrinks)

lemma GetVarint64_shrinks: "GetVarint64 xs = Some (v, rest) \<Longrightarrow> length rest < length xs"
  by (auto simp: GetVarint64_def GetVarint64Ptr_def dest: varint64_loop_shrinks)

lemma GetInternalKey_slice: "GetInternalKey = get_slice"
  by (rule ext) (simp add: GetInternalKey_def get_slice_def InternalKey_DecodeFrom_def split: prod.split option.split)

lemma get_slice_parts:
  assumes "get_slice xs = Some (s, rest)"
  shows "length rest < length xs" "length s \<le> length xs"
proof -
  obtain n ys where n: "GetVarint32 xs = Some (n, ys)" "unat n \<le> length ys" "s = take (unat n) ys" "rest = drop (unat n) ys"
    using assms by (auto simp: get_slice_def GetLengthPrefixedSlice_def split: option.splits prod.splits if_splits)
  with GetVarint32_shrinks [OF n(1)] show "length rest < length xs" "length s \<le> length xs" by auto
qed

lemma GetLevel_parts:
  assumes "GetLevel xs = Some (l, rest)"
  shows "length rest < length xs" "0 \<le> l" "l < kNumLevels"
  using assms by (auto simp: GetLevel_def dest: GetVarint32_shrinks split: if_splits)

lemma decode_field_shrinks:
  assumes "decode_field tag input ve = Inr (ve', rest)"
  shows "length rest < length input"
  using assms
  by (auto simp: decode_field_def decoded_def GetInternalKey_slice split: if_splits option.splits
      dest!: GetVarint64_shrinks GetLevel_parts(1) get_slice_parts(1))

function decode_loop :: "byte list \<Rightarrow> version_edit \<Rightarrow> string option \<times> version_edit \<times> byte list" where
  "decode_loop input ve =
     (case GetVarint32 input of
        None \<Rightarrow> (None, ve, input)
      | Some (tag, rest) \<Rightarrow>
          (case decode_field tag rest ve of
             Inl msg \<Rightarrow> (Some msg, ve, rest)
           | Inr (ve, rest) \<Rightarrow> decode_loop rest ve))"
  by pat_completeness auto
termination
  by (relation "measure (length \<circ> fst)") (auto dest!: GetVarint32_shrinks decode_field_shrinks)

declare decode_loop.simps [simp del]

definition VersionEdit_DecodeFrom :: "byte list \<Rightarrow> version_edit \<Rightarrow> status \<times> version_edit" where
  "VersionEdit_DecodeFrom src ve =
     (let (msg, ve, input) = decode_loop src (VersionEdit_Clear ve);
          msg = (if msg = None \<and> input \<noteq> [] then Some ''invalid tag'' else msg)
      in (case msg of None \<Rightarrow> OK | Some msg \<Rightarrow> Corruption (ascii ''VersionEdit: '' @ ascii msg), ve))"

section \<open>Edits as sequences of calls\<close>

text \<open>A field of the encoding, and the operation that it stands for.\<close>

datatype edit_field =
  Comparator_field "byte list"
| Log_field u64
| Prev_log_field u64
| Next_file_field u64
| Last_sequence_field u64
| Pointer_field int InternalKey
| Deleted_field int u64
| File_field int u64 u64 InternalKey InternalKey

primrec set_field :: "edit_field \<Rightarrow> version_edit \<Rightarrow> version_edit" where
  "set_field (Comparator_field s) = SetComparatorName s"
| "set_field (Log_field n) = SetLogNumber n"
| "set_field (Prev_log_field n) = SetPrevLogNumber n"
| "set_field (Next_file_field n) = SetNextFile n"
| "set_field (Last_sequence_field n) = SetLastSequence n"
| "set_field (Pointer_field l k) = SetCompactPointer l k"
| "set_field (Deleted_field l n) = VersionEdit_DeleteFile l n"
| "set_field (File_field l n s a b) = AddFile l n s a b"

primrec field_tag_number :: "edit_field \<Rightarrow> u32" where
  "field_tag_number (Comparator_field s) = kComparator"
| "field_tag_number (Log_field n) = kLogNumber"
| "field_tag_number (Prev_log_field n) = kPrevLogNumber"
| "field_tag_number (Next_file_field n) = kNextFileNumber"
| "field_tag_number (Last_sequence_field n) = kLastSequence"
| "field_tag_number (Pointer_field l k) = kCompactPointer"
| "field_tag_number (Deleted_field l n) = kDeletedFile"
| "field_tag_number (File_field l n s a b) = kNewFile"

abbreviation level_bytes :: "int \<Rightarrow> byte list" where
  "level_bytes l \<equiv> EncodeVarint32 (of_int l)"

primrec field_contents :: "edit_field \<Rightarrow> byte list" where
  "field_contents (Comparator_field s) = PutLengthPrefixedSlice [] s"
| "field_contents (Log_field n) = EncodeVarint64 n"
| "field_contents (Prev_log_field n) = EncodeVarint64 n"
| "field_contents (Next_file_field n) = EncodeVarint64 n"
| "field_contents (Last_sequence_field n) = EncodeVarint64 n"
| "field_contents (Pointer_field l k) = level_bytes l @ PutLengthPrefixedSlice [] k"
| "field_contents (Deleted_field l n) = level_bytes l @ EncodeVarint64 n"
| "field_contents (File_field l n s a b) = level_bytes l @ EncodeVarint64 n @ EncodeVarint64 s @
     PutLengthPrefixedSlice [] a @ PutLengthPrefixedSlice [] b"

definition edit_bytes :: "edit_field list \<Rightarrow> byte list" where
  "edit_bytes fs = concat (map (\<lambda>f. EncodeVarint32 (field_tag_number f) @ field_contents f) fs)"

definition level_ok :: "int \<Rightarrow> bool" where
  "level_ok l \<longleftrightarrow> 0 \<le> l \<and> l < kNumLevels"

primrec field_ok :: "edit_field \<Rightarrow> bool" where
  "field_ok (Comparator_field s) = slice_ok s"
| "field_ok (Log_field n) = True"
| "field_ok (Prev_log_field n) = True"
| "field_ok (Next_file_field n) = True"
| "field_ok (Last_sequence_field n) = True"
| "field_ok (Pointer_field l k) = (level_ok l \<and> slice_ok k)"
| "field_ok (Deleted_field l n) = level_ok l"
| "field_ok (File_field l n s a b) = (level_ok l \<and> slice_ok a \<and> slice_ok b)"

lemma GetLevel_level: "level_ok l \<Longrightarrow> GetLevel (level_bytes l @ rest) = Some (l, rest)"
proof -
  assume l: "level_ok l"
  then have "uint (of_int l :: u32) = l" by (simp add: level_ok_def kNumLevels_def unsigned_of_int take_bit_int_eq_self_iff)
  with l show ?thesis by (simp add: GetLevel_def varint32_codec.get_put level_ok_def)
qed

lemma decode_field_contents:
  "field_ok f \<Longrightarrow> decode_field (field_tag_number f) (field_contents f @ rest) ve = Inr (set_field f ve, rest)"
  by (cases f)
    (simp_all add: decode_field_def decoded_def c_defs GetInternalKey_slice GetLevel_level slice_codec.get_put varint64_codec.get_put
      SetComparatorName_def SetLogNumber_def SetPrevLogNumber_def SetNextFile_def SetLastSequence_def SetCompactPointer_def
      VersionEdit_DeleteFile_def AddFile_def)

lemma decode_loop_fields:
  "\<forall>f \<in> set fs. field_ok f \<Longrightarrow> decode_loop (edit_bytes fs) ve = (None, fold set_field fs ve, [])"
proof (induction fs arbitrary: ve)
  case Nil
  then show ?case by (simp add: edit_bytes_def decode_loop.simps [of "[]"] GetVarint32_def GetVarint32Ptr_def GetVarint32PtrFallback_def)
next
  case (Cons f fs)
  have "edit_bytes (f # fs) = EncodeVarint32 (field_tag_number f) @ field_contents f @ edit_bytes fs"
    by (simp add: edit_bytes_def)
  with Cons show ?case
    by (simp add: decode_loop.simps [of "EncodeVarint32 (field_tag_number f) @ _"] varint32_codec.get_put decode_field_contents)
qed
definition edit_fields :: "version_edit \<Rightarrow> edit_field list" where
  "edit_fields ve =
     (if ve_has_comparator ve then [Comparator_field (ve_comparator ve)] else []) @
     (if ve_has_log_number ve then [Log_field (ve_log_number ve)] else []) @
     (if ve_has_prev_log_number ve then [Prev_log_field (ve_prev_log_number ve)] else []) @
     (if ve_has_next_file_number ve then [Next_file_field (ve_next_file_number ve)] else []) @
     (if ve_has_last_sequence ve then [Last_sequence_field (ve_last_sequence ve)] else []) @
     map (\<lambda>p. Pointer_field (fst p) (snd p)) (ve_compact_pointers ve) @
     map (\<lambda>d. Deleted_field (fst d) (snd d)) (ve_deleted_files ve) @
     map (\<lambda>n. File_field (fst n) (fm_number (snd n)) (fm_file_size (snd n)) (fm_smallest (snd n)) (fm_largest (snd n))) (ve_new_files ve)"

text \<open>No internal key is invalid.\<close>

definition storable :: "version_edit \<Rightarrow> bool" where
  "storable ve \<longleftrightarrow> (\<forall>p \<in> set (ve_compact_pointers ve). snd p \<noteq> []) \<and>
     (\<forall>n \<in> set (ve_new_files ve). fm_smallest (snd n) \<noteq> [] \<and> fm_largest (snd n) \<noteq> [])"

definition fresh_file :: "FileMetaData \<Rightarrow> bool" where
  "fresh_file f \<longleftrightarrow> fm_refs f = fm_refs new_FileMetaData \<and> fm_allowed_seeks f = fm_allowed_seeks new_FileMetaData"

text \<open>What holds of an edit in any state.\<close>

definition edit_ok :: "version_edit \<Rightarrow> bool" where
  "edit_ok ve \<longleftrightarrow> slice_ok (ve_comparator ve) \<and>
     (\<forall>p \<in> set (ve_compact_pointers ve). level_ok (fst p) \<and> slice_ok (snd p)) \<and>
     (\<forall>d \<in> set (ve_deleted_files ve). level_ok (fst d)) \<and> sorted_wrt (<) (ve_deleted_files ve) \<and>
     (\<forall>n \<in> set (ve_new_files ve). level_ok (fst n) \<and> fresh_file (snd n) \<and>
        slice_ok (fm_smallest (snd n)) \<and> slice_ok (fm_largest (snd n))) \<and>
     (\<not> ve_has_comparator ve \<longrightarrow> ve_comparator ve = []) \<and> (\<not> ve_has_log_number ve \<longrightarrow> ve_log_number ve = 0) \<and>
     (\<not> ve_has_prev_log_number ve \<longrightarrow> ve_prev_log_number ve = 0) \<and>
     (\<not> ve_has_next_file_number ve \<longrightarrow> ve_next_file_number ve = 0) \<and>
     (\<not> ve_has_last_sequence ve \<longrightarrow> ve_last_sequence ve = 0)"

lemma Put_append:
  "PutVarint32 dst v = dst @ EncodeVarint32 v" "PutVarint64 dst w = dst @ EncodeVarint64 w"
  by (simp_all add: PutVarint32_def PutVarint64_def)

lemma edit_bytes_simps [simp]:
  "edit_bytes [] = []"
  "edit_bytes (f # fs) = EncodeVarint32 (field_tag_number f) @ field_contents f @ edit_bytes fs"
  "edit_bytes (fs @ gs) = edit_bytes fs @ edit_bytes gs"
  by (simp_all add: edit_bytes_def)

lemma encode_number_bytes: "encode_number has tag n dst = dst @ (if has then EncodeVarint32 tag @ EncodeVarint64 n else [])"
  by (simp add: encode_number_def Put_append)

lemma encode_pointers_bytes:
  "\<forall>p \<in> set ps. snd p \<noteq> [] \<Longrightarrow>
    encode_pointers ps dst = Some (dst @ edit_bytes (map (\<lambda>p. Pointer_field (fst p) (snd p)) ps))"
  by (induction ps arbitrary: dst)
    (simp_all add: InternalKey_Encode_def Put_append PutLengthPrefixedSlice_append [of "_ @ _"])

lemma encode_deleted_bytes:
  "encode_deleted ds dst = dst @ edit_bytes (map (\<lambda>d. Deleted_field (fst d) (snd d)) ds)"
  by (induction ds arbitrary: dst) (simp_all add: Put_append)

lemma encode_new_files_bytes:
  "\<forall>n \<in> set ns. fm_smallest (snd n) \<noteq> [] \<and> fm_largest (snd n) \<noteq> [] \<Longrightarrow> encode_new_files ns dst = Some (dst @ edit_bytes
    (map (\<lambda>n. File_field (fst n) (fm_number (snd n)) (fm_file_size (snd n)) (fm_smallest (snd n)) (fm_largest (snd n))) ns))"
  by (induction ns arbitrary: dst)
    (simp_all add: InternalKey_Encode_def Put_append PutLengthPrefixedSlice_append [of "_ @ _"] Let_def)

lemma EncodeTo_bytes:
  assumes "storable ve"
  shows "VersionEdit_EncodeTo ve dst = Some (dst @ edit_bytes (edit_fields ve))"
proof -
  have "\<forall>p \<in> set (ve_compact_pointers ve). snd p \<noteq> []"
    "\<forall>n \<in> set (ve_new_files ve). fm_smallest (snd n) \<noteq> [] \<and> fm_largest (snd n) \<noteq> []"
    using assms by (simp_all add: storable_def)
  then show ?thesis
    by (simp add: VersionEdit_EncodeTo_def edit_fields_def encode_number_bytes encode_pointers_bytes encode_deleted_bytes
        encode_new_files_bytes Put_append PutLengthPrefixedSlice_append [of "_ @ _"])
qed

lemma fields_ok:
  assumes "edit_ok ve"
  shows "\<forall>f \<in> set (edit_fields ve). field_ok f"
proof -
  have "\<forall>p \<in> set (ve_compact_pointers ve). level_ok (fst p) \<and> slice_ok (snd p)"
    "\<forall>d \<in> set (ve_deleted_files ve). level_ok (fst d)" "slice_ok (ve_comparator ve)"
    "\<forall>n \<in> set (ve_new_files ve). level_ok (fst n) \<and> slice_ok (fm_smallest (snd n)) \<and> slice_ok (fm_largest (snd n))"
    using assms by (simp_all add: edit_ok_def)
  then show ?thesis by (simp add: edit_fields_def ball_Un)
qed

lemmas setters = SetComparatorName_def SetLogNumber_def SetPrevLogNumber_def SetNextFile_def SetLastSequence_def
  SetCompactPointer_def VersionEdit_DeleteFile_def AddFile_def

lemma insort_insert_behind: "\<forall>y \<in> set ys. y < (x :: 'a::linorder) \<Longrightarrow> insort_insert x ys = ys @ [x]"
proof -
  assume ys: "\<forall>y \<in> set ys. y < x"
  then have "insort x ys = ys @ [x]" by (induction ys) auto
  with ys show ?thesis by (auto simp: insort_insert_key_def)
qed

lemma replay_pointers:
  "fold set_field (map (\<lambda>p. Pointer_field (fst p) (snd p)) ps) ve = ve\<lparr>ve_compact_pointers := ve_compact_pointers ve @ ps\<rparr>"
  by (induction ps arbitrary: ve) (simp_all add: setters)

lemma replay_deleted:
  "sorted_wrt (<) (ve_deleted_files ve @ ds) \<Longrightarrow>
    fold set_field (map (\<lambda>d. Deleted_field (fst d) (snd d)) ds) ve = ve\<lparr>ve_deleted_files := ve_deleted_files ve @ ds\<rparr>"
proof (induction ds arbitrary: ve)
  case (Cons d ds)
  have "insort_insert d (ve_deleted_files ve) = ve_deleted_files ve @ [d]"
    using Cons.prems by (intro insort_insert_behind) (simp add: sorted_wrt_append)
  with Cons show ?case by (simp add: setters)
qed simp

lemma replay_files:
  "\<forall>n \<in> set ns. fresh_file (snd n) \<Longrightarrow>
    fold set_field (map (\<lambda>n. File_field (fst n) (fm_number (snd n)) (fm_file_size (snd n)) (fm_smallest (snd n)) (fm_largest (snd n))) ns) ve =
    ve\<lparr>ve_new_files := ve_new_files ve @ ns\<rparr>"
  by (induction ns arbitrary: ve) (auto simp: setters fresh_file_def)

lemma replay_edit:
  assumes "edit_ok ve"
  shows "fold set_field (edit_fields ve) (VersionEdit_Clear old) =
    ve\<lparr>ve_compact_pointers := ve_compact_pointers old @ ve_compact_pointers ve\<rparr>"
  using assms
  by (auto simp: edit_fields_def edit_ok_def replay_pointers replay_deleted replay_files VersionEdit_Clear_def setters
      intro!: version_edit.equality)
lemma DecodeFrom_EncodeTo:
  assumes "edit_ok ve" "storable ve"
  shows "\<exists>bytes. VersionEdit_EncodeTo ve [] = Some bytes \<and> (\<forall>old. VersionEdit_DecodeFrom bytes old =
    (OK, ve\<lparr>ve_compact_pointers := ve_compact_pointers old @ ve_compact_pointers ve\<rparr>))"
  using EncodeTo_bytes [OF assms(2), of "[]"] decode_loop_fields [OF fields_ok [OF assms(1)]] replay_edit [OF assms(1)]
  by (simp add: VersionEdit_DecodeFrom_def)

section \<open>Decoding any bytes\<close>

lemma slice_ok_short: "slice_ok xs \<Longrightarrow> length ys \<le> length xs \<Longrightarrow> slice_ok ys"
  by (simp add: slice_ok_def)

lemma get_slice_ok: "get_slice xs = Some (s, rest) \<Longrightarrow> slice_ok xs \<Longrightarrow> slice_ok s \<and> slice_ok rest"
  using get_slice_parts [of xs s rest] by (auto simp: slice_ok_def)

lemma GetVarint64_ok: "GetVarint64 xs = Some (v, rest) \<Longrightarrow> slice_ok xs \<Longrightarrow> slice_ok rest"
  using GetVarint64_shrinks [of xs v rest] by (auto simp: slice_ok_def)

lemma GetLevel_ok: "GetLevel xs = Some (l, rest) \<Longrightarrow> slice_ok xs \<Longrightarrow> level_ok l \<and> slice_ok rest"
  using GetLevel_parts [of xs l rest] by (auto simp: slice_ok_def level_ok_def)

text \<open>What is decoded is an operation with valid arguments.\<close>

lemma decode_field_sets:
  assumes "decode_field tag input ve = Inr (ve', rest)" "slice_ok input"
  obtains f where "field_ok f" "ve' = set_field f ve"
proof -
  have *: "P" if "decoded msg r g = Inr (ve', rest)" "\<And>x. r = Some (x, rest) \<Longrightarrow> ve' = g x \<Longrightarrow> P" for msg P and r :: "('a \<times> byte list) option" and g
    using that by (auto simp: decoded_def split: option.splits prod.splits)
  show thesis
  proof (cases "tag \<in> {kComparator, kLogNumber, kPrevLogNumber, kNextFileNumber, kLastSequence}")
    case True
    then consider "tag = kComparator" | "tag = kLogNumber" | "tag = kPrevLogNumber" | "tag = kNextFileNumber" | "tag = kLastSequence"
      by auto
    then show thesis
    proof cases
      case 1
      with assms that [of "Comparator_field _"] show thesis
        by (auto simp: decode_field_def setters dest: get_slice_ok elim!: *)
    next
      case 2
      with assms that [of "Log_field _"] show thesis by (auto simp: decode_field_def c_defs setters elim!: *)
    next
      case 3
      with assms that [of "Prev_log_field _"] show thesis by (auto simp: decode_field_def c_defs setters elim!: *)
    next
      case 4
      with assms that [of "Next_file_field _"] show thesis by (auto simp: decode_field_def c_defs setters elim!: *)
    next
      case 5
      with assms that [of "Last_sequence_field _"] show thesis by (auto simp: decode_field_def c_defs setters elim!: *)
    qed
  next
    case False
    then consider "tag = kCompactPointer" | "tag = kDeletedFile" | "tag = kNewFile"
      using assms(1) by (auto simp: decode_field_def split: if_splits)
    then show thesis
    proof cases
      case 1
      with assms that [of "Pointer_field _ _"] show thesis
        by (auto simp: decode_field_def c_defs setters GetInternalKey_slice elim!: * dest!: GetLevel_ok get_slice_ok)
    next
      case 2
      with assms that [of "Deleted_field _ _"] show thesis
        by (auto simp: decode_field_def c_defs setters elim!: * dest!: GetLevel_ok)
    next
      case 3
      with assms that [of "File_field _ _ _ _ _"] show thesis
        by (auto simp: decode_field_def c_defs setters GetInternalKey_slice elim!: * dest!: GetLevel_ok GetVarint64_ok get_slice_ok)
    qed
  qed
qed

lemma decode_loop_sets:
  assumes "decode_loop input ve = (msg, ve', rest)" "slice_ok input"
  shows "\<exists>fs. (\<forall>f \<in> set fs. field_ok f) \<and> ve' = fold set_field fs ve"
  using assms
proof (induction input ve rule: decode_loop.induct)
  case (1 input ve)
  show ?case
  proof (cases "GetVarint32 input")
    case None
    with 1(2) show ?thesis by (intro exI [of _ "[]"]) (simp add: decode_loop.simps [of input])
  next
    case (Some p)
    obtain tag xs where p: "p = (tag, xs)" by (cases p)
    have xs: "slice_ok xs" using GetVarint32_shrinks Some p 1(3) by (fastforce simp: slice_ok_def)
    show ?thesis
    proof (cases "decode_field tag xs ve")
      case (Inl m)
      with Some p 1(2) show ?thesis by (intro exI [of _ "[]"]) (simp add: decode_loop.simps [of input])
    next
      case (Inr q)
      obtain ve1 ys where q: "q = (ve1, ys)" by (cases q)
      with Inr obtain f where f: "field_ok f" "ve1 = set_field f ve" using xs by (auto elim: decode_field_sets)
      have ys: "slice_ok ys" using decode_field_shrinks [of tag xs ve ve1 ys] Inr q xs by (simp add: slice_ok_def)
      have "decode_loop ys ve1 = (msg, ve', rest)" using 1(2) Some p Inr q by (simp add: decode_loop.simps [of input])
      from 1(1) [OF Some p [symmetric] Inr q [symmetric] this ys] obtain fs where "\<forall>f \<in> set fs. field_ok f" "ve' = fold set_field fs ve1" by blast
      with f show ?thesis by (intro exI [of _ "f # fs"]) simp
    qed
  qed
qed

lemma set_field_keeps:
  assumes "field_ok f" "edit_ok ve"
  shows "edit_ok (set_field f ve)"
proof (cases f)
  case (Deleted_field l n)
  have "sorted_wrt (<) (insort_insert (l, n) (ve_deleted_files ve))"
    using assms(2) by (simp add: edit_ok_def strict_sorted_iff sorted_insort_insert distinct_insort_insert)
  with Deleted_field assms show ?thesis by (auto simp: edit_ok_def setters set_insort_insert)
qed (use assms in \<open>simp_all add: edit_ok_def setters fresh_file_def\<close>)

lemma set_fields_keep: "\<forall>f \<in> set fs. field_ok f \<Longrightarrow> edit_ok ve \<Longrightarrow> edit_ok (fold set_field fs ve)"
  by (induction fs arbitrary: ve) (simp_all add: set_field_keeps)

lemma Clear_keeps: "edit_ok ve \<Longrightarrow> edit_ok (VersionEdit_Clear ve)"
  by (simp add: edit_ok_def VersionEdit_Clear_def slice_ok_def)

lemma VersionEdit_ok: "edit_ok VersionEdit"
  by (simp add: edit_ok_def VersionEdit_def slice_ok_def)

lemma DecodeFrom_any:
  assumes "slice_ok src" "edit_ok old"
  obtains st ve where "VersionEdit_DecodeFrom src old = (st, ve)" "edit_ok ve"
    "st = OK \<or> (\<exists>msg. st = Corruption (ascii ''VersionEdit: '' @ msg))"
proof -
  obtain msg ve rest where r: "decode_loop src (VersionEdit_Clear old) = (msg, ve, rest)" by (rule prod_cases3)
  then have "edit_ok ve" using decode_loop_sets [OF r assms(1)] set_fields_keep Clear_keeps [OF assms(2)] by blast
  with r that show thesis by (auto simp: VersionEdit_DecodeFrom_def Let_def split: option.splits if_splits)
qed

end
