(* ===== verification/Ldb_Filename.thy ===== *)
theory Ldb_Filename
  imports Ldb_Format Ldb_Comparator Ldb_Log_Writer
begin

text \<open>
  Numbers as text, \<open>leveldb-library/util/logging.cc\<close>, and the names of files,
  \<open>db/filename.cc\<close>.  Reading a number is exact on every string: it gives the value of the
  decimal digits in front, and fails when that does not fit into 64 bits.  Reading a name
  gives the number and the type of file it was made for.
\<close>

section \<open>Printing numbers\<close>

text \<open>The conversions of \<open>snprintf\<close> that are used, and its limit.\<close>

definition digit :: "nat \<Rightarrow> byte" where
  "digit d = of_nat (48 + d)"

fun decimal :: "nat \<Rightarrow> byte list" where
  "decimal n = (if n < 10 then [digit n] else decimal (n div 10) @ [digit (n mod 10)])"

declare decimal.simps [simp del]

definition padded :: "nat \<Rightarrow> byte list \<Rightarrow> byte list" where
  "padded w s = replicate (w - length s) (digit 0) @ s"

definition snprintf :: "nat \<Rightarrow> byte list \<Rightarrow> byte list" where
  "snprintf n s = take (n - 1) s"

definition hex_digit :: "nat \<Rightarrow> byte" where
  "hex_digit d = (if d < 10 then digit d else of_nat (87 + d))"

definition AppendNumberTo :: "byte list \<Rightarrow> u64 \<Rightarrow> byte list" where
  "AppendNumberTo str num = (let buf = snprintf 30 (decimal (unat num)) in str @ buf)"

primrec AppendEscapedStringTo :: "byte list \<Rightarrow> byte list \<Rightarrow> byte list" where
  "AppendEscapedStringTo str [] = str"
| "AppendEscapedStringTo str (c # value) =
     (if sint c \<ge> 32 \<and> sint c \<le> 126 then AppendEscapedStringTo (str @ [c]) value
      else let buf = snprintf 10 (ascii [CHR 92, CHR ''x''] @ [hex_digit (unat c div 16), hex_digit (unat c mod 16)])
        in AppendEscapedStringTo (str @ buf) value)"

definition NumberToString :: "u64 \<Rightarrow> byte list" where
  "NumberToString num = AppendNumberTo [] num"

definition EscapeString :: "byte list \<Rightarrow> byte list" where
  "EscapeString value = AppendEscapedStringTo [] value"

section \<open>Reading numbers\<close>

definition kMaxUint64 :: u64 where [c_defs]: "kMaxUint64 = NOT 0"

text \<open>Whether the number is there, its value unless it overflows, and the rest of the slice.\<close>

fun consume_digits :: "u64 \<Rightarrow> nat \<Rightarrow> byte list \<Rightarrow> bool \<times> u64 option \<times> byte list" where
  "consume_digits v digits [] = (digits > 0, Some v, [])"
| "consume_digits v digits (c # rest) =
     (if 48 \<le> sint c \<and> sint c \<le> 57
      then let delta = ucast c - 48 :: u64
        in if v > kMaxUint64 div 10 \<or> v = kMaxUint64 div 10 \<and> delta > kMaxUint64 mod 10
           then (False, None, c # rest)
           else consume_digits (v * 10 + delta) (digits + 1) rest
      else (digits > 0, Some v, c # rest))"

definition ConsumeDecimalNumber :: "byte list \<Rightarrow> bool \<times> u64 option \<times> byte list" where
  "ConsumeDecimalNumber input = consume_digits 0 0 input"

section \<open>File names\<close>

datatype FileType = kLogFile | kDBLockFile | kTableFile | kDescriptorFile | kCurrentFile | kTempFile | kInfoLogFile

definition MakeFileName :: "byte list \<Rightarrow> u64 \<Rightarrow> string \<Rightarrow> byte list" where
  "MakeFileName name number suffix =
     (let buf = snprintf 100 (ascii ''/'' @ padded 6 (decimal (unat number)) @ ascii ''.'' @ ascii suffix) in name @ buf)"

definition LogFileName :: "byte list \<Rightarrow> u64 \<Rightarrow> byte list option" where
  "LogFileName name number = (if number > 0 then Some (MakeFileName name number ''log'') else None)"

definition TableFileName :: "byte list \<Rightarrow> u64 \<Rightarrow> byte list option" where
  "TableFileName name number = (if number > 0 then Some (MakeFileName name number ''ldb'') else None)"

definition SSTTableFileName :: "byte list \<Rightarrow> u64 \<Rightarrow> byte list option" where
  "SSTTableFileName name number = (if number > 0 then Some (MakeFileName name number ''sst'') else None)"

definition DescriptorFileName :: "byte list \<Rightarrow> u64 \<Rightarrow> byte list option" where
  "DescriptorFileName dbname number =
     (if number > 0 then Some (let buf = snprintf 100 (ascii ''/MANIFEST-'' @ padded 6 (decimal (unat number))) in dbname @ buf)
      else None)"

definition CurrentFileName :: "byte list \<Rightarrow> byte list" where
  "CurrentFileName dbname = dbname @ ascii ''/CURRENT''"

definition LockFileName :: "byte list \<Rightarrow> byte list" where
  "LockFileName dbname = dbname @ ascii ''/LOCK''"

definition TempFileName :: "byte list \<Rightarrow> u64 \<Rightarrow> byte list option" where
  "TempFileName dbname number = (if number > 0 then Some (MakeFileName dbname number ''dbtmp'') else None)"

definition InfoLogFileName :: "byte list \<Rightarrow> byte list" where
  "InfoLogFileName dbname = dbname @ ascii ''/LOG''"

definition OldInfoLogFileName :: "byte list \<Rightarrow> byte list" where
  "OldInfoLogFileName dbname = dbname @ ascii ''/LOG.old''"

definition ParseFileName :: "byte list \<Rightarrow> (u64 \<times> FileType) option" where
  "ParseFileName fname =
     (if fname = ascii ''CURRENT'' then Some (0, kCurrentFile)
      else if fname = ascii ''LOCK'' then Some (0, kDBLockFile)
      else if fname = ascii ''LOG'' \<or> fname = ascii ''LOG.old'' then Some (0, kInfoLogFile)
      else if starts_with fname (ascii ''MANIFEST-'') then
        (case ConsumeDecimalNumber (drop 9 fname) of
           (True, Some num, rest) \<Rightarrow> if rest \<noteq> [] then None else Some (num, kDescriptorFile)
         | _ \<Rightarrow> None)
      else
        (case ConsumeDecimalNumber fname of
           (True, Some num, suffix) \<Rightarrow>
             if suffix = ascii ''.log'' then Some (num, kLogFile)
             else if suffix = ascii ''.sst'' \<or> suffix = ascii ''.ldb'' then Some (num, kTableFile)
             else if suffix = ascii ''.dbtmp'' then Some (num, kTempFile)
             else None
         | _ \<Rightarrow> None))"
section \<open>Digits\<close>

definition is_digit :: "byte \<Rightarrow> bool" where
  "is_digit c \<longleftrightarrow> 48 \<le> unat c \<and> unat c \<le> 57"

definition digits_value :: "byte list \<Rightarrow> nat" where
  "digits_value = foldl (\<lambda>n c. 10 * n + (unat c - 48)) 0"

lemma signed_char: "0 \<le> (k :: int) \<Longrightarrow> k < 256 \<Longrightarrow> signed_take_bit 7 k = (if k < 128 then k else k - 256)"
proof -
  assume k: "0 \<le> k" "k < 256"
  then have "k div 128 = (if 128 \<le> k then 1 else 0)" by (simp add: div_pos_geq)
  then have "bit k 7 \<longleftrightarrow> 128 \<le> k" by (simp add: bit_iff_odd)
  with k show ?thesis by (simp add: signed_take_bit_eq_take_bit_minus take_bit_int_eq_self_iff)
qed

lemma sint_char: "sint (c :: byte) = (if unat c < 128 then int (unat c) else int (unat c) - 256)"
proof -
  have u: "uint c = int (unat c)" by simp
  have "unat c < 256" using unsigned_less [of c] by simp
  then have "signed_take_bit 7 (int (unat c)) = (if int (unat c) < 128 then int (unat c) else int (unat c) - 256)"
    by (intro signed_char) linarith+
  moreover have "sint c = signed_take_bit 7 (int (unat c))" unfolding u [symmetric] by (simp add: sint_uint)
  ultimately show ?thesis by (simp only: of_nat_less_numeral_iff)
qed

lemma char_between: "n < 256 \<Longrightarrow>
    (48 \<le> (if n < 128 then int n else int n - 256) \<and> (if n < 128 then int n else int n - 256) \<le> 57) = (48 \<le> n \<and> n \<le> 57)"
  by auto

lemma char_digit: "48 \<le> sint (c :: byte) \<and> sint c \<le> 57 \<longleftrightarrow> is_digit c"
proof -
  have "unat c < 256" using unsigned_less [of c] by simp
  then show ?thesis unfolding sint_char is_digit_def by (rule char_between)
qed

lemma u64_less: "unat (v :: u64) < 18446744073709551616"
  using unsigned_less [of v] by simp

lemma unat_digit [simp]: "d < 10 \<Longrightarrow> unat (digit d) = 48 + d"
  unfolding digit_def by (subst unat_of_nat) simp

lemma is_digit_digit [simp]: "d < 10 \<Longrightarrow> is_digit (digit d)"
  by (simp add: is_digit_def)

lemma decimal_digits: "\<forall>c \<in> set (decimal n). is_digit c"
proof (induction n rule: decimal.induct)
  case (1 n)
  then show ?case by (cases "n < 10") (simp_all add: decimal.simps [of n])
qed

lemma decimal_nonempty [simp]: "decimal n \<noteq> []"
  by (simp add: decimal.simps [of n])

lemma digits_value_snoc [simp]: "digits_value (s @ [c]) = 10 * digits_value s + (unat c - 48)"
  by (simp add: digits_value_def)

lemma digits_value_Nil [simp]: "digits_value [] = 0"
  by (simp add: digits_value_def)

lemma digits_value_decimal: "digits_value (decimal n) = n"
proof (induction n rule: decimal.induct)
  case (1 n)
  show ?case
  proof (cases "n < 10")
    case True
    then show ?thesis using digits_value_snoc [of "[]" "digit n"] by (simp add: decimal.simps [of n] del: digits_value_snoc)
  next
    case False
    with 1 show ?thesis by (simp add: decimal.simps [of n] digits_value_snoc)
  qed
qed

lemma digits_value_zeros: "digits_value (replicate k (digit 0) @ s) = digits_value s"
proof -
  have "foldl (\<lambda>n c. 10 * n + (unat c - 48)) 0 (replicate k (digit 0)) = (0 :: nat)"
    by (induction k) simp_all
  then show ?thesis by (simp add: digits_value_def)
qed

lemma digits_value_padded: "digits_value (padded w (decimal n)) = n"
  by (simp add: padded_def digits_value_zeros digits_value_decimal)

lemma padded_digits: "\<forall>c \<in> set (padded w (decimal n)). is_digit c"
  using decimal_digits by (auto simp: padded_def)

lemma length_decimal: "n < 10 ^ k \<Longrightarrow> 0 < k \<Longrightarrow> length (decimal n) \<le> k"
proof (induction k arbitrary: n)
  case (Suc k)
  show ?case
  proof (cases "n < 10")
    case True
    then show ?thesis by (simp add: decimal.simps [of n])
  next
    case False
    with Suc.prems have "n div 10 < 10 ^ k" "0 < k" by (auto simp: less_mult_imp_div_less intro!: gr0I)
    with Suc.IH [of "n div 10"] False show ?thesis by (simp add: decimal.simps [of n])
  qed
qed simp

lemma length_decimal_u64: "length (decimal (unat (n :: u64))) \<le> 20"
proof (rule length_decimal)
  show "unat n < 10 ^ 20" using u64_less [of n] by simp
qed simp

section \<open>Reading is exact\<close>

lemma unat_max: "unat kMaxUint64 = 2 ^ 64 - 1"
  by (simp add: kMaxUint64_def unsigned_minus_1_eq_mask mask_eq_exp_minus_1)

lemma delta_value:
  assumes "is_digit c"
  shows "unat (ucast c - 48 :: u64) = unat c - 48"
proof -
  have "unat (ucast c :: u64) = unat c" by (simp add: unat_ucast_up)
  with assms show ?thesis by (simp add: is_digit_def unat_sub word_le_nat_alt)
qed

lemma overflow_exact:
  assumes "is_digit c"
  shows "(v > kMaxUint64 div 10 \<or> v = kMaxUint64 div 10 \<and> (ucast c - 48 :: u64) > kMaxUint64 mod 10) \<longleftrightarrow>
    2 ^ 64 \<le> 10 * unat v + (unat c - 48)"
  using assms
  by (simp add: word_less_nat_alt word_eq_iff_unsigned [where ?'a = nat] unat_div unat_mod unat_max delta_value)
    (simp add: is_digit_def, arith)

lemma step_value:
  assumes "is_digit c" "10 * unat v + (unat c - 48) < 2 ^ 64"
  shows "unat (v * 10 + (ucast c - 48) :: u64) = 10 * unat v + (unat c - 48)"
  using assms by (simp add: unat_word_ariths delta_value mult.commute)

lemma digits_value_from:
  "foldl (\<lambda>n c. 10 * n + (unat c - 48)) m ds = m * 10 ^ length ds + digits_value ds"
  for ds :: "byte list"
proof (induction ds rule: rev_induct)
  case (snoc c ds)
  then show ?case by (simp add: algebra_simps)
qed simp

lemma consume_digits_exact:
  "consume_digits v k s =
    (let ds = takeWhile is_digit s; n = unat v * 10 ^ length ds + digits_value ds
     in if n < 2 ^ 64 then (0 < k + length ds, Some (of_nat n), dropWhile is_digit s)
        else (False, None, snd (snd (consume_digits v k s))))"
proof (induction s arbitrary: v k)
  case Nil
  then show ?case using u64_less [of v] by (simp add: Let_def)
next
  case (Cons c s)
  show ?case
  proof (cases "is_digit c")
    case False
    then show ?thesis using u64_less [of v] by (simp add: char_digit Let_def)
  next
    case True
    let ?m = "10 * unat v + (unat c - 48)" and ?ds = "takeWhile is_digit s"
    have step: "consume_digits v k (c # s) =
        (if 2 ^ 64 \<le> ?m then (False, None, c # s) else consume_digits (v * 10 + (ucast c - 48)) (k + 1) s)"
      unfolding consume_digits.simps Let_def char_digit overflow_exact [OF True] using True by simp
    have ds: "takeWhile is_digit (c # s) = c # ?ds" "dropWhile is_digit (c # s) = dropWhile is_digit s"
      using True by simp_all
    have n: "unat v * 10 ^ length (c # ?ds) + digits_value (c # ?ds) = ?m * 10 ^ length ?ds + digits_value ?ds"
      using digits_value_from [of "unat c - 48" ?ds] by (simp add: digits_value_def algebra_simps)
    show ?thesis
    proof (cases "?m < 2 ^ 64")
      case False
      then have big: "2 ^ 64 \<le> ?m" by simp
      also have "?m * 1 \<le> ?m * 10 ^ length ?ds" by (intro mult_le_mono) simp_all
      finally have less: "\<not> ?m * 10 ^ length ?ds + digits_value ?ds < 2 ^ 64" by simp
      show ?thesis unfolding Let_def ds n step if_P [OF big] if_not_P [OF less] by simp
    next
      case fits: True
      have less: "\<not> 2 ^ 64 \<le> ?m" using fits by simp
      have "0 < k + 1 + length ?ds \<longleftrightarrow> 0 < k + length (c # ?ds)" by simp
      from Cons.IH [of "v * 10 + (ucast c - 48)" "k + 1", unfolded step_value [OF True fits] Let_def this]
      show ?thesis unfolding step if_not_P [OF less] Let_def ds n .
    qed
  qed
qed

lemma Consume_exact:
  "ConsumeDecimalNumber s =
    (let ds = takeWhile is_digit s
     in if digits_value ds < 2 ^ 64 then (ds \<noteq> [], Some (of_nat (digits_value ds)), dropWhile is_digit s)
        else (False, None, snd (snd (ConsumeDecimalNumber s))))"
  unfolding ConsumeDecimalNumber_def by (subst consume_digits_exact) (simp add: Let_def)

lemma Consume_digits:
  assumes "\<forall>c \<in> set ds. is_digit c" "ds \<noteq> []" "digits_value ds < 2 ^ 64" "rest = [] \<or> \<not> is_digit (hd rest)"
  shows "ConsumeDecimalNumber (ds @ rest) = (True, Some (of_nat (digits_value ds)), rest)"
proof -
  have "takeWhile is_digit (ds @ rest) = ds" "dropWhile is_digit (ds @ rest) = rest"
    using assms(1,4) by (cases rest; simp)+
  with assms(2,3) show ?thesis by (simp add: Consume_exact [of "ds @ rest"])
qed
section \<open>Names are read back\<close>

text \<open>The buffers of the code are long enough.\<close>

lemma NumberToString_decimal: "NumberToString n = decimal (unat n)"
  using length_decimal_u64 [of n] by (simp add: NumberToString_def AppendNumberTo_def snprintf_def)

lemma padded_length: "length (padded 6 (decimal (unat (n :: u64)))) \<le> 20"
  using length_decimal_u64 [of n] by (simp add: padded_def)

lemma padded_nonempty: "padded w (decimal n) \<noteq> []"
  by (simp add: padded_def)

lemma length_ascii [simp]: "length (ascii s) = length s"
  by (simp add: ascii_def)

lemma MakeFileName_whole:
  "length suffix \<le> 10 \<Longrightarrow> MakeFileName name n suffix =
    name @ ascii ''/'' @ padded 6 (decimal (unat n)) @ ascii ''.'' @ ascii suffix"
  using padded_length [of n] by (simp add: MakeFileName_def snprintf_def Let_def)

lemma DescriptorFileName_whole:
  "n > 0 \<Longrightarrow> DescriptorFileName name n = Some (name @ ascii ''/'' @ ascii ''MANIFEST-'' @ padded 6 (decimal (unat n)))"
  using padded_length [of n] by (simp add: DescriptorFileName_def snprintf_def Let_def ascii_def)

lemma Consume_padded:
  assumes "rest = [] \<or> \<not> is_digit (hd rest)"
  shows "ConsumeDecimalNumber (padded 6 (decimal (unat n)) @ rest) = (True, Some n, rest)"
  using Consume_digits [OF padded_digits padded_nonempty _ assms] u64_less [of n]
  by (simp add: digits_value_padded)

lemma padded_first: "\<exists>c s. padded w (decimal n) = c # s \<and> is_digit c"
  using padded_nonempty [of w n] padded_digits [of w n] by (cases "padded w (decimal n)") auto

lemma not_word:
  assumes "\<not> is_digit (hd s)" "s \<noteq> []"
  shows "padded w (decimal n) @ rest \<noteq> s" "\<not> starts_with (padded w (decimal n) @ rest) s"
  using padded_first [of w n] assms by (auto simp: starts_with_iff neq_Nil_conv)

lemma Parse_numbered:
  "ParseFileName (padded 6 (decimal (unat n)) @ suffix) =
    (if suffix = ascii ''.log'' then Some (n, kLogFile)
     else if suffix = ascii ''.sst'' \<or> suffix = ascii ''.ldb'' then Some (n, kTableFile)
     else if suffix = ascii ''.dbtmp'' then Some (n, kTempFile) else None)"
  if "suffix = ascii s" "s \<in> {''.log'', ''.sst'', ''.ldb'', ''.dbtmp''}"
proof -
  have dot: "suffix = [] \<or> \<not> is_digit (hd suffix)" using that by (auto simp: ascii_def is_digit_def)
  have upper: "\<not> is_digit (hd (ascii t))" "ascii t \<noteq> []" if "t \<in> {''CURRENT'', ''LOCK'', ''LOG'', ''LOG.old'', ''MANIFEST-''}" for t
    using that by (auto simp: ascii_def is_digit_def)
  show ?thesis
    by (simp add: ParseFileName_def not_word [OF upper] Consume_padded [OF dot])
qed

lemma Parse_descriptor: "ParseFileName (ascii ''MANIFEST-'' @ padded 6 (decimal (unat n))) = Some (n, kDescriptorFile)"
proof -
  have "starts_with (ascii ''MANIFEST-'' @ padded 6 (decimal (unat n))) (ascii ''MANIFEST-'')" by (auto simp: starts_with_iff)
  moreover have "ascii ''MANIFEST-'' @ padded 6 (decimal (unat n)) \<noteq> ascii t" if "t \<in> {''CURRENT'', ''LOCK'', ''LOG'', ''LOG.old''}" for t
    using that by (auto simp: ascii_def)
  ultimately show ?thesis
    using Consume_padded [of "[]" n] by (simp add: ParseFileName_def)
qed

text \<open>What the names of a database are read as, without its directory.\<close>

definition owned_file :: "byte list \<Rightarrow> u64 \<Rightarrow> (byte list option \<times> FileType) list" where
  "owned_file dbname n = [(LogFileName dbname n, kLogFile), (TableFileName dbname n, kTableFile), (SSTTableFileName dbname n, kTableFile),
     (TempFileName dbname n, kTempFile), (DescriptorFileName dbname n, kDescriptorFile)]"

definition fixed_file :: "byte list \<Rightarrow> (byte list \<times> FileType) list" where
  "fixed_file dbname = [(CurrentFileName dbname, kCurrentFile), (LockFileName dbname, kDBLockFile), (InfoLogFileName dbname, kInfoLogFile),
     (OldInfoLogFileName dbname, kInfoLogFile)]"

lemma ascii_append: "ascii (s @ t) = ascii s @ ascii t"
  by (simp add: ascii_def)

lemma MakeFileName_read:
  assumes "(t, ty) \<in> {(''log'', kLogFile), (''ldb'', kTableFile), (''sst'', kTableFile), (''dbtmp'', kTempFile)}"
  shows "\<exists>base. MakeFileName dbname n t = dbname @ ascii ''/'' @ base \<and> ParseFileName base = Some (n, ty)"
proof (intro exI conjI)
  show "MakeFileName dbname n t = dbname @ ascii ''/'' @ padded 6 (decimal (unat n)) @ ascii (''.'' @ t)"
  proof -
    have "length t \<le> 10" using assms by auto
    then show ?thesis by (simp only: MakeFileName_whole ascii_append)
  qed
  have "''.'' @ t \<in> {''.log'', ''.sst'', ''.ldb'', ''.dbtmp''}" using assms by auto
  from Parse_numbered [OF refl this, of n] show "ParseFileName (padded 6 (decimal (unat n)) @ ascii (''.'' @ t)) = Some (n, ty)"
    using assms by (auto simp: ascii_def)
qed

lemma owned_file_read:
  assumes "n > 0" "(f, t) \<in> set (owned_file dbname n)"
  shows "\<exists>base. f = Some (dbname @ ascii ''/'' @ base) \<and> ParseFileName base = Some (n, t)"
proof -
  consider (made) s where "f = Some (MakeFileName dbname n s)"
      "(s, t) \<in> {(''log'', kLogFile), (''ldb'', kTableFile), (''sst'', kTableFile), (''dbtmp'', kTempFile)}"
    | (descriptor) "f = DescriptorFileName dbname n" "t = kDescriptorFile"
    using assms by (fastforce simp: owned_file_def LogFileName_def TableFileName_def SSTTableFileName_def TempFileName_def)
  then show ?thesis
  proof cases
    case made
    with MakeFileName_read [OF made(2), of dbname n] show ?thesis by simp
  next
    case descriptor
    with DescriptorFileName_whole [OF assms(1)] Parse_descriptor [of n] show ?thesis by simp
  qed
qed

lemma fixed_file_read:
  assumes "(f, t) \<in> set (fixed_file dbname)"
  shows "\<exists>base. f = dbname @ ascii ''/'' @ base \<and> ParseFileName base = Some (0, t)"
proof -
  have "ascii ''/CURRENT'' = ascii ''/'' @ ascii ''CURRENT''" "ascii ''/LOCK'' = ascii ''/'' @ ascii ''LOCK''"
    "ascii ''/LOG'' = ascii ''/'' @ ascii ''LOG''" "ascii ''/LOG.old'' = ascii ''/'' @ ascii ''LOG.old''"
    by (simp_all only: ascii_append [symmetric] append.simps)
  with assms obtain s where s: "f = dbname @ ascii ''/'' @ ascii s"
      "(s, t) \<in> {(''CURRENT'', kCurrentFile), (''LOCK'', kDBLockFile), (''LOG'', kInfoLogFile), (''LOG.old'', kInfoLogFile)}"
    unfolding fixed_file_def CurrentFileName_def LockFileName_def InfoLogFileName_def OldInfoLogFileName_def
    by (simp only: set_simps insert_iff empty_iff prod.inject) metis
  moreover have "ParseFileName (ascii s) = Some (0, t)" using s(2) by (auto simp: ParseFileName_def ascii_def)
  ultimately show ?thesis by blast
qed
section \<open>The file that names the manifest\<close>

text \<open>
  The operations of \<open>Env\<close> and \<open>WritableFile\<close> (\<open>leveldb/env.h\<close>) that are used; \<open>'e\<close> is the state of the
  file system and \<open>'f\<close> an open file.  Deleting an open file object closes it, which is not
  seen here.
\<close>

record ('e, 'f) env =
  env_NewWritableFile :: "byte list \<Rightarrow> 'e \<Rightarrow> status \<times> 'f \<times> 'e"
  env_Append :: "byte list \<Rightarrow> 'f \<Rightarrow> 'e \<Rightarrow> status \<times> 'e"
  env_Sync :: "'f \<Rightarrow> 'e \<Rightarrow> status \<times> 'e"
  env_Close :: "'f \<Rightarrow> 'e \<Rightarrow> status \<times> 'e"
  env_DeleteFile :: "byte list \<Rightarrow> 'e \<Rightarrow> status \<times> 'e"
  env_RenameFile :: "byte list \<Rightarrow> byte list \<Rightarrow> 'e \<Rightarrow> status \<times> 'e"

definition DoWriteStringToFile ::
  "('e, 'f) env \<Rightarrow> byte list \<Rightarrow> byte list \<Rightarrow> bool \<Rightarrow> 'e \<Rightarrow> status \<times> 'e" where
  "DoWriteStringToFile env data fname should_sync e =
     (let (s, out, e) = env_NewWritableFile env fname e
      in if \<not> status_ok s then (s, e)
         else
           let (s, e) = env_Append env data out e;
               (s, e) = (if status_ok s \<and> should_sync then env_Sync env out e else (s, e));
               (s, e) = (if status_ok s then env_Close env out e else (s, e));
               e = (if \<not> status_ok s then snd (env_DeleteFile env fname e) else e)
           in (s, e))"

definition WriteStringToFile :: "('e, 'f) env \<Rightarrow> byte list \<Rightarrow> byte list \<Rightarrow> 'e \<Rightarrow> status \<times> 'e" where
  "WriteStringToFile env data fname = DoWriteStringToFile env data fname False"

definition WriteStringToFileSync :: "('e, 'f) env \<Rightarrow> byte list \<Rightarrow> byte list \<Rightarrow> 'e \<Rightarrow> status \<times> 'e" where
  "WriteStringToFileSync env data fname = DoWriteStringToFile env data fname True"

definition SetCurrentFile :: "('e, 'f) env \<Rightarrow> byte list \<Rightarrow> u64 \<Rightarrow> 'e \<Rightarrow> (status \<times> 'e) option" where
  "SetCurrentFile env dbname descriptor_number e = do {
     manifest \<leftarrow> DescriptorFileName dbname descriptor_number;
     contents \<leftarrow> (if starts_with manifest (dbname @ ascii ''/'') then Some (drop (length dbname + 1) manifest) else None);
     tmp \<leftarrow> TempFileName dbname descriptor_number;
     let (s, e) = WriteStringToFileSync env (contents @ [10]) tmp e;
     let (s, e) = (if status_ok s then env_RenameFile env tmp (CurrentFileName dbname) e else (s, e));
     let e = (if \<not> status_ok s then snd (env_DeleteFile env tmp e) else e);
     Some (s, e)
   }"

text \<open>
  What a file system promises, seen through the contents of its files: operations on one file
  leave the others alone, successful writing appends, and renaming happens as a whole or not
  at all.
\<close>

definition env_files :: "('e \<Rightarrow> byte list \<Rightarrow> byte list option) \<Rightarrow> ('f \<Rightarrow> byte list) \<Rightarrow> ('e, 'f) env \<Rightarrow> bool" where
  "env_files con nm env \<longleftrightarrow>
     (\<forall>f e s h e'. env_NewWritableFile env f e = (s, h, e') \<longrightarrow>
        (if s = OK then con e' = (con e)(f \<mapsto> []) \<and> nm h = f else \<forall>g. g \<noteq> f \<longrightarrow> con e' g = con e g)) \<and>
     (\<forall>d h e s e'. env_Append env d h e = (s, e') \<longrightarrow> (\<forall>g. g \<noteq> nm h \<longrightarrow> con e' g = con e g) \<and>
        (s = OK \<longrightarrow> con e' (nm h) = map_option (\<lambda>old. old @ d) (con e (nm h)))) \<and>
     (\<forall>h e s e'. env_Sync env h e = (s, e') \<or> env_Close env h e = (s, e') \<longrightarrow>
        (\<forall>g. g \<noteq> nm h \<or> s = OK \<longrightarrow> con e' g = con e g)) \<and>
     (\<forall>f e s e'. env_DeleteFile env f e = (s, e') \<longrightarrow> (\<forall>g. g \<noteq> f \<longrightarrow> con e' g = con e g)) \<and>
     (\<forall>f g e s e'. env_RenameFile env f g e = (s, e') \<longrightarrow>
        con e' = (if s = OK then (con e)(f := None, g := con e f) else con e))"

lemma env_filesD:
  assumes "env_files con nm env"
  shows "env_NewWritableFile env f e = (s, h, e') \<Longrightarrow>
      if s = OK then con e' = (con e)(f \<mapsto> []) \<and> nm h = f else \<forall>g. g \<noteq> f \<longrightarrow> con e' g = con e g"
    and "env_Append env d h e = (s, e') \<Longrightarrow> (\<forall>g. g \<noteq> nm h \<longrightarrow> con e' g = con e g) \<and>
      (s = OK \<longrightarrow> con e' (nm h) = map_option (\<lambda>old. old @ d) (con e (nm h)))"
    and "env_Sync env h e = (s, e') \<Longrightarrow> \<forall>g. g \<noteq> nm h \<or> s = OK \<longrightarrow> con e' g = con e g"
    and "env_Close env h e = (s, e') \<Longrightarrow> \<forall>g. g \<noteq> nm h \<or> s = OK \<longrightarrow> con e' g = con e g"
    and "env_DeleteFile env f e = (s, e') \<Longrightarrow> \<forall>g. g \<noteq> f \<longrightarrow> con e' g = con e g"
    and "env_RenameFile env f g e = (s, e') \<Longrightarrow> con e' = (if s = OK then (con e)(f := None, g := con e f) else con e)"
proof -
  note c = assms [unfolded env_files_def]
  note c' = c [THEN conjunct2, THEN conjunct2]
  show "env_NewWritableFile env f e = (s, h, e') \<Longrightarrow>
      if s = OK then con e' = (con e)(f \<mapsto> []) \<and> nm h = f else \<forall>g. g \<noteq> f \<longrightarrow> con e' g = con e g"
    by (rule c [THEN conjunct1, rule_format])
  show "env_Append env d h e = (s, e') \<Longrightarrow> (\<forall>g. g \<noteq> nm h \<longrightarrow> con e' g = con e g) \<and>
      (s = OK \<longrightarrow> con e' (nm h) = map_option (\<lambda>old. old @ d) (con e (nm h)))"
    using c [THEN conjunct2, THEN conjunct1] by blast
  show "env_Sync env h e = (s, e') \<Longrightarrow> \<forall>g. g \<noteq> nm h \<or> s = OK \<longrightarrow> con e' g = con e g"
    and "env_Close env h e = (s, e') \<Longrightarrow> \<forall>g. g \<noteq> nm h \<or> s = OK \<longrightarrow> con e' g = con e g"
    using c' [THEN conjunct1] by blast+
  show "env_DeleteFile env f e = (s, e') \<Longrightarrow> \<forall>g. g \<noteq> f \<longrightarrow> con e' g = con e g"
    using c' [THEN conjunct2, THEN conjunct1] by blast
  show "env_RenameFile env f g e = (s, e') \<Longrightarrow> con e' = (if s = OK then (con e)(f := None, g := con e f) else con e)"
    by (rule c' [THEN conjunct2, THEN conjunct2, rule_format])
qed

lemma DoWrite_contents:
  assumes "env_files con nm env" "DoWriteStringToFile env d f sync e = (s, e')"
  shows "\<forall>g. g \<noteq> f \<longrightarrow> con e' g = con e g" "s = OK \<Longrightarrow> con e' f = Some d"
proof -
  obtain s1 h e1 where n: "env_NewWritableFile env f e = (s1, h, e1)" by (rule prod_cases3)
  obtain s2 e2 where a: "env_Append env d h e1 = (s2, e2)" by fastforce
  obtain s3 e3 where y: "env_Sync env h e2 = (s3, e3)" by fastforce
  let ?s = "if s2 = OK \<and> sync then s3 else s2" and ?e = "if s2 = OK \<and> sync then e3 else e2"
  obtain s4 e4 where c: "env_Close env h ?e = (s4, e4)" by fastforce
  let ?s' = "if ?s = OK then s4 else ?s" and ?e' = "if ?s = OK then e4 else ?e"
  obtain s5 e5 where d: "env_DeleteFile env f ?e' = (s5, e5)" by fastforce
  have r: "(s, e') = (if s1 \<noteq> OK then (s1, e1) else (?s', if ?s' = OK then ?e' else e5))"
    using assms(2) n a y c d by (simp add: DoWriteStringToFile_def status_ok_def split: if_splits)
  have n': "if s1 = OK then con e1 = (con e)(f \<mapsto> []) \<and> nm h = f else \<forall>g. g \<noteq> f \<longrightarrow> con e1 g = con e g"
    and a': "(\<forall>g. g \<noteq> nm h \<longrightarrow> con e2 g = con e1 g) \<and> (s2 = OK \<longrightarrow> con e2 (nm h) = map_option (\<lambda>old. old @ d) (con e1 (nm h)))"
    and y': "\<forall>g. g \<noteq> nm h \<or> s3 = OK \<longrightarrow> con e3 g = con e2 g"
    and c': "\<forall>g. g \<noteq> nm h \<or> s4 = OK \<longrightarrow> con e4 g = con ?e g"
    and d': "\<forall>g. g \<noteq> f \<longrightarrow> con e5 g = con ?e' g"
    using env_filesD(1) [OF assms(1) n] env_filesD(2) [OF assms(1) a] env_filesD(3) [OF assms(1) y]
      env_filesD(4) [OF assms(1) c] env_filesD(5) [OF assms(1) d] by simp_all
  show "\<forall>g. g \<noteq> f \<longrightarrow> con e' g = con e g"
    using r n' a' y' c' d' by (cases "s1 = OK"; cases "s2 = OK"; cases sync; cases "s3 = OK"; cases "s4 = OK") simp_all
  show "con e' f = Some d" if "s = OK"
    using that r n' a' y' c' by (cases "s1 = OK"; cases "s2 = OK"; cases sync; cases "s3 = OK"; cases "s4 = OK") simp_all
qed

lemma names_differ:
  assumes "TempFileName dbname n = Some tmp"
  shows "tmp \<noteq> CurrentFileName dbname"
proof -
  have "tmp = dbname @ ascii ''/'' @ padded 6 (decimal (unat n)) @ ascii ''.'' @ ascii ''dbtmp''"
    using assms by (auto simp: TempFileName_def MakeFileName_whole split: if_splits)
  moreover have "CurrentFileName dbname = dbname @ ascii ''/'' @ ascii ''CURRENT''"
    by (simp add: CurrentFileName_def ascii_def)
  ultimately show ?thesis
    using not_word(1) [of "ascii ''CURRENT''" 6 "unat n" "ascii ''.'' @ ascii ''dbtmp''"] by (simp add: ascii_def is_digit_def)
qed

lemma SetCurrentFile_contents:
  assumes env: "env_files con nm env" and n: "n > 0"
  obtains s e' tmp where "SetCurrentFile env dbname n e = Some (s, e')" "TempFileName dbname n = Some tmp"
    "con e' (CurrentFileName dbname) =
      (if s = OK then Some (ascii ''MANIFEST-'' @ padded 6 (decimal (unat n)) @ [10]) else con e (CurrentFileName dbname))"
    "\<And>g. g \<noteq> tmp \<Longrightarrow> g \<noteq> CurrentFileName dbname \<Longrightarrow> con e' g = con e g"
proof -
  let ?cur = "CurrentFileName dbname" and ?new = "ascii ''MANIFEST-'' @ padded 6 (decimal (unat n))"
  obtain tmp where t: "TempFileName dbname n = Some tmp" using n by (simp add: TempFileName_def)
  note differ = names_differ [OF t]
  obtain s1 e1 where w: "WriteStringToFileSync env (?new @ [10]) tmp e = (s1, e1)" by fastforce
  obtain s2 e2 where m: "env_RenameFile env tmp ?cur e1 = (s2, e2)" by fastforce
  let ?s = "if s1 = OK then s2 else s1" and ?e = "if s1 = OK then e2 else e1"
  obtain s3 e3 where d: "env_DeleteFile env tmp ?e = (s3, e3)" by fastforce
  have len: "length (ascii ''/'') = 1" by simp
  have r: "SetCurrentFile env dbname n e = Some (?s, if ?s = OK then ?e else e3)"
    using w m d
    by (cases "s1 = OK"; cases "s2 = OK")
      (simp_all add: SetCurrentFile_def DescriptorFileName_whole [OF n] t starts_with_iff status_ok_def)
  have w': "\<forall>g. g \<noteq> tmp \<longrightarrow> con e1 g = con e g" "s1 = OK \<Longrightarrow> con e1 tmp = Some (?new @ [10])"
    using DoWrite_contents [OF env, of "?new @ [10]" tmp True e s1 e1] w by (simp_all add: WriteStringToFileSync_def)
  have m': "con e2 = (if s2 = OK then (con e1)(tmp := None, ?cur := con e1 tmp) else con e1)"
    and d': "\<forall>g. g \<noteq> tmp \<longrightarrow> con e3 g = con ?e g"
    using env_filesD(6) [OF env m] env_filesD(5) [OF env d] by simp_all
  show thesis
    by (rule that [OF r t]) (use differ w' m' d' in \<open>auto split: if_splits\<close>)
qed

end
