(* ===== verification/Ldb_Manifest_Properties.thy ===== *)
theory Ldb_Manifest_Properties
  imports Ldb_Version_Edit Ldb_Filename
begin

text \<open>The properties of version edits, of file names, and of the file that names the manifest.\<close>

text \<open>C17: A version edit that is encoded and decoded comes back with every field, the set of deleted files
  and the new files in their order, whatever edit it is decoded into, except that the
  compaction pointers are added to those that the edit had before: decoding does not clear
  them.  Encoding needs that no internal key is invalid.\<close>

lemma version_edit_roundtrip:
  assumes "edit_ok ve" "storable ve"
  shows "\<exists>bytes. VersionEdit_EncodeTo ve [] = Some bytes \<and> (\<forall>old. VersionEdit_DecodeFrom bytes old =
    (OK, ve\<lparr>ve_compact_pointers := ve_compact_pointers old @ ve_compact_pointers ve\<rparr>))"
  by (rule DecodeFrom_EncodeTo [OF assms])

lemma version_edit_roundtrip_witness:
  "let ve = VersionEdit_DeleteFile 0 7 (VersionEdit_DeleteFile 1 5 (AddFile 2 9 1000 [1, 2] [3] (SetCompactPointer 1 [4]
      (SetLogNumber 12 (SetComparatorName [98] VersionEdit)))));
    old = SetCompactPointer 3 [7] VersionEdit
   in \<exists>bytes. VersionEdit_EncodeTo ve [] = Some bytes \<and>
      VersionEdit_DecodeFrom bytes old = (OK, ve\<lparr>ve_compact_pointers := [(3, [7]), (1, [4])]\<rparr>) \<and>
      ve_deleted_files ve = [(0, 7), (1, 5)]"
proof -
  let ?ve = "VersionEdit_DeleteFile 0 7 (VersionEdit_DeleteFile 1 5 (AddFile 2 9 1000 [1, 2] [3] (SetCompactPointer 1 [4]
      (SetLogNumber 12 (SetComparatorName [98] VersionEdit)))))"
  have ok: "edit_ok ?ve" "storable ?ve"
    by (simp_all add: setters VersionEdit_def edit_ok_def storable_def level_ok_def kNumLevels_def slice_ok_def fresh_file_def
        insort_insert_key_def)
  have "ve_deleted_files ?ve = [(0, 7), (1, 5)]" "ve_compact_pointers ?ve = [(1, [4])]"
    by (simp_all add: setters VersionEdit_def insort_insert_key_def)
  moreover have "ve_compact_pointers (SetCompactPointer 3 [7] VersionEdit) = [(3, [7])]" by (simp add: setters VersionEdit_def)
  moreover obtain bytes where "VersionEdit_EncodeTo ?ve [] = Some bytes" "\<forall>old. VersionEdit_DecodeFrom bytes old =
      (OK, ?ve\<lparr>ve_compact_pointers := ve_compact_pointers old @ ve_compact_pointers ?ve\<rparr>)"
    using version_edit_roundtrip [OF ok] by blast
  ultimately show ?thesis unfolding Let_def by (intro exI [of _ bytes]) (simp only: append.simps simp_thms)
qed

text \<open>C18: Decoding takes any bytes.  It reports success or a corruption with a message of its own, and the
  edit is well-formed in both cases: levels are below \<open>kNumLevels\<close>, the set of deleted files is
  strictly sorted, fields that are not set have their default values, new files have no
  references, and all strings are short enough to be stored.  If no key is invalid, the
  decoded edit can be encoded, and the encoding is decoded to the same edit.\<close>

lemma version_edit_any_input:
  assumes "slice_ok src" "edit_ok old"
  shows "\<exists>st ve. VersionEdit_DecodeFrom src old = (st, ve) \<and> edit_ok ve \<and>
    (st = OK \<or> (\<exists>msg. st = Corruption (ascii ''VersionEdit: '' @ msg))) \<and>
    (storable ve \<longrightarrow> (\<exists>bytes. VersionEdit_EncodeTo ve [] = Some bytes \<and> VersionEdit_DecodeFrom bytes VersionEdit = (OK, ve)))"
proof -
  obtain st ve where r: "VersionEdit_DecodeFrom src old = (st, ve)" "edit_ok ve"
      "st = OK \<or> (\<exists>msg. st = Corruption (ascii ''VersionEdit: '' @ msg))"
    by (rule DecodeFrom_any [OF assms])
  have "\<exists>bytes. VersionEdit_EncodeTo ve [] = Some bytes \<and> VersionEdit_DecodeFrom bytes VersionEdit = (OK, ve)" if "storable ve"
    using DecodeFrom_EncodeTo [OF r(2) that] by (auto simp: VersionEdit_def)
  with r show ?thesis by blast
qed

lemma version_edit_any_input_witness:
  "VersionEdit_DecodeFrom [6, 9, 5] VersionEdit = (Corruption (ascii ''VersionEdit: deleted file''), VersionEdit) \<and>
   (\<exists>st ve. VersionEdit_DecodeFrom [6, 9, 5] VersionEdit = (st, ve) \<and> edit_ok ve \<and>
      (st = OK \<or> (\<exists>msg. st = Corruption (ascii ''VersionEdit: '' @ msg))))"
proof
  show "VersionEdit_DecodeFrom [6, 9, 5] VersionEdit = (Corruption (ascii ''VersionEdit: deleted file''), VersionEdit)"
    by code_simp
  have "slice_ok [6, 9, 5]" by (simp add: slice_ok_def)
  from version_edit_any_input [OF this VersionEdit_ok]
  show "\<exists>st ve. VersionEdit_DecodeFrom [6, 9, 5] VersionEdit = (st, ve) \<and> edit_ok ve \<and>
      (st = OK \<or> (\<exists>msg. st = Corruption (ascii ''VersionEdit: '' @ msg)))" by blast
qed

text \<open>C33: The names of logs, tables, temporary files and manifests lie in the directory of the database and
  are read back as their number and type, for every 64-bit number: the buffers they are
  printed into are long enough.  The names without a number are read back as their type.\<close>

lemma filename_roundtrip:
  assumes "n > 0"
  shows "(\<forall>(f, t) \<in> set (owned_file dbname n). \<exists>base. f = Some (dbname @ ascii ''/'' @ base) \<and> ParseFileName base = Some (n, t)) \<and>
    (\<forall>(f, t) \<in> set (fixed_file dbname). \<exists>base. f = dbname @ ascii ''/'' @ base \<and> ParseFileName base = Some (0, t))"
  using owned_file_read [OF assms] fixed_file_read by blast

lemma filename_roundtrip_witness:
  "(\<exists>base. TableFileName [100] 1234567 = Some ([100] @ ascii ''/'' @ base) \<and> ParseFileName base = Some (1234567, kTableFile)) \<and>
   (\<exists>base. CurrentFileName [100] = [100] @ ascii ''/'' @ base \<and> ParseFileName base = Some (0, kCurrentFile))"
  using filename_roundtrip [of 1234567 "[100]"] by (simp add: owned_file_def fixed_file_def)


text \<open>C20: Switching the database to a manifest replaces the contents of \<open>CURRENT\<close> by its name and a newline as
  a whole, or, if any operation of the file system fails, leaves \<open>CURRENT\<close> as it was.  The name is
  read as the number of the manifest, and other files than \<open>CURRENT\<close> and the temporary one are
  not changed.\<close>

lemma set_current_file:
  assumes "env_files con nm env" "n > 0"
  shows "\<exists>s e' tmp name. SetCurrentFile env dbname n e = Some (s, e') \<and> TempFileName dbname n = Some tmp \<and>
    con e' (CurrentFileName dbname) = (if s = OK then Some (name @ [10]) else con e (CurrentFileName dbname)) \<and>
    ParseFileName name = Some (n, kDescriptorFile) \<and>
    (\<forall>g. g \<noteq> tmp \<and> g \<noteq> CurrentFileName dbname \<longrightarrow> con e' g = con e g)"
proof -
  obtain s e' tmp where r: "SetCurrentFile env dbname n e = Some (s, e')" "TempFileName dbname n = Some tmp"
      "con e' (CurrentFileName dbname) =
        (if s = OK then Some (ascii ''MANIFEST-'' @ padded 6 (decimal (unat n)) @ [10]) else con e (CurrentFileName dbname))"
      "\<And>g. g \<noteq> tmp \<Longrightarrow> g \<noteq> CurrentFileName dbname \<Longrightarrow> con e' g = con e g"
    by (rule SetCurrentFile_contents [OF assms, of dbname e]) simp
  with Parse_descriptor [of n] show ?thesis
    by (intro exI [of _ s] exI [of _ e'] exI [of _ tmp] exI [of _ "ascii ''MANIFEST-'' @ padded 6 (decimal (unat n))"]) simp
qed

text \<open>A file system in memory on which renaming fails.\<close>

definition read_only_names :: "(byte list \<Rightarrow> byte list option, byte list) env" where
  "read_only_names = \<lparr>env_NewWritableFile = (\<lambda>f e. (OK, f, e(f \<mapsto> []))),
     env_Append = (\<lambda>d h e. (OK, e(h := map_option (\<lambda>old. old @ d) (e h)))), env_Sync = (\<lambda>h e. (OK, e)),
     env_Close = (\<lambda>h e. (OK, e)), env_DeleteFile = (\<lambda>f e. (OK, e(f := None))),
     env_RenameFile = (\<lambda>f g e. (IOError [], e))\<rparr>"

lemma set_current_file_witness:
  "\<exists>s e' tmp name. SetCurrentFile read_only_names [100] 5 [CurrentFileName [100] \<mapsto> [1]] = Some (s, e') \<and>
    TempFileName [100] 5 = Some tmp \<and> e' (CurrentFileName [100]) = (if s = OK then Some (name @ [10]) else Some [1]) \<and>
    ParseFileName name = Some (5, kDescriptorFile)"
proof -
  have "env_files (\<lambda>e. e) (\<lambda>h. h) read_only_names" by (auto simp: env_files_def read_only_names_def)
  from set_current_file [OF this, of 5 "[100]" "[CurrentFileName [100] \<mapsto> [1]]"]
  obtain s e' tmp name where "SetCurrentFile read_only_names [100] 5 [CurrentFileName [100] \<mapsto> [1]] = Some (s, e')"
      "TempFileName [100] 5 = Some tmp"
      "e' (CurrentFileName [100]) = (if s = OK then Some (name @ [10]) else [CurrentFileName [100] \<mapsto> [1]] (CurrentFileName [100]))"
      "ParseFileName name = Some (5, kDescriptorFile)" by auto
  then show ?thesis by (intro exI [of _ s] exI [of _ e'] exI [of _ tmp] exI [of _ name]) (simp only: fun_upd_same simp_thms)
qed

end
