(* ===== verification/Ldb_Version.thy ===== *)
theory Ldb_Version
  imports Ldb_Table_Stored Ldb_Version_Edit
begin

text \<open>
  Reading from the tables of a version: parts of \<open>leveldb-library/db/version_set.cc\<close>.
\<close>

section \<open>What a lookup saves\<close>

datatype SaverState = kNotFound | kFound | kDeleted | kCorrupt

record Saver =
  sv_state :: SaverState
  sv_ucmp :: "byte list \<Rightarrow> byte list \<Rightarrow> int option"
  sv_user_key :: "byte list"
  sv_value :: "byte list"

definition SaveValue :: "Saver \<Rightarrow> byte list \<Rightarrow> byte list \<Rightarrow> Saver option" where
  "SaveValue s ikey v = do {
     parsed \<leftarrow> ParseInternalKey ikey;
     (case parsed of
        None \<Rightarrow> Some (s\<lparr>sv_state := kCorrupt\<rparr>)
      | Some parsed_key \<Rightarrow> do {
          r \<leftarrow> sv_ucmp s (pik_user_key parsed_key) (sv_user_key s);
          Some (if r = 0
            then (if pik_type parsed_key = kTypeValue then s\<lparr>sv_state := kFound, sv_value := v\<rparr> else s\<lparr>sv_state := kDeleted\<rparr>)
            else s)
        })
   }"

section \<open>A lookup in a table\<close>

text \<open>The internal key of a lookup.\<close>

definition seek_key :: "byte list \<Rightarrow> SequenceNumber \<Rightarrow> byte list" where
  "seek_key k s = k @ EncodeFixed64 (push_bit 8 s OR 1)"

lemma new_LookupKey_seek:
  assumes "s \<le> kMaxSequenceNumber" "length k + 8 < 2 ^ 32"
  obtains lk where "new_LookupKey k s = Some lk" "user_key lk = k" "internal_key lk = seek_key k s"
proof -
  let ?n = "EncodeVarint32 (of_nat (length k + 8))"
  let ?lk = "\<lparr>lk_chars = ?n @ seek_key k s, lk_kstart = length ?n\<rparr>"
  have "new_LookupKey k s = Some ?lk"
    using assms(1) EncodeVarint32_length [of "of_nat (length k + 8)"]
    by (simp add: new_LookupKey_def PackSequenceAndType_def kValueTypeForSeek_def seek_key_def Let_def)
  then show thesis by (rule that) (simp_all add: user_key_def internal_key_def seek_key_def)
qed

text \<open>What is saved of an update that is the newest one, or of none.\<close>

definition saved :: "update option \<Rightarrow> Saver \<Rightarrow> Saver" where
  "saved u s = (case u of
      None \<Rightarrow> s
    | Some (Put_update k v) \<Rightarrow> s\<lparr>sv_state := kFound, sv_value := v\<rparr>
    | Some (Delete_update k) \<Rightarrow> s\<lparr>sv_state := kDeleted\<rparr>)"

lemma ParseInternalKey_hist:
  assumes "fst x \<le> kMaxSequenceNumber"
  shows "ParseInternalKey (fst (hist_entry x)) =
    Some (Some \<lparr>pik_user_key = update_key (snd x), pik_sequence = fst x, pik_type = update_type (snd x)\<rparr>)"
proof -
  have "DecodeFixed64 (EncodeFixed64 n) = Some n" for n using DecodeFixed64_append [of n "[]"] by simp
  then show ?thesis
    using packed_parts [OF assms, of "update_type (snd x)"]
    by (cases "update_type (snd x)") (simp_all add: ParseInternalKey_def hist_entry_def Let_def)
qed

lemma SaveValue_entry:
  assumes "fst x \<le> kMaxSequenceNumber" "sv_ucmp s (update_key (snd x)) (sv_user_key s) = Some c"
  shows "SaveValue s (fst (hist_entry x)) (snd (hist_entry x)) = Some (if c = 0 then saved (Some (snd x)) s else s)"
proof -
  have "snd (hist_entry x) = update_value (snd x)" by (simp add: hist_entry_def)
  then show ?thesis
    using assms(2) by (cases "snd x") (simp_all add: SaveValue_def ParseInternalKey_hist [OF assms(1)] saved_def del: bind_Some_iff)
qed

text \<open>The first entry from the key on is the newest one that is visible, if it is of the user key.\<close>

lemma table_lookup:
  assumes t: "table_opened stored_key internal_compare same_user okp bs cs t"
    and pol: "\<And>p. op_filter_policy (tab_options t) = Some p \<Longrightarrow> table_policy p okp"
      "policy_respects stored_key same_user (op_filter_policy (tab_options t))"
    and hist: "hist_ok (\<lambda>_. True) h" "set (all_entries bs) = hist_entry ` set h"
    and k: "length k + 8 < 2 ^ 32" "s \<le> kMaxSequenceNumber"
    and sv: "sv_ucmp sv = Bytewise_Compare" "sv_user_key sv = k"
  shows "InternalGet t v (seek_key k s) SaveValue sv = Some (OK, saved (newest k s h) sv)"
proof -
  let ?xs = "all_entries bs"
  define n where "n = lower_bound internal_compare (seek_key k s) ?xs"
  have key: "stored_key (seek_key k s)" using k(1) by (simp add: seek_key_def slice_ok_def)
  have sorted: "ordered (internal_ok (\<lambda>_. True)) internal_compare ?xs"
    using t by (auto simp: table_opened_def ordered_def)
  note land = bytewise_user.lower_bound_hist [OF hist(1) sorted hist(2) TrueI k(2) n_def [unfolded seek_key_def]]
  have entry: "\<exists>x \<in> set h. ?xs ! n = hist_entry x" if "n < length ?xs" using nth_mem [OF that] hist(2) by auto
  have user: "same_user (seek_key k s) (fst (hist_entry x)) \<longleftrightarrow> update_key (snd x) = k" for x
    by (auto simp: seek_key_def hist_entry_def)
  obtain consulted where c: "n < length ?xs \<and> same_user (seek_key k s) (fst (?xs ! n)) \<Longrightarrow> consulted"
    "InternalGet t v (seek_key k s) SaveValue sv = (if consulted \<and> n < length ?xs
       then map_option (Pair OK) (SaveValue sv (fst (?xs ! n)) (snd (?xs ! n))) else Some (OK, sv))"
    using stored_table.stored.InternalGet_finds [OF t key pol, folded n_def, of v SaveValue sv] by metis
  show ?thesis
  proof (cases "n < length ?xs")
    case True
    then obtain x where x: "x \<in> set h" "?xs ! n = hist_entry x" using entry by blast
    have seq: "fst x \<le> kMaxSequenceNumber" using x(1) hist(1) by (simp add: hist_ok_def)
    obtain r where r: "Bytewise_Compare (update_key (snd x)) k = Some r" by (simp add: Bytewise_Compare_def)
    then have r0: "r = 0 \<longleftrightarrow> update_key (snd x) = k" using bytewise.zero [of "update_key (snd x)" k] by auto
    have saves: "SaveValue sv (fst (?xs ! n)) (snd (?xs ! n)) = Some (if r = 0 then saved (Some (snd x)) sv else sv)"
      using SaveValue_entry [OF seq, of sv r] r sv by (simp add: x(2))
    have at: "ExtractUserKey (fst (?xs ! n)) = Some (update_key (snd x))" by (simp add: x(2) hist_entry_def)
    show ?thesis
    proof (cases "update_key (snd x) = k")
      case eq: True
      then obtain y where y: "?xs ! n = hist_entry y" "y \<in> set h" "newest k s h = Some (snd y)" using land True at by auto
      then have "snd y = snd x"
      proof -
        have "push_bit 8 (fst y) OR type_number (update_type (snd y)) = push_bit 8 (fst x) OR type_number (update_type (snd x))"
          using y(1) x(2) by (auto simp: hist_entry_def append_eq_append_conv)
        moreover have "fst y \<le> kMaxSequenceNumber" using y(2) hist(1) by (simp add: hist_ok_def)
        ultimately have "fst y = fst x" using packed_parts(1) seq by metis
        then show ?thesis using hist_same_number [OF hist(1) y(2) x(1)] by simp
      qed
      then show ?thesis using c True eq saves r0 user [of x] y(3) x(2) by simp
    next
      case False
      then have "newest k s h = None" using land at by simp
      then show ?thesis using c(2) True saves r0 False by (simp add: saved_def)
    qed
  next
    case False
    then show ?thesis using c(2) land by (simp add: saved_def)
  qed
qed

end
