(* ===== verification/Ldb_Table_Properties.thy ===== *)
theory Ldb_Table_Properties
  imports Ldb_Version Ldb_Properties Ldb_Memtable_Properties
begin

text \<open>The properties of tables: what is written is read back, found, and damage of it is noticed.\<close>

section \<open>A file for reading\<close>

definition list_random :: "byte list \<Rightarrow> random_file" where
  "list_random cs off n = (OK, take (unat n) (drop (unat off) cs), False)"

lemma list_random_reads: "Ldb_Table_Format.file_reads (list_random cs) cs"
  unfolding Ldb_Table_Format.file_reads_def list_random_def by blast

definition sample_options :: table_options where
  "sample_options = \<lparr>op_comparator = InternalKeyComparator BytewiseComparator, op_paranoid_checks = True, op_block_size = 4096,
     op_block_restart_interval = 16, op_compression = kSnappyCompression,
     op_filter_policy = Some (InternalFilterPolicy (NewBloomFilterPolicy 10))\<rparr>"

lemma sample_options_stored: "stored_options (Some 10) sample_options"
  by (simp add: stored_options_def sample_options_def)

text \<open>Bytes with their checksum behind: a change of one byte of either is noticed.\<close>

lemma changed_sealed:
  assumes "j < length xs + 4" "(xs @ EncodeFixed32 (Mask (crc32c 0 xs))) ! j \<noteq> c"
  shows "\<exists>m. DecodeFixed32 (drop (length xs) ((xs @ EncodeFixed32 (Mask (crc32c 0 xs)))[j := c])) = Some m \<and>
    crc32c 0 (take (length xs) ((xs @ EncodeFixed32 (Mask (crc32c 0 xs)))[j := c])) \<noteq> Unmask m"
proof (cases "j < length xs")
  case True
  then have "xs = take j xs @ xs ! j # drop (Suc j) xs" "xs[j := c] = take j xs @ c # drop (Suc j) xs"
    using id_take_nth_drop by (simp_all add: upd_conv_take_nth_drop)
  moreover have "c \<noteq> xs ! j" using assms(2) True by (auto simp: nth_append)
  ultimately have "crc32c 0 (xs[j := c]) \<noteq> crc32c 0 xs" using crc32c_changed by metis
  then show ?thesis
    using True DecodeFixed32_append [of "Mask (crc32c 0 xs)" "[]"] by (simp add: list_update_append1 Unmask_Mask)
next
  case False
  let ?m = "Mask (crc32c 0 xs)" and ?k = "j - length xs"
  let ?e = "(EncodeFixed32 ?m)[?k := c]"
  have k: "?k < length (EncodeFixed32 ?m)" "EncodeFixed32 ?m ! ?k \<noteq> c" using False assms by (simp_all add: nth_append)
  have "length ?e = 4" by simp
  then have e: "EncodeFixed32 (le_word ?e) = ?e" using le_bytes_le_word [of ?e, where ?'a = 32] by (simp add: EncodeFixed32_def)
  have "?e \<noteq> EncodeFixed32 ?m" using k by (metis nth_list_update_eq)
  then have "le_word ?e \<noteq> ?m" using e by metis
  then have "crc32c 0 xs \<noteq> Unmask (le_word ?e)" using Mask_Unmask by metis
  moreover have "DecodeFixed32 ?e = Some (le_word ?e)" using DecodeFixed32_append [of "le_word ?e" "[]"] e by simp
  ultimately show ?thesis using False by (simp add: list_update_append)
qed

section \<open>Properties\<close>

text \<open>C4: A table is read back as it was written.  Every list of internal keys and values that is sorted
  and fits into a file of 4 GB, with any block size, restart interval and size of Bloom filters,
  is written without an error; the file is opened as a table without an error; and the iterator
  of the table, which walks over an index of blocks that are read from the file when they are
  needed, refines a position in the list, for any sequence of seeks and steps in both directions.\<close>

lemma table_roundtrip:
  assumes "file_appends file contents" "contents f = []" "\<And>cs. Ldb_Table_Format.file_reads (rfile cs) cs"
    "stored_options bits options" "ordered stored_key internal_compare xs" "fits_in_table bits options xs"
  shows "\<exists>r t it. build_table file options xs f = Some (OK, r) \<and>
    Table_Open options (rfile (contents (tb_file r))) (FileSize r) = Some (OK, Some t) \<and>
    Table_NewIterator t = Some it \<and>
    follows stored_key internal_compare (Tables_class verify_checksums) (t, it) xs (length xs)"
proof -
  obtain r bs t where t: "build_table file options xs f = Some (OK, r)" "all_entries bs = xs"
    "Table_Open options (rfile (contents (tb_file r))) (FileSize r) = Some (OK, Some t)" "tab_options t = options"
    "table_opened stored_key internal_compare same_user (stored_keys_ok (length xs)) bs (contents (tb_file r)) t"
    "\<And>p. op_filter_policy options = Some p \<Longrightarrow> table_policy p (stored_keys_ok (length xs))"
    by (rule stored_table_opens [where contents = contents and f = f and rfile = rfile, OF assms(1,2,4,5,6,3)]) blast
  obtain it where it: "Table_NewIterator t = Some it" "table_stands stored_key internal_compare verify_checksums (t, it) xs (length xs)"
    using stored_table.stored.NewIterator_stands [OF t(5)] t(2) by metis
  have "follows stored_key internal_compare (Tables_class verify_checksums) (t, it) xs (length xs)"
    by (rule stored_table.stored.tables.stands_follows [OF it(2)])
  with t(1,3) it(1) show ?thesis by blast
qed

lemma table_roundtrip_witness:
  "let xs = [([97] @ EncodeFixed64 1281, [1]), ([98] @ EncodeFixed64 1536, [])]
   in \<exists>r t it. build_table list_writer sample_options xs [] = Some (OK, r) \<and>
    Table_Open sample_options (list_random (tb_file r)) (FileSize r) = Some (OK, Some t) \<and>
    Table_NewIterator t = Some it \<and> follows stored_key internal_compare (Tables_class True) (t, it) xs 2"
proof -
  let ?xs = "[([97] @ EncodeFixed64 1281, [1]), ([98] @ EncodeFixed64 1536, [])] :: (byte list \<times> byte list) list"
  have order: "ordered stored_key internal_compare ?xs"
    by (simp add: ordered_def slice_ok_def below_Internal del: append.simps) (simp add: below_def Bytewise_Compare_def)
  have fits: "fits_in_table (Some 10) sample_options ?xs"
    by (simp add: fits_in_table_def table_weight_def filter_room_def sample_options_def InternalFilterPolicy_def
        NewBloomFilterPolicy_def ascii_def Let_def)
  show ?thesis
    using table_roundtrip [OF list_writer_appends _ list_random_reads sample_options_stored order fits, of "[]" True]
    by (simp add: Let_def numeral_2_eq_2)
qed

text \<open>C5: A lookup in a table finds what the history of the updates in the table gives.  If a table is
  built from the updates of any part of a history, then looking up the internal key of a user
  key and a snapshot, through the index, the Bloom filters and one block, saves the value of
  the newest update of the user key up to the snapshot, or that it is a deletion; and nothing if
  there is no such update.\<close>

lemma table_get:
  assumes "file_appends file contents" "contents f = []" "\<And>cs. Ldb_Table_Format.file_reads (rfile cs) cs"
    "stored_options bits options" "ordered stored_key internal_compare xs" "fits_in_table bits options xs"
    and hist: "hist_ok (\<lambda>_. True) h" "set xs = hist_entry ` set h"
    and k: "length k + 8 < 2 ^ 32" "s \<le> kMaxSequenceNumber"
    and sv: "sv_ucmp sv = Bytewise_Compare" "sv_user_key sv = k"
  shows "\<exists>r t lk. build_table file options xs f = Some (OK, r) \<and>
    Table_Open options (rfile (contents (tb_file r))) (FileSize r) = Some (OK, Some t) \<and> new_LookupKey k s = Some lk \<and>
    InternalGet t verify_checksums (internal_key lk) SaveValue sv = Some (OK, saved (newest k s h) sv)"
proof -
  obtain r bs t where t: "build_table file options xs f = Some (OK, r)" "all_entries bs = xs"
    "Table_Open options (rfile (contents (tb_file r))) (FileSize r) = Some (OK, Some t)" "tab_options t = options"
    "table_opened stored_key internal_compare same_user (stored_keys_ok (length xs)) bs (contents (tb_file r)) t"
    "\<And>p. op_filter_policy options = Some p \<Longrightarrow> table_policy p (stored_keys_ok (length xs))"
    by (rule stored_table_opens [where contents = contents and f = f and rfile = rfile, OF assms(1,2,4,5,6,3)]) blast
  obtain lk where lk: "new_LookupKey k s = Some lk" "internal_key lk = seek_key k s"
    using new_LookupKey_seek [OF k(2,1)] by metis
  have "InternalGet t verify_checksums (seek_key k s) SaveValue sv = Some (OK, saved (newest k s h) sv)"
    by (rule table_lookup [OF t(5) _ _ hist(1) _ k sv]) (use t(2,4,6) stored_policy(2) [OF assms(4)] hist(2) in auto)
  with t(1,3) lk show ?thesis by auto
qed

lemma table_get_witness:
  "\<exists>r t lk. build_table list_writer sample_options [([97] @ EncodeFixed64 1281, [1])] [] = Some (OK, r) \<and>
    Table_Open sample_options (list_random (tb_file r)) (FileSize r) = Some (OK, Some t) \<and> new_LookupKey [97] 7 = Some lk \<and>
    InternalGet t True (internal_key lk) SaveValue
      \<lparr>sv_state = kNotFound, sv_ucmp = Bytewise_Compare, sv_user_key = [97], sv_value = []\<rparr> =
    Some (OK, \<lparr>sv_state = kFound, sv_ucmp = Bytewise_Compare, sv_user_key = [97], sv_value = [1]\<rparr>)"
proof -
  let ?xs = "[([97] @ EncodeFixed64 1281, [1])] :: (byte list \<times> byte list) list"
  let ?h = "[(5, Put_update [97] [1])] :: history"
  have order: "ordered stored_key internal_compare ?xs" by (simp add: ordered_def slice_ok_def del: append.simps)
  have fits: "fits_in_table (Some 10) sample_options ?xs"
    by (simp add: fits_in_table_def table_weight_def filter_room_def sample_options_def InternalFilterPolicy_def
        NewBloomFilterPolicy_def ascii_def Let_def)
  have hist: "hist_ok (\<lambda>_. True) ?h" "set ?xs = hist_entry ` set ?h"
    by (simp_all add: hist_ok_def slice_ok_def kMaxSequenceNumber_def hist_entry_def)
  have new: "newest [97] 7 ?h = Some (Put_update [97] [1])" by (simp add: newest_def)
  show ?thesis
    using table_get [OF list_writer_appends _ list_random_reads sample_options_stored order fits hist, of "[]" "[97]" 7
        "\<lparr>sv_state = kNotFound, sv_ucmp = Bytewise_Compare, sv_user_key = [97], sv_value = []\<rparr>" True]
    by (simp add: kMaxSequenceNumber_def new [simplified] saved_def)
qed

text \<open>C6: Every change of one byte of a block in a table file, in its contents, its type or its checksum,
  is noticed by a reader that verifies checksums: it reports a corruption instead of the block.\<close>

lemma damaged_block_reported:
  assumes app: "file_appends file contents" and off: "tb_offset r = of_nat (length (contents (tb_file r)))"
    and reader: "\<And>cs. Ldb_Table_Format.file_reads (rfile cs) cs"
    and small: "length (contents (tb_file r)) + length data + 5 < 2 ^ 64"
    and i: "length (contents (tb_file r)) \<le> i" "i < length (contents (tb_file r)) + length data + 5" and "flips \<noteq> 0"
  shows "\<exists>h r'. WriteRawBlock file data kNoCompression r = Some (h, r') \<and>
    ReadBlock (rfile ((contents (tb_file r'))[i := contents (tb_file r') ! i XOR flips])) True h =
      Some (Corruption (ascii ''block checksum mismatch''), \<lparr>bc_data = [], bc_cachable = False, bc_heap_allocated = False\<rparr>)"
proof -
  let ?n = "length data" and ?cs = "contents (tb_file r)" and ?t = "block_trailer data kNoCompression"
  let ?crc = "crc32c 0 (data @ [0])"
  obtain r' where r': "WriteRawBlock file data kNoCompression r = Some (\<lparr>bh_offset = tb_offset r, bh_size = of_nat ?n\<rparr>, r')"
      "tb_wrote contents (data @ ?t) r r'"
    by (rule WriteRawBlock_writes [OF app])
  let ?h = "\<lparr>bh_offset = tb_offset r, bh_size = of_nat ?n\<rparr> :: block_handle"
  have cs': "contents (tb_file r') = ?cs @ data @ ?t" using r'(2) by (rule tb_wroteE) simp
  have "ReadBlock (rfile ((contents (tb_file r'))[i := c])) True ?h =
      Some (Corruption (ascii ''block checksum mismatch''), \<lparr>bc_data = [], bc_cachable = False, bc_heap_allocated = False\<rparr>)"
    if c: "c \<noteq> contents (tb_file r') ! i" for c
  proof -
    define j where "j = i - length ?cs"
    have j: "j < ?n + 5" using i by (simp add: j_def)
    let ?d = "(data @ ?t)[j := c]"
    have changed: "(contents (tb_file r'))[i := c] = ?cs @ ?d" using i(1) by (simp add: cs' j_def list_update_append)
    have old: "(data @ ?t) ! j \<noteq> c" using c i(1) by (simp add: cs' j_def nth_append)
    have u: "unat (tb_offset r) = length ?cs" "unat (of_nat ?n + 5 :: size) = ?n + 5" "unat (of_nat ?n :: size) = ?n"
      using small off unat_of_nat_eq [of "?n + 5", where ?'a = 64] by (simp_all add: unat_of_nat_eq)
    have "unat (tb_offset r) + unat (of_nat ?n + 5 :: size) \<le> length (?cs @ ?d)" using u(1,2) by simp
    then obtain b where "rfile (?cs @ ?d) (tb_offset r) (of_nat ?n + 5) =
        (OK, take (unat (of_nat ?n + 5 :: size)) (drop (unat (tb_offset r)) (?cs @ ?d)), b)"
      using reader unfolding Ldb_Table_Format.file_reads_def by blast
    then have read: "rfile (?cs @ ?d) (tb_offset r) (of_nat ?n + 5) = (OK, ?d, b)" using u(1,2) by simp
    have split: "data @ ?t = (data @ [0]) @ EncodeFixed32 (Mask ?crc)" by (simp add: block_trailer_def)
    have "\<exists>m. DecodeFixed32 (drop (?n + 1) ?d) = Some m \<and> crc32c 0 (take (?n + 1) ?d) \<noteq> Unmask m"
      using changed_sealed [of j "data @ [0]" c] j old unfolding split by simp
    then obtain m where m: "DecodeFixed32 (drop (?n + 1) ?d) = Some m" "crc32c 0 (take (?n + 1) ?d) \<noteq> Unmask m" by blast
    have "length ?d = ?n + 5" by simp
    then show ?thesis
      using read m u by (simp add: ReadBlock_def changed kBlockTrailerSize_def status_ok_def Value_def Extend_crc32c Let_def del: bind_Some_iff)
  qed
  moreover have "contents (tb_file r') ! i XOR flips \<noteq> contents (tb_file r') ! i"
    using \<open>flips \<noteq> 0\<close> by (metis bit.xor_left_self bit.xor_self)
  ultimately show ?thesis using r'(1) by blast
qed

lemma damaged_block_reported_witness:
  "\<exists>r h r'. TableBuilder (sample_options\<lparr>op_filter_policy := None\<rparr>) [] = Some r \<and>
    WriteRawBlock list_writer [1, 2] kNoCompression r = Some (h, r') \<and>
    ReadBlock (list_random ((tb_file r')[1 := tb_file r' ! 1 XOR 4])) True h =
      Some (Corruption (ascii ''block checksum mismatch''), \<lparr>bc_data = [], bc_cachable = False, bc_heap_allocated = False\<rparr>)"
proof -
  obtain r where r: "TableBuilder (sample_options\<lparr>op_filter_policy := None\<rparr>) ([] :: byte list) = Some r" "tb_file r = []" "tb_offset r = 0"
    by (simp add: TableBuilder_def sample_options_def BlockBuilder_def)
  have "\<exists>h r'. WriteRawBlock list_writer [1, 2] kNoCompression r = Some (h, r') \<and>
    ReadBlock (list_random ((id (tb_file r'))[1 := id (tb_file r') ! 1 XOR 4])) True h =
      Some (Corruption (ascii ''block checksum mismatch''), \<lparr>bc_data = [], bc_cachable = False, bc_heap_allocated = False\<rparr>)"
    by (rule damaged_block_reported [OF list_writer_appends _ list_random_reads]) (simp_all add: r(2,3))
  with r(1) show ?thesis by auto
qed

end
