(* ===== verification/F_Base64.thy ===== *)
theory F_Base64
  imports C_Prelude
begin

text \<open>
  The Base64 functions of SocketRocket in Firebase Database, \<open>third_party/SocketRocket/fbase64.c\<close>.
  A source string is the list of the bytes that may be read, a target is a buffer, a list of
  bytes, or null; access outside of either is undefined, the result \<^term>\<open>None\<close>.  The
  functions return an \<open>int\<close>, with -1 for failure, and the target.
\<close>

section \<open>Alphabet\<close>

definition Base64 :: "byte list" where
  "Base64 = ascii ''ABCDEFGHIJKLMNOPQRSTUVWXYZabcdefghijklmnopqrstuvwxyz0123456789+/''"

definition Pad64 :: byte where
  "Pad64 = 61"

text \<open>\<open>strchr\<close>, for a character other than NUL: the index of its first occurrence.\<close>

primrec strchr :: "byte list \<Rightarrow> byte \<Rightarrow> nat option" where
  "strchr [] c = None"
| "strchr (x # xs) c = (if x = c then Some 0 else map_option Suc (strchr xs c))"

text \<open>\<open>isspace\<close> in the C locale; it is undefined on the negative values of \<open>char\<close>.\<close>

definition isspace :: "byte \<Rightarrow> bool option" where
  "isspace ch = (if ch < 128 then Some (ch \<in> {9, 10, 11, 12, 13, 32}) else None)"

definition store_at :: "byte list \<Rightarrow> nat \<Rightarrow> byte \<Rightarrow> byte list option" where
  "store_at buf i b = (if i < length buf then Some (buf[i := b]) else None)"

definition load_at :: "byte list \<Rightarrow> nat \<Rightarrow> byte option" where
  "load_at buf i = (if i < length buf then Some (buf ! i) else None)"

section \<open>Encoding\<close>

text \<open>Four characters at \<open>datalength\<close>, which moves behind them; the result -1 if they do not fit.\<close>

definition put_quantum :: "byte list \<Rightarrow> size \<Rightarrow> byte list \<Rightarrow> size \<Rightarrow> (byte list \<times> size) option option" where
  "put_quantum cs targsize target datalength =
     (if datalength + 4 > targsize then Some None
      else do {
        target \<leftarrow> store_at target (unat datalength) (cs ! 0);
        target \<leftarrow> store_at target (unat (datalength + 1)) (cs ! 1);
        target \<leftarrow> store_at target (unat (datalength + 2)) (cs ! 2);
        target \<leftarrow> store_at target (unat (datalength + 3)) (cs ! 3);
        Some (Some (target, datalength + 4))
      })"

definition output0 :: "byte \<Rightarrow> byte" where
  "output0 i0 = drop_bit 2 i0"

definition output1 :: "byte \<Rightarrow> byte \<Rightarrow> byte" where
  "output1 i0 i1 = push_bit 4 (i0 AND 0x03) + drop_bit 4 i1"

definition output2 :: "byte \<Rightarrow> byte \<Rightarrow> byte" where
  "output2 i1 i2 = push_bit 2 (i1 AND 0x0f) + drop_bit 6 i2"

definition output3 :: "byte \<Rightarrow> byte" where
  "output3 i2 = i2 AND 0x3f"

definition digit :: "byte \<Rightarrow> byte" where
  "digit i = Base64 ! unat i"

fun ntop_loop :: "size \<Rightarrow> byte list \<Rightarrow> byte list \<Rightarrow> size \<Rightarrow> ((byte list \<times> size \<times> byte list) option \<times> byte list) option" where
  "ntop_loop targsize (i0 # i1 # i2 # src) target datalength = do {
     r \<leftarrow> put_quantum [digit (output0 i0), digit (output1 i0 i1), digit (output2 i1 i2), digit (output3 i2)]
       targsize target datalength;
     (case r of
        None \<Rightarrow> Some (None, target)
      | Some (target, datalength) \<Rightarrow> ntop_loop targsize src target datalength)
   }"
| "ntop_loop targsize src target datalength = Some (Some (src, datalength, target), target)"

definition ntop_rest :: "byte list \<Rightarrow> byte list" where
  "ntop_rest src =
     (let i0 = src ! 0; i1 = (if length src = 2 then src ! 1 else 0); i2 = 0
      in [digit (output0 i0), digit (output1 i0 i1),
          if length src = 1 then Pad64 else digit (output2 i1 i2), Pad64])"

definition f_b64_ntop :: "byte list \<Rightarrow> byte list \<Rightarrow> size \<Rightarrow> (int \<times> byte list) option" where
  "f_b64_ntop src target targsize = do {
     (r, target) \<leftarrow> ntop_loop targsize src target 0;
     (case r of
        None \<Rightarrow> Some (-1, target)
      | Some (src, datalength, target) \<Rightarrow> do {
          r \<leftarrow> (if src \<noteq> [] then put_quantum (ntop_rest src) targsize target datalength
                else Some (Some (target, datalength)));
          (case r of
             None \<Rightarrow> Some (-1, target)
           | Some (target, datalength) \<Rightarrow>
               if datalength \<ge> targsize then Some (-1, target)
               else do {
                 target \<leftarrow> store_at target (unat datalength) 0;
                 Some (sint (ucast datalength :: u32), target)
               })
        })
   }"

section \<open>Decoding\<close>

text \<open>
  One digit, by the state: nothing if the target is full, else the new index and state.
  Without a target only the index and the state change.
\<close>

definition pton_digit ::
  "size \<Rightarrow> byte \<Rightarrow> u32 \<Rightarrow> u32 \<Rightarrow> byte list option \<Rightarrow> ((u32 \<times> u32) option \<times> byte list option) option" where
  "pton_digit targsize pos tarindex state target =
     (if state = 0 then
        (case target of
           None \<Rightarrow> Some (Some (tarindex, 1), target)
         | Some t \<Rightarrow>
             if ucast tarindex \<ge> targsize then Some (None, target)
             else do {
               t \<leftarrow> store_at t (unat tarindex) (push_bit 2 pos);
               Some (Some (tarindex, 1), Some t)
             })
      else if state = 1 then
        (case target of
           None \<Rightarrow> Some (Some (tarindex + 1, 2), target)
         | Some t \<Rightarrow>
             if ucast (tarindex + 1) \<ge> targsize then Some (None, target)
             else do {
               b \<leftarrow> load_at t (unat tarindex);
               t \<leftarrow> store_at t (unat tarindex) (b OR drop_bit 4 pos);
               t \<leftarrow> store_at t (unat (tarindex + 1)) (push_bit 4 (pos AND 0x0f));
               Some (Some (tarindex + 1, 2), Some t)
             })
      else if state = 2 then
        (case target of
           None \<Rightarrow> Some (Some (tarindex + 1, 3), target)
         | Some t \<Rightarrow>
             if ucast (tarindex + 1) \<ge> targsize then Some (None, target)
             else do {
               b \<leftarrow> load_at t (unat tarindex);
               t \<leftarrow> store_at t (unat tarindex) (b OR drop_bit 2 pos);
               t \<leftarrow> store_at t (unat (tarindex + 1)) (push_bit 6 (pos AND 0x03));
               Some (Some (tarindex + 1, 3), Some t)
             })
      else if state = 3 then
        (case target of
           None \<Rightarrow> Some (Some (tarindex + 1, 0), target)
         | Some t \<Rightarrow>
             if ucast tarindex \<ge> targsize then Some (None, target)
             else do {
               b \<leftarrow> load_at t (unat tarindex);
               t \<leftarrow> store_at t (unat tarindex) (b OR pos);
               Some (Some (tarindex + 1, 0), Some t)
             })
      else Some (Some (tarindex, state), target))"

text \<open>
  The loop ends with the character it stops at (NUL or the pad character), the string behind
  it, the index and the state, or with a failure.
\<close>

fun pton_loop ::
  "size \<Rightarrow> byte list \<Rightarrow> u32 \<Rightarrow> u32 \<Rightarrow> byte list option \<Rightarrow>
   ((byte \<times> byte list \<times> u32 \<times> u32) option \<times> byte list option) option" where
  "pton_loop targsize [] tarindex state target = None"
| "pton_loop targsize (ch # src) tarindex state target =
     (if ch = 0 then Some (Some (ch, src, tarindex, state), target)
      else do {
        space \<leftarrow> isspace ch;
        if space then pton_loop targsize src tarindex state target
        else if ch = Pad64 then Some (Some (ch, src, tarindex, state), target)
        else (case strchr Base64 ch of
            None \<Rightarrow> Some (None, target)
          | Some pos \<Rightarrow> do {
              (r, target) \<leftarrow> pton_digit targsize (of_nat pos) tarindex state target;
              (case r of
                 None \<Rightarrow> Some (None, target)
               | Some (tarindex, state) \<Rightarrow> pton_loop targsize src tarindex state target)
            })
      })"

definition next_char :: "byte list \<Rightarrow> (byte \<times> byte list) option" where
  "next_char src = (case src of [] \<Rightarrow> None | ch # src \<Rightarrow> Some (ch, src))"

fun skip_spaces :: "byte \<Rightarrow> byte list \<Rightarrow> (byte \<times> byte list) option" where
  "skip_spaces ch src =
     (if ch = 0 then Some (ch, src)
      else do {
        space \<leftarrow> isspace ch;
        if \<not> space then Some (ch, src)
        else (case src of [] \<Rightarrow> None | c # src \<Rightarrow> skip_spaces c src)
      })"

declare skip_spaces.simps [simp del]

text \<open>What may follow the pad characters; then the bits beyond the last byte must be zero.\<close>

definition pton_end :: "byte \<Rightarrow> byte list \<Rightarrow> u32 \<Rightarrow> byte list option \<Rightarrow> int option" where
  "pton_end ch src tarindex target = do {
     (ch, src) \<leftarrow> skip_spaces ch src;
     if ch \<noteq> 0 then Some (-1)
     else do {
       extra \<leftarrow> (case target of None \<Rightarrow> Some False
         | Some t \<Rightarrow> map_option (\<lambda>b. b \<noteq> 0) (load_at t (unat tarindex)));
       Some (if extra then -1 else sint tarindex)
     }
   }"

definition pton_pad :: "byte list \<Rightarrow> u32 \<Rightarrow> u32 \<Rightarrow> byte list option \<Rightarrow> int option" where
  "pton_pad src tarindex state target = do {
     (ch, src) \<leftarrow> next_char src;
     if state = 0 \<or> state = 1 then Some (-1)
     else if state = 2 then do {
       (ch, src) \<leftarrow> skip_spaces ch src;
       if ch \<noteq> Pad64 then Some (-1)
       else do {
         (ch, src) \<leftarrow> next_char src;
         pton_end ch src tarindex target
       }
     }
     else if state = 3 then pton_end ch src tarindex target
     else Some (sint tarindex)
   }"

definition f_b64_pton :: "byte list \<Rightarrow> byte list option \<Rightarrow> size \<Rightarrow> (int \<times> byte list option) option" where
  "f_b64_pton src target targsize = do {
     (r, target) \<leftarrow> pton_loop targsize src 0 0 target;
     (case r of
        None \<Rightarrow> Some (-1, target)
      | Some (ch, src, tarindex, state) \<Rightarrow>
          if ch = Pad64 then do {
            v \<leftarrow> pton_pad src tarindex state target;
            Some (v, target)
          }
          else Some (if state \<noteq> 0 then -1 else sint tarindex, target))
   }"

section \<open>Digits\<close>

lemma strchr_nth: "distinct xs \<Longrightarrow> n < length xs \<Longrightarrow> strchr xs (xs ! n) = Some n"
proof (induction xs arbitrary: n)
  case (Cons x xs)
  then show ?case by (cases n) auto
qed simp

lemma Base64_facts: "length Base64 = 64" "distinct Base64"
  "\<forall>c \<in> set Base64. isspace c = Some False \<and> c \<noteq> 0 \<and> c \<noteq> Pad64"
  by (simp_all add: Base64_def ascii_def isspace_def Pad64_def)

lemma digit_char:
  assumes "unat i < 64"
  shows "strchr Base64 (digit i) = Some (unat i)" "isspace (digit i) = Some False" "digit i \<noteq> 0" "digit i \<noteq> Pad64"
proof -
  have "digit i \<in> set Base64" unfolding digit_def using assms by (intro nth_mem) (simp add: Base64_facts)
  then show "isspace (digit i) = Some False" "digit i \<noteq> 0" "digit i \<noteq> Pad64"
    using Base64_facts(3) by auto
  show "strchr Base64 (digit i) = Some (unat i)"
    unfolding digit_def using assms Base64_facts by (intro strchr_nth) simp_all
qed

lemma masks: "(0x03 :: byte) = mask 2" "(0x0f :: byte) = mask 4" "(0x3f :: byte) = mask 6"
  by (simp_all add: mask_eq_exp_minus_1)

lemma outputs_or:
  "output1 i0 i1 = push_bit 4 (take_bit 2 i0) OR drop_bit 4 i1"
  "output2 i1 i2 = push_bit 2 (take_bit 4 i1) OR drop_bit 6 i2"
  "output3 i2 = take_bit 6 i2"
proof -
  show "output1 i0 i1 = push_bit 4 (take_bit 2 i0) OR drop_bit 4 i1"
    unfolding output1_def masks take_bit_eq_mask [symmetric]
    by (rule disjunctive_add_eq_or) (auto simp: word_eq_bits bit_simps dest: bit_imp_le_length)
  show "output2 i1 i2 = push_bit 2 (take_bit 4 i1) OR drop_bit 6 i2"
    unfolding output2_def masks take_bit_eq_mask [symmetric]
    by (rule disjunctive_add_eq_or) (auto simp: word_eq_bits bit_simps dest: bit_imp_le_length)
  show "output3 i2 = take_bit 6 i2"
    unfolding output3_def masks take_bit_eq_mask [symmetric] ..
qed

lemma outputs_small: "unat (output0 i0) < 64" "unat (output1 i0 i1) < 64" "unat (output2 i1 i2) < 64" "unat (output3 i2) < 64"
proof -
  have less: "unat w < 64" if "\<And>k. bit w k \<Longrightarrow> k < 6" for w :: byte
    using that take_bit_unat_less [of 6 w] by (auto simp: word_eq_bits bit_simps)
  show "unat (output0 i0) < 64" "unat (output1 i0 i1) < 64" "unat (output2 i1 i2) < 64" "unat (output3 i2) < 64"
    unfolding outputs_or output0_def
    by (rule less; fastforce simp: bit_simps dest: bit_imp_le_length)+
qed

lemma of_nat_unat_byte: "(of_nat (unat i) :: byte) = i" by simp

lemma outputs_back:
  "push_bit 2 (output0 i0) OR drop_bit 4 (output1 i0 i1) = i0"
  "push_bit 4 (output1 i0 i1 AND 0x0f) OR drop_bit 2 (output2 i1 i2) = i1"
  "push_bit 6 (output2 i1 i2 AND 0x03) OR output3 i2 = i2"
  "push_bit 4 (output1 i0 0 AND 0x0f) = 0" "push_bit 6 (output2 i1 0 AND 0x03) = 0"
proof -
  have eq: "w = v" if "\<And>k. k < 8 \<Longrightarrow> bit w k = bit v k" for w v :: byte
    using that by (simp add: word_eq_bits)
  have shift: "Suc (Suc (k - 2)) = k" if "2 \<le> k" for k using that by simp
  show "push_bit 2 (output0 i0) OR drop_bit 4 (output1 i0 i1) = i0"
    unfolding outputs_or output0_def masks
  proof (rule eq)
    fix k :: nat assume "k < 8"
    then show "bit (push_bit 2 (drop_bit 2 i0) OR drop_bit 4 (push_bit 4 (take_bit 2 i0) OR drop_bit 4 i1)) k = bit i0 k"
      by (cases "2 \<le> k") (auto simp: bit_simps shift dest: bit_imp_le_length)
  qed
  show "push_bit 4 (output1 i0 i1 AND 0x0f) OR drop_bit 2 (output2 i1 i2) = i1"
    unfolding outputs_or output0_def masks by (rule eq) (auto simp: bit_simps dest: bit_imp_le_length)
  show "push_bit 6 (output2 i1 i2 AND 0x03) OR output3 i2 = i2"
    unfolding outputs_or output0_def masks by (rule eq) (auto simp: bit_simps dest: bit_imp_le_length)
  show "push_bit 4 (output1 i0 0 AND 0x0f) = 0" "push_bit 6 (output2 i1 0 AND 0x03) = 0"
    unfolding outputs_or masks by (rule eq; auto simp: bit_simps)+
qed

section \<open>Quanta\<close>

lemma store_at_append: "store_at (xs @ a # ys) (length xs) b = Some (xs @ b # ys)"
  by (simp add: store_at_def)

lemma load_at_append: "load_at (xs @ a # ys) (length xs) = Some a"
  by (simp add: load_at_def)

lemma unat_small:
  "n < 2 ^ 32 \<Longrightarrow> unat (of_nat n :: u32) = n" "n < 2 ^ 64 \<Longrightarrow> unat (of_nat n :: size) = n"
  by (simp_all add: unat_of_nat take_bit_nat_eq_self_iff)

lemma full_iff: "n < 2 ^ 32 \<Longrightarrow> ts \<le> (ucast (of_nat n :: u32) :: size) \<longleftrightarrow> unat ts \<le> n"
  by (simp add: word_le_nat_alt unat_ucast_up unat_small)

text \<open>A digit for an index inside the target, by state.\<close>

lemma digit_0:
  "length xs < unat ts \<Longrightarrow> length xs < 2 ^ 31 \<Longrightarrow>
   pton_digit ts p (of_nat (length xs)) 0 (Some (xs @ a # ys)) =
     Some (Some (of_nat (length xs), 1), Some (xs @ push_bit 2 p # ys))"
  by (simp add: pton_digit_def full_iff unat_small store_at_append not_le)

lemma digit_next:
  assumes "Suc (length xs) < unat ts" "length xs < 2 ^ 31"
  shows "pton_digit ts p (of_nat (length xs)) 1 (Some (xs @ a # b # ys)) =
      Some (Some (of_nat (Suc (length xs)), 2), Some (xs @ (a OR drop_bit 4 p) # push_bit 4 (p AND 0x0f) # ys))"
    "pton_digit ts p (of_nat (length xs)) 2 (Some (xs @ a # b # ys)) =
      Some (Some (of_nat (Suc (length xs)), 3), Some (xs @ (a OR drop_bit 2 p) # push_bit 6 (p AND 0x03) # ys))"
proof -
  have next1: "(of_nat (length xs) :: u32) + 1 = of_nat (Suc (length xs))" by simp
  have store: "store_at (xs @ c # b # ys) (Suc (length xs)) d = Some (xs @ c # d # ys)" for c d
    using store_at_append [of "xs @ [c]" b ys d] by simp
  have len: "length xs < 2 ^ 32" "Suc (length xs) < 2 ^ 32" using assms(2) by simp_all
  show "pton_digit ts p (of_nat (length xs)) 1 (Some (xs @ a # b # ys)) =
      Some (Some (of_nat (Suc (length xs)), 2), Some (xs @ (a OR drop_bit 4 p) # push_bit 4 (p AND 0x0f) # ys))"
    "pton_digit ts p (of_nat (length xs)) 2 (Some (xs @ a # b # ys)) =
      Some (Some (of_nat (Suc (length xs)), 3), Some (xs @ (a OR drop_bit 2 p) # push_bit 6 (p AND 0x03) # ys))"
    using assms(1) unfolding pton_digit_def next1 full_iff [OF len(1)] full_iff [OF len(2)] unat_small(1) [OF len(1)] unat_small(1) [OF len(2)]
    by (simp_all add: load_at_append store_at_append store not_le del: of_nat_Suc)
qed

lemma digit_3:
  "length xs < unat ts \<Longrightarrow> length xs < 2 ^ 31 \<Longrightarrow>
   pton_digit ts p (of_nat (length xs)) 3 (Some (xs @ a # ys)) =
     Some (Some (of_nat (Suc (length xs)), 0), Some (xs @ (a OR p) # ys))"
  by (simp add: pton_digit_def full_iff unat_small store_at_append load_at_append not_le)

lemma pton_loop_digit:
  "unat i < 64 \<Longrightarrow> pton_digit ts i ti st t = Some (Some (ti', st'), t') \<Longrightarrow>
   pton_loop ts (digit i # src) ti st t = pton_loop ts src ti' st' t'"
  by (simp add: digit_char)

lemma pton_loop_one:
  assumes "Suc (length xs) < unat ts" "length xs < 2 ^ 30"
  shows "pton_loop ts (digit (output0 i0) # digit (output1 i0 i1) # src) (of_nat (length xs)) 0 (Some (xs @ a # b # ys)) =
    pton_loop ts src (of_nat (Suc (length xs))) 2 (Some (xs @ i0 # push_bit 4 (output1 i0 i1 AND 0x0f) # ys))"
proof -
  have len: "length xs < unat ts" "length xs < 2 ^ 31" using assms by simp_all
  show ?thesis
    by (simp only: pton_loop_digit [OF outputs_small(1) digit_0 [OF len]]
        pton_loop_digit [OF outputs_small(2) digit_next(1) [OF assms(1) len(2)]] outputs_back)
qed

lemma pton_loop_two:
  assumes "Suc (Suc (length xs)) < unat ts" "length xs < 2 ^ 30"
  shows "pton_loop ts (digit (output0 i0) # digit (output1 i0 i1) # digit (output2 i1 i2) # src)
      (of_nat (length xs)) 0 (Some (xs @ a # b # c # ys)) =
    pton_loop ts src (of_nat (Suc (Suc (length xs)))) 3
      (Some (xs @ i0 # i1 # push_bit 6 (output2 i1 i2 AND 0x03) # ys))"
proof -
  have len: "Suc (length xs) < unat ts" "Suc (length (xs @ [i0])) < unat ts" "length (xs @ [i0]) < 2 ^ 31"
    using assms by simp_all
  have "pton_digit ts (output2 i1 i2) (of_nat (Suc (length xs))) 2
      (Some (xs @ i0 # push_bit 4 (output1 i0 i1 AND 0x0f) # c # ys)) =
    Some (Some (of_nat (Suc (Suc (length xs))), 3), Some (xs @ i0 # i1 # push_bit 6 (output2 i1 i2 AND 0x03) # ys))"
    using digit_next(2) [OF len(2,3), of "output2 i1 i2"] by (simp add: outputs_back del: of_nat_Suc push_bit_and)
  from pton_loop_digit [OF outputs_small(3) this] show ?thesis
    by (simp only: pton_loop_one [OF len(1) assms(2)])
qed

lemma pton_loop_three:
  assumes "Suc (Suc (length xs)) < unat ts" "length xs < 2 ^ 30"
  shows "pton_loop ts (digit (output0 i0) # digit (output1 i0 i1) # digit (output2 i1 i2) # digit (output3 i2) # src)
      (of_nat (length xs)) 0 (Some (xs @ a # b # c # ys)) =
    pton_loop ts src (of_nat (length (xs @ [i0, i1, i2]))) 0 (Some ((xs @ [i0, i1, i2]) @ ys))"
proof -
  have len: "length (xs @ [i0, i1]) < unat ts" "length (xs @ [i0, i1]) < 2 ^ 31" using assms by simp_all
  have "pton_digit ts (output3 i2) (of_nat (Suc (Suc (length xs)))) 3
      (Some (xs @ i0 # i1 # push_bit 6 (output2 i1 i2 AND 0x03) # ys)) =
    Some (Some (of_nat (length (xs @ [i0, i1, i2])), 0), Some ((xs @ [i0, i1, i2]) @ ys))"
    using digit_3 [OF len, of "output3 i2"] by (simp add: outputs_back del: of_nat_Suc push_bit_and)
  from pton_loop_digit [OF outputs_small(4) this] show ?thesis
    by (simp only: pton_loop_two [OF assms])
qed

section \<open>What is encoded\<close>

fun b64_chars :: "byte list \<Rightarrow> byte list" where
  "b64_chars (i0 # i1 # i2 # src) =
     [digit (output0 i0), digit (output1 i0 i1), digit (output2 i1 i2), digit (output3 i2)] @ b64_chars src"
| "b64_chars [i0, i1] = [digit (output0 i0), digit (output1 i0 i1), digit (output2 i1 0), Pad64]"
| "b64_chars [i0] = [digit (output0 i0), digit (output1 i0 0), Pad64, Pad64]"
| "b64_chars [] = []"

lemma length_b64_chars: "length (b64_chars src) = 4 * ((length src + 2) div 3)"
proof -
  have "(5 + n) div 3 = Suc ((n + 2) div 3)" for n :: nat using div_add_self1 [of 3 "n + 2"] by (simp add: add.commute)
  then show ?thesis by (induction src rule: b64_chars.induct) simp_all
qed

lemma put_quantum_append:
  assumes "length (xs @ ys) < 2 ^ 31" "unat ts \<le> length (xs @ ys)"
  shows "put_quantum [a, b, c, d] ts (xs @ ys) (of_nat (length xs)) =
    (if length xs + 4 \<le> unat ts
     then Some (Some ((xs @ [a, b, c, d]) @ drop 4 ys, of_nat (length (xs @ [a, b, c, d])))) else Some None)"
proof -
  have sum: "(of_nat (length xs) :: size) + 4 = of_nat (length xs + 4)"
    "(of_nat (length xs) :: size) + 1 = of_nat (length xs + 1)"
    "(of_nat (length xs) :: size) + 2 = of_nat (length xs + 2)"
    "(of_nat (length xs) :: size) + 3 = of_nat (length xs + 3)" by simp_all
  have small: "k \<le> 4 \<Longrightarrow> unat (of_nat (length xs + k) :: size) = length xs + k" for k
    using assms(1) by (intro unat_small(2)) simp
  have full: "ts < of_nat (length xs + 4) \<longleftrightarrow> \<not> length xs + 4 \<le> unat ts"
    using small [of 4] by (simp add: word_less_nat_alt not_le del: of_nat_add)
  show ?thesis
  proof (cases "length xs + 4 \<le> unat ts")
    case True
    then have "4 \<le> length ys" using assms(2) by simp
    then obtain y0 y1 y2 y3 zs where ys: "ys = y0 # y1 # y2 # y3 # zs"
      by (auto simp: Suc_le_length_iff numeral_eq_Suc)
    have s0: "store_at (xs @ y0 # y1 # y2 # y3 # zs) (length xs) a = Some (xs @ a # y1 # y2 # y3 # zs)"
      by (rule store_at_append)
    have s1: "store_at (xs @ a # y1 # y2 # y3 # zs) (length xs + 1) b = Some (xs @ a # b # y2 # y3 # zs)"
      using store_at_append [of "xs @ [a]" y1 "y2 # y3 # zs" b] by simp
    have s2: "store_at (xs @ a # b # y2 # y3 # zs) (length xs + 2) c = Some (xs @ a # b # c # y3 # zs)"
      using store_at_append [of "xs @ [a, b]" y2 "y3 # zs" c] by simp
    have s3: "store_at (xs @ a # b # c # y3 # zs) (length xs + 3) d = Some (xs @ a # b # c # d # zs)"
      using store_at_append [of "xs @ [a, b, c]" y3 "zs" d] by (simp add: numeral_3_eq_3)
    have n: "[a, b, c, d] ! 0 = a" "[a, b, c, d] ! 1 = b" "[a, b, c, d] ! 2 = c" "[a, b, c, d] ! 3 = d" by simp_all
    have len: "length (xs @ [a, b, c, d]) = length xs + 4" by simp
    from True full show ?thesis
      unfolding put_quantum_def sum ys n len
      using s0 s1 s2 s3 small [of 0] small [of 1] small [of 2] small [of 3]
      by (simp del: of_nat_add of_nat_Suc)
  next
    case False
    with full show ?thesis unfolding put_quantum_def sum by simp
  qed
qed

definition ntop_run :: "size \<Rightarrow> byte list \<Rightarrow> byte list \<Rightarrow> size \<Rightarrow> (int \<times> byte list) option" where
  "ntop_run targsize src target datalength = do {
     (r, target) \<leftarrow> ntop_loop targsize src target datalength;
     (case r of
        None \<Rightarrow> Some (-1, target)
      | Some (src, datalength, target) \<Rightarrow> do {
          r \<leftarrow> (if src \<noteq> [] then put_quantum (ntop_rest src) targsize target datalength
                else Some (Some (target, datalength)));
          (case r of
             None \<Rightarrow> Some (-1, target)
           | Some (target, datalength) \<Rightarrow>
               if datalength \<ge> targsize then Some (-1, target)
               else do {
                 target \<leftarrow> store_at target (unat datalength) 0;
                 Some (sint (ucast datalength :: u32), target)
               })
        })
   }"

lemma ntop_run_end:
  assumes "length (xs @ ys) < 2 ^ 31" "unat ts \<le> length (xs @ ys)"
  shows "ntop_run ts [] (xs @ ys) (of_nat (length xs)) =
    (if length xs < unat ts then Some (int (length xs), xs @ 0 # drop 1 ys) else Some (-1, xs @ ys))"
proof -
  have small: "unat (of_nat (length xs) :: size) = length xs"
    using assms(1) by (intro unat_small(2)) simp
  have full: "ts \<le> of_nat (length xs) \<longleftrightarrow> \<not> length xs < unat ts"
    by (simp add: word_le_nat_alt small not_less)
  have "(ucast (of_nat (length xs) :: size) :: u32) = of_nat (length xs)"
    using assms(1) by (simp add: unsigned_of_nat take_bit_nat_eq_self)
  moreover have "sint (of_nat (length xs) :: u32) = int (length xs)"
    using assms(1) by (simp add: signed_of_nat  signed_take_bit_int_eq_self_iff)
  moreover have "store_at (xs @ ys) (length xs) 0 = Some (xs @ 0 # drop 1 ys)" if "length xs < unat ts"
  proof -
    from that assms(2) obtain y zs where "ys = y # zs" by (cases ys) auto
    then show ?thesis using store_at_append [of xs y zs 0] by simp
  qed
  ultimately show ?thesis by (simp add: ntop_run_def full small)
qed

lemma b64_chars_step:
  assumes "src \<noteq> []"
  shows "b64_chars src = take 4 (b64_chars src) @ b64_chars (drop 3 src)" "length (take 4 (b64_chars src)) = 4"
  using assms by (induction src rule: b64_chars.induct) simp_all

lemma ntop_run_step:
  assumes "src \<noteq> []" "length (xs @ ys) < 2 ^ 31" "unat ts \<le> length (xs @ ys)"
  shows "ntop_run ts src (xs @ ys) (of_nat (length xs)) =
    (if length xs + 4 \<le> unat ts
     then ntop_run ts (drop 3 src) ((xs @ take 4 (b64_chars src)) @ drop 4 ys)
       (of_nat (length (xs @ take 4 (b64_chars src))))
     else Some (-1, xs @ ys))"
  using assms(1)
proof (cases src rule: b64_chars.cases)
  case (1 i0 i1 i2 rest)
  then show ?thesis
    by (simp add: ntop_run_def put_quantum_append [OF assms(2,3)] numeral_3_eq_3 del: append_assoc of_nat_Suc)
next
  case (2 i0 i1)
  then have "ntop_rest src = take 4 (b64_chars src)" by (simp add: ntop_rest_def Let_def)
  with 2 show ?thesis
    by (simp add: ntop_run_def put_quantum_append [OF assms(2,3)] del: append_assoc of_nat_Suc)
next
  case (3 i0)
  then have "ntop_rest src = take 4 (b64_chars src)" by (simp add: ntop_rest_def Let_def)
  with 3 show ?thesis
    by (simp add: ntop_run_def put_quantum_append [OF assms(2,3)] del: append_assoc of_nat_Suc)
qed simp

lemma ntop_run_chars:
  assumes "length (xs @ ys) < 2 ^ 31" "unat ts \<le> length (xs @ ys)"
  shows "(length xs + length (b64_chars src) < unat ts \<longrightarrow>
    ntop_run ts src (xs @ ys) (of_nat (length xs)) =
      Some (int (length xs + length (b64_chars src)),
        xs @ b64_chars src @ 0 # drop (Suc (length (b64_chars src))) ys)) \<and>
    (\<not> length xs + length (b64_chars src) < unat ts \<longrightarrow> (\<exists>t. ntop_run ts src (xs @ ys) (of_nat (length xs)) = Some (-1, t) \<and>
      length t = length (xs @ ys) \<and> drop (unat ts) t = drop (unat ts) (xs @ ys)))"
  using assms
proof (induction "length src" arbitrary: src xs ys rule: less_induct)
  case less
  show ?case
  proof (cases "src = []")
    case True
    with ntop_run_end [OF less.prems] show ?thesis by simp
  next
    case False
    define cs where "cs = take 4 (b64_chars src)"
    note step = ntop_run_step [OF False less.prems, folded cs_def]
    have chars: "b64_chars src = cs @ b64_chars (drop 3 src)" "length cs = 4"
      using b64_chars_step [OF False] by (simp_all add: cs_def)
    show ?thesis
    proof (cases "length xs + 4 \<le> unat ts")
      case True
      then have "length ((xs @ cs) @ drop 4 ys) = length (xs @ ys)" using less.prems(2) chars by simp
      moreover have "drop (unat ts) ((xs @ cs) @ drop 4 ys) = drop (unat ts) (xs @ ys)"
        using True chars(2) by simp
      moreover have "length (drop 3 src) < length src" using False by simp
      ultimately show ?thesis
        using less.hyps [of "drop 3 src" "xs @ cs" "drop 4 ys"] less.prems True
        unfolding step chars(1) if_P [OF True] by (simp add: chars(2) add.assoc)
    next
      case no: False
      then show ?thesis by (simp add: step chars)
    qed
  qed
qed

lemma f_b64_ntop_chars:
  assumes "length target < 2 ^ 31" "unat ts \<le> length target"
  shows "(length (b64_chars src) < unat ts \<longrightarrow>
    f_b64_ntop src target ts =
      Some (int (length (b64_chars src)), b64_chars src @ 0 # drop (Suc (length (b64_chars src))) target)) \<and>
    (\<not> length (b64_chars src) < unat ts \<longrightarrow> (\<exists>t. f_b64_ntop src target ts = Some (-1, t) \<and> length t = length target \<and>
      drop (unat ts) t = drop (unat ts) target))"
proof -
  have "f_b64_ntop src target ts = ntop_run ts src target 0" by (simp only: f_b64_ntop_def ntop_run_def)
  with ntop_run_chars [of "[]" target ts src] assms show ?thesis by simp
qed

section \<open>What is decoded\<close>

definition pton_run :: "size \<Rightarrow> byte list \<Rightarrow> u32 \<Rightarrow> u32 \<Rightarrow> byte list option \<Rightarrow> (int \<times> byte list option) option" where
  "pton_run targsize src tarindex state target = do {
     (r, target) \<leftarrow> pton_loop targsize src tarindex state target;
     (case r of
        None \<Rightarrow> Some (-1, target)
      | Some (ch, src, tarindex, state) \<Rightarrow>
          if ch = Pad64 then do {
            v \<leftarrow> pton_pad src tarindex state target;
            Some (v, target)
          }
          else Some (if state \<noteq> 0 then -1 else sint tarindex, target))
   }"

lemma f_b64_pton_run: "f_b64_pton src target ts = pton_run ts src 0 0 target"
  by (simp only: f_b64_pton_def pton_run_def)

text \<open>The room the decoder needs: it writes one byte beyond the data unless a quantum is full.\<close>

definition decode_room :: "nat \<Rightarrow> nat" where
  "decode_room n = (if n mod 3 = 0 then n else Suc n)"

lemma sint_small: "n < 2 ^ 31 \<Longrightarrow> sint (of_nat n :: u32) = int n"
  by (simp add: signed_of_nat signed_take_bit_int_eq_self_iff)

lemma pad_loop: "pton_loop ts (Pad64 # src) ti st t = Some (Some (Pad64, src, ti, st), t)"
  by (simp add: Pad64_def isspace_def)

lemma skip_stop: "skip_spaces 0 src = Some (0, src)" "skip_spaces Pad64 src = Some (Pad64, src)"
  by (simp_all add: skip_spaces.simps Pad64_def isspace_def)

lemma pton_end_0: "n < length t \<Longrightarrow> n < 2 ^ 31 \<Longrightarrow> t ! n = 0 \<Longrightarrow> pton_end 0 src (of_nat n) (Some t) = Some (int n)"
  by (simp add: pton_end_def skip_stop load_at_def unat_small sint_small)

lemma pton_run_chars:
  assumes "decode_room (length src) \<le> length ys" "length xs + decode_room (length src) \<le> unat ts"
    "length (xs @ ys) < 2 ^ 30"
  shows "\<exists>zs. pton_run ts (b64_chars src @ 0 # more) (of_nat (length xs)) 0 (Some (xs @ ys)) =
    Some (int (length xs + length src), Some (xs @ src @ zs))"
  using assms
proof (induction src arbitrary: xs ys rule: b64_chars.induct)
  case (1 i0 i1 i2 src)
  have room: "decode_room (length (i0 # i1 # i2 # src)) = 3 + decode_room (length src)"
    by (simp add: decode_room_def mod_Suc)
  have ge: "decode_room n \<ge> n" for n by (simp add: decode_room_def)
  from 1(2) room obtain a b c zs where ys: "ys = a # b # c # zs"
    by (auto simp: Suc_le_length_iff numeral_3_eq_3)
  have len: "Suc (Suc (length xs)) < unat ts" "length xs < 2 ^ 30" using 1(3,4) room by simp_all
  have "pton_run ts (b64_chars (i0 # i1 # i2 # src) @ 0 # more) (of_nat (length xs)) 0 (Some (xs @ ys)) =
      pton_run ts (b64_chars src @ 0 # more) (of_nat (length (xs @ [i0, i1, i2]))) 0 (Some ((xs @ [i0, i1, i2]) @ zs))"
    unfolding pton_run_def ys using pton_loop_three [OF len] by simp
  with 1(1) [of zs "xs @ [i0, i1, i2]"] 1(2-4) room show ?case by (simp add: ys add.assoc)
next
  case (2 i0 i1)
  then have room: "decode_room (length [i0, i1]) = 3" by (simp add: decode_room_def)
  with 2 obtain a b c zs where ys: "ys = a # b # c # zs"
    by (auto simp: Suc_le_length_iff numeral_3_eq_3)
  have len: "Suc (Suc (length xs)) < unat ts" "length xs < 2 ^ 30" using 2 room by simp_all
  let ?t = "xs @ i0 # i1 # 0 # zs"
  have "pton_end 0 more (of_nat (Suc (Suc (length xs)))) (Some ?t) = Some (int (Suc (Suc (length xs))))"
    using len(2) by (intro pton_end_0) (simp_all add: nth_append)
  then show ?case
    unfolding pton_run_def ys using pton_loop_two [OF len, of i0 i1 0 "Pad64 # 0 # more" a b c zs]
    by (simp add: pad_loop pton_pad_def next_char_def outputs_back del: of_nat_Suc pton_loop.simps push_bit_and)
next
  case (3 i0)
  then have room: "decode_room (length [i0]) = 2" by (simp add: decode_room_def)
  with 3 obtain a b zs where ys: "ys = a # b # zs"
    by (auto simp: Suc_le_length_iff numeral_2_eq_2)
  have len: "Suc (length xs) < unat ts" "length xs < 2 ^ 30" using 3 room by simp_all
  let ?t = "xs @ i0 # 0 # zs"
  have "pton_end 0 more (of_nat (Suc (length xs))) (Some ?t) = Some (int (Suc (length xs)))"
    using len(2) by (intro pton_end_0) (simp_all add: nth_append)
  then show ?case
    unfolding pton_run_def ys using pton_loop_one [OF len, of i0 0 "Pad64 # Pad64 # 0 # more" a b zs]
    by (simp add: pad_loop pton_pad_def next_char_def skip_stop outputs_back del: of_nat_Suc pton_loop.simps push_bit_and)
next
  case 4
  then show ?case by (simp add: pton_run_def Pad64_def sint_small)
qed

section \<open>Decoding any string\<close>

text \<open>A string of 7-bit characters up to its NUL.\<close>

primrec ascii_string :: "byte list \<Rightarrow> bool" where
  "ascii_string [] = False"
| "ascii_string (c # cs) = (c = 0 \<or> c < 128 \<and> ascii_string cs)"

text \<open>The index stays inside the target while a byte is unfinished.\<close>

definition pton_inv :: "size \<Rightarrow> u32 \<Rightarrow> u32 \<Rightarrow> bool" where
  "pton_inv ts ti st \<longleftrightarrow> st \<in> {0, 1, 2, 3} \<and> (st \<noteq> 0 \<longrightarrow> unat ti < unat ts)"

definition same_beyond :: "nat \<Rightarrow> byte list \<Rightarrow> byte list \<Rightarrow> bool" where
  "same_beyond n t t' \<longleftrightarrow> length t' = length t \<and> drop n t' = drop n t"

lemma same_beyond_refl [simp]: "same_beyond n t t"
  by (simp add: same_beyond_def)

lemma same_beyond_trans: "same_beyond n t t' \<Longrightarrow> same_beyond n t' t'' \<Longrightarrow> same_beyond n t t''"
  by (simp add: same_beyond_def)

lemma same_beyond_update: "i < n \<Longrightarrow> same_beyond n t (t[i := b])"
  by (simp add: same_beyond_def)

lemma same_beyond_updates: "i < n \<Longrightarrow> j < n \<Longrightarrow> same_beyond n t (t[i := b, j := c])"
  by (simp add: same_beyond_def)

lemma pton_digit_total:
  assumes inv: "pton_inv ts ti st" and size: "unat ts \<le> length t" and small: "unat ti < 2 ^ 31"
  obtains r t' where "pton_digit ts p ti st (Some t) = Some (r, Some t')" "same_beyond (unat ts) t t'"
    "\<And>ti' st'. r = Some (ti', st') \<Longrightarrow> pton_inv ts ti' st' \<and> unat ti' \<le> Suc (unat ti)"
proof -
  have next1: "unat (ti + 1) = Suc (unat ti)" using small by (simp add: unat_word_ariths)
  have le: "ts \<le> ucast w \<longleftrightarrow> unat ts \<le> unat w" for w :: u32
    by (simp add: word_le_nat_alt unat_ucast_up)
  have st: "st = 0 \<or> st = 1 \<or> st = 2 \<or> st = 3" using inv by (auto simp: pton_inv_def)
  have "\<exists>r t'. pton_digit ts p ti st (Some t) = Some (r, Some t') \<and> same_beyond (unat ts) t t' \<and>
      (\<forall>ti' st'. r = Some (ti', st') \<longrightarrow> pton_inv ts ti' st' \<and> unat ti' \<le> Suc (unat ti))"
    using st inv size
    by (elim disjE) (auto simp: pton_digit_def pton_inv_def le next1 store_at_def load_at_def not_le
        same_beyond_update same_beyond_updates)
  then show thesis using that by blast
qed

lemma ascii_space: "c < 128 \<Longrightarrow> \<exists>b. isspace c = Some b"
  by (simp add: isspace_def)

lemma pton_loop_total:
  assumes "ascii_string src" "pton_inv ts ti st" "unat ts \<le> length t" "unat ti + length src < 2 ^ 31"
  shows "\<exists>r t'. pton_loop ts src ti st (Some t) = Some (r, Some t') \<and> same_beyond (unat ts) t t' \<and>
    (\<forall>ch src' ti' st'. r = Some (ch, src', ti', st') \<longrightarrow> pton_inv ts ti' st' \<and> unat ti' < 2 ^ 31 \<and>
      (ch = Pad64 \<longrightarrow> ascii_string src'))"
  using assms
proof (induction src arbitrary: ti st t)
  case (Cons c src)
  show ?case
  proof (cases "c = 0")
    case True
    with Cons.prems show ?thesis by (simp add: Pad64_def)
  next
    case nz: False
    with Cons.prems have src: "c < 128" "ascii_string src" by simp_all
    then obtain b where b: "isspace c = Some b" using ascii_space by blast
    show ?thesis
    proof (cases "b \<or> c = Pad64 \<or> strchr Base64 c = None")
      case True
      with nz b src Cons.IH [OF src(2) Cons.prems(2,3)] Cons.prems show ?thesis by auto
    next
      case False
      then obtain pos where pos: "strchr Base64 c = Some pos" by blast
      obtain r t' where d: "pton_digit ts (of_nat pos) ti st (Some t) = Some (r, Some t')"
          "same_beyond (unat ts) t t'"
          "\<And>ti' st'. r = Some (ti', st') \<Longrightarrow> pton_inv ts ti' st' \<and> unat ti' \<le> Suc (unat ti)"
        using pton_digit_total [OF Cons.prems(2,3)] Cons.prems(4) by (metis add_lessD1)
      show ?thesis
      proof (cases r)
        case None
        with nz b False pos d show ?thesis by simp
      next
        case (Some p)
        obtain ti' st' where p: "p = (ti', st')" by (cases p)
        from d(3) [of ti' st'] Some p have inv: "pton_inv ts ti' st'" "unat ti' + length src < 2 ^ 31"
          using Cons.prems(4) by auto
        have "unat ts \<le> length t'" using d(2) Cons.prems(3) by (simp add: same_beyond_def)
        from Cons.IH [OF src(2) inv(1) this inv(2)] obtain r2 t2 where
          "pton_loop ts src ti' st' (Some t') = Some (r2, Some t2)" "same_beyond (unat ts) t' t2"
          "\<forall>ch src' ti' st'. r2 = Some (ch, src', ti', st') \<longrightarrow> pton_inv ts ti' st' \<and> unat ti' < 2 ^ 31 \<and>
            (ch = Pad64 \<longrightarrow> ascii_string src')" by blast
        with nz b False pos d Some p same_beyond_trans [OF d(2)] show ?thesis by simp
      qed
    qed
  qed
qed simp

lemma skip_spaces_total:
  assumes "ascii_string (ch # src)"
  obtains ch' src' where "skip_spaces ch src = Some (ch', src')" "ascii_string (ch' # src')"
proof -
  have "\<exists>ch' src'. skip_spaces ch src = Some (ch', src') \<and> ascii_string (ch' # src')"
    using assms
  proof (induction src arbitrary: ch)
    case Nil
    then show ?case by (auto simp: skip_spaces.simps)
  next
    case (Cons c src)
    show ?case
    proof (cases "ch = 0")
      case False
      with Cons.prems obtain b where "isspace ch = Some b" "ascii_string (c # src)"
        using ascii_space by auto
      with False Cons.prems Cons.IH [of c] show ?thesis by (cases b) (auto simp: skip_spaces.simps [of ch])
    qed (simp add: skip_stop)
  qed
  then show thesis using that by blast
qed

lemma sint_ge: "unat ti < 2 ^ 31 \<Longrightarrow> -1 \<le> sint (ti :: u32)"
proof -
  assume "unat ti < 2 ^ 31"
  then have "sint (of_nat (unat ti) :: u32) = int (unat ti)" by (rule sint_small)
  moreover have "(of_nat (unat ti) :: u32) = ti" by simp
  ultimately have "sint ti = int (unat ti)" by (simp only:)
  also have "-1 \<le> int (unat ti)" by (rule order_trans [of _ 0]) (simp, rule of_nat_0_le_iff)
  finally show ?thesis .
qed

lemma pton_end_total:
  assumes "ascii_string (ch # src)" "unat ti < length t" "unat ti < 2 ^ 31"
  shows "\<exists>v \<ge> -1. pton_end ch src ti (Some t) = Some v"
proof -
  obtain ch' src' where "skip_spaces ch src = Some (ch', src')" using skip_spaces_total [OF assms(1)] by blast
  with assms(2) sint_ge [OF assms(3)] show ?thesis by (auto simp: pton_end_def load_at_def)
qed

lemma pton_pad_total:
  assumes "ascii_string src" "pton_inv ts ti st" "unat ts \<le> length t" "unat ti < 2 ^ 31"
  shows "\<exists>v \<ge> -1. pton_pad src ti st (Some t) = Some v"
proof -
  obtain ch rest where src: "src = ch # rest" using assms(1) by (cases src) auto
  consider "st = 0 \<or> st = 1" | "st = 2" "unat ti < length t" | "st = 3" "unat ti < length t"
    using assms(2,3) by (auto simp: pton_inv_def)
  then show ?thesis
  proof cases
    case 2
    obtain c r where c: "skip_spaces ch rest = Some (c, r)" "ascii_string (c # r)"
      using skip_spaces_total assms(1) src by blast
    show ?thesis
    proof (cases "c = Pad64")
      case True
      then obtain d q where "r = d # q" "ascii_string (d # q)" using c(2) by (cases r) (auto simp: Pad64_def)
      with True c 2 pton_end_total [of d q ti t] assms(4) show ?thesis
        by (auto simp: pton_pad_def next_char_def src)
    qed (use c 2 in \<open>auto simp: pton_pad_def next_char_def src\<close>)
  next
    case 3
    with pton_end_total [of ch rest ti t] assms(1,4) show ?thesis by (auto simp: pton_pad_def next_char_def src)
  qed (auto simp: pton_pad_def next_char_def src)
qed

lemma pton_total:
  assumes "ascii_string src" "unat ts \<le> length t" "length src < 2 ^ 31"
  shows "\<exists>v t'. f_b64_pton src (Some t) ts = Some (v, Some t') \<and> -1 \<le> v \<and> same_beyond (unat ts) t t'"
proof -
  have "pton_inv ts 0 0" by (simp add: pton_inv_def)
  from pton_loop_total [OF assms(1) this assms(2)] assms(3) obtain r t' where
      l: "pton_loop ts src 0 0 (Some t) = Some (r, Some t')" "same_beyond (unat ts) t t'"
      "\<forall>ch src' ti' st'. r = Some (ch, src', ti', st') \<longrightarrow> pton_inv ts ti' st' \<and> unat ti' < 2 ^ 31 \<and>
        (ch = Pad64 \<longrightarrow> ascii_string src')" by auto
  show ?thesis
  proof (cases r)
    case None
    with l show ?thesis by (simp add: f_b64_pton_def)
  next
    case (Some q)
    obtain ch src' ti' st' where q: "q = (ch, src', ti', st')" by (cases q)
    with l(3) Some have i: "pton_inv ts ti' st'" "unat ti' < 2 ^ 31" "ch = Pad64 \<Longrightarrow> ascii_string src'" by auto
    have "unat ts \<le> length t'" using l(2) assms(2) by (simp add: same_beyond_def)
    from pton_pad_total [OF i(3) i(1) this i(2)] l Some q sint_ge [OF i(2)] show ?thesis
      by (cases "ch = Pad64") (auto simp: f_b64_pton_def)
  qed
qed

text \<open>On a character beyond ASCII the code calls \<open>isspace\<close> with a negative argument.\<close>

lemma pton_negative_char: "128 \<le> c \<Longrightarrow> f_b64_pton (c # src) t ts = None"
proof -
  assume c: "128 \<le> c"
  then have "isspace c = None" "c \<noteq> 0" by (auto simp: isspace_def)
  then show ?thesis by (simp add: f_b64_pton_def)
qed

lemma drop_encoded:
  assumes "length cs < n" "n \<le> length buf"
  shows "length (cs @ c # drop (Suc (length cs)) buf) = length buf"
    "drop n (cs @ c # drop (Suc (length cs)) buf) = drop n buf"
proof -
  from assms(1) obtain k where "n = length cs + Suc k" using less_imp_Suc_add by force
  then show "drop n (cs @ c # drop (Suc (length cs)) buf) = drop n buf" by (simp add: add.commute)
qed (use assms in simp)

section \<open>Properties\<close>

text \<open>C25: what \<open>f_b64_ntop\<close> encodes, \<open>f_b64_pton\<close> decodes: it returns the number of bytes, and
  the target begins with them.  The target needs one more byte than the data when their
  number is not a multiple of three.\<close>

lemma base64_roundtrip:
  assumes "f_b64_ntop src buf targsize = Some (n, buf')" "n \<noteq> -1" "unat targsize \<le> length buf" "length buf < 2 ^ 31"
    and "(if length src mod 3 = 0 then length src else Suc (length src)) \<le> unat outsize"
    and "unat outsize \<le> length out" "length out < 2 ^ 30"
  shows "\<exists>more. f_b64_pton buf' (Some out) outsize = Some (int (length src), Some (src @ more))"
proof -
  have "length (b64_chars src) < unat targsize"
    using f_b64_ntop_chars [OF assms(4,3), of src] assms(1,2) by auto
  then have buf': "buf' = b64_chars src @ 0 # drop (Suc (length (b64_chars src))) buf"
    using f_b64_ntop_chars [OF assms(4,3), of src] assms(1) by simp
  have "decode_room (length src) \<le> unat outsize" using assms(5) by (simp add: decode_room_def)
  then show ?thesis
    using pton_run_chars [of src out "[]" outsize] assms(6,7) by (simp add: f_b64_pton_run buf')
qed

lemma base64_roundtrip_witness:
  "\<exists>buf' more. f_b64_ntop [72, 105] (replicate 8 0) 8 = Some (4, buf') \<and>
    f_b64_pton buf' (Some (replicate 3 0)) 3 = Some (2, Some ([72, 105] @ more))"
proof -
  have "length (b64_chars [72, 105]) = 4" by (simp add: length_b64_chars)
  with f_b64_ntop_chars [of "replicate 8 0" 8 "[72, 105]"] obtain buf' where
    e: "f_b64_ntop [72, 105] (replicate 8 0) 8 = Some (4, buf')" by auto
  with base64_roundtrip [OF e, of 3 "replicate 3 0"] show ?thesis by auto
qed

text \<open>\<open>f_b64_ntop\<close> writes four characters for every three bytes or part of them and a NUL:
  it succeeds exactly if these fit into \<open>targsize\<close>, and then returns the number of
  characters; otherwise it returns -1.  It never writes beyond \<open>targsize\<close>.\<close>

lemma base64_encode_bounds:
  assumes "unat targsize \<le> length buf" "length buf < 2 ^ 31"
  shows "\<exists>buf'. f_b64_ntop src buf targsize =
      Some (if 4 * ((length src + 2) div 3) < unat targsize then int (4 * ((length src + 2) div 3)) else -1, buf') \<and>
    length buf' = length buf \<and> drop (unat targsize) buf' = drop (unat targsize) buf"
proof (cases "length (b64_chars src) < unat targsize")
  case True
  with f_b64_ntop_chars [OF assms(2,1), of src] drop_encoded [OF True assms(1), of 0] show ?thesis
    unfolding length_b64_chars [symmetric] if_P [OF True] by blast
next
  case False
  with f_b64_ntop_chars [OF assms(2,1), of src] show ?thesis
    unfolding length_b64_chars [symmetric] if_not_P [OF False] by blast
qed

text \<open>C37: \<open>f_b64_pton\<close> returns on every NUL-terminated string of 7-bit characters, with -1 or a
  number of bytes, reads no character behind the NUL, and changes the target only inside
  \<open>targsize\<close>.\<close>

lemma base64_decode_safe:
  assumes "ascii_string src" "unat targsize \<le> length out" "length src < 2 ^ 31"
  shows "\<exists>v out'. f_b64_pton src (Some out) targsize = Some (v, Some out') \<and> -1 \<le> v \<and>
    length out' = length out \<and> drop (unat targsize) out' = drop (unat targsize) out"
  using pton_total [OF assms] by (simp add: same_beyond_def)

lemma base64_decode_safe_witness:
  "\<exists>v out'. f_b64_pton [65, 32, 65, 61, 0] (Some [1, 2, 3]) 2 = Some (v, Some out') \<and> -1 \<le> v \<and>
    length out' = 3 \<and> drop 2 out' = [3]"
  using base64_decode_safe [of "[65, 32, 65, 61, 0]" 2 "[1, 2, 3]"] by (simp add: numeral_3_eq_3)

end
