(* ===== verification/Spec2Isabelle.thy ===== *)
theory Spec2Isabelle
  imports Decode_Properties Ldb_Properties Ldb_Block_Properties Ldb_Memtable_Properties Ldb_Database_Properties Ldb_Manifest_Properties Ldb_Table_Properties F_Base64
begin

text \<open>
  A verification library for the C and C++ code of the SMOLO+ application.

  The application is an iOS client of Firebase; its own screens are Swift.  The code with
  logic of its own that is written in C or C++ lies in three of the libraries it builds from
  source, and these are modelled here:

  \<^item> nanopb (\<open>Pods/nanopb\<close>), with which Firebase Messaging encodes and decodes protocol
    buffers;
  \<^item> LevelDB (\<open>Pods/leveldb-library\<close>), the store under the persistence of the Realtime
    Database;
  \<^item> the Base64 functions of SocketRocket (\<open>third_party/SocketRocket/fbase64.c\<close>), which the
    Realtime Database uses to open its web socket.

  \<^bold>\<open>Conventions.\<close>  A function of the code is a HOL function of the same name; a method has its
  class in front where the name would clash (\<open>WriteBatch_Put\<close>).  The type \<open>option\<close> stands for
  defined behaviour: \<open>None\<close> means access to memory that may not be accessed, a failed
  assertion, overflow of a signed integer, a shift by the width or more, or a loop that does
  not end.  Errors that the code reports are ordinary values.  Integers are words of their
  width (\<open>C_Prelude\<close>); \<open>size_t\<close> has 64 bits.  Loops are structural or well-founded recursions
  where they end by themselves, and otherwise \<open>partial_function (option)\<close>, so that a theorem
  with a result of the form \<open>Some\<close> includes termination.  What lies outside of the modelled
  code (callbacks, files, handlers) is a parameter; documented behaviour of it is a named
  predicate among the hypotheses (\<open>file_appends\<close>, \<open>file_reads\<close>, \<open>callbacks_safe\<close>), and every
  property with hypotheses is applied to a concrete instance by its witness.

  \<^bold>\<open>nanopb.\<close>  Structures live in a memory of bytes (\<open>C_Memory\<close>), a partial map from addresses,
  since descriptors address their members by offsets.
  \<^item> \<open>Pb_Types\<close>: \<open>pb.h\<close>, field types and descriptors, for the configuration of the application
    (32-bit field sizes, no packed structures, no allocation).
  \<^item> \<open>Pb_Common\<close>: \<open>pb_common.c\<close>, the iterator over the fields of a message, and where it goes.
  \<^item> \<open>Pb_Istream\<close>, \<open>Pb_Default\<close>, \<open>Pb_Decode\<close>: \<open>pb_decode.c\<close>, streams and wire formats, default
    values, fields and messages.
  \<^item> \<open>Pb_Ostream\<close>, \<open>Pb_Encode\<close>: \<open>pb_encode.c\<close>.
  \<^item> \<open>Pb_Reader\<close> and \<open>Pb_Emit\<close> state what a reader and a writer of a format promise: a reader on
    a memory stream is a parser of the bytes in front (the locale \<open>buffer_reader\<close>), a writer
    emits fixed bytes or fails with a full stream (\<open>emits\<close>).  \<open>Pb_Wire\<close> shows it of every wire
    format, \<open>Pb_Message\<close> of fields and whole messages (the locales \<open>field_encoder\<close> and
    \<open>message_encoding\<close>).
  \<^item> \<open>Pb_Safe\<close>, \<open>Pb_Safe_Fields\<close>, \<open>Pb_Safe_Message\<close>: the decoder on arbitrary input changes
    memory only where the descriptors say, and returns (the locales \<open>safe_decoder\<close> and
    \<open>safe_messages\<close>).
  \<^item> Properties: \<open>Wire_Properties\<close>, \<open>Encode_Properties\<close>, \<open>Decode_Properties\<close>.

  Messages nest, and the code recurses through tables of function pointers; \<open>pb_encode\<close> and
  \<open>pb_decode\<close> take a number \<open>depth\<close> that bounds the nesting, and are undefined beyond it.  The
  properties hold for every depth of at least the nesting of the message type (\<open>ok_message\<close>
  for decoding; for encoding, \<open>message_bytes\<close> is defined from that depth on).

  \<^bold>\<open>LevelDB.\<close>  A \<open>Slice\<close> or \<open>std::string\<close> is a list of bytes.
  \<^item> \<open>Ldb_Coding\<close>: \<open>util/coding\<close>.  The locale \<open>codec\<close> says what \<open>Put\<close> and \<open>Get\<close> promise each other;
    every format of the file is an interpretation.
  \<^item> \<open>Ldb_Crc32c\<close>: \<open>util/crc32c\<close> with its four tables, against the bitwise definition.
  \<^item> \<open>Ldb_Bloom\<close>: \<open>util/hash\<close> and \<open>util/bloom\<close>; the locale \<open>filter_policy\<close> is the interface
    of \<open>leveldb/filter_policy.h\<close>.
  \<^item> \<open>Ldb_Log_Writer\<close>, \<open>Ldb_Log_Reader\<close>: \<open>db/log_writer\<close> and \<open>db/log_reader\<close>, with the format of
    logs as a function from records to bytes (\<open>log_bytes\<close>).
  \<^item> \<open>Ldb_Comparator\<close>: slices and \<open>util/comparator\<close>; the locales \<open>key_order\<close> and \<open>comparator\<close>
    are the interface of \<open>leveldb/comparator.h\<close>.
  \<^item> \<open>Ldb_Format\<close>: \<open>db/dbformat\<close>.  A comparator or filter policy of user keys gives one of
    internal keys (sublocales of \<open>user_comparator\<close> and \<open>user_filter_policy\<close>).
  \<^item> \<open>Ldb_Write_Batch\<close>: \<open>db/write_batch\<close>, with a batch as a sequence of updates.
  \<^item> \<open>Ldb_Iterator\<close>: the interface \<open>leveldb/iterator.h\<close>, the locale \<open>iterator\<close>: a cursor in a sorted
    list, with the passes and lookups that follow from it.
  \<^item> \<open>Ldb_Block\<close>: \<open>table/block_builder\<close> and \<open>table/block\<close>.  \<open>Ldb_Block_Cursor\<close> gives the bytes of a list
    of entries (\<open>block_bytes\<close>) and what parsing does in them, \<open>Ldb_Block_Iter\<close> shows that iterators
    are instances of \<open>iterator\<close> (a sublocale of \<open>slice_order\<close>), \<open>Ldb_Block_Build\<close> that the builder
    writes these bytes.
  \<^item> \<open>Ldb_Random\<close>: \<open>util/random\<close>.  \<open>Ldb_Arena\<close>: \<open>util/arena\<close>, with what a region of memory handed out
    promises (\<open>hands_out\<close>).
  \<^item> \<open>Ldb_Skiplist\<close>: \<open>db/skiplist.h\<close>.  \<open>Ldb_Skiplist_Rep\<close> says how its nodes represent a list of keys
    (\<open>skip_rep\<close>: on each level the nodes that reach it are linked in order), that insertion keeps
    this, and what the searches find.
  \<^item> \<open>Ldb_Memtable\<close>: \<open>db/memtable\<close> and the insertion of write batches.  \<open>Ldb_Memtable_Rep\<close> shows that a
    memtable stands for a sorted list of internal keys and for the history of the updates
    (\<open>mem_rep\<close>, \<open>mem_hist\<close>), and that its iterator is an \<open>iterator\<close>.
  \<^item> \<open>Ldb_Merger\<close>: \<open>table/iterator_wrapper.h\<close> and \<open>table/merger\<close>; the virtual methods of an iterator
    are the record \<open>iter_class\<close>.  \<open>Ldb_Merger_Rep\<close>: a class of iterators refines a cursor in a sorted
    list (the locale \<open>iter_class\<close> and \<open>follows\<close>, over any sequence of moves); if the children
    do, so does the iterator that merges them.
  \<^item> \<open>Ldb_Db_Iter\<close>: \<open>db/db_iter\<close>, the iterator over user keys.  \<open>Ldb_Db_Iter_Rep\<close>: over a list of
    internal keys it refines a cursor in the list of what the snapshot sees (\<open>db_view\<close>).
  \<^item> \<open>Ldb_Two_Level\<close>: \<open>table/two_level_iterator\<close>.  An index whose values are opened as iterators (the
    locale \<open>two_levels\<close>) is an iterator over the concatenation of the parts.
  \<^item> \<open>Ldb_Filter_Block\<close>: \<open>table/filter_block\<close>, for any filter policy without false negatives (the locale
    \<open>table_policy\<close>).
  \<^item> \<open>Ldb_Table_Format\<close>, \<open>Ldb_Table_Builder\<close>, \<open>Ldb_Table\<close>: \<open>table/format\<close>, \<open>table/table_builder\<close> and
    \<open>table/table\<close>.  \<open>Ldb_Table_Build\<close> says what a table file is (\<open>table_file\<close>: blocks that the keys
    of the index separate, and filters that know the keys); \<open>Ldb_Table_Rep\<close> is the invariant of the
    builder (\<open>tb_rep\<close>), \<open>Ldb_Table_Finish\<close> shows that \<open>Finish\<close> makes it a table file, and
    \<open>Ldb_Table_Read\<close> what is read from one (\<open>table_opened\<close>).  The locale \<open>table_order\<close> is what the
    builder needs of a comparator; \<open>Ldb_Table_Stored\<close> shows it of bytes and of internal keys, and
    has the filter policies.
  \<^item> \<open>Ldb_Database\<close>: \<open>NewIterator\<close> and \<open>Get\<close> of \<open>db/db_impl\<close>, and the interpretation of these
    locales on memtables and blocks.
  \<^item> \<open>Ldb_Version_Edit\<close>: \<open>db/version_edit\<close>, with an edit as a sequence of calls (\<open>set_field\<close>).
  \<^item> \<open>Ldb_Filename\<close>: \<open>util/logging\<close>, \<open>db/filename\<close> and writing of small files in \<open>util/env.cc\<close>, over
    what a file system promises (\<open>env_files\<close>).
  \<^item> \<open>Ldb_Version\<close>: what a lookup in a table saves, from \<open>db/version_set\<close>.
  \<^item> Properties: \<open>Ldb_Properties\<close>, \<open>Ldb_Block_Properties\<close>, \<open>Ldb_Memtable_Properties\<close>,
    \<open>Ldb_Database_Properties\<close>, \<open>Ldb_Manifest_Properties\<close>, \<open>Ldb_Table_Properties\<close>.

  \<^bold>\<open>Base64.\<close>  \<open>F_Base64\<close> holds both functions and their properties.

  \<^bold>\<open>What the properties show.\<close>  Round trips of every format, alone and nested (numbers, tags,
  strings, logs, batches, internal keys, version edits, file names, Base64); the bytes and sizes the encoder of nanopb
  produces; the safety of its decoder on any input; equivalence of unrolled and table-driven
  code with short reference definitions; contracts of interfaces (comparators, filter policies, iterators); refinement of the history of
  all updates by the memtable, by lookups, in memory and in tables, and by iterators over a snapshot; tables as files
  that stand for the list they were built from; errors on damaged input (checksums of logs and of tables,
  malformed batches, full buffers).

  \<^bold>\<open>Not modelled.\<close>  Allocation of pointer fields in nanopb (not compiled in the application).
  Of LevelDB: versions and compaction, the caches of blocks and of tables, and the file system need a model of threads
  and the operating system.  Atomic links of the skip list are read and written by one thread.
  Objective-C and Swift code, and libraries that are present as headers only.
\<close>

end
